(* ===== verification/Prelude.thy ===== *)
theory Prelude
  imports Main "HOL-Library.Word"
begin

text \<open>
  The prelude of the development: the machine types every component shares (bytes,
  16, 32 and 64 bit words, byte buffers), the reader type of the wire decoders, the
  bundles of rewrite rules the components extend, the contract of a wire codec as a
  locale, and the generic list and word lemmas.
\<close>

unbundle bit_operations_syntax

named_theorems wire_simps \<open>decoding what an encoder wrote\<close>
named_theorems size_simps \<open>the number of bytes an encoder writes\<close>

section \<open>Machine types\<close>

type_synonym byte = "8 word"
type_synonym bytes = "8 word list"
type_synonym u16 = "16 word"
type_synonym u32 = "32 word"
type_synonym u64 = "64 word"

text \<open>
  A decoder of \<open>serialization.hpp\<close> takes the input pointer and returns the pointer
  behind what it consumed. The model of the pointer is the list of the bytes from it to
  the end of the allocation; reading behind that end, which is undefined in C++, is
  \<open>None\<close>.
\<close>

type_synonym 'a reader = "bytes \<Rightarrow> ('a \<times> bytes) option"

definition bind_reader :: "'a reader \<Rightarrow> ('a \<Rightarrow> 'b reader) \<Rightarrow> 'b reader" where
  "bind_reader r f bs = (case r bs of None \<Rightarrow> None | Some (x, rest) \<Rightarrow> f x rest)"

definition ret_reader :: "'a \<Rightarrow> 'a reader" where
  "ret_reader x bs = Some (x, bs)"

definition read_bytes :: "nat \<Rightarrow> bytes reader" where
  "read_bytes n bs = (if n \<le> length bs then Some (take n bs, drop n bs) else None)"

fun read_many :: "nat \<Rightarrow> 'a reader \<Rightarrow> 'a list reader" where
  "read_many 0 r bs = Some ([], bs)"
| "read_many (Suc n) r bs =
     (case r bs of None \<Rightarrow> None
      | Some (x, rest) \<Rightarrow>
          (case read_many n r rest of None \<Rightarrow> None
           | Some (xs, rest') \<Rightarrow> Some (x # xs, rest')))"

lemma bind_reader_Some [simp]:
  "r bs = Some (x, rest) \<Longrightarrow> bind_reader r f bs = f x rest"
  by (simp add: bind_reader_def)

lemma bind_reader_None [simp]: "r bs = None \<Longrightarrow> bind_reader r f bs = None"
  by (simp add: bind_reader_def)

lemma ret_reader_apply [simp]: "ret_reader x bs = Some (x, bs)"
  by (simp add: ret_reader_def)

lemma read_bytes_append [simp]: "n = length xs \<Longrightarrow> read_bytes n (xs @ rest) = Some (xs, rest)"
  by (simp add: read_bytes_def)

lemma read_bytes_shrinks: "read_bytes n bs = Some (x, rest) \<Longrightarrow> length rest = length bs - n"
  by (auto simp: read_bytes_def split: if_splits)

section \<open>The contract of a wire codec\<close>

text \<open>
  What every encoder/decoder pair of the wire format promises: on the values the format
  can carry, decoding the encoding, whatever follows it, gives the value and the
  bytes that follow.
\<close>

locale wire_codec =
  fixes valid :: "'a \<Rightarrow> bool"
    and enc :: "'a \<Rightarrow> bytes"
    and dec :: "'a reader"
  assumes dec_enc: "valid x \<Longrightarrow> dec (enc x @ rest) = Some (x, rest)"
begin

lemma enc_inj: "valid x \<Longrightarrow> valid y \<Longrightarrow> enc x = enc y \<Longrightarrow> x = y"
  using dec_enc [of x "[]"] dec_enc [of y "[]"] by simp

lemma dec_enc_exact: "valid x \<Longrightarrow> dec (enc x) = Some (x, [])"
  using dec_enc [of x "[]"] by simp

lemma read_many_enc:
  "\<forall>x \<in> set xs. valid x \<Longrightarrow>
   read_many (length xs) dec (concat (map enc xs) @ rest) = Some (xs, rest)"
  by (induction xs) (simp_all add: dec_enc)

lemma enc_prefix_free:
  assumes "valid x" and "valid y" and "enc x @ r = enc y @ s"
  shows "x = y \<and> r = s"
proof -
  have "Some (x, r) = Some (y, s)"
    unfolding dec_enc [OF assms(1), symmetric] dec_enc [OF assms(2), symmetric]
    by (simp only: assms(3))
  then show ?thesis by simp
qed

end

text \<open>A codec of fixed width, as the integer encodings are.\<close>

locale fixed_codec = wire_codec valid enc dec
  for valid :: "'a \<Rightarrow> bool" and enc :: "'a \<Rightarrow> bytes" and dec :: "'a reader" +
  fixes width :: nat
  assumes enc_length: "length (enc x) = width"
    and dec_short: "length bs < width \<Longrightarrow> dec bs = None"
begin

lemma concat_enc_length: "length (concat (map enc xs)) = width * length xs"
  by (induction xs) (simp_all add: enc_length)

lemma dec_needs_width: "dec bs = Some (x, rest) \<Longrightarrow> width \<le> length bs"
  using dec_short [of bs] by (cases "length bs < width") auto

end

section \<open>Overwriting a part of a buffer\<close>

text \<open>\<open>memcpy\<close> of \<open>xs\<close> to offset \<open>off\<close> of a buffer, where it fits.\<close>

definition put_bytes :: "nat \<Rightarrow> bytes \<Rightarrow> bytes \<Rightarrow> bytes" where
  "put_bytes off xs buf = take off buf @ xs @ drop (off + length xs) buf"

lemma length_put_bytes [simp]:
  "off + length xs \<le> length buf \<Longrightarrow> length (put_bytes off xs buf) = length buf"
  by (simp add: put_bytes_def)

lemma take_put_bytes [simp]: "off \<le> length buf \<Longrightarrow> take off (put_bytes off xs buf) = take off buf"
  by (simp add: put_bytes_def)

lemma take_put_bytes_end [simp]:
  "off \<le> length buf \<Longrightarrow> take (off + length xs) (put_bytes off xs buf) = take off buf @ xs"
  by (simp add: put_bytes_def)

lemma drop_put_bytes_start [simp]:
  "off \<le> length buf \<Longrightarrow>
   drop off (put_bytes off xs buf) = xs @ drop (off + length xs) buf"
  by (simp add: put_bytes_def)

lemma drop_put_bytes_end [simp]:
  "off \<le> length buf \<Longrightarrow>
   drop (off + length xs) (put_bytes off xs buf) = drop (off + length xs) buf"
  by (simp add: put_bytes_def)

section \<open>Words below a bound\<close>

lemma unat_of_nat_less:
  fixes w :: "'a::len word"
  assumes "n < unat w"
  shows "unat (of_nat n :: 'a word) = n"
proof -
  have "n < 2 ^ LENGTH('a)" using assms unsigned_less [of w] by (rule less_trans)
  then show ?thesis by (simp add: unat_of_nat)
qed

lemma word_of_nat_less_word: "n < unat w \<Longrightarrow> of_nat n < w"
  by (simp add: word_less_nat_alt unat_of_nat_less)

end
