(* ===== verification/Address.thy ===== *)
theory Address
  imports Prelude
begin

text \<open>
  \<open>address.cpp\<close>, \<open>address.hpp\<close>: host addresses. The driver keeps a \<open>sockaddr_storage\<close>;
  what it reads of it is the family, the address and the port. The conversions between
  the text and the binary form are libuv functions, which are parameters (the record
  \<open>uv_inet\<close>) of the operations that use them.
\<close>

section \<open>Data\<close>

text \<open>
  \<open>Unset\<close> is the zeroed storage of the default constructor. \<open>Inet\<close> holds \<open>s_addr\<close> as the
  machine reads it and the port, \<open>Inet6\<close> the sixteen bytes of the address and the port.
\<close>

datatype address = Unset | Inet u32 u16 | Inet6 bytes u16

record uv_inet =
  inet_pton4 :: "string \<Rightarrow> bool"
  inet_pton6 :: "string \<Rightarrow> bool"
  ip4_addr :: "string \<Rightarrow> u32 \<Rightarrow> address"
  ip6_addr :: "string \<Rightarrow> u32 \<Rightarrow> address"
  inet_ntop4 :: "bytes \<Rightarrow> string"
  inet_ntop6 :: "bytes \<Rightarrow> string"
  ip_name :: "address \<Rightarrow> string"

section \<open>Operations\<close>

definition family :: "address \<Rightarrow> int" where
  "family a = (case a of Unset \<Rightarrow> 0 | Inet _ _ \<Rightarrow> 2 | Inet6 _ _ \<Rightarrow> 10)"

text \<open>\<open>Address::init(const sockaddr* )\<close>: the storage changes for the two known families only.\<close>

definition init_address :: "address \<Rightarrow> address \<Rightarrow> bool \<times> address" where
  "init_address addr self =
     (case addr of Inet _ _ \<Rightarrow> (True, addr) | Inet6 _ _ \<Rightarrow> (True, addr) | Unset \<Rightarrow> (False, self))"

definition from_string :: "uv_inet \<Rightarrow> string \<Rightarrow> u32 \<Rightarrow> address \<Rightarrow> bool \<times> address" where
  "from_string uv ip port output =
     (if inet_pton4 uv ip then (True, snd (init_address (ip4_addr uv ip port) output))
      else if inet_pton6 uv ip then (True, snd (init_address (ip6_addr uv ip port) output))
      else (False, output))"

text \<open>\<open>from_inet\<close> on a fresh output address; the assertion on the size is \<open>None\<close>.\<close>

definition from_inet :: "uv_inet \<Rightarrow> bytes \<Rightarrow> u32 \<Rightarrow> address option" where
  "from_inet uv data port =
     (if length data = 4 then
        Some (snd (init_address (ip4_addr uv (inet_ntop4 uv data) port) Unset))
      else if length data = 16 then
        Some (snd (init_address (ip6_addr uv (inet_ntop6 uv data) port) Unset))
      else None)"

definition address_port :: "address \<Rightarrow> int option" where
  "address_port a = (case a of Inet _ p \<Rightarrow> Some (uint p) | Inet6 _ p \<Rightarrow> Some (uint p) | Unset \<Rightarrow> None)"

fun memcmp :: "bytes \<Rightarrow> bytes \<Rightarrow> int" where
  "memcmp (a # as) (b # bs) = (if a < b then - 1 else if b < a then 1 else memcmp as bs)"
| "memcmp _ _ = 0"

text \<open>\<open>Address::compare\<close>: two unset addresses run into the assertion.\<close>

definition compare_address :: "address \<Rightarrow> address \<Rightarrow> int option" where
  "compare_address a b =
     (if family a \<noteq> family b then Some (if family a < family b then - 1 else 1)
      else (case (a, b) of
              (Inet x _, Inet y _) \<Rightarrow> Some (if x \<noteq> y then (if x < y then - 1 else 1) else 0)
            | (Inet6 x _, Inet6 y _) \<Rightarrow> Some (memcmp x y)
            | _ \<Rightarrow> None))"

definition less_address :: "address \<Rightarrow> address \<Rightarrow> bool" where
  "less_address a b = (case compare_address a b of Some c \<Rightarrow> c < 0 | None \<Rightarrow> False)"

definition eq_address :: "address \<Rightarrow> address \<Rightarrow> bool" where
  "eq_address a b = (case compare_address a b of Some c \<Rightarrow> c = 0 | None \<Rightarrow> False)"

section \<open>The order of addresses\<close>

text \<open>The addresses a socket can have.\<close>

definition proper_address :: "address \<Rightarrow> bool" where
  "proper_address a = (case a of Unset \<Rightarrow> False | Inet _ _ \<Rightarrow> True | Inet6 x _ \<Rightarrow> length x = 16)"

text \<open>What the comparison looks at: everything but the port.\<close>

definition host_part :: "address \<Rightarrow> address" where
  "host_part a = (case a of Unset \<Rightarrow> Unset | Inet x _ \<Rightarrow> Inet x 0 | Inet6 x _ \<Rightarrow> Inet6 x 0)"

lemma memcmp_refl [simp]: "memcmp x x = 0"
  by (induction x) auto

lemma memcmp_eq_0: "length x = length y \<Longrightarrow> memcmp x y = 0 \<longleftrightarrow> x = y"
  by (induction x y rule: list_induct2) auto

lemma memcmp_antisym: "length x = length y \<Longrightarrow> memcmp y x = - memcmp x y"
  by (induction x y rule: list_induct2) auto

lemma memcmp_trans:
  "length x = length y \<Longrightarrow> length y = length z \<Longrightarrow> memcmp x y < 0 \<Longrightarrow> memcmp y z < 0 \<Longrightarrow> memcmp x z < 0"
  by (induction x y z rule: list_induct3) (auto split: if_splits)

lemmas address_defs = proper_address_def host_part_def less_address_def eq_address_def
  compare_address_def family_def

lemma eq_address_host_part:
  "proper_address a \<Longrightarrow> proper_address b \<Longrightarrow> eq_address a b \<longleftrightarrow> host_part a = host_part b"
  by (auto simp: address_defs memcmp_eq_0 split: address.splits)

lemma less_address_simps [simp]:
  "less_address (Inet x p) (Inet y q) \<longleftrightarrow> x < y"
  "less_address (Inet6 s p) (Inet6 t q) \<longleftrightarrow> memcmp s t < 0"
  "less_address (Inet x p) (Inet6 t q)"
  "\<not> less_address (Inet6 s p) (Inet y q)"
  by (auto simp: address_defs)

lemma less_address_irrefl: "\<not> less_address a a"
  by (cases a) (auto simp: less_address_def compare_address_def)

lemma less_address_trans:
  assumes "proper_address a" and "proper_address b" and "proper_address c"
    and "less_address a b" and "less_address b c"
  shows "less_address a c"
  using assms by (cases a; cases b; cases c) (auto simp: proper_address_def intro: memcmp_trans)

lemma less_address_total:
  assumes "proper_address a" and "proper_address b"
  shows "less_address a b \<or> less_address b a \<or> eq_address a b"
proof (cases a)
  case (Inet x p)
  then show ?thesis using assms by (cases b) (auto simp: address_defs)
next
  case (Inet6 s p)
  then show ?thesis using assms memcmp_antisym [of s]
    by (cases b) (auto simp: address_defs)
next
  case Unset
  then show ?thesis using assms by (simp add: proper_address_def)
qed

end
