(* ===== verification/Serialization.thy ===== *)
theory Serialization
  imports Address
begin

text \<open>
  \<open>src/cpp-driver-master/src/serialization.hpp\<close>: the big-endian encoders and decoders
  of the native protocol. An encoder is the list of the bytes it stores at its output
  pointer, a decoder is a \<open>reader\<close>. Signed and unsigned integers are words; the shift of
  a signed operand is the arithmetic one.
\<close>

section \<open>Integers\<close>

definition encode_byte :: "byte \<Rightarrow> bytes" where
  "encode_byte value = [value]"

fun decode_byte :: "byte reader" where
  "decode_byte (b # rest) = Some (b, rest)"
| "decode_byte [] = None"

definition encode_int8 :: "byte \<Rightarrow> bytes" where
  "encode_int8 value = [value]"

fun decode_int8 :: "byte reader" where
  "decode_int8 (b # rest) = Some (b, rest)"
| "decode_int8 [] = None"

definition encode_uint16 :: "u16 \<Rightarrow> bytes" where
  "encode_uint16 value = [ucast (drop_bit 8 value), ucast (drop_bit 0 value)]"

fun decode_uint16 :: "u16 reader" where
  "decode_uint16 (b0 # b1 # rest) =
     Some (push_bit 0 (ucast b1) OR push_bit 8 (ucast b0), rest)"
| "decode_uint16 _ = None"

definition encode_int16 :: "u16 \<Rightarrow> bytes" where
  "encode_int16 value = [ucast (signed_drop_bit 8 value), ucast (signed_drop_bit 0 value)]"

fun decode_int16 :: "u16 reader" where
  "decode_int16 (b0 # b1 # rest) =
     Some (push_bit 0 (ucast b1) OR push_bit 8 (ucast b0), rest)"
| "decode_int16 _ = None"

definition encode_int32 :: "u32 \<Rightarrow> bytes" where
  "encode_int32 value =
     [ucast (signed_drop_bit 24 value), ucast (signed_drop_bit 16 value),
      ucast (signed_drop_bit 8 value), ucast (signed_drop_bit 0 value)]"

fun decode_int32 :: "u32 reader" where
  "decode_int32 (b0 # b1 # b2 # b3 # rest) =
     Some (push_bit 0 (ucast b3) OR push_bit 8 (ucast b2) OR
           push_bit 16 (ucast b1) OR push_bit 24 (ucast b0), rest)"
| "decode_int32 _ = None"

definition encode_uint32 :: "u32 \<Rightarrow> bytes" where
  "encode_uint32 value =
     [ucast (drop_bit 24 value), ucast (drop_bit 16 value),
      ucast (drop_bit 8 value), ucast (drop_bit 0 value)]"

fun decode_uint32 :: "u32 reader" where
  "decode_uint32 (b0 # b1 # b2 # b3 # rest) =
     Some (push_bit 0 (ucast b3) OR push_bit 8 (ucast b2) OR
           push_bit 16 (ucast b1) OR push_bit 24 (ucast b0), rest)"
| "decode_uint32 _ = None"

definition encode_int64 :: "u64 \<Rightarrow> bytes" where
  "encode_int64 value =
     [ucast (signed_drop_bit 56 value), ucast (signed_drop_bit 48 value),
      ucast (signed_drop_bit 40 value), ucast (signed_drop_bit 32 value),
      ucast (signed_drop_bit 24 value), ucast (signed_drop_bit 16 value),
      ucast (signed_drop_bit 8 value), ucast (signed_drop_bit 0 value)]"

definition encode_uint64 :: "u64 \<Rightarrow> bytes" where
  "encode_uint64 value =
     [ucast (drop_bit 56 value), ucast (drop_bit 48 value),
      ucast (drop_bit 40 value), ucast (drop_bit 32 value),
      ucast (drop_bit 24 value), ucast (drop_bit 16 value),
      ucast (drop_bit 8 value), ucast (drop_bit 0 value)]"

fun decode_int64 :: "u64 reader" where
  "decode_int64 (b0 # b1 # b2 # b3 # b4 # b5 # b6 # b7 # rest) =
     Some (push_bit 0 (ucast b7) OR push_bit 8 (ucast b6) OR
           push_bit 16 (ucast b5) OR push_bit 24 (ucast b4) OR
           push_bit 32 (ucast b3) OR push_bit 40 (ucast b2) OR
           push_bit 48 (ucast b1) OR push_bit 56 (ucast b0), rest)"
| "decode_int64 _ = None"

text \<open>
  \<open>float\<close> and \<open>double\<close> are their IEC 559 bit patterns: \<open>copy_cast\<close> moves the bits
  unchanged between the two representations.
\<close>

definition encode_float :: "u32 \<Rightarrow> bytes" where
  "encode_float value = encode_int32 value"

definition decode_float :: "u32 reader" where
  "decode_float input = decode_int32 input"

definition encode_double :: "u64 \<Rightarrow> bytes" where
  "encode_double value = encode_int64 value"

definition decode_double :: "u64 reader" where
  "decode_double input = decode_int64 input"

lemma signed_low_byte:
  fixes v :: "'a::len word"
  assumes "k + 8 \<le> LENGTH('a)"
  shows "(ucast (signed_drop_bit k v) :: byte) = ucast (drop_bit k v)"
  using assms by (intro bit_word_eqI) (auto simp: bit_simps min_def)

lemma encode_int16_eq: "encode_int16 v = encode_uint16 v"
  by (simp add: encode_int16_def encode_uint16_def signed_low_byte)

lemma encode_int32_eq: "encode_int32 v = encode_uint32 v"
  by (simp add: encode_int32_def encode_uint32_def signed_low_byte)

lemma encode_int64_eq: "encode_int64 v = encode_uint64 v"
  by (simp add: encode_int64_def encode_uint64_def signed_low_byte)

section \<open>Strings, maps and lists\<close>

definition decode_string :: "bytes reader" where
  "decode_string input =
     (case decode_uint16 input of None \<Rightarrow> None
      | Some (string_size, pos) \<Rightarrow> read_bytes (unat string_size) pos)"

definition decode_long_string :: "bytes reader" where
  "decode_long_string input =
     (case decode_int32 input of None \<Rightarrow> None
      | Some (string_size, pos) \<Rightarrow>
          if sint string_size \<ge> 0 then read_bytes (nat (sint string_size)) pos else None)"

text \<open>The value \<open>None\<close> is the \<open>NULL\<close> output of a negative length.\<close>

definition decode_bytes :: "bytes option reader" where
  "decode_bytes input =
     (case decode_int32 input of None \<Rightarrow> None
      | Some (bytes_size, pos) \<Rightarrow>
          if sint bytes_size < 0 then Some (None, pos)
          else (case read_bytes (nat (sint bytes_size)) pos of None \<Rightarrow> None
                | Some (x, rest) \<Rightarrow> Some (Some x, rest)))"

definition decode_inet :: "uv_inet \<Rightarrow> address reader" where
  "decode_inet uv input =
     (case decode_byte input of None \<Rightarrow> None
      | Some (address_len, pos) \<Rightarrow>
          if unat address_len \<le> 16 then
            (case read_bytes (unat address_len) pos of None \<Rightarrow> None
             | Some (addr, pos) \<Rightarrow>
                 (case decode_int32 pos of None \<Rightarrow> None
                  | Some (port, pos) \<Rightarrow>
                      (case from_inet uv addr port of None \<Rightarrow> None
                       | Some a \<Rightarrow> Some (a, pos))))
          else None)"

text \<open>
  \<open>std::map::insert\<close> keeps the value of a key that is there already, so of a repeated key
  the first value counts.
\<close>

definition map_insert :: "('k \<rightharpoonup> 'v) \<Rightarrow> 'k \<Rightarrow> 'v \<Rightarrow> ('k \<rightharpoonup> 'v)" where
  "map_insert m k v = (case m k of None \<Rightarrow> m(k \<mapsto> v) | Some _ \<Rightarrow> m)"

fun decode_string_map_loop :: "nat \<Rightarrow> (bytes \<rightharpoonup> bytes) \<Rightarrow> (bytes \<rightharpoonup> bytes) reader" where
  "decode_string_map_loop 0 m buffer = Some (m, buffer)"
| "decode_string_map_loop (Suc n) m buffer =
     (case decode_string buffer of None \<Rightarrow> None
      | Some (key, buffer) \<Rightarrow>
          (case decode_string buffer of None \<Rightarrow> None
           | Some (val, buffer) \<Rightarrow> decode_string_map_loop n (map_insert m key val) buffer))"

definition decode_string_map :: "(bytes \<rightharpoonup> bytes) reader" where
  "decode_string_map input =
     (case decode_uint16 input of None \<Rightarrow> None
      | Some (len, buffer) \<Rightarrow> decode_string_map_loop (unat len) Map.empty buffer)"

definition decode_stringlist :: "bytes list reader" where
  "decode_stringlist input =
     (case decode_uint16 input of None \<Rightarrow> None
      | Some (len, buffer) \<Rightarrow> read_many (unat len) decode_string buffer)"

fun decode_string_multimap_loop ::
  "nat \<Rightarrow> (bytes \<rightharpoonup> bytes list) \<Rightarrow> (bytes \<rightharpoonup> bytes list) reader" where
  "decode_string_multimap_loop 0 m buffer = Some (m, buffer)"
| "decode_string_multimap_loop (Suc n) m buffer =
     (case decode_string buffer of None \<Rightarrow> None
      | Some (key, buffer) \<Rightarrow>
          (case decode_stringlist buffer of None \<Rightarrow> None
           | Some (val, buffer) \<Rightarrow> decode_string_multimap_loop n (map_insert m key val) buffer))"

definition decode_string_multimap :: "(bytes \<rightharpoonup> bytes list) reader" where
  "decode_string_multimap input =
     (case decode_uint16 input of None \<Rightarrow> None
      | Some (len, buffer) \<Rightarrow> decode_string_multimap_loop (unat len) Map.empty buffer)"

text \<open>The type code and, for a custom type (code 0), its class name.\<close>

definition decode_option :: "(u16 \<times> bytes option) reader" where
  "decode_option input =
     (case decode_uint16 input of None \<Rightarrow> None
      | Some (type, buffer) \<Rightarrow>
          if type = 0 then
            (case decode_string buffer of None \<Rightarrow> None
             | Some (class_name, buffer) \<Rightarrow> Some ((type, Some class_name), buffer))
          else Some ((type, None), buffer))"

definition decode_size :: "int \<Rightarrow> u32 reader" where
  "decode_size protocol_version input =
     (if protocol_version \<ge> 3 then decode_int32 input
      else (case decode_uint16 input of None \<Rightarrow> None
            | Some (temp, pos) \<Rightarrow> Some (ucast temp, pos)))"

section \<open>UUIDs\<close>

record cass_uuid =
  time_and_version :: u64
  clock_seq_and_node :: u64

text \<open>The \<open>n\<close> low bytes of a word, the lowest one last: the loop of \<open>encode_uuid\<close>.\<close>

fun low_bytes :: "nat \<Rightarrow> u64 \<Rightarrow> bytes" where
  "low_bytes 0 v = []"
| "low_bytes (Suc n) v = low_bytes n (drop_bit 8 v) @ [ucast (v AND 0xFF)]"

definition encode_uuid :: "cass_uuid \<Rightarrow> bytes" where
  "encode_uuid uuid =
     (let t0 = time_and_version uuid;
          o3 = ucast (t0 AND 0xFF); t1 = drop_bit 8 t0;
          o2 = ucast (t1 AND 0xFF); t2 = drop_bit 8 t1;
          o1 = ucast (t2 AND 0xFF); t3 = drop_bit 8 t2;
          o0 = ucast (t3 AND 0xFF); t4 = drop_bit 8 t3;
          o5 = ucast (t4 AND 0xFF); t5 = drop_bit 8 t4;
          o4 = ucast (t5 AND 0xFF); t6 = drop_bit 8 t5;
          o7 = ucast (t6 AND 0xFF); t7 = drop_bit 8 t6;
          o6 = ucast (t7 AND 0xFF)
      in [o0, o1, o2, o3, o4, o5, o6, o7] @ low_bytes 8 (clock_seq_and_node uuid))"

definition decode_uuid :: "cass_uuid reader" where
  "decode_uuid input =
     (case read_bytes 16 input of None \<Rightarrow> None
      | Some (i, rest) \<Rightarrow>
          Some (\<lparr>time_and_version =
                   ucast (i ! 3) OR push_bit 8 (ucast (i ! 2)) OR
                   push_bit 16 (ucast (i ! 1)) OR push_bit 24 (ucast (i ! 0)) OR
                   push_bit 32 (ucast (i ! 5)) OR push_bit 40 (ucast (i ! 4)) OR
                   push_bit 48 (ucast (i ! 7)) OR push_bit 56 (ucast (i ! 6)),
                 clock_seq_and_node =
                   foldl (\<lambda>acc k. acc OR push_bit (8 * k) (ucast (i ! (15 - k)))) 0 [0..<8]\<rparr>,
                rest))"

section \<open>Round trips\<close>

lemma byte_piece:
  fixes v :: "'a::len word"
  assumes "k + 8 \<le> LENGTH('a)"
  shows "bit (push_bit k (ucast (ucast (drop_bit k v) :: byte)) :: 'a word) n \<longleftrightarrow>
         k \<le> n \<and> n < k + 8 \<and> bit v n"
  using assms by (auto simp: bit_simps)

lemma join_bytes_16:
  fixes v :: u16
  shows "push_bit 0 (ucast (ucast (drop_bit 0 v) :: byte)) OR
         push_bit 8 (ucast (ucast (drop_bit 8 v) :: byte)) = v" (is "?l = v")
proof (rule bit_word_eqI)
  fix n assume "n < LENGTH(16)"
  then have "n < 16" by simp
  then show "bit ?l n \<longleftrightarrow> bit v n"
    unfolding bit_or_iff by (simp only: byte_piece len_num1 len_bit0) arith
qed

lemma join_bytes_32:
  fixes v :: u32
  shows "push_bit 0 (ucast (ucast (drop_bit 0 v) :: byte)) OR
         push_bit 8 (ucast (ucast (drop_bit 8 v) :: byte)) OR
         push_bit 16 (ucast (ucast (drop_bit 16 v) :: byte)) OR
         push_bit 24 (ucast (ucast (drop_bit 24 v) :: byte)) = v" (is "?l = v")
proof (rule bit_word_eqI)
  fix n assume "n < LENGTH(32)"
  then have "n < 32" by simp
  then show "bit ?l n \<longleftrightarrow> bit v n"
    unfolding bit_or_iff by (simp only: byte_piece len_num1 len_bit0) arith
qed

lemma join_bytes_64:
  fixes v :: u64
  shows "push_bit 0 (ucast (ucast (drop_bit 0 v) :: byte)) OR
         push_bit 8 (ucast (ucast (drop_bit 8 v) :: byte)) OR
         push_bit 16 (ucast (ucast (drop_bit 16 v) :: byte)) OR
         push_bit 24 (ucast (ucast (drop_bit 24 v) :: byte)) OR
         push_bit 32 (ucast (ucast (drop_bit 32 v) :: byte)) OR
         push_bit 40 (ucast (ucast (drop_bit 40 v) :: byte)) OR
         push_bit 48 (ucast (ucast (drop_bit 48 v) :: byte)) OR
         push_bit 56 (ucast (ucast (drop_bit 56 v) :: byte)) = v" (is "?l = v")
proof (rule bit_word_eqI)
  fix n assume "n < LENGTH(64)"
  then have "n < 64" by simp
  then show "bit ?l n \<longleftrightarrow> bit v n"
    unfolding bit_or_iff by (simp only: byte_piece len_num1 len_bit0) arith
qed

lemmas join_bytes = join_bytes_16 join_bytes_32 join_bytes_64

lemma decode_encode_byte [wire_simps]: "decode_byte (encode_byte v @ rest) = Some (v, rest)"
  by (simp add: encode_byte_def)

lemma decode_encode_int8 [wire_simps]: "decode_int8 (encode_int8 v @ rest) = Some (v, rest)"
  by (simp add: encode_int8_def)

lemma decode_encode_uint16 [wire_simps]: "decode_uint16 (encode_uint16 v @ rest) = Some (v, rest)"
  using join_bytes_16 [of v] by (simp add: encode_uint16_def)

lemma decode_encode_int16 [wire_simps]: "decode_int16 (encode_int16 v @ rest) = Some (v, rest)"
  using join_bytes_16 [of v] by (simp add: encode_int16_eq encode_uint16_def)

lemma decode_encode_uint32 [wire_simps]: "decode_uint32 (encode_uint32 v @ rest) = Some (v, rest)"
  using join_bytes_32 [of v] by (simp add: encode_uint32_def)

lemma decode_encode_int32 [wire_simps]: "decode_int32 (encode_int32 v @ rest) = Some (v, rest)"
  using join_bytes_32 [of v] by (simp add: encode_int32_eq encode_uint32_def)

lemma decode_encode_int64 [wire_simps]: "decode_int64 (encode_int64 v @ rest) = Some (v, rest)"
  using join_bytes_64 [of v] by (simp add: encode_int64_eq encode_uint64_def)

lemma encode_lengths [size_simps, simp]:
  "length (encode_byte b) = 1" "length (encode_int8 b) = 1"
  "length (encode_uint16 h) = 2" "length (encode_int16 h) = 2"
  "length (encode_uint32 w) = 4" "length (encode_int32 w) = 4"
  "length (encode_uint64 l) = 8" "length (encode_int64 l) = 8"
  "length (encode_float w) = 4" "length (encode_double l) = 8"
  by (simp_all add: encode_byte_def encode_int8_def encode_uint16_def encode_int16_def
      encode_uint32_def encode_int32_def encode_uint64_def encode_int64_def
      encode_float_def encode_double_def)

lemma decode_short:
  "length bs < 2 \<Longrightarrow> decode_uint16 bs = None"
  "length bs < 2 \<Longrightarrow> decode_int16 bs = None"
  "length bs < 4 \<Longrightarrow> decode_uint32 bs = None"
  "length bs < 4 \<Longrightarrow> decode_int32 bs = None"
  "length bs < 8 \<Longrightarrow> decode_int64 bs = None"
  by (cases bs rule: decode_uint16.cases, auto)
    (cases bs rule: decode_int16.cases, auto,
     cases bs rule: decode_uint32.cases, auto,
     cases bs rule: decode_int32.cases, auto,
     cases bs rule: decode_int64.cases, auto)

interpretation uint16: fixed_codec "\<lambda>_. True" encode_uint16 decode_uint16 2
  by unfold_locales (simp_all add: wire_simps decode_short)

interpretation int16: fixed_codec "\<lambda>_. True" encode_int16 decode_int16 2
  by unfold_locales (simp_all add: wire_simps decode_short)

interpretation uint32: fixed_codec "\<lambda>_. True" encode_uint32 decode_uint32 4
  by unfold_locales (simp_all add: wire_simps decode_short)

interpretation int32: fixed_codec "\<lambda>_. True" encode_int32 decode_int32 4
  by unfold_locales (simp_all add: wire_simps decode_short)

interpretation int64: fixed_codec "\<lambda>_. True" encode_int64 decode_int64 8
  by unfold_locales (simp_all add: wire_simps decode_short)

interpretation float32: fixed_codec "\<lambda>_. True" encode_float decode_float 4
  by unfold_locales
    (simp_all add: wire_simps decode_short encode_float_def decode_float_def)

interpretation double64: fixed_codec "\<lambda>_. True" encode_double decode_double 8
  by unfold_locales
    (simp_all add: wire_simps decode_short encode_double_def decode_double_def)

lemma ucast_low_byte: "(ucast (v AND 0xFF) :: byte) = ucast (v :: u64)"
  by (rule bit_word_eqI) (auto simp: bit_simps bit_numeral_rec numeral_eq_Suc less_Suc_eq)

lemma low_bytes_8:
  "low_bytes 8 v =
     [ucast (drop_bit 56 v), ucast (drop_bit 48 v), ucast (drop_bit 40 v), ucast (drop_bit 32 v),
      ucast (drop_bit 24 v), ucast (drop_bit 16 v), ucast (drop_bit 8 v), ucast v]"
  by (simp add: eval_nat_numeral ucast_low_byte del: drop_bit_Suc)

lemma length_encode_uuid [size_simps, simp]: "length (encode_uuid u) = 16"
  by (simp add: encode_uuid_def low_bytes_8 Let_def)

lemma decode_encode_uuid [wire_simps]: "decode_uuid (encode_uuid u @ rest) = Some (u, rest)"
proof -
  have "read_bytes 16 (encode_uuid u @ rest) = Some (encode_uuid u, rest)"
    by simp
  moreover have "encode_uuid u =
     [ucast (drop_bit 24 (time_and_version u)), ucast (drop_bit 16 (time_and_version u)),
      ucast (drop_bit 8 (time_and_version u)), ucast (time_and_version u),
      ucast (drop_bit 40 (time_and_version u)), ucast (drop_bit 32 (time_and_version u)),
      ucast (drop_bit 56 (time_and_version u)), ucast (drop_bit 48 (time_and_version u))] @
      low_bytes 8 (clock_seq_and_node u)"
    by (simp add: encode_uuid_def Let_def ucast_low_byte)
  ultimately show ?thesis
    using join_bytes_64 [of "time_and_version u"] join_bytes_64 [of "clock_seq_and_node u"]
    by (simp add: decode_uuid_def low_bytes_8 upt_rec [of _ 8] or.assoc)
qed

end
