(* ===== verification/Buffer.thy ===== *)
theory Buffer
  imports Serialization
begin

text \<open>
  \<open>buffer.hpp\<close>: the class \<open>Buffer\<close>, a byte array of a fixed size with encoders that write
  at an offset and return the offset behind what they wrote. A buffer is the list of its
  bytes; whether the bytes are stored inline (up to sixteen of them) or in a shared
  reference counted block is not visible in them. Every encoder asserts that its bytes
  fit: a failed assertion is \<open>None\<close>.
\<close>

section \<open>Operations\<close>

type_synonym buffer = bytes

text \<open>An encoder of \<open>Buffer\<close>: offset and buffer to the new offset and buffer.\<close>

type_synonym buffer_op = "nat \<Rightarrow> buffer \<Rightarrow> (nat \<times> buffer) option"

definition buf_copy :: "bytes \<Rightarrow> buffer_op" where
  "buf_copy val offset buf =
     (if offset + length val \<le> length buf
      then Some (offset + length val, put_bytes offset val buf) else None)"

definition buf_encode_byte :: "byte \<Rightarrow> buffer_op" where
  "buf_encode_byte v offset buf =
     (if offset + 1 \<le> length buf then Some (offset + 1, put_bytes offset (encode_byte v) buf) else None)"

definition buf_encode_int8 :: "byte \<Rightarrow> buffer_op" where
  "buf_encode_int8 v offset buf =
     (if offset + 1 \<le> length buf then Some (offset + 1, put_bytes offset (encode_int8 v) buf) else None)"

definition buf_encode_int16 :: "u16 \<Rightarrow> buffer_op" where
  "buf_encode_int16 v offset buf =
     (if offset + 2 \<le> length buf then Some (offset + 2, put_bytes offset (encode_int16 v) buf) else None)"

definition buf_encode_uint16 :: "u16 \<Rightarrow> buffer_op" where
  "buf_encode_uint16 v offset buf =
     (if offset + 2 \<le> length buf then Some (offset + 2, put_bytes offset (encode_uint16 v) buf) else None)"

definition buf_encode_int32 :: "u32 \<Rightarrow> buffer_op" where
  "buf_encode_int32 v offset buf =
     (if offset + 4 \<le> length buf then Some (offset + 4, put_bytes offset (encode_int32 v) buf) else None)"

definition buf_encode_uint32 :: "u32 \<Rightarrow> buffer_op" where
  "buf_encode_uint32 v offset buf =
     (if offset + 4 \<le> length buf then Some (offset + 4, put_bytes offset (encode_uint32 v) buf) else None)"

definition buf_encode_int64 :: "u64 \<Rightarrow> buffer_op" where
  "buf_encode_int64 v offset buf =
     (if offset + 8 \<le> length buf then Some (offset + 8, put_bytes offset (encode_int64 v) buf) else None)"

definition buf_encode_float :: "u32 \<Rightarrow> buffer_op" where
  "buf_encode_float v offset buf =
     (if offset + 4 \<le> length buf then Some (offset + 4, put_bytes offset (encode_float v) buf) else None)"

definition buf_encode_double :: "u64 \<Rightarrow> buffer_op" where
  "buf_encode_double v offset buf =
     (if offset + 8 \<le> length buf then Some (offset + 8, put_bytes offset (encode_double v) buf) else None)"

definition buf_encode_uuid :: "cass_uuid \<Rightarrow> buffer_op" where
  "buf_encode_uuid v offset buf =
     (if offset + 16 \<le> length buf then Some (offset + 16, put_bytes offset (encode_uuid v) buf) else None)"

text \<open>One encoder after the other; a failed assertion ends the run.\<close>

definition buf_then :: "buffer_op \<Rightarrow> buffer_op \<Rightarrow> buffer_op" where
  "buf_then f g offset buf =
     (case f offset buf of None \<Rightarrow> None | Some (pos, buf) \<Rightarrow> g pos buf)"

definition buf_skip :: buffer_op where
  "buf_skip offset buf = Some (offset, buf)"

definition buf_fail :: buffer_op where
  "buf_fail offset buf = None"

text \<open>
  The sizes of the string encoders are the parameters \<open>int32_t\<close> and \<open>uint16_t\<close>: the callers
  pass a \<open>size_t\<close>, which is cut to that width (\<open>of_nat\<close>), and exactly that many bytes are
  copied. Reading behind the end of the source is \<open>None\<close>.
\<close>

definition buf_encode_long_string :: "bytes \<Rightarrow> u32 \<Rightarrow> buffer_op" where
  "buf_encode_long_string val len =
     buf_then (buf_encode_int32 len)
       (if sint len \<ge> 0 \<and> nat (sint len) \<le> length val
        then buf_copy (take (nat (sint len)) val) else buf_fail)"

definition buf_encode_bytes :: "bytes \<Rightarrow> u32 \<Rightarrow> buffer_op" where
  "buf_encode_bytes val len =
     buf_then (buf_encode_int32 len)
       (if sint len > 0 then
          (if nat (sint len) \<le> length val then buf_copy (take (nat (sint len)) val) else buf_fail)
        else buf_skip)"

definition buf_encode_string :: "bytes \<Rightarrow> u16 \<Rightarrow> buffer_op" where
  "buf_encode_string val len =
     buf_then (buf_encode_uint16 len)
       (if unat len \<le> length val then buf_copy (take (unat len) val) else buf_fail)"

fun buf_encode_strings :: "bytes list \<Rightarrow> buffer_op" where
  "buf_encode_strings [] = buf_skip"
| "buf_encode_strings (s # ss) =
     buf_then (buf_encode_string s (of_nat (length s))) (buf_encode_strings ss)"

definition buf_encode_string_list :: "bytes list \<Rightarrow> buffer_op" where
  "buf_encode_string_list value =
     buf_then (buf_encode_uint16 (of_nat (length value))) (buf_encode_strings value)"

text \<open>A \<open>std::map\<close> is the list of its entries in the order of the iteration.\<close>

fun buf_encode_entries :: "(bytes \<times> bytes) list \<Rightarrow> buffer_op" where
  "buf_encode_entries [] = buf_skip"
| "buf_encode_entries ((k, v) # es) =
     buf_then (buf_encode_string k (of_nat (length k)))
       (buf_then (buf_encode_string v (of_nat (length v))) (buf_encode_entries es))"

definition buf_encode_string_map :: "(bytes \<times> bytes) list \<Rightarrow> buffer_op" where
  "buf_encode_string_map value =
     buf_then (buf_encode_uint16 (of_nat (length value))) (buf_encode_entries value)"

section \<open>The bytes an encoder writes\<close>

text \<open>
  An encoder is sound for a byte string when it writes exactly these bytes at the offset,
  leaves the rest of the buffer alone and returns the offset behind them, and fails only
  when they do not fit.
\<close>

definition writes :: "buffer_op \<Rightarrow> bytes \<Rightarrow> bool" where
  "writes f xs \<longleftrightarrow> (\<forall>offset buf. offset \<le> length buf \<longrightarrow>
     f offset buf = (if offset + length xs \<le> length buf
                     then Some (offset + length xs, put_bytes offset xs buf) else None))"

definition string_wire :: "bytes \<Rightarrow> bytes" where
  "string_wire s = encode_uint16 (of_nat (length s)) @ s"

definition long_string_wire :: "bytes \<Rightarrow> bytes" where
  "long_string_wire s = encode_int32 (of_nat (length s)) @ s"

definition string_list_wire :: "bytes list \<Rightarrow> bytes" where
  "string_list_wire ss = encode_uint16 (of_nat (length ss)) @ concat (map string_wire ss)"

definition entry_wire :: "bytes \<times> bytes \<Rightarrow> bytes" where
  "entry_wire e = string_wire (fst e) @ string_wire (snd e)"

definition string_map_wire :: "(bytes \<times> bytes) list \<Rightarrow> bytes" where
  "string_map_wire es = encode_uint16 (of_nat (length es)) @ concat (map entry_wire es)"

text \<open>The strings the 16 bit length of the wire format can carry.\<close>

definition short_string :: "bytes \<Rightarrow> bool" where
  "short_string s \<longleftrightarrow> length s < 65536"

definition string_list_ok :: "bytes list \<Rightarrow> bool" where
  "string_list_ok ss \<longleftrightarrow> length ss < 65536 \<and> (\<forall>s \<in> set ss. short_string s)"

definition entries_ok :: "(bytes \<times> bytes) list \<Rightarrow> bool" where
  "entries_ok es \<longleftrightarrow> length es < 65536 \<and> distinct (map fst es) \<and>
     (\<forall>(k, v) \<in> set es. short_string k \<and> short_string v)"

lemma writesD:
  "writes f xs \<Longrightarrow> offset + length xs \<le> length buf \<Longrightarrow>
   f offset buf = Some (offset + length xs, put_bytes offset xs buf)"
  by (simp add: writes_def)

lemma put_bytes_put_bytes:
  "offset + length xs + length ys \<le> length buf \<Longrightarrow>
   put_bytes (offset + length xs) ys (put_bytes offset xs buf) = put_bytes offset (xs @ ys) buf"
  by (simp add: put_bytes_def ac_simps)

lemma put_bytes_Nil [simp]: "offset \<le> length buf \<Longrightarrow> put_bytes offset [] buf = buf"
  by (simp add: put_bytes_def)

lemma writes_skip: "writes buf_skip []"
  by (simp add: writes_def buf_skip_def)

lemma writes_seq: "writes f xs \<Longrightarrow> writes g ys \<Longrightarrow> writes (buf_then f g) (xs @ ys)"
  by (auto simp: writes_def buf_then_def put_bytes_put_bytes add.assoc)

lemma writes_copy: "writes (buf_copy xs) xs"
  by (simp add: writes_def buf_copy_def)

lemma writes_ints:
  "writes (buf_encode_byte b) (encode_byte b)" "writes (buf_encode_int8 b) (encode_int8 b)"
  "writes (buf_encode_int16 h) (encode_int16 h)" "writes (buf_encode_uint16 h) (encode_uint16 h)"
  "writes (buf_encode_int32 w) (encode_int32 w)" "writes (buf_encode_uint32 w) (encode_uint32 w)"
  "writes (buf_encode_int64 l) (encode_int64 l)" "writes (buf_encode_float w) (encode_float w)"
  "writes (buf_encode_double l) (encode_double l)" "writes (buf_encode_uuid u) (encode_uuid u)"
  by (simp_all add: writes_def buf_encode_byte_def buf_encode_int8_def buf_encode_int16_def
      buf_encode_uint16_def buf_encode_int32_def buf_encode_uint32_def buf_encode_int64_def
      buf_encode_float_def buf_encode_double_def buf_encode_uuid_def)

lemma unat_length_16 [simp]: "length s < 65536 \<Longrightarrow> unat (of_nat (length s) :: u16) = length s"
  by (simp add: unat_of_nat)

lemma sint_length_32 [simp]:
  "length s < 2147483648 \<Longrightarrow> sint (of_nat (length s) :: u32) = int (length s)"
  by (simp add: signed_of_nat signed_take_bit_int_eq_self)

lemma writes_string: "short_string s \<Longrightarrow> writes (buf_encode_string s (of_nat (length s))) (string_wire s)"
  by (simp add: short_string_def buf_encode_string_def string_wire_def writes_seq writes_ints writes_copy)

lemma writes_long_string:
  "length s < 2147483648 \<Longrightarrow>
   writes (buf_encode_long_string s (of_nat (length s))) (long_string_wire s)"
  by (simp add: buf_encode_long_string_def long_string_wire_def writes_seq writes_ints writes_copy)

lemma writes_bytes:
  "length s < 2147483648 \<Longrightarrow> writes (buf_encode_bytes s (of_nat (length s))) (long_string_wire s)"
proof (cases "s = []")
  case True
  then show ?thesis
    using writes_seq [OF writes_ints(5) writes_skip]
    by (simp add: buf_encode_bytes_def long_string_wire_def)
next
  case False
  assume "length s < 2147483648"
  with False show ?thesis
    by (simp add: buf_encode_bytes_def long_string_wire_def writes_seq writes_ints writes_copy)
qed

lemma writes_strings: "\<forall>s \<in> set ss. short_string s \<Longrightarrow>
   writes (buf_encode_strings ss) (concat (map string_wire ss))"
  by (induction ss) (simp_all add: writes_skip writes_seq writes_string)

lemma writes_entries: "\<forall>(k, v) \<in> set es. short_string k \<and> short_string v \<Longrightarrow>
   writes (buf_encode_entries es) (concat (map entry_wire es))"
  by (induction es rule: buf_encode_entries.induct)
    (simp_all add: writes_skip writes_seq writes_string entry_wire_def)

lemma writes_string_list:
  "string_list_ok ss \<Longrightarrow> writes (buf_encode_string_list ss) (string_list_wire ss)"
  by (simp add: string_list_ok_def buf_encode_string_list_def string_list_wire_def
      writes_seq writes_ints writes_strings)

lemma writes_string_map:
  "entries_ok es \<Longrightarrow> writes (buf_encode_string_map es) (string_map_wire es)"
  by (simp add: entries_ok_def buf_encode_string_map_def string_map_wire_def
      writes_seq writes_ints writes_entries)

section \<open>The codecs of strings and containers\<close>

interpretation strings: wire_codec short_string string_wire decode_string
  by unfold_locales
    (simp add: short_string_def decode_string_def string_wire_def wire_simps)

interpretation long_strings: wire_codec "\<lambda>s. length s < 2147483648" long_string_wire decode_long_string
  by unfold_locales
    (simp add: decode_long_string_def long_string_wire_def wire_simps)

interpretation string_lists: wire_codec string_list_ok string_list_wire decode_stringlist
  by unfold_locales
    (simp add: decode_stringlist_def string_list_wire_def wire_simps strings.read_many_enc
      string_list_ok_def)

interpretation uuids: wire_codec "\<lambda>_. True" encode_uuid decode_uuid
  by unfold_locales (simp add: wire_simps)

lemma entry_wire_Pair [simp]: "entry_wire (k, v) = string_wire k @ string_wire v"
  by (simp add: entry_wire_def)

lemma decode_string_map_loop_entries:
  "\<forall>(k, v) \<in> set es. short_string k \<and> short_string v \<Longrightarrow> distinct (map fst es) \<Longrightarrow>
   \<forall>k \<in> set (map fst es). m k = None \<Longrightarrow>
   decode_string_map_loop (length es) m (concat (map entry_wire es) @ rest) =
     Some (m ++ map_of es, rest)"
proof (induction es arbitrary: m)
  case Nil
  then show ?case by simp
next
  case (Cons e es)
  obtain k v where e: "e = (k, v)" by force
  have kv: "short_string k" "short_string v" and "m k = None" "k \<notin> fst ` set es"
    using Cons.prems by (auto simp: e)
  then have "decode_string_map_loop (length es) (m(k \<mapsto> v)) (concat (map entry_wire es) @ rest) =
     Some (m(k \<mapsto> v) ++ map_of es, rest)"
    using Cons by (intro Cons.IH) (auto simp: e)
  moreover have "m(k \<mapsto> v) ++ map_of es = m ++ map_of ((k, v) # es)"
    using \<open>k \<notin> fst ` set es\<close>
    by (simp add: map_add_upd_left dom_map_of_conv_image_fst)
  ultimately show ?case
    using kv \<open>m k = None\<close>
    by (simp add: e strings.dec_enc map_insert_def) (auto simp: map_add_def fun_eq_iff)
qed

lemma decode_string_map_entries:
  "entries_ok es \<Longrightarrow> decode_string_map (string_map_wire es @ rest) = Some (map_of es, rest)"
  using decode_string_map_loop_entries [of es Map.empty rest]
  by (auto simp: entries_ok_def decode_string_map_def string_map_wire_def wire_simps)

text \<open>
  A string map that \<open>Buffer::encode_string_map\<close> writes at an offset where it fits is
  read back by \<open>decode_string_map\<close> from that offset, entry for entry, and the decoder
  stops exactly where the encoder stopped; the bytes before and behind are unchanged.
\<close>

theorem string_map_roundtrip:
  assumes "entries_ok es" and "offset + length (string_map_wire es) \<le> length buf"
  shows "\<exists>pos buf'. buf_encode_string_map es offset buf = Some (pos, buf') \<and>
           length buf' = length buf \<and> take offset buf' = take offset buf \<and>
           drop pos buf' = drop pos buf \<and>
           decode_string_map (drop offset buf') = Some (map_of es, drop pos buf)"
proof -
  have "buf_encode_string_map es offset buf =
      Some (offset + length (string_map_wire es), put_bytes offset (string_map_wire es) buf)"
    by (rule writesD [OF writes_string_map [OF assms(1)] assms(2)])
  then show ?thesis
    using assms decode_string_map_entries [OF assms(1)]
    by (simp add: drop_put_bytes_start drop_put_bytes_end)
qed

theorem string_map_roundtrip_witness:
  "\<exists>pos buf'. buf_encode_string_map [([1], [2, 3]), ([4], [])] 1 (replicate 20 0) = Some (pos, buf') \<and>
     length buf' = length (replicate 20 (0 :: byte)) \<and>
     take 1 buf' = take 1 (replicate 20 0) \<and> drop pos buf' = drop pos (replicate 20 0) \<and>
     decode_string_map (drop 1 buf') =
       Some (map_of [([1], [2, 3]), ([4], [])], drop pos (replicate 20 0))"
  by (rule string_map_roundtrip)
    (simp_all add: entries_ok_def short_string_def string_map_wire_def string_wire_def)

end
