(* ===== verification/Murmur3.thy ===== *)
theory Murmur3
  imports Prelude
begin

text \<open>
  \<open>murmur3.cpp\<close>: \<open>MurmurHash3_x64_128\<close>, the hash of the default partitioner. The signed
  64 bit integers are words, whose arithmetic wraps. The bytes of the tail are signed
  (\<open>int8_t\<close>) and are sign extended before they are shifted, as the server does it. The
  loads of eight bytes are little endian.
\<close>

section \<open>The hash\<close>

definition rotl64 :: "u64 \<Rightarrow> nat \<Rightarrow> u64" where
  "rotl64 x r = push_bit r x OR drop_bit (64 - r) x"

definition fmix :: "u64 \<Rightarrow> u64" where
  "fmix k =
     (let k = k XOR drop_bit 33 k;
          k = k * 0xff51afd7ed558ccd;
          k = k XOR drop_bit 33 k;
          k = k * 0xc4ceb9fe1a85ec53
      in k XOR drop_bit 33 k)"

text \<open>\<open>blocks[i]\<close>, the eight bytes of \<open>data\<close> from \<open>8 * i\<close> on.\<close>

definition getblock :: "bytes \<Rightarrow> nat \<Rightarrow> u64" where
  "getblock data i =
     foldl (\<lambda>acc k. acc OR push_bit (8 * k) (ucast (data ! (8 * i + k)))) 0 [0..<8]"

definition murmur_c1 :: u64 where "murmur_c1 = 0x87c37b91114253d5"
definition murmur_c2 :: u64 where "murmur_c2 = 0x4cf5ad432745937f"

definition mix_k1 :: "u64 \<Rightarrow> u64" where
  "mix_k1 k1 = rotl64 (k1 * murmur_c1) 31 * murmur_c2"

definition mix_k2 :: "u64 \<Rightarrow> u64" where
  "mix_k2 k2 = rotl64 (k2 * murmur_c2) 33 * murmur_c1"

definition murmur_body_step :: "bytes \<Rightarrow> nat \<Rightarrow> u64 \<times> u64 \<Rightarrow> u64 \<times> u64" where
  "murmur_body_step data i h =
     (let k1 = getblock data (i * 2 + 0);
          k2 = getblock data (i * 2 + 1);
          h1 = fst h XOR mix_k1 k1;
          h1 = rotl64 h1 27; h1 = h1 + snd h; h1 = h1 * 5 + 0x52dce729;
          h2 = snd h XOR mix_k2 k2;
          h2 = rotl64 h2 31; h2 = h2 + h1; h2 = h2 * 5 + 0x38495ab5
      in (h1, h2))"

fun murmur_body :: "bytes \<Rightarrow> nat \<Rightarrow> u64 \<times> u64 \<Rightarrow> u64 \<times> u64" where
  "murmur_body data 0 h = h"
| "murmur_body data (Suc n) h = murmur_body_step data n (murmur_body data n h)"

text \<open>
  The cases of the switch fall through: from the case \<open>lo + n\<close> down to \<open>lo + 1\<close>, the byte
  \<open>tail[lo + n - 1]\<close> to \<open>tail[lo]\<close> are exclusive-ored in, the byte \<open>tail[lo]\<close> unshifted.
\<close>

fun tail_word :: "bytes \<Rightarrow> nat \<Rightarrow> nat \<Rightarrow> u64 \<Rightarrow> u64" where
  "tail_word tail lo 0 k = k"
| "tail_word tail lo (Suc n) k =
     tail_word tail lo n (k XOR push_bit (8 * n) (scast (tail ! (lo + n))))"

definition murmur_tail :: "bytes \<Rightarrow> nat \<Rightarrow> u64 \<times> u64 \<Rightarrow> u64 \<times> u64" where
  "murmur_tail tail len15 h =
     (let h2 = (if len15 \<ge> 9 then snd h XOR mix_k2 (tail_word tail 8 (len15 - 8) 0) else snd h);
          h1 = (if len15 \<ge> 1 then fst h XOR mix_k1 (tail_word tail 0 (min len15 8) 0) else fst h)
      in (h1, h2))"

definition murmur_final :: "nat \<Rightarrow> u64 \<times> u64 \<Rightarrow> u64" where
  "murmur_final len h =
     (let h1 = fst h XOR of_nat len; h2 = snd h XOR of_nat len;
          h1 = h1 + h2; h2 = h2 + h1;
          h1 = fmix h1; h2 = fmix h2;
          h1 = h1 + h2; h2 = h2 + h1
      in h1)"

text \<open>The length is an \<open>int\<close>: keys are shorter than 2 GB.\<close>

definition MurmurHash3_x64_128 :: "bytes \<Rightarrow> u32 \<Rightarrow> u64" where
  "MurmurHash3_x64_128 key seed =
     (let len = length key; nblocks = len div 16;
          h = murmur_body key nblocks (ucast seed, ucast seed);
          h = murmur_tail (drop (nblocks * 16) key) (len mod 16) h
      in murmur_final len h)"

section \<open>The final mix is a bijection\<close>

definition unfmix :: "u64 \<Rightarrow> u64" where
  "unfmix k =
     (let k = k XOR drop_bit 33 k;
          k = k * 0x9cb4b2f8129337db;
          k = k XOR drop_bit 33 k;
          k = k * 0x4f74430c22a54005
      in k XOR drop_bit 33 k)"

lemma xorshift_33_inverse:
  fixes k :: u64
  shows "(k XOR drop_bit 33 k) XOR drop_bit 33 (k XOR drop_bit 33 k) = k"
  by (rule bit_word_eqI) (auto simp: bit_simps)

lemma fmix_constants:
  "(0xff51afd7ed558ccd :: u64) * 0x4f74430c22a54005 = 1"
  "(0x4f74430c22a54005 :: u64) * 0xff51afd7ed558ccd = 1"
  "(0xc4ceb9fe1a85ec53 :: u64) * 0x9cb4b2f8129337db = 1"
  "(0x9cb4b2f8129337db :: u64) * 0xc4ceb9fe1a85ec53 = 1"
  by simp_all

lemma unfmix_fmix: "unfmix (fmix k) = k"
proof -
  have m: "(x * 0xff51afd7ed558ccd) * 0x4f74430c22a54005 = x"
    "(x * 0xc4ceb9fe1a85ec53) * 0x9cb4b2f8129337db = x" for x :: u64
    unfolding mult.assoc fmix_constants by simp_all
  show ?thesis
    by (simp only: unfmix_def fmix_def Let_def xorshift_33_inverse m)
qed

lemma fmix_unfmix: "fmix (unfmix k) = k"
proof -
  have m: "(x * 0x4f74430c22a54005) * 0xff51afd7ed558ccd = x"
    "(x * 0x9cb4b2f8129337db) * 0xc4ceb9fe1a85ec53 = x" for x :: u64
    unfolding mult.assoc fmix_constants by simp_all
  show ?thesis
    by (simp only: unfmix_def fmix_def Let_def xorshift_33_inverse m)
qed

text \<open>
  The finalisation mix loses no information: it is a bijection of the 64 bit words.
\<close>

theorem fmix_bijective: "bij fmix"
  by (rule o_bij [of unfmix]) (auto simp: fun_eq_iff unfmix_fmix fmix_unfmix)

section \<open>The tail is a short block\<close>

text \<open>
  The reference algorithm reads the tail as a little endian block whose missing bytes are
  zero. The server, and this code, agree with it where no byte of the tail is negative.
\<close>

definition murmur3_reference :: "bytes \<Rightarrow> u32 \<Rightarrow> u64" where
  "murmur3_reference key seed =
     (let len = length key; nblocks = len div 16;
          h = murmur_body key nblocks (ucast seed, ucast seed);
          tail = drop (nblocks * 16) key @ replicate 16 0
      in murmur_final len
           (fst h XOR mix_k1 (getblock tail 0), snd h XOR mix_k2 (getblock tail 1)))"

lemma bit_foldl_or:
  "bit (foldl (\<lambda>acc k. acc OR f k) a ks) j \<longleftrightarrow> bit (a :: u64) j \<or> (\<exists>k \<in> set ks. bit (f k) j)"
  by (induction ks arbitrary: a) (auto simp: bit_or_iff)

lemma bit_ucast_byte: "bit (ucast (b :: byte) :: u64) n \<longleftrightarrow> n < 8 \<and> bit b n"
  using bit_imp_le_length [of b n] by (auto simp: bit_simps)

lemma byte_index: "8 * k \<le> j \<and> j - 8 * k < 8 \<longleftrightarrow> k = j div (8 :: nat)"
proof
  assume "8 * k \<le> j \<and> j - 8 * k < 8"
  then have "8 * k \<le> j" and "j < 8 * Suc k" by auto
  then show "k = j div 8" by (intro div_nat_eqI [symmetric]) simp_all
next
  assume "k = j div 8"
  then have "j - 8 * k = j mod 8" by (simp add: minus_mult_div_eq_mod)
  then show "8 * k \<le> j \<and> j - 8 * k < 8" using \<open>k = j div 8\<close> by simp
qed

lemma byte_offset: "j - 8 * (j div 8) = j mod (8 :: nat)"
  by (simp add: minus_mult_div_eq_mod)

lemma bit_getblock:
  "bit (getblock data i) j \<longleftrightarrow> j < 64 \<and> bit (data ! (8 * i + j div 8)) (j mod 8)"
proof -
  have "bit (getblock data i) j \<longleftrightarrow>
      (\<exists>k < 8. j < 64 \<and> (8 * k \<le> j \<and> j - 8 * k < 8) \<and> bit (data ! (8 * i + k)) (j - 8 * k))"
    unfolding getblock_def bit_foldl_or Bex_def
    by (simp add: bit_push_bit_iff bit_ucast_byte conj_ac)
  also have "\<dots> \<longleftrightarrow> j < 64 \<and> bit (data ! (8 * i + j div 8)) (j mod 8)"
    unfolding byte_index by (auto simp: byte_offset)
  finally show ?thesis .
qed

definition ascii :: "bytes \<Rightarrow> bool" where
  "ascii bs \<longleftrightarrow> (\<forall>b \<in> set bs. b < 0x80)"

lemma bit_scast_ascii:
  fixes b :: byte
  assumes "b < 0x80"
  shows "bit (scast b :: u64) n \<longleftrightarrow> n < 8 \<and> bit b n"
proof -
  have "unat b < 128" using assms by (simp add: word_less_nat_alt)
  then have "\<not> bit (unat b) 7" by (simp add: bit_iff_odd)
  then have "\<not> bit b 7" by (simp add: bit_unsigned_iff)
  then show ?thesis
    using bit_imp_le_length [of b n] by (cases "n = 7") (auto simp: bit_signed_iff min_def)
qed

lemma bit_tail_word:
  assumes "ascii tail" and "lo + n \<le> length tail" and "n \<le> 8"
  shows "bit (tail_word tail lo n k) j \<longleftrightarrow>
         bit k j \<noteq> (j div 8 < n \<and> bit (tail ! (lo + j div 8)) (j mod 8))"
  using assms
proof (induction n arbitrary: k)
  case 0
  then show ?case by simp
next
  case (Suc n)
  define b where "b = tail ! (lo + n)"
  have "b < 0x80" using Suc.prems by (auto simp: ascii_def b_def)
  moreover have "n < 8" using Suc.prems by simp
  ultimately have "bit (push_bit (8 * n) (scast b) :: u64) j \<longleftrightarrow>
      j < 64 \<and> (8 * n \<le> j \<and> j - 8 * n < 8) \<and> bit b (j - 8 * n)"
    unfolding bit_push_bit_iff by (simp add: bit_scast_ascii conj_ac)
  also have "\<dots> \<longleftrightarrow> j div 8 = n \<and> bit b (j mod 8)"
    unfolding byte_index using \<open>n < 8\<close> by (auto simp: byte_offset)
  finally have step: "bit (k XOR push_bit (8 * n) (scast b)) j \<longleftrightarrow>
      bit k j \<noteq> (j div 8 = n \<and> bit b (j mod 8))"
    by (simp only: bit_xor_iff)
  have "bit (tail_word tail lo n (k XOR push_bit (8 * n) (scast b))) j \<longleftrightarrow>
      bit (k XOR push_bit (8 * n) (scast b)) j \<noteq> (j div 8 < n \<and> bit (tail ! (lo + j div 8)) (j mod 8))"
    using Suc.prems by (intro Suc.IH) simp_all
  then show ?case
    unfolding tail_word.simps b_def [symmetric] step by (auto simp: less_Suc_eq b_def)
qed

lemma tail_word_block:
  assumes "ascii tail" and "length tail < 16"
  shows "tail_word tail 0 (min (length tail) 8) 0 = getblock (tail @ replicate 16 0) 0"
    and "tail_word tail 8 (length tail - 8) 0 = getblock (tail @ replicate 16 0) 1"
proof -
  show "tail_word tail 0 (min (length tail) 8) 0 = getblock (tail @ replicate 16 0) 0"
  proof (rule bit_word_eqI)
    fix j assume "j < LENGTH(64)"
    then have "j < 64" "j div 8 < 8" by simp_all
    then show "bit (tail_word tail 0 (min (length tail) 8) 0) j \<longleftrightarrow>
        bit (getblock (tail @ replicate 16 0) 0) j"
      using assms by (auto simp: bit_tail_word bit_getblock nth_append)
  qed
  show "tail_word tail 8 (length tail - 8) 0 = getblock (tail @ replicate 16 0) 1"
  proof (rule bit_word_eqI)
    fix j assume "j < LENGTH(64)"
    then have "j < 64" "j div 8 < 8" by simp_all
    then show "bit (tail_word tail 8 (length tail - 8) 0) j \<longleftrightarrow>
        bit (getblock (tail @ replicate 16 0) 1) j"
      using assms by (cases "8 \<le> length tail") (auto simp: bit_tail_word bit_getblock nth_append)
  qed
qed

lemma mix_0 [simp]: "mix_k1 0 = 0" "mix_k2 0 = 0"
  by (simp_all add: mix_k1_def mix_k2_def rotl64_def)

lemma murmur_tail_block:
  assumes "ascii tail" and "length tail < 16"
  shows "murmur_tail tail (length tail) h =
     (fst h XOR mix_k1 (getblock (tail @ replicate 16 0) 0),
      snd h XOR mix_k2 (getblock (tail @ replicate 16 0) 1))"
proof -
  have "mix_k1 (getblock (tail @ replicate 16 0) 0) = 0" if "tail = []"
    using tail_word_block(1) [OF assms] that by simp
  moreover have "mix_k2 (getblock (tail @ replicate 16 0) 1) = 0" if "length tail \<le> 8"
    using tail_word_block(2) [OF assms] that by simp
  ultimately show ?thesis
    using tail_word_block [OF assms]
    by (cases tail) (auto simp: murmur_tail_def Let_def)
qed

text \<open>
  On keys whose last \<open>len mod 16\<close> bytes are below 128 the fall-through switch over the
  tail computes the reference hash, which mixes the tail as a zero padded block.
\<close>

theorem murmur3_matches_reference:
  assumes "ascii (drop (length key div 16 * 16) key)"
  shows "MurmurHash3_x64_128 key seed = murmur3_reference key seed"
proof -
  have "length (drop (length key div 16 * 16) key) = length key mod 16"
    by (simp add: minus_div_mult_eq_mod)
  with murmur_tail_block [OF assms] show ?thesis
    by (simp add: MurmurHash3_x64_128_def murmur3_reference_def Let_def)
qed

theorem murmur3_matches_reference_witness:
  "MurmurHash3_x64_128 [0x31, 0x32, 0x33] 0 = murmur3_reference [0x31, 0x32, 0x33] 0"
  by (rule murmur3_matches_reference) (simp add: ascii_def)

end
