(* ===== verification/Md5.thy ===== *)
theory Md5
  imports Prelude
begin

text \<open>
  \<open>md5.cpp\<close>: the class \<open>Md5\<close>, the message digest of the random partitioner. The state is
  the byte counter (\<open>lo\<close>, \<open>hi\<close>), the four chaining words and the buffer of the bytes that
  do not fill a block yet. The last section gives the digest of RFC 1321, a fold over the
  blocks of the padded message, and shows that \<open>update\<close> and \<open>final\<close> compute it however the
  message is cut into pieces.
\<close>

section \<open>The compression function\<close>

definition md5_F :: "u32 \<Rightarrow> u32 \<Rightarrow> u32 \<Rightarrow> u32" where
  "md5_F x y z = z XOR (x AND (y XOR z))"

definition md5_G :: "u32 \<Rightarrow> u32 \<Rightarrow> u32 \<Rightarrow> u32" where
  "md5_G x y z = y XOR (z AND (x XOR y))"

definition md5_H :: "u32 \<Rightarrow> u32 \<Rightarrow> u32 \<Rightarrow> u32" where
  "md5_H x y z = x XOR y XOR z"

definition md5_I :: "u32 \<Rightarrow> u32 \<Rightarrow> u32 \<Rightarrow> u32" where
  "md5_I x y z = y XOR (x OR NOT z)"

type_synonym chaining = "u32 \<times> u32 \<times> u32 \<times> u32"

definition md5_step :: "(u32 \<Rightarrow> u32 \<Rightarrow> u32 \<Rightarrow> u32) \<Rightarrow> u32 \<Rightarrow> u32 \<Rightarrow> u32 \<Rightarrow> u32 \<Rightarrow> u32 \<Rightarrow> u32 \<Rightarrow> nat \<Rightarrow> u32" where
  "md5_step f a b c d x t s =
     (let a1 = a + (f b c d + x + t);
          a2 = push_bit s a1 OR drop_bit (32 - s) (a1 AND 0xffffffff)
      in a2 + b)"

text \<open>\<open>SET(n)\<close> and \<open>GET(n)\<close>: the \<open>n\<close>-th little endian word of the block.\<close>

definition md5_word :: "bytes \<Rightarrow> nat \<Rightarrow> u32" where
  "md5_word ptr n =
     ucast (ptr ! (n * 4)) OR push_bit 8 (ucast (ptr ! (n * 4 + 1))) OR
     push_bit 16 (ucast (ptr ! (n * 4 + 2))) OR push_bit 24 (ucast (ptr ! (n * 4 + 3)))"

text \<open>
  The rounds as tables of word index, constant and rotation. The four steps of a group
  change \<open>a\<close>, \<open>d\<close>, \<open>c\<close> and \<open>b\<close> in this order, which is one step with the roles rotated.
\<close>

definition md5_round1 :: "(nat \<times> u32 \<times> nat) list" where
  "md5_round1 =
    [(0, 0xd76aa478, 7), (1, 0xe8c7b756, 12), (2, 0x242070db, 17), (3, 0xc1bdceee, 22),
     (4, 0xf57c0faf, 7), (5, 0x4787c62a, 12), (6, 0xa8304613, 17), (7, 0xfd469501, 22),
     (8, 0x698098d8, 7), (9, 0x8b44f7af, 12), (10, 0xffff5bb1, 17), (11, 0x895cd7be, 22),
     (12, 0x6b901122, 7), (13, 0xfd987193, 12), (14, 0xa679438e, 17), (15, 0x49b40821, 22)]"

definition md5_round2 :: "(nat \<times> u32 \<times> nat) list" where
  "md5_round2 =
    [(1, 0xf61e2562, 5), (6, 0xc040b340, 9), (11, 0x265e5a51, 14), (0, 0xe9b6c7aa, 20),
     (5, 0xd62f105d, 5), (10, 0x02441453, 9), (15, 0xd8a1e681, 14), (4, 0xe7d3fbc8, 20),
     (9, 0x21e1cde6, 5), (14, 0xc33707d6, 9), (3, 0xf4d50d87, 14), (8, 0x455a14ed, 20),
     (13, 0xa9e3e905, 5), (2, 0xfcefa3f8, 9), (7, 0x676f02d9, 14), (12, 0x8d2a4c8a, 20)]"

definition md5_round3 :: "(nat \<times> u32 \<times> nat) list" where
  "md5_round3 =
    [(5, 0xfffa3942, 4), (8, 0x8771f681, 11), (11, 0x6d9d6122, 16), (14, 0xfde5380c, 23),
     (1, 0xa4beea44, 4), (4, 0x4bdecfa9, 11), (7, 0xf6bb4b60, 16), (10, 0xbebfbc70, 23),
     (13, 0x289b7ec6, 4), (0, 0xeaa127fa, 11), (3, 0xd4ef3085, 16), (6, 0x04881d05, 23),
     (9, 0xd9d4d039, 4), (12, 0xe6db99e5, 11), (15, 0x1fa27cf8, 16), (2, 0xc4ac5665, 23)]"

definition md5_round4 :: "(nat \<times> u32 \<times> nat) list" where
  "md5_round4 =
    [(0, 0xf4292244, 6), (7, 0x432aff97, 10), (14, 0xab9423a7, 15), (5, 0xfc93a039, 21),
     (12, 0x655b59c3, 6), (3, 0x8f0ccc92, 10), (10, 0xffeff47d, 15), (1, 0x85845dd1, 21),
     (8, 0x6fa87e4f, 6), (15, 0xfe2ce6e0, 10), (6, 0xa3014314, 15), (13, 0x4e0811a1, 21),
     (4, 0xf7537e82, 6), (11, 0xbd3af235, 10), (2, 0x2ad7d2bb, 15), (9, 0xeb86d391, 21)]"

fun md5_round :: "(u32 \<Rightarrow> u32 \<Rightarrow> u32 \<Rightarrow> u32) \<Rightarrow> bytes \<Rightarrow> (nat \<times> u32 \<times> nat) list \<Rightarrow> chaining \<Rightarrow> chaining" where
  "md5_round f ptr [] st = st"
| "md5_round f ptr ((n, t, s) # steps) (a, b, c, d) =
     md5_round f ptr steps (d, md5_step f a b c d (md5_word ptr n) t s, b, c)"

definition md5_block :: "bytes \<Rightarrow> chaining \<Rightarrow> chaining" where
  "md5_block ptr st =
     (case st of (saved_a, saved_b, saved_c, saved_d) \<Rightarrow>
       (case md5_round md5_I ptr md5_round4
               (md5_round md5_H ptr md5_round3
                 (md5_round md5_G ptr md5_round2
                   (md5_round md5_F ptr md5_round1 st))) of
          (a, b, c, d) \<Rightarrow> (a + saved_a, b + saved_b, c + saved_c, d + saved_d)))"

text \<open>
  \<open>Md5::body\<close> on \<open>n\<close> blocks. Its loop tests behind the body; every caller passes a positive
  multiple of 64 bytes, for which this is the loop that tests first.
\<close>

fun md5_blocks :: "nat \<Rightarrow> bytes \<Rightarrow> chaining \<Rightarrow> chaining" where
  "md5_blocks 0 ptr st = st"
| "md5_blocks (Suc n) ptr st = md5_blocks n (drop 64 ptr) (md5_block (take 64 ptr) st)"

definition md5_body :: "bytes \<Rightarrow> chaining \<Rightarrow> chaining" where
  "md5_body data st = md5_blocks (length data div 64) data st"

section \<open>The state and its operations\<close>

record md5_state =
  md5_lo :: u32
  md5_hi :: u32
  md5_abcd :: chaining
  md5_buffer :: bytes

text \<open>The constructor leaves the buffer uninitialised: \<open>buf\<close> is what it holds.\<close>

definition md5_init :: "bytes \<Rightarrow> md5_state" where
  "md5_init buf = \<lparr>md5_lo = 0, md5_hi = 0,
     md5_abcd = (0x67452301, 0xefcdab89, 0x98badcfe, 0x10325476), md5_buffer = buf\<rparr>"

definition md5_count :: "nat \<Rightarrow> md5_state \<Rightarrow> md5_state" where
  "md5_count len s =
     (let saved_lo = md5_lo s;
          lo = ucast ((ucast saved_lo + (of_nat len :: u64)) AND 0x1fffffff);
          hi = (if lo < saved_lo then md5_hi s + 1 else md5_hi s)
      in s\<lparr>md5_lo := lo, md5_hi := hi + ucast (drop_bit 29 (of_nat len :: u64))\<rparr>)"

definition md5_absorb :: "bytes \<Rightarrow> md5_state \<Rightarrow> md5_state" where
  "md5_absorb data s =
     (let whole = length data - length data mod 64;
          st = (if length data \<ge> 64 then md5_body (take whole data) (md5_abcd s) else md5_abcd s);
          rest = (if length data \<ge> 64 then drop whole data else data)
      in s\<lparr>md5_abcd := st, md5_buffer := put_bytes 0 rest (md5_buffer s)\<rparr>)"

definition md5_update :: "bytes \<Rightarrow> md5_state \<Rightarrow> md5_state" where
  "md5_update data s =
     (let s1 = md5_count (length data) s;
          used = unat (md5_lo s AND 0x3f)
      in if used \<noteq> 0 then
           (let free = 64 - used
            in if length data < free then
                 s1\<lparr>md5_buffer := put_bytes used data (md5_buffer s1)\<rparr>
               else
                 (let buf = put_bytes used (take free data) (md5_buffer s1)
                  in md5_absorb (drop free data)
                       (s1\<lparr>md5_buffer := buf, md5_abcd := md5_body buf (md5_abcd s1)\<rparr>)))
         else md5_absorb data s1)"

definition le32 :: "u32 \<Rightarrow> bytes" where
  "le32 v = [ucast v, ucast (drop_bit 8 v), ucast (drop_bit 16 v), ucast (drop_bit 24 v)]"

definition md5_final :: "md5_state \<Rightarrow> bytes" where
  "md5_final s =
     (let used0 = unat (md5_lo s AND 0x3f);
          buf1 = put_bytes used0 [0x80] (md5_buffer s);
          used1 = used0 + 1;
          free1 = 64 - used1;
          (buf2, st2, used2) =
            (if free1 < 8 then
               (let b = put_bytes used1 (replicate free1 0) buf1 in (b, md5_body b (md5_abcd s), 0))
             else (buf1, md5_abcd s, used1));
          free2 = 64 - used2;
          buf3 = put_bytes used2 (replicate (free2 - 8) 0) buf2;
          buf4 = put_bytes 56 (le32 (push_bit 3 (md5_lo s)) @ le32 (md5_hi s)) buf3
      in case md5_body buf4 st2 of (a, b, c, d) \<Rightarrow> le32 a @ le32 b @ le32 c @ le32 d)"

section \<open>The digest of RFC 1321\<close>

text \<open>
  The message, the byte 80, zeros up to 56 bytes of the last block, and the number of bits
  of the message as eight little endian bytes.
\<close>

definition md5_length_bytes :: "nat \<Rightarrow> bytes" where
  "md5_length_bytes n = map (\<lambda>i. of_nat (8 * n div 2 ^ (8 * i))) [0..<8]"

definition md5_pad :: "bytes \<Rightarrow> bytes" where
  "md5_pad m = m @ [0x80] @ replicate ((119 - length m mod 64) mod 64) 0 @ md5_length_bytes (length m)"

definition md5_spec :: "bytes \<Rightarrow> bytes" where
  "md5_spec m =
     (case md5_body (md5_pad m) (0x67452301, 0xefcdab89, 0x98badcfe, 0x10325476) of
        (a, b, c, d) \<Rightarrow> le32 a @ le32 b @ le32 c @ le32 d)"

text \<open>The state after the message \<open>m\<close>, however it was cut.\<close>

definition md5_rel :: "bytes \<Rightarrow> md5_state \<Rightarrow> bool" where
  "md5_rel m s \<longleftrightarrow>
     (let n = length m; w = n - n mod 64 in
      md5_lo s = of_nat (n mod 2 ^ 29) \<and> md5_hi s = of_nat (n div 2 ^ 29) \<and>
      md5_abcd s = md5_body (take w m) (0x67452301, 0xefcdab89, 0x98badcfe, 0x10325476) \<and>
      length (md5_buffer s) = 64 \<and> take (n mod 64) (md5_buffer s) = drop w m)"

lemma md5_blocks_append:
  "length xs = 64 * n \<Longrightarrow> md5_blocks (n + k) (xs @ ys) st = md5_blocks k ys (md5_blocks n xs st)"
proof (induction n arbitrary: xs st)
  case 0
  then show ?case by simp
next
  case (Suc n)
  from Suc.prems have l: "length (drop 64 xs) = 64 * n" and "64 \<le> length xs" by simp_all
  then have "take 64 (xs @ ys) = take 64 xs" and "drop 64 (xs @ ys) = drop 64 xs @ ys"
    by simp_all
  then show ?case
    using Suc.IH [OF l, of "md5_block (take 64 xs) st"] by (simp only: add_Suc md5_blocks.simps)
qed

lemma md5_body_append:
  assumes "length xs mod 64 = 0"
  shows "md5_body (xs @ ys) st = md5_body ys (md5_body xs st)"
proof -
  from assms obtain q where q: "length xs = 64 * q" by (auto elim!: dvdE simp: mod_eq_0_iff_dvd)
  then have "(length xs + length ys) div 64 = q + length ys div 64" by simp
  with md5_blocks_append [OF q, of "length ys div 64" ys st] q show ?thesis
    by (simp add: md5_body_def)
qed

lemma md5_body_Nil [simp]: "md5_body [] st = st"
  by (simp add: md5_body_def)

lemma md5_count_fields [simp]:
  "md5_abcd (md5_count n s) = md5_abcd s" "md5_buffer (md5_count n s) = md5_buffer s"
  by (simp_all add: md5_count_def Let_def)

lemma md5_used:
  assumes "md5_lo s = of_nat (n mod 2 ^ 29)"
  shows "unat (md5_lo s AND 0x3f) = n mod 64"
proof -
  have "md5_lo s AND 0x3f = take_bit 6 (md5_lo s)"
    by (simp add: take_bit_eq_mask mask_eq_exp_minus_1)
  then have "unat (md5_lo s AND 0x3f) = take_bit 6 (unat (md5_lo s))"
    by (simp only: unsigned_take_bit_eq)
  also have "unat (md5_lo s) = n mod 2 ^ 29"
    by (simp add: assms unat_of_nat)
  finally show ?thesis by (simp add: take_bit_eq_mod mod_mod_cancel)
qed

lemma low_29_bits: "(ucast ((of_nat x :: u64) AND 0x1fffffff) :: u32) = of_nat (x mod 2 ^ 29)"
proof -
  have m: "(0x1fffffff :: u64) = mask 29" by (simp add: mask_eq_exp_minus_1)
  show ?thesis
    unfolding m take_bit_eq_mask [symmetric] take_bit_eq_mod [symmetric]
    by (rule bit_word_eqI) (auto simp: bit_simps)
qed

lemma carry_div:
  fixes M :: nat
  assumes "0 < M"
  shows "(n + k) div M = n div M + k div M + (if (n mod M + k) mod M < n mod M then 1 else 0)"
proof -
  define N r where "N = n mod M" and "r = k mod M"
  then have b: "N < M" "r < M" using assms by simp_all
  have m: "(N + k) mod M = (N + r) mod M" by (simp add: r_def mod_add_right_eq)
  show ?thesis
  proof (cases "N + r < M")
    case True
    then have "(N + r) div M = 0" and "(N + r) mod M = N + r" by simp_all
    then show ?thesis using m by (simp add: div_add1_eq [of n k] flip: N_def r_def)
  next
    case False
    then have "N + r = M + (N + r - M)" by simp
    moreover from b False have "N + r - M < M" by simp
    ultimately have "(N + r) div M = 1" and "(N + r) mod M = N + r - M"
      by (metis assms div_add_self1 div_less add_0 less_numeral_extra(3) One_nat_def Suc_eq_plus1_left
          add.commute, metis mod_add_self1 mod_less)
    then show ?thesis using m b False by (simp add: div_add1_eq [of n k] flip: N_def r_def)
  qed
qed

lemma md5_count_words:
  assumes "md5_lo s = of_nat (n mod 2 ^ 29)" and "md5_hi s = of_nat (n div 2 ^ 29)" and "k < 2 ^ 61"
  shows "md5_lo (md5_count k s) = of_nat ((n + k) mod 2 ^ 29)"
    and "md5_hi (md5_count k s) = of_nat ((n + k) div 2 ^ 29)"
proof -
  define N where "N = n mod 2 ^ 29"
  have N: "N < 2 ^ 29" by (simp add: N_def)
  then have un: "unat (md5_lo s) = N"
    by (simp add: assms unat_of_nat N_def)
  then have "(ucast (md5_lo s) :: u64) = of_nat N"
    by (metis of_nat_unat)
  then have lo: "md5_lo (md5_count k s) = of_nat ((N + k) mod 2 ^ 29)"
    using low_29_bits [of "N + k"] by (simp add: md5_count_def Let_def)
  then show "md5_lo (md5_count k s) = of_nat ((n + k) mod 2 ^ 29)"
    by (simp add: N_def mod_add_left_eq)
  have "unat (md5_lo (md5_count k s)) = (N + k) mod 2 ^ 29"
    by (simp add: lo unat_of_nat)
  then have less: "md5_lo (md5_count k s) < md5_lo s \<longleftrightarrow> (N + k) mod 2 ^ 29 < N"
    by (simp add: word_less_nat_alt un)
  have shift: "(ucast (drop_bit 29 (of_nat k :: u64)) :: u32) = of_nat (k div 2 ^ 29)"
    using assms(3) unfolding drop_bit_eq_div [symmetric]
    by (intro bit_word_eqI) (auto simp: bit_simps)
  have "md5_hi (md5_count k s) =
      (if md5_lo (md5_count k s) < md5_lo s then md5_hi s + 1 else md5_hi s) + of_nat (k div 2 ^ 29)"
    by (simp add: md5_count_def Let_def shift)
  also have "\<dots> = of_nat ((if (N + k) mod 2 ^ 29 < N then 1 else 0) + n div 2 ^ 29 + k div 2 ^ 29)"
    unfolding less assms(2)
    by (cases "(N + k) mod 2 ^ 29 < N")
      (simp_all only: if_True if_False of_nat_add of_nat_1 of_nat_0 add_0 ac_simps)
  also have "(if (N + k) mod 2 ^ 29 < N then 1 else 0) + n div 2 ^ 29 + k div 2 ^ 29 = (n + k) div 2 ^ 29"
    unfolding N_def carry_div [of "2 ^ 29" n k, OF zero_less_power [OF zero_less_numeral]] by simp
  finally show "md5_hi (md5_count k s) = of_nat ((n + k) div 2 ^ 29)" .
qed


lemma put_bytes_absorb:
  "length rest \<le> length buf \<Longrightarrow> take (length rest) (put_bytes 0 rest buf) = rest"
  by (simp add: put_bytes_def)

lemma md5_absorb_lemma:
  fixes data :: bytes
  assumes "length p mod 64 = 0" and "md5_abcd s = md5_body p st" and "length (md5_buffer s) = 64"
    and n_def: "n = length p + length data"
  shows "md5_abcd (md5_absorb data s) = md5_body (take (n - n mod 64) (p @ data)) st"
    and "length (md5_buffer (md5_absorb data s)) = 64"
    and "take (n mod 64) (md5_buffer (md5_absorb data s)) = drop (n - n mod 64) (p @ data)"
    and "md5_lo (md5_absorb data s) = md5_lo s" and "md5_hi (md5_absorb data s) = md5_hi s"
proof -
  define whole where "whole = length data - length data mod 64"
  have n: "n mod 64 = length data mod 64" "n - n mod 64 = length p + whole"
    using assms(1) mod_less_eq_dividend [of "length data" 64]
    by (auto simp: n_def whole_def mod_add_left_eq [symmetric])
  have rest: "(if length data \<ge> 64 then drop whole data else data) = drop whole data"
    by (simp add: whole_def)
  have body: "(if length data \<ge> 64 then md5_body (take whole data) (md5_abcd s) else md5_abcd s) =
      md5_body (take whole data) (md5_abcd s)"
    by (simp add: whole_def)
  have l: "length (drop whole data) = length data mod 64"
    using mod_less_eq_dividend [of "length data" 64] by (simp add: whole_def)
  have abs: "md5_absorb data s = s\<lparr>md5_abcd := md5_body (take whole data) (md5_abcd s),
      md5_buffer := put_bytes 0 (drop whole data) (md5_buffer s)\<rparr>"
    unfolding md5_absorb_def Let_def whole_def [symmetric] rest body by simp
  show "md5_abcd (md5_absorb data s) = md5_body (take (n - n mod 64) (p @ data)) st"
    using assms(1,2) unfolding n(2) by (simp add: abs md5_body_append)
  show "length (md5_buffer (md5_absorb data s)) = 64"
    using assms(3) l by (simp add: abs)
  show "take (n mod 64) (md5_buffer (md5_absorb data s)) = drop (n - n mod 64) (p @ data)"
    using assms(3) l put_bytes_absorb [of "drop whole data" "md5_buffer s"]
    unfolding n(2) by (simp add: abs n(1))
  show "md5_lo (md5_absorb data s) = md5_lo s" and "md5_hi (md5_absorb data s) = md5_hi s"
    by (simp_all add: abs)
qed

lemma md5_rel_init: "length buf = 64 \<Longrightarrow> md5_rel [] (md5_init buf)"
  by (simp add: md5_rel_def md5_init_def)

lemma md5_rel_update:
  assumes rel: "md5_rel m s" and len: "length d < 2 ^ 61"
  shows "md5_rel (m @ d) (md5_update d s)"
proof -
  define n where "n = length m"
  define w where "w = n - n mod 64"
  define iv :: chaining where "iv = (0x67452301, 0xefcdab89, 0x98badcfe, 0x10325476)"
  have lo: "md5_lo s = of_nat (n mod 2 ^ 29)" and hi: "md5_hi s = of_nat (n div 2 ^ 29)"
    and abcd: "md5_abcd s = md5_body (take w m) iv"
    and buf: "length (md5_buffer s) = 64" "take (n mod 64) (md5_buffer s) = drop w m"
    using rel by (simp_all add: md5_rel_def Let_def n_def w_def iv_def)
  define s1 where "s1 = md5_count (length d) s"
  have c: "md5_lo s1 = of_nat ((n + length d) mod 2 ^ 29)"
    "md5_hi s1 = of_nat ((n + length d) div 2 ^ 29)"
    "md5_abcd s1 = md5_abcd s" "md5_buffer s1 = md5_buffer s"
    using md5_count_words [OF lo hi len] by (simp_all add: s1_def)
  have used: "unat (md5_lo s AND 0x3f) = n mod 64"
    by (rule md5_used [OF lo])
  have wlen: "length (take w m) mod 64 = 0"
    by (simp add: w_def n_def minus_mod_eq_mult_div)
  have m: "m = take w m @ drop w m" by simp
  consider (empty) "n mod 64 = 0" | (small) "n mod 64 \<noteq> 0" "length d < 64 - n mod 64"
    | (fill) "n mod 64 \<noteq> 0" "64 - n mod 64 \<le> length d" by linarith
  then show ?thesis
  proof cases
    case empty
    then have upd: "md5_update d s = md5_absorb d s1"
      by (simp add: md5_update_def Let_def used s1_def)
    from empty have "w = n" by (simp add: w_def)
    with abcd c have a: "md5_abcd s1 = md5_body m iv" by (simp add: n_def)
    have "length m mod 64 = 0" using empty by (simp add: n_def)
    from md5_absorb_lemma [OF this a] buf c
    show ?thesis
      by (simp add: upd md5_rel_def Let_def n_def iv_def)
  next
    case small
    then have upd: "md5_update d s = s1\<lparr>md5_buffer := put_bytes (n mod 64) d (md5_buffer s)\<rparr>"
      by (simp add: md5_update_def Let_def used s1_def)
    from small have mod: "(n + length d) mod 64 = n mod 64 + length d"
      by (metis add.commute less_diff_conv mod_add_left_eq mod_less)
    then have w': "n + length d - (n + length d) mod 64 = w"
      by (simp add: w_def)
    have "take (n mod 64 + length d) (put_bytes (n mod 64) d (md5_buffer s)) = drop w m @ d"
      using buf by simp
    moreover have "w \<le> length m" by (simp add: w_def n_def)
    ultimately show ?thesis
      using small buf abcd c unfolding md5_rel_def Let_def
      by (simp add: upd iv_def [symmetric] n_def [symmetric] w_def [symmetric] mod w')
  next
    case fill
    define free where "free = 64 - n mod 64"
    define b where "b = put_bytes (n mod 64) (take free d) (md5_buffer s)"
    have fl: "length (take free d) = 64 - n mod 64" using fill by (simp add: free_def)
    have upd: "md5_update d s = md5_absorb (drop free d)
        (s1\<lparr>md5_buffer := b, md5_abcd := md5_body b (md5_abcd s1)\<rparr>)"
      using fill by (simp add: md5_update_def Let_def used s1_def b_def free_def)
    have b: "b = drop w m @ take free d"
      using buf fl by (simp add: b_def put_bytes_def)
    define p where "p = m @ take free d"
    have p: "length p mod 64 = 0"
    proof -
      have "length p = w + 64" using fl by (simp add: p_def w_def n_def)
      then show ?thesis by (simp add: w_def minus_mod_eq_mult_div)
    qed
    have "md5_body b (md5_abcd s1) = md5_body (take w m @ b) iv"
      using wlen by (simp add: md5_body_append c abcd)
    also have "take w m @ b = p" by (simp add: b p_def)
    finally have a: "md5_body b (md5_abcd s1) = md5_body p iv" .
    have bl: "length b = 64" using buf fl by (simp add: b_def)
    have pd: "p @ drop free d = m @ d" by (simp add: p_def)
    then have ln: "length p + length (drop free d) = n + length d"
      by (metis length_append n_def)
    show ?thesis
      using md5_absorb_lemma [where p = p and s = "s1\<lparr>md5_buffer := b, md5_abcd := md5_body b (md5_abcd s1)\<rparr>"
          and st = iv and data = "drop free d", OF _ _ _ refl]
        p a bl c
      unfolding pd ln
      by (simp add: upd md5_rel_def Let_def n_def iv_def)
  qed
qed


lemma md5_length_bytes_words:
  "md5_length_bytes n = le32 (push_bit 3 (of_nat (n mod 2 ^ 29))) @ le32 (of_nat (n div 2 ^ 29))"
proof -
  have lo: "(ucast (drop_bit k (push_bit 3 (of_nat (n mod 2 ^ 29) :: u32))) :: byte) =
      of_nat (8 * n div 2 ^ k)" if "k + 8 \<le> 32" for k
  proof -
    have "8 * n div 2 ^ k = drop_bit k (push_bit 3 n)"
      by (simp add: drop_bit_eq_div push_bit_eq_mult mult.commute)
    with that show ?thesis
      unfolding take_bit_eq_mod [symmetric]
      by (intro bit_word_eqI) (auto simp: bit_simps)
  qed
  have hi: "(ucast (drop_bit k (of_nat (n div 2 ^ 29) :: u32)) :: byte) = of_nat (8 * n div 2 ^ (32 + k))"
    if "k + 8 \<le> 32" for k
  proof -
    have "8 * n div 2 ^ (32 + k) = drop_bit (32 + k) (push_bit 3 n)"
      by (simp add: drop_bit_eq_div push_bit_eq_mult mult.commute)
    with that show ?thesis
      unfolding drop_bit_eq_div [symmetric]
      by (intro bit_word_eqI) (auto simp: bit_simps add.commute add.left_commute)
  qed
  show ?thesis
    using lo [of 0] lo [of 8] lo [of 16] lo [of 24] hi [of 0] hi [of 8] hi [of 16] hi [of 24]
    by (simp add: md5_length_bytes_def le32_def upt_rec [of _ 8] del: of_nat_mult)
qed

lemma length_md5_length_bytes [simp]: "length (md5_length_bytes n) = 8"
  by (simp add: md5_length_bytes_def)

text \<open>\<open>final\<close> digests the padded message.\<close>

lemma md5_final_spec:
  assumes rel: "md5_rel m s"
  shows "md5_final s = md5_spec m"
proof -
  define n where "n = length m"
  define w where "w = n - n mod 64"
  define iv :: chaining where "iv = (0x67452301, 0xefcdab89, 0x98badcfe, 0x10325476)"
  define L where "L = le32 (push_bit 3 (md5_lo s)) @ le32 (md5_hi s)"
  have lo: "md5_lo s = of_nat (n mod 2 ^ 29)" and hi: "md5_hi s = of_nat (n div 2 ^ 29)"
    and abcd: "md5_abcd s = md5_body (take w m) iv"
    and buf: "length (md5_buffer s) = 64" "take (n mod 64) (md5_buffer s) = drop w m"
    using rel by (simp_all add: md5_rel_def Let_def n_def w_def iv_def)
  have L: "L = md5_length_bytes n" by (simp add: L_def lo hi md5_length_bytes_words)
  have l8: "length L = 8" by (simp add: L)
  have used: "unat (md5_lo s AND 0x3f) = n mod 64" by (rule md5_used [OF lo])
  have wlen: "length (take w m) mod 64 = 0"
    by (simp add: w_def n_def minus_mod_eq_mult_div)
  define buf1 where "buf1 = put_bytes (n mod 64) [0x80] (md5_buffer s)"
  have u64: "n mod 64 < 64" by simp
  then have buf1: "length buf1 = 64" "take (n mod 64 + 1) buf1 = drop w m @ [0x80]"
    using buf take_put_bytes_end [of "n mod 64" "md5_buffer s" "[0x80]"]
    by (simp_all add: buf1_def)
  define out where "out = (\<lambda>st :: chaining. case st of (a, b, c, d) \<Rightarrow> le32 a @ le32 b @ le32 c @ le32 d)"
  have spec: "md5_spec m = out (md5_body (md5_pad m) iv)"
    by (simp add: md5_spec_def out_def iv_def)
  have pad: "md5_pad m = take w m @ drop w m @ [0x80] @ replicate ((119 - n mod 64) mod 64) 0 @ L"
    by (simp add: md5_pad_def n_def L)
  have fin: "put_bytes 56 L (put_bytes k (replicate (56 - k) 0) b) = take k b @ replicate (56 - k) 0 @ L"
    if "k \<le> 56" "length b = 64" for k b
    using that by (simp add: put_bytes_def l8)
  show ?thesis
  proof (cases "64 - (n mod 64 + 1) < 8")
    case True
    define z where "z = 64 - (n mod 64 + 1)"
    have b2: "put_bytes (n mod 64 + 1) (replicate z 0) buf1 = drop w m @ [0x80] @ replicate z 0"
      using buf1 u64 by (simp add: put_bytes_def z_def)
    have "(119 - n mod 64) mod 64 = z + 56"
      using True u64 mod_less [of "119 - n mod 64" 64] by (simp add: z_def)
    then have p: "md5_pad m = take w m @ (drop w m @ [0x80] @ replicate z 0) @ (replicate 56 0 @ L)"
      by (simp add: pad replicate_add)
    have bl: "length (drop w m @ [0x80] @ replicate z (0 :: byte)) = 64"
      using buf u64 by (simp add: z_def w_def n_def)
    have "md5_final s = out (md5_body (put_bytes 56 L (put_bytes 0 (replicate 56 0) (drop w m @ [0x80] @ replicate z 0)))
        (md5_body (drop w m @ [0x80] @ replicate z 0) (md5_abcd s)))"
      using True b2
      by (simp add: md5_final_def Let_def used buf1_def [symmetric] L_def [symmetric] out_def z_def)
    moreover have "md5_body (md5_pad m) iv =
        md5_body (replicate 56 0 @ L) (md5_body (drop w m @ [0x80] @ replicate z 0) (md5_abcd s))"
      unfolding p abcd md5_body_append [OF wlen]
      by (rule md5_body_append) (simp only: bl, simp)
    ultimately show ?thesis
      using bl fin [of 0 "drop w m @ [0x80] @ replicate z 0"] by (simp add: spec)
  next
    case False
    define k where "k = n mod 64 + 1"
    have k: "k \<le> 56" using False by (simp add: k_def)
    have "(119 - n mod 64) mod 64 = 56 - k"
      using False mod_add_self1 [of 64 "55 - n mod 64"] by (simp add: k_def)
    then have p: "md5_pad m = take w m @ (drop w m @ [0x80] @ replicate (56 - k) 0 @ L)"
      by (simp add: pad)
    have "md5_final s = out (md5_body (put_bytes 56 L (put_bytes k (replicate (56 - k) 0) buf1)) (md5_abcd s))"
      using False by (simp add: md5_final_def Let_def used buf1_def [symmetric] L_def [symmetric] out_def k_def)
    then show ?thesis
      using wlen buf1 fin [OF k, of buf1] by (simp add: spec p md5_body_append abcd k_def)
  qed
qed

lemma md5_chunked_spec:
  assumes "length buf = 64" and "\<forall>d \<in> set ds. length d < 2 ^ 61"
  shows "md5_final (foldl (\<lambda>s d. md5_update d s) (md5_init buf) ds) = md5_spec (concat ds)"
proof -
  have "md5_rel (m @ concat ds) (foldl (\<lambda>s d. md5_update d s) s ds)"
    if "md5_rel m s" "\<forall>d \<in> set ds. length d < 2 ^ 61" for m s ds
    using that
  proof (induction ds arbitrary: m s)
    case (Cons d ds)
    then have "md5_rel (m @ d) (md5_update d s)" by (intro md5_rel_update) simp_all
    from Cons.IH [OF this] Cons.prems show ?case by simp
  qed simp
  from this [OF md5_rel_init [OF assms(1)] assms(2)] show ?thesis
    by (simp add: md5_final_spec)
qed



end
