(* ===== verification/String_Util.thy ===== *)
theory String_Util
  imports Prelude "HOL-Library.Char_ord" "HOL-Library.List_Lexorder"
begin

text \<open>
  The string helpers: \<open>StringRef\<close> (\<open>string_ref.hpp\<close>) with its comparison by length first,
  prefix and suffix tests, and \<open>utils.cpp\<close> / \<open>utils.hpp\<close>: trimming and splitting, CQL
  identifiers, the names of the opcodes and the rounding to a power of two. The
  functions of \<open>ctype.h\<close> are those of the C locale.
\<close>

section \<open>Characters\<close>

text \<open>The type \<open>char\<close> is signed: a byte from 128 on is a negative number.\<close>

definition char_int :: "char \<Rightarrow> int" where
  "char_int c = sint (of_char c :: byte)"

definition isspace :: "char \<Rightarrow> bool" where
  "isspace c \<longleftrightarrow> (let n = (of_char c :: nat) in 9 \<le> n \<and> n \<le> 13 \<or> n = 32)"

definition isdigit :: "char \<Rightarrow> bool" where
  "isdigit c \<longleftrightarrow> (let n = (of_char c :: nat) in 48 \<le> n \<and> n \<le> 57)"

definition digit_value :: "char \<Rightarrow> nat" where
  "digit_value c = (of_char c :: nat) - 48"

definition tolower :: "char \<Rightarrow> char" where
  "tolower c = (let n = (of_char c :: nat) in if 65 \<le> n \<and> n \<le> 90 then char_of (n + 32) else c)"

definition toupper :: "char \<Rightarrow> char" where
  "toupper c = (let n = (of_char c :: nat) in if 97 \<le> n \<and> n \<le> 122 then char_of (n - 32) else c)"

section \<open>StringRef\<close>

fun compare_chars :: "(char \<Rightarrow> char \<Rightarrow> bool) \<Rightarrow> string \<Rightarrow> string \<Rightarrow> nat \<Rightarrow> int" where
  "compare_chars is_equal (a # s1) (b # s2) (Suc len) =
     (if \<not> is_equal a b then (if char_int a < char_int b then - 1 else 1)
      else compare_chars is_equal s1 s2 len)"
| "compare_chars _ _ _ _ = 0"

definition IsEqual :: "char \<Rightarrow> char \<Rightarrow> bool" where
  "IsEqual a b \<longleftrightarrow> a = b"

definition IsEqualInsensitive :: "char \<Rightarrow> char \<Rightarrow> bool" where
  "IsEqualInsensitive a b \<longleftrightarrow> toupper a = toupper b"

definition compare_with :: "(char \<Rightarrow> char \<Rightarrow> bool) \<Rightarrow> string \<Rightarrow> string \<Rightarrow> int" where
  "compare_with is_equal s ref =
     (if length s < length ref then - 1
      else if length s > length ref then 1
      else compare_chars is_equal s ref (length s))"

definition string_compare :: "string \<Rightarrow> string \<Rightarrow> int" where
  "string_compare s ref = compare_with IsEqual s ref"

definition icompare :: "string \<Rightarrow> string \<Rightarrow> int" where
  "icompare s ref = compare_with IsEqualInsensitive s ref"

definition string_equals :: "string \<Rightarrow> string \<Rightarrow> bool" where
  "string_equals s ref \<longleftrightarrow> string_compare s ref = 0"

definition iequals :: "string \<Rightarrow> string \<Rightarrow> bool" where
  "iequals s ref \<longleftrightarrow> icompare s ref = 0"

definition string_less :: "string \<Rightarrow> string \<Rightarrow> bool" where
  "string_less s ref \<longleftrightarrow> string_compare s ref < 0"

definition starts_with :: "string \<Rightarrow> string \<Rightarrow> bool" where
  "starts_with input target \<longleftrightarrow>
     length input \<ge> length target \<and> compare_chars IsEqual input target (length target) = 0"

definition ends_with :: "string \<Rightarrow> string \<Rightarrow> bool" where
  "ends_with input target \<longleftrightarrow>
     length input \<ge> length target \<and>
     compare_chars IsEqual (drop (length input - length target) input) target (length target) = 0"

text \<open>\<open>StringRef::substr\<close>: the position must lie inside the string.\<close>

definition string_substr :: "string \<Rightarrow> nat \<Rightarrow> nat \<Rightarrow> string option" where
  "string_substr s pos len =
     (if pos < length s then Some (take (min (length s - pos) len) (drop pos s)) else None)"

text \<open>An unsigned number written to a stream.\<close>

fun show_nat :: "nat \<Rightarrow> string" where
  "show_nat n = (if n < 10 then [] else show_nat (n div 10)) @ [char_of (48 + n mod 10)]"

declare show_nat.simps [simp del]

section \<open>Trimming and splitting\<close>

definition trim :: "string \<Rightarrow> string" where
  "trim str = rev (dropWhile isspace (rev (dropWhile isspace str)))"

text \<open>\<open>std::getline\<close>: the token, and what is left unless the end of the stream was reached.\<close>

definition getline :: "char \<Rightarrow> string \<Rightarrow> string \<times> string option" where
  "getline delimiter stream =
     (let token = takeWhile (\<lambda>c. c \<noteq> delimiter) stream
      in (token, case dropWhile (\<lambda>c. c \<noteq> delimiter) stream of [] \<Rightarrow> None | _ # rest \<Rightarrow> Some rest))"

function explode :: "string \<Rightarrow> char \<Rightarrow> string list" where
  "explode str delimiter =
     (case getline delimiter str of (token, rest) \<Rightarrow>
       (if trim token \<noteq> [] then [trim token] else []) @
       (case rest of None \<Rightarrow> [] | Some str \<Rightarrow> explode str delimiter))"
  by pat_completeness auto
termination
proof (relation "measure (\<lambda>(s, d). length s)")
  fix str d token rest str'
  assume "(token, rest) = getline d str" and "rest = Some str'"
  then obtain c where "dropWhile (\<lambda>c. c \<noteq> d) str = c # str'"
    by (cases "dropWhile (\<lambda>c. c \<noteq> d) str") (auto simp: getline_def Let_def)
  then have "length (c # str') \<le> length str" by (metis length_dropWhile_le)
  then show "((str', d), (str, d)) \<in> measure (\<lambda>(s, d). length s)" by simp
qed simp

declare explode.simps [simp del]

section \<open>CQL identifiers\<close>

definition is_valid_cql_id_char :: "char \<Rightarrow> bool" where
  "is_valid_cql_id_char c \<longleftrightarrow>
     (let n = (of_char c :: nat) in
      97 \<le> n \<and> n \<le> 122 \<or> 65 \<le> n \<and> n \<le> 90 \<or> 48 \<le> n \<and> n \<le> 57 \<or> n = 95)"

definition is_valid_cql_id :: "string \<Rightarrow> bool" where
  "is_valid_cql_id str \<longleftrightarrow> list_all is_valid_cql_id_char str"

definition quote_char :: char where "quote_char = CHR 0x22"

definition to_cql_id :: "string \<Rightarrow> string" where
  "to_cql_id str =
     (if is_valid_cql_id str then map tolower str
      else if length str > 2 \<and> str ! 0 = quote_char \<and> str ! (length str - 1) = quote_char
      then drop 1 (butlast str)
      else str)"

section \<open>Opcodes and sizes\<close>

text \<open>The opcodes of the native protocol (\<open>constants.hpp\<close>).\<close>

definition opcodes :: "(byte \<times> string) list" where
  "opcodes =
     [(0x00, ''CQL_OPCODE_ERROR''), (0x01, ''CQL_OPCODE_STARTUP''), (0x02, ''CQL_OPCODE_READY''),
      (0x03, ''CQL_OPCODE_AUTHENTICATE''), (0x04, ''CQL_OPCODE_CREDENTIALS''),
      (0x05, ''CQL_OPCODE_OPTIONS''), (0x06, ''CQL_OPCODE_SUPPORTED''),
      (0x07, ''CQL_OPCODE_QUERY''), (0x08, ''CQL_OPCODE_RESULT''), (0x09, ''CQL_OPCODE_PREPARE''),
      (0x0A, ''CQL_OPCODE_EXECUTE''), (0x0B, ''CQL_OPCODE_REGISTER''), (0x0C, ''CQL_OPCODE_EVENT''),
      (0x0D, ''CQL_OPCODE_BATCH''), (0x0E, ''CQL_OPCODE_AUTH_CHALLENGE''),
      (0x0F, ''CQL_OPCODE_AUTH_RESPONSE''), (0x10, ''CQL_OPCODE_AUTH_SUCCESS'')]"

text \<open>An unknown opcode fails the assertion.\<close>

definition opcode_to_string :: "byte \<Rightarrow> string option" where
  "opcode_to_string opcode = map_of opcodes opcode"

text \<open>
  The loop of \<open>next_pow_2\<close>; \<open>next\<close> starts at 2 and becomes \<open>1 << i\<close> for \<open>i = 0, 1, ...\<close>. A
  shift by 64 is undefined and is \<open>None\<close>.
\<close>

function next_pow_2_loop :: "nat \<Rightarrow> nat \<Rightarrow> nat \<Rightarrow> nat option" where
  "next_pow_2_loop num next i =
     (if next < num then (if i < 64 then next_pow_2_loop num (2 ^ i) (i + 1) else None)
      else Some next)"
  by pat_completeness auto
termination by (relation "measure (\<lambda>(num, next, i). 64 - i)") auto

declare next_pow_2_loop.simps [simp del]

definition next_pow_2 :: "nat \<Rightarrow> nat option" where
  "next_pow_2 num = next_pow_2_loop num 2 0"


section \<open>Comparison\<close>

lemma compare_chars_0:
  "length a = length b \<Longrightarrow> compare_chars eq a b (length a) = 0 \<longleftrightarrow> list_all2 eq a b"
  by (induction a b rule: list_induct2) auto

lemma compare_chars_prefix:
  "length b \<le> length a \<Longrightarrow> compare_chars eq a b (length b) = 0 \<longleftrightarrow> list_all2 eq (take (length b) a) b"
proof (induction b arbitrary: a)
  case (Cons x b)
  then show ?case by (cases a) auto
qed simp

lemma list_all2_IsEqual [simp]: "list_all2 IsEqual a b \<longleftrightarrow> a = b"
  by (simp add: IsEqual_def [abs_def] list.rel_eq)

lemma compare_with_0: "compare_with eq s r = 0 \<longleftrightarrow> list_all2 eq s r"
  by (auto simp: compare_with_def compare_chars_0 not_less dest: list_all2_lengthD)

lemma string_equals_iff [simp]: "string_equals s r \<longleftrightarrow> s = r"
  by (simp add: string_equals_def string_compare_def compare_with_0)

lemma iequals_iff: "iequals s r \<longleftrightarrow> map toupper s = map toupper r"
  by (auto simp: iequals_def icompare_def compare_with_0 IsEqualInsensitive_def [abs_def]
      list_all2_conv_all_nth list_eq_iff_nth_eq)

lemma starts_with_iff: "starts_with input t \<longleftrightarrow> (\<exists>rest. input = t @ rest)"
  by (auto simp: starts_with_def compare_chars_prefix) (metis append_take_drop_id)

lemma ends_with_iff: "ends_with input t \<longleftrightarrow> (\<exists>front. input = front @ t)"
proof -
  have "compare_chars IsEqual (drop (length input - length t) input) t (length t) = 0 \<longleftrightarrow>
      drop (length input - length t) input = t" if "length t \<le> length input"
    using compare_chars_prefix [of t "drop (length input - length t) input" IsEqual] that by simp
  then show ?thesis
    by (auto simp: ends_with_def) (metis append_take_drop_id)
qed

lemma unat_of_char: "unat (of_char c :: byte) = of_char c"
proof -
  have "(of_char c :: byte) = of_nat (of_char c)" by (simp only: of_nat_of_char)
  then have "unat (of_char c :: byte) = of_char c mod 256" by (simp add: unat_of_nat del: of_nat_of_char)
  then show ?thesis by (simp add: mod_less nat_of_char_less_256)
qed

lemma char_int_inj: "char_int a = char_int b \<longleftrightarrow> a = b"
  unfolding char_int_def by (metis of_char_eq_iff signed_word_eqI unat_of_char)

section \<open>Trimming\<close>

lemma dropWhile_idem [simp]: "dropWhile P (dropWhile P xs) = dropWhile P xs"
  by (induction xs) auto

lemma dropWhile_prefix: "dropWhile P (xs @ ys) = xs @ ys \<Longrightarrow> dropWhile P xs = xs"
  using length_dropWhile_le [of P "tl (xs @ ys)"] by (cases xs) (auto split: if_splits)

lemma trim_idem [simp]: "trim (trim s) = trim s"
proof -
  define y where "y = dropWhile isspace s"
  define z where "z = rev (dropWhile isspace (rev y))"
  have "rev y = takeWhile isspace (rev y) @ dropWhile isspace (rev y)" by simp
  then have "y = z @ rev (takeWhile isspace (rev y))"
    unfolding z_def by (metis rev_append rev_rev_ident)
  moreover have "dropWhile isspace y = y" by (simp add: y_def)
  ultimately have "dropWhile isspace z = z" by (metis dropWhile_prefix)
  moreover have "dropWhile isspace (rev z) = rev z" by (simp add: z_def)
  ultimately show ?thesis by (simp add: trim_def y_def [symmetric] z_def [symmetric])
qed

section \<open>Splitting\<close>

text \<open>What \<open>explode\<close> is meant to return: tokens without surrounding space, none empty.\<close>

definition token_ok :: "char \<Rightarrow> string \<Rightarrow> bool" where
  "token_ok d t \<longleftrightarrow> t \<noteq> [] \<and> trim t = t \<and> d \<notin> set t"

fun join :: "char \<Rightarrow> string list \<Rightarrow> string" where
  "join d [] = []"
| "join d [t] = t"
| "join d (t # u # ts) = t @ d # join d (u # ts)"

lemma set_trim: "set (trim s) \<subseteq> set s"
  unfolding trim_def by (metis set_rev set_dropWhileD subsetI)

lemma explode_tokens: "t \<in> set (explode s d) \<Longrightarrow> token_ok d t"
proof (induction s d rule: explode.induct)
  case (1 s d)
  obtain tok rest where g: "getline d s = (tok, rest)" by force
  then have "d \<notin> set tok"
    by (auto simp: getline_def Let_def dest: set_takeWhileD)
  then have "d \<notin> set (trim tok)" using set_trim by blast
  from "1.prems" consider "t = trim tok" "trim tok \<noteq> []" | s' where "rest = Some s'" "t \<in> set (explode s' d)"
    by (subst (asm) explode.simps) (auto simp: g split: if_splits option.splits)
  then show ?case
  proof cases
    case 1
    then show ?thesis using \<open>d \<notin> set (trim tok)\<close> by (simp add: token_ok_def)
  next
    case 2
    then show ?thesis using "1.IH" [OF g [symmetric]] by blast
  qed
qed

lemma getline_last:
  assumes "d \<notin> set t"
  shows "getline d t = (t, None)"
proof -
  have "\<forall>c \<in> set t. c \<noteq> d" using assms by blast
  then have "takeWhile (\<lambda>c. c \<noteq> d) t = t" and "dropWhile (\<lambda>c. c \<noteq> d) t = []" by simp_all
  then show ?thesis by (simp only: getline_def Let_def list.case)
qed

lemma getline_more: "d \<notin> set t \<Longrightarrow> getline d (t @ d # rest) = (t, Some rest)"
  by (induction t) (auto simp: getline_def Let_def)

lemma explode_join: "\<forall>t \<in> set ts. token_ok d t \<Longrightarrow> explode (join d ts) d = ts"
proof (induction d ts rule: join.induct)
  case (1 d)
  then show ?case by (subst explode.simps) (simp add: getline_last trim_def)
next
  case (2 d t)
  then show ?case by (subst explode.simps) (simp add: getline_last token_ok_def)
next
  case (3 d t u ts)
  then show ?case by (subst explode.simps) (simp add: getline_more token_ok_def)
qed

section \<open>Powers of two\<close>

lemma next_pow_2_loop_result:
  assumes "next_pow_2_loop num next i = Some r" and "\<exists>k. next = 2 ^ k"
  shows "num \<le> r \<and> (\<exists>k. r = 2 ^ k)"
  using assms
  by (induction num "next" i rule: next_pow_2_loop.induct)
    (subst (asm) (2) next_pow_2_loop.simps, auto split: if_splits)

lemma next_pow_2_loop_minimal:
  "next_pow_2_loop num (2 ^ i) (Suc i) = Some r \<Longrightarrow> 2 ^ i < 2 * num \<Longrightarrow> r < 2 * num"
proof (induction "64 - i" arbitrary: i rule: less_induct)
  case less
  show ?case
  proof (cases "2 ^ i < num")
    case True
    with less.prems have "Suc i < 64" "next_pow_2_loop num (2 ^ Suc i) (Suc (Suc i)) = Some r"
      by (subst (asm) next_pow_2_loop.simps, auto split: if_splits)+
    moreover have "(2 :: nat) ^ Suc i < 2 * num" using True by simp
    moreover have "64 - Suc i < 64 - i" using \<open>Suc i < 64\<close> by simp
    ultimately show ?thesis using less.hyps [of "Suc i"] by blast
  next
    case False
    with less.prems show ?thesis by (subst (asm) next_pow_2_loop.simps) simp
  qed
qed

text \<open>
  \<open>next_pow_2\<close> returns for every size up to \<open>2 ^ 63\<close>; its result is the power of two,
  at least 2, that is not below the size and below its double.
\<close>

theorem next_pow_2_spec:
  assumes "num \<le> 2 ^ 63"
  shows "\<exists>r k. next_pow_2 num = Some r \<and> r = 2 ^ k \<and> num \<le> r \<and> r < max 3 (2 * num)"
proof -
  have ex: "\<exists>r. next_pow_2_loop num n i = Some r" if "i = 64 \<longrightarrow> num \<le> n" "i \<le> 64" for n i
    using that
  proof (induction "64 - i" arbitrary: n i rule: less_induct)
    case less
    show ?case
    proof (cases "n < num")
      case True
      with less.prems have "i < 64" by auto
      with less.hyps [of "Suc i" "2 ^ i"] assms
      have "\<exists>r. next_pow_2_loop num (2 ^ i) (Suc i) = Some r" by (cases "i = 63") simp_all
      with True \<open>i < 64\<close> show ?thesis by (subst next_pow_2_loop.simps) simp
    qed (subst next_pow_2_loop.simps, simp)
  qed
  then obtain r where r: "next_pow_2_loop num 2 0 = Some r" by force
  with next_pow_2_loop_result [OF this] obtain k where "r = 2 ^ k" "num \<le> r"
    by (metis power_one_right)
  moreover have "r < 2 * num" if "2 < num"
  proof -
    have "next_pow_2_loop num (2 ^ 0) (Suc 0) = Some r"
      using r that by (subst (asm) next_pow_2_loop.simps) simp
    from next_pow_2_loop_minimal [OF this] that show ?thesis by simp
  qed
  moreover have "r = 2" if "\<not> 2 < num"
    using r that by (subst (asm) next_pow_2_loop.simps) simp
  ultimately show ?thesis using r by (cases "2 < num") (auto simp: next_pow_2_def)
qed

theorem next_pow_2_spec_witness:
  "\<exists>r k. next_pow_2 5 = Some r \<and> r = 2 ^ k \<and> 5 \<le> r \<and> r < max 3 (2 * (5 :: nat))"
  by (rule next_pow_2_spec) simp

end
