(* ===== verification/Std_Map.thy ===== *)
theory Std_Map
  imports Prelude "HOL-Library.List_Lexorder" "HOL-Library.Char_ord"
begin

text \<open>
  The \<open>std::map\<close> and \<open>std::set\<close> of the C++ library, which the metadata components use:
  a map is the list of its entries in the order of the keys. The keys are byte vectors
  (tokens) and strings, ordered as \<open>std::vector\<close> and \<open>std::string\<close> order them. What the
  components rely on is the locale \<open>ordered_map\<close>.
\<close>

section \<open>The interface\<close>

locale ordered_map =
  fixes inv :: "'m \<Rightarrow> bool"
    and empty :: 'm
    and find :: "'m \<Rightarrow> 'k \<Rightarrow> 'v option"
    and assign :: "'k \<Rightarrow> 'v \<Rightarrow> 'm \<Rightarrow> 'm"
    and erase :: "'k \<Rightarrow> 'm \<Rightarrow> 'm"
  assumes inv_empty: "inv empty"
    and inv_assign: "inv m \<Longrightarrow> inv (assign k v m)"
    and inv_erase: "inv m \<Longrightarrow> inv (erase k m)"
    and find_empty: "find empty k = None"
    and find_assign: "inv m \<Longrightarrow> find (assign k v m) = (find m)(k \<mapsto> v)"
    and find_erase: "inv m \<Longrightarrow> find (erase k m) = (find m)(k := None)"
begin

lemma find_assign_all:
  "inv m \<Longrightarrow> inv (foldl (\<lambda>m k. assign k v m) m ks) \<and>
   find (foldl (\<lambda>m k. assign k v m) m ks) = (\<lambda>k. if k \<in> set ks then Some v else find m k)"
  by (induction ks arbitrary: m) (auto simp: inv_assign find_assign fun_eq_iff)

lemma assign_erase: "inv m \<Longrightarrow> find (assign k v (erase k m)) = find (assign k v m)"
  by (simp add: find_assign find_erase inv_erase)

end

section \<open>Maps\<close>

type_synonym ('k, 'v) std_map = "('k \<times> 'v) list"

definition map_inv :: "('k::linorder, 'v) std_map \<Rightarrow> bool" where
  "map_inv m \<longleftrightarrow> sorted_wrt (<) (map fst m)"

definition map_find :: "('k::linorder, 'v) std_map \<Rightarrow> 'k \<Rightarrow> 'v option" where
  "map_find m k = map_of m k"

text \<open>\<open>m[k] = v\<close>\<close>

fun map_assign :: "'k::linorder \<Rightarrow> 'v \<Rightarrow> ('k, 'v) std_map \<Rightarrow> ('k, 'v) std_map" where
  "map_assign k v [] = [(k, v)]"
| "map_assign k v ((k', v') # m) =
     (if k < k' then (k, v) # (k', v') # m
      else if k = k' then (k, v) # m
      else (k', v') # map_assign k v m)"

text \<open>\<open>m.insert(make_pair(k, v))\<close> leaves an entry that is there.\<close>

definition map_insert_new :: "'k::linorder \<Rightarrow> 'v \<Rightarrow> ('k, 'v) std_map \<Rightarrow> ('k, 'v) std_map" where
  "map_insert_new k v m = (if map_find m k = None then map_assign k v m else m)"

definition map_erase :: "'k::linorder \<Rightarrow> ('k, 'v) std_map \<Rightarrow> ('k, 'v) std_map" where
  "map_erase k m = filter (\<lambda>e. fst e \<noteq> k) m"

text \<open>\<open>m[k]\<close> as a value, with the default of a key that is missing.\<close>

definition map_get :: "'v \<Rightarrow> ('k::linorder, 'v) std_map \<Rightarrow> 'k \<Rightarrow> 'v" where
  "map_get d m k = (case map_find m k of Some v \<Rightarrow> v | None \<Rightarrow> d)"

text \<open>\<open>m.upper_bound(k)\<close>: the entries from the iterator to the end.\<close>

definition map_upper_bound :: "'k::linorder \<Rightarrow> ('k, 'v) std_map \<Rightarrow> ('k, 'v) std_map" where
  "map_upper_bound k m = dropWhile (\<lambda>e. \<not> k < fst e) m"

lemma map_assign_keys: "fst ` set (map_assign k v m) = insert k (fst ` set m)"
  by (induction k v m rule: map_assign.induct) auto

lemma map_inv_assign: "map_inv m \<Longrightarrow> map_inv (map_assign k v m)"
proof (induction k v m rule: map_assign.induct)
  case (2 k v k' v' m)
  then show ?case
    using map_assign_keys [of k v m] by (auto simp: map_inv_def)
qed (simp add: map_inv_def)

lemma map_inv_filter: "map_inv m \<Longrightarrow> map_inv (filter P m)"
  unfolding map_inv_def by (induction m) auto

lemma map_find_assign: "map_inv m \<Longrightarrow> map_find (map_assign k v m) = (map_find m)(k \<mapsto> v)"
proof (induction k v m rule: map_assign.induct)
  case (2 k v k' v' m)
  then have "map_inv m" by (simp add: map_inv_def)
  with 2 show ?case by (auto simp: map_find_def fun_eq_iff)
qed (auto simp: map_find_def fun_eq_iff)

lemma map_get_assign:
  "map_inv m \<Longrightarrow> map_get d (map_assign k v m) k' = (if k' = k then v else map_get d m k')"
  by (simp add: map_get_def map_find_assign)

lemma map_find_erase: "map_find (map_erase k m) = (map_find m)(k := None)"
  by (induction m) (auto simp: map_find_def map_erase_def fun_eq_iff)

lemma map_inv_erase: "map_inv m \<Longrightarrow> map_inv (map_erase k m)"
  by (simp add: map_erase_def map_inv_filter)

lemma map_nil: "map_inv []" "map_find [] k = None"
  by (simp_all add: map_inv_def map_find_def)

interpretation std_map: ordered_map map_inv "[]" map_find map_assign map_erase
  by unfold_locales
    (simp_all add: map_inv_assign map_find_assign map_find_erase map_inv_erase map_nil)

lemma map_inv_distinct: "map_inv m \<Longrightarrow> distinct (map fst m)"
  unfolding map_inv_def strict_sorted_iff by simp

lemma map_find_iff: "map_inv m \<Longrightarrow> map_find m k = Some v \<longleftrightarrow> (k, v) \<in> set m"
  by (simp add: map_find_def map_of_eq_Some_iff [OF map_inv_distinct])

text \<open>The entry at the upper bound is the one with the least greater key.\<close>

lemma map_upper_bound_spec:
  assumes "map_inv m"
  shows "set (map_upper_bound k m) = {e \<in> set m. k < fst e}"
  using assms
proof (induction m)
  case (Cons e m)
  then have "map_inv m" by (simp add: map_inv_def)
  with Cons show ?case by (auto simp: map_upper_bound_def map_inv_def)
qed (simp add: map_upper_bound_def)

lemma map_upper_bound_least:
  assumes "map_inv m" and "map_upper_bound k m = e # es"
  shows "e \<in> set m \<and> k < fst e \<and> (\<forall>e' \<in> set m. k < fst e' \<longrightarrow> fst e \<le> fst e')"
proof -
  have m: "m = takeWhile (\<lambda>e. \<not> k < fst e) m @ e # es"
    using assms(2) by (metis map_upper_bound_def takeWhile_dropWhile_id)
  then have "map_inv (takeWhile (\<lambda>e. \<not> k < fst e) m @ e # es)" using assms(1) by simp
  then have "\<forall>e' \<in> set es. fst e < fst e'" by (simp add: map_inv_def sorted_wrt_append)
  moreover have "{e' \<in> set m. k < fst e'} = set (e # es)"
    using map_upper_bound_spec [OF assms(1), of k] by (simp add: assms(2))
  ultimately show ?thesis by (force intro: less_imp_le)
qed

section \<open>Sets\<close>

fun set_insert :: "'k::linorder \<Rightarrow> 'k list \<Rightarrow> 'k list" where
  "set_insert k [] = [k]"
| "set_insert k (x # xs) = (if k < x then k # x # xs else if k = x then x # xs else x # set_insert k xs)"

lemma set_set_insert [simp]: "set (set_insert k xs) = insert k (set xs)"
  by (induction xs) auto

lemma sorted_set_insert: "sorted_wrt (<) xs \<Longrightarrow> sorted_wrt (<) (set_insert k xs)"
  by (induction xs) auto

lemma distinct_set_insert: "sorted_wrt (<) xs \<Longrightarrow> distinct (set_insert k xs)"
  using sorted_set_insert strict_sorted_iff by blast

end
