(* ===== verification/Host.thy ===== *)
theory Host
  imports Address String_Util Std_Map
begin

text \<open>
  \<open>host.hpp\<close>, \<open>host.cpp\<close>: the hosts of the cluster, their state, version and latency
  average, and the host lists of the load balancing policies. A \<open>SharedRefPtr<Host>\<close> is a
  reference (a number) into the store of the hosts, so that a host that several lists share
  has one state.
\<close>

section \<open>Hosts\<close>

datatype host_state = ADDED | UP | DOWN

record version_number =
  v_major :: int
  v_minor :: int
  v_patch :: int

record timestamped_average =
  average :: u64
  ta_timestamp :: u64
  num_measured :: u64

record latency_tracker =
  scale_ns :: u64
  threshold_to_account :: u64
  cur_average :: timestamped_average

record host =
  address :: address
  hmark :: bool
  hstate :: host_state
  listen_address :: string
  cassandra_version :: version_number
  rack :: string
  dc :: string
  tracker :: "latency_tracker option"

type_synonym host_ref = nat
type_synonym host_store = "host_ref \<Rightarrow> host"
type_synonym host_vec = "host_ref list"
type_synonym host_map = "(address \<times> host_ref) list"

definition no_average :: timestamped_average where
  "no_average = \<lparr>average = - 1, ta_timestamp = 0, num_measured = 0\<rparr>"

definition new_host :: "address \<Rightarrow> bool \<Rightarrow> host" where
  "new_host addr mrk = \<lparr>address = addr, hmark = mrk, hstate = ADDED, listen_address = [],
     cassandra_version = \<lparr>v_major = 0, v_minor = 0, v_patch = 0\<rparr>, rack = [], dc = [],
     tracker = None\<rparr>"

definition set_rack_and_dc :: "string \<Rightarrow> string \<Rightarrow> host \<Rightarrow> host" where
  "set_rack_and_dc r d h = h\<lparr>rack := r, dc := d\<rparr>"

definition was_just_added :: "host \<Rightarrow> bool" where "was_just_added h \<longleftrightarrow> hstate h = ADDED"
definition is_up :: "host \<Rightarrow> bool" where "is_up h \<longleftrightarrow> hstate h = UP"
definition is_down :: "host \<Rightarrow> bool" where "is_down h \<longleftrightarrow> hstate h = DOWN"
definition set_up :: "host \<Rightarrow> host" where "set_up h = h\<lparr>hstate := UP\<rparr>"
definition set_down :: "host \<Rightarrow> host" where "set_down h = h\<lparr>hstate := DOWN\<rparr>"

section \<open>Versions\<close>

definition version_compare :: "version_number \<Rightarrow> version_number \<Rightarrow> int" where
  "version_compare self other =
     (if v_major self < v_major other then - 1
      else if v_major self > v_major other then 1
      else if v_minor self < v_minor other then - 1
      else if v_minor self > v_minor other then 1
      else if v_patch self < v_patch other then - 1
      else if v_patch self > v_patch other then 1
      else 0)"

definition version_ge :: "version_number \<Rightarrow> version_number \<Rightarrow> bool" where
  "version_ge self other \<longleftrightarrow> version_compare self other \<ge> 0"

section \<open>Latency\<close>

definition enable_latency_tracking :: "u64 \<Rightarrow> u64 \<Rightarrow> host \<Rightarrow> host" where
  "enable_latency_tracking scale min_measured h =
     (case tracker h of
        Some _ \<Rightarrow> h
      | None \<Rightarrow> h\<lparr>tracker := Some \<lparr>scale_ns = scale,
                  threshold_to_account = (30 * min_measured) div 100,
                  cur_average = no_average\<rparr>\<rparr>)"

text \<open>
  \<open>LatencyTracker::update\<close> at the time \<open>now\<close>. The weighted average is computed in floating
  point with a logarithm: \<open>weigh delay scale latency previous\<close> is its result.
\<close>

definition latency_update ::
  "(u64 \<Rightarrow> u64 \<Rightarrow> u64 \<Rightarrow> u64 \<Rightarrow> u64) \<Rightarrow> u64 \<Rightarrow> u64 \<Rightarrow> latency_tracker \<Rightarrow> latency_tracker" where
  "latency_update weigh now latency_ns t =
     (let previous = cur_average t;
          counted = (\<lambda>avg. t\<lparr>cur_average := \<lparr>average = avg, ta_timestamp = now,
                                         num_measured = num_measured previous + 1\<rparr>\<rparr>)
      in if num_measured previous < threshold_to_account t then counted (- 1)
         else if sint (average previous) < 0 then counted latency_ns
         else let delay = now - ta_timestamp previous
              in if sint delay \<le> 0 then t
                 else counted (weigh delay (scale_ns t) latency_ns (average previous)))"

definition update_latency ::
  "(u64 \<Rightarrow> u64 \<Rightarrow> u64 \<Rightarrow> u64 \<Rightarrow> u64) \<Rightarrow> u64 \<Rightarrow> u64 \<Rightarrow> host \<Rightarrow> host" where
  "update_latency weigh now latency_ns h =
     (case tracker h of None \<Rightarrow> h
      | Some t \<Rightarrow> h\<lparr>tracker := Some (latency_update weigh now latency_ns t)\<rparr>)"

definition get_current_average :: "host \<Rightarrow> timestamped_average" where
  "get_current_average h = (case tracker h of None \<Rightarrow> no_average | Some t \<Rightarrow> cur_average t)"

section \<open>Host lists\<close>

definition same_address :: "host_store \<Rightarrow> host_ref \<Rightarrow> host_ref \<Rightarrow> bool" where
  "same_address hs a b \<longleftrightarrow> eq_address (address (hs a)) (address (hs b))"

definition copy_hosts :: "host_map \<Rightarrow> host_vec \<Rightarrow> host_vec" where
  "copy_hosts from_hosts to_hosts = to_hosts @ map snd from_hosts"

text \<open>The first host with the address is replaced, otherwise the host is appended.\<close>

fun add_host :: "host_store \<Rightarrow> host_ref \<Rightarrow> host_vec \<Rightarrow> host_vec" where
  "add_host hs h [] = [h]"
| "add_host hs h (x # xs) = (if same_address hs x h then h # xs else x # add_host hs h xs)"

fun remove_host :: "host_store \<Rightarrow> host_ref \<Rightarrow> host_vec \<Rightarrow> host_vec" where
  "remove_host hs h [] = []"
| "remove_host hs h (x # xs) = (if same_address hs x h then xs else x # remove_host hs h xs)"

section \<open>Properties\<close>

lemma version_compare_lexicographic:
  "version_compare a b < 0 \<longleftrightarrow>
     v_major a < v_major b \<or> v_major a = v_major b \<and>
       (v_minor a < v_minor b \<or> v_minor a = v_minor b \<and> v_patch a < v_patch b)"
  "version_compare a b = 0 \<longleftrightarrow>
     v_major a = v_major b \<and> v_minor a = v_minor b \<and> v_patch a = v_patch b"
  "version_compare b a = - version_compare a b"
  by (auto simp: version_compare_def)

text \<open>The hosts of a store with real addresses, pairwise different in a list.\<close>

definition proper_hosts :: "host_store \<Rightarrow> bool" where
  "proper_hosts hs \<longleftrightarrow> (\<forall>h. proper_address (address (hs h)))"

definition distinct_hosts :: "host_store \<Rightarrow> host_vec \<Rightarrow> bool" where
  "distinct_hosts hs xs \<longleftrightarrow> distinct (map (\<lambda>h. host_part (address (hs h))) xs)"

lemma same_address_iff:
  "proper_hosts hs \<Longrightarrow>
   same_address hs a b \<longleftrightarrow> host_part (address (hs a)) = host_part (address (hs b))"
  by (simp add: same_address_def proper_hosts_def eq_address_host_part)

lemma distinct_hosts_Cons:
  "distinct_hosts hs (x # xs) \<longleftrightarrow>
     (\<forall>y \<in> set xs. host_part (address (hs y)) \<noteq> host_part (address (hs x))) \<and> distinct_hosts hs xs"
  by (auto simp: distinct_hosts_def image_iff)

lemma distinct_hosts_Nil [simp]: "distinct_hosts hs []"
  by (simp add: distinct_hosts_def)

lemma set_add_host:
  assumes "proper_hosts hs" and "distinct_hosts hs xs"
  shows "set (add_host hs h xs) = insert h {x \<in> set xs. \<not> same_address hs x h}"
  using assms(2)
  by (induction xs) (auto simp: distinct_hosts_Cons same_address_iff [OF assms(1)])

lemma set_remove_host:
  assumes "proper_hosts hs" and "distinct_hosts hs xs"
  shows "set (remove_host hs h xs) = {x \<in> set xs. \<not> same_address hs x h}"
  using assms(2)
  by (induction xs) (auto simp: distinct_hosts_Cons same_address_iff [OF assms(1)])

lemma distinct_add_host:
  assumes "proper_hosts hs" and "distinct_hosts hs xs"
  shows "distinct_hosts hs (add_host hs h xs)"
  using assms(2)
  by (induction xs)
    (auto simp: distinct_hosts_Cons same_address_iff [OF assms(1)] set_add_host [OF assms(1)])

lemma distinct_remove_host:
  assumes "proper_hosts hs" and "distinct_hosts hs xs"
  shows "distinct_hosts hs (remove_host hs h xs)"
  using assms(2)
  by (induction xs)
    (auto simp: distinct_hosts_Cons same_address_iff [OF assms(1)] set_remove_host [OF assms(1)])

section \<open>The latency average\<close>

text \<open>The first \<open>k\<close> updates of a fresh tracker, at the given times with the given latencies.\<close>

definition run_updates ::
  "(u64 \<Rightarrow> u64 \<Rightarrow> u64 \<Rightarrow> u64 \<Rightarrow> u64) \<Rightarrow> (u64 \<times> u64) list \<Rightarrow> latency_tracker \<Rightarrow> latency_tracker" where
  "run_updates weigh es t = foldl (\<lambda>t (now, l). latency_update weigh now l t) t es"

lemma run_updates_below:
  assumes "cur_average t = no_average" and "length es \<le> unat (threshold_to_account t)"
  shows "average (cur_average (run_updates weigh es t)) = - 1 \<and>
         num_measured (cur_average (run_updates weigh es t)) = of_nat (length es) \<and>
         threshold_to_account (run_updates weigh es t) = threshold_to_account t"
  using assms(2)
proof (induction es rule: rev_induct)
  case Nil
  then show ?case using assms(1) by (simp add: run_updates_def no_average_def)
next
  case (snoc e es)
  obtain now l where e: "e = (now, l)" by force
  have "length es < unat (threshold_to_account t)" using snoc.prems by simp
  then have "(of_nat (length es) :: u64) < threshold_to_account t"
    by (rule word_of_nat_less_word)
  then show ?case
    using snoc by (simp add: run_updates_def latency_update_def Let_def e)
qed

end
