(* ===== verification/Replication.thy ===== *)
theory Replication
  imports Host "HOL-Library.Multiset"
begin

text \<open>
  \<open>replication_strategy.cpp\<close>: the replicas of every token of the ring. The ring is the
  \<open>TokenHostMap\<close>, a \<open>std::map\<close> from tokens (byte vectors, ordered lexicographically) to
  hosts; the result maps the same tokens to the hosts that keep the data of the range
  that ends at the token.
\<close>

type_synonym token = bytes
type_synonym token_host_map = "(token, host_ref) std_map"
type_synonym token_replica_map = "(token, host_vec) std_map"
type_synonym replica_counts = "(string, nat) std_map"

record keyspace_meta =
  strategy_class :: string
  strategy_options :: "(string \<times> string) list"

datatype strategy =
    NetworkTopology string replica_counts
  | Simple string nat
  | NonReplicated string

section \<open>The strategy of a keyspace\<close>

fun decimal :: "nat \<Rightarrow> string \<Rightarrow> nat" where
  "decimal v [] = v"
| "decimal v (c # s) = (if isdigit c then decimal (10 * v + digit_value c) s else v)"

text \<open>
  \<open>strtoul\<close> in base 10: space, a sign and digits; a value that does not fit is the greatest
  one, a negated value wraps.
\<close>

definition strtoul10 :: "string \<Rightarrow> nat" where
  "strtoul10 s =
     (let s = dropWhile isspace s;
          negative = (s \<noteq> [] \<and> hd s = CHR ''-'');
          s = (if s \<noteq> [] \<and> (hd s = CHR ''-'' \<or> hd s = CHR ''+'') then tl s else s);
          v = decimal 0 s
      in if v \<ge> 2 ^ 64 then 2 ^ 64 - 1
         else if negative then (2 ^ 64 - v) mod 2 ^ 64 else v)"

definition build_dc_replicas :: "(string \<times> string) list \<Rightarrow> replica_counts" where
  "build_dc_replicas options =
     foldl (\<lambda>output (key, val).
              if key \<noteq> ''class'' then
                (if strtoul10 val > 0 then map_assign key (strtoul10 val) output else output)
              else output) [] options"

definition get_replication_factor :: "(string \<times> string) list \<Rightarrow> nat" where
  "get_replication_factor options =
     (case map_of options ''replication_factor'' of Some val \<Rightarrow> strtoul10 val | None \<Rightarrow> 0)"

definition from_keyspace_meta :: "keyspace_meta \<Rightarrow> strategy" where
  "from_keyspace_meta ks_meta =
     (if ends_with (strategy_class ks_meta) ''NetworkTopologyStrategy'' then
        NetworkTopology (strategy_class ks_meta) (build_dc_replicas (strategy_options ks_meta))
      else if ends_with (strategy_class ks_meta) ''SimpleStrategy'' then
        Simple (strategy_class ks_meta) (get_replication_factor (strategy_options ks_meta))
      else NonReplicated (strategy_class ks_meta))"

definition strategy_equal :: "strategy \<Rightarrow> keyspace_meta \<Rightarrow> bool" where
  "strategy_equal s ks_meta =
     (case s of
        NetworkTopology cls rfs \<Rightarrow>
          strategy_class ks_meta = cls \<and> rfs = build_dc_replicas (strategy_options ks_meta)
      | Simple cls rf \<Rightarrow>
          strategy_class ks_meta = cls \<and> rf = get_replication_factor (strategy_options ks_meta)
      | NonReplicated cls \<Rightarrow> strategy_class ks_meta = cls)"

section \<open>Network topology strategy\<close>

text \<open>\<open>racks[dc].insert(rack)\<close> over the ring.\<close>

definition racks_in_dcs :: "host_store \<Rightarrow> token_host_map \<Rightarrow> (string, string list) std_map" where
  "racks_in_dcs hs token_hosts =
     foldl (\<lambda>racks (t, h).
              if dc (hs h) \<noteq> [] \<and> rack (hs h) \<noteq> [] then
                map_assign (dc (hs h)) (set_insert (rack (hs h)) (map_get [] racks (dc (hs h)))) racks
              else racks) [] token_hosts"

record nts_state =
  nts_counts :: replica_counts
  nts_racks :: "(string, string list) std_map"
  nts_skipped :: "(string, host_vec) std_map"
  nts_replicas :: host_vec

text \<open>The inner loop: skipped hosts are taken while the data center needs replicas.\<close>

fun take_skipped :: "nat \<Rightarrow> host_vec \<Rightarrow> nat \<Rightarrow> host_vec \<Rightarrow> host_vec \<times> nat \<times> host_vec" where
  "take_skipped rf [] cnt replicas = ([], cnt, replicas)"
| "take_skipped rf (h # skipped) cnt replicas =
     (if cnt < rf then take_skipped rf skipped (cnt + 1) (replicas @ [h])
      else (h # skipped, cnt, replicas))"

text \<open>
  One host of the walk around the ring. The lookups \<open>replica_counts[dc]\<close> and
  \<open>racks_observed[dc]\<close> create the entry they do not find.
\<close>

definition nts_step ::
  "host_store \<Rightarrow> replica_counts \<Rightarrow> (string, string list) std_map \<Rightarrow> host_ref \<Rightarrow> nts_state \<Rightarrow> nts_state" where
  "nts_step hs rfs racks host st =
     (let d = dc (hs host); r = rack (hs host) in
      case map_find rfs d of
        None \<Rightarrow> st
      | Some rf \<Rightarrow>
          if d = [] then st
          else
            let cnt = map_get 0 (nts_counts st) d;
                st = st\<lparr>nts_counts := map_assign d cnt (nts_counts st)\<rparr>
            in if cnt \<ge> rf then st
               else
                 let rack_count = length (map_get [] racks d);
                     observed = map_get [] (nts_racks st) d;
                     st = st\<lparr>nts_racks := map_assign d observed (nts_racks st)\<rparr>;
                     push = (\<lambda>st. st\<lparr>nts_counts := map_assign d (cnt + 1) (nts_counts st),
                                       nts_replicas := nts_replicas st @ [host]\<rparr>)
                 in if r = [] \<or> length observed = rack_count then push st
                    else if r \<in> set observed then
                      st\<lparr>nts_skipped := map_assign d (map_get [] (nts_skipped st) d @ [host]) (nts_skipped st)\<rparr>
                    else
                      let st = push st;
                          observed = set_insert r observed;
                          st = st\<lparr>nts_racks := map_assign d observed (nts_racks st)\<rparr>
                      in if length observed = rack_count then
                           (case take_skipped rf (map_get [] (nts_skipped st) d) (cnt + 1) (nts_replicas st) of
                              (skipped, cnt, replicas) \<Rightarrow>
                                st\<lparr>nts_skipped := map_assign d skipped (nts_skipped st),
                                   nts_counts := map_assign d cnt (nts_counts st),
                                   nts_replicas := replicas\<rparr>)
                         else st)"

text \<open>The walk from the position \<open>j\<close>, at most once around the ring.\<close>

fun nts_walk ::
  "host_store \<Rightarrow> replica_counts \<Rightarrow> (string, string list) std_map \<Rightarrow> host_vec \<Rightarrow> nat \<Rightarrow> nat \<Rightarrow> nts_state \<Rightarrow> nts_state" where
  "nts_walk hs rfs racks ring 0 j st = st"
| "nts_walk hs rfs racks ring (Suc n) j st =
     (if nts_counts st = rfs then st
      else nts_walk hs rfs racks ring n (if j + 1 = length ring then 0 else j + 1)
             (nts_step hs rfs racks (ring ! j) st))"

definition nts_empty :: nts_state where
  "nts_empty = \<lparr>nts_counts = [], nts_racks = [], nts_skipped = [], nts_replicas = []\<rparr>"

definition nts_replicas_at :: "host_store \<Rightarrow> replica_counts \<Rightarrow> token_host_map \<Rightarrow> nat \<Rightarrow> host_vec" where
  "nts_replicas_at hs rfs primary i =
     nts_replicas (nts_walk hs rfs (racks_in_dcs hs primary) (map snd primary) (length primary) i nts_empty)"

definition nts_tokens_to_replicas :: "host_store \<Rightarrow> replica_counts \<Rightarrow> token_host_map \<Rightarrow> token_replica_map" where
  "nts_tokens_to_replicas hs rfs primary =
     map (\<lambda>i. (fst (primary ! i), nts_replicas_at hs rfs primary i)) [0..<length primary]"

section \<open>Simple strategy\<close>

text \<open>The loop tests behind the body, so that one replica is always taken.\<close>

function simple_walk :: "host_vec \<Rightarrow> nat \<Rightarrow> nat \<Rightarrow> host_vec \<Rightarrow> host_vec" where
  "simple_walk ring target j replicas =
     (let replicas = replicas @ [ring ! j];
          j = (if j + 1 = length ring then 0 else j + 1)
      in if length replicas < target then simple_walk ring target j replicas else replicas)"
  by pat_completeness auto
termination by (relation "measure (\<lambda>(ring, target, j, replicas). target - length replicas)") auto

declare simple_walk.simps [simp del]

definition simple_tokens_to_replicas :: "nat \<Rightarrow> token_host_map \<Rightarrow> token_replica_map" where
  "simple_tokens_to_replicas rf primary =
     (let target = min rf (length primary) in
      map (\<lambda>i. (fst (primary ! i), simple_walk (map snd primary) target i [])) [0..<length primary])"

definition nonreplicated_tokens_to_replicas :: "token_host_map \<Rightarrow> token_replica_map" where
  "nonreplicated_tokens_to_replicas primary = map (\<lambda>(t, h). (t, [h])) primary"

definition tokens_to_replicas :: "host_store \<Rightarrow> strategy \<Rightarrow> token_host_map \<Rightarrow> token_replica_map" where
  "tokens_to_replicas hs s primary =
     (case s of
        NetworkTopology _ rfs \<Rightarrow> nts_tokens_to_replicas hs rfs primary
      | Simple _ rf \<Rightarrow> simple_tokens_to_replicas rf primary
      | NonReplicated _ \<Rightarrow> nonreplicated_tokens_to_replicas primary)"

section \<open>Walking around the ring\<close>

lemma take_rotate_Suc:
  assumes "j < length ring" and "k < length ring"
  shows "take (Suc k) (rotate j ring) =
         ring ! j # take k (rotate (if j + 1 = length ring then 0 else j + 1) ring)"
proof (rule nth_equalityI)
  show "length (take (Suc k) (rotate j ring)) =
      length (ring ! j # take k (rotate (if j + 1 = length ring then 0 else j + 1) ring))"
    using assms by simp
next
  fix i assume "i < length (take (Suc k) (rotate j ring))"
  with assms have i: "i < Suc k" "i < length ring" by auto
  show "take (Suc k) (rotate j ring) ! i =
      (ring ! j # take k (rotate (if j + 1 = length ring then 0 else j + 1) ring)) ! i"
  proof (cases i)
    case 0
    moreover have "0 < length ring" using i by (cases ring) auto
    ultimately show ?thesis using assms nth_rotate [of 0 ring j] by simp
  next
    case (Suc m)
    with i have "m < k" "m < length ring" by auto
    have l: "take (Suc k) (rotate j ring) ! i = ring ! ((j + Suc m) mod length ring)"
      using i Suc nth_rotate [of i ring j] by simp
    show ?thesis
    proof (cases "j + 1 = length ring")
      case True
      then have "j + Suc m = length ring + m" by simp
      with \<open>m < length ring\<close> have "(j + Suc m) mod length ring = m"
        by (metis mod_add_self1 mod_less)
      with True l Suc \<open>m < k\<close> show ?thesis by simp
    next
      case False
      then show ?thesis
        using l Suc \<open>m < k\<close> nth_rotate [OF \<open>m < length ring\<close>, of "j + 1"]
        by (simp del: rotate_Suc)
    qed
  qed
qed

lemma simple_walk_rotate:
  "j < length ring \<Longrightarrow> max 1 (target - length acc) \<le> length ring \<Longrightarrow>
   simple_walk ring target j acc = acc @ take (max 1 (target - length acc)) (rotate j ring)"
proof (induction ring target j acc rule: simple_walk.induct)
  case (1 ring target j acc)
  define j' where "j' = (if j + 1 = length ring then 0 else j + 1)"
  define k where "k = max 1 (target - length acc) - 1"
  have k: "max 1 (target - length acc) = Suc k" by (simp add: k_def)
  have j': "j' < length ring" using "1.prems" by (auto simp: j'_def)
  have t: "take (Suc k) (rotate j ring) = ring ! j # take k (rotate j' ring)"
    unfolding j'_def using "1.prems" k by (intro take_rotate_Suc) auto
  show ?case
  proof (cases "length (acc @ [ring ! j]) < target")
    case True
    then have "max 1 (target - length (acc @ [ring ! j])) = k" by (simp add: k_def)
    moreover have "max 1 k = k" using True by (simp add: k_def)
    moreover have "simple_walk ring target j acc = simple_walk ring target j' (acc @ [ring ! j])"
      using True by (subst simple_walk.simps) (simp add: Let_def j'_def)
    ultimately show ?thesis
      using "1.IH" [OF refl j'_def True] j' "1.prems" k t by simp
  next
    case False
    then have "k = 0" by (auto simp: k_def)
    with False show ?thesis
      using t by (subst simple_walk.simps) (simp add: Let_def k)
  qed
qed

text \<open>
  Under the simple strategy the replicas of a token are the hosts of the next
  \<open>min rf n\<close> ring entries from the token on, going around the ring, and at least the
  primary.
\<close>

theorem simple_strategy_replicas:
  assumes "i < length primary"
  shows "simple_tokens_to_replicas rf primary ! i =
         (fst (primary ! i), take (max 1 (min rf (length primary))) (rotate i (map snd primary)))"
  using assms simple_walk_rotate [of i "map snd primary" "min rf (length primary)" "[]"]
  by (simp add: simple_tokens_to_replicas_def Let_def)

theorem simple_strategy_replicas_witness:
  "simple_tokens_to_replicas 2 [([1], 7), ([2], 8), ([3], 9)] ! 2 = ([3], [9, 7])"
  using simple_strategy_replicas [of 2 "[([1], 7), ([2], 8), ([3], 9)]" 2]
  by (simp add: eval_nat_numeral)

text \<open>
  The walk does not look at which host a ring entry belongs to: where two neighbouring
  tokens are owned by one host, as with virtual nodes, a replication factor of two or more
  lists this host twice instead of two different hosts.
\<close>

theorem simple_strategy_repeats_host:
  assumes "i + 1 < length primary" and "snd (primary ! i) = snd (primary ! (i + 1))" and "2 \<le> rf"
  shows "\<not> distinct (snd (simple_tokens_to_replicas rf primary ! i))"
proof -
  define ring where "ring = map snd primary"
  define k where "k = max 1 (min rf (length primary))"
  have k: "2 \<le> k" "k \<le> length ring" using assms by (auto simp: k_def ring_def)
  moreover have "primary \<noteq> []" using assms by auto
  ultimately have "take k (rotate i ring) ! 0 = take k (rotate i ring) ! 1"
    using assms nth_rotate [of 0 ring i] nth_rotate [of 1 ring i] by (auto simp: ring_def)
  moreover have "length (take k (rotate i ring)) = k" using k by simp
  ultimately have "\<not> distinct (take k (rotate i ring))"
    using k nth_eq_iff_index_eq [of "take k (rotate i ring)" 0 1] by auto
  then show ?thesis
    using simple_walk_rotate [of i ring "min rf (length primary)" "[]"] assms k
    by (simp add: simple_tokens_to_replicas_def Let_def ring_def k_def)
qed

theorem simple_strategy_repeats_host_witness:
  "\<not> distinct (snd (simple_tokens_to_replicas 2 [([1], 7), ([2], 7), ([3], 8)] ! 0))"
  by (rule simple_strategy_repeats_host) simp_all

section \<open>The network topology strategy, one data center at a time\<close>

type_synonym dc_view = "nat \<times> string list \<times> host_vec"

definition view_of :: "nts_state \<Rightarrow> string \<Rightarrow> dc_view" where
  "view_of st d =
     (map_get 0 (nts_counts st) d, map_get [] (nts_racks st) d, map_get [] (nts_skipped st) d)"

text \<open>What a host does to the view of its data center, and the replicas it adds.\<close>

fun dc_step :: "nat \<Rightarrow> nat \<Rightarrow> string \<Rightarrow> host_ref \<Rightarrow> dc_view \<Rightarrow> dc_view \<times> host_vec" where
  "dc_step rf rc r h (c, obs, sk) =
     (if c \<ge> rf then ((c, obs, sk), [])
      else if r = [] \<or> length obs = rc then ((c + 1, obs, sk), [h])
      else if r \<in> set obs then ((c, obs, sk @ [h]), [])
      else if length (set_insert r obs) = rc then
        ((c + 1 + min (rf - (c + 1)) (length sk), set_insert r obs, drop (min (rf - (c + 1)) (length sk)) sk),
         h # take (min (rf - (c + 1)) (length sk)) sk)
      else ((c + 1, set_insert r obs, sk), [h]))"

definition nts_maps_ok :: "nts_state \<Rightarrow> bool" where
  "nts_maps_ok st \<longleftrightarrow> map_inv (nts_counts st) \<and> map_inv (nts_racks st) \<and> map_inv (nts_skipped st)"

lemma take_skipped_eq:
  "take_skipped rf sk c reps =
     (drop (min (rf - c) (length sk)) sk, c + min (rf - c) (length sk), reps @ take (min (rf - c) (length sk)) sk)"
proof (induction rf sk c reps rule: take_skipped.induct)
  case (2 rf h sk c reps)
  show ?case
  proof (cases "c < rf")
    case True
    then have "min (rf - c) (Suc (length sk)) = Suc (min (rf - (c + 1)) (length sk))" by auto
    with True 2 show ?thesis by simp
  qed simp
qed simp

lemma nts_step_view:
  assumes "nts_maps_ok st" and "map_find rfs (dc (hs h)) = Some rf" and "dc (hs h) \<noteq> []"
    and res: "res = dc_step rf (length (map_get [] racks (dc (hs h)))) (rack (hs h)) h (view_of st (dc (hs h)))"
  shows "nts_maps_ok (nts_step hs rfs racks h st)"
    and "view_of (nts_step hs rfs racks h st) d = (if d = dc (hs h) then fst res else view_of st d)"
    and "nts_replicas (nts_step hs rfs racks h st) = nts_replicas st @ snd res"
  using assms(1-3)
  by (simp_all add: res nts_step_def Let_def nts_maps_ok_def view_of_def take_skipped_eq
      map_inv_assign map_get_assign)

lemma nts_step_other:
  "map_find rfs (dc (hs h)) = None \<or> dc (hs h) = [] \<Longrightarrow> nts_step hs rfs racks h st = st"
  by (auto simp: nts_step_def Let_def split: option.split)


section \<open>What every data center gets\<close>

text \<open>
  The view of a data center after the hosts \<open>vs\<close> of it: the count never exceeds the
  factor; while it is below, every host counted or skipped, the observed racks are those
  of the hosts, and nobody is left skipped once all racks are observed.
\<close>

definition view_ok :: "host_store \<Rightarrow> nat \<Rightarrow> nat \<Rightarrow> host_vec \<Rightarrow> dc_view \<Rightarrow> bool" where
  "view_ok hs rf rc vs v =
     (case v of (c, obs, sk) \<Rightarrow>
        c \<le> rf \<and> c + length sk \<le> length vs \<and> set sk \<subseteq> set vs \<and>
        (c < rf \<longrightarrow> c + length sk = length vs \<and> sorted_wrt (<) obs \<and>
           set obs = {rack (hs h) | h. h \<in> set vs \<and> rack (hs h) \<noteq> []} \<and>
           (length obs = rc \<longrightarrow> sk = [])))"

text \<open>A list of racks as long as that of the data center knows the rack of the host.\<close>

definition rack_known :: "host_store \<Rightarrow> nat \<Rightarrow> host_vec \<Rightarrow> host_ref \<Rightarrow> bool" where
  "rack_known hs rc vs h \<longleftrightarrow>
     (\<forall>obs. sorted_wrt (<) obs \<longrightarrow> set obs = {rack (hs x) | x. x \<in> set vs \<and> rack (hs x) \<noteq> []} \<longrightarrow>
        length obs = rc \<longrightarrow> rack (hs h) \<noteq> [] \<longrightarrow> rack (hs h) \<in> set obs)"

lemma view_ok_step:
  assumes "view_ok hs rf rc vs v" and "rack_known hs rc vs h"
  shows "view_ok hs rf rc (vs @ [h]) (fst (dc_step rf rc (rack (hs h)) h v))"
    and "set (snd (dc_step rf rc (rack (hs h)) h v)) \<subseteq> set (vs @ [h])"
    and "fst (fst (dc_step rf rc (rack (hs h)) h v)) = fst v + length (snd (dc_step rf rc (rack (hs h)) h v))"
proof -
  obtain c obs sk where v: "v = (c, obs, sk)" by (cases v)
  have subs: "set (take k sk) \<subseteq> set sk" "set (drop k sk) \<subseteq> set sk" for k
    by (auto dest: in_set_takeD in_set_dropD)
  have ok: "c \<le> rf" "c + length sk \<le> length vs" "set sk \<subseteq> set vs"
    "c < rf \<Longrightarrow> c + length sk = length vs" "c < rf \<Longrightarrow> sorted_wrt (<) obs"
    "c < rf \<Longrightarrow> set obs = {rack (hs h) | h. h \<in> set vs \<and> rack (hs h) \<noteq> []}"
    "c < rf \<Longrightarrow> length obs = rc \<Longrightarrow> sk = []"
    using assms(1) by (auto simp: view_ok_def v)
  have new: "{rack (hs x) | x. x \<in> set (vs @ [h]) \<and> rack (hs x) \<noteq> []} =
      {rack (hs x) | x. x \<in> set vs \<and> rack (hs x) \<noteq> []} \<union> (if rack (hs h) = [] then {} else {rack (hs h)})"
    by auto
  show "view_ok hs rf rc (vs @ [h]) (fst (dc_step rf rc (rack (hs h)) h v))"
  proof (cases "c < rf")
    case False
    then show ?thesis using ok by (auto simp: view_ok_def v)
  next
    case True
    have obs_in: "length obs = rc \<Longrightarrow> rack (hs h) \<noteq> [] \<Longrightarrow> rack (hs h) \<in> set obs"
      using assms(2) ok(5,6) True unfolding rack_known_def by blast
    show ?thesis
      using True ok obs_in subs(2)
      by (auto simp: view_ok_def v new sorted_set_insert insert_absorb min_def dest: in_set_dropD)
  qed
  show "set (snd (dc_step rf rc (rack (hs h)) h v)) \<subseteq> set (vs @ [h])"
    using ok(3) by (auto simp: v dest!: in_set_takeD)
  show "fst (fst (dc_step rf rc (rack (hs h)) h v)) = fst v + length (snd (dc_step rf rc (rack (hs h)) h v))"
    by (simp add: v)
qed


fun nts_run ::
  "host_store \<Rightarrow> replica_counts \<Rightarrow> (string, string list) std_map \<Rightarrow> host_vec \<Rightarrow> nts_state \<Rightarrow> nts_state" where
  "nts_run hs rfs racks [] st = st"
| "nts_run hs rfs racks (h # ring) st =
     (if nts_counts st = rfs then st else nts_run hs rfs racks ring (nts_step hs rfs racks h st))"

lemma nts_walk_run:
  "j < length ring \<Longrightarrow> n \<le> length ring \<Longrightarrow>
   nts_walk hs rfs racks ring n j st = nts_run hs rfs racks (take n (rotate j ring)) st"
proof (induction n arbitrary: j st)
  case (Suc n)
  then have "take (Suc n) (rotate j ring) =
      ring ! j # take n (rotate (if j + 1 = length ring then 0 else j + 1) ring)"
    by (intro take_rotate_Suc) simp_all
  moreover have "(if j + 1 = length ring then 0 else j + 1) < length ring" using Suc.prems by auto
  ultimately show ?case using Suc by (simp del: take_Suc)
qed simp

definition in_dc :: "host_store \<Rightarrow> string \<Rightarrow> host_vec \<Rightarrow> host_vec" where
  "in_dc hs d vs = filter (\<lambda>h. dc (hs h) = d) vs"

text \<open>The state after the hosts \<open>vs\<close>.\<close>

definition nts_ok :: "host_store \<Rightarrow> replica_counts \<Rightarrow> (string, string list) std_map \<Rightarrow> host_vec \<Rightarrow> nts_state \<Rightarrow> bool" where
  "nts_ok hs rfs racks vs st \<longleftrightarrow>
     nts_maps_ok st \<and>
     (\<forall>d rf. map_find rfs d = Some rf \<longrightarrow> d \<noteq> [] \<longrightarrow>
        view_ok hs rf (length (map_get [] racks d)) (in_dc hs d vs) (view_of st d) \<and>
        length (in_dc hs d (nts_replicas st)) = fst (view_of st d)) \<and>
     (\<forall>h \<in> set (nts_replicas st). h \<in> set vs \<and> dc (hs h) \<noteq> [] \<and> map_find rfs (dc (hs h)) \<noteq> None)"

lemma dc_step_dc:
  assumes "view_ok hs rf rc vs v" and "\<forall>x \<in> set vs. dc (hs x) = dc (hs h)"
  shows "\<forall>x \<in> set (snd (dc_step rf rc r h v)). dc (hs x) = dc (hs h) \<and> (x = h \<or> x \<in> set vs)"
  using assms by (cases v) (auto simp: view_ok_def dest!: in_set_takeD)

lemma nts_ok_step:
  assumes ok: "nts_ok hs rfs racks vs st"
    and racks: "dc (hs h) \<noteq> [] \<Longrightarrow>
       rack_known hs (length (map_get [] racks (dc (hs h)))) (in_dc hs (dc (hs h)) vs) h"
  shows "nts_ok hs rfs racks (vs @ [h]) (nts_step hs rfs racks h st)"
proof (cases "dc (hs h) = [] \<or> map_find rfs (dc (hs h)) = None")
  case True
  then have "nts_step hs rfs racks h st = st" by (auto intro: nts_step_other)
  moreover have "in_dc hs d (vs @ [h]) = in_dc hs d vs" if "map_find rfs d \<noteq> None" "d \<noteq> []" for d
    using True that by (auto simp: in_dc_def)
  ultimately show ?thesis using ok by (auto simp: nts_ok_def)
next
  case False
  then obtain rf where rf: "map_find rfs (dc (hs h)) = Some rf" and ne: "dc (hs h) \<noteq> []" by auto
  define rc where "rc = length (map_get [] racks (dc (hs h)))"
  define v where "v = view_of st (dc (hs h))"
  define res where "res = dc_step rf rc (rack (hs h)) h v"
  have maps: "nts_maps_ok st" using ok by (simp add: nts_ok_def)
  note step = nts_step_view [where hs = hs and h = h and st = st and rfs = rfs and racks = racks and res = res,
      OF maps rf ne res_def [unfolded rc_def v_def]]
  have vok: "view_ok hs rf rc (in_dc hs (dc (hs h)) vs) v"
    and cnt: "length (in_dc hs (dc (hs h)) (nts_replicas st)) = fst v"
    using ok rf ne by (simp_all add: nts_ok_def rc_def v_def)
  have r: "rack_known hs rc (in_dc hs (dc (hs h)) vs) h"
    using racks [OF ne] by (simp only: rc_def)
  note new = view_ok_step [OF vok r, folded res_def]
  have indc: "\<forall>x \<in> set (snd res). dc (hs x) = dc (hs h) \<and> (x = h \<or> x \<in> set (in_dc hs (dc (hs h)) vs))"
    unfolding res_def using vok by (rule dc_step_dc) (simp add: in_dc_def)
  then have f: "in_dc hs d (snd res) = (if d = dc (hs h) then snd res else [])" for d
    by (auto simp: in_dc_def filter_id_conv filter_empty_conv)
  have vs: "in_dc hs d (vs @ [h]) = (if d = dc (hs h) then in_dc hs d vs @ [h] else in_dc hs d vs)" for d
    by (simp add: in_dc_def)
  have app: "in_dc hs d (xs @ ys) = in_dc hs d xs @ in_dc hs d ys" for d xs ys
    by (simp add: in_dc_def)
  show ?thesis
    unfolding nts_ok_def
  proof (intro conjI allI impI ballI)
    show "nts_maps_ok (nts_step hs rfs racks h st)" by (rule step(1))
  next
    fix d rf' assume d: "map_find rfs d = Some rf'" "d \<noteq> []"
    from ok d have old: "view_ok hs rf' (length (map_get [] racks d)) (in_dc hs d vs) (view_of st d)"
      "length (in_dc hs d (nts_replicas st)) = fst (view_of st d)"
      unfolding nts_ok_def by blast+
    have same: "d = dc (hs h) \<Longrightarrow> rf' = rf" using d rf by simp
    show "view_ok hs rf' (length (map_get [] racks d)) (in_dc hs d (vs @ [h]))
            (view_of (nts_step hs rfs racks h st) d)"
      using old(1) new(1) same by (cases "d = dc (hs h)") (simp_all add: step(2) vs rc_def)
    show "length (in_dc hs d (nts_replicas (nts_step hs rfs racks h st))) =
            fst (view_of (nts_step hs rfs racks h st) d)"
    proof (cases "d = dc (hs h)")
      case True
      show ?thesis
        unfolding step(2,3) app f length_append old(2) if_P [OF True]
        using new(3) by (simp only: True v_def)
    next
      case False
      show ?thesis
        unfolding step(2,3) app f if_not_P [OF False] append_Nil2 by (rule old(2))
    qed
  next
    fix x assume "x \<in> set (nts_replicas (nts_step hs rfs racks h st))"
    then have x: "x \<in> set (nts_replicas st) \<or> x \<in> set (snd res)" by (auto simp: step(3))
    then show "x \<in> set (vs @ [h])"
      using ok indc by (auto simp: nts_ok_def in_dc_def)
    show "dc (hs x) \<noteq> []" and "map_find rfs (dc (hs x)) \<noteq> None"
      using x ok indc rf ne by (auto simp: nts_ok_def)
  qed
qed


lemma mset_rotate: "mset (rotate n xs) = mset xs"
proof -
  have "mset (rotate1 ys) = mset ys" for ys :: "'a list" by (cases ys) simp_all
  then show ?thesis by (induction n) simp_all
qed

lemma nts_ok_empty: "nts_ok hs rfs racks [] nts_empty"
  by (auto simp: nts_ok_def nts_empty_def nts_maps_ok_def view_of_def view_ok_def in_dc_def
      map_inv_def map_get_def map_find_def)

text \<open>The racks of a ring, which the step compares with the observed ones.\<close>

definition racks_ok :: "host_store \<Rightarrow> host_vec \<Rightarrow> (string, string list) std_map \<Rightarrow> bool" where
  "racks_ok hs ring racks \<longleftrightarrow> map_inv racks \<and>
     (\<forall>d. d \<noteq> [] \<longrightarrow> sorted_wrt (<) (map_get [] racks d) \<and>
        set (map_get [] racks d) = {rack (hs h) | h. h \<in> set (in_dc hs d ring) \<and> rack (hs h) \<noteq> []})"

lemma racks_ok_ring: "racks_ok hs (map snd primary) (racks_in_dcs hs primary)"
proof (induction primary rule: rev_induct)
  case Nil
  then show ?case by (simp add: racks_ok_def racks_in_dcs_def map_inv_def map_get_def map_find_def in_dc_def)
next
  case (snoc e primary)
  obtain t h where e: "e = (t, h)" by force
  have new: "{rack (hs x) | x. x \<in> set (in_dc hs d (map snd primary @ [h])) \<and> rack (hs x) \<noteq> []} =
      {rack (hs x) | x. x \<in> set (in_dc hs d (map snd primary)) \<and> rack (hs x) \<noteq> []} \<union>
      (if dc (hs h) = d \<and> rack (hs h) \<noteq> [] then {rack (hs h)} else {})" for d
    by (auto simp: in_dc_def)
  show ?case
    using snoc
    by (auto simp: racks_ok_def racks_in_dcs_def e new map_inv_assign map_get_assign sorted_set_insert)
qed

lemma racks_complete:
  assumes racks: "racks_ok hs ring racks" and sub: "set (vs @ [h]) \<subseteq> set ring"
    and ne: "dc (hs h) \<noteq> []"
  shows "rack_known hs (length (map_get [] racks (dc (hs h)))) (in_dc hs (dc (hs h)) vs) h"
  unfolding rack_known_def
proof (intro allI impI)
  fix obs
  assume obs: "sorted_wrt (<) obs"
      "set obs = {rack (hs x) | x. x \<in> set (in_dc hs (dc (hs h)) vs) \<and> rack (hs x) \<noteq> []}"
      "length obs = length (map_get [] racks (dc (hs h)))"
    and r: "rack (hs h) \<noteq> []"
  define R where "R = map_get [] racks (dc (hs h))"
  have R: "sorted_wrt (<) R" "set R = {rack (hs x) | x. x \<in> set (in_dc hs (dc (hs h)) ring) \<and> rack (hs x) \<noteq> []}"
    using racks ne by (auto simp: racks_ok_def R_def)
  have "set obs \<subseteq> set R" using sub by (auto simp: obs(2) R(2) in_dc_def)
  moreover have "card (set obs) = card (set R)"
    using obs(1,3) R(1) by (metis R_def distinct_card strict_sorted_iff)
  ultimately have "set obs = set R" by (simp add: card_subset_eq)
  then show "rack (hs h) \<in> set obs" using sub ne r by (auto simp: R(2) in_dc_def)
qed

lemma nts_run_ok:
  assumes "racks_ok hs ring racks" and "set (vs @ hosts) \<subseteq> set ring"
    and "nts_ok hs rfs racks vs st"
  shows "\<exists>ws zs. hosts = ws @ zs \<and> nts_ok hs rfs racks (vs @ ws) (nts_run hs rfs racks hosts st) \<and>
           (zs \<noteq> [] \<longrightarrow> nts_counts (nts_run hs rfs racks hosts st) = rfs)"
  using assms(2,3)
proof (induction hosts arbitrary: vs st)
  case Nil
  then show ?case by simp
next
  case (Cons h hosts)
  show ?case
  proof (cases "nts_counts st = rfs")
    case True
    then show ?thesis using Cons.prems by (intro exI [of _ "[]"] exI [of _ "h # hosts"]) simp
  next
    case False
    have "nts_ok hs rfs racks (vs @ [h]) (nts_step hs rfs racks h st)"
      using Cons.prems racks_complete [OF assms(1), of vs h] by (intro nts_ok_step) auto
    from Cons.IH [OF _ this] Cons.prems
    obtain ws zs where "hosts = ws @ zs"
      "nts_ok hs rfs racks ((vs @ [h]) @ ws) (nts_run hs rfs racks hosts (nts_step hs rfs racks h st))"
      "zs \<noteq> [] \<longrightarrow> nts_counts (nts_run hs rfs racks hosts (nts_step hs rfs racks h st)) = rfs"
      by auto
    then show ?thesis using False by (intro exI [of _ "h # ws"] exI [of _ zs]) simp
  qed
qed

text \<open>
  C32: Under the network topology strategy every data center with a replication factor gets
  exactly as many replicas of a token as the factor asks for, or as the ring has entries of
  the data center where these are fewer, and no other data center gets any.
\<close>

theorem nts_replica_counts:
  assumes "i < length primary" and "map_find rfs d = Some rf" and "d \<noteq> []"
  shows "length (in_dc hs d (nts_replicas_at hs rfs primary i)) =
           min rf (length (in_dc hs d (map snd primary))) \<and>
         (\<forall>h \<in> set (nts_replicas_at hs rfs primary i). map_find rfs (dc (hs h)) \<noteq> None)"
proof -
  define ring where "ring = map snd primary"
  define racks where "racks = racks_in_dcs hs primary"
  define st where "st = nts_run hs rfs racks (rotate i ring) nts_empty"
  have racks: "racks_ok hs ring racks" unfolding ring_def racks_def by (rule racks_ok_ring)
  have run: "nts_replicas_at hs rfs primary i = nts_replicas st"
    using assms(1) nts_walk_run [of i ring "length ring" hs rfs racks nts_empty]
    by (simp add: nts_replicas_at_def st_def racks_def ring_def)
  have "set ([] @ rotate i ring) \<subseteq> set ring" by simp
  from nts_run_ok [OF racks this nts_ok_empty, of rfs] obtain ws zs where
    w: "rotate i ring = ws @ zs" and ok: "nts_ok hs rfs racks ws st" and z: "zs \<noteq> [] \<longrightarrow> nts_counts st = rfs"
    unfolding st_def append_Nil by blast
  have dcs: "\<forall>h \<in> set (nts_replicas_at hs rfs primary i). map_find rfs (dc (hs h)) \<noteq> None"
    using ok by (simp add: run nts_ok_def)
  obtain c obs sk where v: "view_of st d = (c, obs, sk)" by (cases "view_of st d")
  have "view_ok hs rf (length (map_get [] racks d)) (in_dc hs d ws) (view_of st d) \<and>
      length (in_dc hs d (nts_replicas st)) = fst (view_of st d)"
    using ok assms(2,3) unfolding nts_ok_def by blast
  then have vok: "view_ok hs rf (length (map_get [] racks d)) (in_dc hs d ws) (c, obs, sk)"
    and cnt: "length (in_dc hs d (nts_replicas st)) = c"
    by (simp_all add: v)
  have perm: "mset (rotate i ring) = mset ring" by (simp add: mset_rotate)
  then have all: "length (in_dc hs d (ws @ zs)) = length (in_dc hs d ring)"
    unfolding in_dc_def w [symmetric] by (metis mset_filter size_mset)
  then have le: "length (in_dc hs d ws) \<le> length (in_dc hs d ring)" by (simp add: in_dc_def)
  have "c = min rf (length (in_dc hs d ring))"
  proof (cases "c < rf")
    case False
    then show ?thesis using vok le by (auto simp: view_ok_def)
  next
    case True
    have "zs = []"
    proof (rule ccontr)
      assume "zs \<noteq> []"
      then have "c = rf" using z v assms(2) by (simp add: view_of_def map_get_def)
      then show False using True by simp
    qed
    then have ws: "set ws = set ring" using w by (metis append_Nil2 set_rotate)
    have o: "sorted_wrt (<) obs" "set obs = {rack (hs h) | h. h \<in> set (in_dc hs d ws) \<and> rack (hs h) \<noteq> []}"
      "length obs = length (map_get [] racks d) \<longrightarrow> sk = []" "c + length sk = length (in_dc hs d ws)"
      using vok True by (auto simp: view_ok_def)
    have "set obs = set (map_get [] racks d)" "sorted_wrt (<) (map_get [] racks d)"
      using racks assms(3) o(2) ws by (auto simp: racks_ok_def in_dc_def)
    then have "length obs = length (map_get [] racks d)"
      using o(1) by (metis distinct_card strict_sorted_iff)
    then show ?thesis using o True all \<open>zs = []\<close> by simp
  qed
  then show ?thesis using dcs by (simp add: run cnt ring_def)
qed

definition demo_hosts :: host_store where
  "demo_hosts n = (new_host (Inet (of_nat n) 9042) False)
     \<lparr>rack := (if n < 2 then ''r1'' else ''r2''), dc := ''dc1'', hstate := UP\<rparr>"

theorem nts_replica_counts_witness:
  "length (in_dc demo_hosts ''dc1''
      (nts_replicas_at demo_hosts [(''dc1'', 2)] [([1], 0), ([2], 1), ([3], 2)] 0)) = 2"
  using nts_replica_counts [of 0 "[([1], 0), ([2], 1), ([3], 2)]" "[(''dc1'', 2)]" "''dc1''" 2 demo_hosts]
  by (simp add: map_find_def in_dc_def demo_hosts_def new_host_def)

end
