(* ===== verification/Token_Map.thy ===== *)
theory Token_Map
  imports Serialization Murmur3 Md5 Replication
begin

text \<open>
  \<open>token_map.cpp\<close>: the partitioners, which turn token strings and routing keys into
  tokens, and the token map, which keeps the ring and, for every keyspace, the replicas
  of its tokens.
\<close>

section \<open>Parsing tokens\<close>

text \<open>The digits at the front, with the wrap-around of the 64 bit type.\<close>

fun parse_digits :: "u64 \<Rightarrow> string \<Rightarrow> u64" where
  "parse_digits value [] = value"
| "parse_digits value (c # s) =
     (if isdigit c then parse_digits (value * 10 + of_nat (digit_value c)) s else value)"

definition parse_int64 :: "string \<Rightarrow> u64" where
  "parse_int64 p =
     (let s = dropWhile isspace p in
      if s = [] then 0
      else let negative = (hd s = CHR ''-'');
               s = (if negative then tl s else s);
               value = parse_digits 0 s
           in if negative then - 1 * value else 1 * value)"

text \<open>One digit of \<open>parse_int128\<close>: the pair of halves times ten plus the digit.\<close>

definition int128_digit :: "nat \<Rightarrow> u64 \<times> u64 \<Rightarrow> u64 \<times> u64" where
  "int128_digit d v =
     (let hi_tmp = fst v; lo_tmp = snd v;
          lo = push_bit 1 lo_tmp;
          hi = drop_bit 63 lo_tmp + push_bit 1 hi_tmp;
          lo_tmp2 = lo;
          lo = lo + push_bit 3 lo_tmp;
          hi = hi + (drop_bit 61 lo_tmp + push_bit 3 hi_tmp + (if lo < lo_tmp2 then 1 else 0));
          lo_tmp = lo;
          lo = lo + of_nat d;
          hi = hi + (if lo < lo_tmp then 1 else 0)
      in (hi, lo))"

fun int128_digits :: "u64 \<times> u64 \<Rightarrow> string \<Rightarrow> u64 \<times> u64" where
  "int128_digits v [] = v"
| "int128_digits v (c # s) =
     (if isdigit c then int128_digits (int128_digit (digit_value c) v) s else v)"

definition parse_int128 :: "string \<Rightarrow> bytes" where
  "parse_int128 p =
     (let s = dropWhile isspace p in
      if s = [] then replicate 16 0
      else case int128_digits (0, 0) s of (hi, lo) \<Rightarrow> encode_uint64 hi @ encode_uint64 lo)"

section \<open>Partitioners\<close>

datatype partitioner = Murmur3Partitioner | RandomPartitioner | ByteOrderedPartitioner

text \<open>\<open>CASS_UINT64_MAX / 2\<close> is added to move the signed range to the unsigned one.\<close>

definition murmur_token :: "u64 \<Rightarrow> token" where
  "murmur_token token_value = encode_uint64 (token_value + 0x7fffffffffffffff)"

definition murmur_token_from_string :: "string \<Rightarrow> token" where
  "murmur_token_from_string s = murmur_token (parse_int64 s)"

definition murmur_hash :: "bytes \<Rightarrow> token" where
  "murmur_hash data =
     (let token_value = MurmurHash3_x64_128 data 0;
          token_value = (if token_value = 0x8000000000000000 then 0x7fffffffffffffff else token_value)
      in murmur_token token_value)"

text \<open>
  The buffer of the \<open>Md5\<close> object is not initialised; its contents do not matter, as the
  theory \<open>Md5\<close> shows.
\<close>

definition random_hash :: "bytes \<Rightarrow> token" where
  "random_hash data = md5_final (md5_update data (md5_init (replicate 64 0)))"

definition byte_token_from_string :: "string \<Rightarrow> token" where
  "byte_token_from_string s = map of_char s"

definition token_from_string_ref :: "partitioner \<Rightarrow> string \<Rightarrow> token" where
  "token_from_string_ref p s =
     (case p of Murmur3Partitioner \<Rightarrow> murmur_token_from_string s
      | RandomPartitioner \<Rightarrow> parse_int128 s
      | ByteOrderedPartitioner \<Rightarrow> byte_token_from_string s)"

definition partitioner_hash :: "partitioner \<Rightarrow> bytes \<Rightarrow> token" where
  "partitioner_hash p data =
     (case p of Murmur3Partitioner \<Rightarrow> murmur_hash data
      | RandomPartitioner \<Rightarrow> random_hash data
      | ByteOrderedPartitioner \<Rightarrow> data)"

section \<open>The token map\<close>

record token_map =
  tm_tokens :: token_host_map
  tm_replicas :: "(string, token_replica_map) std_map"
  tm_strategies :: "(string, strategy) std_map"
  tm_addresses :: "address list"
  tm_partitioner :: "partitioner option"

definition tm_init :: token_map where
  "tm_init = \<lparr>tm_tokens = [], tm_replicas = [], tm_strategies = [], tm_addresses = [], tm_partitioner = None\<rparr>"

definition tm_clear :: "token_map \<Rightarrow> token_map" where
  "tm_clear tm = tm\<lparr>tm_addresses := [], tm_tokens := [], tm_replicas := [], tm_strategies := []\<rparr>"

definition map_keyspace_replicas :: "host_store \<Rightarrow> string \<Rightarrow> strategy \<Rightarrow> bool \<Rightarrow> token_map \<Rightarrow> token_map" where
  "map_keyspace_replicas hs ks_name s force tm =
     (if tm_replicas tm = [] \<and> \<not> force then tm
      else tm\<lparr>tm_replicas := map_assign ks_name (tokens_to_replicas hs s (tm_tokens tm)) (tm_replicas tm)\<rparr>)"

definition map_replicas :: "host_store \<Rightarrow> bool \<Rightarrow> token_map \<Rightarrow> token_map" where
  "map_replicas hs force tm =
     (if tm_replicas tm = [] \<and> \<not> force then tm
      else foldl (\<lambda>tm (ks, s). map_keyspace_replicas hs ks s force tm) tm (tm_strategies tm))"

definition tm_build :: "host_store \<Rightarrow> token_map \<Rightarrow> token_map" where
  "tm_build hs tm = (if tm_partitioner tm = None then tm else map_replicas hs True tm)"

definition set_partitioner :: "string \<Rightarrow> token_map \<Rightarrow> token_map" where
  "set_partitioner partitioner_class tm =
     (if tm_partitioner tm \<noteq> None then tm
      else if ends_with partitioner_class ''Murmur3Partitioner'' then
        tm\<lparr>tm_partitioner := Some Murmur3Partitioner\<rparr>
      else if ends_with partitioner_class ''RandomPartitioner'' then
        tm\<lparr>tm_partitioner := Some RandomPartitioner\<rparr>
      else if ends_with partitioner_class ''ByteOrderedPartitioner'' then
        tm\<lparr>tm_partitioner := Some ByteOrderedPartitioner\<rparr>
      else tm)"

definition purge_address :: "host_store \<Rightarrow> address \<Rightarrow> token_map \<Rightarrow> bool \<times> token_map" where
  "purge_address hs addr tm =
     (if \<not> (\<exists>a \<in> set (tm_addresses tm). eq_address a addr) then (False, tm)
      else (True, tm\<lparr>tm_tokens := filter (\<lambda>(t, h). \<not> eq_address addr (address (hs h))) (tm_tokens tm),
                     tm_addresses := filter (\<lambda>a. \<not> eq_address a addr) (tm_addresses tm)\<rparr>))"

definition update_host :: "host_store \<Rightarrow> host_ref \<Rightarrow> string list \<Rightarrow> token_map \<Rightarrow> token_map" where
  "update_host hs h token_strings tm =
     (case tm_partitioner tm of
        None \<Rightarrow> tm
      | Some p \<Rightarrow>
          let tm = snd (purge_address hs (address (hs h)) tm);
              tm = tm\<lparr>tm_tokens := foldl (\<lambda>m s. map_assign (token_from_string_ref p s) h m)
                                     (tm_tokens tm) token_strings\<rparr>;
              tm = tm\<lparr>tm_addresses :=
                       (if \<exists>a \<in> set (tm_addresses tm). eq_address a (address (hs h)) then tm_addresses tm
                        else tm_addresses tm @ [address (hs h)])\<rparr>
          in map_replicas hs False tm)"

definition tm_remove_host :: "host_store \<Rightarrow> host_ref \<Rightarrow> token_map \<Rightarrow> token_map" where
  "tm_remove_host hs h tm =
     (if tm_partitioner tm = None then tm
      else case purge_address hs (address (hs h)) tm of
             (purged, tm) \<Rightarrow> if purged then map_replicas hs False tm else tm)"

definition update_keyspace :: "host_store \<Rightarrow> string \<Rightarrow> keyspace_meta \<Rightarrow> token_map \<Rightarrow> token_map" where
  "update_keyspace hs ks_name ks_meta tm =
     (if tm_partitioner tm = None then tm
      else
        let known = map_find (tm_strategies tm) ks_name
        in if (case known of None \<Rightarrow> True | Some s \<Rightarrow> \<not> strategy_equal s ks_meta) then
             let s = from_keyspace_meta ks_meta;
                 tm = map_keyspace_replicas hs ks_name s False tm
             in tm\<lparr>tm_strategies := map_assign ks_name s (tm_strategies tm)\<rparr>
           else tm)"

definition drop_keyspace :: "string \<Rightarrow> token_map \<Rightarrow> token_map" where
  "drop_keyspace ks_name tm =
     (if tm_partitioner tm = None then tm
      else tm\<lparr>tm_replicas := map_erase ks_name (tm_replicas tm),
              tm_strategies := map_erase ks_name (tm_strategies tm)\<rparr>)"

definition set_replication_strategy :: "host_store \<Rightarrow> string \<Rightarrow> strategy \<Rightarrow> token_map \<Rightarrow> token_map" where
  "set_replication_strategy hs ks_name s tm =
     map_keyspace_replicas hs ks_name s False
       (tm\<lparr>tm_strategies := map_assign ks_name s (tm_strategies tm)\<rparr>)"

text \<open>The first entry behind the token of the key, or the first of the ring.\<close>

definition get_replicas :: "string \<Rightarrow> bytes \<Rightarrow> token_map \<Rightarrow> host_vec" where
  "get_replicas ks_name routing_key tm =
     (case tm_partitioner tm of
        None \<Rightarrow> []
      | Some p \<Rightarrow>
          (case map_find (tm_replicas tm) ks_name of
             None \<Rightarrow> []
           | Some ring \<Rightarrow>
               (case map_upper_bound (partitioner_hash p routing_key) ring of
                  e # _ \<Rightarrow> snd e
                | [] \<Rightarrow> (case ring of [] \<Rightarrow> [] | e # _ \<Rightarrow> snd e))))"


section \<open>The order of tokens\<close>

text \<open>The value of a big endian byte string.\<close>

fun be_value :: "bytes \<Rightarrow> nat" where
  "be_value [] = 0"
| "be_value (b # bs) = unat b * 256 ^ length bs + be_value bs"

lemma unat_lt2p_8: "unat (b :: byte) < 256"
proof -
  have "unat b < 2 ^ LENGTH(8)" by (rule unsigned_less)
  then show ?thesis by simp
qed

lemma be_value_less: "be_value bs < 256 ^ length bs"
proof (induction bs)
  case (Cons b bs)
  have "unat b \<le> 255" using unat_lt2p_8 [of b] by simp
  then have "unat b * 256 ^ length bs \<le> 255 * 256 ^ length bs" by (rule mult_le_mono1)
  with Cons.IH have "unat b * 256 ^ length bs + be_value bs < 255 * 256 ^ length bs + 256 ^ length bs"
    by (rule add_le_less_mono [rotated])
  then show ?case by simp
qed simp

lemma be_value_append: "be_value (xs @ ys) = be_value xs * 256 ^ length ys + be_value ys"
  by (induction xs) (simp_all add: power_add algebra_simps)

text \<open>Vectors of one length are ordered as their values.\<close>

lemma less_bytes_iff: "length xs = length ys \<Longrightarrow> xs < ys \<longleftrightarrow> be_value xs < be_value ys"
proof (induction xs ys rule: list_induct2)
  case (Cons x xs y ys)
  have lt: "be_value xs < 256 ^ length ys" "be_value ys < 256 ^ length ys"
    using be_value_less [of xs] be_value_less [of ys] Cons.hyps by simp_all
  have "unat x * 256 ^ length ys + be_value xs < unat y * 256 ^ length ys + be_value ys"
    if "unat x < unat y"
  proof -
    from that have "(unat x + 1) * 256 ^ length ys \<le> unat y * 256 ^ length ys" by (intro mult_le_mono1) simp
    with lt show ?thesis by simp
  qed
  moreover have "unat y * 256 ^ length ys + be_value ys < unat x * 256 ^ length ys + be_value xs"
    if "unat y < unat x"
  proof -
    from that have "(unat y + 1) * 256 ^ length ys \<le> unat x * 256 ^ length ys" by (intro mult_le_mono1) simp
    with lt show ?thesis by simp
  qed
  ultimately show ?case
    using Cons by (cases "unat x" "unat y" rule: linorder_cases)
      (auto simp: word_less_nat_alt word_unat_eq_iff)
qed simp

lemma byte_digit: "unat (ucast (drop_bit k x) :: byte) = unat (x :: u64) div 2 ^ k mod 256"
proof -
  have "unat (ucast w :: byte) = unat w mod 256" for w :: u64
    by (simp add: unsigned_ucast_eq take_bit_eq_mod)
  then show ?thesis by (simp only: unat_drop_bit_eq drop_bit_eq_div [where ?'a = nat])
qed

lemma digits_join: "(n div 2 ^ (k + 8)) * 256 + n div 2 ^ k mod 256 = n div 2 ^ k" for n k :: nat
proof -
  have "n div 2 ^ (k + 8) = n div 2 ^ k div 256" by (simp add: power_add div_mult2_eq)
  then show ?thesis by simp
qed

lemma be_value_uint64 [simp]: "be_value (encode_uint64 x) = unat x"
proof -
  define n where "n = unat x"
  have "n < 2 ^ 64" unfolding n_def using unsigned_less [of x] by simp
  then have top: "n div 2 ^ 56 mod 256 = n div 2 ^ 56" by simp
  have d: "be_value (encode_uint64 x) =
      ((((((n div 2 ^ 56 mod 256 * 256 + n div 2 ^ 48 mod 256) * 256 + n div 2 ^ 40 mod 256) * 256
        + n div 2 ^ 32 mod 256) * 256 + n div 2 ^ 24 mod 256) * 256 + n div 2 ^ 16 mod 256) * 256
        + n div 2 ^ 8 mod 256) * 256 + n div 2 ^ 0 mod 256"
    unfolding encode_uint64_def n_def by (simp only: be_value.simps list.size byte_digit) simp
  show ?thesis
    unfolding d top using digits_join [of n 48] digits_join [of n 40] digits_join [of n 32]
      digits_join [of n 24] digits_join [of n 16] digits_join [of n 8] digits_join [of n 0]
    by (simp add: n_def)
qed

text \<open>A token type whose byte order is the order of the values it stands for.\<close>

locale ordered_tokens =
  fixes valid :: "'v::linorder \<Rightarrow> bool"
    and token_of :: "'v \<Rightarrow> token"
  assumes token_less: "valid x \<Longrightarrow> valid y \<Longrightarrow> token_of x < token_of y \<longleftrightarrow> x < y"
begin

lemma token_inj: "valid x \<Longrightarrow> valid y \<Longrightarrow> token_of x = token_of y \<longleftrightarrow> x = y"
  using token_less [of x y] token_less [of y x] by (metis less_irrefl linorder_neqE)

lemma ring_sorted:
  "\<forall>x \<in> set vs. valid x \<Longrightarrow>
   sorted_wrt (<) (map token_of vs) \<longleftrightarrow> sorted_wrt (<) vs"
  by (induction vs) (auto simp: token_less)

end

definition murmur_int_token :: "int \<Rightarrow> token" where
  "murmur_int_token v = murmur_token (of_int v)"

lemma murmur_token_value:
  assumes "- (2 ^ 63) < v" and "v < 2 ^ 63"
  shows "int (be_value (murmur_int_token v)) = v + (2 ^ 63 - 1)"
proof -
  have "(of_int v + 0x7fffffffffffffff :: u64) = of_int (v + (2 ^ 63 - 1))" by simp
  then have "uint (of_int v + 0x7fffffffffffffff :: u64) = (v + (2 ^ 63 - 1)) mod 2 ^ 64"
    by (simp only: uint_word_of_int len_num1 len_bit0) simp
  also have "\<dots> = v + (2 ^ 63 - 1)" using assms by (intro mod_pos_pos_trivial) simp_all
  finally show ?thesis by (simp add: murmur_int_token_def murmur_token_def)
qed

interpretation murmur_tokens: ordered_tokens "\<lambda>v. - (2 ^ 63) < v \<and> v < 2 ^ 63" murmur_int_token
proof
  fix x y :: int
  assume "- (2 ^ 63) < x \<and> x < 2 ^ 63" and "- (2 ^ 63) < y \<and> y < 2 ^ 63"
  with murmur_token_value [of x] murmur_token_value [of y]
  show "murmur_int_token x < murmur_int_token y \<longleftrightarrow> x < y"
    by (subst less_bytes_iff) (simp_all add: murmur_int_token_def murmur_token_def flip: of_nat_less_iff [where ?'a = int])
qed

text \<open>
  The Murmur3 tokens of two signed 64 bit values above the smallest one are ordered, as
  byte vectors, like the values, so that the ring is sorted as the server sorts it.
\<close>

theorem murmur_tokens_ordered:
  assumes "- (2 ^ 63) < x" and "x < 2 ^ 63" and "- (2 ^ 63) < y" and "y < 2 ^ 63"
  shows "murmur_int_token x < murmur_int_token y \<longleftrightarrow> x < y"
  using assms by (intro murmur_tokens.token_less) simp_all

theorem murmur_tokens_ordered_witness: "murmur_int_token (- 5) < murmur_int_token 3"
  using murmur_tokens_ordered [of "- 5" 3] by simp

text \<open>
  The smallest value does not fit this order: adding the offset wraps, and its token is
  the greatest of all. The hash of a key never has that value, since the smallest hash is
  replaced by the greatest.
\<close>

lemma murmur_hash_value:
  "\<exists>v. - (2 ^ 63) < v \<and> v < 2 ^ 63 \<and> murmur_hash data = murmur_int_token v"
proof -
  define w where "w = (if MurmurHash3_x64_128 data 0 = 0x8000000000000000 then 0x7fffffffffffffff
                       else MurmurHash3_x64_128 data 0)"
  have "w \<noteq> 0x8000000000000000" by (simp add: w_def)
  moreover have "- (2 ^ 63) \<le> sint w" "sint w < 2 ^ 63"
    using sint_ge [of w] sint_lt [of w] by simp_all
  moreover have "sint w \<noteq> - (2 ^ 63)"
  proof
    assume "sint w = - (2 ^ 63)"
    then have "(of_int (sint w) :: u64) = of_int (- (2 ^ 63))" by simp
    then show False using \<open>w \<noteq> 0x8000000000000000\<close> by simp
  qed
  moreover have "murmur_hash data = murmur_int_token (sint w)"
    by (simp add: murmur_hash_def Let_def murmur_int_token_def w_def)
  ultimately show ?thesis by (intro exI [of _ "sint w"]) auto
qed

theorem murmur_least_token_wraps:
  "murmur_hash data < murmur_int_token (- (2 ^ 63)) \<and>
   murmur_int_token v \<le> murmur_int_token (- (2 ^ 63))"
proof -
  have top: "be_value (murmur_int_token (- (2 ^ 63))) = 2 ^ 64 - 1"
    by (simp add: murmur_int_token_def murmur_token_def unsigned_minus_1_eq_mask mask_eq_exp_minus_1)
  have le: "be_value (murmur_int_token u) \<le> 2 ^ 64 - 1" for u
    using be_value_less [of "murmur_int_token u"] by (simp add: murmur_int_token_def murmur_token_def)
  obtain u where u: "- (2 ^ 63) < u" "u < 2 ^ 63" "murmur_hash data = murmur_int_token u"
    using murmur_hash_value by blast
  have "int (be_value (murmur_int_token u)) < 2 ^ 64 - 1"
    unfolding murmur_token_value [OF u(1,2)] using u(2) by simp
  then have "be_value (murmur_int_token u) < 2 ^ 64 - 1" by simp
  moreover have "length (murmur_int_token x) = 8" for x
    by (simp add: murmur_int_token_def murmur_token_def)
  ultimately show ?thesis
    using le [of v] top
    by (simp add: u(3) less_bytes_iff leD flip: not_less)
qed

section \<open>128 bit tokens\<close>

definition pair_value :: "u64 \<times> u64 \<Rightarrow> nat" where
  "pair_value v = unat (fst v) * 2 ^ 64 + unat (snd v)"

lemma unat_lt_64: "unat (w :: u64) < 2 ^ 64"
proof -
  have "unat w < 2 ^ LENGTH(64)" by (rule unsigned_less)
  then show ?thesis by simp
qed

lemma carry_word:
  "(of_nat (n + k) :: u64) < of_nat n \<longleftrightarrow> (n mod 2 ^ 64 + k) mod 2 ^ 64 < n mod 2 ^ 64"
  by (simp add: word_less_nat_alt unat_of_nat mod_add_left_eq del: of_nat_add)

lemma high_bits:
  assumes "k \<le> 64"
  shows "drop_bit (64 - k) w = (of_nat (2 ^ k * unat w div 2 ^ 64) :: u64)"
proof -
  have "2 ^ k * unat w div 2 ^ 64 = unat w div 2 ^ (64 - k)"
  proof -
    have "(2 :: nat) ^ 64 = 2 ^ k * 2 ^ (64 - k)" using assms by (simp flip: power_add)
    then show ?thesis by (metis div_mult_mult1 power_not_zero zero_neq_numeral)
  qed
  then have "of_nat (2 ^ k * unat w div 2 ^ 64) = (of_nat (unat (drop_bit (64 - k) w)) :: u64)"
    by (simp only: unat_drop_bit_eq drop_bit_eq_div [where ?'a = nat])
  then show ?thesis by simp
qed

lemma hi_sum:
  "X = q1 + q2 + (if B1 then 1 else 0) + (if B2 then 1 else 0) \<Longrightarrow>
   (of_nat (10 * h + X) :: u64) =
     of_nat q1 + push_bit 1 (of_nat h) + (of_nat q2 + push_bit 3 (of_nat h) + (if B1 then 1 else 0))
     + (if B2 then 1 else 0)"
  by (simp add: push_bit_eq_mult)

lemma int128_digit_words:
  assumes "d < 10"
  shows "int128_digit d (of_nat h, of_nat l) =
         (of_nat (10 * h + (10 * (l mod 2 ^ 64) + d) div 2 ^ 64), of_nat (10 * l + d))"
proof -
  define L where "L = l mod 2 ^ 64"
  have l: "of_nat l = (of_nat L :: u64)" "unat (of_nat l :: u64) = L"
    by (simp_all add: L_def unat_of_nat word_of_nat_eq_iff take_bit_eq_mod)
  have lo1: "push_bit 1 (of_nat l :: u64) = of_nat (2 * L)" "push_bit 3 (of_nat l :: u64) = of_nat (8 * L)"
    by (simp_all add: l push_bit_eq_mult mult.commute)
  have hi1: "drop_bit 63 (of_nat l :: u64) = of_nat (2 * L div 2 ^ 64)"
    "drop_bit 61 (of_nat l :: u64) = of_nat (8 * L div 2 ^ 64)"
    using high_bits [of 1 "of_nat l"] high_bits [of 3 "of_nat l"] by (simp_all add: l(2))
  have c1: "(of_nat (2 * L) + of_nat (8 * L) < (of_nat (2 * L) :: u64)) \<longleftrightarrow>
      ((2 * L) mod 2 ^ 64 + 8 * L) mod 2 ^ 64 < (2 * L) mod 2 ^ 64"
    using carry_word [of "2 * L" "8 * L"] by (simp only: of_nat_add)
  have c2: "(of_nat (2 * L) + of_nat (8 * L) + of_nat d < (of_nat (2 * L) + of_nat (8 * L) :: u64)) \<longleftrightarrow>
      ((2 * L + 8 * L) mod 2 ^ 64 + d) mod 2 ^ 64 < (2 * L + 8 * L) mod 2 ^ 64"
    using carry_word [of "2 * L + 8 * L" d] by (simp only: of_nat_add)
  have d0: "d div 2 ^ 64 = 0" using assms by simp
  have "(10 * L + d) div 2 ^ 64 =
      2 * L div 2 ^ 64 + 8 * L div 2 ^ 64
      + (if ((2 * L) mod 2 ^ 64 + 8 * L) mod 2 ^ 64 < (2 * L) mod 2 ^ 64 then 1 else 0)
      + (if ((2 * L + 8 * L) mod 2 ^ 64 + d) mod 2 ^ 64 < (2 * L + 8 * L) mod 2 ^ 64 then 1 else 0)"
    using carry_div [of "2 ^ 64" "2 * L" "8 * L"] carry_div [of "2 ^ 64" "2 * L + 8 * L" d] d0
    by (simp only: zero_less_power zero_less_numeral) simp
  then have "of_nat (10 * h + (10 * L + d) div 2 ^ 64) =
      (of_nat (2 * L div 2 ^ 64) + push_bit 1 (of_nat h) + (of_nat (8 * L div 2 ^ 64) + push_bit 3 (of_nat h)
      + (if of_nat (2 * L) + of_nat (8 * L) < (of_nat (2 * L) :: u64) then 1 else 0))
      + (if of_nat (2 * L) + of_nat (8 * L) + of_nat d < (of_nat (2 * L) + of_nat (8 * L) :: u64) then 1 else 0) :: u64)"
    unfolding c1 c2 by (rule hi_sum)
  moreover have "of_nat (2 * L) + of_nat (8 * L) + of_nat d = (of_nat (10 * l + d) :: u64)"
    by (simp add: l(1))
  ultimately show ?thesis
    unfolding int128_digit_def Let_def fst_conv snd_conv lo1 hi1 L_def [symmetric]
    by (simp only: prod.inject ac_simps simp_thms)
qed


lemma int128_digit_pair:
  assumes "d < 10"
  shows "int128_digit d (of_nat (v div 2 ^ 64), of_nat v) =
         (of_nat ((10 * v + d) div 2 ^ 64), of_nat (10 * v + d))"
proof -
  have split: "10 * x + d = (10 * r + d) + (10 * q) * m" if "x = q * m + r" for x q m r :: nat
    unfolding that by (simp add: algebra_simps)
  have "10 * v + d = (10 * (v mod 2 ^ 64) + d) + (10 * (v div 2 ^ 64)) * 2 ^ 64"
    by (rule split) (simp only: div_mult_mod_eq)
  then have "(10 * v + d) div 2 ^ 64 = 10 * (v div 2 ^ 64) + (10 * (v mod 2 ^ 64) + d) div 2 ^ 64"
    by (simp only: div_mult_self1 power_not_zero zero_neq_numeral not_False_eq_True)
  then show ?thesis by (simp only: int128_digit_words [OF assms])
qed

lemma digit_less: "isdigit c \<Longrightarrow> digit_value c < 10"
  by (auto simp: isdigit_def digit_value_def Let_def)

lemma int128_digits_pair:
  "int128_digits (of_nat (v div 2 ^ 64), of_nat v) s =
     (of_nat (decimal v s div 2 ^ 64), of_nat (decimal v s))"
proof (induction s arbitrary: v)
  case (Cons c s)
  show ?case
  proof (cases "isdigit c")
    case True
    then show ?thesis
      using Cons.IH [of "10 * v + digit_value c"] int128_digit_pair [OF digit_less [OF True], of v]
      by (simp del: of_nat_add of_nat_mult)
  qed simp
qed simp

lemma be_value_zeros: "be_value (replicate n 0) = 0"
  by (induction n) simp_all

text \<open>
  \<open>parse_int128\<close> stores the value of the decimal digits, behind any leading space, as a
  big endian 128 bit number; digits beyond that width wrap.
\<close>

theorem parse_int128_value:
  "length (parse_int128 p) = 16 \<and>
   be_value (parse_int128 p) = decimal 0 (dropWhile isspace p) mod 2 ^ 128"
proof -
  define s where "s = dropWhile isspace p"
  define v where "v = decimal 0 s"
  show ?thesis
  proof (cases "s = []")
    case True
    then show ?thesis by (simp add: parse_int128_def s_def [symmetric] be_value_zeros)
  next
    case False
    have d: "int128_digits (0, 0) s = (of_nat (v div 2 ^ 64), of_nat v)"
      using int128_digits_pair [of 0 s] by (simp add: v_def)
    have p: "parse_int128 p = encode_uint64 (of_nat (v div 2 ^ 64)) @ encode_uint64 (of_nat v)"
      using False unfolding parse_int128_def s_def [symmetric] Let_def d by (simp only: if_False prod.case)
    have "v mod 2 ^ 128 = (v div 2 ^ 64 mod 2 ^ 64) * 2 ^ 64 + v mod 2 ^ 64"
      using mod_mult2_eq [of v "2 ^ 64" "2 ^ 64"] by (simp flip: power_add)
    then have "be_value (parse_int128 p) = v mod 2 ^ 128"
      unfolding p be_value_append be_value_uint64 encode_lengths unat_of_nat len_num1 len_bit0
      by (simp only: mult_2 mult_1_right) simp
    then show ?thesis by (simp add: p v_def s_def)
  qed
qed

section \<open>The random partitioner\<close>

lemma md5_empty_first_byte: "\<exists>rest. md5_spec [] = 0xd4 # rest \<and> length rest = 15"
proof -
  define blk :: bytes where "blk = 0x80 # replicate 63 0"
  have pad: "md5_pad [] = blk"
    by (simp add: md5_pad_def md5_length_bytes_def blk_def map_replicate_const flip: replicate_add)
  note ev = md5_step_def Let_def md5_word_def blk_def
  have r1: "md5_round md5_F blk md5_round1 (0x67452301, 0xefcdab89, 0x98badcfe, 0x10325476) =
      (4117527793, 3598818410, 1520779125, 927548327)"
    by (simp add: ev md5_round1_def md5_F_def)
  have r2: "md5_round md5_G blk md5_round2 (4117527793, 3598818410, 1520779125, 927548327) =
      (326135862, 2720030495, 473023364, 2927104987)"
    by (simp add: ev md5_round2_def md5_G_def)
  have r3: "md5_round md5_H blk md5_round3 (326135862, 2720030495, 473023364, 2927104987) =
      (1062596093, 3397201341, 1759006370, 581115732)"
    by (simp add: ev md5_round3_def md5_H_def)
  have r4: "md5_round md5_I blk md5_round4 (1062596093, 3397201341, 1759006370, 581115732) =
      (1917254355, 350508294, 4283343851, 1846584438)"
    by (simp add: ev md5_round4_def md5_I_def)
  have "length blk = 64" "take 64 blk = blk" by (simp_all add: blk_def)
  then have "md5_body blk st = md5_block blk st" for st
    by (simp add: md5_body_def)
  then have b: "md5_body blk (0x67452301, 0xefcdab89, 0x98badcfe, 0x10325476) =
      (0xd98c1dd4, 0x04b2008f, 0x980980e9, 0x7e42f8ec)"
    by (simp add: md5_block_def r1 r2 r3 r4)
  show ?thesis
    by (simp add: md5_spec_def pad b le32_def)
qed

text \<open>
  The random partitioner takes the digest as it is, although its tokens are the values up
  to \<open>2 ^ 127\<close>: the token of the empty key lies beyond every token of the ring.
\<close>

theorem random_hash_out_of_range: "2 ^ 127 < be_value (random_hash [])"
proof -
  have "random_hash [] = md5_spec (concat [[]])"
    using md5_chunked_spec [of "replicate 64 0" "[[]]"] by (simp add: random_hash_def)
  with md5_empty_first_byte obtain rest where "random_hash [] = 0xd4 # rest" "length rest = 15"
    by auto
  then show ?thesis by simp
qed

section \<open>The invariant of the token map\<close>

text \<open>
  Every host of the ring is a mapped one, the maps are maps, and once the map is built the
  replicas of every known keyspace are those of its strategy on the current ring.
\<close>

definition tm_inv :: "host_store \<Rightarrow> token_map \<Rightarrow> bool" where
  "tm_inv hs tm \<longleftrightarrow>
     map_inv (tm_tokens tm) \<and> map_inv (tm_replicas tm) \<and> map_inv (tm_strategies tm) \<and>
     (\<forall>a \<in> set (tm_addresses tm). proper_address a) \<and>
     (\<forall>(t, h) \<in> set (tm_tokens tm). \<exists>a \<in> set (tm_addresses tm). eq_address a (address (hs h))) \<and>
     (tm_replicas tm \<noteq> [] \<longrightarrow>
        (\<forall>ks s. map_find (tm_strategies tm) ks = Some s \<longrightarrow>
           map_find (tm_replicas tm) ks = Some (tokens_to_replicas hs s (tm_tokens tm))))"

inductive tm_reachable :: "host_store \<Rightarrow> token_map \<Rightarrow> bool" for hs where
  tm_reach_init: "tm_reachable hs tm_init"
| tm_reach_clear: "tm_reachable hs tm \<Longrightarrow> tm_reachable hs (tm_clear tm)"
| tm_reach_build: "tm_reachable hs tm \<Longrightarrow> tm_reachable hs (tm_build hs tm)"
| tm_reach_part: "tm_reachable hs tm \<Longrightarrow> tm_reachable hs (set_partitioner cls tm)"
| tm_reach_host: "tm_reachable hs tm \<Longrightarrow> tm_reachable hs (update_host hs h toks tm)"
| tm_reach_remove: "tm_reachable hs tm \<Longrightarrow> tm_reachable hs (tm_remove_host hs h tm)"
| tm_reach_ks: "tm_reachable hs tm \<Longrightarrow> tm_reachable hs (update_keyspace hs ks meta tm)"
| tm_reach_drop: "tm_reachable hs tm \<Longrightarrow> tm_reachable hs (drop_keyspace ks tm)"

inductive_cases tm_reachableE: "tm_reachable hs tm"

lemma map_assign_ne [simp]: "map_assign k v m \<noteq> []"
  by (induction k v m rule: map_assign.induct) auto

text \<open>Remapping all keyspaces of a list.\<close>

definition remap :: "host_store \<Rightarrow> bool \<Rightarrow> (string \<times> strategy) list \<Rightarrow> token_map \<Rightarrow> token_map" where
  "remap hs force ks tm = foldl (\<lambda>tm (ks, s). map_keyspace_replicas hs ks s force tm) tm ks"

definition remapped :: "host_store \<Rightarrow> (string \<times> strategy) list \<Rightarrow> token_map \<Rightarrow> token_map \<Rightarrow> bool" where
  "remapped hs ks tm tm' \<longleftrightarrow>
     tm_tokens tm' = tm_tokens tm \<and> tm_strategies tm' = tm_strategies tm \<and>
     tm_addresses tm' = tm_addresses tm \<and> tm_partitioner tm' = tm_partitioner tm \<and>
     map_inv (tm_replicas tm') \<and>
     (\<forall>k. map_find (tm_replicas tm') k =
       (case map_of ks k of Some s \<Rightarrow> Some (tokens_to_replicas hs s (tm_tokens tm))
        | None \<Rightarrow> map_find (tm_replicas tm) k))"

lemma remap_remapped:
  "tm_replicas tm \<noteq> [] \<or> force \<Longrightarrow> map_inv (tm_replicas tm) \<Longrightarrow> distinct (map fst ks) \<Longrightarrow>
   remapped hs ks tm (remap hs force ks tm)"
proof (induction ks arbitrary: tm)
  case Nil
  then show ?case by (simp add: remap_def remapped_def)
next
  case (Cons e ks)
  obtain k s where e: "e = (k, s)" by force
  define tm1 where "tm1 = map_keyspace_replicas hs k s force tm"
  have tm1: "tm1 = tm\<lparr>tm_replicas := map_assign k (tokens_to_replicas hs s (tm_tokens tm)) (tm_replicas tm)\<rparr>"
    using Cons.prems(1) by (auto simp: tm1_def map_keyspace_replicas_def)
  have "remapped hs ks tm1 (remap hs force ks tm1)"
    using Cons.prems by (intro Cons.IH) (simp_all add: tm1 map_inv_assign)
  moreover have "remap hs force (e # ks) tm = remap hs force ks tm1"
    by (simp add: remap_def e tm1_def)
  moreover have "map_of ks k = None"
    using Cons.prems(3) by (simp add: e map_of_eq_None_iff)
  ultimately show ?case
    using Cons.prems(2) by (auto simp: remapped_def e tm1 map_find_assign split: option.split)
qed

lemma map_replicas_remap:
  "map_replicas hs force tm =
     (if tm_replicas tm = [] \<and> \<not> force then tm else remap hs force (tm_strategies tm) tm)"
  by (simp add: map_replicas_def remap_def)

text \<open>The part of the invariant that does not speak of the replicas.\<close>

definition tm_ring_inv :: "host_store \<Rightarrow> token_map \<Rightarrow> bool" where
  "tm_ring_inv hs tm \<longleftrightarrow>
     map_inv (tm_tokens tm) \<and> map_inv (tm_replicas tm) \<and> map_inv (tm_strategies tm) \<and>
     (\<forall>a \<in> set (tm_addresses tm). proper_address a) \<and>
     (\<forall>(t, h) \<in> set (tm_tokens tm). \<exists>a \<in> set (tm_addresses tm). eq_address a (address (hs h)))"

lemma map_replicas_inv:
  assumes "tm_ring_inv hs tm"
  shows "tm_inv hs (map_replicas hs force tm)"
proof (cases "tm_replicas tm = [] \<and> \<not> force")
  case True
  then show ?thesis using assms by (simp add: map_replicas_remap tm_ring_inv_def tm_inv_def)
next
  case False
  then have "remapped hs (tm_strategies tm) tm (remap hs force (tm_strategies tm) tm)"
    using assms by (intro remap_remapped) (auto simp: tm_ring_inv_def map_inv_distinct)
  then show ?thesis
    using assms False
    by (auto simp: map_replicas_remap tm_ring_inv_def tm_inv_def remapped_def map_find_def)
qed

lemma purge_ring_inv:
  assumes "tm_ring_inv hs tm" and "proper_hosts hs" and "purge_address hs (address (hs h)) tm = (b, tm')"
  shows "tm_ring_inv hs tm'"
    and "\<forall>(t, x) \<in> set (tm_tokens tm'). \<not> eq_address (address (hs h)) (address (hs x))"
    and "tm_strategies tm' = tm_strategies tm" "tm_replicas tm' = tm_replicas tm"
      "tm_partitioner tm' = tm_partitioner tm"
proof -
  have p: "proper_address (address (hs x))" for x
    using assms(2) by (simp add: proper_hosts_def)
  have pa: "proper_address a" if "a \<in> set (tm_addresses tm)" for a
    using assms(1) that by (simp add: tm_ring_inv_def)
  have eq: "eq_address a (address (hs x)) \<longleftrightarrow> host_part a = host_part (address (hs x))"
    "eq_address (address (hs x)) (address (hs y)) \<longleftrightarrow> host_part (address (hs x)) = host_part (address (hs y))"
    if "a \<in> set (tm_addresses tm)" for a x y
    using eq_address_host_part p pa that by blast+
  have cover: "\<exists>a \<in> set (tm_addresses tm). host_part a = host_part (address (hs x))"
    if "(t, x) \<in> set (tm_tokens tm)" for t x
    using assms(1) that eq(1) unfolding tm_ring_inv_def by blast
  show "tm_ring_inv hs tm'"
    using assms(1,3) cover
    by (auto simp: purge_address_def tm_ring_inv_def map_inv_filter eq split: if_splits)
      (metis eq(1))
  show "\<forall>(t, x) \<in> set (tm_tokens tm'). \<not> eq_address (address (hs h)) (address (hs x))"
    using assms(3) cover
    by (auto simp: purge_address_def eq_address_host_part [OF p p] eq split: if_splits) metis
  show "tm_strategies tm' = tm_strategies tm" "tm_replicas tm' = tm_replicas tm"
      "tm_partitioner tm' = tm_partitioner tm"
    using assms(3) by (auto simp: purge_address_def split: if_splits)
qed


lemma tm_inv_ring: "tm_inv hs tm \<Longrightarrow> tm_ring_inv hs tm"
  by (simp add: tm_inv_def tm_ring_inv_def)

lemma assign_tokens:
  "map_inv m \<Longrightarrow>
   map_inv (foldl (\<lambda>m s. map_assign (f s) h m) m ss) \<and>
   (\<forall>(t, x) \<in> set (foldl (\<lambda>m s. map_assign (f s) h m) m ss). (t, x) \<in> set m \<or> x = h) \<and>
   (\<forall>s \<in> set ss. map_find (foldl (\<lambda>m s. map_assign (f s) h m) m ss) (f s) = Some h)"
proof (induction ss arbitrary: m)
  case (Cons s ss)
  have inv: "map_inv (map_assign (f s) h m)" using Cons.prems by (rule map_inv_assign)
  have keep: "map_find (foldl (\<lambda>m s. map_assign (f s) h m) m' ss) k = Some h"
    if "map_inv m'" "map_find m' k = Some h" for m' k
    using that by (induction ss arbitrary: m') (auto simp: map_inv_assign map_find_assign)
  have "\<forall>(t, x) \<in> set (map_assign (f s) h m). (t, x) \<in> set m \<or> x = h"
    by (induction "f s" h m rule: map_assign.induct) auto
  then show ?case
    using Cons.IH [OF inv] keep [OF inv, of "f s"] Cons.prems
    by (fastforce simp: map_find_assign)
qed auto

lemma update_host_inv:
  assumes "tm_inv hs tm" and "proper_hosts hs"
  shows "tm_inv hs (update_host hs h toks tm)"
proof (cases "tm_partitioner tm")
  case None
  then show ?thesis using assms(1) by (simp add: update_host_def)
next
  case (Some p)
  obtain b tm1 where p1: "purge_address hs (address (hs h)) tm = (b, tm1)" by force
  note pg = purge_ring_inv [OF tm_inv_ring [OF assms(1)] assms(2) p1]
  define ring where "ring = foldl (\<lambda>m s. map_assign (token_from_string_ref p s) h m) (tm_tokens tm1) toks"
  define addrs where "addrs = (if \<exists>a \<in> set (tm_addresses tm1). eq_address a (address (hs h)) then tm_addresses tm1
      else tm_addresses tm1 @ [address (hs h)])"
  have refl: "eq_address (address (hs h)) (address (hs h))"
    using eq_address_host_part [of "address (hs h)" "address (hs h)"] assms(2) by (simp add: proper_hosts_def)
  then have a: "\<exists>a \<in> set addrs. eq_address a (address (hs h))" by (auto simp: addrs_def)
  have "map_inv (tm_tokens tm1)" using pg(1) by (simp add: tm_ring_inv_def)
  note at = assign_tokens [OF this, of "token_from_string_ref p" h toks, folded ring_def]
  have "set (tm_addresses tm1) \<subseteq> set addrs" by (auto simp: addrs_def)
  then have "\<forall>(t, x) \<in> set ring. \<exists>a \<in> set addrs. eq_address a (address (hs x))"
    using at a pg(1) by (fastforce simp: tm_ring_inv_def)
  moreover have "\<forall>x \<in> set addrs. proper_address x"
    using pg(1) assms(2) by (auto simp: addrs_def tm_ring_inv_def proper_hosts_def)
  ultimately have "tm_ring_inv hs (tm1\<lparr>tm_tokens := ring, tm_addresses := addrs\<rparr>)"
    using pg(1) at by (simp add: tm_ring_inv_def)
  from map_replicas_inv [OF this, of False]
  show ?thesis
    by (cases "\<exists>a \<in> set (tm_addresses tm1). eq_address a (address (hs h))")
      (simp_all add: update_host_def Some p1 Let_def ring_def [symmetric] addrs_def)
qed

lemma remove_host_inv:
  assumes "tm_inv hs tm" and "proper_hosts hs"
  shows "tm_inv hs (tm_remove_host hs h tm)"
proof -
  obtain b tm1 where p1: "purge_address hs (address (hs h)) tm = (b, tm1)" by force
  note pg = purge_ring_inv [OF tm_inv_ring [OF assms(1)] assms(2) p1]
  have "\<not> b \<Longrightarrow> tm1 = tm" using p1 by (auto simp: purge_address_def split: if_splits)
  then show ?thesis
    using map_replicas_inv [OF pg(1), of False] assms(1) by (auto simp: tm_remove_host_def p1)
qed

lemma update_keyspace_inv:
  assumes "tm_inv hs tm"
  shows "tm_inv hs (update_keyspace hs ks meta tm)"
  using assms
  by (auto simp: update_keyspace_def tm_inv_def Let_def map_keyspace_replicas_def
      map_inv_assign map_find_assign split: if_splits)

lemma drop_keyspace_inv:
  assumes "tm_inv hs tm"
  shows "tm_inv hs (drop_keyspace ks tm)"
proof -
  have "map_erase ks m \<noteq> [] \<Longrightarrow> m \<noteq> []" for m :: "(string, token_replica_map) std_map"
    by (auto simp: map_erase_def)
  then show ?thesis
    using assms by (auto simp: drop_keyspace_def tm_inv_def map_inv_erase map_find_erase)
qed

lemma tm_reachable_inv:
  assumes "tm_reachable hs tm" and "proper_hosts hs"
  shows "tm_inv hs tm"
  using assms(1)
proof (induction rule: tm_reachable.induct)
  case tm_reach_init
  then show ?case by (simp add: tm_inv_def tm_init_def map_nil)
next
  case (tm_reach_clear tm)
  then show ?case by (simp add: tm_inv_def tm_clear_def map_nil)
next
  case (tm_reach_build tm)
  then show ?case using map_replicas_inv [OF tm_inv_ring, of hs tm True] by (simp add: tm_build_def)
next
  case (tm_reach_part tm cls)
  then show ?case by (auto simp: set_partitioner_def tm_inv_def)
qed (simp_all add: update_host_inv remove_host_inv update_keyspace_inv drop_keyspace_inv assms(2))

lemma map_replicas_tokens [simp]: "tm_tokens (map_replicas hs force tm) = tm_tokens tm"
proof -
  have "tm_tokens (remap hs force ks tm) = tm_tokens tm" for ks
    by (induction ks arbitrary: tm) (auto simp: remap_def map_keyspace_replicas_def)
  then show ?thesis by (simp add: map_replicas_remap)
qed


definition ip_hosts :: host_store where
  "ip_hosts n = (new_host (Inet (of_nat n) 9042) False)\<lparr>rack := ''r1'', dc := ''dc1'', hstate := UP\<rparr>"

lemma proper_ip_hosts: "proper_hosts ip_hosts"
  by (simp add: proper_hosts_def ip_hosts_def new_host_def proper_address_def)

definition demo_tm :: token_map where
  "demo_tm = tm_build ip_hosts
     (update_keyspace ip_hosts ''ks'' \<lparr>strategy_class = ''SimpleStrategy'',
        strategy_options = [(''replication_factor'', ''2'')]\<rparr>
       (update_host ip_hosts 1 [''7'']
         (update_host ip_hosts 0 [''3''] (set_partitioner ''ByteOrderedPartitioner'' tm_init))))"

lemma demo_tm_reachable: "tm_reachable ip_hosts demo_tm"
  unfolding demo_tm_def by (intro tm_reachable.intros)


text \<open>
  After a host is removed from a reachable token map no token belongs to a host with
  its address.
\<close>

theorem removed_host_owns_no_token:
  assumes "tm_reachable hs tm" and "proper_hosts hs" and "tm_partitioner tm \<noteq> None"
  shows "list_all (\<lambda>(t, x). \<not> same_address hs h x) (tm_tokens (tm_remove_host hs h tm))"
proof -
  obtain b tm1 where p1: "purge_address hs (address (hs h)) tm = (b, tm1)" by force
  note pg = purge_ring_inv [OF tm_inv_ring [OF tm_reachable_inv [OF assms(1,2)]] assms(2) p1]
  show ?thesis
    using pg(2) assms(3) by (auto simp: tm_remove_host_def p1 same_address_def list_all_iff)
qed

lemma map_replicas_partitioner [simp]: "tm_partitioner (map_replicas hs force tm) = tm_partitioner tm"
proof -
  have "tm_partitioner (remap hs force ks tm) = tm_partitioner tm" for ks
    by (induction ks arbitrary: tm) (auto simp: remap_def map_keyspace_replicas_def)
  then show ?thesis by (simp add: map_replicas_remap)
qed

lemma update_host_partitioner [simp]: "tm_partitioner (update_host hs h toks tm) = tm_partitioner tm"
  by (auto simp: update_host_def Let_def purge_address_def split: option.split)

lemma map_replicas_strategies [simp]: "tm_strategies (map_replicas hs force tm) = tm_strategies tm"
proof -
  have "tm_strategies (remap hs force ks tm) = tm_strategies tm" for ks
    by (induction ks arbitrary: tm) (auto simp: remap_def map_keyspace_replicas_def)
  then show ?thesis by (simp add: map_replicas_remap)
qed

lemma update_host_strategies [simp]: "tm_strategies (update_host hs h toks tm) = tm_strategies tm"
  by (auto simp: update_host_def Let_def purge_address_def split: option.split)

lemma demo_tm_partitioner: "tm_partitioner demo_tm = Some ByteOrderedPartitioner"
proof -
  have "tm_partitioner (set_partitioner ''ByteOrderedPartitioner'' tm_init) = Some ByteOrderedPartitioner"
    by (simp add: set_partitioner_def tm_init_def ends_with_def IsEqual_def)
  then show ?thesis
    by (auto simp: demo_tm_def tm_build_def update_keyspace_def map_keyspace_replicas_def Let_def)
qed

theorem removed_host_owns_no_token_witness:
  "list_all (\<lambda>(t, x). \<not> same_address ip_hosts 1 x) (tm_tokens (tm_remove_host ip_hosts 1 demo_tm))"
  by (rule removed_host_owns_no_token [OF demo_tm_reachable proper_ip_hosts])
    (simp add: demo_tm_partitioner)

text \<open>
  Until \<open>build\<close> is called, and again after the last mapped keyspace was dropped, a keyspace
  that is created gets no replicas: the map stays empty and every lookup fails.
\<close>

theorem empty_token_map_stays_empty:
  assumes "tm_replicas tm = []"
  shows "get_replicas ks' key (update_keyspace hs ks meta tm) = []"
  using assms
  by (auto simp: update_keyspace_def Let_def map_keyspace_replicas_def get_replicas_def map_nil
      split: option.splits)

theorem empty_token_map_stays_empty_witness:
  "get_replicas ''ks2'' [1] (update_keyspace ip_hosts ''ks2'' \<lparr>strategy_class = ''SimpleStrategy'',
     strategy_options = [(''replication_factor'', ''2'')]\<rparr>
     (drop_keyspace ''ks''
       (tm_init\<lparr>tm_partitioner := Some ByteOrderedPartitioner, tm_tokens := [([1], 0)],
          tm_replicas := [(''ks'', [([1], [0])])], tm_strategies := [(''ks'', NonReplicated ''x'')]\<rparr>))) = []"
  by (rule empty_token_map_stays_empty) (simp add: drop_keyspace_def map_erase_def tm_init_def)

lemma tokens_to_replicas_keys: "map fst (tokens_to_replicas hs s primary) = map fst primary"
proof -
  have "map (\<lambda>i. fst (primary ! i)) [0..<length primary] = map fst primary"
    by (rule nth_equalityI) simp_all
  then show ?thesis
    by (cases s) (simp_all add: tokens_to_replicas_def nts_tokens_to_replicas_def
        simple_tokens_to_replicas_def nonreplicated_tokens_to_replicas_def comp_def Let_def
        case_prod_unfold)
qed

text \<open>
  The token of the ring that a key with the hash \<open>h\<close> belongs to: the least greater one, or
  the least of all where none is greater.
\<close>

definition ring_successor :: "token \<Rightarrow> token list \<Rightarrow> token \<Rightarrow> bool" where
  "ring_successor h ts t \<longleftrightarrow>
     t \<in> set ts \<and>
     (if \<exists>t' \<in> set ts. h < t' then h < t \<and> (\<forall>t' \<in> set ts. h < t' \<longrightarrow> t \<le> t')
      else \<forall>t' \<in> set ts. t \<le> t')"

text \<open>
  In a built token map a lookup returns what the strategy of the keyspace gives for the
  entry of the ring with the least token greater than that of the key, or for the first
  entry where there is none.
\<close>

theorem get_replicas_next_token:
  assumes "tm_reachable hs tm" and "proper_hosts hs"
    and "tm_partitioner tm = Some p" and "tm_replicas tm \<noteq> []"
    and "map_find (tm_strategies tm) ks = Some s" and "tm_tokens tm \<noteq> []"
  shows "\<exists>e \<in> set (tokens_to_replicas hs s (tm_tokens tm)). get_replicas ks key tm = snd e \<and>
     ring_successor (partitioner_hash p key) (map fst (tm_tokens tm)) (fst e)"
proof -
  define ring where "ring = tokens_to_replicas hs s (tm_tokens tm)"
  have inv: "tm_inv hs tm" by (rule tm_reachable_inv [OF assms(1,2)])
  have keys: "map fst (tm_tokens tm) = map fst ring" by (simp add: ring_def tokens_to_replicas_keys)
  have find: "map_find (tm_replicas tm) ks = Some ring"
    using inv assms(4,5) by (simp add: tm_inv_def ring_def)
  have mi: "map_inv ring"
    using inv by (simp add: tm_inv_def map_inv_def keys [symmetric])
  show ?thesis
    unfolding keys ring_def [symmetric]
  proof (cases "map_upper_bound (partitioner_hash p key) ring")
    case (Cons e es)
    then have "get_replicas ks key tm = snd e" by (simp add: get_replicas_def assms(3) find)
    moreover note map_upper_bound_least [OF mi Cons]
    ultimately show "\<exists>e \<in> set ring. get_replicas ks key tm = snd e \<and>
     ring_successor (partitioner_hash p key) (map fst ring) (fst e)"
      by (intro bexI [of _ e]) (auto simp: ring_successor_def)
  next
    case Nil
    have "ring \<noteq> []" using keys assms(6) by auto
    then obtain e es where ring: "ring = e # es" by (cases ring) auto
    have "{e \<in> set ring. partitioner_hash p key < fst e} = {}"
      using map_upper_bound_spec [OF mi, of "partitioner_hash p key"] Nil by simp
    moreover have "\<forall>e' \<in> set ring. fst e \<le> fst e'"
      using mi by (auto simp: ring map_inv_def less_imp_le)
    moreover have "get_replicas ks key tm = snd e"
      by (simp add: get_replicas_def assms(3) find Nil) (simp add: ring)
    ultimately show "\<exists>e \<in> set ring. get_replicas ks key tm = snd e \<and>
     ring_successor (partitioner_hash p key) (map fst ring) (fst e)"
      by (intro bexI [of _ e]) (auto simp: ring ring_successor_def)
  qed
qed


lemma update_host_tokens:
  "tm_partitioner tm = Some p \<Longrightarrow> tm_tokens (update_host hs h (toks @ [t]) tm) \<noteq> []"
  by (simp add: update_host_def Let_def)

definition demo_meta :: keyspace_meta where
  "demo_meta = \<lparr>strategy_class = ''SimpleStrategy'', strategy_options = [(''replication_factor'', ''2'')]\<rparr>"

lemma demo_tm_facts:
  "map_find (tm_strategies demo_tm) ''ks'' = Some (from_keyspace_meta demo_meta)"
  "tm_tokens demo_tm \<noteq> []" "tm_replicas demo_tm \<noteq> []"
proof -
  define tm0 where "tm0 = update_host ip_hosts 1 [''7'']
         (update_host ip_hosts 0 [''3''] (set_partitioner ''ByteOrderedPartitioner'' tm_init))"
  have p: "tm_partitioner tm0 = Some ByteOrderedPartitioner"
    by (simp add: tm0_def set_partitioner_def tm_init_def ends_with_def IsEqual_def)
  have s0: "tm_strategies tm0 = []"
    by (simp add: tm0_def set_partitioner_def tm_init_def)
  have p0: "tm_partitioner (update_host ip_hosts 0 [''3''] (set_partitioner ''ByteOrderedPartitioner'' tm_init))
      = Some ByteOrderedPartitioner"
    using p by (simp add: tm0_def)
  have t0: "tm_tokens tm0 \<noteq> []"
    using update_host_tokens [OF p0, of ip_hosts 1 "[]" "''7''"] by (simp only: tm0_def append_Nil not_False_eq_True)
  define tm1 where "tm1 = update_keyspace ip_hosts ''ks'' demo_meta tm0"
  have tm1: "tm_partitioner tm1 = Some ByteOrderedPartitioner" "tm_tokens tm1 = tm_tokens tm0"
    "tm_strategies tm1 = [(''ks'', from_keyspace_meta demo_meta)]"
    using p s0 by (simp_all add: tm1_def update_keyspace_def map_keyspace_replicas_def Let_def map_nil)
  have demo: "demo_tm = map_replicas ip_hosts True tm1"
    using tm1(1) by (simp add: demo_tm_def tm_build_def tm1_def tm0_def demo_meta_def)
  show "map_find (tm_strategies demo_tm) ''ks'' = Some (from_keyspace_meta demo_meta)"
    by (simp add: demo tm1 map_find_def)
  show "tm_tokens demo_tm \<noteq> []" using t0 by (simp add: demo tm1)
  show "tm_replicas demo_tm \<noteq> []"
    by (simp add: demo map_replicas_remap remap_def tm1 map_keyspace_replicas_def)
qed

theorem get_replicas_next_token_witness:
  "\<exists>e \<in> set (tokens_to_replicas ip_hosts (from_keyspace_meta demo_meta) (tm_tokens demo_tm)).
     get_replicas ''ks'' [5] demo_tm = snd e \<and>
     ring_successor (partitioner_hash ByteOrderedPartitioner [5]) (map fst (tm_tokens demo_tm)) (fst e)"
  by (rule get_replicas_next_token [OF demo_tm_reachable proper_ip_hosts demo_tm_partitioner
        demo_tm_facts(3,1,2)])

end
