(* ===== verification/Stream_Manager.thy ===== *)
theory Stream_Manager
  imports Prelude
begin

text \<open>
  \<open>stream_manager.hpp\<close>: the stream ids of a connection. A set bit of the words is a free
  id; the map of the pending requests holds the item of every id in use. The promise to
  the connection, that an id is handed out to one request at a time and that ids run out
  only when all are in use, is the locale \<open>id_allocator\<close>.
\<close>

section \<open>The manager\<close>

record 'a stream_manager =
  max_streams :: nat
  num_words :: nat
  sm_offset :: nat
  sm_words :: "u64 list"
  pending :: "nat \<rightharpoonup> 'a"

definition num_bytes_for_stream :: "int \<Rightarrow> nat" where
  "num_bytes_for_stream protocol_version = (if protocol_version \<ge> 3 then 2 else 1)"

definition sm_init :: "int \<Rightarrow> 'a stream_manager" where
  "sm_init protocol_version =
     (let m = 2 ^ (num_bytes_for_stream protocol_version * 8 - 1)
      in \<lparr>max_streams = m, num_words = m div 64, sm_offset = 0,
          sm_words = replicate (m div 64) (- 1), pending = Map.empty\<rparr>)"

text \<open>The least set bit of a word that is not zero.\<close>

definition count_trailing_zeros :: "u64 \<Rightarrow> nat" where
  "count_trailing_zeros w = length (takeWhile (\<lambda>i. \<not> bit w i) [0..<64])"

definition get_and_set_first_available_stream :: "nat \<Rightarrow> 'a stream_manager \<Rightarrow> nat option \<times> 'a stream_manager" where
  "get_and_set_first_available_stream index sm =
     (let w = sm_words sm ! index in
      if w = 0 then (None, sm)
      else let stream = count_trailing_zeros w
           in (Some stream, sm\<lparr>sm_words := (sm_words sm)[index := w XOR push_bit stream 1]\<rparr>))"

text \<open>The loop over the words, from the word at the offset on.\<close>

fun acquire_loop :: "nat \<Rightarrow> nat \<Rightarrow> nat \<Rightarrow> 'a stream_manager \<Rightarrow> nat option \<times> 'a stream_manager" where
  "acquire_loop offset i 0 sm = (None, sm)"
| "acquire_loop offset i (Suc n) sm =
     (let index = (i + offset) mod num_words sm in
      case get_and_set_first_available_stream index sm of
        (Some stream, sm) \<Rightarrow> (Some (stream + 64 * index), sm)
      | (None, sm) \<Rightarrow> acquire_loop offset (i + 1) n sm)"

text \<open>
  The counter of \<open>offset_\<close> wraps at \<open>2 ^ 64\<close>, which the number of words divides, so that the
  index is the same with an unbounded counter.
\<close>

definition acquire_stream :: "'a stream_manager \<Rightarrow> nat option \<times> 'a stream_manager" where
  "acquire_stream sm =
     acquire_loop (sm_offset sm) 0 (num_words sm) (sm\<lparr>sm_offset := sm_offset sm + 1\<rparr>)"

text \<open>\<open>None\<close> is the result \<open>-1\<close>.\<close>

definition acquire :: "'a \<Rightarrow> 'a stream_manager \<Rightarrow> nat option \<times> 'a stream_manager" where
  "acquire item sm =
     (case acquire_stream sm of
        (None, sm) \<Rightarrow> (None, sm)
      | (Some stream, sm) \<Rightarrow> (Some stream, sm\<lparr>pending := (pending sm)(stream \<mapsto> item)\<rparr>))"

text \<open>The assertion that the id is in use is the result \<open>None\<close>.\<close>

definition release_stream :: "nat \<Rightarrow> 'a stream_manager \<Rightarrow> 'a stream_manager option" where
  "release_stream stream sm =
     (let w = sm_words sm ! (stream div 64) in
      if w AND push_bit (stream mod 64) 1 = 0 then
        Some (sm\<lparr>sm_words := (sm_words sm)[stream div 64 := w OR push_bit (stream mod 64) 1]\<rparr>)
      else None)"

definition release :: "nat \<Rightarrow> 'a stream_manager \<Rightarrow> 'a stream_manager option" where
  "release stream sm =
     (if stream < max_streams sm then
        release_stream stream (sm\<lparr>pending := (pending sm)(stream := None)\<rparr>)
      else None)"

definition get_pending_and_release :: "nat \<Rightarrow> 'a stream_manager \<Rightarrow> ('a option \<times> 'a stream_manager) option" where
  "get_pending_and_release stream sm =
     (case pending sm stream of
        None \<Rightarrow> Some (None, sm)
      | Some x \<Rightarrow>
          (case release_stream stream (sm\<lparr>pending := (pending sm)(stream := None)\<rparr>) of
             None \<Rightarrow> None
           | Some sm \<Rightarrow> Some (Some x, sm)))"

definition pending_streams :: "'a stream_manager \<Rightarrow> nat" where
  "pending_streams sm = card (dom (pending sm))"

definition available_streams :: "'a stream_manager \<Rightarrow> nat" where
  "available_streams sm = max_streams sm - pending_streams sm"

section \<open>The promise of an id allocator\<close>

locale id_allocator =
  fixes inv :: "'s \<Rightarrow> bool"
    and used :: "'s \<Rightarrow> nat \<rightharpoonup> 'a"
    and capacity :: "'s \<Rightarrow> nat"
    and alloc :: "'a \<Rightarrow> 's \<Rightarrow> nat option \<times> 's"
    and free :: "nat \<Rightarrow> 's \<Rightarrow> ('a option \<times> 's) option"
  assumes used_bound: "inv s \<Longrightarrow> dom (used s) \<subseteq> {..<capacity s}"
    and alloc_some: "inv s \<Longrightarrow> alloc x s = (Some i, s') \<Longrightarrow>
        inv s' \<and> capacity s' = capacity s \<and> used s i = None \<and> used s' = (used s)(i \<mapsto> x)"
    and alloc_none: "inv s \<Longrightarrow> alloc x s = (None, s') \<Longrightarrow>
        inv s' \<and> capacity s' = capacity s \<and> used s' = used s \<and> dom (used s) = {..<capacity s}"
    and free_used: "inv s \<Longrightarrow>
        \<exists>s'. free i s = Some (used s i, s') \<and> inv s' \<and> capacity s' = capacity s \<and>
             used s' = (used s)(i := None)"
begin

text \<open>An id is free to hand out as long as fewer requests are pending than there are ids.\<close>

lemma alloc_succeeds:
  assumes "inv s" and "card (dom (used s)) < capacity s"
  shows "\<exists>i s'. alloc x s = (Some i, s')"
proof (cases "alloc x s")
  case (Pair r s')
  show ?thesis
  proof (cases r)
    case None
    with Pair have "dom (used s) = {..<capacity s}" using alloc_none [OF assms(1)] by blast
    with assms(2) show ?thesis by simp
  qed (use Pair in blast)
qed

text \<open>The item comes back under its id, and only once, whatever else was allocated.\<close>

lemma alloc_free:
  assumes "inv s" and "alloc x s = (Some i, s1)" and "inv s2"
    and "used s2 i = used s1 i"
  shows "\<exists>s3. free i s2 = Some (Some x, s3) \<and> used s3 i = None"
proof -
  have "used s1 i = Some x" using alloc_some [OF assms(1,2)] by simp
  with free_used [OF assms(3), of i] assms(4) show ?thesis by auto
qed

end

section \<open>The manager keeps the promise\<close>

definition sm_inv :: "'a stream_manager \<Rightarrow> bool" where
  "sm_inv sm \<longleftrightarrow>
     0 < num_words sm \<and> max_streams sm = 64 * num_words sm \<and> length (sm_words sm) = num_words sm \<and>
     dom (pending sm) \<subseteq> {..<max_streams sm} \<and>
     (\<forall>s < max_streams sm. bit (sm_words sm ! (s div 64)) (s mod 64) \<longleftrightarrow> pending sm s = None)"

lemma sm_inv_init: "sm_inv (sm_init v)"
  by (auto simp: sm_inv_def sm_init_def Let_def num_bytes_for_stream_def)

lemma count_trailing_zeros_spec:
  assumes "w \<noteq> 0"
  shows "count_trailing_zeros w < 64 \<and> bit w (count_trailing_zeros w)"
proof -
  define P where "P = (\<lambda>i. \<not> bit w i)"
  obtain n where "bit w n" using assms by (metis bit_eqI bit_0_eq bot_apply bot_bool_def)
  moreover from this have "n < 64" using bit_imp_le_length [of w n] by simp
  ultimately have "\<exists>i \<in> set [0..<64]. \<not> P i" by (auto simp: P_def)
  then have "length (takeWhile P [0..<64]) < length [0..<64]"
    by (metis P_def length_takeWhile_le nat_less_le takeWhile_eq_all_conv takeWhile_eq_take take_all_iff order_refl)
  then show ?thesis
    using nth_length_takeWhile [of P "[0..<64]"] by (simp add: count_trailing_zeros_def P_def)
qed


text \<open>
  The bits of the words, as one predicate on ids; flipping the bit of an id changes that
  id only.
\<close>

definition free_bit :: "u64 list \<Rightarrow> nat \<Rightarrow> bool" where
  "free_bit ws s = bit (ws ! (s div 64)) (s mod 64)"

lemma bit_flip:
  assumes "k < 64" and "n < 64"
  shows "bit (w XOR 2 ^ k :: u64) n \<longleftrightarrow> bit w n \<noteq> (n = k)"
    and "bit (w OR 2 ^ k :: u64) n \<longleftrightarrow> bit w n \<or> n = k"
  using assms by (auto simp: bit_simps)

lemma and_bit_0: "k < 64 \<Longrightarrow> w AND 2 ^ k = (0 :: u64) \<longleftrightarrow> \<not> bit w k"
proof
  assume k: "k < 64" and "w AND 2 ^ k = 0"
  then have "bit (w AND 2 ^ k) k = bit (0 :: u64) k" by simp
  with k show "\<not> bit w k" by (simp add: bit_simps)
next
  assume "k < 64" and "\<not> bit w k"
  then show "w AND 2 ^ k = 0" by (intro bit_word_eqI) (auto simp: bit_simps)
qed

lemma div_mod_64: "s div 64 = t div 64 \<Longrightarrow> s mod 64 = t mod 64 \<Longrightarrow> s = (t :: nat)"
  by (metis div_mult_mod_eq)

lemma free_bit_flip:
  assumes "t div 64 < length ws" and "s div 64 < length ws"
  shows "free_bit (ws[t div 64 := ws ! (t div 64) XOR push_bit (t mod 64) 1]) s \<longleftrightarrow> free_bit ws s \<noteq> (s = t)"
    and "free_bit (ws[t div 64 := ws ! (t div 64) OR push_bit (t mod 64) 1]) s \<longleftrightarrow> free_bit ws s \<or> s = t"
  using assms div_mod_64 [of s t]
  by (auto simp: free_bit_def nth_list_update bit_flip)

lemma get_and_set_spec:
  assumes "sm_inv sm" and "index < num_words sm"
  shows "(case get_and_set_first_available_stream index sm of
            (None, sm') \<Rightarrow> sm' = sm \<and> (\<forall>s < max_streams sm. s div 64 = index \<longrightarrow> pending sm s \<noteq> None)
          | (Some k, sm') \<Rightarrow> k < 64 \<and> pending sm (64 * index + k) = None \<and>
              sm' = sm\<lparr>sm_words := (sm_words sm)[index := sm_words sm ! index XOR push_bit k 1]\<rparr>)"
proof (cases "sm_words sm ! index = 0")
  case True
  have "pending sm s \<noteq> None" if "s < max_streams sm" "s div 64 = index" for s
  proof -
    have "bit (sm_words sm ! index) (s mod 64) \<longleftrightarrow> pending sm s = None"
      using assms(1) that unfolding sm_inv_def by blast
    then show ?thesis by (simp add: True)
  qed
  then show ?thesis by (simp add: get_and_set_first_available_stream_def True)
next
  case False
  note c = count_trailing_zeros_spec [OF False]
  define k where "k = count_trailing_zeros (sm_words sm ! index)"
  have k: "k < 64" "bit (sm_words sm ! index) k" using c by (simp_all add: k_def)
  have "64 * index + k < max_streams sm" using assms k(1) by (auto simp: sm_inv_def)
  moreover have "(64 * index + k) div 64 = index" "(64 * index + k) mod 64 = k" using k(1) by simp_all
  ultimately have "pending sm (64 * index + k) = None"
    using assms(1) k(2) unfolding sm_inv_def by metis
  then show ?thesis
    using False k(1) by (simp add: get_and_set_first_available_stream_def Let_def k_def [symmetric])
qed

lemma acquire_loop_spec:
  "sm_inv sm \<Longrightarrow>
   (case acquire_loop offset i n sm of
      (None, sm') \<Rightarrow> sm' = sm \<and>
        (\<forall>j < n. \<forall>s < max_streams sm. s div 64 = (i + j + offset) mod num_words sm \<longrightarrow> pending sm s \<noteq> None)
    | (Some t, sm') \<Rightarrow> t < max_streams sm \<and> pending sm t = None \<and>
        sm' = sm\<lparr>sm_words := (sm_words sm)[t div 64 := sm_words sm ! (t div 64) XOR push_bit (t mod 64) 1]\<rparr>)"
proof (induction n arbitrary: i)
  case 0
  then show ?case by simp
next
  case (Suc n)
  define index where "index = (i + offset) mod num_words sm"
  have idx: "index < num_words sm" using Suc.prems by (simp add: index_def sm_inv_def)
  note g = get_and_set_spec [OF Suc.prems idx]
  obtain r sm1 where r: "get_and_set_first_available_stream index sm = (r, sm1)" by force
  show ?case
  proof (cases r)
    case (Some k)
    with g r have k: "k < 64" "pending sm (64 * index + k) = None"
      "sm1 = sm\<lparr>sm_words := (sm_words sm)[index := sm_words sm ! index XOR push_bit k 1]\<rparr>"
      by simp_all
    have "acquire_loop offset i (Suc n) sm = (Some (k + 64 * index), sm1)"
      by (simp add: index_def [symmetric] Let_def r Some)
    moreover have "(k + 64 * index) div 64 = index" "(k + 64 * index) mod 64 = k" using k(1) by simp_all
    moreover have "k + 64 * index < max_streams sm"
      using k(1) idx Suc.prems by (simp add: sm_inv_def)
    ultimately show ?thesis using k by (simp add: add.commute)
  next
    case None
    with g r have n: "sm1 = sm" "\<forall>s < max_streams sm. s div 64 = index \<longrightarrow> pending sm s \<noteq> None"
      by simp_all
    have e: "acquire_loop offset i (Suc n) sm = acquire_loop offset (i + 1) n sm"
      using None r n(1) by (simp add: index_def [symmetric] Let_def)
    have later: "\<forall>j < Suc n. \<forall>s < max_streams sm. s div 64 = (i + j + offset) mod num_words sm \<longrightarrow> pending sm s \<noteq> None"
      if "\<forall>j < n. \<forall>s < max_streams sm. s div 64 = (i + 1 + j + offset) mod num_words sm \<longrightarrow> pending sm s \<noteq> None"
    proof (intro allI impI)
      fix j s assume "j < Suc n" and s: "s < max_streams sm" "s div 64 = (i + j + offset) mod num_words sm"
      then show "pending sm s \<noteq> None"
        using that n(2) by (cases j) (auto simp: index_def)
    qed
    show ?thesis
      using Suc.IH [OF Suc.prems, of "i + 1"] later unfolding e
      by (auto split: prod.splits option.splits)
  qed
qed

lemma acquire_spec:
  assumes "sm_inv sm"
  shows "(case acquire x sm of
            (None, sm') \<Rightarrow> sm' = sm\<lparr>sm_offset := sm_offset sm + 1\<rparr> \<and> dom (pending sm) = {..<max_streams sm}
          | (Some t, sm') \<Rightarrow> t < max_streams sm \<and> pending sm t = None \<and> sm_inv sm' \<and>
              max_streams sm' = max_streams sm \<and> pending sm' = (pending sm)(t \<mapsto> x))"
proof -
  define sm0 where "sm0 = sm\<lparr>sm_offset := sm_offset sm + 1\<rparr>"
  have inv: "sm_inv sm0" using assms by (auto simp: sm_inv_def sm0_def)
  note l = acquire_loop_spec [where offset = "sm_offset sm" and i = 0 and n = "num_words sm", OF inv]
  obtain r sm1 where r: "acquire_loop (sm_offset sm) 0 (num_words sm) sm0 = (r, sm1)" by force
  show ?thesis
  proof (cases r)
    case None
    have full: "pending sm s \<noteq> None" if "s < max_streams sm" for s
    proof -
      have w: "0 < num_words sm" "max_streams sm = 64 * num_words sm" using assms by (auto simp: sm_inv_def)
      then have sd: "s div 64 < num_words sm" using that by auto
      define j where "j = (s div 64 + (num_words sm - sm_offset sm mod num_words sm)) mod num_words sm"
      have "(j + sm_offset sm) mod num_words sm =
          (s div 64 + (num_words sm - sm_offset sm mod num_words sm) + sm_offset sm mod num_words sm) mod num_words sm"
        unfolding j_def by (metis mod_add_eq mod_mod_trivial)
      also have "s div 64 + (num_words sm - sm_offset sm mod num_words sm) + sm_offset sm mod num_words sm =
          s div 64 + num_words sm"
        using w(1) mod_less_divisor [of "num_words sm" "sm_offset sm"] by linarith
      also have "\<dots> mod num_words sm = s div 64" using sd by simp
      finally have "s div 64 = (0 + j + sm_offset sm) mod num_words sm" by simp
      moreover have "j < num_words sm" using w(1) by (simp add: j_def)
      ultimately show ?thesis using l r None that by (auto simp: sm0_def)
    qed
    have "dom (pending sm) = {..<max_streams sm}"
      using full assms by (auto simp: sm_inv_def)
    moreover have "acquire x sm = (None, sm0)"
      using l unfolding acquire_def acquire_stream_def sm0_def [symmetric] r None by simp
    ultimately show ?thesis by (simp add: sm0_def)
  next
    case (Some t)
    have t: "t < max_streams sm" "pending sm t = None"
      "sm1 = sm0\<lparr>sm_words := (sm_words sm)[t div 64 := sm_words sm ! (t div 64) XOR push_bit (t mod 64) 1]\<rparr>"
      using l r Some by (simp_all add: sm0_def)
    define sm2 where "sm2 = sm1\<lparr>pending := (pending sm1)(t \<mapsto> x)\<rparr>"
    have a: "acquire x sm = (Some t, sm2)"
      unfolding acquire_def acquire_stream_def sm0_def [symmetric] r Some by (simp add: sm2_def)
    have fb: "\<forall>s < max_streams sm. free_bit (sm_words sm) s \<longleftrightarrow> pending sm s = None"
      using assms by (simp add: sm_inv_def free_bit_def)
    have len: "s div 64 < length (sm_words sm)" if "s < max_streams sm" for s
      using that assms by (auto simp: sm_inv_def)
    have "\<forall>s < max_streams sm. free_bit (sm_words sm2) s \<longleftrightarrow> pending sm2 s = None"
      using fb t(1,2) free_bit_flip(1) [OF len len] by (auto simp: sm2_def t(3) sm0_def)
    then have "sm_inv sm2"
      using assms t(1) by (auto simp: sm_inv_def sm2_def t(3) sm0_def free_bit_def)
    then show ?thesis using t by (simp add: a sm2_def sm0_def)
  qed
qed

lemma release_stream_spec:
  assumes "sm_inv sm" and "pending sm t \<noteq> None"
  shows "\<exists>sm'. release_stream t (sm\<lparr>pending := (pending sm)(t := None)\<rparr>) = Some sm' \<and> sm_inv sm' \<and>
           max_streams sm' = max_streams sm \<and> pending sm' = (pending sm)(t := None)"
proof -
  have t: "t < max_streams sm" using assms by (auto simp: sm_inv_def)
  have len: "s div 64 < length (sm_words sm)" if "s < max_streams sm" for s
    using that assms(1) by (auto simp: sm_inv_def)
  have fb: "\<forall>s < max_streams sm. free_bit (sm_words sm) s \<longleftrightarrow> pending sm s = None"
    using assms(1) by (simp add: sm_inv_def free_bit_def)
  then have "sm_words sm ! (t div 64) AND push_bit (t mod 64) 1 = 0"
    using t assms(2) by (auto simp: and_bit_0 free_bit_def)
  moreover define sm' where "sm' = sm\<lparr>pending := (pending sm)(t := None),
      sm_words := (sm_words sm)[t div 64 := sm_words sm ! (t div 64) OR push_bit (t mod 64) 1]\<rparr>"
  ultimately have "release_stream t (sm\<lparr>pending := (pending sm)(t := None)\<rparr>) = Some sm'"
    by (simp add: release_stream_def Let_def)
  moreover have "\<forall>s < max_streams sm. free_bit (sm_words sm') s \<longleftrightarrow> pending sm' s = None"
    using fb free_bit_flip(2) [OF len len] t by (auto simp: sm'_def)
  then have "sm_inv sm'"
    using assms(1) by (auto simp: sm_inv_def sm'_def free_bit_def)
  ultimately show ?thesis by (simp add: sm'_def)
qed

interpretation streams: id_allocator sm_inv pending max_streams acquire get_pending_and_release
proof
  fix sm :: "'a stream_manager" and x i sm'
  assume inv: "sm_inv sm"
  show "dom (pending sm) \<subseteq> {..<max_streams sm}" using inv unfolding sm_inv_def by blast
  show "acquire x sm = (Some i, sm') \<Longrightarrow>
      sm_inv sm' \<and> max_streams sm' = max_streams sm \<and> pending sm i = None \<and> pending sm' = (pending sm)(i \<mapsto> x)"
    using acquire_spec [OF inv, of x] by simp
  show "acquire x sm = (None, sm') \<Longrightarrow>
      sm_inv sm' \<and> max_streams sm' = max_streams sm \<and> pending sm' = pending sm \<and> dom (pending sm) = {..<max_streams sm}"
    using acquire_spec [OF inv, of x] inv by (auto simp: sm_inv_def)
  show "\<exists>s'. get_pending_and_release i sm = Some (pending sm i, s') \<and> sm_inv s' \<and>
      max_streams s' = max_streams sm \<and> pending s' = (pending sm)(i := None)"
  proof (cases "pending sm i")
    case None
    then show ?thesis using inv by (simp add: get_pending_and_release_def fun_upd_idem)
  next
    case (Some y)
    then show ?thesis using release_stream_spec [OF inv, of i] by (auto simp: get_pending_and_release_def)
  qed
qed

text \<open>
  C34: A stream id is refused only when all ids of the protocol version are in use: as long as
  fewer requests are pending, \<open>acquire\<close> returns an id below the maximum that is not in use,
  records the request under it and keeps the bit words and the pending map in agreement.
\<close>

theorem acquire_fresh_stream:
  assumes "sm_inv sm" and "card (dom (pending sm)) < max_streams sm"
  shows "\<exists>t sm'. acquire x sm = (Some t, sm') \<and> t < max_streams sm \<and> pending sm t = None \<and>
           pending sm' = (pending sm)(t \<mapsto> x) \<and> sm_inv sm'"
proof -
  from streams.alloc_succeeds [OF assms] obtain t sm' where a: "acquire x sm = (Some t, sm')" by blast
  then show ?thesis using acquire_spec [OF assms(1), of x] by simp
qed

theorem acquire_fresh_stream_witness:
  "\<exists>t sm'. acquire (7 :: nat) (sm_init 3) = (Some t, sm') \<and> t < max_streams (sm_init 3 :: nat stream_manager) \<and>
     pending (sm_init 3 :: nat stream_manager) t = None \<and>
     pending sm' = (pending (sm_init 3))(t \<mapsto> 7) \<and> sm_inv sm'"
  by (rule acquire_fresh_stream [OF sm_inv_init]) (simp add: sm_init_def num_bytes_for_stream_def Let_def)

text \<open>
  The response with a stream id finds the request that acquired the id, whatever was
  acquired and released in between, and releases the id; the assertion of the release
  never fails.
\<close>

theorem response_finds_request:
  assumes "sm_inv sm" and "acquire x sm = (Some t, sm1)" and "sm_inv sm2"
    and "pending sm2 t = pending sm1 t"
  shows "\<exists>sm3. get_pending_and_release t sm2 = Some (Some x, sm3) \<and> pending sm3 t = None"
  using assms by (rule streams.alloc_free)

theorem response_finds_request_witness:
  "\<exists>t sm1 sm3. acquire (7 :: nat) (sm_init 3) = (Some t, sm1) \<and>
     get_pending_and_release t sm1 = Some (Some 7, sm3) \<and> pending sm3 t = None"
proof -
  have "card (dom (pending (sm_init 3 :: nat stream_manager))) < max_streams (sm_init 3 :: nat stream_manager)"
    by (simp add: sm_init_def num_bytes_for_stream_def Let_def)
  from streams.alloc_succeeds [OF sm_inv_init this] obtain t sm1
    where a: "acquire (7 :: nat) (sm_init 3) = (Some t, sm1)" by blast
  then have "sm_inv sm1" using streams.alloc_some [OF sm_inv_init a] by simp
  from response_finds_request [OF sm_inv_init a this refl] a show ?thesis by blast
qed

end
