(* ===== verification/Retry_Policy.thy ===== *)
theory Retry_Policy
  imports Prelude
begin

text \<open>
  \<open>retry_policy.hpp\<close> and \<open>retry_policy.cpp\<close>: what to do with a request after a read timeout,
  a write timeout or an unavailable error of the server. The contract the request handler
  rests on, that a request is sent at most once more, is the locale \<open>retry_once\<close>.
\<close>

section \<open>Consistencies and write types\<close>

text \<open>
  A consistency is the 16 bit number of the wire; \<open>ErrorResponse::consistency\<close> casts any such
  number to the enumeration.
\<close>

type_synonym consistency = u16

abbreviation CL_UNKNOWN :: consistency where "CL_UNKNOWN \<equiv> 0xFFFF"
abbreviation CL_ANY :: consistency where "CL_ANY \<equiv> 0"
abbreviation CL_ONE :: consistency where "CL_ONE \<equiv> 1"
abbreviation CL_TWO :: consistency where "CL_TWO \<equiv> 2"
abbreviation CL_THREE :: consistency where "CL_THREE \<equiv> 3"
abbreviation CL_QUORUM :: consistency where "CL_QUORUM \<equiv> 4"
abbreviation CL_ALL :: consistency where "CL_ALL \<equiv> 5"
abbreviation CL_SERIAL :: consistency where "CL_SERIAL \<equiv> 8"
abbreviation CL_LOCAL_SERIAL :: consistency where "CL_LOCAL_SERIAL \<equiv> 9"

datatype write_type =
    WT_UNKNOWN | WT_SIMPLE | WT_BATCH | WT_UNLOGGED_BATCH | WT_COUNTER | WT_BATCH_LOG | WT_CAS

section \<open>Decisions\<close>

datatype decision_type = RETURN_ERROR | RETRY | IGNORE

record retry_decision =
  decision_type :: decision_type
  retry_cl :: consistency
  retry_current_host :: bool

definition return_error :: retry_decision where
  "return_error = \<lparr>decision_type = RETURN_ERROR, retry_cl = CL_UNKNOWN, retry_current_host = False\<rparr>"

definition retry :: "consistency \<Rightarrow> retry_decision" where
  "retry cl = \<lparr>decision_type = RETRY, retry_cl = cl, retry_current_host = True\<rparr>"

definition retry_next_host :: "consistency \<Rightarrow> retry_decision" where
  "retry_next_host cl = \<lparr>decision_type = RETRY, retry_cl = cl, retry_current_host = False\<rparr>"

definition ignore :: retry_decision where
  "ignore = \<lparr>decision_type = IGNORE, retry_cl = CL_UNKNOWN, retry_current_host = False\<rparr>"

lemmas decision_defs = return_error_def retry_def retry_next_host_def ignore_def

definition max_likely_to_work :: "int \<Rightarrow> retry_decision" where
  "max_likely_to_work received =
     (if received \<ge> 3 then retry CL_THREE
      else if received = 2 then retry CL_TWO
      else if received = 1 then retry CL_ONE
      else return_error)"

section \<open>The policies\<close>

definition default_on_read_timeout :: "consistency \<Rightarrow> int \<Rightarrow> int \<Rightarrow> bool \<Rightarrow> int \<Rightarrow> retry_decision" where
  "default_on_read_timeout cl received required data_received num_retries =
     (if num_retries \<noteq> 0 then return_error
      else if received \<ge> required \<and> \<not> data_received then retry cl
      else return_error)"

definition default_on_write_timeout :: "consistency \<Rightarrow> int \<Rightarrow> int \<Rightarrow> write_type \<Rightarrow> int \<Rightarrow> retry_decision" where
  "default_on_write_timeout cl received required wt num_retries =
     (if num_retries \<noteq> 0 then return_error
      else if wt = WT_BATCH_LOG then retry cl
      else return_error)"

definition default_on_unavailable :: "consistency \<Rightarrow> int \<Rightarrow> int \<Rightarrow> int \<Rightarrow> retry_decision" where
  "default_on_unavailable cl required alive num_retries =
     (if num_retries = 0 then retry_next_host cl else return_error)"

definition downgrading_on_read_timeout :: "consistency \<Rightarrow> int \<Rightarrow> int \<Rightarrow> bool \<Rightarrow> int \<Rightarrow> retry_decision" where
  "downgrading_on_read_timeout cl received required data_received num_retries =
     (if num_retries \<noteq> 0 then return_error
      else if cl = CL_SERIAL \<or> cl = CL_LOCAL_SERIAL then return_error
      else if received < required then max_likely_to_work received
      else if \<not> data_received then retry cl
      else return_error)"

definition downgrading_on_write_timeout :: "consistency \<Rightarrow> int \<Rightarrow> int \<Rightarrow> write_type \<Rightarrow> int \<Rightarrow> retry_decision" where
  "downgrading_on_write_timeout cl received required wt num_retries =
     (if num_retries \<noteq> 0 then return_error
      else case wt of
          WT_SIMPLE \<Rightarrow> if received > 0 then ignore else return_error
        | WT_BATCH \<Rightarrow> if received > 0 then ignore else return_error
        | WT_UNLOGGED_BATCH \<Rightarrow> max_likely_to_work received
        | WT_BATCH_LOG \<Rightarrow> retry cl
        | _ \<Rightarrow> return_error)"

definition downgrading_on_unavailable :: "consistency \<Rightarrow> int \<Rightarrow> int \<Rightarrow> int \<Rightarrow> retry_decision" where
  "downgrading_on_unavailable cl required alive num_retries =
     (if num_retries \<noteq> 0 then return_error else max_likely_to_work alive)"

definition fallthrough_on_read_timeout :: "consistency \<Rightarrow> int \<Rightarrow> int \<Rightarrow> bool \<Rightarrow> int \<Rightarrow> retry_decision" where
  "fallthrough_on_read_timeout cl received required data_received num_retries = return_error"

definition fallthrough_on_write_timeout :: "consistency \<Rightarrow> int \<Rightarrow> int \<Rightarrow> write_type \<Rightarrow> int \<Rightarrow> retry_decision" where
  "fallthrough_on_write_timeout cl received required wt num_retries = return_error"

definition fallthrough_on_unavailable :: "consistency \<Rightarrow> int \<Rightarrow> int \<Rightarrow> int \<Rightarrow> retry_decision" where
  "fallthrough_on_unavailable cl required alive num_retries = return_error"

text \<open>
  The policy objects. The logging policy writes a line at INFO level when its child ignores
  the error or retries; the line holds the numbers of the error and the new consistency.
\<close>

datatype retry_policy = Default | Downgrading | Fallthrough | Logging retry_policy

datatype log_line =
    Ignoring string consistency int int "bool + write_type option" int
  | Retrying string consistency consistency int int "bool + write_type option" int

definition log_decision ::
    "string \<Rightarrow> consistency \<Rightarrow> int \<Rightarrow> int \<Rightarrow> bool + write_type option \<Rightarrow> int \<Rightarrow> retry_decision \<Rightarrow> log_line list" where
  "log_decision what cl required received info num_retries decision =
     (case decision_type decision of
        IGNORE \<Rightarrow> [Ignoring what cl required received info num_retries]
      | RETRY \<Rightarrow> [Retrying what (retry_cl decision) cl required received info num_retries]
      | RETURN_ERROR \<Rightarrow> [])"

fun on_read_timeout ::
    "retry_policy \<Rightarrow> consistency \<Rightarrow> int \<Rightarrow> int \<Rightarrow> bool \<Rightarrow> int \<Rightarrow> retry_decision \<times> log_line list" where
  "on_read_timeout Default cl received required data n = (default_on_read_timeout cl received required data n, [])"
| "on_read_timeout Downgrading cl received required data n = (downgrading_on_read_timeout cl received required data n, [])"
| "on_read_timeout Fallthrough cl received required data n = (fallthrough_on_read_timeout cl received required data n, [])"
| "on_read_timeout (Logging child) cl received required data n =
     (let (decision, log) = on_read_timeout child cl received required data n
      in (decision, log @ log_decision ''read timeout'' cl required received (Inl data) n decision))"

fun on_write_timeout ::
    "retry_policy \<Rightarrow> consistency \<Rightarrow> int \<Rightarrow> int \<Rightarrow> write_type \<Rightarrow> int \<Rightarrow> retry_decision \<times> log_line list" where
  "on_write_timeout Default cl received required wt n = (default_on_write_timeout cl received required wt n, [])"
| "on_write_timeout Downgrading cl received required wt n = (downgrading_on_write_timeout cl received required wt n, [])"
| "on_write_timeout Fallthrough cl received required wt n = (fallthrough_on_write_timeout cl received required wt n, [])"
| "on_write_timeout (Logging child) cl received required wt n =
     (let (decision, log) = on_write_timeout child cl received required wt n
      in (decision, log @ log_decision ''write timeout'' cl required received (Inr (Some wt)) n decision))"

fun on_unavailable ::
    "retry_policy \<Rightarrow> consistency \<Rightarrow> int \<Rightarrow> int \<Rightarrow> int \<Rightarrow> retry_decision \<times> log_line list" where
  "on_unavailable Default cl required alive n = (default_on_unavailable cl required alive n, [])"
| "on_unavailable Downgrading cl required alive n = (downgrading_on_unavailable cl required alive n, [])"
| "on_unavailable Fallthrough cl required alive n = (fallthrough_on_unavailable cl required alive n, [])"
| "on_unavailable (Logging child) cl required alive n =
     (let (decision, log) = on_unavailable child cl required alive n
      in (decision, log @ log_decision ''unavailable error'' cl required alive (Inr None) n decision))"

text \<open>\<open>cass_retry_policy_logging_new\<close>: a logging policy is not wrapped again (\<open>NULL\<close>).\<close>

definition logging_new :: "retry_policy \<Rightarrow> retry_policy option" where
  "logging_new child = (case child of Logging _ \<Rightarrow> None | _ \<Rightarrow> Some (Logging child))"

section \<open>At most one more attempt\<close>

text \<open>
  The errors a policy is asked about, and the promise about its answers: a request that was
  retried, or whose error was decided before, fails.
\<close>

datatype server_error =
    ReadTimeout consistency int int bool
  | WriteTimeout consistency int int write_type
  | Unavailable consistency int int

fun decide :: "retry_policy \<Rightarrow> server_error \<Rightarrow> int \<Rightarrow> retry_decision" where
  "decide p (ReadTimeout cl received required data) n = fst (on_read_timeout p cl received required data n)"
| "decide p (WriteTimeout cl received required wt) n = fst (on_write_timeout p cl received required wt n)"
| "decide p (Unavailable cl required alive) n = fst (on_unavailable p cl required alive n)"

locale retry_once =
  fixes decision :: "server_error \<Rightarrow> int \<Rightarrow> retry_decision"
  assumes gives_up: "n \<noteq> 0 \<Longrightarrow> decision e n = return_error"
begin

text \<open>
  The number of times a request is sent when the server answers it with the errors of a
  list: the request handler counts the decisions it took.
\<close>

fun attempts :: "int \<Rightarrow> server_error list \<Rightarrow> nat" where
  "attempts n [] = 1"
| "attempts n (e # es) =
     (if decision_type (decision e n) = RETRY then Suc (attempts (n + 1) es) else 1)"

lemma attempts_after_retry: "n \<noteq> 0 \<Longrightarrow> attempts n es = 1"
  by (cases es) (simp_all add: gives_up return_error_def)

lemma attempts_bound: "attempts 0 es \<le> 2"
  by (cases es) (simp_all add: attempts_after_retry)

end

lemma policies_give_up:
  "n \<noteq> 0 \<Longrightarrow> fst (on_read_timeout p cl received required data n) = return_error"
  "n \<noteq> 0 \<Longrightarrow> fst (on_write_timeout p cl received required wt n) = return_error"
  "n \<noteq> 0 \<Longrightarrow> fst (on_unavailable p cl required alive n) = return_error"
  by (induction p)
    (simp_all add: default_on_read_timeout_def default_on_write_timeout_def default_on_unavailable_def
      downgrading_on_read_timeout_def downgrading_on_write_timeout_def downgrading_on_unavailable_def
      fallthrough_on_read_timeout_def fallthrough_on_write_timeout_def fallthrough_on_unavailable_def
      Let_def split_def)

interpretation policy: retry_once "decide p" for p
proof
  show "decide p e n = return_error" if "n \<noteq> 0" for e n
    using that by (cases e) (simp_all add: policies_give_up)
qed

text \<open>The decisions of any policy send a request at most once more.\<close>

lemma at_most_one_retry: "policy.attempts p 0 es \<le> 2"
  by (rule policy.attempts_bound)

section \<open>What a retry asks for\<close>

text \<open>The replicas that must answer at a consistency the policies downgrade to.\<close>

definition replicas_needed :: "consistency \<Rightarrow> int" where
  "replicas_needed cl = (if cl = CL_ONE then 1 else if cl = CL_TWO then 2 else 3)"

lemma max_likely_to_work_decisions:
  "decision_type (max_likely_to_work r) \<noteq> IGNORE"
  "decision_type (max_likely_to_work r) = RETRY \<longleftrightarrow> 1 \<le> r"
  "1 \<le> r \<Longrightarrow> retry_cl (max_likely_to_work r) = CL_ONE \<or> retry_cl (max_likely_to_work r) = CL_TWO \<or>
     retry_cl (max_likely_to_work r) = CL_THREE"
  "1 \<le> r \<Longrightarrow> replicas_needed (retry_cl (max_likely_to_work r)) = min 3 r"
  by (auto simp: max_likely_to_work_def decision_defs replicas_needed_def)

text \<open>The number of replicas the error reports as having answered or being alive.\<close>

fun replicas_heard :: "server_error \<Rightarrow> int" where
  "replicas_heard (ReadTimeout cl received required data) = received"
| "replicas_heard (WriteTimeout cl received required wt) = received"
| "replicas_heard (Unavailable cl required alive) = alive"

fun error_cl :: "server_error \<Rightarrow> consistency" where
  "error_cl (ReadTimeout cl received required data) = cl"
| "error_cl (WriteTimeout cl received required wt) = cl"
| "error_cl (Unavailable cl required alive) = cl"

lemma downgrading_decides:
  assumes "decision_type (decide Downgrading e n) = RETRY"
  shows "retry_cl (decide Downgrading e n) = error_cl e \<or>
     (retry_cl (decide Downgrading e n) \<in> {CL_ONE, CL_TWO, CL_THREE} \<and> 1 \<le> replicas_heard e \<and>
      replicas_needed (retry_cl (decide Downgrading e n)) = min 3 (replicas_heard e))"
  using assms max_likely_to_work_decisions(3) [of "replicas_heard e"]
  by (cases e)
    (auto simp: downgrading_on_read_timeout_def downgrading_on_write_timeout_def
      downgrading_on_unavailable_def max_likely_to_work_decisions(1,2,4)
      return_error_def retry_def ignore_def split: if_splits write_type.splits)

lemma logging_decides: "decide (Logging p) e n = decide p e n"
  by (cases e) (simp_all add: Let_def split_def)

text \<open>
  The downgrading policy, with or without logging, retries at the consistency that
  failed or at \<open>ONE\<close>, \<open>TWO\<close> or \<open>THREE\<close>, whichever needs as many of the replicas that were
  heard of as possible, and never at a consistency that needs more than those.
\<close>

theorem downgrade_to_heard_replicas:
  assumes "decision_type (decide p e n) = RETRY" and "p = Downgrading \<or> p = Logging Downgrading"
    and "retry_cl (decide p e n) \<noteq> error_cl e"
  shows "retry_cl (decide p e n) \<in> {CL_ONE, CL_TWO, CL_THREE} \<and> 1 \<le> replicas_heard e \<and>
         replicas_needed (retry_cl (decide p e n)) = min 3 (replicas_heard e)"
  using assms downgrading_decides [of e n] by (auto simp: logging_decides)

theorem downgrade_to_heard_replicas_witness:
  "retry_cl (decide Downgrading (ReadTimeout CL_QUORUM 2 3 False) 0) \<in> {CL_ONE, CL_TWO, CL_THREE} \<and>
   1 \<le> replicas_heard (ReadTimeout CL_QUORUM 2 3 False) \<and>
   replicas_needed (retry_cl (decide Downgrading (ReadTimeout CL_QUORUM 2 3 False) 0)) = min 3 2"
  using downgrade_to_heard_replicas [of Downgrading "ReadTimeout CL_QUORUM 2 3 False" 0]
  by (simp add: downgrading_on_read_timeout_def max_likely_to_work_def decision_defs)

text \<open>
  Under the default policy an error is retried at its own consistency only: after a read
  timeout only when enough replicas answered and the data was missing, after a write
  timeout only for the write of the batch log, and after an unavailable error on the next
  host; otherwise the error is returned, and it is never ignored.
\<close>

theorem default_retries_exactly:
  "decide Default e n =
     (if n = 0 \<and> (case e of ReadTimeout cl received required data \<Rightarrow> required \<le> received \<and> \<not> data
                  | WriteTimeout cl received required wt \<Rightarrow> wt = WT_BATCH_LOG
                  | Unavailable cl required alive \<Rightarrow> True)
      then \<lparr>decision_type = RETRY, retry_cl = error_cl e,
            retry_current_host = (case e of Unavailable _ _ _ \<Rightarrow> False | _ \<Rightarrow> True)\<rparr>
      else return_error)"
  by (cases e) (auto simp: default_on_read_timeout_def default_on_write_timeout_def
      default_on_unavailable_def decision_defs)

text \<open>
  A policy made by the constructors of the interface logs at most once for an error.
\<close>

inductive made :: "retry_policy \<Rightarrow> bool" where
  "made Default"
| "made Downgrading"
| "made Fallthrough"
| "made p \<Longrightarrow> logging_new p = Some q \<Longrightarrow> made q"

inductive_cases made_LoggingE: "made (Logging p)"

lemma made_not_nested: "made p \<Longrightarrow> p = Logging q \<Longrightarrow> q \<in> {Default, Downgrading, Fallthrough}"
  by (induction arbitrary: q rule: made.induct) (auto simp: logging_new_def split: retry_policy.splits)

lemma length_log_decision: "length (log_decision w cl a b i n d) \<le> 1"
  by (simp add: log_decision_def split: decision_type.splits)

text \<open>
  A policy made by the public constructors writes at most one log line for an error, and
  the logging changes no decision.
\<close>

theorem logging_logs_once:
  assumes "made p"
  shows "length (snd (on_read_timeout p cl received required data n)) \<le> 1 \<and>
         length (snd (on_write_timeout p cl received required wt n)) \<le> 1 \<and>
         length (snd (on_unavailable p cl required received n)) \<le> 1 \<and>
         (\<forall>q. p = Logging q \<longrightarrow> decide p e n = decide q e n)"
proof (cases p)
  case (Logging q)
  have "q \<in> {Default, Downgrading, Fallthrough}" by (rule made_not_nested [OF assms Logging])
  then show ?thesis unfolding Logging logging_decides
    by (auto simp: Let_def split_def length_log_decision simp del: One_nat_def)
qed simp_all

theorem logging_logs_once_witness:
  "length (snd (on_read_timeout (Logging Downgrading) CL_QUORUM 2 3 False 0)) \<le> 1 \<and>
   length (snd (on_write_timeout (Logging Downgrading) CL_QUORUM 2 3 WT_SIMPLE 0)) \<le> 1 \<and>
   length (snd (on_unavailable (Logging Downgrading) CL_QUORUM 3 2 0)) \<le> 1 \<and>
   decide (Logging Downgrading) (Unavailable CL_QUORUM 3 2) 0 = decide Downgrading (Unavailable CL_QUORUM 3 2) 0"
proof -
  have "made (Logging Downgrading)"
    by (rule made.intros(4) [OF made.intros(2)]) (simp add: logging_new_def)
  from logging_logs_once [OF this, where cl = CL_QUORUM and received = 2 and required = 3 and data = False
      and wt = WT_SIMPLE and n = 0 and e = "Unavailable CL_QUORUM 3 2"]
  show ?thesis by blast
qed

end
