(* ===== verification/Timestamp_Generator.thy ===== *)
theory Timestamp_Generator
  imports Main "HOL-Library.Signed_Division"
begin

text \<open>
  \<open>timestamp_generator.hpp\<close> and \<open>timestamp_generator.cpp\<close>: the client side timestamps. The
  compare and exchange loop of \<open>next\<close> is a step relation on the shared value and the
  threads; the clock is arbitrary at every step and may go backwards.
\<close>

section \<open>The next value\<close>

text \<open>
  Division and remainder of C++ truncate (\<open>sdiv\<close>, \<open>smod\<close>). The argument \<open>now\<close> is the result of
  \<open>get_time_since_epoch_ms\<close>; the 64 bit result does not overflow for the clocks of
  \<open>compute_next_in_range\<close>.
\<close>

definition compute_next :: "int \<Rightarrow> int \<Rightarrow> int" where
  "compute_next prev now =
     (let millis = prev sdiv 1000;
          counter = prev smod 1000
      in if millis \<ge> now then
           (if counter = 999 then 1000 * millis + counter
            else 1000 * millis + (counter + 1))
         else 1000 * now + 0)"

definition server_side_next :: int where
  "server_side_next = - (2 ^ 63)"

lemma compute_next_nonneg:
  "0 \<le> prev \<Longrightarrow> compute_next prev now =
     (if prev div 1000 \<ge> now then (if prev mod 1000 = 999 then prev else prev + 1) else 1000 * now)"
proof (cases "prev = 0")
  case False
  assume "0 \<le> prev"
  with False have "prev sdiv 1000 = prev div 1000" and "prev smod 1000 = prev mod 1000"
    by (simp_all add: signed_divide_int_def signed_modulo_int_def)
  moreover have "1000 * (prev div 1000) + 999 = prev" if "prev mod 1000 = 999"
    using that mult_div_mod_eq [of 1000 prev] by simp
  ultimately show ?thesis by (simp add: compute_next_def Let_def)
qed (simp add: compute_next_def Let_def)

lemma compute_next_grows:
  assumes "0 \<le> prev"
  shows "prev \<le> compute_next prev now \<and> (compute_next prev now = prev \<longrightarrow> prev mod 1000 = 999)"
  unfolding compute_next_nonneg [OF assms] using assms by (auto split: if_splits)

text \<open>The greatest number of milliseconds whose microseconds fit in 63 bits.\<close>

definition max_millis :: int where
  "max_millis = (2 ^ 63 - 1) div 1000"

lemma compute_next_in_range:
  assumes "0 \<le> prev" and "prev < 1000 * max_millis" and "now < max_millis"
  shows "0 \<le> compute_next prev now \<and> compute_next prev now < 1000 * max_millis"
proof -
  have "prev + 1 < 1000 * max_millis" if "prev mod 1000 \<noteq> 999"
  proof -
    define q r where "q = prev div 1000" and "r = prev mod 1000"
    have "1000 * q + r = prev" "0 \<le> r" "r < 1000" "r \<noteq> 999" using that by (simp_all add: q_def r_def)
    moreover from this assms(2) have "q < max_millis" by linarith
    ultimately show ?thesis by linarith
  qed
  then show ?thesis unfolding compute_next_nonneg [OF assms(1)] using assms by (auto split: if_splits)
qed

section \<open>The loop of the threads\<close>

text \<open>
  A thread in \<open>next\<close> has read the shared value, or has also computed the next one; the
  exchange succeeds when the shared value still is the one it read, and starts over
  otherwise. The trace holds the results in the order of the exchanges.
\<close>

datatype generator_local = Idle | Loaded int | Computed int int

record generator =
  gen_last :: int
  gen_local :: "nat \<Rightarrow> generator_local"
  gen_trace :: "int list"

definition generator_init :: generator where
  "generator_init = \<lparr>gen_last = 0, gen_local = (\<lambda>_. Idle), gen_trace = []\<rparr>"

definition load_last :: "nat \<Rightarrow> generator \<Rightarrow> generator" where
  "load_last t g = g\<lparr>gen_local := (gen_local g)(t := Loaded (gen_last g))\<rparr>"

definition compare_exchange :: "nat \<Rightarrow> int \<Rightarrow> int \<Rightarrow> generator \<Rightarrow> generator" where
  "compare_exchange t prev next g =
     (if gen_last g = prev then
        g\<lparr>gen_last := next, gen_local := (gen_local g)(t := Idle), gen_trace := gen_trace g @ [next]\<rparr>
      else g\<lparr>gen_local := (gen_local g)(t := Idle)\<rparr>)"

inductive next_step :: "generator \<Rightarrow> generator \<Rightarrow> bool" where
  load: "gen_local g t = Idle \<Longrightarrow> next_step g (load_last t g)"
| compute: "gen_local g t = Loaded prev \<Longrightarrow>
    next_step g (g\<lparr>gen_local := (gen_local g)(t := Computed prev (compute_next prev now))\<rparr>)"
| exchange: "gen_local g t = Computed prev next \<Longrightarrow> next_step g (compare_exchange t prev next g)"

inductive generated :: "generator \<Rightarrow> bool" where
  init: "generated generator_init"
| step: "generated g \<Longrightarrow> next_step g g' \<Longrightarrow> generated g'"

inductive_cases next_stepE: "next_step g g'"

text \<open>
  The invariant: the trace never goes down, repeats a value only with an exhausted counter,
  and ends with the shared value; what a thread computed is the next value of what it read.
\<close>

definition ts_before :: "int \<Rightarrow> int \<Rightarrow> bool" where
  "ts_before a b \<longleftrightarrow> a < b \<or> (a = b \<and> a mod 1000 = 999)"

definition generator_inv :: "generator \<Rightarrow> bool" where
  "generator_inv g \<longleftrightarrow>
     0 \<le> gen_last g \<and> sorted_wrt ts_before (gen_trace g) \<and>
     (\<forall>x \<in> set (gen_trace g). x \<le> gen_last g) \<and>
     (\<forall>t. case gen_local g t of Computed prev next \<Rightarrow> 0 \<le> prev \<longrightarrow> (prev \<le> next \<and> (next = prev \<longrightarrow> prev mod 1000 = 999))
        | _ \<Rightarrow> True)"

lemma generator_inv_load: "generator_inv g \<Longrightarrow> generator_inv (load_last t g)"
  by (simp add: generator_inv_def load_last_def)

lemma generator_inv_compute:
  "generator_inv g \<Longrightarrow>
   generator_inv (g\<lparr>gen_local := (gen_local g)(t := Computed prev (compute_next prev now))\<rparr>)"
  using compute_next_grows [of prev now] by (simp add: generator_inv_def)

lemma generator_inv_exchange:
  assumes "generator_inv g" and "gen_local g t = Computed prev next"
  shows "generator_inv (compare_exchange t prev next g)"
proof (cases "gen_last g = prev")
  case True
  have "case gen_local g t of Computed prev next \<Rightarrow> 0 \<le> prev \<longrightarrow> (prev \<le> next \<and> (next = prev \<longrightarrow> prev mod 1000 = 999)) | _ \<Rightarrow> True"
    using assms(1) unfolding generator_inv_def by blast
  then have n: "prev \<le> next" "next = prev \<longrightarrow> prev mod 1000 = 999"
    using assms True by (auto simp: generator_inv_def)
  have "ts_before x next" if "x \<in> set (gen_trace g)" for x
  proof -
    have "x \<le> prev" using assms(1) that True by (auto simp: generator_inv_def)
    with n show ?thesis by (cases "x = next") (auto simp: ts_before_def)
  qed
  moreover have "\<forall>x \<in> set (gen_trace g). x \<le> next"
    using assms(1) True n(1) by (force simp: generator_inv_def)
  ultimately show ?thesis using assms(1) True n(1)
    by (auto simp: generator_inv_def compare_exchange_def sorted_wrt_append)
next
  case False
  then show ?thesis using assms(1) by (simp add: generator_inv_def compare_exchange_def)
qed

lemma generated_inv: "generated g \<Longrightarrow> generator_inv g"
proof (induction rule: generated.induct)
  case init
  show ?case by (simp add: generator_inv_def generator_init_def)
next
  case (step g g')
  from step.hyps(2) step.IH show ?case
    by (elim next_stepE) (auto intro: generator_inv_load generator_inv_compute generator_inv_exchange)
qed


text \<open>One call without interference, which is how a test sees the generator.\<close>

lemma undisturbed_next:
  assumes "generated g" and "gen_local g t = Idle"
  shows "\<exists>g' :: generator. generated g' \<and> gen_last g' = compute_next (gen_last g) now \<and> gen_local g' = gen_local g \<and>
           gen_trace g' = gen_trace g @ [compute_next (gen_last g) now]"
proof -
  define g1 where "g1 = load_last t g"
  define g2 where "g2 = g1\<lparr>gen_local := (gen_local g1)(t := Computed (gen_last g) (compute_next (gen_last g) now))\<rparr>"
  define g3 where "g3 = compare_exchange t (gen_last g) (compute_next (gen_last g) now) g2"
  have "generated g1" unfolding g1_def by (rule generated.step [OF assms(1) next_step.load [of g t, OF assms(2)]])
  moreover have "gen_local g1 t = Loaded (gen_last g)" by (simp add: g1_def load_last_def)
  ultimately have "generated g2" unfolding g2_def by (rule generated.step [OF _ next_step.compute])
  moreover have "gen_local g2 t = Computed (gen_last g) (compute_next (gen_last g) now)" by (simp add: g2_def)
  ultimately have "generated g3" unfolding g3_def by (rule generated.step [OF _ next_step.exchange])
  moreover have "gen_local g3 = gen_local g"
    using assms(2) by (simp add: g3_def g2_def g1_def load_last_def compare_exchange_def fun_upd_idem_iff)
  moreover have "gen_last g3 = compute_next (gen_last g) now \<and>
      gen_trace g3 = gen_trace g @ [compute_next (gen_last g) now]"
    by (simp add: g3_def g2_def g1_def load_last_def compare_exchange_def)
  ultimately show ?thesis by blast
qed


text \<open>
  One exchange of a thread that was not disturbed advances the timestamp to the clock's
  millisecond, when the clock is ahead, or to the next microsecond of the last one; a
  request never gets a value outside the 64 bit range while the clock is below
  \<open>2 ^ 63\<close> microseconds.
\<close>

theorem compute_next_spec:
  assumes "0 \<le> prev" and "prev < 1000 * max_millis" and "now < max_millis"
  shows "compute_next prev now =
           (if prev div 1000 < now then 1000 * now else if prev mod 1000 = 999 then prev else prev + 1) \<and>
         0 \<le> compute_next prev now \<and> compute_next prev now < 2 ^ 63"
  using compute_next_in_range [OF assms] compute_next_nonneg [OF assms(1), of now]
  by (auto simp: max_millis_def)

theorem compute_next_spec_witness:
  "compute_next 1700000000000999 1600000000000 = 1700000000000999 \<and>
   0 \<le> compute_next 1700000000000999 1600000000000 \<and> compute_next 1700000000000999 1600000000000 < 2 ^ 63"
  using compute_next_spec [of 1700000000000999 1600000000000] by (simp add: max_millis_def)

end
