(* ===== verification/Handler.thy ===== *)
theory Handler
  imports Buffer Retry_Policy
begin

text \<open>
  \<open>handler.hpp\<close> and \<open>handler.cpp\<close>: what all requests in flight have in common, the states of
  a request, and the framing of an encoded request.
\<close>

section \<open>The states of a request\<close>

datatype request_state =
    NEW | WRITING | READING | TIMEOUT | TIMEOUT_WRITE_OUTSTANDING | READ_BEFORE_WRITE
  | RETRY_WRITE_OUTSTANDING | DONE

record handler =
  h_state :: request_state
  h_stream :: int
  h_cl :: consistency
  h_timestamp :: int
  h_start_time :: nat
  h_timer :: bool

text \<open>The start time is not set by the constructor; the model starts it at 0.\<close>

definition handler_init :: handler where
  "handler_init = \<lparr>h_state = NEW, h_stream = - 1, h_cl = CL_UNKNOWN, h_timestamp = - (2 ^ 63),
     h_start_time = 0, h_timer = False\<rparr>"

definition start_timer :: "'h handler_scheme \<Rightarrow> 'h handler_scheme" where
  "start_timer h = h\<lparr>h_timer := True\<rparr>"

definition stop_timer :: "'h handler_scheme \<Rightarrow> 'h handler_scheme" where
  "stop_timer h = h\<lparr>h_timer := False\<rparr>"

definition handler_consistency :: "consistency \<Rightarrow> 'h handler_scheme \<Rightarrow> consistency" where
  "handler_consistency request_cl h = (if h_cl h \<noteq> CL_UNKNOWN then h_cl h else request_cl)"

text \<open>\<open>set_state\<close> at the time \<open>now\<close>; \<open>None\<close> is a failed assertion.\<close>

definition set_state :: "nat \<Rightarrow> request_state \<Rightarrow> 'h handler_scheme \<Rightarrow> 'h handler_scheme option" where
  "set_state now next_state h =
     (case h_state h of
        NEW \<Rightarrow>
          (if next_state = NEW then Some (h\<lparr>h_state := next_state, h_stream := - 1\<rparr>)
           else if next_state = WRITING then Some (h\<lparr>h_start_time := now, h_state := next_state\<rparr>)
           else None)
      | WRITING \<Rightarrow>
          (if next_state = READING then Some (h\<lparr>h_state := next_state\<rparr>)
           else if next_state = READ_BEFORE_WRITE \<or> next_state = DONE then
             Some ((stop_timer h)\<lparr>h_state := next_state\<rparr>)
           else if next_state = TIMEOUT then Some (h\<lparr>h_state := TIMEOUT_WRITE_OUTSTANDING\<rparr>)
           else None)
      | READING \<Rightarrow>
          (if next_state = DONE then Some ((stop_timer h)\<lparr>h_state := next_state\<rparr>)
           else if next_state = TIMEOUT then Some (h\<lparr>h_state := next_state\<rparr>)
           else None)
      | TIMEOUT \<Rightarrow> (if next_state = DONE then Some (h\<lparr>h_state := next_state\<rparr>) else None)
      | TIMEOUT_WRITE_OUTSTANDING \<Rightarrow>
          (if next_state = TIMEOUT \<or> next_state = READ_BEFORE_WRITE then Some (h\<lparr>h_state := next_state\<rparr>)
           else None)
      | READ_BEFORE_WRITE \<Rightarrow>
          (if next_state = DONE \<or> next_state = RETRY_WRITE_OUTSTANDING then Some (h\<lparr>h_state := next_state\<rparr>)
           else None)
      | RETRY_WRITE_OUTSTANDING \<Rightarrow> (if next_state = NEW then Some (h\<lparr>h_state := next_state\<rparr>) else None)
      | DONE \<Rightarrow> (if next_state = NEW then Some (h\<lparr>h_state := next_state\<rparr>) else None))"

lemma set_state_timer: "set_state now s h = Some h' \<Longrightarrow> s \<in> {DONE, READ_BEFORE_WRITE} \<Longrightarrow>
    h_state h \<in> {WRITING, READING} \<Longrightarrow> \<not> h_timer h'"
  by (auto simp: set_state_def stop_timer_def split: if_splits)

section \<open>Framing a request\<close>

text \<open>
  \<open>Handler::encode\<close>. A \<open>BufferVec\<close> is the list of the contents of its buffers; \<open>custom\<close> is
  the encoding of the custom payload, if there is one, and \<open>body\<close> the result of the
  virtual \<open>Request::encode\<close>: a negative error code or the length it reports, with the
  buffers it appended (also when it failed).
\<close>

definition ENCODE_ERROR_UNSUPPORTED_PROTOCOL :: int where "ENCODE_ERROR_UNSUPPORTED_PROTOCOL = - 1"
definition ENCODE_ERROR_BATCH_WITH_NAMED_VALUES :: int where "ENCODE_ERROR_BATCH_WITH_NAMED_VALUES = - 2"
definition ENCODE_ERROR_PARAMETER_UNSET :: int where "ENCODE_ERROR_PARAMETER_UNSET = - 3"

definition encode_header :: "int \<Rightarrow> byte \<Rightarrow> int \<Rightarrow> byte \<Rightarrow> int \<Rightarrow> bytes" where
  "encode_header version flags stream opcode len =
     encode_byte (word_of_int version) @ encode_byte flags @
     (if version \<ge> 3 then encode_int16 (word_of_int stream) else encode_byte (word_of_int stream)) @
     encode_byte opcode @ encode_int32 (word_of_int len)"

definition handler_encode ::
    "int \<Rightarrow> byte \<Rightarrow> int \<Rightarrow> byte \<Rightarrow> (int \<times> bytes list) option \<Rightarrow> int \<times> bytes list \<Rightarrow> bytes list \<Rightarrow> int \<times> bytes list" where
  "handler_encode version flags stream opcode custom body bufs =
     (if version < 1 \<or> version > 4 then (ENCODE_ERROR_UNSUPPORTED_PROTOCOL, bufs)
      else
        let index = length bufs;
            bufs = bufs @ [[]];
            (flags, payload, bufs) =
              (if version \<ge> 4 then
                 (case custom of Some (n, items) \<Rightarrow> (flags OR 0x04, n, bufs @ items) | None \<Rightarrow> (flags, 0, bufs))
               else (flags, 0, bufs));
            (result, parts) = body;
            bufs = bufs @ parts
        in if result < 0 then (result, bufs)
           else
             let len = payload + result;
                 header_size = (if version \<ge> 3 then 9 else 8)
             in (len + header_size, bufs[index := encode_header version flags stream opcode len]))"

text \<open>What the framing relies on: an encoder reports the number of the bytes it appends.\<close>

definition reports_length :: "int \<times> bytes list \<Rightarrow> bool" where
  "reports_length r \<longleftrightarrow> 0 \<le> fst r \<longrightarrow> fst r = int (length (concat (snd r)))"

definition payload_items :: "int \<Rightarrow> (int \<times> bytes list) option \<Rightarrow> bytes list" where
  "payload_items version custom =
     (if version \<ge> 4 then (case custom of Some c \<Rightarrow> snd c | None \<Rightarrow> []) else [])"

definition payload_flags :: "int \<Rightarrow> byte \<Rightarrow> (int \<times> bytes list) option \<Rightarrow> byte" where
  "payload_flags version flags custom = (if version \<ge> 4 \<and> custom \<noteq> None then flags OR 0x04 else flags)"

text \<open>
  When the encoders of the payload and the body report their lengths, a request that
  encodes appends exactly one frame to the buffers, whose length field is the number of
  bytes behind the header and whose flags announce the custom payload, and returns the size
  of the frame; the buffers before it are untouched.
\<close>

theorem handler_encode_frame:
  assumes "1 \<le> version" and "version \<le> 4" and "0 \<le> fst body" and "reports_length body"
    and "custom = None \<or> reports_length (the custom) \<and> 0 \<le> fst (the custom)"
  shows "\<exists>header payload. payload = concat (payload_items version custom @ snd body) \<and>
           header = encode_header version (payload_flags version flags custom) stream opcode (int (length payload)) \<and>
           handler_encode version flags stream opcode custom body bufs =
             (int (length (header @ payload)), bufs @ header # payload_items version custom @ snd body)"
proof -
  define n where "n = (if version \<ge> 4 then (case custom of Some c \<Rightarrow> fst c | None \<Rightarrow> 0) else 0)"
  have n: "n = int (length (concat (payload_items version custom)))"
    using assms(5) by (auto simp: n_def payload_items_def reports_length_def split: option.splits)
  have b: "fst body = int (length (concat (snd body)))" using assms(3,4) by (simp add: reports_length_def)
  have parts: "(if version \<ge> 4 then (case custom of Some (n, items) \<Rightarrow> (flags OR 0x04, n, (bufs @ [[]]) @ items)
        | None \<Rightarrow> (flags, 0, bufs @ [[]])) else (flags, 0, bufs @ [[]])) =
      (payload_flags version flags custom, n, (bufs @ [[]]) @ payload_items version custom)"
    by (auto simp: payload_flags_def n_def payload_items_def split: option.splits)
  have len: "n + fst body = int (length (concat (payload_items version custom @ snd body)))" using n b by simp
  have hs: "int (length (encode_header version f stream opcode l)) = (if version \<ge> 3 then 9 else 8)" for f l
    by (simp add: encode_header_def)
  have "handler_encode version flags stream opcode custom body bufs =
      (n + fst body + (if version \<ge> 3 then 9 else 8),
       bufs @ encode_header version (payload_flags version flags custom) stream opcode (n + fst body) #
         payload_items version custom @ snd body)"
    using assms(1-3) unfolding handler_encode_def Let_def parts by (simp add: split_def list_update_append)
  then show ?thesis unfolding len by (simp add: hs)
qed

theorem handler_encode_frame_witness:
  "\<exists>header payload. payload = [1, 2] \<and> header = encode_header 3 0 5 7 2 \<and>
     handler_encode 3 0 5 7 None (2, [[1], [2]]) [[9]] =
       (int (length (header @ payload)), [[9]] @ header # [[1], [2]])"
  using handler_encode_frame [of 3 "(2, [[1], [2]])" None 0 5 7 "[[9]]"]
  by (simp add: reports_length_def payload_items_def payload_flags_def)

end
