(* ===== verification/Response_Message.thy ===== *)
theory Response_Message
  imports Buffer
begin

text \<open>
  \<open>response.hpp\<close>, \<open>response.cpp\<close> and the loop of \<open>Connection::consume\<close>: a message of the server
  is put together from the pieces the socket delivers. The decoder of a body is an argument
  (the virtual method \<open>Response::decode\<close>): it reads behind its bytes, rejects them or returns
  the response.
\<close>

datatype 'r body_result = Overrun | Rejected | Parsed 'r

section \<open>The state of a message\<close>

record 'r response_message =
  rm_version :: byte
  rm_flags :: byte
  rm_stream :: u16
  rm_opcode :: byte
  rm_length :: u32
  rm_received :: nat
  rm_header_size :: nat
  rm_header_received :: bool
  rm_header :: bytes
  rm_body_ready :: bool
  rm_body_error :: bool
  rm_body :: bytes
  rm_custom_payload :: "(bytes \<times> bytes option) list"
  rm_response :: "'r option"

definition rm_init :: "'r response_message" where
  "rm_init = \<lparr>rm_version = 0, rm_flags = 0, rm_stream = 0, rm_opcode = 0, rm_length = 0,
     rm_received = 0, rm_header_size = 0, rm_header_received = False, rm_header = [],
     rm_body_ready = False, rm_body_error = False, rm_body = [], rm_custom_payload = [],
     rm_response = None\<rparr>"

text \<open>\<open>allocate_body\<close>: the opcodes that have a response class.\<close>

definition allocate_body :: "byte \<Rightarrow> bool" where
  "allocate_body opcode \<longleftrightarrow> opcode \<in> {0x00, 0x02, 0x03, 0x06, 0x08, 0x0C, 0x0E, 0x10}"

definition decode_payload_item :: "(bytes \<times> bytes option) reader" where
  "decode_payload_item buffer =
     (case decode_string buffer of None \<Rightarrow> None
      | Some (name, pos) \<Rightarrow>
          (case decode_bytes pos of None \<Rightarrow> None
           | Some (value, pos) \<Rightarrow> Some ((name, value), pos)))"

definition decode_custom_payload :: "(bytes \<times> bytes option) list reader" where
  "decode_custom_payload buffer =
     (case decode_uint16 buffer of None \<Rightarrow> None
      | Some (item_count, pos) \<Rightarrow> read_many (unat item_count) decode_payload_item pos)"

text \<open>The warnings, which are logged.\<close>

definition decode_warnings :: "bytes list reader" where
  "decode_warnings buffer =
     (case decode_uint16 buffer of None \<Rightarrow> None
      | Some (warning_count, pos) \<Rightarrow> read_many (unat warning_count) decode_string pos)"

section \<open>Decoding\<close>

text \<open>
  The fields of a complete header. A stream id of one byte is a signed \<open>char\<close>.
\<close>

definition parse_header :: "'r response_message \<Rightarrow> 'r response_message option" where
  "parse_header rm =
     (case drop 1 (rm_header rm) of
        flags # buffer \<Rightarrow>
          (case (if rm_version rm \<ge> 3 then decode_int16 buffer
                 else (case buffer of [] \<Rightarrow> None | b # buffer \<Rightarrow> Some (scast b, buffer))) of
             Some (stream, opcode # buffer) \<Rightarrow>
               (case decode_int32 buffer of
                  Some (len, _) \<Rightarrow>
                    Some (rm\<lparr>rm_flags := flags, rm_stream := stream, rm_opcode := opcode,
                             rm_length := len, rm_header_received := True\<rparr>)
                | None \<Rightarrow> None)
           | _ \<Rightarrow> None)
      | [] \<Rightarrow> None)"

text \<open>The complete body: the parts the flags announce, then the response itself.\<close>

definition decode_body ::
    "(byte \<Rightarrow> byte \<Rightarrow> bytes \<Rightarrow> 'r body_result) \<Rightarrow> 'r response_message \<Rightarrow> (bool \<times> 'r response_message) option" where
  "decode_body parse rm =
     (case (if rm_flags rm AND 0x08 \<noteq> 0 then decode_warnings (rm_body rm) else Some ([], rm_body rm)) of
        None \<Rightarrow> None
      | Some (_, pos) \<Rightarrow>
          (case (if rm_flags rm AND 0x04 \<noteq> 0 then decode_custom_payload pos else Some ([], pos)) of
             None \<Rightarrow> None
           | Some (items, pos) \<Rightarrow>
               (case parse (rm_version rm) (rm_opcode rm) pos of
                  Overrun \<Rightarrow> None
                | Rejected \<Rightarrow> Some (False, rm\<lparr>rm_custom_payload := items, rm_body_error := True\<rparr>)
                | Parsed r \<Rightarrow>
                    Some (True, rm\<lparr>rm_custom_payload := items, rm_response := Some r, rm_body_ready := True\<rparr>))))"

text \<open>
  The second half of \<open>decode\<close>, with \<open>used\<close> bytes of the input consumed by the header. The
  sum of the sizes is unsigned: a negative length is undefined behaviour (the body buffer
  has an impossible size).
\<close>

definition decode_frame ::
    "(byte \<Rightarrow> byte \<Rightarrow> bytes \<Rightarrow> 'r body_result) \<Rightarrow> bytes \<Rightarrow> nat \<Rightarrow> 'r response_message \<Rightarrow>
     (int \<times> 'r response_message) option" where
  "decode_frame parse input used rm =
     (if sint (rm_length rm) < 0 then None
      else
        let remaining = length input - used;
            frame_size = rm_header_size rm + unat (rm_length rm)
        in if rm_received rm \<ge> frame_size then
             let overage = rm_received rm - frame_size;
                 needed = remaining - overage;
                 rm = rm\<lparr>rm_body := rm_body rm @ take needed (drop used input)\<rparr>
             in if length (rm_body rm) \<noteq> unat (rm_length rm) then None
                else (case decode_body parse rm of
                        None \<Rightarrow> None
                      | Some (False, rm) \<Rightarrow> Some (-1, rm)
                      | Some (True, rm) \<Rightarrow> Some (int (used + needed), rm))
           else Some (int (length input), rm\<lparr>rm_body := rm_body rm @ drop used input\<rparr>))"

definition message_decode ::
    "(byte \<Rightarrow> byte \<Rightarrow> bytes \<Rightarrow> 'r body_result) \<Rightarrow> bytes \<Rightarrow> 'r response_message \<Rightarrow>
     (int \<times> 'r response_message) option" where
  "message_decode parse input rm =
     (let rm = rm\<lparr>rm_received := rm_received rm + length input\<rparr> in
      if rm_header_received rm then decode_frame parse input 0 rm
      else
        let rm = (if rm_version rm = 0 then
                    let version = hd input AND 0x7F
                    in rm\<lparr>rm_version := version, rm_header_size := if version \<ge> 3 then 9 else 8\<rparr>
                  else rm)
        in if rm_received rm \<ge> rm_header_size rm then
             let overage = rm_received rm - rm_header_size rm;
                 needed = length input - overage;
                 rm = rm\<lparr>rm_header := rm_header rm @ take needed input\<rparr>
             in if length (rm_header rm) \<noteq> rm_header_size rm then None
                else (case parse_header rm of
                        None \<Rightarrow> None
                      | Some rm \<Rightarrow>
                          if allocate_body (rm_opcode rm) then decode_frame parse input needed rm
                          else Some (-1, rm))
           else Some (int (length input), rm\<lparr>rm_header := rm_header rm @ input\<rparr>))"

text \<open>What \<open>consume\<close> uses of a message that is ready.\<close>

record 'r message =
  msg_stream :: u16
  msg_opcode :: byte
  msg_response :: "'r option"

definition message_of :: "'r response_message \<Rightarrow> 'r message" where
  "message_of rm = \<lparr>msg_stream = rm_stream rm, msg_opcode = rm_opcode rm, msg_response = rm_response rm\<rparr>"

text \<open>
  The loop of \<open>Connection::consume\<close> over one read: \<open>dispatch\<close> is its reaction to a message,
  \<open>failed\<close> the reaction to an error, which drops the rest of the read.
\<close>

function consume_loop ::
    "(byte \<Rightarrow> byte \<Rightarrow> bytes \<Rightarrow> 'r body_result) \<Rightarrow> ('r message \<Rightarrow> 'c \<Rightarrow> 'c) \<Rightarrow> ('c \<Rightarrow> 'c) \<Rightarrow>
     bytes \<Rightarrow> 'r response_message \<Rightarrow> 'c \<Rightarrow> ('r response_message \<times> 'c) option" where
  "consume_loop parse dispatch failed input rm c =
     (if input = [] then Some (rm, c)
      else (case message_decode parse input rm of
              None \<Rightarrow> None
            | Some (consumed, rm) \<Rightarrow>
                if consumed \<le> 0 then Some (rm, failed c)
                else if rm_body_ready rm then
                  consume_loop parse dispatch failed (drop (nat consumed) input) rm_init (dispatch (message_of rm) c)
                else consume_loop parse dispatch failed (drop (nat consumed) input) rm c))"
  by pat_completeness auto
termination
  by (relation "measure (\<lambda>(parse, dispatch, failed, input, rm, c). length input)") auto

declare consume_loop.simps [simp del]

text \<open>The reads of a connection, one after the other.\<close>

fun consume_reads ::
    "(byte \<Rightarrow> byte \<Rightarrow> bytes \<Rightarrow> 'r body_result) \<Rightarrow> ('r message \<Rightarrow> 'c \<Rightarrow> 'c) \<Rightarrow> ('c \<Rightarrow> 'c) \<Rightarrow>
     bytes list \<Rightarrow> 'r response_message \<Rightarrow> 'c \<Rightarrow> ('r response_message \<times> 'c) option" where
  "consume_reads parse dispatch failed [] rm c = Some (rm, c)"
| "consume_reads parse dispatch failed (input # inputs) rm c =
     (case consume_loop parse dispatch failed input rm c of
        None \<Rightarrow> None
      | Some (rm, c) \<Rightarrow> consume_reads parse dispatch failed inputs rm c)"

section \<open>Frames\<close>

text \<open>The frames of the protocol specification, as the server writes them.\<close>

record frame =
  fr_version :: byte
  fr_flags :: byte
  fr_stream :: u16
  fr_opcode :: byte
  fr_body :: bytes

definition fr_protocol :: "frame \<Rightarrow> byte" where
  "fr_protocol f = fr_version f AND 0x7F"

definition frame_header :: "frame \<Rightarrow> bytes" where
  "frame_header f =
     [fr_version f, fr_flags f] @
     (if fr_protocol f \<ge> 3 then encode_int16 (fr_stream f) else [ucast (fr_stream f)]) @
     [fr_opcode f] @ encode_int32 (of_nat (length (fr_body f)))"

definition frame_bytes :: "frame \<Rightarrow> bytes" where
  "frame_bytes f = frame_header f @ fr_body f"

text \<open>The message with the complete header and the first bytes of the body.\<close>

definition rm_headed :: "frame \<Rightarrow> nat \<Rightarrow> bytes \<Rightarrow> 'r response_message" where
  "rm_headed f received body =
     rm_init\<lparr>rm_version := fr_protocol f, rm_flags := fr_flags f, rm_stream := fr_stream f,
             rm_opcode := fr_opcode f, rm_length := of_nat (length (fr_body f)),
             rm_received := received, rm_header_size := length (frame_header f),
             rm_header_received := True, rm_header := frame_header f, rm_body := body\<rparr>"

definition frame_response :: "(byte \<Rightarrow> byte \<Rightarrow> bytes \<Rightarrow> 'r body_result) \<Rightarrow> frame \<Rightarrow> 'r option" where
  "frame_response parse f =
     (case decode_body parse (rm_headed f 0 (fr_body f)) of
        Some (True, rm) \<Rightarrow> rm_response rm
      | _ \<Rightarrow> None)"

definition frame_ok :: "(byte \<Rightarrow> byte \<Rightarrow> bytes \<Rightarrow> 'r body_result) \<Rightarrow> frame \<Rightarrow> bool" where
  "frame_ok parse f \<longleftrightarrow>
     fr_protocol f \<noteq> 0 \<and> (fr_protocol f < 3 \<longrightarrow> scast (ucast (fr_stream f) :: byte) = fr_stream f) \<and>
     allocate_body (fr_opcode f) \<and> length (fr_body f) < 2 ^ 31 \<and> frame_response parse f \<noteq> None"

definition frame_message :: "(byte \<Rightarrow> byte \<Rightarrow> bytes \<Rightarrow> 'r body_result) \<Rightarrow> frame \<Rightarrow> 'r message" where
  "frame_message parse f =
     \<lparr>msg_stream = fr_stream f, msg_opcode = fr_opcode f, msg_response = frame_response parse f\<rparr>"

text \<open>The state of the message after the first \<open>k\<close> bytes of a frame.\<close>

definition rm_at :: "frame \<Rightarrow> nat \<Rightarrow> 'r response_message" where
  "rm_at f k =
     (if k = 0 then rm_init
      else if k < length (frame_header f) then
        rm_init\<lparr>rm_version := fr_protocol f, rm_received := k,
                rm_header_size := length (frame_header f), rm_header := take k (frame_header f)\<rparr>
      else rm_headed f k (take (k - length (frame_header f)) (fr_body f)))"

lemma length_frame_header: "length (frame_header f) = (if fr_protocol f \<ge> 3 then 9 else 8)"
  by (simp add: frame_header_def)

lemma length_frame_bytes: "length (frame_bytes f) = length (frame_header f) + length (fr_body f)"
  by (simp add: frame_bytes_def)

lemma frame_length_word:
  assumes "frame_ok parse f"
  shows "unat (of_nat (length (fr_body f)) :: u32) = length (fr_body f)"
    and "\<not> sint (of_nat (length (fr_body f)) :: u32) < 0"
proof -
  have n: "length (fr_body f) < 2147483648" using assms by (simp add: frame_ok_def)
  then show "unat (of_nat (length (fr_body f)) :: u32) = length (fr_body f)"
    by (simp add: unat_of_nat)
  from n show "\<not> sint (of_nat (length (fr_body f)) :: u32) < 0" by simp
qed

lemma parse_frame_header:
  assumes "frame_ok parse f" and "rm_header rm = frame_header f" and "rm_version rm = fr_protocol f"
  shows "parse_header rm = Some (rm\<lparr>rm_flags := fr_flags f, rm_stream := fr_stream f,
      rm_opcode := fr_opcode f, rm_length := of_nat (length (fr_body f)), rm_header_received := True\<rparr>)"
proof (cases "fr_protocol f \<ge> 3")
  case True
  then show ?thesis
    using decode_encode_int32 [of "of_nat (length (fr_body f))" "[]"]
    by (simp add: parse_header_def assms(2,3) frame_header_def decode_encode_int16)
next
  case False
  then have "scast (ucast (fr_stream f) :: byte) = fr_stream f" using assms(1) by (simp add: frame_ok_def)
  with False show ?thesis
    using decode_encode_int32 [of "of_nat (length (fr_body f))" "[]"]
    by (simp add: parse_header_def assms(2,3) frame_header_def)
qed

text \<open>The second half of \<open>decode\<close> on a piece of the body.\<close>

lemma decode_frame_part:
  assumes "frame_ok parse f" and "n + length c < length (fr_body f)" and "c = take (length c) (drop n (fr_body f))"
    and "used \<le> length input" and "drop used input = c" and "r = length (frame_header f) + n + length c"
  shows "decode_frame parse input used (rm_headed f r (take n (fr_body f))) =
           Some (int (length input), rm_headed f r (take (n + length c) (fr_body f)))"
proof -
  have "take n (fr_body f) @ c = take (n + length c) (fr_body f)"
    using assms(3) by (simp add: take_add)
  then show ?thesis
    using assms(2,5,6) frame_length_word [OF assms(1)]
    by (simp add: decode_frame_def rm_headed_def Let_def)
qed

lemma decode_body_True:
  "decode_body parse rm = Some (True, rm') \<longleftrightarrow>
   (\<exists>ws pos items pos' r.
      (if rm_flags rm AND 0x08 \<noteq> 0 then decode_warnings (rm_body rm) else Some ([], rm_body rm)) = Some (ws, pos) \<and>
      (if rm_flags rm AND 0x04 \<noteq> 0 then decode_custom_payload pos else Some ([], pos)) = Some (items, pos') \<and>
      parse (rm_version rm) (rm_opcode rm) pos' = Parsed r \<and>
      rm' = rm\<lparr>rm_custom_payload := items, rm_response := Some r, rm_body_ready := True\<rparr>)"
proof -
  define a where "a = (if rm_flags rm AND 0x08 \<noteq> 0 then decode_warnings (rm_body rm) else Some ([], rm_body rm))"
  define b where "b = (\<lambda>pos. if rm_flags rm AND 0x04 \<noteq> 0 then decode_custom_payload pos else Some ([], pos))"
  show ?thesis unfolding decode_body_def a_def [symmetric] b_def [symmetric]
    by (auto split: option.splits prod.splits body_result.splits simp del: split_paired_All split_paired_Ex)
qed

lemma decode_body_received:
  assumes "decode_body parse rm = Some (True, rm')"
  shows "decode_body parse (rm\<lparr>rm_received := r\<rparr>) = Some (True, rm'\<lparr>rm_received := r\<rparr>)"
proof -
  from assms obtain ws pos items pos' res where f:
    "(if rm_flags rm AND 0x08 \<noteq> 0 then decode_warnings (rm_body rm) else Some ([], rm_body rm)) = Some (ws, pos)"
    "(if rm_flags rm AND 0x04 \<noteq> 0 then decode_custom_payload pos else Some ([], pos)) = Some (items, pos')"
    "parse (rm_version rm) (rm_opcode rm) pos' = Parsed res"
    "rm' = rm\<lparr>rm_custom_payload := items, rm_response := Some res, rm_body_ready := True\<rparr>"
    unfolding decode_body_True by blast
  show ?thesis unfolding decode_body_True
    by (rule exI [of _ ws], rule exI [of _ pos], rule exI [of _ items], rule exI [of _ pos'], rule exI [of _ res])
      (simp add: f split del: if_split cong: if_cong)
qed

lemma decode_frame_end:
  assumes ok: "frame_ok parse f" and n: "n \<le> length (fr_body f)" and used: "used \<le> length input"
    and inp: "drop used input = drop n (fr_body f) @ extra"
    and r: "r = length (frame_header f) + length (fr_body f) + length extra"
  shows "\<exists>rm. decode_frame parse input used (rm_headed f r (take n (fr_body f))) =
           Some (int (used + (length (fr_body f) - n)), rm) \<and>
           rm_body_ready rm \<and> message_of rm = frame_message parse f"
proof -
  define b where "b = length (fr_body f)"
  have len: "length input - used = b - n + length extra"
    using arg_cong [OF inp, of length] by (simp add: b_def)
  have body: "take n (fr_body f) @ take (b - n) (drop used input) = fr_body f"
    by (simp add: inp b_def)
  have resp: "frame_response parse f \<noteq> None" using ok by (simp add: frame_ok_def)
  obtain rm where rm: "decode_body parse (rm_headed f 0 (fr_body f)) = Some (True, rm)"
      "rm_response rm = frame_response parse f"
    using resp by (auto simp: frame_response_def split: option.splits bool.splits prod.splits)
  have same: "decode_body parse (rm_headed f r (fr_body f)) = Some (True, rm\<lparr>rm_received := r\<rparr>)"
    using decode_body_received [OF rm(1), of r] by (simp add: rm_headed_def rm_init_def)
  have parts: "rm_body_ready rm \<and> rm_stream rm = fr_stream f \<and> rm_opcode rm = fr_opcode f"
    using rm(1) unfolding decode_body_True by (elim exE conjE) (simp add: rm_headed_def)
  have "decode_frame parse input used (rm_headed f r (take n (fr_body f))) =
      Some (int (used + (b - n)), rm\<lparr>rm_received := r\<rparr>)"
    using frame_length_word [OF ok] len r body same n
    by (simp add: decode_frame_def rm_headed_def Let_def b_def [symmetric])
  then show ?thesis
    using parts rm(2) by (simp add: message_of_def frame_message_def b_def)
qed

text \<open>
  A read that starts in the header: its version byte is known after the first byte.
\<close>

lemma decode_in_header:
  assumes ok: "frame_ok parse f" and k: "k < length (frame_header f)" and ne: "input \<noteq> []"
    and start: "k = 0 \<longrightarrow> hd input = fr_version f"
  shows "message_decode parse input (rm_at f k) =
    (let r = k + length input; h = length (frame_header f); needed = length input - (r - h);
         rm = rm_init\<lparr>rm_version := fr_protocol f, rm_received := r, rm_header_size := h\<rparr>
     in if r \<ge> h then
          let header = take k (frame_header f) @ take needed input;
              rm = rm\<lparr>rm_header := header\<rparr>
          in if length header \<noteq> h then None
             else (case parse_header rm of None \<Rightarrow> None
                   | Some rm \<Rightarrow> if allocate_body (rm_opcode rm) then decode_frame parse input needed rm
                                 else Some (-1, rm))
        else Some (int (length input), rm\<lparr>rm_header := take k (frame_header f) @ input\<rparr>))"
proof -
  have v: "fr_protocol f \<noteq> 0" using ok by (simp add: frame_ok_def)
  have h: "length (frame_header f) = (if 3 \<le> fr_protocol f then 9 else 8)" by (rule length_frame_header)
  show ?thesis
  proof (cases "k = 0")
    case True
    with start have "hd input AND 0x7F = fr_protocol f" by (simp add: fr_protocol_def)
    with True v show ?thesis
      by (simp add: message_decode_def rm_at_def rm_init_def h [symmetric] Let_def)
  next
    case False
    with k v show ?thesis
      by (simp add: message_decode_def rm_at_def rm_init_def Let_def)
  qed
qed

lemma decode_part:
  assumes ok: "frame_ok parse f" and lt: "k + length c < length (frame_bytes f)" and ne: "c \<noteq> []"
    and c: "c = take (length c) (drop k (frame_bytes f))"
  shows "message_decode parse c (rm_at f k) = Some (int (length c), rm_at f (k + length c))"
proof (cases "k < length (frame_header f)")
  case True
  define h where "h = length (frame_header f)"
  have hdc: "k = 0 \<longrightarrow> hd c = fr_version f"
    using c ne by (cases c) (auto simp: frame_bytes_def frame_header_def)
  note d = decode_in_header [OF ok True ne hdc]
  have tk: "take k (frame_header f) @ c = take (k + length c) (frame_bytes f)"
    using c True by (metis append_Nil2 diff_is_0_eq frame_bytes_def less_imp_le take_0 take_add take_append)
  show ?thesis
  proof (cases "k + length c < h")
    case True
    then have "take (k + length c) (frame_bytes f) = take (k + length c) (frame_header f)"
      by (simp add: frame_bytes_def h_def)
    with True show ?thesis unfolding d tk
      by (simp add: Let_def h_def [symmetric]) (simp add: rm_at_def rm_init_def h_def ne)
  next
    case False
    have header: "take k (frame_header f) @ take (h - k) c = frame_header f"
    proof -
      have "take k (frame_header f) @ take (h - k) c = take h (take k (frame_header f) @ c)"
        using True by (simp add: h_def)
      also have "\<dots> = frame_header f" unfolding tk using False by (simp add: frame_bytes_def h_def min_def)
      finally show ?thesis .
    qed
    have needed: "length c - (k + length c - h) = h - k" using False True by (simp add: h_def)
    define n where "n = length (drop (h - k) c)"
    have n': "n = k + length c - h" using False True by (simp add: n_def h_def)
    have body: "drop (h - k) c = take n (fr_body f)"
    proof -
      have "drop (h - k) c = drop h (take k (frame_header f) @ c)" using True by (simp add: h_def)
      also have "\<dots> = take n (fr_body f)" unfolding tk using False True
        by (simp add: frame_bytes_def h_def n' drop_take)
      finally show ?thesis .
    qed
    have len: "k + length c = h + n" using False True by (simp add: n_def h_def)
    have "decode_frame parse c (h - k) (rm_headed f (k + length c) (take 0 (fr_body f))) =
        Some (int (length c), rm_headed f (k + length c) (take (0 + length (drop (h - k) c)) (fr_body f)))"
    proof (rule decode_frame_part [OF ok])
      show "0 + length (drop (h - k) c) < length (fr_body f)"
        using lt len by (simp add: length_frame_bytes h_def n_def)
    qed (use False True body n_def len in \<open>simp_all add: h_def\<close>)
    also have "rm_headed f (k + length c) (take (0 + length (drop (h - k) c)) (fr_body f)) = rm_at f (k + length c)"
      unfolding n_def [symmetric] using False ne by (simp add: rm_at_def n' h_def)
    finally have "decode_frame parse c (h - k) (rm_headed f (k + length c) []) = Some (int (length c), rm_at f (k + length c))"
      by simp
    moreover have "message_decode parse c (rm_at f k) = decode_frame parse c (h - k) (rm_headed f (k + length c) [])"
      using ok False unfolding d
      by (simp add: Let_def h_def [symmetric] needed header parse_frame_header [OF ok] frame_ok_def)
        (simp add: rm_headed_def rm_init_def h_def)
    ultimately show ?thesis by simp
  qed
next
  case False
  define n where "n = k - length (frame_header f)"
  have k: "k = length (frame_header f) + n" "k \<noteq> 0" using False by (auto simp: n_def length_frame_header split: if_splits)
  have body: "c = take (length c) (drop n (fr_body f))"
    using c by (simp add: k frame_bytes_def)
  have at: "rm_at f k = rm_headed f k (take n (fr_body f))"
    using False k(2) by (simp add: rm_at_def n_def)
  have "message_decode parse c (rm_at f k) = decode_frame parse c 0 (rm_headed f (k + length c) (take n (fr_body f)))"
    unfolding at by (simp add: message_decode_def Let_def rm_headed_def rm_init_def)
  also have "\<dots> = Some (int (length c), rm_headed f (k + length c) (take (n + length c) (fr_body f)))"
    by (rule decode_frame_part [OF ok _ body]) (use lt k in \<open>simp_all add: length_frame_bytes\<close>)
  also have "rm_headed f (k + length c) (take (n + length c) (fr_body f)) = rm_at f (k + length c)"
    using False k(2) by (simp add: rm_at_def n_def)
  finally show ?thesis .
qed

lemma decode_end:
  assumes ok: "frame_ok parse f" and lt: "k < length (frame_bytes f)"
    and c: "c = drop k (frame_bytes f) @ rest"
  shows "\<exists>rm. message_decode parse c (rm_at f k) = Some (int (length (frame_bytes f) - k), rm) \<and>
           rm_body_ready rm \<and> message_of rm = frame_message parse f"
proof (cases "k < length (frame_header f)")
  case True
  define h where "h = length (frame_header f)"
  have c': "c = drop k (frame_header f) @ fr_body f @ rest" using True by (simp add: c frame_bytes_def)
  have ne: "c \<noteq> []" and lc: "length c = h - k + length (fr_body f) + length rest"
    using True by (simp_all add: c' h_def)
  have hdc: "k = 0 \<longrightarrow> hd c = fr_version f" by (simp add: c' frame_header_def)
  have needed: "length c - (k + length c - h) = h - k" "\<not> k + length c < h"
    using True lc by (simp_all add: h_def)
  have header: "take k (frame_header f) @ take (h - k) c = frame_header f" by (simp add: c' h_def)
  have body: "drop (h - k) c = drop 0 (fr_body f) @ rest" by (simp add: c' h_def)
  have used: "h - k \<le> length c" using lc by simp
  have r: "k + length c = length (frame_header f) + length (fr_body f) + length rest"
    using True lc by (simp add: h_def)
  obtain rm where rm: "decode_frame parse c (h - k) (rm_headed f (k + length c) (take 0 (fr_body f))) =
      Some (int (h - k + (length (fr_body f) - 0)), rm)" "rm_body_ready rm" "message_of rm = frame_message parse f"
    using decode_frame_end [OF ok _ used body r] by auto
  have "message_decode parse c (rm_at f k) = Some (int (h - k + length (fr_body f)), rm)"
    using rm(1) ok unfolding decode_in_header [OF ok True ne hdc]
    by (simp add: Let_def h_def [symmetric] needed header parse_frame_header [OF ok] frame_ok_def)
      (simp add: rm_headed_def rm_init_def h_def leI [OF needed(2) [unfolded h_def]])
  moreover have "h - k + length (fr_body f) = length (frame_bytes f) - k"
    using True by (simp add: length_frame_bytes h_def)
  ultimately show ?thesis using rm(2,3) by metis
next
  case False
  define n where "n = k - length (frame_header f)"
  have k: "k = length (frame_header f) + n" "k \<noteq> 0" using False by (auto simp: n_def length_frame_header split: if_splits)
  have n: "n \<le> length (fr_body f)" using lt k by (simp add: length_frame_bytes)
  have body: "drop 0 c = drop n (fr_body f) @ rest" by (simp add: c k frame_bytes_def)
  have lc: "k + length c = length (frame_header f) + length (fr_body f) + length rest"
    using lt by (simp add: c length_frame_bytes)
  have at: "rm_at f k = rm_headed f k (take n (fr_body f))"
    using False k(2) by (simp add: rm_at_def n_def)
  have "message_decode parse c (rm_at f k) = decode_frame parse c 0 (rm_headed f (k + length c) (take n (fr_body f)))"
    unfolding at by (simp add: message_decode_def Let_def rm_headed_def rm_init_def)
  then show ?thesis
    using decode_frame_end [OF ok n _ body lc] k(1) by (simp add: length_frame_bytes)
qed

section \<open>Any cut of the stream of frames\<close>

text \<open>
  The message state is in step with the stream: it holds the beginning of the first frame
  that is not complete, and \<open>rest\<close> are the bytes still to come.
\<close>

fun in_step :: "'r response_message \<Rightarrow> frame list \<Rightarrow> bytes \<Rightarrow> bool" where
  "in_step rm [] rest \<longleftrightarrow> rm = rm_init \<and> rest = []"
| "in_step rm (f # fs) rest \<longleftrightarrow>
     (\<exists>k < length (frame_bytes f). rm = rm_at f k \<and>
        rest = drop k (frame_bytes f) @ concat (map frame_bytes fs))"

lemma frame_bytes_nonempty: "0 < length (frame_bytes f)"
  by (simp add: length_frame_bytes length_frame_header)

lemma in_step_init: "in_step rm_init fs (concat (map frame_bytes fs))"
  by (cases fs) (auto simp: rm_at_def frame_bytes_nonempty [unfolded length_greater_0_conv] intro!: exI [of _ 0])

lemma not_ready_at: "\<not> rm_body_ready (rm_at f k)"
  by (simp add: rm_at_def rm_init_def rm_headed_def)

lemma in_step_consume:
  assumes "\<forall>f \<in> set fs. frame_ok parse f" and "in_step rm fs (input @ later)"
  shows "\<exists>fs1 fs2 rm'. fs = fs1 @ fs2 \<and> in_step rm' fs2 later \<and>
           consume_loop parse dispatch failed input rm c =
             Some (rm', fold (\<lambda>f. dispatch (frame_message parse f)) fs1 c)"
  using assms
proof (induction fs arbitrary: rm input c)
  case Nil
  then show ?case by (simp add: consume_loop.simps)
next
  case (Cons f fs)
  then obtain k where k: "k < length (frame_bytes f)" "rm = rm_at f k"
    "input @ later = drop k (frame_bytes f) @ concat (map frame_bytes fs)" by auto
  have ok: "frame_ok parse f" using Cons.prems(1) by simp
  show ?case
  proof (cases "k + length input < length (frame_bytes f)")
    case True
    have inp: "input = take (length input) (drop k (frame_bytes f))"
      using arg_cong [OF k(3), of "take (length input)"] True by simp
    have later: "later = drop (k + length input) (frame_bytes f) @ concat (map frame_bytes fs)"
      using arg_cong [OF k(3), of "drop (length input)"] True by (simp add: add.commute)
    have "consume_loop parse dispatch failed input rm c = Some (rm_at f (k + length input), c)"
    proof (cases "input = []")
      case True
      then show ?thesis by (simp add: consume_loop.simps k(2))
    next
      case False
      have "consume_loop parse dispatch failed input rm c =
          consume_loop parse dispatch failed [] (rm_at f (k + length input)) c"
        using decode_part [OF ok True False inp] False
        by (subst consume_loop.simps) (simp add: k(2) not_ready_at)
      then show ?thesis by (simp add: consume_loop.simps)
    qed
    then show ?thesis using True later
      by (intro exI [of _ "[]"] exI [of _ "f # fs"] exI [of _ "rm_at f (k + length input)"]) auto
  next
    case False
    define n where "n = length (frame_bytes f) - k"
    define rest where "rest = drop n input"
    have inp: "input = drop k (frame_bytes f) @ rest"
      using arg_cong [OF k(3), of "take n"] False k(1) by (simp add: n_def rest_def) (metis append_take_drop_id)
    have later: "rest @ later = concat (map frame_bytes fs)" using k(3) by (simp add: inp)
    obtain rm' where rm': "message_decode parse input (rm_at f k) = Some (int n, rm')"
      "rm_body_ready rm'" "message_of rm' = frame_message parse f"
      using decode_end [OF ok k(1) inp] by (auto simp: n_def)
    have "in_step rm_init fs (rest @ later)" unfolding later by (rule in_step_init)
    from Cons.IH [OF _ this, of "dispatch (frame_message parse f) c"] Cons.prems(1)
    obtain fs1 fs2 rm2 where ih: "fs = fs1 @ fs2" "in_step rm2 fs2 later"
      "consume_loop parse dispatch failed rest rm_init (dispatch (frame_message parse f) c) =
        Some (rm2, fold (\<lambda>f. dispatch (frame_message parse f)) fs1 (dispatch (frame_message parse f) c))"
      by auto
    have "input \<noteq> []" "0 < n" using k(1) by (auto simp: inp n_def)
    then have "consume_loop parse dispatch failed input rm c =
        consume_loop parse dispatch failed rest rm_init (dispatch (frame_message parse f) c)"
      using rm' by (subst consume_loop.simps) (simp add: k(2) rest_def)
    then show ?thesis using ih
      by (intro exI [of _ "f # fs1"] exI [of _ fs2] exI [of _ rm2]) simp
  qed
qed

lemma in_step_reads:
  assumes "\<forall>f \<in> set fs. frame_ok parse f" and "in_step rm fs (concat inputs)"
  shows "consume_reads parse dispatch failed inputs rm c =
           Some (rm_init, fold (\<lambda>f. dispatch (frame_message parse f)) fs c)"
  using assms
proof (induction inputs arbitrary: rm fs c)
  case Nil
  then have "fs = [] \<and> rm = rm_init" by (cases fs) auto
  then show ?case by simp
next
  case (Cons input inputs)
  from in_step_consume [OF Cons.prems(1), of rm input "concat inputs" dispatch failed c] Cons.prems(2)
  obtain fs1 fs2 rm' where s: "fs = fs1 @ fs2" "in_step rm' fs2 (concat inputs)"
    "consume_loop parse dispatch failed input rm c = Some (rm', fold (\<lambda>f. dispatch (frame_message parse f)) fs1 c)"
    by auto
  from Cons.IH [OF _ s(2)] Cons.prems(1) s(1,3) show ?case by simp
qed

text \<open>
  C33: However the bytes of a sequence of well-formed frames are cut into reads, the
  connection dispatches exactly the messages of the frames, each once and in their order,
  and is ready for the next frame at the end; no read fails.
\<close>

theorem any_cut_dispatches_frames:
  assumes "\<forall>f \<in> set fs. frame_ok parse f" and "concat inputs = concat (map frame_bytes fs)"
  shows "consume_reads parse dispatch failed inputs rm_init c =
           Some (rm_init, fold (\<lambda>f. dispatch (frame_message parse f)) fs c)"
  by (rule in_step_reads [OF assms(1)]) (simp add: assms(2) in_step_init)

text \<open>
  Two frames of version 3, a \<open>READY\<close> message and an \<open>ERROR\<close>, arriving in two reads cut inside
  a header; the bodies are taken as they are.
\<close>

theorem any_cut_dispatches_frames_witness:
  "consume_reads (\<lambda>v opc b. Parsed b) (\<lambda>m ms. ms @ [m]) (\<lambda>ms. ms)
     [[0x83, 0, 0, 5, 2, 0, 0, 0, 0, 0x83, 0], [0, 6, 0, 0, 0, 0, 1, 0xFF]] rm_init [] =
   Some (rm_init,
     [\<lparr>msg_stream = 5, msg_opcode = 2, msg_response = Some []\<rparr>,
      \<lparr>msg_stream = 6, msg_opcode = 0, msg_response = Some [0xFF]\<rparr>])"
proof -
  define fs where "fs = [\<lparr>fr_version = 0x83, fr_flags = 0, fr_stream = 5, fr_opcode = 2, fr_body = []\<rparr>,
    \<lparr>fr_version = 0x83, fr_flags = 0, fr_stream = 6, fr_opcode = 0, fr_body = [0xFF]\<rparr>]"
  define parse :: "byte \<Rightarrow> byte \<Rightarrow> bytes \<Rightarrow> bytes body_result" where "parse = (\<lambda>v opc b. Parsed b)"
  have r: "frame_response parse f = Some (fr_body f)" if "fr_flags f = 0" for f
    using that by (simp add: frame_response_def decode_body_def parse_def rm_headed_def rm_init_def)
  have "\<forall>f \<in> set fs. frame_ok parse f"
    by (simp add: fs_def frame_ok_def fr_protocol_def allocate_body_def r)
  moreover have "concat [[0x83, 0, 0, 5, 2, 0, 0, 0, 0, 0x83, 0], [0, 6, 0, 0, 0, 0, 1, 0xFF]] =
      concat (map frame_bytes fs)"
    by (simp add: fs_def frame_bytes_def frame_header_def fr_protocol_def encode_int16_eq encode_int32_eq
        encode_uint16_def encode_uint32_def)
  ultimately have "consume_reads parse (\<lambda>m ms. ms @ [m]) (\<lambda>ms. ms)
      [[0x83, 0, 0, 5, 2, 0, 0, 0, 0, 0x83, 0], [0, 6, 0, 0, 0, 0, 1, 0xFF]] rm_init [] =
    Some (rm_init, fold (\<lambda>f ms. ms @ [frame_message parse f]) fs [])"
    by (rule any_cut_dispatches_frames)
  then show ?thesis by (simp add: fs_def frame_message_def r parse_def [symmetric])
qed

end
