(* ===== verification/Error_Response.thy ===== *)
theory Error_Response
  imports Response_Message Retry_Policy
begin

text \<open>
  \<open>error_response.hpp\<close> and \<open>error_response.cpp\<close>: the error messages of the server and the
  accessors of an error result.
\<close>

section \<open>The response\<close>

abbreviation "CQL_ERROR_PROTOCOL_ERROR \<equiv> 0x000A :: u32"
abbreviation "CQL_ERROR_BAD_CREDENTIALS \<equiv> 0x0100 :: u32"
abbreviation "CQL_ERROR_UNAVAILABLE \<equiv> 0x1000 :: u32"
abbreviation "CQL_ERROR_WRITE_TIMEOUT \<equiv> 0x1100 :: u32"
abbreviation "CQL_ERROR_READ_TIMEOUT \<equiv> 0x1200 :: u32"
abbreviation "CQL_ERROR_READ_FAILURE \<equiv> 0x1300 :: u32"
abbreviation "CQL_ERROR_FUNCTION_FAILURE \<equiv> 0x1400 :: u32"
abbreviation "CQL_ERROR_WRITE_FAILURE \<equiv> 0x1500 :: u32"
abbreviation "CQL_ERROR_ALREADY_EXISTS \<equiv> 0x2400 :: u32"
abbreviation "CQL_ERROR_UNPREPARED \<equiv> 0x2500 :: u32"

record error_response =
  er_code :: u32
  er_message :: bytes
  er_prepared_id :: bytes
  er_cl :: consistency
  er_received :: u32
  er_required :: u32
  er_num_failures :: u32
  er_data_present :: byte
  er_write_type :: write_type
  er_keyspace :: bytes
  er_table :: bytes
  er_function :: bytes
  er_arg_types :: "bytes list"

definition er_init :: error_response where
  "er_init = \<lparr>er_code = 0xFFFFFFFF, er_message = [], er_prepared_id = [], er_cl = CL_UNKNOWN,
     er_received = - 1, er_required = - 1, er_num_failures = - 1, er_data_present = 0,
     er_write_type = WT_UNKNOWN, er_keyspace = [], er_table = [], er_function = [], er_arg_types = []\<rparr>"

definition ascii_bytes :: "string \<Rightarrow> bytes" where
  "ascii_bytes s = map of_char s"

definition write_type_of :: "bytes \<Rightarrow> write_type" where
  "write_type_of s =
     (if s = ascii_bytes ''SIMPLE'' then WT_SIMPLE
      else if s = ascii_bytes ''BATCH'' then WT_BATCH
      else if s = ascii_bytes ''UNLOGGED_BATCH'' then WT_UNLOGGED_BATCH
      else if s = ascii_bytes ''COUNTER'' then WT_COUNTER
      else if s = ascii_bytes ''BATCH_LOG'' then WT_BATCH_LOG
      else WT_UNKNOWN)"

definition decode_write_type :: "write_type reader" where
  "decode_write_type pos =
     (case decode_string pos of None \<Rightarrow> None | Some (s, pos) \<Rightarrow> Some (write_type_of s, pos))"

text \<open>
  \<open>decode\<close>; \<open>None\<close> is a read behind the end of the body.
\<close>

definition error_decode :: "bytes \<Rightarrow> error_response option" where
  "error_decode buffer =
     (case bind_reader decode_int32 (\<lambda>code. bind_reader decode_string (\<lambda>msg. ret_reader (code, msg))) buffer of
        None \<Rightarrow> None
      | Some ((code, msg), pos) \<Rightarrow>
        let er = er_init\<lparr>er_code := code, er_message := msg\<rparr> in
        map_option fst
         (if code = CQL_ERROR_UNAVAILABLE then
            bind_reader decode_uint16 (\<lambda>cl. bind_reader decode_int32 (\<lambda>required.
            bind_reader decode_int32 (\<lambda>received.
            ret_reader (er\<lparr>er_cl := cl, er_required := required, er_received := received\<rparr>)))) pos
          else if code = CQL_ERROR_READ_TIMEOUT then
            bind_reader decode_uint16 (\<lambda>cl. bind_reader decode_int32 (\<lambda>received.
            bind_reader decode_int32 (\<lambda>required. bind_reader decode_byte (\<lambda>data.
            ret_reader (er\<lparr>er_cl := cl, er_received := received, er_required := required,
                           er_data_present := data\<rparr>))))) pos
          else if code = CQL_ERROR_WRITE_TIMEOUT then
            bind_reader decode_uint16 (\<lambda>cl. bind_reader decode_int32 (\<lambda>received.
            bind_reader decode_int32 (\<lambda>required. bind_reader decode_write_type (\<lambda>wt.
            ret_reader (er\<lparr>er_cl := cl, er_received := received, er_required := required,
                           er_write_type := wt\<rparr>))))) pos
          else if code = CQL_ERROR_READ_FAILURE then
            bind_reader decode_uint16 (\<lambda>cl. bind_reader decode_int32 (\<lambda>received.
            bind_reader decode_int32 (\<lambda>required. bind_reader decode_int32 (\<lambda>failures.
            bind_reader decode_byte (\<lambda>data.
            ret_reader (er\<lparr>er_cl := cl, er_received := received, er_required := required,
                           er_num_failures := failures, er_data_present := data\<rparr>)))))) pos
          else if code = CQL_ERROR_FUNCTION_FAILURE then
            bind_reader decode_string (\<lambda>keyspace. bind_reader decode_string (\<lambda>function.
            bind_reader decode_stringlist (\<lambda>arg_types.
            ret_reader (er\<lparr>er_keyspace := keyspace, er_function := function, er_arg_types := arg_types\<rparr>)))) pos
          else if code = CQL_ERROR_WRITE_FAILURE then
            bind_reader decode_uint16 (\<lambda>cl. bind_reader decode_int32 (\<lambda>received.
            bind_reader decode_int32 (\<lambda>required. bind_reader decode_int32 (\<lambda>failures.
            bind_reader decode_write_type (\<lambda>wt.
            ret_reader (er\<lparr>er_cl := cl, er_received := received, er_required := required,
                           er_num_failures := failures, er_write_type := wt\<rparr>)))))) pos
          else if code = CQL_ERROR_UNPREPARED then
            bind_reader decode_string (\<lambda>id. ret_reader (er\<lparr>er_prepared_id := id\<rparr>)) pos
          else if code = CQL_ERROR_ALREADY_EXISTS then
            bind_reader decode_string (\<lambda>keyspace. bind_reader decode_string (\<lambda>table.
            ret_reader (er\<lparr>er_keyspace := keyspace, er_table := table\<rparr>))) pos
          else ret_reader er pos))"

section \<open>The accessors of an error result\<close>

text \<open>
  The codes of the interface have the source of the error in the high byte;
  \<open>CASS_ERROR_SERVER_ALREADY_EXISTS\<close> and \<open>CASS_ERROR_SERVER_FUNCTION_FAILURE\<close> are such codes,
  and are compared to the bare code of the response.
\<close>

definition CASS_ERROR :: "u32 \<Rightarrow> u32 \<Rightarrow> u32" where
  "CASS_ERROR source code = push_bit 24 source OR code"

abbreviation CASS_ERROR_SOURCE_SERVER :: u32 where "CASS_ERROR_SOURCE_SERVER \<equiv> 2"

definition CASS_ERROR_SERVER_ALREADY_EXISTS :: u32 where
  "CASS_ERROR_SERVER_ALREADY_EXISTS = CASS_ERROR CASS_ERROR_SOURCE_SERVER 0x2400"

definition CASS_ERROR_SERVER_FUNCTION_FAILURE :: u32 where
  "CASS_ERROR_SERVER_FUNCTION_FAILURE = CASS_ERROR CASS_ERROR_SOURCE_SERVER 0x1400"

definition cass_error_result_code :: "error_response \<Rightarrow> u32" where
  "cass_error_result_code er = CASS_ERROR CASS_ERROR_SOURCE_SERVER (er_code er)"

datatype accessor_error = INVALID_ERROR_RESULT_TYPE | INDEX_OUT_OF_BOUNDS

definition cass_error_result_keyspace :: "error_response \<Rightarrow> accessor_error + bytes" where
  "cass_error_result_keyspace er =
     (if er_code er \<noteq> CASS_ERROR_SERVER_ALREADY_EXISTS \<or> er_code er \<noteq> CASS_ERROR_SERVER_FUNCTION_FAILURE
      then Inl INVALID_ERROR_RESULT_TYPE else Inr (er_keyspace er))"

definition cass_error_result_table :: "error_response \<Rightarrow> accessor_error + bytes" where
  "cass_error_result_table er =
     (if er_code er \<noteq> CASS_ERROR_SERVER_ALREADY_EXISTS
      then Inl INVALID_ERROR_RESULT_TYPE else Inr (er_table er))"

definition cass_error_result_function :: "error_response \<Rightarrow> accessor_error + bytes" where
  "cass_error_result_function er =
     (if er_code er \<noteq> CASS_ERROR_SERVER_FUNCTION_FAILURE
      then Inl INVALID_ERROR_RESULT_TYPE else Inr (er_function er))"

definition cass_error_num_arg_types :: "error_response \<Rightarrow> nat" where
  "cass_error_num_arg_types er = length (er_arg_types er)"

text \<open>An index equal to the number of types passes the test and reads behind the vector (\<open>None\<close>).\<close>

definition cass_error_result_arg_type :: "error_response \<Rightarrow> nat \<Rightarrow> (accessor_error + bytes) option" where
  "cass_error_result_arg_type er index =
     (if er_code er \<noteq> CASS_ERROR_SERVER_FUNCTION_FAILURE then Some (Inl INVALID_ERROR_RESULT_TYPE)
      else if index > length (er_arg_types er) then Some (Inl INDEX_OUT_OF_BOUNDS)
      else if index < length (er_arg_types er) then Some (Inr (er_arg_types er ! index))
      else None)"

text \<open>
  \<open>check_error_or_invalid_response\<close>: what it logs for a message that does not have the
  expected opcode; \<open>None\<close> is an expected one.
\<close>

datatype unexpected = Error_response bytes u32 | Unexpected_opcode byte

definition check_error_or_invalid_response :: "byte \<Rightarrow> byte \<Rightarrow> error_response \<Rightarrow> unexpected option" where
  "check_error_or_invalid_response expected_opcode opcode er =
     (if opcode = expected_opcode then None
      else if opcode = 0 then Some (Error_response (er_message er) (cass_error_result_code er))
      else Some (Unexpected_opcode opcode))"

section \<open>The wire format of an error\<close>

text \<open>The body of an \<open>ERROR\<close> message as the protocol specification lays it out.\<close>

fun write_type_name :: "write_type \<Rightarrow> string" where
  "write_type_name WT_SIMPLE = ''SIMPLE''"
| "write_type_name WT_BATCH = ''BATCH''"
| "write_type_name WT_UNLOGGED_BATCH = ''UNLOGGED_BATCH''"
| "write_type_name WT_COUNTER = ''COUNTER''"
| "write_type_name WT_BATCH_LOG = ''BATCH_LOG''"
| "write_type_name WT_CAS = ''CAS''"
| "write_type_name WT_UNKNOWN = []"

definition error_details_wire :: "error_response \<Rightarrow> bytes" where
  "error_details_wire er =
     (let c = er_code er;
          counts = encode_uint16 (er_cl er) @ encode_int32 (er_received er) @ encode_int32 (er_required er)
      in if c = CQL_ERROR_UNAVAILABLE then
           encode_uint16 (er_cl er) @ encode_int32 (er_required er) @ encode_int32 (er_received er)
         else if c = CQL_ERROR_READ_TIMEOUT then counts @ [er_data_present er]
         else if c = CQL_ERROR_WRITE_TIMEOUT then counts @ string_wire (ascii_bytes (write_type_name (er_write_type er)))
         else if c = CQL_ERROR_READ_FAILURE then
           counts @ encode_int32 (er_num_failures er) @ [er_data_present er]
         else if c = CQL_ERROR_FUNCTION_FAILURE then
           string_wire (er_keyspace er) @ string_wire (er_function er) @ string_list_wire (er_arg_types er)
         else if c = CQL_ERROR_WRITE_FAILURE then
           counts @ encode_int32 (er_num_failures er) @ string_wire (ascii_bytes (write_type_name (er_write_type er)))
         else if c = CQL_ERROR_UNPREPARED then string_wire (er_prepared_id er)
         else if c = CQL_ERROR_ALREADY_EXISTS then string_wire (er_keyspace er) @ string_wire (er_table er)
         else [])"

definition error_wire :: "error_response \<Rightarrow> bytes" where
  "error_wire er = encode_int32 (er_code er) @ string_wire (er_message er) @ error_details_wire er"

text \<open>The fields an error of its code carries, the others with their initial values.\<close>

definition error_fields :: "error_response \<Rightarrow> error_response" where
  "error_fields er =
     (let c = er_code er; e = er_init\<lparr>er_code := c, er_message := er_message er\<rparr>;
          counts = e\<lparr>er_cl := er_cl er, er_received := er_received er, er_required := er_required er\<rparr>
      in if c = CQL_ERROR_UNAVAILABLE then counts
         else if c = CQL_ERROR_READ_TIMEOUT then counts\<lparr>er_data_present := er_data_present er\<rparr>
         else if c = CQL_ERROR_WRITE_TIMEOUT then counts\<lparr>er_write_type := er_write_type er\<rparr>
         else if c = CQL_ERROR_READ_FAILURE then
           counts\<lparr>er_num_failures := er_num_failures er, er_data_present := er_data_present er\<rparr>
         else if c = CQL_ERROR_FUNCTION_FAILURE then
           e\<lparr>er_keyspace := er_keyspace er, er_function := er_function er, er_arg_types := er_arg_types er\<rparr>
         else if c = CQL_ERROR_WRITE_FAILURE then
           counts\<lparr>er_num_failures := er_num_failures er, er_write_type := er_write_type er\<rparr>
         else if c = CQL_ERROR_UNPREPARED then e\<lparr>er_prepared_id := er_prepared_id er\<rparr>
         else if c = CQL_ERROR_ALREADY_EXISTS then
           e\<lparr>er_keyspace := er_keyspace er, er_table := er_table er\<rparr>
         else e)"

definition error_ok :: "error_response \<Rightarrow> bool" where
  "error_ok er \<longleftrightarrow>
     short_string (er_message er) \<and> short_string (er_prepared_id er) \<and> short_string (er_keyspace er) \<and>
     short_string (er_table er) \<and> short_string (er_function er) \<and> string_list_ok (er_arg_types er) \<and>
     er_write_type er \<noteq> WT_CAS"

lemma decode_string_wire [wire_simps]:
  "short_string s \<Longrightarrow> decode_string (string_wire s @ rest) = Some (s, rest)"
  by (rule strings.dec_enc)

lemma short_write_type [simp]: "short_string (ascii_bytes (write_type_name wt))"
  by (cases wt) (simp_all add: short_string_def ascii_bytes_def)

lemma write_type_of_name: "write_type_of (ascii_bytes (write_type_name wt)) = (if wt = WT_CAS then WT_UNKNOWN else wt)"
  by (cases wt) (simp_all add: write_type_of_def ascii_bytes_def)

lemma decode_write_type_wire [wire_simps]:
  "decode_write_type (string_wire (ascii_bytes (write_type_name wt)) @ rest) =
     Some (if wt = WT_CAS then WT_UNKNOWN else wt, rest)"
  by (simp add: decode_write_type_def wire_simps write_type_of_name)

lemma decode_string_list_wire [wire_simps]:
  "string_list_ok ss \<Longrightarrow> decode_stringlist (string_list_wire ss @ rest) = Some (ss, rest)"
  by (rule string_lists.dec_enc)

lemma error_decode_details:
  assumes "error_ok er"
  shows "error_decode (error_wire er @ rest) = Some (error_fields er)"
  using assms [unfolded error_ok_def]
  by (simp add: error_decode_def error_wire_def error_details_wire_def error_fields_def Let_def
      wire_simps bind_reader_def ret_reader_def)

text \<open>
  Every error the protocol defines is decoded with exactly the fields its code carries:
  the counts in the order of the code (\<open>Unavailable\<close> has the required replicas first), the
  write type by its name, the strings and the argument types; all others keep their
  initial values. The write type \<open>CAS\<close> is excepted.
\<close>

theorem error_roundtrip:
  assumes "error_ok er"
  shows "error_decode (error_wire er @ rest) = Some (error_fields er)"
  using assms by (rule error_decode_details)

theorem error_roundtrip_witness:
  "error_decode (error_wire (er_init\<lparr>er_code := CQL_ERROR_WRITE_TIMEOUT, er_cl := CL_QUORUM, er_received := 1,
       er_required := 2, er_write_type := WT_BATCH_LOG\<rparr>) @ [7]) =
   Some (er_init\<lparr>er_code := CQL_ERROR_WRITE_TIMEOUT, er_cl := CL_QUORUM, er_received := 1,
       er_required := 2, er_write_type := WT_BATCH_LOG\<rparr>)"
  by (subst error_roundtrip)
    (simp_all add: error_ok_def er_init_def short_string_def string_list_ok_def error_fields_def Let_def)

text \<open>
  The write type of a failed lightweight transaction, \<open>CAS\<close>, is not recognised although
  the interface has it: it is reported as unknown.
\<close>

lemma cas_write_type_unknown:
  "decode_write_type (string_wire (ascii_bytes (write_type_name WT_CAS)) @ rest) = Some (WT_UNKNOWN, rest)"
  using decode_write_type_wire [of WT_CAS rest] by simp

text \<open>
  The accessors of the keyspace, the table, the function and the argument types refuse
  every error of a server, also the two that carry these details: they compare the code of
  the response with codes that have the source in their high byte, which no code of the
  protocol has.
\<close>

theorem error_details_unreachable:
  assumes "er_code er < 2 ^ 24"
  shows "cass_error_result_keyspace er = Inl INVALID_ERROR_RESULT_TYPE \<and>
         cass_error_result_table er = Inl INVALID_ERROR_RESULT_TYPE \<and>
         cass_error_result_function er = Inl INVALID_ERROR_RESULT_TYPE \<and>
         cass_error_result_arg_type er index = Some (Inl INVALID_ERROR_RESULT_TYPE)"
proof -
  have "er_code er \<noteq> CASS_ERROR_SERVER_ALREADY_EXISTS" "er_code er \<noteq> CASS_ERROR_SERVER_FUNCTION_FAILURE"
    using assms by (auto simp: CASS_ERROR_SERVER_ALREADY_EXISTS_def CASS_ERROR_SERVER_FUNCTION_FAILURE_def CASS_ERROR_def)
  then show ?thesis
    by (simp add: cass_error_result_keyspace_def cass_error_result_table_def cass_error_result_function_def
        cass_error_result_arg_type_def)
qed

theorem error_details_unreachable_witness:
  "cass_error_result_table (er_init\<lparr>er_code := CQL_ERROR_ALREADY_EXISTS, er_table := [0x74]\<rparr>) =
   Inl INVALID_ERROR_RESULT_TYPE"
  using error_details_unreachable [of "er_init\<lparr>er_code := CQL_ERROR_ALREADY_EXISTS, er_table := [0x74]\<rparr>" 0]
  by (simp add: er_init_def)

end
