(* ===== verification/Request_Handler.thy ===== *)
theory Request_Handler
  imports Handler Error_Response Address "HOL-Library.Monad_Syntax"
begin

text \<open>
  \<open>request_handler.cpp\<close>, \<open>prepare_handler.cpp\<close>, \<open>set_keyspace_handler.cpp\<close> and
  \<open>IOWorker::retry\<close>: how a request moves along its query plan, reacts to the responses and
  errors of the server and is finished. What the handler does to other objects is the list
  of its effects, in their order; \<open>None\<close> is a failed assertion or a null pointer.
\<close>

section \<open>State and effects\<close>

type_synonym pool_id = nat
type_synonym connection_id = nat

definition CASS_ERROR_LIB :: "u32 \<Rightarrow> u32" where
  "CASS_ERROR_LIB code = CASS_ERROR 1 code"

abbreviation "LIB_MESSAGE_ENCODE \<equiv> CASS_ERROR_LIB 4"
abbreviation "LIB_UNEXPECTED_RESPONSE \<equiv> CASS_ERROR_LIB 6"
abbreviation "LIB_WRITE_ERROR \<equiv> CASS_ERROR_LIB 9"
abbreviation "LIB_NO_HOSTS_AVAILABLE \<equiv> CASS_ERROR_LIB 10"
abbreviation "LIB_REQUEST_TIMED_OUT \<equiv> CASS_ERROR_LIB 14"
abbreviation "LIB_UNABLE_TO_SET_KEYSPACE \<equiv> CASS_ERROR_LIB 15"

datatype effect =
    Set_response address
  | Set_error u32
  | Set_error_with_host address u32
  | Set_error_with_response address u32
  | Update_latency address nat
  | Return_connection pool_id connection_id
  | Request_finished
  | Dec_ref
  | Defunct connection_id
  | Broadcast_keyspace bytes
  | Schema_change connection_id
  | Write_prepare connection_id
  | Write_request pool_id connection_id
  | Write_set_keyspace pool_id connection_id
  | Wait_for_connection pool_id

record request_handler = handler +
  rh_policy :: retry_policy
  rh_num_retries :: int
  rh_exhausted :: bool
  rh_current :: "address option"
  rh_plan :: "address list"
  rh_io_worker :: bool
  rh_pool :: "pool_id option"
  rh_connection :: "connection_id option"
  rh_effects :: "effect list"

text \<open>
  A new handler with the timestamp of the request, its retry policy and its query plan (the
  hosts \<open>compute_next\<close> returns, in their order).
\<close>

definition request_handler_init :: "int \<Rightarrow> retry_policy \<Rightarrow> address list \<Rightarrow> request_handler" where
  "request_handler_init timestamp policy plan =
     \<lparr>h_state = NEW, h_stream = - 1, h_cl = CL_UNKNOWN, h_timestamp = timestamp, h_start_time = 0,
      h_timer = False, rh_policy = policy, rh_num_retries = 0, rh_exhausted = True, rh_current = None,
      rh_plan = plan, rh_io_worker = False, rh_pool = None, rh_connection = None, rh_effects = []\<rparr>"

definition emit :: "effect \<Rightarrow> request_handler \<Rightarrow> request_handler" where
  "emit e rh = rh\<lparr>rh_effects := rh_effects rh @ [e]\<rparr>"

definition next_host :: "request_handler \<Rightarrow> request_handler" where
  "next_host rh =
     (case rh_plan rh of
        [] \<Rightarrow> rh\<lparr>rh_current := None, rh_exhausted := True\<rparr>
      | a # plan \<Rightarrow> rh\<lparr>rh_plan := plan, rh_current := Some a, rh_exhausted := False\<rparr>)"

section \<open>Finishing\<close>

definition return_connection :: "request_handler \<Rightarrow> request_handler" where
  "return_connection rh =
     (case (rh_pool rh, rh_connection rh) of
        (Some p, Some c) \<Rightarrow> emit (Return_connection p c) rh
      | _ \<Rightarrow> rh)"

definition return_connection_and_finish :: "request_handler \<Rightarrow> request_handler" where
  "return_connection_and_finish rh =
     (let rh = return_connection rh;
          rh = (if rh_io_worker rh then emit Request_finished rh else rh)
      in emit Dec_ref rh)"

definition set_response :: "nat \<Rightarrow> request_handler \<Rightarrow> request_handler option" where
  "set_response now rh =
     (case (rh_current rh, rh_connection rh) of
        (Some a, Some _) \<Rightarrow>
          Some (return_connection_and_finish
                 (emit (Set_response a) (emit (Update_latency a (now - h_start_time rh)) rh)))
      | _ \<Rightarrow> None)"

definition set_error :: "u32 \<Rightarrow> request_handler \<Rightarrow> request_handler option" where
  "set_error code rh =
     (if rh_exhausted rh then Some (return_connection_and_finish (emit (Set_error code) rh))
      else (case rh_current rh of
              Some a \<Rightarrow> Some (return_connection_and_finish (emit (Set_error_with_host a code) rh))
            | None \<Rightarrow> None))"

definition set_error_with_error_response :: "u32 \<Rightarrow> request_handler \<Rightarrow> request_handler option" where
  "set_error_with_error_response code rh =
     (case rh_current rh of
        Some a \<Rightarrow> Some (return_connection_and_finish (emit (Set_error_with_response a code) rh))
      | None \<Rightarrow> None)"

definition rh_on_timeout :: "request_handler \<Rightarrow> request_handler option" where
  "rh_on_timeout rh = (if rh_exhausted rh then None else set_error LIB_REQUEST_TIMED_OUT rh)"

section \<open>Trying the hosts of the plan\<close>

text \<open>
  What the pool of an address answers: there is none or it is not ready, it has no connection
  to lend, or it lends one and the write has one of the outcomes of \<open>Pool::write\<close> and
  \<open>Connection::internal_write\<close>: written with a stream id, no stream left, not encodable in
  the protocol version, refused by the encoder with an error code, or the keyspace of the
  connection is set first.
\<close>

datatype write_outcome = Written int | No_stream | Unencodable | Refused u32 | Keyspace_first

datatype pool_answer = Not_ready | Busy pool_id | Lends pool_id connection_id write_outcome

text \<open>
  \<open>IOWorker::retry\<close>, with the pools as they answer during the call.
\<close>

function io_worker_retry ::
    "nat \<Rightarrow> (address \<Rightarrow> pool_answer) \<Rightarrow> request_handler \<Rightarrow> request_handler option" where
  "io_worker_retry now pools rh =
     (if rh_exhausted rh then set_error LIB_NO_HOSTS_AVAILABLE rh
      else
        (case rh_current rh of
           None \<Rightarrow> None
         | Some a \<Rightarrow>
             (case pools a of
                Lends p c outcome \<Rightarrow>
                  (let rh = rh\<lparr>rh_pool := Some p\<rparr> in
                   case outcome of
                     Written stream \<Rightarrow>
                       (case set_state now WRITING (rh\<lparr>rh_connection := Some c, h_stream := stream\<rparr>) of
                          None \<Rightarrow> None
                        | Some rh \<Rightarrow> Some (emit (Write_request p c) (start_timer rh)))
                   | No_stream \<Rightarrow> io_worker_retry now pools (next_host rh)
                   | Unencodable \<Rightarrow> set_error LIB_MESSAGE_ENCODE (rh\<lparr>rh_connection := Some c\<rparr>)
                   | Refused code \<Rightarrow> set_error code (rh\<lparr>rh_connection := Some c\<rparr>)
                   | Keyspace_first \<Rightarrow> Some (emit (Write_set_keyspace p c) rh))
              | Busy p \<Rightarrow> Some (emit (Wait_for_connection p) (start_timer (rh\<lparr>rh_pool := Some p\<rparr>)))
              | Not_ready \<Rightarrow> io_worker_retry now pools (next_host rh))))"
  by pat_completeness auto
termination
  by (relation "measure (\<lambda>(now, pools, rh). length (rh_plan rh) + (if rh_exhausted rh then 0 else 1))")
    (auto simp: next_host_def split: list.splits)

declare io_worker_retry.simps [simp del]

definition rh_retry :: "nat \<Rightarrow> (address \<Rightarrow> pool_answer) \<Rightarrow> request_handler \<Rightarrow> request_handler option" where
  "rh_retry now pools rh =
     do { rh \<leftarrow> set_state now NEW rh;
          io_worker_retry now pools (rh\<lparr>rh_pool := None\<rparr>) }"

definition rh_on_error :: "nat \<Rightarrow> (address \<Rightarrow> pool_answer) \<Rightarrow> u32 \<Rightarrow> request_handler \<Rightarrow> request_handler option" where
  "rh_on_error now pools code rh =
     (if code = LIB_WRITE_ERROR \<or> code = LIB_UNABLE_TO_SET_KEYSPACE then
        do { rh \<leftarrow> rh_retry now pools (next_host rh);
             Some (return_connection rh) }
      else set_error code rh)"

section \<open>Responses\<close>

text \<open>The parts of the request and of the responses the handler looks at.\<close>

datatype request_kind = Query | Execute bool | Batch "bytes list" | Other_request

datatype result_kind = Rows bool | Schema_change_result | Set_keyspace_result bytes | Prepared_result | Other_result

datatype server_response = Result result_kind | Error error_response | Other_response

text \<open>
  \<open>PrepareHandler::init\<close>: the request that can be prepared again. An \<open>Execute\<close> has the flag
  \<open>skip_metadata\<close>; a \<open>Batch\<close> the ids of its prepared statements.
\<close>

definition prepare_init :: "request_kind \<Rightarrow> bytes \<Rightarrow> bool" where
  "prepare_init request prepared_id =
     (case request of
        Execute _ \<Rightarrow> True
      | Batch ids \<Rightarrow> prepared_id \<in> set ids
      | _ \<Rightarrow> False)"

definition on_result_response ::
    "nat \<Rightarrow> (address \<Rightarrow> pool_answer) \<Rightarrow> request_kind \<Rightarrow> result_kind \<Rightarrow> request_handler \<Rightarrow> request_handler option" where
  "on_result_response now pools request result rh =
     (case result of
        Rows no_metadata \<Rightarrow>
          (case request of
             Execute skip_metadata \<Rightarrow>
               (if no_metadata \<and> \<not> skip_metadata then rh_on_error now pools LIB_UNEXPECTED_RESPONSE rh
                else set_response now rh)
           | _ \<Rightarrow> set_response now rh)
      | Schema_change_result \<Rightarrow>
          (case rh_connection rh of Some c \<Rightarrow> Some (emit (Schema_change c) rh) | None \<Rightarrow> None)
      | Set_keyspace_result keyspace \<Rightarrow> set_response now (emit (Broadcast_keyspace keyspace) rh)
      | _ \<Rightarrow> set_response now rh)"

text \<open>\<open>prepare_written\<close> is the result of writing the prepare request to the connection.\<close>

definition on_error_unprepared ::
    "nat \<Rightarrow> (address \<Rightarrow> pool_answer) \<Rightarrow> request_kind \<Rightarrow> bool \<Rightarrow> error_response \<Rightarrow> request_handler \<Rightarrow> request_handler option" where
  "on_error_unprepared now pools request prepare_written error rh =
     (case rh_connection rh of
        None \<Rightarrow> None
      | Some c \<Rightarrow>
          if prepare_init request (er_prepared_id error) then
            (if prepare_written then Some (emit (Write_prepare c) rh) else rh_retry now pools rh)
          else set_error LIB_UNEXPECTED_RESPONSE (emit (Defunct c) rh))"

definition handle_retry_decision ::
    "nat \<Rightarrow> (address \<Rightarrow> pool_answer) \<Rightarrow> u32 \<Rightarrow> retry_decision \<Rightarrow> request_handler \<Rightarrow> request_handler option" where
  "handle_retry_decision now pools code decision rh =
     do { rh \<leftarrow> (case decision_type decision of
            RETURN_ERROR \<Rightarrow> set_error_with_error_response (CASS_ERROR CASS_ERROR_SOURCE_SERVER code) rh
          | RETRY \<Rightarrow>
              (let rh = rh\<lparr>h_cl := retry_cl decision\<rparr>;
                   rh = (if retry_current_host decision then rh else next_host rh)
               in if h_state rh = DONE then rh_retry now pools rh
                  else set_state now RETRY_WRITE_OUTSTANDING rh)
          | IGNORE \<Rightarrow> set_response now rh);
          Some (rh\<lparr>rh_num_retries := rh_num_retries rh + 1\<rparr>) }"

definition on_error_response ::
    "nat \<Rightarrow> (address \<Rightarrow> pool_answer) \<Rightarrow> request_kind \<Rightarrow> bool \<Rightarrow> error_response \<Rightarrow> request_handler \<Rightarrow> request_handler option" where
  "on_error_response now pools request prepare_written error rh =
     (let code = er_code error; n = rh_num_retries rh; p = rh_policy rh;
          received = sint (er_received error); required = sint (er_required error)
      in if code = CQL_ERROR_UNPREPARED then on_error_unprepared now pools request prepare_written error rh
         else if code = CQL_ERROR_READ_TIMEOUT then
           handle_retry_decision now pools code
             (decide p (ReadTimeout (er_cl error) received required (er_data_present error > 0)) n) rh
         else if code = CQL_ERROR_WRITE_TIMEOUT then
           handle_retry_decision now pools code
             (decide p (WriteTimeout (er_cl error) received required (er_write_type error)) n) rh
         else if code = CQL_ERROR_UNAVAILABLE then
           handle_retry_decision now pools code
             (decide p (Unavailable (er_cl error) required received) n) rh
         else set_error (CASS_ERROR CASS_ERROR_SOURCE_SERVER code) rh)"

definition rh_on_set ::
    "nat \<Rightarrow> (address \<Rightarrow> pool_answer) \<Rightarrow> request_kind \<Rightarrow> bool \<Rightarrow> server_response \<Rightarrow> request_handler \<Rightarrow> request_handler option" where
  "rh_on_set now pools request prepare_written response rh =
     (case rh_connection rh of
        None \<Rightarrow> None
      | Some c \<Rightarrow>
          if rh_exhausted rh then None
          else (case response of
                  Result result \<Rightarrow> on_result_response now pools request result rh
                | Error error \<Rightarrow> on_error_response now pools request prepare_written error rh
                | Other_response \<Rightarrow> set_error LIB_UNEXPECTED_RESPONSE (emit (Defunct c) rh)))"

section \<open>Preparing again and setting the keyspace\<close>

text \<open>
  The reactions of a \<open>PrepareHandler\<close> and of a \<open>SetKeyspaceHandler\<close> on the connection
  \<open>c\<close> to the response of their own request.
\<close>

definition prepare_on_set :: "nat \<Rightarrow> (address \<Rightarrow> pool_answer) \<Rightarrow> server_response \<Rightarrow> request_handler \<Rightarrow> request_handler option" where
  "prepare_on_set now pools response rh =
     (case response of
        Result Prepared_result \<Rightarrow> rh_retry now pools rh
      | Result _ \<Rightarrow> rh_retry now pools (next_host rh)
      | Error _ \<Rightarrow> rh_retry now pools (next_host rh)
      | Other_response \<Rightarrow> Some rh)"

definition prepare_on_error :: "nat \<Rightarrow> (address \<Rightarrow> pool_answer) \<Rightarrow> request_handler \<Rightarrow> request_handler option" where
  "prepare_on_error now pools rh = rh_retry now pools (next_host rh)"

definition set_keyspace_on_error ::
    "nat \<Rightarrow> (address \<Rightarrow> pool_answer) \<Rightarrow> connection_id \<Rightarrow> request_handler \<Rightarrow> request_handler option" where
  "set_keyspace_on_error now pools c rh =
     rh_on_error now pools LIB_UNABLE_TO_SET_KEYSPACE (emit (Defunct c) rh)"

text \<open>
  On success the request itself is written to the connection; \<open>outcome\<close> is how.
\<close>

definition set_keyspace_on_set ::
    "nat \<Rightarrow> (address \<Rightarrow> pool_answer) \<Rightarrow> connection_id \<Rightarrow> write_outcome \<Rightarrow> server_response \<Rightarrow> request_handler \<Rightarrow>
     request_handler option" where
  "set_keyspace_on_set now pools c outcome response rh =
     (case response of
        Result (Set_keyspace_result _) \<Rightarrow>
          (case outcome of
             Written stream \<Rightarrow>
               do { rh \<leftarrow> set_state now WRITING (rh\<lparr>rh_connection := Some c, h_stream := stream\<rparr>);
                    Some (start_timer rh) }
           | Unencodable \<Rightarrow> set_error LIB_MESSAGE_ENCODE (rh\<lparr>rh_connection := Some c\<rparr>)
           | Refused code \<Rightarrow> set_error code (rh\<lparr>rh_connection := Some c\<rparr>)
           | _ \<Rightarrow> rh_retry now pools rh)
      | Result _ \<Rightarrow> set_keyspace_on_error now pools c rh
      | Error _ \<Rightarrow> set_keyspace_on_error now pools c rh
      | Other_response \<Rightarrow> Some rh)"

section \<open>One outcome for every step\<close>

text \<open>
  The effects that finish a request and those that hand it to somebody who will come back to
  it.
\<close>

fun is_future :: "effect \<Rightarrow> bool" where
  "is_future (Set_response _) = True"
| "is_future (Set_error _) = True"
| "is_future (Set_error_with_host _ _) = True"
| "is_future (Set_error_with_response _ _) = True"
| "is_future _ = False"

fun is_handed :: "effect \<Rightarrow> bool" where
  "is_handed (Schema_change _) = True"
| "is_handed (Write_prepare _) = True"
| "is_handed (Write_request _ _) = True"
| "is_handed (Write_set_keyspace _ _) = True"
| "is_handed (Wait_for_connection _) = True"
| "is_handed _ = False"

definition futures :: "effect list \<Rightarrow> nat" where "futures es = length (filter is_future es)"
definition handed :: "effect list \<Rightarrow> nat" where "handed es = length (filter is_handed es)"
definition derefs :: "effect list \<Rightarrow> nat" where "derefs es = length (filter (\<lambda>e. e = Dec_ref) es)"

lemmas counts_defs = futures_def handed_def derefs_def

text \<open>The step from \<open>rh\<close> to \<open>rh'\<close> finished the request, or handed it on.\<close>

definition finished_by :: "request_handler \<Rightarrow> request_handler \<Rightarrow> bool" where
  "finished_by rh rh' \<longleftrightarrow>
     (\<exists>es. rh_effects rh' = rh_effects rh @ es \<and> futures es = 1 \<and> derefs es = 1 \<and> handed es = 0)"

definition handed_by :: "request_handler \<Rightarrow> request_handler \<Rightarrow> bool" where
  "handed_by rh rh' \<longleftrightarrow>
     (\<exists>es. rh_effects rh' = rh_effects rh @ es \<and> futures es = 0 \<and> derefs es = 0 \<and> handed es = 1)"

definition settled_by :: "request_handler \<Rightarrow> request_handler \<Rightarrow> bool" where
  "settled_by rh rh' \<longleftrightarrow> finished_by rh rh' \<or> handed_by rh rh'"

lemma settled_effects:
  "rh_effects rh1 = rh_effects rh2 \<Longrightarrow> settled_by rh1 = settled_by rh2"
  "rh_effects rh1 = rh_effects rh2 \<Longrightarrow> finished_by rh1 = finished_by rh2"
  by (auto simp: settled_by_def finished_by_def handed_by_def fun_eq_iff)

lemma settled_result: "rh_effects rh1 = rh_effects rh2 \<Longrightarrow> settled_by rh rh1 = settled_by rh rh2"
  by (auto simp: settled_by_def finished_by_def handed_by_def fun_eq_iff)

text \<open>Effects that neither finish nor hand on can come before and after.\<close>

definition neutral :: "effect \<Rightarrow> bool" where
  "neutral e \<longleftrightarrow> \<not> is_future e \<and> \<not> is_handed e \<and> e \<noteq> Dec_ref"

lemma neutral_simps [simp]:
  "neutral (Update_latency a n)" "neutral (Return_connection p c)" "neutral Request_finished"
  "neutral (Defunct c)" "neutral (Broadcast_keyspace k)"
  by (simp_all add: neutral_def)

lemma settled_emit_before: "neutral e \<Longrightarrow> settled_by (emit e rh) rh' \<Longrightarrow> settled_by rh rh'"
  by (auto simp: settled_by_def finished_by_def handed_by_def emit_def neutral_def counts_defs)

lemma settled_emit_after: "neutral e \<Longrightarrow> settled_by rh rh' \<Longrightarrow> settled_by rh (emit e rh')"
  by (auto simp: settled_by_def finished_by_def handed_by_def emit_def neutral_def counts_defs)

lemma settled_return_connection: "settled_by rh rh' \<Longrightarrow> settled_by rh (return_connection rh')"
  by (auto simp: return_connection_def intro: settled_emit_after split: option.splits)

lemma finish_effects:
  "rh_effects (return_connection_and_finish rh) = rh_effects rh @
     ((case (rh_pool rh, rh_connection rh) of (Some p, Some c) \<Rightarrow> [Return_connection p c] | _ \<Rightarrow> []) @
      (if rh_io_worker rh then [Request_finished] else [])) @ [Dec_ref]"
  by (simp add: return_connection_and_finish_def return_connection_def emit_def Let_def split: option.splits)

lemma finish_settles:
  assumes "is_future e"
  shows "settled_by rh (return_connection_and_finish (emit e rh))"
proof -
  have fin: "rh_effects (emit e rh) @ x @ y = rh_effects rh @ [e] @ x @ y" for x y by (simp add: emit_def)
  obtain es where es: "rh_effects (return_connection_and_finish (emit e rh)) = rh_effects rh @ [e] @ es @ [Dec_ref]"
      "list_all neutral es"
    by (rule that [OF finish_effects [of "emit e rh", unfolded fin]])
      (simp add: emit_def split: option.splits)
  have e: "filter is_future es = [] \<and> filter is_handed es = [] \<and> filter (\<lambda>e. e = Dec_ref) es = []"
    using es(2) by (auto simp: list_all_iff neutral_def filter_empty_conv)
  have "e \<noteq> Dec_ref" "\<not> is_handed e" using assms by (cases e; simp)+
  then show ?thesis using es(1) e assms
    by (auto simp: settled_by_def finished_by_def counts_defs intro!: exI [of _ "[e] @ es @ [Dec_ref]"])
qed

lemma hand_settles: "is_handed e \<Longrightarrow> settled_by rh (emit e rh)"
  by (cases e) (auto simp: settled_by_def handed_by_def emit_def counts_defs)

lemma set_error_settles: "set_error code rh = Some rh' \<Longrightarrow> settled_by rh rh'"
  by (auto simp: set_error_def intro: finish_settles split: if_splits option.splits)

lemma set_error_with_response_settles: "set_error_with_error_response code rh = Some rh' \<Longrightarrow> settled_by rh rh'"
  by (auto simp: set_error_with_error_response_def intro: finish_settles split: option.splits)

lemma set_response_settles: "set_response now rh = Some rh' \<Longrightarrow> settled_by rh rh'"
  by (auto simp: set_response_def intro: settled_emit_before [OF _ finish_settles] split: option.splits)

lemma set_state_effects: "set_state now s rh = Some rh' \<Longrightarrow> rh_effects rh' = rh_effects rh"
  by (auto simp: set_state_def stop_timer_def split: request_state.splits if_splits)

lemma next_host_effects [simp]: "rh_effects (next_host rh) = rh_effects rh"
  by (simp add: next_host_def split: list.splits)

lemma start_timer_effects [simp]: "rh_effects (start_timer rh) = rh_effects rh"
  by (simp add: start_timer_def)

lemma io_worker_retry_settles: "io_worker_retry now pools rh = Some rh' \<Longrightarrow> settled_by rh rh'"
proof (induction now pools rh rule: io_worker_retry.induct)
  case (1 now pools rh)
  note eff = settled_effects(1)
  show ?case
  proof (cases "rh_exhausted rh")
    case True
    then show ?thesis using "1.prems" by (simp add: io_worker_retry.simps set_error_settles)
  next
    case False
    then obtain a where a: "rh_current rh = Some a"
      using "1.prems" by (auto simp: io_worker_retry.simps [of now pools rh] split: option.splits)
    note step = "1.prems" [unfolded io_worker_retry.simps [of now pools rh], simplified False a, simplified]
    show ?thesis
    proof (cases "pools a")
      case Not_ready
      with step "1.IH"(1) [OF False a Not_ready] eff [of "next_host rh" rh] show ?thesis by simp
    next
      case (Busy p)
      with step have "rh' = emit (Wait_for_connection p) (start_timer (rh\<lparr>rh_pool := Some p\<rparr>))" by simp
      then show ?thesis
        using hand_settles [of "Wait_for_connection p" "start_timer (rh\<lparr>rh_pool := Some p\<rparr>)"] eff [of "start_timer (rh\<lparr>rh_pool := Some p\<rparr>)" rh] by simp
    next
      case (Lends p c w)
      show ?thesis
      proof (cases w)
        case (Written stream)
        with Lends step obtain rh1 where rh1:
          "set_state now WRITING (rh\<lparr>rh_pool := Some p, rh_connection := Some c, h_stream := stream\<rparr>) = Some rh1"
          "rh' = emit (Write_request p c) (start_timer rh1)"
          by (auto split: option.splits)
        with set_state_effects [OF rh1(1)] eff [of "start_timer rh1" rh] show ?thesis
          using hand_settles [of "Write_request p c" "start_timer rh1"] by simp
      next
        case No_stream
        with Lends step "1.IH"(2) [OF False a Lends refl No_stream] eff [of "next_host (rh\<lparr>rh_pool := Some p\<rparr>)" rh]
        show ?thesis by simp
      next
        case Unencodable
        with Lends step set_error_settles eff [of "rh\<lparr>rh_pool := Some p, rh_connection := Some c\<rparr>" rh]
        show ?thesis by fastforce
      next
        case (Refused code)
        with Lends step set_error_settles eff [of "rh\<lparr>rh_pool := Some p, rh_connection := Some c\<rparr>" rh]
        show ?thesis by fastforce
      next
        case Keyspace_first
        with Lends step have "rh' = emit (Write_set_keyspace p c) (rh\<lparr>rh_pool := Some p\<rparr>)" by simp
        then show ?thesis
          using hand_settles [of "Write_set_keyspace p c" "rh\<lparr>rh_pool := Some p\<rparr>"] eff [of "rh\<lparr>rh_pool := Some p\<rparr>" rh] by simp
      qed
    qed
  qed
qed

lemma rh_retry_settles:
  assumes "rh_retry now pools rh = Some rh'"
  shows "settled_by rh rh'"
proof -
  from assms obtain rh1 where rh1: "set_state now NEW rh = Some rh1"
      "io_worker_retry now pools (rh1\<lparr>rh_pool := None\<rparr>) = Some rh'"
    by (auto simp: rh_retry_def Option.bind_eq_Some_conv)
  have "rh_effects (rh1\<lparr>rh_pool := None\<rparr>) = rh_effects rh" using set_state_effects [OF rh1(1)] by simp
  from settled_effects(1) [OF this] io_worker_retry_settles [OF rh1(2)] show ?thesis by simp
qed

lemma rh_retry_next_settles: "rh_retry now pools (next_host rh) = Some rh' \<Longrightarrow> settled_by rh rh'"
  using rh_retry_settles [of now pools "next_host rh" rh'] settled_effects(1) [of "next_host rh" rh] by simp

lemma rh_on_error_settles: "rh_on_error now pools code rh = Some rh' \<Longrightarrow> settled_by rh rh'"
  by (auto simp: rh_on_error_def Option.bind_eq_Some_conv
      intro: set_error_settles settled_return_connection rh_retry_next_settles split: if_splits)

lemma emit_then_settles:
  "set_error code (emit e rh) = Some rh' \<Longrightarrow> neutral e \<Longrightarrow> settled_by rh rh'"
  "set_response now (emit e rh) = Some rh' \<Longrightarrow> neutral e \<Longrightarrow> settled_by rh rh'"
  by (blast intro: settled_emit_before set_error_settles set_response_settles)+

lemma on_result_response_settles:
  "on_result_response now pools request result rh = Some rh' \<Longrightarrow> settled_by rh rh'"
  by (auto simp: on_result_response_def intro: set_response_settles rh_on_error_settles hand_settles
      emit_then_settles(2)
      split: result_kind.splits request_kind.splits if_splits option.splits)

lemma on_error_unprepared_settles:
  "on_error_unprepared now pools request written error rh = Some rh' \<Longrightarrow> settled_by rh rh'"
  by (auto simp: on_error_unprepared_def intro: hand_settles rh_retry_settles
      emit_then_settles(1) split: option.splits if_splits)

text \<open>
  A decision to retry while the write is outstanding is carried out by the write callback.
\<close>

definition settled_or_waits :: "request_handler \<Rightarrow> request_handler \<Rightarrow> bool" where
  "settled_or_waits rh rh' \<longleftrightarrow>
     (settled_by rh rh' \<and> h_state rh' \<noteq> RETRY_WRITE_OUTSTANDING) \<or>
     (rh_effects rh' = rh_effects rh \<and> h_state rh' = RETRY_WRITE_OUTSTANDING)"

lemma settled_rest [simp]:
  "settled_by rh (rh'\<lparr>rh_num_retries := n\<rparr>) = settled_by rh rh'"
  "settled_by (rh\<lparr>h_cl := cl\<rparr>) rh' = settled_by rh rh'"
  using settled_result [of "rh'\<lparr>rh_num_retries := n\<rparr>" rh' rh] settled_effects(1) [of "rh\<lparr>h_cl := cl\<rparr>" rh]
  by simp_all

lemma h_state_emit [simp]: "h_state (emit e rh) = h_state rh"
  by (simp add: emit_def)

lemma h_state_next_host [simp]: "h_state (next_host rh) = h_state rh"
  by (simp add: next_host_def split: list.splits)

lemma h_state_return_connection [simp]: "h_state (return_connection rh) = h_state rh"
  by (simp add: return_connection_def split: option.splits)

lemma h_state_finish [simp]: "h_state (return_connection_and_finish rh) = h_state rh"
  by (simp add: return_connection_and_finish_def Let_def)

lemma h_state_set_error: "set_error code rh = Some rh' \<Longrightarrow> h_state rh' = h_state rh"
  by (auto simp: set_error_def split: if_splits option.splits)

lemma h_state_set_error_with_response:
  "set_error_with_error_response code rh = Some rh' \<Longrightarrow> h_state rh' = h_state rh"
  by (auto simp: set_error_with_error_response_def split: if_splits option.splits)

lemma h_state_set_response: "set_response now rh = Some rh' \<Longrightarrow> h_state rh' = h_state rh"
  by (auto simp: set_response_def split: option.splits)

lemma set_state_WRITING: "set_state now WRITING rh = Some rh' \<Longrightarrow> h_state rh = NEW \<and> h_state rh' = WRITING"
  by (auto simp: set_state_def split: request_state.splits if_splits)

lemma set_state_NEW: "set_state now NEW rh = Some rh' \<Longrightarrow>
    h_state rh' = NEW \<and> h_state rh \<in> {NEW, RETRY_WRITE_OUTSTANDING, DONE}"
  by (auto simp: set_state_def split: request_state.splits if_splits)

lemma io_worker_retry_state:
  "io_worker_retry now pools rh = Some rh' \<Longrightarrow> h_state rh = NEW \<Longrightarrow> h_state rh' \<in> {NEW, WRITING}"
proof (induction now pools rh rule: io_worker_retry.induct)
  case (1 now pools rh)
  show ?case
    using "1.prems" "1.IH"
    by (auto simp: io_worker_retry.simps [of now pools rh] start_timer_def Let_def
        dest!: h_state_set_error set_state_WRITING
        split: if_splits option.splits pool_answer.splits write_outcome.splits)
qed

lemma rh_retry_state: "rh_retry now pools rh = Some rh' \<Longrightarrow> h_state rh' \<in> {NEW, WRITING}"
  by (auto simp: rh_retry_def Option.bind_eq_Some_conv dest!: set_state_NEW io_worker_retry_state)

lemma handle_retry_decision_settles:
  assumes "handle_retry_decision now pools code decision rh = Some rh'"
    and "h_state rh \<noteq> RETRY_WRITE_OUTSTANDING"
  shows "settled_or_waits rh rh'"
proof (cases "decision_type decision")
  case RETURN_ERROR
  then show ?thesis using assms
    by (auto simp: handle_retry_decision_def Option.bind_eq_Some_conv settled_or_waits_def
        dest: set_error_with_response_settles h_state_set_error_with_response)
next
  case IGNORE
  then show ?thesis using assms
    by (auto simp: handle_retry_decision_def Option.bind_eq_Some_conv settled_or_waits_def
        dest: set_response_settles h_state_set_response)
next
  case RETRY
  define rh1 where "rh1 = (if retry_current_host decision then rh\<lparr>h_cl := retry_cl decision\<rparr>
    else next_host (rh\<lparr>h_cl := retry_cl decision\<rparr>))"
  have e: "rh_effects rh1 = rh_effects rh" by (simp add: rh1_def)
  obtain rh2 where rh2: "rh' = rh2\<lparr>rh_num_retries := rh_num_retries rh2 + 1\<rparr>"
    "if h_state rh1 = DONE then rh_retry now pools rh1 = Some rh2
     else set_state now RETRY_WRITE_OUTSTANDING rh1 = Some rh2"
    using assms(1) RETRY
    by (auto simp: handle_retry_decision_def Option.bind_eq_Some_conv Let_def rh1_def [symmetric] split: if_splits)
  show ?thesis
  proof (cases "h_state rh1 = DONE")
    case True
    with rh2 have "rh_retry now pools rh1 = Some rh2" by simp
    from rh_retry_settles [OF this] rh_retry_state [OF this] settled_effects(1) [OF e] show ?thesis
      by (auto simp: settled_or_waits_def rh2(1))
  next
    case False
    with rh2 have s: "set_state now RETRY_WRITE_OUTSTANDING rh1 = Some rh2" by simp
    then have "h_state rh2 = RETRY_WRITE_OUTSTANDING"
      by (auto simp: set_state_def split: request_state.splits if_splits)
    with set_state_effects [OF s] e show ?thesis by (simp add: settled_or_waits_def rh2(1))
  qed
qed

lemma settled_kept:
  "settled_by rh rh' \<Longrightarrow> h_state rh' = h_state rh \<Longrightarrow> h_state rh \<noteq> RETRY_WRITE_OUTSTANDING \<Longrightarrow> settled_or_waits rh rh'"
  by (simp add: settled_or_waits_def)

lemma settled_retried: "rh_retry now pools rh = Some rh' \<Longrightarrow> settled_or_waits rh rh'"
  using rh_retry_settles [of now pools rh rh'] rh_retry_state [of now pools rh rh']
  by (auto simp: settled_or_waits_def)

lemma on_result_response_state:
  "on_result_response now pools request result rh = Some rh' \<Longrightarrow> h_state rh' = h_state rh"
  by (auto simp: on_result_response_def rh_on_error_def CASS_ERROR_LIB_def CASS_ERROR_def
      dest: h_state_set_response h_state_set_error
      split: result_kind.splits request_kind.splits if_splits option.splits)

lemma on_error_unprepared_waits:
  assumes "on_error_unprepared now pools request written error rh = Some rh'"
    and "h_state rh \<noteq> RETRY_WRITE_OUTSTANDING"
  shows "settled_or_waits rh rh'"
proof (cases "rh_connection rh")
  case (Some c)
  consider (retry) "rh_retry now pools rh = Some rh'" | (same) "h_state rh' = h_state rh"
    using assms(1) Some
    by (auto simp: on_error_unprepared_def dest: h_state_set_error split: if_splits)
  then show ?thesis
    by cases (use assms on_error_unprepared_settles in \<open>auto intro: settled_retried settled_kept\<close>)
qed (use assms in \<open>simp add: on_error_unprepared_def\<close>)


section \<open>The first host that takes the request\<close>

definition takes :: "pool_answer \<Rightarrow> bool" where
  "takes ans = (case ans of Not_ready \<Rightarrow> False | Lends _ _ No_stream \<Rightarrow> False | _ \<Rightarrow> True)"

definition hosts_left :: "request_handler \<Rightarrow> address list" where
  "hosts_left rh = (case rh_current rh of None \<Rightarrow> [] | Some a \<Rightarrow> a # rh_plan rh)"

text \<open>What is done with a request at the host that takes it.\<close>

fun taken_effect :: "address \<Rightarrow> pool_answer \<Rightarrow> effect" where
  "taken_effect a (Lends p c (Written stream)) = Write_request p c"
| "taken_effect a (Lends p c Keyspace_first) = Write_set_keyspace p c"
| "taken_effect a (Lends p c (Refused code)) = Set_error_with_host a code"
| "taken_effect a (Lends p c Unencodable) = Set_error_with_host a LIB_MESSAGE_ENCODE"
| "taken_effect a (Busy p) = Wait_for_connection p"
| "taken_effect a _ = Set_error LIB_NO_HOSTS_AVAILABLE"

text \<open>The flag of an exhausted plan agrees with the current host.\<close>

definition plan_ok :: "request_handler \<Rightarrow> bool" where
  "plan_ok rh \<longleftrightarrow> (rh_exhausted rh \<longleftrightarrow> rh_current rh = None) \<and> (rh_exhausted rh \<longrightarrow> rh_plan rh = [])"

lemma plan_ok_next_host [simp]: "plan_ok (next_host rh)"
  by (simp add: plan_ok_def next_host_def split: list.splits)

lemma hosts_left_next_host: "hosts_left (next_host rh) = rh_plan rh"
  by (simp add: hosts_left_def next_host_def split: list.splits)

lemma set_error_result:
  assumes "plan_ok rh"
  shows "\<exists>rh' es. set_error code rh = Some rh' \<and> rh_effects rh' = rh_effects rh @ es \<and>
           (case rh_current rh of None \<Rightarrow> Set_error code | Some a \<Rightarrow> Set_error_with_host a code) \<in> set es \<and>
           rh_current rh' = rh_current rh \<and> rh_plan rh' = rh_plan rh"
proof (cases "rh_current rh")
  case None
  with assms show ?thesis
    by (simp add: plan_ok_def set_error_def finish_effects return_connection_and_finish_def
        return_connection_def Let_def emit_def split: option.splits)
next
  case (Some a)
  with assms show ?thesis
    by (simp add: plan_ok_def set_error_def finish_effects return_connection_and_finish_def
        return_connection_def Let_def emit_def split: option.splits)
qed

definition tried :: "(address \<Rightarrow> pool_answer) \<Rightarrow> request_handler \<Rightarrow> request_handler \<Rightarrow> bool" where
  "tried pools rh rh' \<longleftrightarrow>
     (\<exists>es. rh_effects rh' = rh_effects rh @ es \<and>
       (case dropWhile (\<lambda>a. \<not> takes (pools a)) (hosts_left rh) of
          [] \<Rightarrow> rh_current rh' = None \<and> Set_error LIB_NO_HOSTS_AVAILABLE \<in> set es
        | a # plan \<Rightarrow> rh_current rh' = Some a \<and> rh_plan rh' = plan \<and> taken_effect a (pools a) \<in> set es))"

lemma tried_skip:
  assumes "\<not> takes (pools a)" and "rh_current rh = Some a"
    and "rh_effects rh1 = rh_effects rh" and "hosts_left rh1 = rh_plan rh"
    and "tried pools rh1 rh'"
  shows "tried pools rh rh'"
  using assms by (simp add: tried_def hosts_left_def)

lemma tried_taken:
  assumes "takes (pools a)" and "rh_current rh = Some a" and "rh_effects rh' = rh_effects rh @ es"
    and "taken_effect a (pools a) \<in> set es" and "rh_current rh' = Some a" and "rh_plan rh' = rh_plan rh"
  shows "tried pools rh rh'"
  using assms by (simp add: tried_def hosts_left_def)

lemma io_worker_retry_tried:
  "plan_ok rh \<Longrightarrow> h_state rh = NEW \<Longrightarrow> \<exists>rh'. io_worker_retry now pools rh = Some rh' \<and> tried pools rh rh'"
proof (induction now pools rh rule: io_worker_retry.induct)
  case (1 now pools rh)
  note simps = io_worker_retry.simps [of now pools rh]
  show ?case
  proof (cases "rh_exhausted rh")
    case True
    with "1.prems"(1) have "rh_current rh = None" by (simp add: plan_ok_def)
    with True set_error_result [OF "1.prems"(1), of LIB_NO_HOSTS_AVAILABLE] show ?thesis
      by (auto simp: simps tried_def hosts_left_def)
  next
    case False
    then obtain a where a: "rh_current rh = Some a" using "1.prems"(1) by (auto simp: plan_ok_def)
    show ?thesis
    proof (cases "pools a")
      case Not_ready
      from "1.IH"(1) [OF False a Not_ready] "1.prems"(2) obtain rh' where
        "io_worker_retry now pools (next_host rh) = Some rh'" "tried pools (next_host rh) rh'" by auto
      with tried_skip [OF _ a _ hosts_left_next_host] Not_ready False a show ?thesis
        by (simp add: simps takes_def)
    next
      case (Busy p)
      show ?thesis using False a Busy "1.prems"
        by (auto simp: simps emit_def start_timer_def takes_def intro!: tried_taken)
    next
      case (Lends p c w)
      show ?thesis
      proof (cases w)
        case No_stream
        from "1.IH"(2) [OF False a Lends refl No_stream] "1.prems"(2) obtain rh' where
          "io_worker_retry now pools (next_host (rh\<lparr>rh_pool := Some p\<rparr>)) = Some rh'"
          "tried pools (next_host (rh\<lparr>rh_pool := Some p\<rparr>)) rh'" by auto
        with tried_skip [of pools a rh "next_host (rh\<lparr>rh_pool := Some p\<rparr>)" rh'] Lends No_stream False a
        show ?thesis by (simp add: simps takes_def hosts_left_next_host)
      next
        case (Written stream)
        show ?thesis using False a Lends Written "1.prems"
          by (auto simp: simps Let_def emit_def start_timer_def set_state_def takes_def intro!: tried_taken)
      next
        case Keyspace_first
        show ?thesis using False a Lends Keyspace_first "1.prems"
          by (auto simp: simps Let_def emit_def takes_def intro!: tried_taken)
      next
        case Unencodable
        have "plan_ok (rh\<lparr>rh_pool := Some p, rh_connection := Some c\<rparr>)" using "1.prems"(1) by (simp add: plan_ok_def)
        from set_error_result [OF this, of LIB_MESSAGE_ENCODE] Unencodable False a Lends show ?thesis
          by (auto simp: simps Let_def takes_def tried_def hosts_left_def)
      next
        case (Refused code)
        have "plan_ok (rh\<lparr>rh_pool := Some p, rh_connection := Some c\<rparr>)" using "1.prems"(1) by (simp add: plan_ok_def)
        from set_error_result [OF this, of code] Refused False a Lends show ?thesis
          by (auto simp: simps Let_def takes_def tried_def hosts_left_def)
      qed
    qed
  qed
qed


definition example_handler :: request_handler where
  "example_handler = next_host (request_handler_init 0 Default
     [Inet 1 9042, Inet 2 9042])"



section \<open>Retries are bounded\<close>

text \<open>
  After one decision of the retry policy, whichever policy it is, the next read timeout,
  write timeout or unavailable error finishes the request with the error of the server and
  the host it came from: a request is not sent a third time because of such errors.
\<close>

theorem second_error_finishes:
  assumes "rh_num_retries rh \<noteq> 0" and "rh_connection rh = Some c" and "rh_current rh = Some a"
    and "\<not> rh_exhausted rh"
    and "er_code error \<in> {CQL_ERROR_READ_TIMEOUT, CQL_ERROR_WRITE_TIMEOUT, CQL_ERROR_UNAVAILABLE}"
  shows "\<exists>rh'. rh_on_set now pools request written (Error error) rh = Some rh' \<and> finished_by rh rh' \<and>
           Set_error_with_response a (CASS_ERROR CASS_ERROR_SOURCE_SERVER (er_code error)) \<in> set (rh_effects rh')"
proof -
  define code where "code = CASS_ERROR CASS_ERROR_SOURCE_SERVER (er_code error)"
  define rh1 where "rh1 = return_connection_and_finish (emit (Set_error_with_response a code) rh)"
  have "rh_on_set now pools request written (Error error) rh =
      handle_retry_decision now pools (er_code error) return_error rh"
    using assms by (auto simp: rh_on_set_def on_error_response_def Let_def policies_give_up)
  also have "\<dots> = Some (rh1\<lparr>rh_num_retries := rh_num_retries rh1 + 1\<rparr>)"
    using assms(3) by (simp add: handle_retry_decision_def return_error_def set_error_with_error_response_def
        rh1_def code_def)
  finally have s: "rh_on_set now pools request written (Error error) rh =
      Some (rh1\<lparr>rh_num_retries := rh_num_retries rh1 + 1\<rparr>)" .
  obtain es where es: "rh_effects rh1 = rh_effects rh @ [Set_error_with_response a code] @ es @ [Dec_ref]" "list_all neutral es"
    by (auto simp: rh1_def finish_effects emit_def split: option.splits)
  have "filter is_future es = [] \<and> filter is_handed es = [] \<and> filter (\<lambda>e. e = Dec_ref) es = []"
    using es(2) by (auto simp: list_all_iff neutral_def filter_empty_conv)
  then have "finished_by rh rh1" using es(1)
    by (auto simp: finished_by_def counts_defs intro!: exI [of _ "[Set_error_with_response a code] @ es @ [Dec_ref]"])
  then have "finished_by rh (rh1\<lparr>rh_num_retries := rh_num_retries rh1 + 1\<rparr>)" by (simp add: finished_by_def)
  with s es(1) show ?thesis by (auto simp: code_def)
qed

theorem second_error_finishes_witness:
  "\<exists>rh'. rh_on_set 5 (\<lambda>a. Busy 7) Query True (Error (er_init\<lparr>er_code := CQL_ERROR_UNAVAILABLE\<rparr>))
      (example_handler\<lparr>h_state := DONE, rh_connection := Some 3, rh_num_retries := 1\<rparr>) = Some rh' \<and>
     finished_by (example_handler\<lparr>h_state := DONE, rh_connection := Some 3, rh_num_retries := 1\<rparr>) rh' \<and>
     Set_error_with_response (Inet 1 9042)
       (CASS_ERROR CASS_ERROR_SOURCE_SERVER CQL_ERROR_UNAVAILABLE) \<in> set (rh_effects rh')"
  using second_error_finishes
    [of "example_handler\<lparr>h_state := DONE, rh_connection := Some 3, rh_num_retries := 1\<rparr>" 3
        "Inet 1 9042" "er_init\<lparr>er_code := CQL_ERROR_UNAVAILABLE\<rparr>" 5
        "\<lambda>a. Busy 7" Query True]
  by (simp add: example_handler_def request_handler_init_def next_host_def er_init_def)

section \<open>Two flaws\<close>

text \<open>
  When an \<open>UNPREPARED\<close> error arrives before the write callback of the request and the
  prepare request finds no free stream id on the connection, the handler is retried in the
  state \<open>READ_BEFORE_WRITE\<close>, from which no new attempt is allowed: the assertion of
  \<open>set_state\<close> fails.
\<close>

theorem unprepared_before_write_asserts:
  assumes "h_state rh = READ_BEFORE_WRITE" and "er_code error = CQL_ERROR_UNPREPARED"
    and "prepare_init request (er_prepared_id error)"
  shows "rh_on_set now pools request False (Error error) rh = None"
  using assms
  by (simp add: rh_on_set_def on_error_response_def on_error_unprepared_def rh_retry_def set_state_def
      split: option.splits)

theorem unprepared_before_write_asserts_witness:
  "rh_on_set 5 (\<lambda>a. Busy 7) (Execute True) False (Error (er_init\<lparr>er_code := CQL_ERROR_UNPREPARED\<rparr>))
     (example_handler\<lparr>h_state := READ_BEFORE_WRITE, rh_connection := Some 3\<rparr>) = None"
  by (rule unprepared_before_write_asserts) (simp_all add: er_init_def prepare_init_def)

text \<open>
  When setting the keyspace fails for a request that was tried on another connection
  before and the next host is busy, that old connection is returned to the pool of the next
  host, which does not own it; a ready connection then gets a request meant for the other
  host.
\<close>

theorem foreign_connection_returned:
  assumes "h_state rh = NEW" and "rh_connection rh = Some c" and "rh_plan rh = a # plan" and "pools a = Busy p"
  shows "\<exists>rh'. set_keyspace_on_error now pools c' rh = Some rh' \<and>
           rh_effects rh' = rh_effects rh @ [Defunct c', Wait_for_connection p, Return_connection p c]"
  using assms
  by (simp add: set_keyspace_on_error_def rh_on_error_def rh_retry_def next_host_def emit_def set_state_def
      io_worker_retry.simps start_timer_def return_connection_def)

theorem foreign_connection_returned_witness:
  "\<exists>rh'. set_keyspace_on_error 0 (\<lambda>a. Busy 7) 4 (example_handler\<lparr>rh_connection := Some 3\<rparr>) = Some rh' \<and>
     rh_effects rh' = [Defunct 4, Wait_for_connection 7, Return_connection 7 3]"
  using foreign_connection_returned [of "example_handler\<lparr>rh_connection := Some 3\<rparr>" 3 _ _ "\<lambda>a. Busy 7" 7 0 4]
  by (simp add: example_handler_def request_handler_init_def next_host_def)

end
