(* ===== verification/Connection.thy ===== *)
theory Connection
  imports Handler "HOL-Library.Monad_Syntax"
begin

text \<open>
  \<open>connection.hpp\<close> and \<open>connection.cpp\<close>: the states of a connection, the handshake, the writes
  and their water marks, and what becomes of a request on the connection. The socket, the
  timers and the listener are the events they are told; encryption is not modelled. \<open>None\<close>
  is a failed assertion.
\<close>

section \<open>The states of a connection\<close>

datatype connection_state =
    C_NEW | C_CONNECTING | C_CONNECTED | C_REGISTERING_EVENTS | C_READY | C_OVERWHELMED
  | C_CLOSE | C_CLOSE_DEFUNCT

datatype connection_error = ERROR_OK | ERROR_GENERIC | ERROR_TIMEOUT | ERROR_INVALID_PROTOCOL | ERROR_AUTH | ERROR_SSL

datatype startup_request =
    Options_request | Startup_request | Credentials_request | Auth_response_request bytes
  | Register_request int | Use_request bytes

datatype connection_event =
    Availability_change bool
  | Notify_ready
  | Uv_close
  | Sent startup_request
  | Heartbeat_sent

record connection =
  c_state :: connection_state
  c_error :: connection_error
  c_writes_size :: nat
  c_writes :: "(bool \<times> nat) list"
  c_keyspace :: bytes
  c_protocol_version :: int
  c_event_types :: int
  c_connect_timer :: bool
  c_heartbeat_timer :: bool
  c_idle_start :: u64
  c_heartbeat_outstanding :: bool
  c_uv_closing :: bool
  c_events :: "connection_event list"

text \<open>The configuration the connection reads.\<close>

record connection_config =
  cf_high_water_mark :: nat
  cf_low_water_mark :: nat
  cf_heartbeat_secs :: nat
  cf_idle_timeout_secs :: nat
  cf_auth_v1 :: bool
  cf_auth :: "bytes option"

definition connection_init :: "bytes \<Rightarrow> int \<Rightarrow> int \<Rightarrow> connection" where
  "connection_init keyspace protocol_version event_types =
     \<lparr>c_state = C_NEW, c_error = ERROR_OK, c_writes_size = 0, c_writes = [], c_keyspace = keyspace,
      c_protocol_version = protocol_version, c_event_types = event_types, c_connect_timer = False,
      c_heartbeat_timer = False, c_idle_start = 0, c_heartbeat_outstanding = False,
      c_uv_closing = False, c_events = []\<rparr>"

definition tell :: "connection_event \<Rightarrow> connection \<Rightarrow> connection" where
  "tell e c = c\<lparr>c_events := c_events c @ [e]\<rparr>"

fun allowed :: "connection_state \<Rightarrow> connection_state \<Rightarrow> bool" where
  "allowed C_NEW s = (s = C_CONNECTING)"
| "allowed C_CONNECTING s = (s \<in> {C_CONNECTED, C_CLOSE, C_CLOSE_DEFUNCT})"
| "allowed C_CONNECTED s = (s \<in> {C_REGISTERING_EVENTS, C_READY, C_CLOSE, C_CLOSE_DEFUNCT})"
| "allowed C_REGISTERING_EVENTS s = (s \<in> {C_READY, C_CLOSE, C_CLOSE_DEFUNCT})"
| "allowed C_READY s = (s \<in> {C_OVERWHELMED, C_CLOSE, C_CLOSE_DEFUNCT})"
| "allowed C_OVERWHELMED s = (s \<in> {C_READY, C_CLOSE, C_CLOSE_DEFUNCT})"
| "allowed C_CLOSE s = False"
| "allowed C_CLOSE_DEFUNCT s = False"

text \<open>The listener asks for the availability when it is told, after the change.\<close>

definition connection_set_state :: "connection_state \<Rightarrow> connection \<Rightarrow> connection option" where
  "connection_set_state new_state c =
     (if new_state = c_state c then Some c
      else if allowed (c_state c) new_state then
        (let old_state = c_state c; c = c\<lparr>c_state := new_state\<rparr>
         in Some (if new_state = C_READY \<or> old_state = C_READY
                  then tell (Availability_change (c_state c = C_READY)) c else c))
      else None)"

definition is_closing :: "connection \<Rightarrow> bool" where
  "is_closing c \<longleftrightarrow> c_state c = C_CLOSE \<or> c_state c = C_CLOSE_DEFUNCT"

definition internal_close :: "connection_state \<Rightarrow> connection \<Rightarrow> connection option" where
  "internal_close close_state c =
     (if \<not> is_closing c then
        if \<not> c_uv_closing c then
          (case connection_set_state close_state (c\<lparr>c_heartbeat_timer := False, c_connect_timer := False\<rparr>) of
             None \<Rightarrow> None
           | Some c \<Rightarrow> Some (tell Uv_close (c\<lparr>c_uv_closing := True\<rparr>)))
        else Some c
      else Some c)"

definition connection_close :: "connection \<Rightarrow> connection option" where
  "connection_close c = internal_close C_CLOSE c"

definition defunct :: "connection \<Rightarrow> connection option" where
  "defunct c = internal_close C_CLOSE_DEFUNCT c"

text \<open>\<open>log_error\<close> closes the connection too.\<close>

definition notify_error :: "connection_error \<Rightarrow> connection \<Rightarrow> connection option" where
  "notify_error code c =
     (if code = ERROR_OK then None
      else
        let c = c\<lparr>c_error := code\<rparr>
        in if code = ERROR_INVALID_PROTOCOL then defunct c
           else do { c \<leftarrow> defunct c; defunct c })"

section \<open>Writing\<close>

text \<open>
  A pending write is flushed or not, and has the size of its requests. The last one takes
  further requests as long as it is not flushed; an empty one is not flushed.
\<close>

definition add_to_writes :: "nat \<Rightarrow> (bool \<times> nat) list \<Rightarrow> (bool \<times> nat) list" where
  "add_to_writes n ws =
     (if ws = [] \<or> fst (last ws) then ws @ [(False, n)]
      else butlast ws @ [(False, snd (last ws) + n)])"

definition flush_writes :: "(bool \<times> nat) list \<Rightarrow> (bool \<times> nat) list" where
  "flush_writes ws = (if ws = [] then [] else butlast ws @ [(fst (last ws) \<or> snd (last ws) > 0, snd (last ws))])"

definition connection_flush :: "connection \<Rightarrow> connection" where
  "connection_flush c = c\<lparr>c_writes := flush_writes (c_writes c)\<rparr>"

definition restart_heartbeat_timer :: "connection_config \<Rightarrow> connection \<Rightarrow> connection" where
  "restart_heartbeat_timer cf c = (if cf_heartbeat_secs cf > 0 then c\<lparr>c_heartbeat_timer := True\<rparr> else c)"

text \<open>
  \<open>internal_write\<close> for a request that got a stream id and encodes to \<open>n\<close> bytes, and for one
  that does not encode; without a stream id the connection does not change.
\<close>

definition internal_write_unencodable :: "connection \<Rightarrow> connection" where
  "internal_write_unencodable c = c\<lparr>c_writes := add_to_writes 0 (c_writes c)\<rparr>"

definition internal_write :: "connection_config \<Rightarrow> bool \<Rightarrow> bool \<Rightarrow> nat \<Rightarrow> connection \<Rightarrow> connection option" where
  "internal_write cf flush_immediately reset_idle_time n c =
     (let c = c\<lparr>c_writes := add_to_writes n (c_writes c), c_writes_size := c_writes_size c + n\<rparr> in
      do { c \<leftarrow> (if c_writes_size c > cf_high_water_mark cf then connection_set_state C_OVERWHELMED c else Some c);
           let c = (if flush_immediately then connection_flush c else c) in
           Some (if reset_idle_time then restart_heartbeat_timer cf (c\<lparr>c_idle_start := 0\<rparr>) else c) })"

text \<open>The write callback of the first pending write, as far as the connection goes.\<close>

definition on_write :: "connection_config \<Rightarrow> connection \<Rightarrow> connection option" where
  "on_write cf c =
     (case c_writes c of
        [] \<Rightarrow> None
      | (_, n) # ws \<Rightarrow>
          let c = c\<lparr>c_writes_size := c_writes_size c - n\<rparr> in
          do { c \<leftarrow> (if c_writes_size c < cf_low_water_mark cf \<and> c_state c = C_OVERWHELMED
                     then connection_set_state C_READY c else Some c);
               Some (connection_flush (c\<lparr>c_writes := ws\<rparr>)) })"

section \<open>The handshake\<close>

definition connect :: "connection \<Rightarrow> connection option" where
  "connect c =
     (if c_state c = C_NEW then
        do { c \<leftarrow> connection_set_state C_CONNECTING c; Some (c\<lparr>c_connect_timer := True\<rparr>) }
      else Some c)"

text \<open>A request of the handshake, which is flushed at once.\<close>

definition send_startup :: "connection_config \<Rightarrow> startup_request \<Rightarrow> nat \<Rightarrow> connection \<Rightarrow> connection option" where
  "send_startup cf r n c = do { c \<leftarrow> internal_write cf True True n c; Some (tell (Sent r) c) }"

definition notify_ready :: "connection_config \<Rightarrow> connection \<Rightarrow> connection option" where
  "notify_ready cf c =
     do { c \<leftarrow> connection_set_state C_READY (restart_heartbeat_timer cf (c\<lparr>c_connect_timer := False\<rparr>));
          Some (tell Notify_ready c) }"

definition on_connect :: "connection_config \<Rightarrow> bool \<Rightarrow> nat \<Rightarrow> connection \<Rightarrow> connection option" where
  "on_connect cf connected n c =
     (if \<not> c_connect_timer c then Some c
      else if connected then
        do { c \<leftarrow> connection_set_state C_CONNECTED c; send_startup cf Options_request n c }
      else notify_error ERROR_GENERIC c)"

text \<open>The timer has stopped itself when its callback runs.\<close>

definition on_connect_timeout :: "connection \<Rightarrow> connection option" where
  "on_connect_timeout c = notify_error ERROR_TIMEOUT (c\<lparr>c_connect_timer := False\<rparr>)"

definition connection_on_ready :: "connection_config \<Rightarrow> nat \<Rightarrow> connection \<Rightarrow> connection option" where
  "connection_on_ready cf n c =
     (if c_state c = C_CONNECTED \<and> c_event_types c \<noteq> 0 then
        do { c \<leftarrow> connection_set_state C_REGISTERING_EVENTS c;
             send_startup cf (Register_request (c_event_types c)) n c }
      else if c_keyspace c = [] then notify_ready cf c
      else send_startup cf (Use_request (c_keyspace c)) n c)"

definition send_initial_auth_response :: "connection_config \<Rightarrow> nat \<Rightarrow> connection \<Rightarrow> connection option" where
  "send_initial_auth_response cf n c =
     (case cf_auth cf of
        None \<Rightarrow> notify_error ERROR_AUTH c
      | Some initial \<Rightarrow> send_startup cf (Auth_response_request initial) n c)"

definition send_credentials :: "connection_config \<Rightarrow> nat \<Rightarrow> connection \<Rightarrow> connection option" where
  "send_credentials cf n c =
     (if cf_auth_v1 cf then send_startup cf Credentials_request n c
      else send_initial_auth_response cf n c)"

definition on_authenticate :: "connection_config \<Rightarrow> nat \<Rightarrow> connection \<Rightarrow> connection option" where
  "on_authenticate cf n c =
     (if c_protocol_version c = 1 then send_credentials cf n c else send_initial_auth_response cf n c)"

text \<open>
  What the handler of a handshake request looks at in the response; an error is classified by
  its code and message. The answer to a challenge is that of the authenticator.
\<close>

datatype startup_response =
    Supported | Protocol_error | Bad_credentials | Other_error | Authenticate | Auth_challenge bytes
  | Auth_success | Ready | Set_keyspace_done | Other_result_kind | Other_opcode

definition startup_on_set :: "connection_config \<Rightarrow> nat \<Rightarrow> startup_response \<Rightarrow> connection \<Rightarrow> connection option" where
  "startup_on_set cf n response c =
     (case response of
        Supported \<Rightarrow> send_startup cf Startup_request n c
      | Protocol_error \<Rightarrow> notify_error ERROR_INVALID_PROTOCOL c
      | Bad_credentials \<Rightarrow> notify_error ERROR_AUTH c
      | Other_error \<Rightarrow> notify_error ERROR_GENERIC c
      | Authenticate \<Rightarrow> on_authenticate cf n c
      | Auth_challenge answer \<Rightarrow> send_startup cf (Auth_response_request answer) n c
      | Auth_success \<Rightarrow> connection_on_ready cf n c
      | Ready \<Rightarrow> connection_on_ready cf n c
      | Set_keyspace_done \<Rightarrow> notify_ready cf c
      | Other_result_kind \<Rightarrow> notify_error ERROR_GENERIC c
      | Other_opcode \<Rightarrow> notify_error ERROR_GENERIC c)"

definition startup_on_error :: "connection \<Rightarrow> connection option" where
  "startup_on_error c = notify_error ERROR_GENERIC c"

definition startup_on_timeout :: "connection \<Rightarrow> connection option" where
  "startup_on_timeout c = (if \<not> is_closing c then notify_error ERROR_TIMEOUT c else Some c)"

section \<open>Heartbeats\<close>

text \<open>
  \<open>on_heartbeat\<close> at the time \<open>now\<close>, in unsigned milliseconds, whose difference wraps; \<open>written\<close>
  is whether there is a stream id. The timer has stopped itself.
\<close>

definition on_heartbeat :: "connection_config \<Rightarrow> u64 \<Rightarrow> bool \<Rightarrow> nat \<Rightarrow> connection \<Rightarrow> connection option" where
  "on_heartbeat cf now written n c =
     (let c = c\<lparr>c_heartbeat_timer := False\<rparr> in
      if c_idle_start c \<noteq> 0 \<and> unat ((now - c_idle_start c) div 1000) > cf_idle_timeout_secs cf then
        notify_error ERROR_TIMEOUT c
      else
        let c = (if c_idle_start c = 0 then c\<lparr>c_idle_start := now\<rparr> else c) in
        if c_heartbeat_outstanding c then Some (restart_heartbeat_timer cf c)
        else if written then
          do { c \<leftarrow> internal_write cf True False n c;
               Some (restart_heartbeat_timer cf (tell Heartbeat_sent (c\<lparr>c_heartbeat_outstanding := True\<rparr>))) }
        else notify_error ERROR_TIMEOUT c)"

definition heartbeat_on_set :: "connection \<Rightarrow> connection" where
  "heartbeat_on_set c = c\<lparr>c_idle_start := 0, c_heartbeat_outstanding := False\<rparr>"

definition heartbeat_on_error :: "connection \<Rightarrow> connection" where
  "heartbeat_on_error c = c\<lparr>c_heartbeat_outstanding := False\<rparr>"

text \<open>A result that sets the keyspace is remembered.\<close>

definition maybe_set_keyspace :: "bytes option \<Rightarrow> connection \<Rightarrow> connection" where
  "maybe_set_keyspace keyspace c = (case keyspace of Some k \<Rightarrow> c\<lparr>c_keyspace := k\<rparr> | None \<Rightarrow> c)"

section \<open>What happens to a connection\<close>

text \<open>
  The callbacks and calls a connection gets. A pool writes requests to a connection that is
  ready or overwhelmed; the handshake gets the responses the server sends before that, and
  its requests and the first heartbeats fit below the high water mark.
\<close>

datatype connection_op =
    Op_on_connect bool nat | Op_connect_timeout | Op_startup startup_response nat | Op_startup_error
  | Op_startup_timeout | Op_write bool nat | Op_unencodable | Op_flush | Op_on_write | Op_close | Op_defunct
  | Op_error connection_error | Op_heartbeat u64 bool nat | Op_heartbeat_set | Op_heartbeat_error
  | Op_keyspace bytes

fun run_op :: "connection_config \<Rightarrow> connection_op \<Rightarrow> connection \<Rightarrow> connection option" where
  "run_op cf (Op_on_connect connected n) c = on_connect cf connected n c"
| "run_op cf Op_connect_timeout c = on_connect_timeout c"
| "run_op cf (Op_startup response n) c = startup_on_set cf n response c"
| "run_op cf Op_startup_error c = startup_on_error c"
| "run_op cf Op_startup_timeout c = startup_on_timeout c"
| "run_op cf (Op_write flush n) c = internal_write cf flush True n c"
| "run_op cf Op_unencodable c = Some (internal_write_unencodable c)"
| "run_op cf Op_flush c = Some (connection_flush c)"
| "run_op cf Op_on_write c = on_write cf c"
| "run_op cf Op_close c = connection_close c"
| "run_op cf Op_defunct c = defunct c"
| "run_op cf (Op_error e) c = notify_error e c"
| "run_op cf (Op_heartbeat now written n) c = on_heartbeat cf now written n c"
| "run_op cf Op_heartbeat_set c = Some (heartbeat_on_set c)"
| "run_op cf Op_heartbeat_error c = Some (heartbeat_on_error c)"
| "run_op cf (Op_keyspace k) c = Some (maybe_set_keyspace (Some k) c)"

definition fits :: "connection_config \<Rightarrow> nat \<Rightarrow> connection \<Rightarrow> bool" where
  "fits cf n c \<longleftrightarrow> c_writes_size c + n \<le> cf_high_water_mark cf"

definition handshaking :: "connection \<Rightarrow> bool" where
  "handshaking c \<longleftrightarrow> c_state c = C_CONNECTED \<or> c_state c = C_REGISTERING_EVENTS"

fun enabled :: "connection_config \<Rightarrow> connection_op \<Rightarrow> connection \<Rightarrow> bool" where
  "enabled cf (Op_on_connect connected n) c = ((c_state c = C_CONNECTING \<or> is_closing c) \<and> fits cf n c)"
| "enabled cf Op_connect_timeout c = c_connect_timer c"
| "enabled cf (Op_startup response n) c = (handshaking c \<and> fits cf n c)"
| "enabled cf (Op_write flush n) c = (c_state c = C_READY \<or> c_state c = C_OVERWHELMED)"
| "enabled cf Op_on_write c = (c_writes c \<noteq> [] \<and> fst (hd (c_writes c)))"
| "enabled cf (Op_error e) c = (e \<noteq> ERROR_OK)"
| "enabled cf (Op_heartbeat now written n) c = (c_heartbeat_timer c \<and> (handshaking c \<longrightarrow> fits cf n c))"
| "enabled cf _ c = True"

inductive connection_reach :: "connection_config \<Rightarrow> connection \<Rightarrow> bool" for cf where
  spawned: "connect (connection_init keyspace version event_types) = Some c \<Longrightarrow> connection_reach cf c"
| op: "connection_reach cf c \<Longrightarrow> enabled cf operation c \<Longrightarrow> run_op cf operation c = Some c' \<Longrightarrow> connection_reach cf c'"

text \<open>
  What the listener was told: availability gained minus lost, and how often it was told that
  the connection is ready.
\<close>

definition availability_balance :: "connection \<Rightarrow> int" where
  "availability_balance c =
     int (length (filter (\<lambda>e. e = Availability_change True) (c_events c))) -
     int (length (filter (\<lambda>e. e = Availability_change False) (c_events c)))"

definition ready_count :: "connection \<Rightarrow> nat" where
  "ready_count c = length (filter (\<lambda>e. e = Notify_ready) (c_events c))"

text \<open>
  The invariant has a part that is about the state and the events, and one about the sizes
  and the timers.
\<close>

definition told_inv :: "connection \<Rightarrow> bool" where
  "told_inv c \<longleftrightarrow>
     c_state c \<noteq> C_NEW \<and> availability_balance c = (if c_state c = C_READY then 1 else 0) \<and>
     (c_state c \<in> {C_CONNECTING, C_CONNECTED, C_REGISTERING_EVENTS} \<longrightarrow> ready_count c = 0) \<and>
     (c_state c \<in> {C_READY, C_OVERWHELMED} \<longrightarrow> ready_count c = 1) \<and> ready_count c \<le> 1 \<and>
     (c_uv_closing c \<longleftrightarrow> is_closing c)"

definition timer_inv :: "connection \<Rightarrow> bool" where
  "timer_inv c \<longleftrightarrow>
     (c_connect_timer c \<longrightarrow> c_state c \<in> {C_CONNECTING, C_CONNECTED, C_REGISTERING_EVENTS}) \<and>
     (c_heartbeat_timer c \<longrightarrow> \<not> is_closing c \<and> c_state c \<noteq> C_CONNECTING) \<and>
     c_writes_size c = sum_list (map snd (c_writes c))"

definition connection_inv :: "connection \<Rightarrow> bool" where
  "connection_inv c \<longleftrightarrow> told_inv c \<and> timer_inv c"

text \<open>What an operation that does not touch the state or the events leaves of the first part.\<close>

lemma told_inv_cong:
  "c_state c' = c_state c \<Longrightarrow> c_events c' = c_events c \<Longrightarrow> c_uv_closing c' = c_uv_closing c \<Longrightarrow>
   told_inv c' = told_inv c"
  by (simp add: told_inv_def availability_balance_def ready_count_def is_closing_def)

lemma told_inv_tell [simp]:
  "told_inv (tell (Sent r) c) = told_inv c" "told_inv (tell Heartbeat_sent c) = told_inv c"
  "told_inv (tell Uv_close c) = told_inv c"
  by (simp_all add: told_inv_def availability_balance_def ready_count_def is_closing_def tell_def)

lemma timer_inv_tell [simp]: "timer_inv (tell e c) = timer_inv c"
  by (simp add: timer_inv_def is_closing_def tell_def)

lemma tell_simps [simp]:
  "c_state (tell e c) = c_state c" "c_uv_closing (tell e c) = c_uv_closing c"
  "c_connect_timer (tell e c) = c_connect_timer c" "c_heartbeat_timer (tell e c) = c_heartbeat_timer c"
  "c_writes (tell e c) = c_writes c" "c_writes_size (tell e c) = c_writes_size c"
  "c_keyspace (tell e c) = c_keyspace c" "c_event_types (tell e c) = c_event_types c"
  "is_closing (tell e c) = is_closing c"
  by (simp_all add: tell_def is_closing_def)

lemma balance_tell:
  "availability_balance (tell (Availability_change b) c) = availability_balance c + (if b then 1 else - 1)"
  "ready_count (tell (Availability_change b) c) = ready_count c"
  "availability_balance (tell Notify_ready c) = availability_balance c"
  "ready_count (tell Notify_ready c) = ready_count c + 1"
  "availability_balance (tell Uv_close c) = availability_balance c"
  "ready_count (tell Uv_close c) = ready_count c"
  by (simp_all add: availability_balance_def ready_count_def tell_def)

lemma counts_update [simp]:
  "availability_balance (c\<lparr>c_state := s\<rparr>) = availability_balance c" "ready_count (c\<lparr>c_state := s\<rparr>) = ready_count c"
  by (simp_all add: availability_balance_def ready_count_def)

lemma set_state_result:
  "connection_set_state s c = Some c' \<Longrightarrow>
     c_state c' = s \<and> c_uv_closing c' = c_uv_closing c \<and> c_connect_timer c' = c_connect_timer c \<and>
     c_heartbeat_timer c' = c_heartbeat_timer c \<and> c_writes c' = c_writes c \<and> c_writes_size c' = c_writes_size c \<and>
     c_keyspace c' = c_keyspace c \<and> c_event_types c' = c_event_types c \<and> ready_count c' = ready_count c"
  by (auto simp: connection_set_state_def Let_def balance_tell split: if_splits)

lemma set_state_balance:
  assumes "connection_set_state s c = Some c'"
    and "availability_balance c = (if c_state c = C_READY then 1 else 0)"
  shows "availability_balance c' = (if c_state c' = C_READY then 1 else 0)"
  using assms
  by (auto simp: connection_set_state_def Let_def balance_tell split: if_splits)

lemma sum_add_to_writes [simp]: "sum_list (map snd (add_to_writes n ws)) = sum_list (map snd ws) + n"
  by (cases ws rule: rev_cases) (simp_all add: add_to_writes_def)

lemma sum_flush_writes [simp]: "sum_list (map snd (flush_writes ws)) = sum_list (map snd ws)"
  by (cases ws rule: rev_cases) (simp_all add: flush_writes_def)

lemma inv_flush [simp]: "connection_inv (connection_flush c) = connection_inv c"
  by (simp add: connection_inv_def connection_flush_def told_inv_def timer_inv_def availability_balance_def
      ready_count_def is_closing_def)

lemma inv_unencodable [simp]: "connection_inv (internal_write_unencodable c) = connection_inv c"
  by (simp add: connection_inv_def internal_write_unencodable_def told_inv_def timer_inv_def
      availability_balance_def ready_count_def is_closing_def)

lemma inv_rest [simp]:
  "connection_inv (c\<lparr>c_error := e\<rparr>) = connection_inv c"
  "connection_inv (c\<lparr>c_keyspace := k\<rparr>) = connection_inv c"
  "connection_inv (c\<lparr>c_idle_start := t\<rparr>) = connection_inv c"
  "connection_inv (c\<lparr>c_heartbeat_outstanding := b\<rparr>) = connection_inv c"
  by (simp_all add: connection_inv_def told_inv_def timer_inv_def availability_balance_def
      ready_count_def is_closing_def)

lemma inv_tell [simp]:
  "connection_inv (tell (Sent r) c) = connection_inv c" "connection_inv (tell Heartbeat_sent c) = connection_inv c"
  by (simp_all add: connection_inv_def)

lemma inv_timers_off:
  "connection_inv c \<Longrightarrow> connection_inv (c\<lparr>c_connect_timer := False\<rparr>)"
  "connection_inv c \<Longrightarrow> connection_inv (c\<lparr>c_heartbeat_timer := False\<rparr>)"
  by (simp_all add: connection_inv_def told_inv_def timer_inv_def availability_balance_def
      ready_count_def is_closing_def)

lemma inv_restart_heartbeat:
  "connection_inv c \<Longrightarrow> \<not> is_closing c \<Longrightarrow> c_state c \<noteq> C_CONNECTING \<Longrightarrow> connection_inv (restart_heartbeat_timer cf c)"
  using told_inv_cong [of "restart_heartbeat_timer cf c" c]
  by (simp add: restart_heartbeat_timer_def connection_inv_def timer_inv_def is_closing_def)

lemma allowed_close:
  "s \<noteq> C_NEW \<Longrightarrow> s \<noteq> C_CLOSE \<Longrightarrow> s \<noteq> C_CLOSE_DEFUNCT \<Longrightarrow> allowed s C_CLOSE \<and> allowed s C_CLOSE_DEFUNCT"
  by (cases s) simp_all

lemma inv_internal_close:
  assumes "connection_inv c" and "s = C_CLOSE \<or> s = C_CLOSE_DEFUNCT"
  shows "\<exists>c'. internal_close s c = Some c' \<and> connection_inv c' \<and> is_closing c'"
proof (cases "is_closing c")
  case True
  then show ?thesis using assms(1) by (simp add: internal_close_def)
next
  case False
  define c0 where "c0 = c\<lparr>c_heartbeat_timer := False, c_connect_timer := False\<rparr>"
  have inv0: "connection_inv c0" unfolding c0_def using assms(1) by (auto intro: inv_timers_off)
  have st: "c_state c0 = c_state c" "c_state c \<noteq> C_NEW" "\<not> c_uv_closing c"
    using assms(1) False by (auto simp: c0_def connection_inv_def told_inv_def)
  have "allowed (c_state c0) s" using allowed_close [of "c_state c"] assms(2) False st by (auto simp: is_closing_def)
  moreover have "s \<noteq> c_state c0" using assms(2) False st by (auto simp: is_closing_def)
  ultimately obtain c1 where c1: "connection_set_state s c0 = Some c1" by (auto simp: connection_set_state_def Let_def)
  define c2 where "c2 = tell Uv_close (c1\<lparr>c_uv_closing := True\<rparr>)"
  have "internal_close s c = Some c2"
    using False st(3) c1 by (simp add: internal_close_def c0_def c2_def)
  moreover have "connection_inv c2"
  proof -
    note r = set_state_result [OF c1]
    have b: "availability_balance c1 = (if c_state c1 = C_READY then 1 else 0)"
      by (rule set_state_balance [OF c1]) (use inv0 in \<open>simp add: connection_inv_def told_inv_def\<close>)
    have e: "availability_balance c2 = availability_balance c1" "ready_count c2 = ready_count c1"
      by (simp_all add: c2_def availability_balance_def ready_count_def tell_def)
    have st2: "c_state c2 = s" "c_uv_closing c2" "is_closing c2" using r assms(2) by (auto simp: c2_def is_closing_def)
    have "told_inv c2"
      unfolding told_inv_def e using assms(2) st2 b r inv0
      by (elim disjE) (simp_all add: connection_inv_def told_inv_def c0_def)
    moreover have "timer_inv c2"
      using r inv0 by (simp add: timer_inv_def connection_inv_def c2_def c0_def)
    ultimately show ?thesis by (simp add: connection_inv_def)
  qed
  moreover have "is_closing c2" using set_state_result [OF c1] assms(2) by (auto simp: c2_def is_closing_def)
  ultimately show ?thesis by blast
qed

lemma inv_defunct: "connection_inv c \<Longrightarrow> \<exists>c'. defunct c = Some c' \<and> connection_inv c' \<and> is_closing c'"
  by (simp add: defunct_def inv_internal_close)

lemma inv_close: "connection_inv c \<Longrightarrow> \<exists>c'. connection_close c = Some c' \<and> connection_inv c' \<and> is_closing c'"
  by (simp add: connection_close_def inv_internal_close)

lemma inv_notify_error:
  assumes "connection_inv c" and "e \<noteq> ERROR_OK"
  shows "\<exists>c'. notify_error e c = Some c' \<and> connection_inv c'"
proof -
  obtain c1 where c1: "defunct (c\<lparr>c_error := e\<rparr>) = Some c1" "connection_inv c1"
    using inv_defunct [of "c\<lparr>c_error := e\<rparr>"] assms(1) by auto
  obtain c2 where "defunct c1 = Some c2" "connection_inv c2" using inv_defunct [OF c1(2)] by auto
  with c1 assms(2) show ?thesis by (auto simp: notify_error_def Let_def)
qed

lemma c_state_flush [simp]: "c_state (connection_flush c) = c_state c"
  by (simp add: connection_flush_def)

text \<open>A write does not change the state, except that a ready connection may be overwhelmed.\<close>

definition writable :: "connection_config \<Rightarrow> nat \<Rightarrow> connection \<Rightarrow> bool" where
  "writable cf n c \<longleftrightarrow> (handshaking c \<and> fits cf n c) \<or> c_state c = C_READY \<or> c_state c = C_OVERWHELMED"

lemma inv_internal_write:
  assumes "connection_inv c" and "writable cf n c"
  shows "\<exists>c'. internal_write cf now_flush reset n c = Some c' \<and> connection_inv c' \<and>
           (handshaking c \<longrightarrow> handshaking c') \<and> \<not> is_closing c' \<and> c_state c' \<noteq> C_CONNECTING"
proof -
  define c0 where "c0 = c\<lparr>c_writes := add_to_writes n (c_writes c), c_writes_size := c_writes_size c + n\<rparr>"
  have inv0: "connection_inv c0" using assms(1)
    by (simp add: c0_def connection_inv_def told_inv_def timer_inv_def availability_balance_def ready_count_def is_closing_def)
  have st0: "c_state c0 = c_state c" by (simp add: c0_def)
  obtain c1 where c1: "(if c_writes_size c0 > cf_high_water_mark cf then connection_set_state C_OVERWHELMED c0 else Some c0) = Some c1"
      "connection_inv c1" "handshaking c \<longrightarrow> handshaking c1" "\<not> is_closing c1" "c_state c1 \<noteq> C_CONNECTING"
  proof (cases "c_writes_size c0 > cf_high_water_mark cf")
    case False
    have "\<not> is_closing c0 \<and> c_state c0 \<noteq> C_CONNECTING \<and> (handshaking c \<longrightarrow> handshaking c0)"
      using assms(2) st0 by (auto simp: writable_def handshaking_def is_closing_def)
    with False inv0 that [of c0] show ?thesis by simp
  next
    case True
    then have s: "c_state c0 = C_READY \<or> c_state c0 = C_OVERWHELMED"
      using assms(2) st0 by (auto simp: writable_def fits_def c0_def)
    then obtain c1 where c1: "connection_set_state C_OVERWHELMED c0 = Some c1"
      by (auto simp: connection_set_state_def Let_def)
    note r = set_state_result [OF c1]
    have b: "availability_balance c1 = (if c_state c1 = C_READY then 1 else 0)"
      by (rule set_state_balance [OF c1]) (use inv0 in \<open>simp add: connection_inv_def told_inv_def\<close>)
    have "ready_count c0 = 1" "\<not> c_uv_closing c0" "timer_inv c0"
      using inv0 s by (auto simp: connection_inv_def told_inv_def is_closing_def)
    then have "told_inv c1" using r b by (simp add: told_inv_def is_closing_def)
    moreover have "timer_inv c1" using r s \<open>timer_inv c0\<close> by (auto simp: timer_inv_def is_closing_def)
    ultimately have "connection_inv c1" by (simp add: connection_inv_def)
    moreover have "\<not> handshaking c" using s st0 by (auto simp: handshaking_def)
    moreover have "\<not> is_closing c1" "c_state c1 \<noteq> C_CONNECTING" using r by (auto simp: is_closing_def)
    ultimately show ?thesis using True c1 that [of c1] by simp
  qed
  define c2 where "c2 = (if now_flush then connection_flush c1 else c1)"
  have c2: "connection_inv c2" "c_state c2 = c_state c1"
    using c1(2) by (simp_all add: c2_def)
  define c3 where "c3 = (if reset then restart_heartbeat_timer cf (c2\<lparr>c_idle_start := 0\<rparr>) else c2)"
  have st3: "c_state c3 = c_state c1" using c2(2) by (simp add: c3_def restart_heartbeat_timer_def)
  have "connection_inv c3"
    using c2 c1(4,5) by (auto simp: c3_def is_closing_def intro!: inv_restart_heartbeat)
  moreover have "internal_write cf now_flush reset n c = Some c3"
    using c1(1) by (simp add: internal_write_def Let_def c0_def [symmetric] c2_def c3_def)
  ultimately show ?thesis
    using c1(3-5) st3 by (auto simp: handshaking_def is_closing_def)
qed

text \<open>Operations that keep the invariant and fail no assertion.\<close>

definition keeps :: "connection option \<Rightarrow> bool" where
  "keeps r \<longleftrightarrow> (\<exists>c. r = Some c \<and> connection_inv c)"

lemma keepsI: "r = Some c \<Longrightarrow> connection_inv c \<Longrightarrow> keeps r"
  by (simp add: keeps_def)

lemma keeps_notify_error: "connection_inv c \<Longrightarrow> e \<noteq> ERROR_OK \<Longrightarrow> keeps (notify_error e c)"
  using inv_notify_error [of c e] by (auto intro: keepsI)

lemma keeps_write: "connection_inv c \<Longrightarrow> writable cf n c \<Longrightarrow> keeps (internal_write cf f r n c)"
  using inv_internal_write [of c cf n f r] by (auto intro: keepsI)

lemma keeps_send_startup:
  assumes "connection_inv c" and "handshaking c" and "fits cf n c"
  shows "keeps (send_startup cf r n c)"
proof -
  from inv_internal_write [OF assms(1), of cf n True True] assms(2,3) obtain c1 where
    "internal_write cf True True n c = Some c1" "connection_inv c1" by (auto simp: writable_def)
  then show ?thesis by (intro keepsI [of _ "tell (Sent r) c1"]) (simp_all add: send_startup_def)
qed

lemma keeps_advance:
  assumes "connection_inv c" and "c_state c = s0" and "s0 \<in> {C_CONNECTING, C_CONNECTED}"
    and "s \<in> {C_CONNECTED, C_REGISTERING_EVENTS}" and "allowed s0 s"
  shows "\<exists>c1. connection_set_state s c = Some c1 \<and> connection_inv c1 \<and> handshaking c1 \<and>
           c_writes_size c1 = c_writes_size c"
proof -
  from assms(2-5) have "s \<noteq> c_state c" by auto
  with assms(2,5) obtain c1 where c1: "connection_set_state s c = Some c1"
    by (auto simp: connection_set_state_def Let_def)
  note r = set_state_result [OF c1]
  have b: "availability_balance c1 = (if c_state c1 = C_READY then 1 else 0)"
    by (rule set_state_balance [OF c1]) (use assms(1) in \<open>simp add: connection_inv_def told_inv_def\<close>)
  have c: "ready_count c = 0" "\<not> c_uv_closing c" "timer_inv c"
    using assms(1-3) by (auto simp: connection_inv_def told_inv_def is_closing_def)
  then have "told_inv c1" using r b assms(4) by (auto simp: told_inv_def is_closing_def)
  moreover have "timer_inv c1" using r c(3) assms(2-4) by (auto simp: timer_inv_def is_closing_def)
  ultimately show ?thesis using c1 r assms(4) by (auto simp: connection_inv_def handshaking_def)
qed

lemma fits_advance: "c_writes_size c1 = c_writes_size c \<Longrightarrow> fits cf n c \<Longrightarrow> fits cf n c1"
  by (simp add: fits_def)

lemma keeps_notify_ready:
  assumes "connection_inv c" and "handshaking c"
  shows "keeps (notify_ready cf c)"
proof -
  define c0 where "c0 = restart_heartbeat_timer cf (c\<lparr>c_connect_timer := False\<rparr>)"
  have st0: "c_state c0 = c_state c" "\<not> c_connect_timer c0" "c_uv_closing c0 = c_uv_closing c"
    by (simp_all add: c0_def restart_heartbeat_timer_def)
  have inv0: "connection_inv c0"
    unfolding c0_def using assms
    by (intro inv_restart_heartbeat inv_timers_off) (auto simp: handshaking_def is_closing_def)
  have s0: "c_state c0 = C_CONNECTED \<or> c_state c0 = C_REGISTERING_EVENTS" using assms(2) st0(1) by (simp add: handshaking_def)
  then obtain c1 where c1: "connection_set_state C_READY c0 = Some c1"
    by (auto simp: connection_set_state_def Let_def)
  note r = set_state_result [OF c1]
  have b: "availability_balance c1 = 1"
    using set_state_balance [OF c1] inv0 r by (simp add: connection_inv_def told_inv_def)
  have c: "ready_count c0 = 0" "\<not> c_uv_closing c0" "timer_inv c0"
    using inv0 s0 by (auto simp: connection_inv_def told_inv_def is_closing_def)
  define c2 where "c2 = tell Notify_ready c1"
  have "told_inv c2" using r b c by (simp add: told_inv_def c2_def balance_tell is_closing_def)
  moreover have "timer_inv c1" using r c(3) st0(2) by (auto simp: timer_inv_def is_closing_def)
  ultimately have "connection_inv c2" by (simp add: connection_inv_def c2_def)
  then show ?thesis using c1 by (intro keepsI [of _ c2]) (simp_all add: notify_ready_def c0_def c2_def)
qed

lemma keeps_on_ready:
  assumes "connection_inv c" and "handshaking c" and "fits cf n c"
  shows "keeps (connection_on_ready cf n c)"
proof (cases "c_state c = C_CONNECTED \<and> c_event_types c \<noteq> 0")
  case True
  from keeps_advance [OF assms(1), of C_CONNECTED C_REGISTERING_EVENTS] True obtain c1 where c1:
    "connection_set_state C_REGISTERING_EVENTS c = Some c1" "connection_inv c1" "handshaking c1"
    "c_writes_size c1 = c_writes_size c" by auto
  have "keeps (send_startup cf (Register_request (c_event_types c1)) n c1)"
    by (rule keeps_send_startup [OF c1(2,3) fits_advance [OF c1(4) assms(3)]])
  then show ?thesis using True c1(1) set_state_result [OF c1(1)] by (simp add: connection_on_ready_def)
next
  case False
  then show ?thesis using assms
    by (auto simp: connection_on_ready_def intro: keeps_notify_ready keeps_send_startup)
qed

lemma keeps_startup:
  assumes "connection_inv c" and "handshaking c" and "fits cf n c"
  shows "keeps (startup_on_set cf n response c)"
  using assms
  by (auto simp: startup_on_set_def on_authenticate_def send_credentials_def send_initial_auth_response_def
      intro: keeps_send_startup keeps_notify_error keeps_on_ready keeps_notify_ready
      split: startup_response.splits option.splits)

lemma keeps_on_connect:
  assumes "connection_inv c" and "c_state c = C_CONNECTING \<or> is_closing c" and "fits cf n c"
  shows "keeps (on_connect cf connected n c)"
proof (cases "c_connect_timer c")
  case False
  then show ?thesis using assms(1) by (simp add: on_connect_def keeps_def)
next
  case True
  then have s: "c_state c = C_CONNECTING"
    using assms(1,2) by (auto simp: connection_inv_def timer_inv_def is_closing_def)
  from keeps_advance [OF assms(1) s, of C_CONNECTED] obtain c1 where c1:
    "connection_set_state C_CONNECTED c = Some c1" "connection_inv c1" "handshaking c1"
    "c_writes_size c1 = c_writes_size c" by auto
  have "keeps (send_startup cf Options_request n c1)"
    by (rule keeps_send_startup [OF c1(2,3) fits_advance [OF c1(4) assms(3)]])
  then show ?thesis using True c1(1) keeps_notify_error [OF assms(1), of ERROR_GENERIC]
    by (simp add: on_connect_def)
qed

lemma keeps_on_write:
  assumes "connection_inv c" and "c_writes c \<noteq> []"
  shows "keeps (on_write cf c)"
proof -
  obtain f n ws where ws: "c_writes c = (f, n) # ws" using assms(2) by (cases "c_writes c") auto
  define c0 where "c0 = c\<lparr>c_writes_size := c_writes_size c - n, c_writes := ws\<rparr>"
  have inv0: "connection_inv c0"
    using assms(1) ws by (simp add: c0_def connection_inv_def told_inv_def timer_inv_def availability_balance_def
        ready_count_def is_closing_def)
  show ?thesis
  proof (cases "c_writes_size c - n < cf_low_water_mark cf \<and> c_state c = C_OVERWHELMED")
    case False
    then have "on_write cf c = Some (connection_flush c0)" by (auto simp: on_write_def ws c0_def Let_def)
    then show ?thesis using inv0 by (simp add: keeps_def)
  next
    case True
    define c1 where "c1 = tell (Availability_change True) (c0\<lparr>c_state := C_READY\<rparr>)"
    have c1: "connection_set_state C_READY c0 = Some c1"
      using True by (simp add: connection_set_state_def c1_def c0_def Let_def)
    have "on_write cf c = Some (connection_flush c1)"
      using True by (simp add: on_write_def ws connection_set_state_def Let_def c1_def c0_def tell_def connection_flush_def)
    moreover have "connection_inv c1"
    proof -
      note r = set_state_result [OF c1]
      have b: "availability_balance c1 = 1"
        using set_state_balance [OF c1] inv0 r by (simp add: connection_inv_def told_inv_def)
      have c: "ready_count c0 = 1" "\<not> c_uv_closing c0" "timer_inv c0" "c_state c0 = C_OVERWHELMED"
        using inv0 True by (auto simp: connection_inv_def told_inv_def is_closing_def c0_def)
      then have "told_inv c1" using r b by (simp add: told_inv_def is_closing_def)
      moreover have "timer_inv c1" using r c(3,4) by (auto simp: timer_inv_def is_closing_def)
      ultimately show ?thesis by (simp add: connection_inv_def)
    qed
    ultimately show ?thesis by (simp add: keeps_def)
  qed
qed

lemma keeps_heartbeat:
  assumes "connection_inv c" and "c_heartbeat_timer c" and "handshaking c \<longrightarrow> fits cf n c"
  shows "keeps (on_heartbeat cf now written n c)"
proof -
  define c0 where "c0 = c\<lparr>c_heartbeat_timer := False\<rparr>"
  define c1 where "c1 = (if c_idle_start c0 = 0 then c0\<lparr>c_idle_start := now\<rparr> else c0)"
  have inv: "connection_inv c0" "connection_inv c1"
    using inv_timers_off(2) [OF assms(1)] by (simp_all add: c0_def c1_def)
  have st: "\<not> is_closing c" "c_state c \<noteq> C_CONNECTING" "c_state c \<noteq> C_NEW"
    using assms(1,2) by (auto simp: connection_inv_def told_inv_def timer_inv_def)
  have st1: "c_state c1 = c_state c" "c_writes_size c1 = c_writes_size c" by (simp_all add: c1_def c0_def)
  have restart: "keeps (Some (restart_heartbeat_timer cf c1))"
    using inv(2) st st1 by (intro keepsI [OF refl] inv_restart_heartbeat) (auto simp: is_closing_def)
  have "writable cf n c1"
    using st st1 assms(3) by (cases "c_state c") (auto simp: writable_def handshaking_def is_closing_def fits_def)
  from inv_internal_write [OF inv(2) this, of True False] obtain c2 where c2:
    "internal_write cf True False n c1 = Some c2" "connection_inv c2" "\<not> is_closing c2" "c_state c2 \<noteq> C_CONNECTING"
    by auto
  have beat: "connection_inv (restart_heartbeat_timer cf (tell Heartbeat_sent (c2\<lparr>c_heartbeat_outstanding := True\<rparr>)))"
    using c2(2-4) by (intro inv_restart_heartbeat) (simp_all add: is_closing_def)
  then have sent: "keeps (internal_write cf True False n c1 \<bind>
      (\<lambda>c. Some (restart_heartbeat_timer cf (tell Heartbeat_sent (c\<lparr>c_heartbeat_outstanding := True\<rparr>)))))"
    using c2(1) by (intro keepsI [OF _ beat]) simp
  show ?thesis
    unfolding on_heartbeat_def Let_def c0_def [symmetric] unfolding c1_def [symmetric]
    using restart sent keeps_notify_error [OF inv(1), of ERROR_TIMEOUT] keeps_notify_error [OF inv(2), of ERROR_TIMEOUT]
    by simp
qed

lemma keeps_op:
  assumes "connection_inv c" and "enabled cf operation c"
  shows "keeps (run_op cf operation c)"
proof (cases operation)
  case (Op_heartbeat now written n)
  then show ?thesis using assms by (simp add: keeps_heartbeat)
next
  case (Op_write f n)
  then show ?thesis using assms by (auto simp: writable_def intro: keeps_write)
next
  case (Op_on_connect b n)
  then show ?thesis using assms by (simp add: keeps_on_connect)
next
  case (Op_startup r n)
  then show ?thesis using assms by (simp add: keeps_startup)
next
  case Op_connect_timeout
  then show ?thesis using assms(1) keeps_notify_error [OF inv_timers_off(1), of c ERROR_TIMEOUT]
    by (simp add: on_connect_timeout_def)
next
  case Op_close
  then show ?thesis using inv_close [OF assms(1)] by (auto simp: keeps_def)
next
  case Op_defunct
  then show ?thesis using inv_defunct [OF assms(1)] by (auto simp: keeps_def)
next
  case Op_on_write
  then show ?thesis using assms by (simp add: keeps_on_write)
qed (use assms in \<open>simp_all add: inv_notify_error startup_on_error_def startup_on_timeout_def
      heartbeat_on_set_def heartbeat_on_error_def maybe_set_keyspace_def keeps_def\<close>)

lemma inv_spawned:
  assumes "connect (connection_init keyspace version event_types) = Some c"
  shows "connection_inv c"
  using assms
  by (auto simp: connect_def connection_init_def connection_set_state_def Let_def connection_inv_def told_inv_def
      timer_inv_def availability_balance_def ready_count_def is_closing_def)

lemma reach_inv: "connection_reach cf c \<Longrightarrow> connection_inv c"
proof (induction rule: connection_reach.induct)
  case (spawned keyspace version event_types c)
  then show ?case by (rule inv_spawned)
next
  case (op c operation c')
  then show ?case using keeps_op [of c cf operation] by (auto simp: keeps_def)
qed


definition example_config :: connection_config where
  "example_config = \<lparr>cf_high_water_mark = 65536, cf_low_water_mark = 32768, cf_heartbeat_secs = 30,
     cf_idle_timeout_secs = 60, cf_auth_v1 = False, cf_auth = None\<rparr>"


text \<open>
  C29: The listener of a connection is told that it is available once more than that it is not
  exactly while it is ready, and the same number of times otherwise, so that the number of
  available connections of a pool counts its ready connections and never falls below zero;
  and it is told at most once that the connection is ready, not before the handshake is
  over.
\<close>

theorem availability_is_balanced:
  assumes "connection_reach cf c"
  shows "availability_balance c = (if c_state c = C_READY then 1 else 0) \<and> ready_count c \<le> 1 \<and>
         (c_state c \<in> {C_CONNECTING, C_CONNECTED, C_REGISTERING_EVENTS} \<longrightarrow> ready_count c = 0) \<and>
         c_writes_size c = sum_list (map snd (c_writes c))"
  using reach_inv [OF assms] by (simp add: connection_inv_def told_inv_def timer_inv_def)

theorem availability_is_balanced_witness:
  "\<exists>c. connect (connection_init [] 3 0) = Some c \<and> availability_balance c = 0 \<and> ready_count c = 0"
proof -
  obtain c where c: "connect (connection_init [] 3 0) = Some c" "c_state c = C_CONNECTING"
    by (simp add: connect_def connection_init_def connection_set_state_def)
  from availability_is_balanced [OF connection_reach.spawned [OF c(1)]] c show ?thesis by auto
qed

section \<open>Two flaws\<close>

text \<open>
  \<open>consume\<close> goes on with the rest of a read after an error closed the connection: when a
  message with an unknown stream id is followed in the same read by the \<open>READY\<close> that ends
  the handshake, the closed connection is made ready, which fails the assertion.
\<close>

theorem ready_after_error_asserts:
  assumes "connection_reach cf c" and "c_state c = C_CONNECTED" and "c_keyspace c = []"
    and "c_event_types c = 0"
  shows "(notify_error ERROR_GENERIC c \<bind> startup_on_set cf n Ready) = None"
proof -
  have u: "\<not> c_uv_closing c" using reach_inv [OF assms(1)] assms(2)
    by (auto simp: connection_inv_def told_inv_def is_closing_def)
  define c1 where "c1 = tell Uv_close (c\<lparr>c_error := ERROR_GENERIC, c_heartbeat_timer := False,
      c_connect_timer := False, c_state := C_CLOSE_DEFUNCT, c_uv_closing := True\<rparr>)"
  have "defunct (c\<lparr>c_error := ERROR_GENERIC\<rparr>) = Some c1"
    using assms(2) u by (simp add: defunct_def internal_close_def is_closing_def connection_set_state_def c1_def Let_def)
  moreover have "defunct c1 = Some c1"
    by (simp add: defunct_def internal_close_def is_closing_def c1_def tell_def)
  ultimately have "notify_error ERROR_GENERIC c = Some c1" by (simp add: notify_error_def Let_def)
  moreover have "startup_on_set cf n Ready c1 = None"
    using assms(3) by (simp add: startup_on_set_def connection_on_ready_def notify_ready_def c1_def tell_def
        restart_heartbeat_timer_def connection_set_state_def)
  ultimately show ?thesis by simp
qed

theorem ready_after_error_asserts_witness:
  "\<exists>c c'. connect (connection_init [] 3 0) = Some c \<and> run_op example_config (Op_on_connect True 9) c = Some c' \<and>
     (notify_error ERROR_GENERIC c' \<bind> startup_on_set example_config 9 Ready) = None"
proof -
  obtain c where c: "connect (connection_init [] 3 0) = Some c" "c_state c = C_CONNECTING" "c_writes_size c = 0"
    "c_connect_timer c" "c_keyspace c = []" "c_event_types c = 0" "c_writes c = []"
    by (simp add: connect_def connection_init_def connection_set_state_def)
  have e: "enabled example_config (Op_on_connect True 9) c" using c by (simp add: fits_def example_config_def)
  obtain c' where c': "run_op example_config (Op_on_connect True 9) c = Some c'" "c_state c' = C_CONNECTED"
    "c_keyspace c' = []" "c_event_types c' = 0"
    using c by (simp add: on_connect_def connection_set_state_def Let_def send_startup_def internal_write_def
        example_config_def restart_heartbeat_timer_def connection_flush_def)
  from ready_after_error_asserts [OF connection_reach.op [OF connection_reach.spawned [OF c(1)] e c'(1)] c'(2-4)]
    c(1) c'(1) show ?thesis by blast
qed

text \<open>
  The idle time of the heartbeat is a difference of unsigned wall clock times: when the
  clock was set back since the connection became idle, the connection is closed with a
  timeout at once, however short it was idle.
\<close>

theorem clock_set_back_closes:
  assumes "connection_reach cf c" and "\<not> is_closing c" and "c_idle_start c \<noteq> 0"
    and "now < c_idle_start c" and "c_idle_start c \<le> 2 ^ 62" and "cf_idle_timeout_secs cf < 2 ^ 32"
  shows "\<exists>c'. on_heartbeat cf now written n c = Some c' \<and> is_closing c' \<and> c_error c' = ERROR_TIMEOUT"
proof -
  have bound: "unat (c_idle_start c) \<le> 2 ^ 62" using assms(5) by (simp add: word_le_nat_alt)
  have lt: "unat now < unat (c_idle_start c)" using assms(4) by (simp add: word_less_nat_alt)
  have "unat (now - c_idle_start c) = 2 ^ 64 + unat now - unat (c_idle_start c)"
    using lt by (simp add: unat_sub_if')
  then have "2 ^ 62 \<le> unat (now - c_idle_start c)" using bound by simp
  then have "2 ^ 62 div 1000 \<le> unat (now - c_idle_start c) div 1000" by (rule div_le_mono)
  moreover have "unat ((now - c_idle_start c) div 1000) = unat (now - c_idle_start c) div 1000"
    by (simp add: unat_div)
  ultimately have late: "cf_idle_timeout_secs cf < unat ((now - c_idle_start c) div 1000)" using assms(6) by simp
  define c0 where "c0 = c\<lparr>c_heartbeat_timer := False, c_error := ERROR_TIMEOUT\<rparr>"
  have inv0: "connection_inv c0" using inv_timers_off(2) [OF reach_inv [OF assms(1)]] by (simp add: c0_def)
  obtain c1 where c1: "defunct c0 = Some c1" "is_closing c1" using inv_defunct [OF inv0] by blast
  have "c_error c1 = ERROR_TIMEOUT"
    using c1(1) by (auto simp: defunct_def internal_close_def connection_set_state_def Let_def tell_def c0_def
        split: if_splits option.splits)
  moreover have "defunct c1 = Some c1" using c1(2) by (simp add: defunct_def internal_close_def)
  ultimately show ?thesis using late assms(3) c1
    by (simp add: on_heartbeat_def notify_error_def Let_def c0_def)
qed

theorem clock_set_back_closes_witness:
  "\<exists>c c'. on_heartbeat example_config 5 True 9 c = Some c' \<and> c_idle_start c = 1000 \<and> is_closing c' \<and>
     c_error c' = ERROR_TIMEOUT"
proof -
  obtain c where c: "connect (connection_init [] 3 0) = Some c" "c_state c = C_CONNECTING" "c_writes_size c = 0"
    "c_connect_timer c" "c_writes c = []" "c_idle_start c = 0" "\<not> c_heartbeat_outstanding c"
    by (simp add: connect_def connection_init_def connection_set_state_def)
  have e: "enabled example_config (Op_on_connect True 9) c" using c by (simp add: fits_def example_config_def)
  obtain c1 where c1: "run_op example_config (Op_on_connect True 9) c = Some c1" "c_state c1 = C_CONNECTED"
    "c_heartbeat_timer c1" "c_idle_start c1 = 0" "\<not> c_heartbeat_outstanding c1" "c_writes_size c1 = 9"
    using c by (simp add: on_connect_def connection_set_state_def Let_def send_startup_def internal_write_def
        example_config_def restart_heartbeat_timer_def connection_flush_def tell_def)
  have e1: "enabled example_config (Op_heartbeat 1000 True 9) c1" using c1 by (simp add: fits_def example_config_def)
  obtain c2 where c2: "run_op example_config (Op_heartbeat 1000 True 9) c1 = Some c2" "c_state c2 = C_CONNECTED"
    "c_idle_start c2 = 1000"
    using c1 by (simp add: on_heartbeat_def Let_def internal_write_def example_config_def
        restart_heartbeat_timer_def connection_flush_def tell_def)
  have r: "connection_reach example_config c2"
    by (rule connection_reach.op [OF connection_reach.op [OF connection_reach.spawned [OF c(1)] e c1(1)] e1 c2(1)])
  have "\<not> is_closing c2" using c2(2) by (simp add: is_closing_def)
  from clock_set_back_closes [OF r this, of 5 True 9] c2(3) show ?thesis by (auto simp: example_config_def)
qed

end
