(* ===== verification/Attempt.thy ===== *)
theory Attempt
  imports Handler "HOL-Library.Monad_Syntax"
begin

text \<open>
  One attempt of a request on a connection, from \<open>Connection::internal_write\<close> to the end: the
  write callback, the response, the timeout and the end of the connection can come in any
  order (\<open>PendingWriteBase::on_write\<close>, \<open>Connection::consume\<close>, \<open>Connection::on_timeout\<close> and
  \<open>cleanup_pending_handlers\<close> in \<open>connection.cpp\<close>).
\<close>

section \<open>An attempt\<close>

text \<open>
  The list of the connection that has the handler: a pending write, the pending reads, or
  none. The stream id is held until the response or a failed write. The calls are those of
  the handler's virtual methods, in their order; a handler that was retried from a call
  begins a new attempt, and its state below is the one at the end of this attempt.
\<close>

datatype place = Pending_write | Pending_read | Gone

datatype handler_call = On_set | On_error | On_timeout | Retry_call

record attempt =
  at_handler :: handler
  at_place :: place
  at_stream :: bool
  at_derefs :: nat
  at_calls :: "handler_call list"

definition call :: "handler_call \<Rightarrow> attempt \<Rightarrow> attempt" where
  "call f a = a\<lparr>at_calls := at_calls a @ [f]\<rparr>"

definition deref :: "attempt \<Rightarrow> attempt" where
  "deref a = a\<lparr>at_derefs := at_derefs a + 1\<rparr>"

definition move :: "nat \<Rightarrow> request_state \<Rightarrow> attempt \<Rightarrow> attempt option" where
  "move now s a = do { h \<leftarrow> set_state now s (at_handler a); Some (a\<lparr>at_handler := h\<rparr>) }"

definition attempt_stop_timer :: "attempt \<Rightarrow> attempt" where
  "attempt_stop_timer a = a\<lparr>at_handler := stop_timer (at_handler a)\<rparr>"

text \<open>The end of \<open>internal_write\<close>.\<close>

definition attempt_start :: "nat \<Rightarrow> handler \<Rightarrow> attempt option" where
  "attempt_start now h =
     do { h \<leftarrow> set_state now WRITING h;
          Some \<lparr>at_handler = start_timer h, at_place = Pending_write, at_stream = True, at_derefs = 0, at_calls = []\<rparr> }"

text \<open>
  The response was found under the stream id. When \<open>on_set\<close> decides to retry while the write
  is outstanding it sets the state (\<open>waits\<close>).
\<close>

definition attempt_response :: "nat \<Rightarrow> bool \<Rightarrow> attempt \<Rightarrow> attempt option" where
  "attempt_response now waits a =
     (let a = a\<lparr>at_stream := False\<rparr> in
      case h_state (at_handler a) of
        READING \<Rightarrow>
          do { a \<leftarrow> move now DONE (attempt_stop_timer (a\<lparr>at_place := Gone\<rparr>));
               Some (deref (call On_set a)) }
      | WRITING \<Rightarrow>
          do { a \<leftarrow> move now READ_BEFORE_WRITE a;
               let a = call On_set a in
               if waits then move now RETRY_WRITE_OUTSTANDING a else Some a }
      | TIMEOUT \<Rightarrow>
          do { a \<leftarrow> move now DONE (a\<lparr>at_place := Gone\<rparr>); Some (deref a) }
      | TIMEOUT_WRITE_OUTSTANDING \<Rightarrow> move now READ_BEFORE_WRITE a
      | _ \<Rightarrow> None)"

text \<open>The write callback with its status; the handler leaves the pending write.\<close>

definition attempt_written :: "nat \<Rightarrow> bool \<Rightarrow> attempt \<Rightarrow> attempt option" where
  "attempt_written now ok a =
     (let a = a\<lparr>at_place := Gone\<rparr> in
      case h_state (at_handler a) of
        WRITING \<Rightarrow>
          (if ok then do { a \<leftarrow> move now READING a; Some (a\<lparr>at_place := Pending_read\<rparr>) }
           else do { a \<leftarrow> move now DONE (attempt_stop_timer (a\<lparr>at_stream := False\<rparr>));
                     Some (deref (call On_error a)) })
      | TIMEOUT_WRITE_OUTSTANDING \<Rightarrow>
          do { a \<leftarrow> move now TIMEOUT a; Some (a\<lparr>at_place := Pending_read\<rparr>) }
      | READ_BEFORE_WRITE \<Rightarrow>
          do { a \<leftarrow> move now DONE (attempt_stop_timer a); Some (deref a) }
      | RETRY_WRITE_OUTSTANDING \<Rightarrow>
          do { a \<leftarrow> move now NEW (attempt_stop_timer a); Some (deref (call Retry_call a)) }
      | _ \<Rightarrow> None)"

text \<open>The request timer, which stops itself before its callback.\<close>

definition attempt_timeout :: "nat \<Rightarrow> attempt \<Rightarrow> attempt option" where
  "attempt_timeout now a =
     do { a \<leftarrow> move now TIMEOUT (attempt_stop_timer a); Some (call On_timeout a) }"

text \<open>\<open>cleanup_pending_handlers\<close> when the connection is gone.\<close>

definition attempt_cleanup :: "attempt \<Rightarrow> attempt" where
  "attempt_cleanup a =
     (let a = a\<lparr>at_place := Gone\<rparr>;
          a = (if h_state (at_handler a) = WRITING \<or> h_state (at_handler a) = READING
               then attempt_stop_timer (call On_timeout a) else a)
      in deref a)"

section \<open>All orders of the callbacks\<close>

text \<open>
  What can happen: a response only while the id is held, the write callback once, the timeout
  while the timer runs, the cleanup of a handler in one of the lists. A pending write that
  was not flushed gets no response, and one that was flushed gets its callback before the
  cleanup; so a handler in a pending write is cleaned up only without a response.
\<close>

datatype attempt_event = Response bool | Write_done bool | Timer_expired | Cleanup

fun possible :: "attempt_event \<Rightarrow> attempt \<Rightarrow> bool" where
  "possible (Response waits) a = (at_stream a \<and> at_place a \<noteq> Gone)"
| "possible (Write_done ok) a = (at_place a = Pending_write)"
| "possible Timer_expired a = h_timer (at_handler a)"
| "possible Cleanup a = (at_place a = Pending_read \<or> (at_place a = Pending_write \<and> at_stream a))"

fun react :: "nat \<Rightarrow> attempt_event \<Rightarrow> attempt \<Rightarrow> attempt option" where
  "react now (Response waits) a = attempt_response now waits a"
| "react now (Write_done ok) a = attempt_written now ok a"
| "react now Timer_expired a = attempt_timeout now a"
| "react now Cleanup a = Some (attempt_cleanup a)"

inductive attempted :: "attempt \<Rightarrow> bool" where
  start: "attempt_start now h = Some a \<Longrightarrow> attempted a"
| event: "attempted a \<Longrightarrow> possible e a \<Longrightarrow> react now e a = Some a' \<Longrightarrow> attempted a'"

inductive_cases attempted_cases: "attempted a"

text \<open>
  The invariant lists what can be the case in each state of the handler.
\<close>

definition attempt_inv :: "attempt \<Rightarrow> bool" where
  "attempt_inv a \<longleftrightarrow>
     (case (at_place a, h_state (at_handler a)) of
        (Pending_write, WRITING) \<Rightarrow> at_stream a \<and> at_calls a = []
      | (Pending_write, TIMEOUT_WRITE_OUTSTANDING) \<Rightarrow>
          at_stream a \<and> at_calls a = [On_timeout] \<and> \<not> h_timer (at_handler a)
      | (Pending_write, READ_BEFORE_WRITE) \<Rightarrow>
          \<not> at_stream a \<and> (at_calls a = [On_set] \<or> at_calls a = [On_timeout]) \<and> \<not> h_timer (at_handler a)
      | (Pending_write, RETRY_WRITE_OUTSTANDING) \<Rightarrow>
          \<not> at_stream a \<and> at_calls a = [On_set] \<and> \<not> h_timer (at_handler a)
      | (Pending_read, READING) \<Rightarrow> at_stream a \<and> at_calls a = []
      | (Pending_read, TIMEOUT) \<Rightarrow> at_stream a \<and> at_calls a = [On_timeout] \<and> \<not> h_timer (at_handler a)
      | (Gone, _) \<Rightarrow>
          \<not> h_timer (at_handler a) \<and>
          (at_calls a = [On_set] \<or> at_calls a = [On_error] \<or> at_calls a = [On_timeout] \<or> at_calls a = [On_set, Retry_call])
      | _ \<Rightarrow> False) \<and>
     at_derefs a = (if at_place a = Gone then 1 else 0)"

lemmas attempt_defs = attempt_response_def attempt_written_def attempt_timeout_def attempt_cleanup_def
  move_def call_def deref_def attempt_stop_timer_def stop_timer_def set_state_def Let_def

lemma attempt_start_inv: "attempt_start now h = Some a \<Longrightarrow> attempt_inv a"
  by (auto simp: attempt_start_def set_state_def start_timer_def attempt_inv_def
      split: request_state.splits if_splits)

lemma attempt_step_inv:
  assumes "attempt_inv a" and "possible e a"
  shows "\<exists>a'. react now e a = Some a' \<and> attempt_inv a'"
proof (cases "at_place a")
  case Pending_write
  then show ?thesis using assms
    by (cases "h_state (at_handler a)"; cases e) (auto simp: attempt_inv_def attempt_defs)
next
  case Pending_read
  then show ?thesis using assms
    by (cases "h_state (at_handler a)"; cases e) (auto simp: attempt_inv_def attempt_defs)
next
  case Gone
  then show ?thesis using assms by (cases e) (auto simp: attempt_inv_def)
qed

lemma attempted_inv: "attempted a \<Longrightarrow> attempt_inv a"
proof (induction rule: attempted.induct)
  case (start now h a)
  then show ?case by (rule attempt_start_inv)
next
  case (event a e now a')
  from attempt_step_inv [OF event.IH event.hyps(2), of now] event.hyps(3) show ?case by auto
qed





end
