(* ===== verification/Load_Balancing.thy ===== *)
theory Load_Balancing
  imports Token_Map Retry_Policy "HOL-Library.Multiset"
begin

text \<open>
  The load balancing policies and their query plans: \<open>load_balancing.hpp\<close>,
  \<open>round_robin_policy.hpp\<close>, \<open>dc_aware_policy.cpp\<close>, \<open>token_aware_policy.cpp\<close>,
  \<open>latency_aware_policy.cpp\<close>, \<open>whitelist_policy.cpp\<close> and the chain that
  \<open>Config::load_balancing_policy\<close> builds. A policy is a tree whose inner nodes are the
  chained policies; a plan has the same shape. A plan looks at the hosts and at its policy
  when it is asked for the next host, so \<open>plan_next\<close> gets both as they are at that time.
  The text of an address (\<open>Address::to_string\<close>, libuv) is the argument \<open>txt\<close>.
\<close>

section \<open>Policies\<close>

datatype host_distance = LOCAL | REMOTE | IGNORE

definition is_dc_local :: "consistency \<Rightarrow> bool" where
  "is_dc_local cl \<longleftrightarrow> cl = 0xA \<or> cl = 6"

record dc_policy =
  local_dc :: string
  used_hosts_per_remote_dc :: nat
  skip_remote_dcs_for_local_cl :: bool
  local_dc_live_hosts :: host_vec
  per_remote_dc_live_hosts :: "(string, host_vec) std_map"
  dc_index :: u64

text \<open>\<open>exclusion_limit min\<close> is \<open>static_cast<int64_t>(exclusion_threshold * min)\<close>, a product of doubles.\<close>

record latency_settings =
  exclusion_limit :: "u64 \<Rightarrow> u64"
  ls_scale_ns :: u64
  retry_period_ns :: u64
  min_measured :: u64

datatype lb_policy =
    Round_Robin host_vec u64
  | DC_Aware dc_policy
  | Token_Aware lb_policy u64
  | Latency_Aware lb_policy latency_settings host_vec u64
  | Whitelist lb_policy "string list"

definition new_round_robin :: lb_policy where
  "new_round_robin = Round_Robin [] 0"

definition new_dc_aware :: "string \<Rightarrow> nat \<Rightarrow> bool \<Rightarrow> lb_policy" where
  "new_dc_aware ldc used skip =
     DC_Aware \<lparr>local_dc = ldc, used_hosts_per_remote_dc = used, skip_remote_dcs_for_local_cl = skip,
       local_dc_live_hosts = [], per_remote_dc_live_hosts = [], dc_index = 0\<rparr>"

primrec new_instance :: "lb_policy \<Rightarrow> lb_policy" where
  "new_instance (Round_Robin hosts i) = new_round_robin"
| "new_instance (DC_Aware d) =
     new_dc_aware (local_dc d) (used_hosts_per_remote_dc d) (skip_remote_dcs_for_local_cl d)"
| "new_instance (Token_Aware p i) = Token_Aware (new_instance p) 0"
| "new_instance (Latency_Aware p s hosts m) = Latency_Aware (new_instance p) s [] (- 1)"
| "new_instance (Whitelist p w) = Whitelist (new_instance p) w"

text \<open>\<open>Config::load_balancing_policy\<close>\<close>

definition config_policy ::
  "lb_policy \<Rightarrow> string list \<Rightarrow> bool \<Rightarrow> latency_settings option \<Rightarrow> lb_policy" where
  "config_policy base whitelist token_aware latency =
     (let chain = new_instance base;
          chain = (if whitelist \<noteq> [] then Whitelist chain whitelist else chain);
          chain = (if token_aware then Token_Aware chain 0 else chain)
      in case latency of None \<Rightarrow> chain | Some s \<Rightarrow> Latency_Aware chain s [] (- 1))"

section \<open>The data center policy\<close>

definition get_hosts :: "(string, host_vec) std_map \<Rightarrow> string \<Rightarrow> host_vec" where
  "get_hosts m d = map_get [] m d"

definition add_host_to_dc ::
  "host_store \<Rightarrow> string \<Rightarrow> host_ref \<Rightarrow> (string, host_vec) std_map \<Rightarrow> (string, host_vec) std_map" where
  "add_host_to_dc hs d h m =
     (case map_find m d of
        None \<Rightarrow> map_insert_new d [h] m
      | Some hosts \<Rightarrow> map_assign d (add_host hs h hosts) m)"

definition remove_host_from_dc ::
  "host_store \<Rightarrow> string \<Rightarrow> host_ref \<Rightarrow> (string, host_vec) std_map \<Rightarrow> (string, host_vec) std_map" where
  "remove_host_from_dc hs d h m =
     (case map_find m d of
        None \<Rightarrow> m
      | Some hosts \<Rightarrow> map_assign d (remove_host hs h hosts) m)"

definition dc_on_add :: "host_store \<Rightarrow> host_ref \<Rightarrow> dc_policy \<Rightarrow> dc_policy" where
  "dc_on_add hs h d =
     (let hdc = dc (hs h);
          d = (if local_dc d = [] \<and> hdc \<noteq> [] then d\<lparr>local_dc := hdc\<rparr> else d)
      in if hdc = local_dc d
         then d\<lparr>local_dc_live_hosts := local_dc_live_hosts d @ [h]\<rparr>
         else d\<lparr>per_remote_dc_live_hosts := add_host_to_dc hs hdc h (per_remote_dc_live_hosts d)\<rparr>)"

definition dc_on_remove :: "host_store \<Rightarrow> host_ref \<Rightarrow> dc_policy \<Rightarrow> dc_policy" where
  "dc_on_remove hs h d =
     (if dc (hs h) = local_dc d
      then d\<lparr>local_dc_live_hosts := remove_host hs h (local_dc_live_hosts d)\<rparr>
      else d\<lparr>per_remote_dc_live_hosts :=
               remove_host_from_dc hs (dc (hs h)) h (per_remote_dc_live_hosts d)\<rparr>)"

definition dc_init :: "host_store \<Rightarrow> host_ref option \<Rightarrow> host_map \<Rightarrow> dc_policy \<Rightarrow> dc_policy" where
  "dc_init hs connected hosts d =
     (let d = (case connected of
                 Some c \<Rightarrow> if local_dc d = [] \<and> dc (hs c) \<noteq> [] then d\<lparr>local_dc := dc (hs c)\<rparr> else d
               | None \<Rightarrow> d)
      in foldl (\<lambda>d (addr, h). dc_on_add hs h d) d hosts)"

definition dc_distance :: "host_store \<Rightarrow> dc_policy \<Rightarrow> host_ref \<Rightarrow> host_distance" where
  "dc_distance hs d h =
     (if local_dc d = [] \<or> dc (hs h) = local_dc d then LOCAL
      else if \<exists>r \<in> set (take (used_hosts_per_remote_dc d)
                              (get_hosts (per_remote_dc_live_hosts d) (dc (hs h)))).
                 same_address hs r h
           then REMOTE else IGNORE)"

section \<open>Events\<close>

definition is_valid_host :: "(address \<Rightarrow> string) \<Rightarrow> string list \<Rightarrow> host_store \<Rightarrow> host_ref \<Rightarrow> bool" where
  "is_valid_host txt whitelist hs h \<longleftrightarrow> txt (address (hs h)) \<in> set whitelist"

definition track :: "latency_settings \<Rightarrow> host_ref \<Rightarrow> host_store \<Rightarrow> host_store" where
  "track s h hs = hs(h := enable_latency_tracking (ls_scale_ns s) (min_measured s) (hs h))"

definition whitelist_hosts :: "(address \<Rightarrow> string) \<Rightarrow> string list \<Rightarrow> host_store \<Rightarrow> host_map \<Rightarrow> host_map option" where [simp]:
  "whitelist_hosts txt w hs hosts =
     (let valid = filter (\<lambda>(addr, h). is_valid_host txt w hs h) hosts
      in if valid = [] then None else Some valid)"

text \<open>The assertion of the whitelist policy that some host is left is \<open>None\<close>.\<close>

primrec lb_init ::
  "(address \<Rightarrow> string) \<Rightarrow> host_ref option \<Rightarrow> lb_policy \<Rightarrow> host_map \<Rightarrow> host_store \<Rightarrow> (lb_policy \<times> host_store) option" where
  "lb_init txt c (Round_Robin xs i) hosts hs = Some (Round_Robin (copy_hosts hosts xs) i, hs)"
| "lb_init txt c (DC_Aware d) hosts hs = Some (DC_Aware (dc_init hs c hosts d), hs)"
| "lb_init txt c (Token_Aware p i) hosts hs =
     map_option (\<lambda>(p', hs'). (Token_Aware p' i, hs')) (lb_init txt c p hosts hs)"
| "lb_init txt c (Latency_Aware p s xs m) hosts hs =
     map_option (\<lambda>(p', hs'). (Latency_Aware p' s (copy_hosts hosts xs) m, hs'))
       (lb_init txt c p hosts (foldl (\<lambda>hs (addr, h). track s h hs) hs hosts))"
| "lb_init txt c (Whitelist p w) hosts hs =
     (case whitelist_hosts txt w hs hosts of
        None \<Rightarrow> None
      | Some valid \<Rightarrow> map_option (\<lambda>(p', hs'). (Whitelist p' w, hs')) (lb_init txt c p valid hs))"

primrec lb_on_add :: "(address \<Rightarrow> string) \<Rightarrow> host_ref \<Rightarrow> lb_policy \<Rightarrow> host_store \<Rightarrow> lb_policy \<times> host_store" where
  "lb_on_add txt h (Round_Robin xs i) hs = (Round_Robin (add_host hs h xs) i, hs)"
| "lb_on_add txt h (DC_Aware d) hs = (DC_Aware (dc_on_add hs h d), hs)"
| "lb_on_add txt h (Token_Aware p i) hs =
     (let (p', hs') = lb_on_add txt h p hs in (Token_Aware p' i, hs'))"
| "lb_on_add txt h (Latency_Aware p s xs m) hs =
     (let hs = track s h hs;
          (p', hs') = lb_on_add txt h p hs
      in (Latency_Aware p' s (add_host hs h xs) m, hs'))"
| "lb_on_add txt h (Whitelist p w) hs =
     (if is_valid_host txt w hs h
      then let (p', hs') = lb_on_add txt h p hs in (Whitelist p' w, hs')
      else (Whitelist p w, hs))"

primrec lb_on_up :: "(address \<Rightarrow> string) \<Rightarrow> host_ref \<Rightarrow> lb_policy \<Rightarrow> host_store \<Rightarrow> lb_policy" where
  "lb_on_up txt h (Round_Robin xs i) hs = Round_Robin (add_host hs h xs) i"
| "lb_on_up txt h (DC_Aware d) hs = DC_Aware (dc_on_add hs h d)"
| "lb_on_up txt h (Token_Aware p i) hs = Token_Aware (lb_on_up txt h p hs) i"
| "lb_on_up txt h (Latency_Aware p s xs m) hs =
     Latency_Aware (lb_on_up txt h p hs) s (add_host hs h xs) m"
| "lb_on_up txt h (Whitelist p w) hs =
     Whitelist (if is_valid_host txt w hs h then lb_on_up txt h p hs else p) w"

text \<open>\<open>on_remove\<close>, and \<open>on_down\<close>, which every policy maps to the same call.\<close>

primrec lb_on_remove :: "(address \<Rightarrow> string) \<Rightarrow> host_ref \<Rightarrow> lb_policy \<Rightarrow> host_store \<Rightarrow> lb_policy" where
  "lb_on_remove txt h (Round_Robin xs i) hs = Round_Robin (remove_host hs h xs) i"
| "lb_on_remove txt h (DC_Aware d) hs = DC_Aware (dc_on_remove hs h d)"
| "lb_on_remove txt h (Token_Aware p i) hs = Token_Aware (lb_on_remove txt h p hs) i"
| "lb_on_remove txt h (Latency_Aware p s xs m) hs =
     Latency_Aware (lb_on_remove txt h p hs) s (remove_host hs h xs) m"
| "lb_on_remove txt h (Whitelist p w) hs =
     Whitelist (if is_valid_host txt w hs h then lb_on_remove txt h p hs else p) w"

primrec lb_distance :: "(address \<Rightarrow> string) \<Rightarrow> host_store \<Rightarrow> lb_policy \<Rightarrow> host_ref \<Rightarrow> host_distance" where
  "lb_distance txt hs (Round_Robin xs i) h = LOCAL"
| "lb_distance txt hs (DC_Aware d) h = dc_distance hs d h"
| "lb_distance txt hs (Token_Aware p i) h = lb_distance txt hs p h"
| "lb_distance txt hs (Latency_Aware p s xs m) h = lb_distance txt hs p h"
| "lb_distance txt hs (Whitelist p w) h =
     (if is_valid_host txt w hs h then lb_distance txt hs p h else IGNORE)"

text \<open>\<open>LatencyAwarePolicy::on_work\<close> at the time \<open>now\<close>.\<close>

definition measured :: "latency_settings \<Rightarrow> u64 \<Rightarrow> timestamped_average \<Rightarrow> bool" where
  "measured s now l \<longleftrightarrow> sint (average l) \<ge> 0 \<and> num_measured l \<ge> min_measured s \<and>
     now - ta_timestamp l \<le> retry_period_ns s"

definition new_min_average :: "latency_settings \<Rightarrow> u64 \<Rightarrow> host_store \<Rightarrow> host_vec \<Rightarrow> u64" where
  "new_min_average s now hs xs =
     foldl (\<lambda>m h. let l = get_current_average (hs h)
                  in if measured s now l \<and> sint (average l) < sint m then average l else m)
       0x7FFFFFFFFFFFFFFF xs"

primrec lb_on_work :: "u64 \<Rightarrow> host_store \<Rightarrow> lb_policy \<Rightarrow> lb_policy" where
  "lb_on_work now hs (Round_Robin xs i) = Round_Robin xs i"
| "lb_on_work now hs (DC_Aware d) = DC_Aware d"
| "lb_on_work now hs (Token_Aware p i) = Token_Aware p i"
| "lb_on_work now hs (Latency_Aware p s xs m) =
     (let m' = new_min_average s now hs xs
      in Latency_Aware p s xs (if m' \<noteq> 0x7FFFFFFFFFFFFFFF then m' else m))"
| "lb_on_work now hs (Whitelist p w) = Whitelist p w"

section \<open>Query plans\<close>

record dc_plan =
  dp_cl :: consistency
  dp_hosts :: host_vec
  dp_remote_dcs :: "string list option"
  local_remaining :: nat
  remote_remaining :: nat
  dp_index :: u64

text \<open>\<open>Child_Plan\<close> is the plan of the child that a token aware policy passes on where it knows no replicas.\<close>

datatype query_plan =
    Round_Robin_Plan host_vec u64 nat
  | DC_Aware_Plan dc_plan
  | Token_Aware_Plan query_plan host_vec u64 nat
  | Latency_Aware_Plan query_plan host_vec nat
  | Child_Plan query_plan

text \<open>
  What a policy needs of a request: its opcode, consistency and keyspace and, where it has
  one, its routing key.
\<close>

record lb_request =
  lr_opcode :: byte
  lr_consistency :: consistency
  lr_keyspace :: string
  lr_routing_key :: "bytes option"

definition is_routable :: "lb_request \<Rightarrow> bool" where
  "is_routable r \<longleftrightarrow> lr_opcode r \<in> {0x07, 0x0A, 0x0D}"

definition plan_replicas :: "string \<Rightarrow> lb_request option \<Rightarrow> token_map \<Rightarrow> host_vec" where
  "plan_replicas connected_keyspace request tm =
     (case request of
        None \<Rightarrow> []
      | Some r \<Rightarrow>
          if is_routable r
          then (let ks = (if lr_keyspace r = [] then connected_keyspace else lr_keyspace r)
                in case lr_routing_key r of
                     None \<Rightarrow> []
                   | Some key \<Rightarrow> if ks \<noteq> [] then get_replicas ks key tm else [])
          else [])"

definition new_dc_plan :: "dc_policy \<Rightarrow> consistency \<Rightarrow> u64 \<Rightarrow> dc_plan" where
  "new_dc_plan d cl start =
     \<lparr>dp_cl = cl, dp_hosts = local_dc_live_hosts d, dp_remote_dcs = None,
      local_remaining = length (local_dc_live_hosts d), remote_remaining = 0, dp_index = start\<rparr>"

primrec new_query_plan ::
  "string \<Rightarrow> lb_request option \<Rightarrow> token_map \<Rightarrow> lb_policy \<Rightarrow> query_plan \<times> lb_policy" where
  "new_query_plan cks r tm (Round_Robin xs i) =
     (Round_Robin_Plan xs i (length xs), Round_Robin xs (i + 1))"
| "new_query_plan cks r tm (DC_Aware d) =
     (let cl = (case r of Some r \<Rightarrow> lr_consistency r | None \<Rightarrow> 0xA)
      in (DC_Aware_Plan (new_dc_plan d cl (dc_index d)), DC_Aware (d\<lparr>dc_index := dc_index d + 1\<rparr>)))"
| "new_query_plan cks r tm (Token_Aware p i) =
     (let (child, p') = new_query_plan cks r tm p;
          replicas = plan_replicas cks r tm
      in if replicas \<noteq> []
         then (Token_Aware_Plan child replicas i (length replicas), Token_Aware p' (i + 1))
         else (Child_Plan child, Token_Aware p' i))"
| "new_query_plan cks r tm (Latency_Aware p s xs m) =
     (let (child, p') = new_query_plan cks r tm p
      in (Latency_Aware_Plan child [] 0, Latency_Aware p' s xs m))"
| "new_query_plan cks r tm (Whitelist p w) =
     (let (child, p') = new_query_plan cks r tm p in (child, Whitelist p' w))"

text \<open>
  The loop all plans share: of the next \<open>remaining\<close> hosts from \<open>idx\<close> on, around the list,
  the first that is wanted. \<open>idx\<close> is a \<open>size_t\<close>, so \<open>idx++\<close> wraps.
\<close>

fun next_wanted :: "(host_ref \<Rightarrow> bool) \<Rightarrow> host_vec \<Rightarrow> u64 \<Rightarrow> nat \<Rightarrow> host_ref option \<times> u64 \<times> nat" where
  "next_wanted P hosts idx 0 = (None, idx, 0)"
| "next_wanted P hosts idx (Suc remaining) =
     (let h = hosts ! (unat idx mod length hosts)
      in if P h then (Some h, idx + 1, remaining) else next_wanted P hosts (idx + 1) remaining)"

fun next_remote ::
  "host_store \<Rightarrow> dc_policy \<Rightarrow> host_vec \<Rightarrow> u64 \<Rightarrow> nat \<Rightarrow> string list \<Rightarrow>
   host_ref option \<times> host_vec \<times> u64 \<times> nat \<times> string list" where
  "next_remote hs d hosts idx remaining [] =
     (let (h, idx', remaining') = next_wanted (\<lambda>h. is_up (hs h)) hosts idx remaining
      in (h, hosts, idx', remaining', []))"
| "next_remote hs d hosts idx remaining (r # rs) =
     (case next_wanted (\<lambda>h. is_up (hs h)) hosts idx remaining of
        (Some h, idx', remaining') \<Rightarrow> (Some h, hosts, idx', remaining', r # rs)
      | (None, idx', _) \<Rightarrow>
          (let hosts' = get_hosts (per_remote_dc_live_hosts d) r
           in next_remote hs d hosts' idx' (min (length hosts') (used_hosts_per_remote_dc d)) rs))"

definition dc_compute_next :: "host_store \<Rightarrow> dc_policy \<Rightarrow> dc_plan \<Rightarrow> host_ref option \<times> dc_plan" where
  "dc_compute_next hs d p =
     (case next_wanted (\<lambda>h. is_up (hs h)) (dp_hosts p) (dp_index p) (local_remaining p) of
        (Some h, idx, remaining) \<Rightarrow> (Some h, p\<lparr>dp_index := idx, local_remaining := remaining\<rparr>)
      | (None, idx, remaining) \<Rightarrow>
          (let p = p\<lparr>dp_index := idx, local_remaining := remaining\<rparr>
           in if skip_remote_dcs_for_local_cl d \<and> is_dc_local (dp_cl p) then (None, p)
              else
                (let dcs = (case dp_remote_dcs p of
                              Some dcs \<Rightarrow> dcs | None \<Rightarrow> map fst (per_remote_dc_live_hosts d));
                     (h, hosts, idx, remaining, dcs) =
                       next_remote hs d (dp_hosts p) (dp_index p) (remote_remaining p) dcs
                 in (h, p\<lparr>dp_hosts := hosts, dp_remote_dcs := Some dcs, remote_remaining := remaining,
                          dp_index := idx\<rparr>))))"

text \<open>The number of calls after which a plan is certainly at its end.\<close>

primrec calls_left :: "lb_policy \<Rightarrow> query_plan \<Rightarrow> nat" where
  "calls_left (Round_Robin xs i) plan = (case plan of Round_Robin_Plan _ _ n \<Rightarrow> n | _ \<Rightarrow> 0)"
| "calls_left (DC_Aware d) plan =
     (case plan of
        DC_Aware_Plan p \<Rightarrow> local_remaining p + remote_remaining p +
          sum_list (map (\<lambda>r. length (get_hosts (per_remote_dc_live_hosts d) r))
            (case dp_remote_dcs p of Some dcs \<Rightarrow> dcs | None \<Rightarrow> map fst (per_remote_dc_live_hosts d)))
      | _ \<Rightarrow> 0)"
| "calls_left (Token_Aware p i) plan =
     (case plan of
        Token_Aware_Plan child _ _ n \<Rightarrow> calls_left p child + n
      | Child_Plan child \<Rightarrow> calls_left p child
      | _ \<Rightarrow> 0)"
| "calls_left (Latency_Aware p s xs m) plan =
     (case plan of
        Latency_Aware_Plan child skipped k \<Rightarrow> calls_left p child + (length skipped - k) | _ \<Rightarrow> 0)"
| "calls_left (Whitelist p w) plan = calls_left p plan"

text \<open>
  \<open>while ((host = child_plan_->compute_next()))\<close> until a host is wanted; the others are
  collected. The loop ends because a plan does, see \<open>calls_left\<close>; the fuel is one more.
\<close>

fun child_loop ::
  "nat \<Rightarrow> ('p \<Rightarrow> 'h option \<times> 'p) \<Rightarrow> ('h \<Rightarrow> bool) \<Rightarrow> 'p \<Rightarrow> 'h list \<Rightarrow> 'h option \<times> 'p \<times> 'h list" where
  "child_loop 0 nxt P p skipped = (None, p, skipped)"
| "child_loop (Suc n) nxt P p skipped =
     (case nxt p of
        (None, p') \<Rightarrow> (None, p', skipped)
      | (Some h, p') \<Rightarrow> if P h then (Some h, p', skipped) else child_loop n nxt P p' (skipped @ [h]))"

definition contains_address :: "host_store \<Rightarrow> host_vec \<Rightarrow> address \<Rightarrow> bool" where
  "contains_address hs replicas a \<longleftrightarrow> (\<exists>r \<in> set replicas. eq_address (address (hs r)) a)"

text \<open>The hosts a latency aware plan does not put off, with the least average \<open>m\<close> at the time \<open>now\<close>.\<close>

definition fast_enough :: "latency_settings \<Rightarrow> u64 \<Rightarrow> u64 \<Rightarrow> host_store \<Rightarrow> host_ref \<Rightarrow> bool" where
  "fast_enough s m now hs h \<longleftrightarrow>
     (let l = get_current_average (hs h)
      in sint m < 0 \<or> sint (average l) < 0 \<or> num_measured l < min_measured s \<or>
         now - ta_timestamp l > retry_period_ns s \<or>
         sint (average l) \<le> sint (exclusion_limit s m))"

definition round_robin_next :: "host_store \<Rightarrow> host_vec \<Rightarrow> u64 \<Rightarrow> nat \<Rightarrow> host_ref option \<times> query_plan" where [simp]:
  "round_robin_next hs hosts idx n =
     (let (h, idx', n') = next_wanted (\<lambda>h. is_up (hs h)) hosts idx n
      in (h, Round_Robin_Plan hosts idx' n'))"

text \<open>The wrappers get the distances and the next call of their child policy.\<close>

definition token_aware_next ::
  "host_store \<Rightarrow> (host_ref \<Rightarrow> host_distance) \<Rightarrow> (query_plan \<Rightarrow> host_ref option \<times> query_plan) \<Rightarrow> nat \<Rightarrow>
   query_plan \<Rightarrow> host_vec \<Rightarrow> u64 \<Rightarrow> nat \<Rightarrow> host_ref option \<times> query_plan" where [simp]:
  "token_aware_next hs distance child_next fuel child replicas idx n =
     (case next_wanted (\<lambda>h. is_up (hs h) \<and> distance h = LOCAL) replicas idx n of
        (Some h, idx', n') \<Rightarrow> (Some h, Token_Aware_Plan child replicas idx' n')
      | (None, idx', n') \<Rightarrow>
          (let (h, child', _) =
                 child_loop fuel child_next
                   (\<lambda>h. \<not> contains_address hs replicas (address (hs h)) \<or> distance h \<noteq> LOCAL) child []
           in (h, Token_Aware_Plan child' replicas idx' n')))"

definition latency_aware_next ::
  "host_store \<Rightarrow> u64 \<Rightarrow> latency_settings \<Rightarrow> u64 \<Rightarrow> (query_plan \<Rightarrow> host_ref option \<times> query_plan) \<Rightarrow> nat \<Rightarrow>
   query_plan \<Rightarrow> host_vec \<Rightarrow> nat \<Rightarrow> host_ref option \<times> query_plan" where [simp]:
  "latency_aware_next hs now s m child_next fuel child skipped k =
     (let (h, child', skipped') = child_loop fuel child_next (fast_enough s m now hs) child skipped
      in if h \<noteq> None then (h, Latency_Aware_Plan child' skipped' k)
         else if k < length skipped' then (Some (skipped' ! k), Latency_Aware_Plan child' skipped' (k + 1))
         else (None, Latency_Aware_Plan child' skipped' k))"

primrec plan_next ::
  "(address \<Rightarrow> string) \<Rightarrow> host_store \<Rightarrow> u64 \<Rightarrow> lb_policy \<Rightarrow> query_plan \<Rightarrow> host_ref option \<times> query_plan" where
  "plan_next txt hs now (Round_Robin xs i) plan =
     (case plan of
        Round_Robin_Plan hosts idx n \<Rightarrow> round_robin_next hs hosts idx n
      | _ \<Rightarrow> (None, plan))"
| "plan_next txt hs now (DC_Aware d) plan =
     (case plan of
        DC_Aware_Plan p \<Rightarrow> (let (h, p') = dc_compute_next hs d p in (h, DC_Aware_Plan p'))
      | _ \<Rightarrow> (None, plan))"
| "plan_next txt hs now (Token_Aware p i) plan =
     (case plan of
        Token_Aware_Plan child replicas idx n \<Rightarrow>
          token_aware_next hs (lb_distance txt hs p) (plan_next txt hs now p)
            (Suc (calls_left p child)) child replicas idx n
      | Child_Plan child \<Rightarrow>
          (let (h, child') = plan_next txt hs now p child in (h, Child_Plan child'))
      | _ \<Rightarrow> (None, plan))"
| "plan_next txt hs now (Latency_Aware p s xs m) plan =
     (case plan of
        Latency_Aware_Plan child skipped k \<Rightarrow>
          latency_aware_next hs now s m (plan_next txt hs now p)
            (Suc (calls_left p child)) child skipped k
      | _ \<Rightarrow> (None, plan))"
| "plan_next txt hs now (Whitelist p w) plan = plan_next txt hs now p plan"

section \<open>The contract of a plan\<close>

text \<open>
  What the request handler relies on: a plan promises a multiset of hosts; each call, at
  whatever time \<open>e\<close>, takes one of them away, and a plan that answers null has none left.
\<close>

text \<open>The hosts of the successive calls at the times \<open>es\<close>, up to the first null.\<close>

fun drain :: "('e \<Rightarrow> 'p \<Rightarrow> 'h option \<times> 'p) \<Rightarrow> 'e list \<Rightarrow> 'p \<Rightarrow> 'h list" where
  "drain nxt [] p = []"
| "drain nxt (e # es) p =
     (case nxt e p of (None, p') \<Rightarrow> [] | (Some h, p') \<Rightarrow> h # drain nxt es p')"

locale host_plan =
  fixes ok :: "'p \<Rightarrow> bool"
    and nxt :: "'e \<Rightarrow> 'p \<Rightarrow> 'h option \<times> 'p"
    and promised :: "'p \<Rightarrow> 'h multiset"
  assumes nxt_ok: "ok p \<Longrightarrow> nxt e p = (r, p') \<Longrightarrow> ok p'"
    and nxt_Some: "ok p \<Longrightarrow> nxt e p = (Some h, p') \<Longrightarrow> promised p = add_mset h (promised p')"
    and nxt_None: "ok p \<Longrightarrow> nxt e p = (None, p') \<Longrightarrow> promised p = {#} \<and> promised p' = {#}"
begin

lemma nxt_answers: "ok p \<Longrightarrow> fst (nxt e p) = None \<longleftrightarrow> promised p = {#}"
  using nxt_Some [of p e _ "snd (nxt e p)"] nxt_None [of p e "snd (nxt e p)"]
  by (cases "fst (nxt e p)"; cases "nxt e p") auto

lemma mset_drain: "ok p \<Longrightarrow> size (promised p) \<le> length es \<Longrightarrow> mset (drain nxt es p) = promised p"
proof (induction es arbitrary: p)
  case (Cons e es)
  show ?case
  proof (cases "nxt e p")
    case (Pair r p')
    then show ?thesis
      using Cons nxt_ok [of p e r p'] nxt_Some [of p e _ p'] nxt_None [of p e p'] by (cases r) auto
  qed
qed simp

end

text \<open>While nothing changes, the order of the hosts is fixed as well.\<close>

locale ordered_plan =
  fixes step :: "'p \<Rightarrow> 'h option \<times> 'p"
    and rest :: "'p \<Rightarrow> 'h list"
  assumes step_Some: "step p = (Some h, p') \<Longrightarrow> rest p = h # rest p'"
    and step_None: "step p = (None, p') \<Longrightarrow> rest p = [] \<and> rest p' = []"

sublocale ordered_plan \<subseteq> steady: host_plan "\<lambda>_. True" "\<lambda>_. step" "\<lambda>p. mset (rest p)"
  by unfold_locales (auto dest: step_Some step_None)

context ordered_plan
begin

lemma drain_rest: "drain (\<lambda>_. step) es p = take (length es) (rest p)"
proof (induction es arbitrary: p)
  case (Cons e es)
  show ?case
  proof (cases "step p")
    case (Pair r p')
    then show ?thesis using Cons step_Some [of p _ p'] step_None [of p p'] by (cases r) auto
  qed
qed simp

lemma child_loop_rest:
  assumes "child_loop n step P p skipped = (r, p', skipped')" and "length (rest p) < n"
  shows "case r of
           Some h \<Rightarrow> filter P (rest p) = h # filter P (rest p') \<and>
                    skipped' @ filter (\<lambda>h. \<not> P h) (rest p') = skipped @ filter (\<lambda>h. \<not> P h) (rest p)
         | None \<Rightarrow> filter P (rest p) = [] \<and> filter (\<lambda>h. \<not> P h) (rest p) = rest p \<and> rest p' = [] \<and>
                  skipped' = skipped @ rest p"
  using assms
proof (induction n arbitrary: p skipped)
  case (Suc n)
  show ?case
  proof (cases "step p")
    case (Pair x q)
    show ?thesis
    proof (cases x)
      case None
      then show ?thesis using Suc.prems Pair step_None [of p q] by auto
    next
      case (Some h)
      then have p: "rest p = h # rest q" using Pair step_Some by simp
      show ?thesis
      proof (cases "P h")
        case True
        then show ?thesis using Suc.prems Pair Some p by auto
      next
        case False
        then have "child_loop n step P q (skipped @ [h]) = (r, p', skipped')"
          and "length (rest q) < n" using Suc.prems Pair Some p by auto
        from Suc.IH [OF this] show ?thesis
          using False p by (auto split: option.splits)
      qed
    qed
  qed
qed simp

end

section \<open>The hosts a plan will answer\<close>

fun ring_slice :: "host_vec \<Rightarrow> u64 \<Rightarrow> nat \<Rightarrow> host_vec" where
  "ring_slice hosts idx 0 = []"
| "ring_slice hosts idx (Suc n) = hosts ! (unat idx mod length hosts) # ring_slice hosts (idx + 1) n"

lemma length_ring_slice [simp]: "length (ring_slice hosts idx n) = n"
  by (induction hosts idx n rule: ring_slice.induct) simp_all

lemma next_wanted_Some:
  "next_wanted P hosts idx n = (Some h, idx', n') \<Longrightarrow>
   filter P (ring_slice hosts idx n) = h # filter P (ring_slice hosts idx' n') \<and>
   idx' + of_nat n' = idx + of_nat n"
  by (induction P hosts idx n rule: next_wanted.induct) (auto simp: Let_def split: if_splits)

lemma next_wanted_None:
  "next_wanted P hosts idx n = (None, idx', n') \<Longrightarrow>
   filter P (ring_slice hosts idx n) = [] \<and> n' = 0 \<and> idx' = idx + of_nat n"
  by (induction P hosts idx n rule: next_wanted.induct) (auto simp: Let_def split: if_splits)

abbreviation up_hosts :: "host_store \<Rightarrow> host_vec \<Rightarrow> host_vec" where
  "up_hosts hs \<equiv> filter (\<lambda>h. is_up (hs h))"

fun remote_rest :: "host_store \<Rightarrow> dc_policy \<Rightarrow> u64 \<Rightarrow> string list \<Rightarrow> host_vec" where
  "remote_rest hs d idx [] = []"
| "remote_rest hs d idx (r # rs) =
     (let hosts = get_hosts (per_remote_dc_live_hosts d) r;
          n = min (length hosts) (used_hosts_per_remote_dc d)
      in up_hosts hs (ring_slice hosts idx n) @ remote_rest hs d (idx + of_nat n) rs)"

definition dc_rest :: "host_store \<Rightarrow> dc_policy \<Rightarrow> dc_plan \<Rightarrow> host_vec" where
  "dc_rest hs d p =
     (let idx = dp_index p + of_nat (local_remaining p)
      in up_hosts hs (ring_slice (dp_hosts p) (dp_index p) (local_remaining p)) @
         (if skip_remote_dcs_for_local_cl d \<and> is_dc_local (dp_cl p) then []
          else up_hosts hs (ring_slice (dp_hosts p) idx (remote_remaining p)) @
               remote_rest hs d (idx + of_nat (remote_remaining p))
                 (case dp_remote_dcs p of Some dcs \<Rightarrow> dcs | None \<Rightarrow> map fst (per_remote_dc_live_hosts d))))"

primrec plan_rest ::
  "(address \<Rightarrow> string) \<Rightarrow> host_store \<Rightarrow> u64 \<Rightarrow> lb_policy \<Rightarrow> query_plan \<Rightarrow> host_vec" where
  "plan_rest txt hs now (Round_Robin xs i) plan =
     (case plan of Round_Robin_Plan hosts idx n \<Rightarrow> up_hosts hs (ring_slice hosts idx n) | _ \<Rightarrow> [])"
| "plan_rest txt hs now (DC_Aware d) plan =
     (case plan of DC_Aware_Plan p \<Rightarrow> dc_rest hs d p | _ \<Rightarrow> [])"
| "plan_rest txt hs now (Token_Aware p i) plan =
     (case plan of
        Token_Aware_Plan child replicas idx n \<Rightarrow>
          filter (\<lambda>h. is_up (hs h) \<and> lb_distance txt hs p h = LOCAL) (ring_slice replicas idx n) @
          filter (\<lambda>h. \<not> contains_address hs replicas (address (hs h)) \<or> lb_distance txt hs p h \<noteq> LOCAL)
            (plan_rest txt hs now p child)
      | Child_Plan child \<Rightarrow> plan_rest txt hs now p child
      | _ \<Rightarrow> [])"
| "plan_rest txt hs now (Latency_Aware p s xs m) plan =
     (case plan of
        Latency_Aware_Plan child skipped k \<Rightarrow>
          filter (fast_enough s m now hs) (plan_rest txt hs now p child) @
          drop k (skipped @ filter (\<lambda>h. \<not> fast_enough s m now hs h) (plan_rest txt hs now p child))
      | _ \<Rightarrow> [])"
| "plan_rest txt hs now (Whitelist p w) plan = plan_rest txt hs now p plan"

lemma next_remote_rest:
  assumes "next_remote hs d hosts idx n dcs = (r, hosts', idx', n', dcs')"
  shows "case r of
           Some h \<Rightarrow> up_hosts hs (ring_slice hosts idx n) @ remote_rest hs d (idx + of_nat n) dcs =
                    h # up_hosts hs (ring_slice hosts' idx' n') @ remote_rest hs d (idx' + of_nat n') dcs'
         | None \<Rightarrow> up_hosts hs (ring_slice hosts idx n) @ remote_rest hs d (idx + of_nat n) dcs = [] \<and>
                  n' = 0 \<and> dcs' = []"
  using assms
proof (induction hs d hosts idx n dcs rule: next_remote.induct)
  case (1 hs d hosts idx n)
  then show ?case
    by (auto split: prod.splits option.splits dest: next_wanted_Some next_wanted_None)
next
  case (2 hs d hosts idx n r' rs)
  show ?case
  proof (cases "next_wanted (\<lambda>h. is_up (hs h)) hosts idx n")
    case (fields x i k)
    show ?thesis
    proof (cases x)
      case (Some h)
      then show ?thesis
        using 2(2) fields next_wanted_Some [of "\<lambda>h. is_up (hs h)" hosts idx n h i k]
        by (auto simp: Let_def)
    next
      case None
      have i: "i = idx + of_nat n" and e: "up_hosts hs (ring_slice hosts idx n) = []"
        using fields None next_wanted_None by auto
      show ?thesis
        using 2(1) [OF fields [unfolded None, symmetric] refl refl refl] 2(2) fields None e i
        by (cases r) (simp_all add: Let_def)
    qed
  qed
qed

lemma length_remote_rest:
  "length (remote_rest hs d idx dcs) \<le>
     sum_list (map (\<lambda>r. length (get_hosts (per_remote_dc_live_hosts d) r)) dcs)"
proof (induction dcs arbitrary: idx)
  case (Cons r rs)
  have "length (up_hosts hs (ring_slice xs i (min (length xs) k))) \<le> length xs" for xs i k
    by (rule order_trans [OF length_filter_le]) simp
  then show ?case using Cons by (simp add: Let_def add_mono)
qed simp

lemma length_dc_rest: "length (dc_rest hs d p) \<le> calls_left (DC_Aware d) (DC_Aware_Plan p)"
proof -
  define dcs where "dcs = (case dp_remote_dcs p of Some dcs \<Rightarrow> dcs | None \<Rightarrow> map fst (per_remote_dc_live_hosts d))"
  have f: "length (up_hosts hs (ring_slice xs i k)) \<le> k" for xs i k
    by (rule order_trans [OF length_filter_le]) simp
  have "length (dc_rest hs d p) \<le> local_remaining p + (remote_remaining p +
      sum_list (map (\<lambda>r. length (get_hosts (per_remote_dc_live_hosts d) r)) dcs))"
    unfolding dc_rest_def Let_def dcs_def [symmetric] length_append
    by (intro add_mono f) (simp add: add_mono f length_remote_rest)
  then show ?thesis by (simp add: dcs_def add.assoc)
qed

lemma dc_compute_next_rest:
  assumes "dc_compute_next hs d p = (r, p')"
  shows "case r of Some h \<Rightarrow> dc_rest hs d p = h # dc_rest hs d p' | None \<Rightarrow> dc_rest hs d p = [] \<and> dc_rest hs d p' = []"
proof (cases "next_wanted (\<lambda>h. is_up (hs h)) (dp_hosts p) (dp_index p) (local_remaining p)")
  case (fields x i k)
  show ?thesis
  proof (cases x)
    case (Some h)
    then show ?thesis
      using assms fields next_wanted_Some [OF fields [unfolded Some]]
      by (auto simp: dc_compute_next_def dc_rest_def Let_def)
  next
    case None
    note w = next_wanted_None [OF fields [unfolded None]]
    define dcs where "dcs = (case dp_remote_dcs p of Some dcs \<Rightarrow> dcs | None \<Rightarrow> map fst (per_remote_dc_live_hosts d))"
    show ?thesis
    proof (cases "skip_remote_dcs_for_local_cl d \<and> is_dc_local (dp_cl p)")
      case True
      then show ?thesis using assms fields None w by (auto simp: dc_compute_next_def dc_rest_def Let_def)
    next
      case False
      obtain h hosts j n' dcs' where
        n: "next_remote hs d (dp_hosts p) i (remote_remaining p) dcs = (h, hosts, j, n', dcs')"
        by (metis prod_cases5)
      have r: "r = h" and p': "p' = p\<lparr>dp_hosts := hosts, dp_remote_dcs := Some dcs',
          local_remaining := 0, remote_remaining := n', dp_index := j\<rparr>"
        using assms fields None w False n by (auto simp: dc_compute_next_def Let_def dcs_def)
      show ?thesis
        using next_remote_rest [OF n] False w
        unfolding r p' dc_rest_def Let_def dcs_def [symmetric]
        by (auto split: option.splits)
    qed
  qed
qed

lemma filter_length_add: "length xs \<le> n \<Longrightarrow> length ys \<le> m \<Longrightarrow> length (filter P xs @ filter Q ys) \<le> n + m"
  by (metis add_mono length_append length_filter_le order_trans)

text \<open>A plan never has more hosts than \<open>calls_left\<close>, so the loop over a child plan has enough fuel.\<close>

lemma length_plan_rest: "length (plan_rest txt hs now pol p) \<le> calls_left pol p"
proof (induction pol arbitrary: p)
  case (Round_Robin xs i)
  then show ?case by (cases p) (simp_all add: order_trans [OF length_filter_le])
next
  case (DC_Aware d)
  then show ?case using length_dc_rest by (cases p) auto
next
  case (Token_Aware pol i)
  show ?case
  proof (cases p)
    case (Token_Aware_Plan child replicas idx n)
    then show ?thesis
      using filter_length_add [OF _ Token_Aware.IH [of child], of "ring_slice replicas idx n" n]
      by (simp add: add.commute)
  qed (use Token_Aware.IH in auto)
next
  case (Latency_Aware pol s xs m)
  show ?case
  proof (cases p)
    case (Latency_Aware_Plan child skipped k)
    then show ?thesis
      using Latency_Aware.IH [of child] sum_length_filter_compl [of "fast_enough s m now hs" "plan_rest txt hs now pol child"]
      by simp
  qed auto
qed simp


text \<open>One step of each wrapper over a child that keeps its list.\<close>

lemma ordered_planI:
  assumes "\<And>p r p'. step p = (r, p') \<Longrightarrow>
    (case r of Some h \<Rightarrow> rest p = h # rest p' | None \<Rightarrow> rest p = [] \<and> rest p' = [])"
  shows "ordered_plan step rest"
  by unfold_locales (use assms in fastforce)+

lemma token_aware_next_rest:
  assumes "ordered_plan (plan_next txt hs now pol) (plan_rest txt hs now pol)"
    and "plan_next txt hs now (Token_Aware pol i) p = (r, p')"
  shows "case r of
           Some h \<Rightarrow> plan_rest txt hs now (Token_Aware pol i) p = h # plan_rest txt hs now (Token_Aware pol i) p'
         | None \<Rightarrow> plan_rest txt hs now (Token_Aware pol i) p = [] \<and>
                  plan_rest txt hs now (Token_Aware pol i) p' = []"
proof (cases p)
  case (Token_Aware_Plan child replicas idx n)
  let ?L = "\<lambda>h. is_up (hs h) \<and> lb_distance txt hs pol h = LOCAL"
  let ?P = "\<lambda>h. \<not> contains_address hs replicas (address (hs h)) \<or> lb_distance txt hs pol h \<noteq> LOCAL"
  show ?thesis
  proof (cases "next_wanted ?L replicas idx n")
    case (fields x j k)
    show ?thesis
    proof (cases x)
      case (Some h)
      then show ?thesis
        using assms(2) fields Token_Aware_Plan next_wanted_Some [OF fields [unfolded Some]] by auto
    next
      case None
      obtain h child' sk where
        l: "child_loop (Suc (calls_left pol child)) (plan_next txt hs now pol) ?P child [] = (h, child', sk)"
        by (metis prod_cases3)
      have "length (plan_rest txt hs now pol child) < Suc (calls_left pol child)"
        by (simp add: length_plan_rest less_Suc_eq_le)
      from ordered_plan.child_loop_rest [OF assms(1) l this]
      show ?thesis
        using assms(2) Token_Aware_Plan fields None l next_wanted_None [OF fields [unfolded None]]
        by (auto split: option.splits simp del: child_loop.simps)
    qed
  qed
next
  case (Child_Plan child)
  then show ?thesis
    using assms(2) ordered_plan.step_Some [OF assms(1)] ordered_plan.step_None [OF assms(1)]
    by (auto split: prod.splits option.splits)
qed (use assms(2) in auto)

lemma latency_aware_next_rest:
  assumes "ordered_plan (plan_next txt hs now pol) (plan_rest txt hs now pol)"
    and "plan_next txt hs now (Latency_Aware pol s xs m) p = (r, p')"
  shows "case r of
           Some h \<Rightarrow> plan_rest txt hs now (Latency_Aware pol s xs m) p =
                    h # plan_rest txt hs now (Latency_Aware pol s xs m) p'
         | None \<Rightarrow> plan_rest txt hs now (Latency_Aware pol s xs m) p = [] \<and>
                  plan_rest txt hs now (Latency_Aware pol s xs m) p' = []"
proof (cases p)
  case (Latency_Aware_Plan child skipped k)
  let ?P = "fast_enough s m now hs"
  obtain h child' sk where
    l: "child_loop (Suc (calls_left pol child)) (plan_next txt hs now pol) ?P child skipped = (h, child', sk)"
    by (metis prod_cases3)
  have "length (plan_rest txt hs now pol child) < Suc (calls_left pol child)"
    by (simp add: length_plan_rest less_Suc_eq_le)
  from ordered_plan.child_loop_rest [OF assms(1) l this]
  show ?thesis
    using assms(2) Latency_Aware_Plan l
    by (cases h) (auto split: if_splits simp del: child_loop.simps drop_append nth_append simp: Cons_nth_drop_Suc)
qed (use assms(2) in auto)

lemma compute_next_ordered: "ordered_plan (plan_next txt hs now pol) (plan_rest txt hs now pol)"
proof (induction pol)
  case (Round_Robin xs i)
  show ?case
  proof (rule ordered_planI)
    fix p r p'
    assume "plan_next txt hs now (Round_Robin xs i) p = (r, p')"
    then show "case r of Some h \<Rightarrow> plan_rest txt hs now (Round_Robin xs i) p = h # plan_rest txt hs now (Round_Robin xs i) p'
      | None \<Rightarrow> plan_rest txt hs now (Round_Robin xs i) p = [] \<and> plan_rest txt hs now (Round_Robin xs i) p' = []"
      by (cases p) (auto split: prod.splits option.splits dest: next_wanted_Some next_wanted_None)
  qed
next
  case (DC_Aware d)
  show ?case
  proof (rule ordered_planI)
    fix p r p'
    assume "plan_next txt hs now (DC_Aware d) p = (r, p')"
    then show "case r of Some h \<Rightarrow> plan_rest txt hs now (DC_Aware d) p = h # plan_rest txt hs now (DC_Aware d) p'
      | None \<Rightarrow> plan_rest txt hs now (DC_Aware d) p = [] \<and> plan_rest txt hs now (DC_Aware d) p' = []"
      using dc_compute_next_rest [of hs d] by (cases p; cases r) (fastforce split: prod.splits)+
  qed
next
  case (Token_Aware pol i)
  show ?case by (rule ordered_planI) (rule token_aware_next_rest [OF Token_Aware.IH])
next
  case (Latency_Aware pol s xs m)
  show ?case by (rule ordered_planI) (rule latency_aware_next_rest [OF Latency_Aware.IH])
next
  case (Whitelist pol w)
  then show ?case by (simp add: ordered_plan_def)
qed

interpretation plan_order: ordered_plan "plan_next tx hs now pol" "plan_rest tx hs now pol"
  for tx hs now pol
  by (rule compute_next_ordered)

section \<open>Plans while the clock runs\<close>

text \<open>The index into the skipped hosts stays within them.\<close>

primrec skipped_ok :: "query_plan \<Rightarrow> bool" where
  "skipped_ok (Round_Robin_Plan hosts idx n) = True"
| "skipped_ok (DC_Aware_Plan p) = True"
| "skipped_ok (Token_Aware_Plan child replicas idx n) = skipped_ok child"
| "skipped_ok (Latency_Aware_Plan child skipped k) = (skipped_ok child \<and> k \<le> length skipped)"
| "skipped_ok (Child_Plan child) = skipped_ok child"

lemma child_loop_inv:
  assumes "\<And>p r p'. I p \<Longrightarrow> nxt p = (r, p') \<Longrightarrow> I p'"
  shows "I p \<Longrightarrow> child_loop n nxt P p skipped = (h, p', skipped') \<Longrightarrow>
         I p' \<and> length skipped \<le> length skipped'"
proof (induction n arbitrary: p skipped)
  case (Suc n)
  show ?case
  proof (cases "nxt p")
    case (Pair r q)
    then have "I q" using assms Suc.prems(1) by blast
    then show ?thesis
      using Suc.IH [of q "skipped @ [the r]"] Suc.prems(2) Pair by (auto split: option.splits if_splits)
  qed
qed simp

lemma skipped_ok_new: "skipped_ok (fst (new_query_plan cks r tm pol))"
  by (induction pol) (auto simp: Let_def split: prod.splits)

lemma skipped_ok_next: "skipped_ok p \<Longrightarrow> plan_next txt hs now pol p = (r, p') \<Longrightarrow> skipped_ok p'"
proof (induction pol arbitrary: p p' r)
  case (Token_Aware pol i)
  show ?case
  proof (cases p)
    case (Token_Aware_Plan child replicas idx n)
    obtain h child' sk where
      l: "child_loop (Suc (calls_left pol child)) (plan_next txt hs now pol)
            (\<lambda>h. \<not> contains_address hs replicas (address (hs h)) \<or> lb_distance txt hs pol h \<noteq> LOCAL)
            child [] = (h, child', sk)"
      by (metis prod_cases3)
    have c: "skipped_ok child' \<and> length ([] :: host_vec) \<le> length sk"
      using Token_Aware Token_Aware_Plan by (intro child_loop_inv [OF _ _ l]) auto
    show ?thesis
      using Token_Aware.prems Token_Aware_Plan l c
      by (auto simp del: child_loop.simps split: prod.splits option.splits)
  qed (use Token_Aware in \<open>auto split: prod.splits\<close>)
next
  case (Latency_Aware pol s xs m)
  show ?case
  proof (cases p)
    case (Latency_Aware_Plan child skipped k)
    obtain h child' sk where
      l: "child_loop (Suc (calls_left pol child)) (plan_next txt hs now pol) (fast_enough s m now hs)
            child skipped = (h, child', sk)"
      by (metis prod_cases3)
    have "skipped_ok child' \<and> length skipped \<le> length sk"
      using Latency_Aware Latency_Aware_Plan by (intro child_loop_inv [OF _ _ l]) auto
    then show ?thesis
      using Latency_Aware.prems l Latency_Aware_Plan
      by (auto simp del: child_loop.simps split: if_splits)
  qed (use Latency_Aware in auto)
qed (auto split: query_plan.splits prod.splits)

lemma mset_plan_rest:
  "skipped_ok p \<Longrightarrow> mset (plan_rest txt hs now pol p) = mset (plan_rest txt hs 0 pol p)"
proof (induction pol arbitrary: p)
  case (Token_Aware pol i)
  then show ?case by (cases p) auto
next
  case (Latency_Aware pol s xs m)
  show ?case
  proof (cases p)
    case (Latency_Aware_Plan child skipped k)
    have "mset (filter (fast_enough s m t hs) ys @ drop k (skipped @ filter (\<lambda>h. \<not> fast_enough s m t hs h) ys)) =
          mset ys + mset (drop k skipped)" for t ys
      using Latency_Aware.prems Latency_Aware_Plan
      by (simp add: multiset_partition [of "mset ys" "fast_enough s m t hs", symmetric] ac_simps)
    then show ?thesis using Latency_Aware Latency_Aware_Plan by simp
  qed auto
qed auto

interpretation plan: host_plan skipped_ok "\<lambda>now. plan_next tx hs now pol"
  "\<lambda>p. mset (plan_rest tx hs 0 pol p)" for tx hs pol
proof
  fix now p h p'
  assume "skipped_ok p" and c: "plan_next tx hs now pol p = (Some h, p')"
  then show "mset (plan_rest tx hs 0 pol p) = add_mset h (mset (plan_rest tx hs 0 pol p'))"
    using plan_order.step_Some [OF c] mset_plan_rest [of p tx hs now pol]
      mset_plan_rest [of p' tx hs now pol] skipped_ok_next by fastforce
next
  fix now p p'
  assume "skipped_ok p" and c: "plan_next tx hs now pol p = (None, p')"
  then show "mset (plan_rest tx hs 0 pol p) = {#} \<and> mset (plan_rest tx hs 0 pol p') = {#}"
    using plan_order.step_None [OF c] mset_plan_rest [of p tx hs now pol]
      mset_plan_rest [of p' tx hs now pol] skipped_ok_next by fastforce
qed (rule skipped_ok_next)

section \<open>New plans\<close>

lemma nth_ring_slice:
  "k < n \<Longrightarrow> ring_slice hosts idx n ! k = hosts ! (unat (idx + of_nat k) mod length hosts)"
proof (induction hosts idx n arbitrary: k rule: ring_slice.induct)
  case (2 hosts idx n)
  then show ?case by (cases k) (simp_all add: add.assoc)
qed simp

lemma set_ring_slice: "n \<le> length hosts \<Longrightarrow> set (ring_slice hosts idx n) \<subseteq> set hosts"
proof
  fix x assume n: "n \<le> length hosts" and "x \<in> set (ring_slice hosts idx n)"
  then obtain k where "k < n" and "x = ring_slice hosts idx n ! k"
    by (metis in_set_conv_nth length_ring_slice)
  then show "x \<in> set hosts"
    using n by (cases "hosts = []") (auto simp: nth_ring_slice)
qed

text \<open>The index does not wrap within the plan.\<close>

abbreviation no_wrap :: "u64 \<Rightarrow> host_vec \<Rightarrow> bool" where
  "no_wrap idx hosts \<equiv> unat idx + length hosts \<le> 2 ^ 64"

lemma ring_slice_rotate:
  assumes "no_wrap idx hosts"
  shows "ring_slice hosts idx (length hosts) = rotate (unat idx) hosts"
proof (rule nth_equalityI)
  fix k assume k: "k < length (ring_slice hosts idx (length hosts))"
  have "unat (of_nat k :: u64) = k" using k assms by (simp add: unat_of_nat)
  then have "unat (idx + of_nat k) = unat idx + k"
    using k assms by (simp add: unat_word_ariths)
  then show "ring_slice hosts idx (length hosts) ! k = rotate (unat idx) hosts ! k"
    using k by (simp add: nth_ring_slice nth_rotate add.commute)
qed simp

text \<open>The policy at the end of a chain, and the indexes of the chain.\<close>

primrec base_policy :: "lb_policy \<Rightarrow> lb_policy" where
  "base_policy (Round_Robin xs i) = Round_Robin xs i"
| "base_policy (DC_Aware d) = DC_Aware d"
| "base_policy (Token_Aware p i) = base_policy p"
| "base_policy (Latency_Aware p s xs m) = base_policy p"
| "base_policy (Whitelist p w) = base_policy p"

primrec chain_indexes :: "lb_policy \<Rightarrow> u64 set" where
  "chain_indexes (Round_Robin xs i) = {}"
| "chain_indexes (DC_Aware d) = {}"
| "chain_indexes (Token_Aware p i) = insert i (chain_indexes p)"
| "chain_indexes (Latency_Aware p s xs m) = chain_indexes p"
| "chain_indexes (Whitelist p w) = chain_indexes p"

lemma distance_new_plan: "lb_distance txt hs (snd (new_query_plan cks r tm pol)) = lb_distance txt hs pol"
  by (induction pol) (auto simp: fun_eq_iff dc_distance_def Let_def split: prod.splits)

definition fresh_rest ::
  "(address \<Rightarrow> string) \<Rightarrow> host_store \<Rightarrow> u64 \<Rightarrow> string \<Rightarrow> lb_request option \<Rightarrow> token_map \<Rightarrow> lb_policy \<Rightarrow> host_vec" where
  "fresh_rest txt hs now cks r tm pol =
     plan_rest txt hs now (snd (new_query_plan cks r tm pol)) (fst (new_query_plan cks r tm pol))"

lemma fresh_rest_simps:
  "fresh_rest txt hs now cks r tm (Round_Robin xs i) = up_hosts hs (ring_slice xs i (length xs))"
  "fresh_rest txt hs now cks r tm (Token_Aware p i) =
     (let replicas = plan_replicas cks r tm in
      if replicas = [] then fresh_rest txt hs now cks r tm p
      else filter (\<lambda>h. is_up (hs h) \<and> lb_distance txt hs p h = LOCAL) (ring_slice replicas i (length replicas)) @
           filter (\<lambda>h. \<not> contains_address hs replicas (address (hs h)) \<or> lb_distance txt hs p h \<noteq> LOCAL)
             (fresh_rest txt hs now cks r tm p))"
  "fresh_rest txt hs now cks r tm (Latency_Aware p s ys m) =
     filter (fast_enough s m now hs) (fresh_rest txt hs now cks r tm p) @
     filter (\<lambda>h. \<not> fast_enough s m now hs h) (fresh_rest txt hs now cks r tm p)"
  "fresh_rest txt hs now cks r tm (Whitelist p w) = fresh_rest txt hs now cks r tm p"
  using distance_new_plan [of "txt" hs cks r tm p]
  by (cases "new_query_plan cks r tm p"; simp add: fresh_rest_def Let_def)+

lemma drain_fresh:
  assumes "length (fresh_rest txt hs 0 cks r tm pol) \<le> length es"
    and "new_query_plan cks r tm pol = (p, pol')"
  shows "mset (drain (\<lambda>now. plan_next txt hs now pol') es p) = mset (fresh_rest txt hs 0 cks r tm pol)"
  using assms plan.mset_drain [of p "txt" hs pol' es] skipped_ok_new [of cks r tm pol]
  by (simp add: fresh_rest_def)

lemma token_part:
  assumes "distinct replicas" and "distinct R" and "inj_on (\<lambda>h. host_part (address (hs h))) (set replicas \<union> set R)"
    and "proper_hosts hs" and "set (filter L replicas) \<subseteq> set R" and "\<forall>h \<in> set R. L h \<longleftrightarrow> D h"
  shows "mset (filter L replicas) +
         mset (filter (\<lambda>h. \<not> contains_address hs replicas (address (hs h)) \<or> \<not> D h) R) = mset R"
proof -
  let ?C = "\<lambda>h. contains_address hs replicas (address (hs h))"
  have c: "?C h \<longleftrightarrow> h \<in> set replicas" if "h \<in> set R" for h
    using that assms(3,4)
    by (auto simp: contains_address_def inj_on_def same_address_iff [unfolded same_address_def])
  have "set (filter L replicas) = set (filter (\<lambda>h. ?C h \<and> D h) R)"
    using c assms(5,6) by auto
  then have "mset (filter L replicas) = mset (filter (\<lambda>h. ?C h \<and> D h) R)"
    using assms(1,2) set_eq_iff_mset_eq_distinct [of "filter L replicas" "filter (\<lambda>h. ?C h \<and> D h) R"]
    by (simp del: mset_filter set_filter)
  moreover have "filter (\<lambda>h. \<not> ?C h \<or> \<not> D h) R = filter (\<lambda>h. \<not> (?C h \<and> D h)) R"
    by (rule filter_cong) auto
  ultimately show ?thesis by (simp add: multiset_partition [symmetric])
qed

lemma mset_rotate_any: "mset (rotate n xs) = mset xs"
proof (induction n)
  case (Suc n)
  have "mset (rotate1 ys) = mset ys" for ys :: "'a list" by (cases ys) simp_all
  then show ?case using Suc by simp
qed simp

lemma base_distance:
  "lb_distance txt hs pol h = LOCAL \<Longrightarrow> lb_distance txt hs (base_policy pol) h = LOCAL"
  by (induction pol) (auto split: if_splits)

lemma wrappers_reorder_rest:
  assumes "distinct (plan_replicas cks r tm)" and "proper_hosts hs"
    and "\<forall>i \<in> chain_indexes pol. no_wrap i (plan_replicas cks r tm)"
    and "distinct (fresh_rest txt hs now cks r tm (base_policy pol))"
    and "inj_on (\<lambda>h. host_part (address (hs h)))
           (set (plan_replicas cks r tm) \<union> set (fresh_rest txt hs now cks r tm (base_policy pol)))"
    and "\<forall>h \<in> set (plan_replicas cks r tm). is_up (hs h) \<and> lb_distance txt hs (base_policy pol) h = LOCAL \<longrightarrow>
           h \<in> set (fresh_rest txt hs now cks r tm (base_policy pol))"
    and "\<forall>h \<in> set (fresh_rest txt hs now cks r tm (base_policy pol)). is_up (hs h)"
  shows "mset (fresh_rest txt hs now cks r tm pol) = mset (fresh_rest txt hs now cks r tm (base_policy pol))"
  using assms(3-)
proof (induction pol)
  case (Token_Aware pol i)
  let ?rs = "plan_replicas cks r tm" and ?R = "fresh_rest txt hs now cks r tm pol"
  have IH: "mset ?R = mset (fresh_rest txt hs now cks r tm (base_policy pol))"
    by (rule Token_Aware.IH) (use Token_Aware.prems in simp_all)
  then have R: "set ?R = set (fresh_rest txt hs now cks r tm (base_policy pol))"
    by (rule mset_eq_setD)
  have d: "distinct ?R"
    using Token_Aware.prems(2) mset_eq_imp_distinct_iff [OF IH] by simp
  have "lb_distance txt hs pol h = LOCAL \<Longrightarrow> lb_distance txt hs (base_policy pol) h = LOCAL" for h
    by (rule base_distance)
  then have sub: "set (filter (\<lambda>h. is_up (hs h) \<and> lb_distance txt hs pol h = LOCAL) ?rs) \<subseteq> set ?R"
    using Token_Aware.prems(4) R by auto
  have inj: "inj_on (\<lambda>h. host_part (address (hs h))) (set ?rs \<union> set ?R)"
    using Token_Aware.prems(3) R by simp
  have up: "\<forall>h \<in> set ?R. is_up (hs h) \<and> lb_distance txt hs pol h = LOCAL \<longleftrightarrow> lb_distance txt hs pol h = LOCAL"
    using Token_Aware.prems(5) R by simp
  have "mset (filter (\<lambda>h. is_up (hs h) \<and> lb_distance txt hs pol h = LOCAL) ?rs) +
      mset (filter (\<lambda>h. \<not> contains_address hs ?rs (address (hs h)) \<or> lb_distance txt hs pol h \<noteq> LOCAL) ?R) = mset ?R"
    by (rule token_part [OF assms(1) d inj assms(2) sub up])
  moreover have "ring_slice ?rs i (length ?rs) = rotate (unat i) ?rs"
    by (rule ring_slice_rotate) (use Token_Aware.prems(1) in simp)
  ultimately show ?case
    unfolding fresh_rest_simps Let_def base_policy.simps IH [symmetric]
    by (simp add: mset_rotate_any)
next
  case (Latency_Aware pol s ys m)
  have "mset (fresh_rest txt hs now cks r tm (Latency_Aware pol s ys m)) =
      mset (fresh_rest txt hs now cks r tm pol)"
    unfolding fresh_rest_simps mset_append mset_filter by (rule multiset_partition [symmetric])
  moreover have "mset (fresh_rest txt hs now cks r tm pol) =
      mset (fresh_rest txt hs now cks r tm (base_policy pol))"
    by (rule Latency_Aware.IH) (use Latency_Aware.prems in simp_all)
  ultimately show ?case by (simp only: base_policy.simps)
next
  case (Whitelist pol w)
  show ?case
    unfolding fresh_rest_simps base_policy.simps
    by (rule Whitelist.IH) (use Whitelist.prems in simp_all)
qed (simp_all only: base_policy.simps)

definition demo_cluster :: host_store where
  "demo_cluster n = (new_host (Inet (of_nat n) 9042) False)\<lparr>rack := ''r1'',
     dc := (if n < 3 then ''dc1'' else ''dc2''), hstate := (if n = 1 then DOWN else UP)\<rparr>"

definition demo_tokens :: token_map where
  "demo_tokens = \<lparr>tm_tokens = [([3], 0), ([7], 2)],
     tm_replicas = [(''ks'', [([3], [0, 2]), ([7], [2, 0])])],
     tm_strategies = [], tm_addresses = [], tm_partitioner = Some ByteOrderedPartitioner\<rparr>"

definition demo_request :: lb_request where
  "demo_request = \<lparr>lr_opcode = 0x07, lr_consistency = CL_ONE, lr_keyspace = ''ks'', lr_routing_key = Some [5]\<rparr>"

definition demo_settings :: latency_settings where
  "demo_settings = \<lparr>exclusion_limit = id, ls_scale_ns = 1, retry_period_ns = 1, min_measured = 50\<rparr>"

definition demo_chain :: lb_policy where
  "demo_chain = Latency_Aware (Token_Aware (Round_Robin [0, 1, 2] 1) 0) demo_settings [0, 1, 2] (- 1)"

lemma demo_replicas: "plan_replicas [] (Some demo_request) demo_tokens = [2, 0]"
  by code_simp

lemma proper_demo_cluster: "proper_hosts demo_cluster"
  by (simp add: proper_hosts_def demo_cluster_def new_host_def proper_address_def)



section \<open>Data centers\<close>

lemma remote_rest_bound:
  assumes "distinct dcs"
    and "\<forall>r \<in> set dcs. \<forall>h \<in> set (get_hosts (per_remote_dc_live_hosts d) r). dc (hs h) = r"
  shows "length (filter (\<lambda>h. dc (hs h) = c) (remote_rest hs d idx dcs)) \<le> used_hosts_per_remote_dc d \<and>
         (\<forall>h \<in> set (remote_rest hs d idx dcs). dc (hs h) \<in> set dcs)"
  using assms
proof (induction dcs arbitrary: idx)
  case (Cons r rs)
  let ?H = "get_hosts (per_remote_dc_live_hosts d) r"
  let ?n = "min (length ?H) (used_hosts_per_remote_dc d)"
  let ?first = "up_hosts hs (ring_slice ?H idx ?n)"
  have IH: "length (filter (\<lambda>h. dc (hs h) = c) (remote_rest hs d (idx + of_nat ?n) rs)) \<le> used_hosts_per_remote_dc d"
    "\<forall>h \<in> set (remote_rest hs d (idx + of_nat ?n) rs). dc (hs h) \<in> set rs"
    using Cons by auto
  have f: "\<forall>h \<in> set ?first. dc (hs h) = r"
    using Cons.prems(2) set_ring_slice [of ?n ?H idx] by auto
  have l: "length ?first \<le> used_hosts_per_remote_dc d"
    by (rule order_trans [OF length_filter_le]) simp
  show ?case
  proof (cases "r = c")
    case True
    then have "filter (\<lambda>h. dc (hs h) = c) (remote_rest hs d (idx + of_nat ?n) rs) = []"
      using IH(2) Cons.prems(1) by (auto simp: filter_empty_conv)
    moreover have "length (filter (\<lambda>h. dc (hs h) = c) ?first) \<le> used_hosts_per_remote_dc d"
      using l by (rule order_trans [OF length_filter_le])
    ultimately show ?thesis using IH(2) f by (auto simp: Let_def)
  next
    case False
    then have "filter (\<lambda>h. dc (hs h) = c) ?first = []" using f by (auto simp: filter_empty_conv)
    then show ?thesis using IH f by (auto simp: Let_def)
  qed
qed simp

lemma drain_dc:
  "drain (\<lambda>now. plan_next txt hs now (DC_Aware d)) es p =
   take (length es) (plan_rest txt hs 0 (DC_Aware d) p)"
proof -
  have "(\<lambda>now. plan_next txt hs now (DC_Aware d)) = (\<lambda>_. plan_next txt hs 0 (DC_Aware d))"
    by (simp add: fun_eq_iff)
  then show ?thesis by (simp only: plan_order.drain_rest)
qed

text \<open>The remote lists of the policy hold hosts of their data center.\<close>

definition remote_hosts_ok :: "host_store \<Rightarrow> dc_policy \<Rightarrow> bool" where
  "remote_hosts_ok hs d \<longleftrightarrow> map_inv (per_remote_dc_live_hosts d) \<and>
     (\<forall>(r, hosts) \<in> set (per_remote_dc_live_hosts d). r \<noteq> local_dc d \<and> (\<forall>h \<in> set hosts. dc (hs h) = r))"

lemma get_hosts_in: "map_inv m \<Longrightarrow> (r, hosts) \<in> set m \<Longrightarrow> get_hosts m r = hosts"
  by (simp add: get_hosts_def map_get_def map_find_iff [symmetric])

lemma fresh_dc_rest:
  assumes "no_wrap (dc_index d) (local_dc_live_hosts d)"
  shows "dc_rest hs d' (new_dc_plan d cl (dc_index d)) =
     up_hosts hs (rotate (unat (dc_index d)) (local_dc_live_hosts d)) @
     (if skip_remote_dcs_for_local_cl d' \<and> is_dc_local cl then []
      else remote_rest hs d' (dc_index d + of_nat (length (local_dc_live_hosts d)))
             (map fst (per_remote_dc_live_hosts d')))"
  using assms by (simp add: dc_rest_def new_dc_plan_def ring_slice_rotate Let_def)

text \<open>
  A plan of the data center policy answers first all local hosts that are up, once around
  from its index; then, for other consistency levels than the local ones or where the policy
  does not care, at most the configured number of hosts of each remote data center.
\<close>

theorem dc_local_first:
  assumes "new_query_plan cks r tm (DC_Aware d) = (p, DC_Aware d')"
    and "no_wrap (dc_index d) (local_dc_live_hosts d)"
    and "remote_hosts_ok hs d"
    and "calls_left (DC_Aware d') p \<le> length es"
  shows "\<exists>remote. drain (\<lambda>now. plan_next txt hs now (DC_Aware d')) es p =
           up_hosts hs (rotate (unat (dc_index d)) (local_dc_live_hosts d)) @ remote \<and>
         (\<forall>c. length (filter (\<lambda>h. dc (hs h) = c) remote) \<le> used_hosts_per_remote_dc d) \<and>
         list_all (\<lambda>h. dc (hs h) \<noteq> local_dc d) remote \<and>
         (if skip_remote_dcs_for_local_cl d \<and> is_dc_local (case r of Some r \<Rightarrow> lr_consistency r | None \<Rightarrow> 0xA)
          then remote = [] else True)"
proof -
  define cl where "cl = (case r of Some r \<Rightarrow> lr_consistency r | None \<Rightarrow> 0xA)"
  have p: "p = DC_Aware_Plan (new_dc_plan d cl (dc_index d))" and d': "d' = d\<lparr>dc_index := dc_index d + 1\<rparr>"
    using assms(1) by (auto simp: cl_def Let_def)
  let ?i = "dc_index d + of_nat (length (local_dc_live_hosts d))"
  let ?dcs = "map fst (per_remote_dc_live_hosts d)"
  let ?remote = "if skip_remote_dcs_for_local_cl d \<and> is_dc_local cl then [] else remote_rest hs d' ?i ?dcs"
  have m: "map_inv (per_remote_dc_live_hosts d)" using assms(3) by (simp add: remote_hosts_ok_def)
  have ok: "\<forall>r \<in> set ?dcs. r \<noteq> local_dc d \<and> (\<forall>h \<in> set (get_hosts (per_remote_dc_live_hosts d') r). dc (hs h) = r)"
    using assms(3) get_hosts_in [OF m] by (fastforce simp: remote_hosts_ok_def d')
  have "length (dc_rest hs d' (new_dc_plan d cl (dc_index d))) \<le> length es"
    using length_dc_rest [of hs d' "new_dc_plan d cl (dc_index d)"] assms(4) p by simp
  then have "drain (\<lambda>now. plan_next txt hs now (DC_Aware d')) es p =
      up_hosts hs (rotate (unat (dc_index d)) (local_dc_live_hosts d)) @ ?remote"
    using fresh_dc_rest [OF assms(2), of hs d' cl] by (simp add: drain_dc p d')
  moreover have "length (filter (\<lambda>h. dc (hs h) = c) ?remote) \<le> used_hosts_per_remote_dc d" for c
    using remote_rest_bound [OF map_inv_distinct [OF m], of d' hs c ?i] ok by (simp add: d')
  moreover have "\<forall>h \<in> set ?remote. dc (hs h) \<noteq> local_dc d"
  proof
    fix h assume "h \<in> set ?remote"
    then have "dc (hs h) \<in> set ?dcs"
      using remote_rest_bound [OF map_inv_distinct [OF m], of d' hs undefined ?i] ok
      by (auto split: if_splits)
    then show "dc (hs h) \<noteq> local_dc d" using ok by blast
  qed
  ultimately show ?thesis by (intro exI [of _ ?remote]) (simp add: cl_def list_all_iff)
qed

definition demo_dc :: dc_policy where
  "demo_dc = \<lparr>local_dc = ''dc1'', used_hosts_per_remote_dc = 1, skip_remote_dcs_for_local_cl = True,
     local_dc_live_hosts = [0, 1, 2], per_remote_dc_live_hosts = [(''dc2'', [3, 4])], dc_index = 1\<rparr>"

theorem dc_local_first_witness:
  "\<exists>remote. drain (\<lambda>now. plan_next (\<lambda>a. []) demo_cluster now (DC_Aware (demo_dc\<lparr>dc_index := 2\<rparr>))) [0, 0, 0, 0, 0]
       (DC_Aware_Plan (new_dc_plan demo_dc CL_ONE 1)) =
     up_hosts demo_cluster (rotate (unat (dc_index demo_dc)) (local_dc_live_hosts demo_dc)) @ remote \<and>
     (\<forall>c. length (filter (\<lambda>h. dc (demo_cluster h) = c) remote) \<le> used_hosts_per_remote_dc demo_dc) \<and>
     list_all (\<lambda>h. dc (demo_cluster h) \<noteq> local_dc demo_dc) remote \<and>
     (if skip_remote_dcs_for_local_cl demo_dc \<and>
         is_dc_local (case Some demo_request of Some r \<Rightarrow> lr_consistency r | None \<Rightarrow> 0xA)
      then remote = [] else True)"
proof (rule dc_local_first [where cks = "[]" and tm = demo_tokens])
  show "new_query_plan [] (Some demo_request) demo_tokens (DC_Aware demo_dc) =
      (DC_Aware_Plan (new_dc_plan demo_dc CL_ONE 1), DC_Aware (demo_dc\<lparr>dc_index := 2\<rparr>))"
    by (simp add: demo_dc_def demo_request_def)
  show "no_wrap (dc_index demo_dc) (local_dc_live_hosts demo_dc)" by (simp add: demo_dc_def)
  show "remote_hosts_ok demo_cluster demo_dc"
    by (simp add: remote_hosts_ok_def demo_dc_def map_inv_def demo_cluster_def new_host_def)
  show "calls_left (DC_Aware (demo_dc\<lparr>dc_index := 2\<rparr>)) (DC_Aware_Plan (new_dc_plan demo_dc CL_ONE 1)) \<le>
      length [0, 0, 0, 0, 0 :: u64]"
    by (simp add: demo_dc_def new_dc_plan_def get_hosts_def map_get_def map_find_def)
qed

text \<open>
  A plan goes around the hosts of a remote data center from its index, but only the first
  hosts of the list count as remote, the others are ignored and have no connections: where no
  local host is left, the first host of a plan can be an ignored one.
\<close>

theorem plan_starts_with_ignored:
  assumes "new_query_plan cks r tm (DC_Aware d) = (p, DC_Aware d')"
    and "local_dc_live_hosts d = []" and "per_remote_dc_live_hosts d = [(rdc, hosts)]"
    and "local_dc d \<noteq> []" and "rdc \<noteq> local_dc d"
    and "proper_hosts hs" and "distinct_hosts hs hosts"
    and "\<forall>h \<in> set hosts. is_up (hs h) \<and> dc (hs h) = rdc"
    and "\<not> (skip_remote_dcs_for_local_cl d \<and> is_dc_local (case r of Some r \<Rightarrow> lr_consistency r | None \<Rightarrow> 0xA))"
    and "0 < used_hosts_per_remote_dc d" and "hosts \<noteq> []"
    and "used_hosts_per_remote_dc d \<le> unat (dc_index d) mod length hosts"
  shows "\<exists>h p'. plan_next txt hs now (DC_Aware d') p = (Some h, p') \<and> dc_distance hs d' h = IGNORE"
proof -
  define k where "k = unat (dc_index d) mod length hosts"
  have k: "k < length hosts" "used_hosts_per_remote_dc d \<le> k" using assms(11,12) by (simp_all add: k_def)
  obtain u where u: "used_hosts_per_remote_dc d = Suc u" using assms(10) gr0_conv_Suc by auto
  have d': "d' = d\<lparr>dc_index := dc_index d + 1\<rparr>" using assms(1) by (auto simp: Let_def)
  have g: "get_hosts (per_remote_dc_live_hosts d) rdc = hosts"
    by (simp add: assms(3) get_hosts_def map_get_def map_find_def)
  have "plan_rest txt hs now (DC_Aware d') p =
      up_hosts hs (ring_slice hosts (dc_index d) (min (length hosts) (Suc u)))"
    using assms(1) assms(2,3,9) g
    by (auto simp: Let_def new_dc_plan_def dc_rest_def d' u)
  moreover obtain n where "min (length hosts) (Suc u) = Suc n" using assms(11) by (cases "length hosts") auto
  ultimately have h: "\<exists>rest. plan_rest txt hs now (DC_Aware d') p = hosts ! k # rest"
    using assms(8) k by (simp add: k_def)
  then obtain p' where n: "plan_next txt hs now (DC_Aware d') p = (Some (hosts ! k), p')"
    by (metis list.discI list.inject option.exhaust plan_order.step_None plan_order.step_Some prod.exhaust)
  have "\<not> same_address hs x (hosts ! k)" if x: "x \<in> set (take (used_hosts_per_remote_dc d) hosts)" for x
  proof -
    obtain j where j: "j < used_hosts_per_remote_dc d" "j < length hosts" "x = hosts ! j"
      using x by (auto simp: in_set_conv_nth)
    then have "j \<noteq> k" using k by simp
    then show ?thesis
      using assms(7) j k nth_eq_iff_index_eq [of "map (\<lambda>h. host_part (address (hs h))) hosts" j k]
      by (simp add: same_address_iff [OF assms(6)] distinct_hosts_def)
  qed
  then have "dc_distance hs d' (hosts ! k) = IGNORE"
    using assms(4,5,8) k g by (auto simp: dc_distance_def d')
  then show ?thesis using n by blast
qed

theorem plan_starts_with_ignored_witness:
  "\<exists>h p'. plan_next (\<lambda>a. []) demo_cluster 0 (DC_Aware (demo_dc\<lparr>local_dc_live_hosts := [], dc_index := 2\<rparr>))
      (DC_Aware_Plan (new_dc_plan (demo_dc\<lparr>local_dc_live_hosts := []\<rparr>) CL_ONE 1)) = (Some h, p') \<and>
    dc_distance demo_cluster (demo_dc\<lparr>local_dc_live_hosts := [], dc_index := 2\<rparr>) h = IGNORE"
proof (rule plan_starts_with_ignored [where cks = "[]" and tm = demo_tokens and r = "Some demo_request"
      and rdc = "''dc2''" and hosts = "[3, 4]" and d = "demo_dc\<lparr>local_dc_live_hosts := []\<rparr>"])
  show "distinct_hosts demo_cluster [3, 4]"
    by (simp add: distinct_hosts_def demo_cluster_def new_host_def host_part_def)
qed (simp_all add: demo_dc_def demo_request_def is_dc_local_def proper_demo_cluster is_up_def
      demo_cluster_def new_host_def del: new_dc_plan_def)

section \<open>The whitelist\<close>

text \<open>All hosts in the lists of the base policy, or of a plan, satisfy \<open>Q\<close>.\<close>

definition dc_listed :: "(host_ref \<Rightarrow> bool) \<Rightarrow> dc_policy \<Rightarrow> bool" where
  "dc_listed Q d \<longleftrightarrow> (\<forall>h \<in> set (local_dc_live_hosts d). Q h) \<and>
     (\<forall>(r, hosts) \<in> set (per_remote_dc_live_hosts d). \<forall>h \<in> set hosts. Q h)"

primrec restricted :: "(host_ref \<Rightarrow> bool) \<Rightarrow> string list \<Rightarrow> lb_policy \<Rightarrow> bool" where
  "restricted Q w (Round_Robin xs i) = False"
| "restricted Q w (DC_Aware d) = False"
| "restricted Q w (Token_Aware p i) = restricted Q w p"
| "restricted Q w (Latency_Aware p s xs m) = restricted Q w p"
| "restricted Q w (Whitelist p w') =
     (w' = w \<and> (case p of Round_Robin xs i \<Rightarrow> \<forall>h \<in> set xs. Q h | DC_Aware d \<Rightarrow> dc_listed Q d | _ \<Rightarrow> False))"

primrec plan_listed :: "(host_ref \<Rightarrow> bool) \<Rightarrow> query_plan \<Rightarrow> bool" where
  "plan_listed Q (Round_Robin_Plan hosts idx n) = ((\<forall>h \<in> set hosts. Q h) \<and> n \<le> length hosts)"
| "plan_listed Q (DC_Aware_Plan p) =
     ((\<forall>h \<in> set (dp_hosts p). Q h) \<and> local_remaining p \<le> length (dp_hosts p) \<and>
      remote_remaining p \<le> length (dp_hosts p))"
| "plan_listed Q (Token_Aware_Plan child replicas idx n) = plan_listed Q child"
| "plan_listed Q (Latency_Aware_Plan child skipped k) = (plan_listed Q child \<and> (\<forall>h \<in> set skipped. Q h))"
| "plan_listed Q (Child_Plan child) = plan_listed Q child"

lemma next_wanted_listed:
  "next_wanted P hosts idx n = (r, idx', n') \<Longrightarrow> n \<le> length hosts \<Longrightarrow>
   n' \<le> n \<and> (case r of Some h \<Rightarrow> P h \<and> h \<in> set hosts | None \<Rightarrow> n' = 0)"
proof (induction P hosts idx n rule: next_wanted.induct)
  case (2 P hosts idx n)
  have "hosts ! (unat idx mod length hosts) \<in> set hosts" using 2(3) by (cases "hosts = []") auto
  then show ?case using 2 by (auto simp: Let_def split: if_splits option.splits)
qed simp

lemma next_wanted_sat: "next_wanted P hosts idx n = (Some h, idx', n') \<Longrightarrow> P h"
  by (induction P hosts idx n rule: next_wanted.induct) (auto simp: Let_def split: if_splits)

lemma in_get_hosts: "x \<in> set (get_hosts m r) \<Longrightarrow> \<exists>hosts. (r, hosts) \<in> set m \<and> x \<in> set hosts"
  by (cases "map_of m r") (auto simp: get_hosts_def map_get_def map_find_def dest: map_of_SomeD)

lemma next_remote_listed:
  assumes "next_remote hs d hosts idx n dcs = (r, hosts', idx', n', dcs')"
    and "n \<le> length hosts" and "\<forall>h \<in> set hosts. Q h" and "dc_listed Q d"
  shows "n' \<le> length hosts' \<and> (\<forall>h \<in> set hosts'. Q h) \<and> (\<forall>h. r = Some h \<longrightarrow> Q h)"
  using assms
proof (induction hs d hosts idx n dcs rule: next_remote.induct)
  case (1 hs d hosts idx n)
  then show ?case by (auto split: prod.splits dest!: next_wanted_listed)
next
  case (2 hs d hosts idx n r' rs)
  show ?case
  proof (cases "next_wanted (\<lambda>h. is_up (hs h)) hosts idx n")
    case (fields x i k)
    show ?thesis
    proof (cases x)
      case (Some h)
      then show ?thesis using 2 fields by (auto dest!: next_wanted_listed)
    next
      case None
      let ?H = "get_hosts (per_remote_dc_live_hosts d) r'"
      have "\<forall>h \<in> set ?H. Q h"
        using 2(5) by (auto simp: dc_listed_def dest!: in_get_hosts)
      with 2(1) [OF fields [unfolded None, symmetric] refl refl refl] show ?thesis
        using 2(2,5) fields None by (simp add: Let_def)
    qed
  qed
qed

lemma dc_compute_next_listed:
  assumes "dc_compute_next hs d p = (r, p')" and "plan_listed Q (DC_Aware_Plan p)" and "dc_listed Q d"
  shows "plan_listed Q (DC_Aware_Plan p') \<and> (\<forall>h. r = Some h \<longrightarrow> Q h)"
proof (cases "next_wanted (\<lambda>h. is_up (hs h)) (dp_hosts p) (dp_index p) (local_remaining p)")
  case (fields x i k)
  note w = next_wanted_listed [OF fields]
  show ?thesis
  proof (cases x)
    case (Some h)
    then show ?thesis using assms fields w by (auto simp: dc_compute_next_def)
  next
    case None
    define dcs where "dcs = (case dp_remote_dcs p of Some dcs \<Rightarrow> dcs | None \<Rightarrow> map fst (per_remote_dc_live_hosts d))"
    obtain h hosts j n' dcs' where
      n: "next_remote hs d (dp_hosts p) i (remote_remaining p) dcs = (h, hosts, j, n', dcs')"
      by (metis prod_cases5)
    have "n' \<le> length hosts \<and> (\<forall>h \<in> set hosts. Q h) \<and> (\<forall>x. h = Some x \<longrightarrow> Q x)"
      using next_remote_listed [OF n, of Q] assms(2,3) by simp
    then show ?thesis
      using assms fields None w n
      by (auto simp: dc_compute_next_def Let_def dcs_def [symmetric] split: if_splits)
  qed
qed

lemma child_loop_all:
  assumes "\<And>p r p'. I p \<Longrightarrow> nxt p = (r, p') \<Longrightarrow> I p' \<and> (\<forall>h. r = Some h \<longrightarrow> Q h)"
  shows "I p \<Longrightarrow> \<forall>h \<in> set skipped. Q h \<Longrightarrow> child_loop n nxt P p skipped = (r, p', skipped') \<Longrightarrow>
         I p' \<and> (\<forall>h. r = Some h \<longrightarrow> Q h) \<and> (\<forall>h \<in> set skipped'. Q h)"
proof (induction n arbitrary: p skipped)
  case (Suc n)
  show ?case
  proof (cases "nxt p")
    case (Pair x q)
    then have q: "I q" "\<forall>h. x = Some h \<longrightarrow> Q h" using assms [OF Suc.prems(1)] by blast+
    show ?thesis
    proof (cases x)
      case None
      then show ?thesis using Suc.prems Pair q by simp
    next
      case (Some h)
      show ?thesis
      proof (cases "P h")
        case True
        then show ?thesis using Suc.prems Pair q Some by simp
      next
        case False
        show ?thesis
          by (rule Suc.IH [OF q(1), of "skipped @ [h]"]) (use Suc.prems Pair q(2) Some False in simp_all)
      qed
    qed
  qed
qed simp

lemma restricted_distance:
  "restricted Q w pol \<Longrightarrow> lb_distance txt hs pol h = LOCAL \<Longrightarrow> is_valid_host txt w hs h"
  by (induction pol) (auto split: if_splits)

lemma token_aware_listed:
  assumes "restricted Q w (Token_Aware pol i)" and "plan_listed Q p" and "plan_next txt hs now (Token_Aware pol i) p = (r, p')"
    and "\<forall>h. is_valid_host txt w hs h \<longrightarrow> Q h"
    and child: "\<And>p r p'. plan_listed Q p \<Longrightarrow> plan_next txt hs now pol p = (r, p') \<Longrightarrow>
          plan_listed Q p' \<and> (\<forall>h. r = Some h \<longrightarrow> Q h)"
  shows "plan_listed Q p' \<and> (\<forall>h. r = Some h \<longrightarrow> Q h)"
proof (cases p)
  case (Token_Aware_Plan c replicas idx n)
  let ?L = "\<lambda>h. is_up (hs h) \<and> lb_distance txt hs pol h = LOCAL"
  obtain x j k where f: "next_wanted ?L replicas idx n = (x, j, k)" by (metis prod_cases3)
  show ?thesis
  proof (cases x)
    case (Some h)
    have "?L h" by (rule next_wanted_sat [OF f [unfolded Some]])
    then have "Q h" using restricted_distance [of Q w pol "txt" hs h] assms(1,4) by simp
    then show ?thesis using assms(1-3) Token_Aware_Plan f Some by auto
  next
    case None
    obtain h c' sk where
      l: "child_loop (Suc (calls_left pol c)) (plan_next txt hs now pol)
            (\<lambda>h. \<not> contains_address hs replicas (address (hs h)) \<or> lb_distance txt hs pol h \<noteq> LOCAL)
            c [] = (h, c', sk)"
      by (metis prod_cases3)
    have "plan_listed Q c' \<and> (\<forall>x. h = Some x \<longrightarrow> Q x) \<and> (\<forall>x \<in> set sk. Q x)"
    proof (rule child_loop_all [OF _ _ _ l])
      show "plan_listed Q p' \<and> (\<forall>h. r = Some h \<longrightarrow> Q h)"
        if "plan_listed Q p" "plan_next txt hs now pol p = (r, p')" for p r p'
        using that by (rule child)
    qed (use assms(2) Token_Aware_Plan in simp_all)
    then show ?thesis
      using assms(1-3) Token_Aware_Plan f None l by (auto simp del: child_loop.simps)
  qed
next
  case (Child_Plan c)
  then show ?thesis using child assms(1-3) by (auto split: prod.splits)
qed (use assms(1-3) in auto)

lemma latency_aware_listed:
  assumes "restricted Q w (Latency_Aware pol s xs m)" and "plan_listed Q p" and "plan_next txt hs now (Latency_Aware pol s xs m) p = (r, p')"
    and "\<forall>h. is_valid_host txt w hs h \<longrightarrow> Q h"
    and child: "\<And>p r p'. plan_listed Q p \<Longrightarrow> plan_next txt hs now pol p = (r, p') \<Longrightarrow>
          plan_listed Q p' \<and> (\<forall>h. r = Some h \<longrightarrow> Q h)"
  shows "plan_listed Q p' \<and> (\<forall>h. r = Some h \<longrightarrow> Q h)"
proof (cases p)
  case (Latency_Aware_Plan c skipped k)
  obtain h c' sk where
    l: "child_loop (Suc (calls_left pol c)) (plan_next txt hs now pol) (fast_enough s m now hs)
          c skipped = (h, c', sk)"
    by (metis prod_cases3)
  have "plan_listed Q c' \<and> (\<forall>x. h = Some x \<longrightarrow> Q x) \<and> (\<forall>x \<in> set sk. Q x)"
  proof (rule child_loop_all [OF _ _ _ l])
    show "plan_listed Q p' \<and> (\<forall>h. r = Some h \<longrightarrow> Q h)"
      if "plan_listed Q p" "plan_next txt hs now pol p = (r, p')" for p r p'
      using that by (rule child)
  qed (use assms(2) Latency_Aware_Plan in simp_all)
  then show ?thesis
    using assms(1-3) Latency_Aware_Plan l
    by (auto simp del: child_loop.simps split: if_splits)
qed (use assms(1-3) in auto)

lemma whitelist_listed:
  assumes "restricted Q w (Whitelist pol w')" and "plan_listed Q p" and "plan_next txt hs now (Whitelist pol w') p = (r, p')"
    and "\<forall>h. is_valid_host txt w hs h \<longrightarrow> Q h"
  shows "plan_listed Q p' \<and> (\<forall>h. r = Some h \<longrightarrow> Q h)"
proof (cases pol)
  case (Round_Robin xs i)
  show ?thesis
  proof (cases p)
    case (Round_Robin_Plan hosts idx n)
    obtain x j k where f: "next_wanted (\<lambda>h. is_up (hs h)) hosts idx n = (x, j, k)"
      by (metis prod_cases3)
    then have "r = x" "p' = Round_Robin_Plan hosts j k"
      using assms(3) Round_Robin Round_Robin_Plan by auto
    then show ?thesis
      using next_wanted_listed [OF f] assms(2) Round_Robin_Plan by auto
  qed (use assms(1-3) Round_Robin in auto)
next
  case (DC_Aware d)
  then have q: "dc_listed Q d" using assms(1) by simp
  show ?thesis
  proof (cases p)
    case (DC_Aware_Plan dp)
    obtain x dp' where n: "dc_compute_next hs d dp = (x, dp')" by fastforce
    then have e: "r = x" "p' = DC_Aware_Plan dp'"
      using assms(3) DC_Aware DC_Aware_Plan by auto
    have "plan_listed Q (DC_Aware_Plan dp)" using assms(2) DC_Aware_Plan by (simp only:)
    then show ?thesis unfolding e by (rule dc_compute_next_listed [OF n _ q])
  qed (use assms(1-3) DC_Aware in auto)
qed (use assms(1-3) in auto)

lemma compute_next_listed:
  assumes "restricted Q w pol" and "plan_listed Q p" and "plan_next txt hs now pol p = (r, p')"
    and "\<forall>h. is_valid_host txt w hs h \<longrightarrow> Q h"
  shows "plan_listed Q p' \<and> (\<forall>h. r = Some h \<longrightarrow> Q h)"
  using assms(1-3)
proof (induction pol arbitrary: p r p')
  case (Token_Aware pol i)
  show ?case
    by (rule token_aware_listed [OF Token_Aware.prems assms(4)])
      (rule Token_Aware.IH; use Token_Aware.prems(1) in simp)
next
  case (Latency_Aware pol s xs m)
  show ?case
    by (rule latency_aware_listed [OF Latency_Aware.prems assms(4)])
      (rule Latency_Aware.IH; use Latency_Aware.prems(1) in simp)
next
  case (Whitelist pol w')
  show ?case by (rule whitelist_listed [OF Whitelist.prems assms(4)])
qed auto

text \<open>
  Everything that can happen to a policy and to one of its plans after the policy was
  initialised, in any order: the events of the session, the periodic task, changes of the
  hosts other than of their addresses, new plans and calls of the plan.
\<close>

inductive lb_reachable ::
  "(address \<Rightarrow> string) \<Rightarrow> lb_policy \<Rightarrow> lb_policy \<times> host_store \<times> query_plan option \<Rightarrow> bool"
  for tx :: "address \<Rightarrow> string" and start :: lb_policy where
  Init: "lb_init tx c start hosts hs = Some (pol, hs') \<Longrightarrow> lb_reachable tx start (pol, hs', None)"
| Hosts: "lb_reachable tx start (pol, hs, p) \<Longrightarrow> \<forall>h. address (hs' h) = address (hs h) \<Longrightarrow>
    lb_reachable tx start (pol, hs', p)"
| Add: "lb_reachable tx start (pol, hs, p) \<Longrightarrow> lb_on_add tx h pol hs = (pol', hs') \<Longrightarrow>
    lb_reachable tx start (pol', hs', p)"
| Up: "lb_reachable tx start (pol, hs, p) \<Longrightarrow> lb_reachable tx start (lb_on_up tx h pol hs, hs, p)"
| Remove: "lb_reachable tx start (pol, hs, p) \<Longrightarrow> lb_reachable tx start (lb_on_remove tx h pol hs, hs, p)"
| Work: "lb_reachable tx start (pol, hs, p) \<Longrightarrow> lb_reachable tx start (lb_on_work now hs pol, hs, p)"
| Plan: "lb_reachable tx start (pol, hs, p) \<Longrightarrow> new_query_plan cks r tm pol = (plan', pol') \<Longrightarrow>
    lb_reachable tx start (pol', hs, Some plan')"
| Next: "lb_reachable tx start (pol, hs, Some plan) \<Longrightarrow> plan_next tx hs now pol plan = (r', plan') \<Longrightarrow>
    lb_reachable tx start (pol, hs, Some plan')"

lemma set_add_host_subset: "set (add_host hs h xs) \<subseteq> insert h (set xs)"
  by (induction xs) auto

lemma set_remove_host_subset: "set (remove_host hs h xs) \<subseteq> set xs"
  by (induction xs) auto

lemma set_map_assign: "set (map_assign k v m) \<subseteq> insert (k, v) (set m)"
  by (induction k v m rule: map_assign.induct) auto

lemma map_find_in: "map_find m k = Some v \<Longrightarrow> (k, v) \<in> set m"
  by (simp add: map_find_def map_of_SomeD)

lemma dc_listed_on_add: "dc_listed Q d \<Longrightarrow> Q h \<Longrightarrow> dc_listed Q (dc_on_add hs h d)"
  unfolding dc_listed_def dc_on_add_def add_host_to_dc_def map_insert_new_def Let_def
  by (fastforce dest!: subsetD [OF set_map_assign] subsetD [OF set_add_host_subset] map_find_in
      split: option.splits if_splits)

lemma dc_listed_on_remove: "dc_listed Q d \<Longrightarrow> dc_listed Q (dc_on_remove hs h d)"
  unfolding dc_listed_def dc_on_remove_def remove_host_from_dc_def
  by (fastforce dest!: subsetD [OF set_map_assign] subsetD [OF set_remove_host_subset] map_find_in
      split: option.splits if_splits)

lemma dc_listed_init:
  "dc_listed Q d \<Longrightarrow> \<forall>(a, h) \<in> set hosts. Q h \<Longrightarrow> dc_listed Q (dc_init hs c hosts d)"
proof -
  assume "dc_listed Q d" and q: "\<forall>(a, h) \<in> set hosts. Q h"
  then have "dc_listed Q (d\<lparr>local_dc := x\<rparr>)" for x by (simp add: dc_listed_def)
  moreover have "dc_listed Q d' \<Longrightarrow> dc_listed Q (foldl (\<lambda>d (addr, h). dc_on_add hs h d) d' hosts)" for d'
    using q by (induction hosts arbitrary: d') (auto intro: dc_listed_on_add)
  ultimately show ?thesis
    using \<open>dc_listed Q d\<close> by (auto simp: dc_init_def Let_def split: option.splits)
qed

text \<open>The store changes nothing but the latency trackers.\<close>

lemma address_track: "address (track s h hs x) = address (hs x)"
  by (auto simp: track_def enable_latency_tracking_def split: option.split)

lemma address_on_add: "lb_on_add txt h pol hs = (pol', hs') \<Longrightarrow> address (hs' x) = address (hs x)"
  by (induction pol arbitrary: hs pol') (auto simp: Let_def address_track split: prod.splits if_splits)

lemma address_init: "lb_init txt c pol hosts hs = Some (pol', hs') \<Longrightarrow> address (hs' x) = address (hs x)"
proof (induction pol arbitrary: hosts hs pol')
  case (Latency_Aware pol s xs m)
  have "address (foldl (\<lambda>hs (addr, h). track s h hs) g hosts x) = address (g x)" for g
    by (induction hosts arbitrary: g) (auto simp: address_track)
  moreover obtain p' where
    "lb_init txt c pol hosts (foldl (\<lambda>hs (addr, h). track s h hs) hs hosts) = Some (p', hs')"
    using Latency_Aware.prems by auto
  ultimately show ?case using Latency_Aware.IH by metis
qed (auto simp: Let_def split: if_splits)

text \<open>What stays true of a chain with a whitelist, for the addresses \<open>A\<close> of the hosts.\<close>

abbreviation listed_host :: "(address \<Rightarrow> string) \<Rightarrow> string list \<Rightarrow> (host_ref \<Rightarrow> address) \<Rightarrow> host_ref \<Rightarrow> bool" where
  "listed_host txt w A h \<equiv> txt (A h) \<in> set w"

lemma restricted_events:
  assumes "restricted (listed_host txt w A) w pol" and "\<forall>h. address (hs h) = A h"
  shows "restricted (listed_host txt w A) w (fst (lb_on_add txt h pol hs))"
    and "restricted (listed_host txt w A) w (lb_on_up txt h pol hs)"
    and "restricted (listed_host txt w A) w (lb_on_remove txt h pol hs)"
    and "restricted (listed_host txt w A) w (lb_on_work now hs pol)"
    and "restricted (listed_host txt w A) w (snd (new_query_plan cks r tm pol))"
proof -
  have base: "case q of Round_Robin xs i \<Rightarrow> \<forall>h \<in> set xs. listed_host txt w A h
      | DC_Aware d \<Rightarrow> dc_listed (listed_host txt w A) d | _ \<Rightarrow> False"
    if "restricted (listed_host txt w A) w (Whitelist q w)" for q
    using that by simp
  show "restricted (listed_host txt w A) w (fst (lb_on_add txt h pol hs))"
    using assms
  proof (induction pol arbitrary: hs)
    case (Whitelist q w')
    then show ?case
      by (cases q) (auto simp: is_valid_host_def Let_def dc_listed_on_add dest!: subsetD [OF set_add_host_subset])
  qed (auto simp: Let_def address_track case_prod_unfold)
  show "restricted (listed_host txt w A) w (lb_on_up txt h pol hs)"
    using assms
  proof (induction pol)
    case (Whitelist q w')
    then show ?case
      by (cases q) (auto simp: is_valid_host_def dc_listed_on_add dest!: subsetD [OF set_add_host_subset])
  qed auto
  show "restricted (listed_host txt w A) w (lb_on_remove txt h pol hs)"
    using assms
  proof (induction pol)
    case (Whitelist q w')
    then show ?case
      by (cases q) (auto simp: dc_listed_on_remove dest!: subsetD [OF set_remove_host_subset])
  qed auto
  show "restricted (listed_host txt w A) w (lb_on_work now hs pol)"
    using assms by (induction pol) (auto simp: Let_def)
  show "restricted (listed_host txt w A) w (snd (new_query_plan cks r tm pol))"
    using assms
  proof (induction pol)
    case (Whitelist q w')
    then show ?case by (cases q) (auto simp: Let_def dc_listed_def)
  qed (auto simp: Let_def split: prod.splits)
qed

lemma plan_listed_new: "restricted Q w pol \<Longrightarrow> plan_listed Q (fst (new_query_plan cks r tm pol))"
proof (induction pol)
  case (Whitelist q w')
  then show ?case by (cases q) (auto simp: Let_def new_dc_plan_def dc_listed_def)
qed (auto simp: Let_def split: prod.splits)

lemma restricted_init:
  assumes "lb_init txt c pol hosts hs = Some (pol', hs')"
    and "restricted (listed_host txt w A) w pol" and "\<forall>h. address (hs h) = A h"
  shows "restricted (listed_host txt w A) w pol'"
  using assms
proof (induction pol arbitrary: hs hosts pol')
  case (Latency_Aware pol s xs m)
  have "address (foldl (\<lambda>hs (addr, h). track s h hs) g hosts x) = address (g x)" for g x
    by (induction hosts arbitrary: g) (auto simp: address_track)
  then show ?case using Latency_Aware by fastforce
next
  case (Whitelist q w')
  then show ?case
    by (cases q)
      (auto simp: Let_def is_valid_host_def copy_hosts_def split: if_splits intro!: dc_listed_init)
qed (auto simp: Let_def)

lemma base_policyE:
  obtains xs i where "base_policy p = Round_Robin xs i" | d where "base_policy p = DC_Aware d"
  by (induction p) auto

lemma restricted_config:
  assumes "w \<noteq> []" and "base_policy base = base"
  shows "restricted Q w (config_policy base w ta la)"
proof -
  have "restricted Q w (Whitelist (new_instance base) w)"
    using assms(2) by (cases base rule: base_policyE) (auto simp: new_round_robin_def new_dc_aware_def dc_listed_def)
  then show ?thesis using assms(1) by (simp add: config_policy_def Let_def split: option.split)
qed

definition addresses :: "host_store \<Rightarrow> host_ref \<Rightarrow> address" where
  "addresses hs h = address (hs h)"

lemma addresses_eq: "\<forall>h. address (hs h) = addresses hs h"
  by (simp add: addresses_def)

lemma reachable_listed:
  assumes "lb_reachable tx start (pol, hs, p)" and "\<And>Q. restricted Q w start"
  shows "restricted (listed_host tx w (addresses hs)) w pol \<and>
         (\<forall>plan. p = Some plan \<longrightarrow> plan_listed (listed_host tx w (addresses hs)) plan)"
  using assms(1)
proof (induction "(pol, hs, p)" arbitrary: pol hs p rule: lb_reachable.induct)
  case (Init c hosts hs pol hs')
  have "addresses hs' = addresses hs"
    using address_init [OF Init] by (simp add: addresses_def fun_eq_iff)
  then show ?case using restricted_init [OF Init assms(2)] by (simp add: addresses_def)
next
  case (Hosts pol hs p hs')
  then have "addresses hs' = addresses hs" by (simp add: addresses_def fun_eq_iff)
  then show ?case using Hosts by simp
next
  case (Add pol hs p h pol' hs')
  have e: "addresses hs' = addresses hs"
    using address_on_add [OF Add(3)] by (simp add: addresses_def fun_eq_iff)
  have "restricted (listed_host tx w (addresses hs)) w pol'"
    using restricted_events(1) [OF conjunct1 [OF Add(2)] addresses_eq, of h] Add(3) by simp
  then show ?case using Add(2) unfolding e by simp
next
  case (Up pol hs p h)
  then show ?case using restricted_events(2) [OF _ addresses_eq] by simp
next
  case (Remove pol hs p h)
  then show ?case using restricted_events(3) [OF _ addresses_eq] by simp
next
  case (Work pol hs p now)
  then show ?case using restricted_events(4) [OF _ addresses_eq] by simp
next
  case (Plan pol hs p cks r tm plan' pol')
  from conjunct1 [OF Plan(2)] have r: "restricted (listed_host tx w (addresses hs)) w pol" .
  show ?case
    using restricted_events(5) [OF r addresses_eq, of cks "r" tm]
      plan_listed_new [OF r, of cks "r" tm] Plan(3) by simp
next
  case (Next pol hs plan now r' plan')
  have "\<forall>h. is_valid_host tx w hs h \<longrightarrow> listed_host tx w (addresses hs) h"
    by (simp add: is_valid_host_def addresses_def)
  from compute_next_listed [OF _ _ Next(3) this] Next(2)
  have "plan_listed (listed_host tx w (addresses hs)) plan'" by blast
  then show ?case using Next(2) by blast
qed

text \<open>
  C28: With a whitelist no plan ever answers a host whose address is not on it, whatever hosts
  come and go, whatever the token map says and whichever other policies are configured.
\<close>

theorem whitelist_respected:
  assumes "lb_reachable tx (config_policy base w ta la) (pol, hs, Some plan)"
    and "w \<noteq> []" and "base_policy base = base"
    and "plan_next tx hs now pol plan = (Some h, plan')"
  shows "tx (address (hs h)) \<in> set w"
proof -
  from reachable_listed [OF assms(1), of w, OF restricted_config [OF assms(2,3)]]
  have "restricted (listed_host tx w (addresses hs)) w pol" "plan_listed (listed_host tx w (addresses hs)) plan"
    by simp_all
  from compute_next_listed [OF this assms(4)] show ?thesis by (simp add: is_valid_host_def addresses_def)
qed

definition last_octet :: "address \<Rightarrow> string" where
  "last_octet a = (case a of Inet n p \<Rightarrow> [char_of (unat n)] | _ \<Rightarrow> [])"

definition demo_white :: "lb_policy \<Rightarrow> lb_policy" where
  "demo_white q = Token_Aware (Whitelist q [[char_of (2 :: nat)], [char_of (3 :: nat)]]) 0"

theorem whitelist_respected_witness:
  "last_octet (address (demo_cluster 2)) \<in> set [[char_of (2 :: nat)], [char_of (3 :: nat)]]"
proof (rule whitelist_respected [where base = new_round_robin and ta = True and la = None])
  let ?w = "[[char_of (2 :: nat)], [char_of (3 :: nat)]] :: string list"
  let ?hosts = "[(address (demo_cluster 0), 0), (address (demo_cluster 2), 2)]"
  have "lb_init last_octet None (config_policy new_round_robin ?w True None) ?hosts demo_cluster =
      Some (demo_white (Round_Robin [2] 0), demo_cluster)"
    by (simp add: config_policy_def new_round_robin_def demo_white_def is_valid_host_def
        last_octet_def demo_cluster_def new_host_def copy_hosts_def)
  then have "lb_reachable last_octet (config_policy new_round_robin ?w True None)
      (demo_white (Round_Robin [2] 0), demo_cluster, None)" by (rule Init)
  then show "lb_reachable last_octet (config_policy new_round_robin ?w True None)
      (demo_white (Round_Robin [2] 1), demo_cluster, Some (Child_Plan (Round_Robin_Plan [2] 0 1)))"
    by (rule Plan [where cks = "[]" and r = None and tm = demo_tokens])
      (simp add: demo_white_def plan_replicas_def)
  show "?w \<noteq> []" by simp
  show "base_policy new_round_robin = new_round_robin" by (simp add: new_round_robin_def)
  show "plan_next last_octet demo_cluster 0 (demo_white (Round_Robin [2] 1))
      (Child_Plan (Round_Robin_Plan [2] 0 1)) = (Some 2, Child_Plan (Round_Robin_Plan [2] 1 0))"
    by (simp add: demo_white_def is_up_def demo_cluster_def new_host_def)
qed

end
