(* ===== verification/Session.thy ===== *)
theory Session
  imports Load_Balancing Error_Response
begin

text \<open>
  \<open>session.cpp\<close>: the life cycle of a session, its hosts, what their changes mean for the load
  balancing policy and the pools of the I/O workers, and the distribution of requests to the
  workers. The state holds what the session thread, the control connection and the workers
  still owe the session (queued events, the report of the control connection, workers that
  are closing), so that the calls of the application and the events can come in any order the
  code admits. \<open>None\<close> is the use of a null pointer.
\<close>

section \<open>The map of the hosts\<close>

text \<open>\<open>std::map<Address, SharedRefPtr<Host> >\<close>, ordered by \<open>operator<\<close> of the addresses.\<close>

fun hosts_assign :: "address \<Rightarrow> host_ref \<Rightarrow> host_map \<Rightarrow> host_map" where
  "hosts_assign a h [] = [(a, h)]"
| "hosts_assign a h ((b, g) # m) =
     (if less_address a b then (a, h) # (b, g) # m
      else if less_address b a then (b, g) # hosts_assign a h m
      else (b, h) # m)"

fun hosts_find :: "host_map \<Rightarrow> address \<Rightarrow> host_ref option" where
  "hosts_find [] a = None"
| "hosts_find ((b, g) # m) a =
     (if less_address b a then hosts_find m a else if less_address a b then None else Some g)"

definition hosts_erase :: "address \<Rightarrow> host_map \<Rightarrow> host_map" where
  "hosts_erase a m = filter (\<lambda>(b, g). less_address a b \<or> less_address b a) m"

section \<open>State\<close>

datatype session_state = S_CONNECTING | S_CONNECTED | S_CLOSING | S_CLOSED

datatype future_outcome = Future_set | Future_error u32

type_synonym future_id = nat
type_synonym worker_id = nat

datatype session_effect =
    Add_pool worker_id address bool
  | Remove_pool worker_id address bool
  | Close_worker worker_id
  | Close_control_connection
  | Use_keyspace worker_id string
  | Execute_on worker_id nat
  | Request_error nat u32

text \<open>What the control connection still has to report of the attempt to connect.\<close>

datatype control_state = Control_idle | Control_connecting | Control_reported

record session =
  ss_state :: session_state
  ss_policy :: lb_policy
  ss_connect_future :: "future_id option"
  ss_close_future :: "future_id option"
  ss_hosts :: host_map
  ss_store :: host_store
  ss_next_host :: host_ref
  ss_workers :: nat
  ss_mark :: bool
  ss_pending_resolve :: int
  ss_pending_pool :: int
  ss_pending_workers :: int
  ss_current_io_worker :: nat
  ss_outcomes :: "(future_id \<times> future_outcome) list"
  ss_effects :: "session_effect list"
  ss_connect_event :: bool
  ss_null_requests :: nat
  ss_control :: control_state
  ss_workers_closing :: nat
  ss_handles_closed :: bool

abbreviation "LIB_UNABLE_TO_CONNECT \<equiv> CASS_ERROR 1 22"
abbreviation "LIB_UNABLE_TO_CLOSE \<equiv> CASS_ERROR 1 23"
abbreviation "LIB_UNABLE_TO_INIT \<equiv> CASS_ERROR 1 3"
abbreviation "LIB_NO_HOSTS \<equiv> CASS_ERROR 1 10"
abbreviation "LIB_REQUEST_QUEUE_FULL \<equiv> CASS_ERROR 1 7"

definition outcome :: "future_id \<Rightarrow> future_outcome \<Rightarrow> session \<Rightarrow> session" where
  "outcome f r s = s\<lparr>ss_outcomes := ss_outcomes s @ [(f, r)]\<rparr>"

definition all_workers :: "(worker_id \<Rightarrow> session_effect) \<Rightarrow> session \<Rightarrow> session" where
  "all_workers e s = s\<lparr>ss_effects := ss_effects s @ map e [0..<ss_workers s]\<rparr>"

text \<open>The configuration: the chained policy and the number of I/O threads.\<close>

definition session_new :: session where
  "session_new = \<lparr>ss_state = S_CLOSED, ss_policy = new_round_robin, ss_connect_future = None, ss_close_future = None,
     ss_hosts = [], ss_store = (\<lambda>_. new_host Unset False), ss_next_host = 0, ss_workers = 0,
     ss_mark = True, ss_pending_resolve = 0, ss_pending_pool = 0, ss_pending_workers = 0,
     ss_current_io_worker = 0, ss_outcomes = [], ss_effects = [], ss_connect_event = False,
     ss_null_requests = 0, ss_control = Control_idle, ss_workers_closing = 0, ss_handles_closed = False\<rparr>"

definition session_clear :: "lb_policy \<Rightarrow> session \<Rightarrow> session" where
  "session_clear policy s =
     s\<lparr>ss_policy := policy, ss_connect_future := None, ss_close_future := None, ss_hosts := [],
       ss_workers := 0, ss_control := Control_idle, ss_mark := True, ss_pending_resolve := 0,
       ss_pending_pool := 0, ss_pending_workers := 0, ss_current_io_worker := 0,
       ss_null_requests := 0\<rparr>"

text \<open>\<open>Session::init\<close>: \<open>ok\<close> says whether libuv could initialise the loops and queues.\<close>

definition session_init :: "nat \<Rightarrow> bool \<Rightarrow> session \<Rightarrow> bool \<times> session" where
  "session_init threads ok s = (if ok then (True, s\<lparr>ss_workers := threads\<rparr>) else (False, s))"

section \<open>Connecting and closing\<close>

definition broadcast_keyspace_change :: "string \<Rightarrow> worker_id option \<Rightarrow> session \<Rightarrow> session" where
  "broadcast_keyspace_change ks calling s =
     s\<lparr>ss_effects := ss_effects s @
        map (\<lambda>w. Use_keyspace w ks) (filter (\<lambda>w. Some w \<noteq> calling) [0..<ss_workers s])\<rparr>"

definition connect_async ::
  "lb_policy \<Rightarrow> nat \<Rightarrow> string \<Rightarrow> future_id \<Rightarrow> bool \<Rightarrow> bool \<Rightarrow> session \<Rightarrow> session" where
  "connect_async policy threads ks f init_ok send_ok s =
     (if ss_state s \<noteq> S_CLOSED then outcome f (Future_error LIB_UNABLE_TO_CONNECT) s
      else
        (let (ok, s) = session_init threads init_ok (session_clear policy s)
         in if \<not> ok then outcome f (Future_error LIB_UNABLE_TO_INIT) s
            else if \<not> send_ok then outcome f (Future_error LIB_UNABLE_TO_CONNECT) s
            else
              (let s = s\<lparr>ss_connect_event := True, ss_state := S_CONNECTING, ss_connect_future := Some f,
                         ss_handles_closed := False\<rparr>
               in if ks \<noteq> [] then broadcast_keyspace_change ks None s else s)))"

text \<open>\<open>internal_close\<close> queues the null request that tells the session thread to close.\<close>

definition session_internal_close :: "session \<Rightarrow> session" where
  "session_internal_close s = s\<lparr>ss_null_requests := ss_null_requests s + 1\<rparr>"

definition close_async :: "future_id \<Rightarrow> bool \<Rightarrow> session \<Rightarrow> session" where
  "close_async f force s =
     (let wait_for_connect_to_finish = (force \<and> ss_state s = S_CONNECTING)
      in if ss_state s \<noteq> S_CONNECTED \<and> \<not> wait_for_connect_to_finish
         then outcome f (Future_error LIB_UNABLE_TO_CLOSE) s
         else
           (let s = s\<lparr>ss_state := S_CLOSING, ss_close_future := Some f\<rparr>
            in if wait_for_connect_to_finish then s else session_internal_close s))"

definition notify_connected :: "session \<Rightarrow> session option" where
  "notify_connected s =
     (let s = (if ss_state s = S_CONNECTING then s\<lparr>ss_state := S_CONNECTED\<rparr> else session_internal_close s)
      in case ss_connect_future s of
           None \<Rightarrow> None
         | Some f \<Rightarrow> Some ((outcome f Future_set s)\<lparr>ss_connect_future := None\<rparr>))"

definition notify_connect_error :: "u32 \<Rightarrow> session \<Rightarrow> session option" where
  "notify_connect_error code s =
     (let s = session_internal_close (s\<lparr>ss_state := S_CLOSING\<rparr>)
      in case ss_connect_future s of
           None \<Rightarrow> None
         | Some f \<Rightarrow> Some ((outcome f (Future_error code) s)\<lparr>ss_connect_future := None\<rparr>))"

definition notify_closed :: "session \<Rightarrow> session" where
  "notify_closed s =
     (let s = s\<lparr>ss_state := S_CLOSED\<rparr>
      in case ss_close_future s of
           None \<Rightarrow> s
         | Some f \<Rightarrow> (outcome f Future_set s)\<lparr>ss_close_future := None\<rparr>)"

section \<open>Hosts\<close>

definition session_get_host :: "address \<Rightarrow> session \<Rightarrow> host_ref option" where
  "session_get_host a s = hosts_find (ss_hosts s) a"

definition session_add_host :: "address \<Rightarrow> session \<Rightarrow> session" where
  "session_add_host a s =
     (let h = ss_next_host s
      in s\<lparr>ss_store := (ss_store s)(h := new_host a (\<not> ss_mark s)), ss_next_host := h + 1,
           ss_hosts := hosts_assign a h (ss_hosts s)\<rparr>)"

definition store_set_up :: "host_ref \<Rightarrow> session \<Rightarrow> session" where
  "store_set_up h s = s\<lparr>ss_store := (ss_store s)(h := set_up (ss_store s h))\<rparr>"

definition host_distance_of :: "(address \<Rightarrow> string) \<Rightarrow> host_ref \<Rightarrow> session \<Rightarrow> host_distance" where
  "host_distance_of txt h s = lb_distance txt (ss_store s) (ss_policy s) h"

definition session_on_add :: "(address \<Rightarrow> string) \<Rightarrow> host_ref \<Rightarrow> bool \<Rightarrow> session \<Rightarrow> session" where
  "session_on_add txt h is_initial s =
     (let s = store_set_up h s
      in if host_distance_of txt h s = IGNORE then s
         else
           (let s = (if is_initial then s\<lparr>ss_pending_pool := ss_pending_pool s + int (ss_workers s)\<rparr>
                     else let (p, st) = lb_on_add txt h (ss_policy s) (ss_store s)
                          in s\<lparr>ss_policy := p, ss_store := st\<rparr>)
            in all_workers (\<lambda>w. Add_pool w (address (ss_store s h)) is_initial) s))"

definition session_on_remove :: "(address \<Rightarrow> string) \<Rightarrow> host_ref \<Rightarrow> session \<Rightarrow> session" where
  "session_on_remove txt h s =
     (let s = s\<lparr>ss_policy := lb_on_remove txt h (ss_policy s) (ss_store s)\<rparr>;
          a = address (ss_store s h);
          s = s\<lparr>ss_hosts := hosts_erase a (ss_hosts s)\<rparr>
      in all_workers (\<lambda>w. Remove_pool w a True) s)"

definition session_on_up :: "(address \<Rightarrow> string) \<Rightarrow> host_ref \<Rightarrow> session \<Rightarrow> session" where
  "session_on_up txt h s =
     (let s = store_set_up h s
      in if host_distance_of txt h s = IGNORE then s
         else all_workers (\<lambda>w. Add_pool w (address (ss_store s h)) False)
                (s\<lparr>ss_policy := lb_on_up txt h (ss_policy s) (ss_store s)\<rparr>))"

definition session_on_down :: "(address \<Rightarrow> string) \<Rightarrow> host_ref \<Rightarrow> session \<Rightarrow> session" where
  "session_on_down txt h s =
     (let s = s\<lparr>ss_store := (ss_store s)(h := set_down (ss_store s h))\<rparr>;
          s = s\<lparr>ss_policy := lb_on_remove txt h (ss_policy s) (ss_store s)\<rparr>;
          cancel_reconnect = (host_distance_of txt h s = IGNORE)
      in all_workers (\<lambda>w. Remove_pool w (address (ss_store s h)) cancel_reconnect) s)"

text \<open>
  \<open>purge_hosts\<close> goes over the map; the entry it removes is behind the iterator already.
\<close>

definition purge_host :: "(address \<Rightarrow> string) \<Rightarrow> bool \<Rightarrow> session \<Rightarrow> address \<times> host_ref \<Rightarrow> session" where
  "purge_host txt is_initial s e =
     (if hmark (ss_store s (snd e)) \<noteq> ss_mark s
      then (if is_initial then s\<lparr>ss_hosts := hosts_erase (fst e) (ss_hosts s)\<rparr>
            else session_on_remove txt (snd e) s)
      else s)"

definition purge_hosts :: "(address \<Rightarrow> string) \<Rightarrow> bool \<Rightarrow> session \<Rightarrow> session" where
  "purge_hosts txt is_initial s =
     (let s = foldl (purge_host txt is_initial) s (ss_hosts s)
      in s\<lparr>ss_mark := \<not> ss_mark s\<rparr>)"

section \<open>Events of the session thread\<close>

definition internal_connect :: "session \<Rightarrow> session option" where
  "internal_connect s =
     (if ss_hosts s = [] then notify_connect_error LIB_NO_HOSTS s
      else Some (s\<lparr>ss_control := Control_connecting\<rparr>))"

text \<open>The contact points: \<open>Inl\<close> an address, \<open>Inr\<close> a name that has to be resolved.\<close>

fun add_contact_points :: "(address + string) list \<Rightarrow> session \<Rightarrow> session" where
  "add_contact_points [] s = s"
| "add_contact_points (Inl a # cs) s = add_contact_points cs (session_add_host a s)"
| "add_contact_points (Inr name # cs) s =
     add_contact_points cs (s\<lparr>ss_pending_resolve := ss_pending_resolve s + 1\<rparr>)"

definition on_connect_event :: "(address + string) list \<Rightarrow> session \<Rightarrow> session option" where
  "on_connect_event contact_points s =
     (let s = add_contact_points contact_points s
      in if ss_pending_resolve s = 0 then internal_connect s else Some s)"

definition on_resolve :: "address option \<Rightarrow> session \<Rightarrow> session option" where
  "on_resolve result s =
     (let s = (case result of Some a \<Rightarrow> session_add_host a s | None \<Rightarrow> s);
          s = s\<lparr>ss_pending_resolve := ss_pending_resolve s - 1\<rparr>
      in if ss_pending_resolve s = 0 then internal_connect s else Some s)"

definition on_notify_ready :: "session \<Rightarrow> session option" where
  "on_notify_ready s =
     (if ss_pending_pool s > 0
      then (let s = s\<lparr>ss_pending_pool := ss_pending_pool s - 1\<rparr>
            in if ss_pending_pool s = 0 then notify_connected s else Some s)
      else Some s)"

definition on_notify_worker_closed :: "session \<Rightarrow> session" where
  "on_notify_worker_closed s =
     (let s = s\<lparr>ss_pending_workers := ss_pending_workers s - 1\<rparr>
      in if ss_pending_workers s = 0
         then s\<lparr>ss_effects := ss_effects s @ [Close_control_connection], ss_handles_closed := True\<rparr>
         else s)"

text \<open>The assertion of the whitelist policy in \<open>init\<close> is \<open>None\<close> here as well.\<close>

definition on_control_connection_ready ::
  "(address \<Rightarrow> string) \<Rightarrow> host_ref option \<Rightarrow> session \<Rightarrow> session option" where
  "on_control_connection_ready txt connected s =
     (case lb_init txt connected (ss_policy s) (ss_hosts s) (ss_store s) of
        None \<Rightarrow> None
      | Some (p, st) \<Rightarrow>
          (let s = s\<lparr>ss_policy := p, ss_store := st\<rparr>
           in Some (foldl (\<lambda>s (a, h). session_on_add txt h True s) s (ss_hosts s))))"

definition on_control_connection_error :: "u32 \<Rightarrow> session \<Rightarrow> session option" where
  "on_control_connection_error code s = notify_connect_error code s"

text \<open>The null request in \<open>on_execute\<close>.\<close>

definition close_workers :: "session \<Rightarrow> session" where
  "close_workers s =
     all_workers Close_worker
       (s\<lparr>ss_pending_workers := int (ss_workers s), ss_workers_closing := ss_workers s\<rparr>)"

section \<open>Requests\<close>

text \<open>
  \<open>Session::execute\<close> puts a request into the queue of the session thread; \<open>room\<close> says whether
  the queue has room. \<open>None\<close>: the request is in the queue.
\<close>

definition session_execute :: "bool \<Rightarrow> session \<Rightarrow> u32 option" where
  "session_execute room s =
     (if ss_state s \<noteq> S_CONNECTED then Some LIB_NO_HOSTS
      else if \<not> room then Some LIB_REQUEST_QUEUE_FULL
      else None)"

text \<open>
  The inner loop of \<open>on_execute\<close>: from the current worker on, the first worker that has the
  host available and accepts the request (\<open>accepts w\<close>), and where the loop stopped.
\<close>

fun scan_workers :: "(worker_id \<Rightarrow> bool) \<Rightarrow> nat \<Rightarrow> nat \<Rightarrow> nat \<Rightarrow> (worker_id \<times> nat) option" where
  "scan_workers accepts nw start 0 = None"
| "scan_workers accepts nw start (Suc n) =
     (if accepts (start mod nw) then Some (start mod nw, (start + 1) mod nw)
      else scan_workers accepts nw (start + 1) n)"

text \<open>
  The request with the hosts of its plan: it goes to the first host that some worker accepts it
  for, or fails when the plan is at its end.
\<close>

fun dispatch :: "(worker_id \<Rightarrow> address \<Rightarrow> bool) \<Rightarrow> nat \<Rightarrow> address list \<Rightarrow> session \<Rightarrow> session" where
  "dispatch accepts r [] s = s\<lparr>ss_effects := ss_effects s @ [Request_error r LIB_NO_HOSTS]\<rparr>"
| "dispatch accepts r (a # plan) s =
     (case scan_workers (\<lambda>w. accepts w a) (ss_workers s) (ss_current_io_worker s) (ss_workers s) of
        Some (w, next_worker) \<Rightarrow>
          s\<lparr>ss_current_io_worker := next_worker, ss_effects := ss_effects s @ [Execute_on w r]\<rparr>
      | None \<Rightarrow> dispatch accepts r plan s)"

section \<open>Everything that can happen\<close>

text \<open>
  The calls of the application (with a new future each), the events of the session thread
  and the host events of the control connection. \<open>Null_request\<close> is the null request in the
  queue, \<open>Worker_closed\<close> the event of a worker that closed, \<open>Thread_end\<close> the end of the loop
  after its handles were closed.
\<close>

definition new_future :: "future_id \<Rightarrow> session \<Rightarrow> bool" where
  "new_future f s \<longleftrightarrow> f \<notin> fst ` set (ss_outcomes s) \<and> ss_connect_future s \<noteq> Some f \<and> ss_close_future s \<noteq> Some f"

inductive session_step :: "session \<Rightarrow> session option \<Rightarrow> bool" where
  Connect_call: "new_future f s \<Longrightarrow> 0 < threads \<Longrightarrow>
    session_step s (Some (connect_async policy threads ks f init_ok send_ok s))"
| Close_call: "new_future f s \<Longrightarrow> session_step s (Some (close_async f force s))"
| Connect_event: "ss_connect_event s \<Longrightarrow>
    session_step s (on_connect_event contact_points (s\<lparr>ss_connect_event := False\<rparr>))"
| Resolved: "0 < ss_pending_resolve s \<Longrightarrow> session_step s (on_resolve result s)"
| Control_ready: "ss_control s = Control_connecting \<Longrightarrow>
    lb_init txt connected (ss_policy s) (ss_hosts s) (ss_store s) \<noteq> None \<Longrightarrow>
    session_step s (on_control_connection_ready txt connected (s\<lparr>ss_control := Control_reported\<rparr>))"
| Control_error: "ss_control s = Control_connecting \<Longrightarrow>
    session_step s (on_control_connection_error code (s\<lparr>ss_control := Control_reported\<rparr>))"
| Ready_event: "session_step s (on_notify_ready s)"
| Null_request: "0 < ss_null_requests s \<Longrightarrow>
    session_step s (Some (close_workers (s\<lparr>ss_null_requests := ss_null_requests s - 1\<rparr>)))"
| Worker_closed: "0 < ss_workers_closing s \<Longrightarrow>
    session_step s (Some (on_notify_worker_closed (s\<lparr>ss_workers_closing := ss_workers_closing s - 1\<rparr>)))"
| Thread_end: "ss_handles_closed s \<Longrightarrow>
    session_step s (Some (notify_closed (s\<lparr>ss_handles_closed := False\<rparr>)))"
| Host_added: "session_step s (Some (session_on_add txt h False s))"
| Host_removed: "session_step s (Some (session_on_remove txt h s))"
| Host_up: "session_step s (Some (session_on_up txt h s))"
| Host_down: "session_step s (Some (session_on_down txt h s))"
| Host_found: "session_step s (Some (session_add_host a s))"
| Host_updated: "\<forall>h. address (st h) = address (ss_store s h) \<Longrightarrow>
    session_step s (Some (s\<lparr>ss_store := st\<rparr>))"
| Purge: "session_step s (Some (purge_hosts txt is_initial s))"

inductive session_reachable :: "session \<Rightarrow> bool" where
  New: "session_reachable session_new"
| Step: "session_reachable s \<Longrightarrow> session_step s (Some s') \<Longrightarrow> session_reachable s'"

section \<open>The life cycle\<close>

text \<open>The part of the state that the life cycle is about.\<close>

definition closing_phases :: "session \<Rightarrow> nat" where
  "closing_phases s = ss_null_requests s + (if 0 < ss_workers_closing s then 1 else 0) +
     (if ss_handles_closed s then 1 else 0)"

definition attempt_inv :: "session \<Rightarrow> bool" where
  "attempt_inv s \<longleftrightarrow>
     0 \<le> ss_pending_resolve s \<and> 0 \<le> ss_pending_pool s \<and>
     (ss_connect_event s \<longrightarrow> ss_pending_resolve s = 0 \<and> ss_control s = Control_idle \<and> ss_pending_pool s = 0) \<and>
     (0 < ss_pending_resolve s \<longrightarrow> ss_control s = Control_idle \<and> ss_pending_pool s = 0) \<and>
     (ss_control s = Control_connecting \<longrightarrow> ss_pending_pool s = 0) \<and>
     (ss_connect_future s = None \<longrightarrow>
        \<not> ss_connect_event s \<and> ss_pending_resolve s = 0 \<and> ss_control s \<noteq> Control_connecting \<and>
        ss_pending_pool s = 0)"

definition phase_inv :: "session \<Rightarrow> bool" where
  "phase_inv s \<longleftrightarrow>
     (ss_state s \<noteq> S_CLOSING \<longrightarrow> closing_phases s = 0 \<and> ss_close_future s = None \<and>
        (ss_connect_future s = None \<longleftrightarrow> ss_state s \<noteq> S_CONNECTING)) \<and>
     (ss_state s = S_CLOSING \<longrightarrow>
        (ss_connect_future s = None \<longrightarrow> closing_phases s = 1) \<and>
        (ss_connect_future s \<noteq> None \<longrightarrow> closing_phases s = 0 \<and> ss_close_future s \<noteq> None)) \<and>
     (ss_state s \<noteq> S_CLOSED \<longrightarrow> 0 < ss_workers s) \<and>
     ss_pending_workers s = int (ss_workers_closing s)"

definition futures_inv :: "session \<Rightarrow> bool" where
  "futures_inv s \<longleftrightarrow> distinct (map fst (ss_outcomes s)) \<and>
     (\<forall>f. ss_connect_future s = Some f \<longrightarrow> f \<notin> fst ` set (ss_outcomes s) \<and> ss_close_future s \<noteq> Some f) \<and>
     (\<forall>f. ss_close_future s = Some f \<longrightarrow> f \<notin> fst ` set (ss_outcomes s))"

definition session_inv :: "session \<Rightarrow> bool" where
  "session_inv s \<longleftrightarrow> attempt_inv s \<and> phase_inv s \<and> futures_inv s"

lemmas session_inv_defs = session_inv_def attempt_inv_def phase_inv_def futures_inv_def closing_phases_def

text \<open>The host operations do not touch it.\<close>

definition life :: "session \<Rightarrow> session" where
  "life s = s\<lparr>ss_policy := new_round_robin, ss_hosts := [], ss_store := (\<lambda>_. new_host Unset False),
     ss_next_host := 0, ss_mark := True, ss_effects := []\<rparr>"

lemma session_inv_life: "session_inv (life s) = session_inv s"
  by (simp add: session_inv_defs life_def)

lemma life_all_workers [simp]: "life (all_workers e s) = life s"
  by (simp add: life_def all_workers_def)

lemma life_store_set_up [simp]: "life (store_set_up h s) = life s"
  by (simp add: life_def store_set_up_def)

lemma life_store [simp]: "life (s\<lparr>ss_store := st\<rparr>) = life s"
  by (simp add: life_def)

lemma life_add_host [simp]: "life (session_add_host a s) = life s"
  by (simp add: life_def session_add_host_def Let_def)

lemma life_host_events:
  "life (session_on_add txt h False s) = life s"
  "life (session_on_remove txt h s) = life s"
  "life (session_on_up txt h s) = life s"
  "life (session_on_down txt h s) = life s"
  by (simp_all add: session_on_add_def session_on_remove_def session_on_up_def session_on_down_def Let_def
      split: prod.split) (simp_all add: life_def store_set_up_def)

lemma life_purge_hosts: "life (purge_hosts txt i s) = life s"
proof -
  have "life (foldl (purge_host txt i) s es) = life s" for es
  proof (induction es arbitrary: s)
    case (Cons e es)
    have "life (purge_host txt i s e) = life s"
      by (simp add: purge_host_def life_host_events) (simp add: life_def)
    then show ?case using Cons by simp
  qed simp
  then have "life (foldl (purge_host txt i) s (ss_hosts s)) = life s" .
  then show ?thesis by (simp add: purge_hosts_def Let_def) (simp add: life_def)
qed

lemma session_inv_same_life: "life s = life t \<Longrightarrow> session_inv s = session_inv t"
  by (metis session_inv_life)

lemma inv_new: "session_inv session_new"
  by (simp add: session_inv_defs session_new_def)

lemma inv_broadcast: "session_inv (broadcast_keyspace_change ks c s) = session_inv s"
  by (rule session_inv_same_life) (simp add: broadcast_keyspace_change_def life_def)

lemma inv_outcome_rejected:
  "session_inv s \<Longrightarrow> new_future f s \<Longrightarrow> session_inv (outcome f r s)"
  by (auto simp: session_inv_defs outcome_def new_future_def)

lemma closed_clear:
  "session_inv s \<Longrightarrow> ss_state s = S_CLOSED \<Longrightarrow> session_inv (session_clear policy s)"
  by (auto simp: session_inv_defs session_clear_def split: if_splits)

lemma inv_connect_async:
  assumes "session_inv s" and "new_future f s" and "0 < threads"
  shows "session_inv (connect_async policy threads ks f init_ok send_ok s)"
proof (cases "ss_state s = S_CLOSED")
  case True
  let ?c = "session_clear policy s"
  have c: "session_inv ?c" by (rule closed_clear [OF assms(1) True])
  have f: "new_future f ?c" using assms(2) by (simp add: new_future_def session_clear_def)
  have t: "session_inv (?c\<lparr>ss_workers := threads\<rparr>)" "new_future f (?c\<lparr>ss_workers := threads\<rparr>)"
    using c f assms(3) by (auto simp: session_inv_defs new_future_def)
  have ok: "session_inv (?c\<lparr>ss_workers := threads, ss_connect_event := True, ss_state := S_CONNECTING,
      ss_connect_future := Some f, ss_handles_closed := False\<rparr>)"
    using assms True by (auto simp: session_inv_defs session_clear_def new_future_def split: if_splits)
  show ?thesis
    using True ok inv_outcome_rejected [OF c f] inv_outcome_rejected [OF t]
    by (simp add: connect_async_def session_init_def inv_broadcast Let_def)
next
  case False
  then show ?thesis using assms by (simp add: connect_async_def inv_outcome_rejected)
qed

lemma inv_close_async:
  assumes "session_inv s" and "new_future f s"
  shows "session_inv (close_async f force s)"
proof -
  have "session_inv (session_internal_close (s\<lparr>ss_state := S_CLOSING, ss_close_future := Some f\<rparr>))"
    if "ss_state s = S_CONNECTED"
    using assms that by (auto simp: session_inv_defs session_internal_close_def new_future_def split: if_splits)
  moreover have "session_inv (s\<lparr>ss_state := S_CLOSING, ss_close_future := Some f\<rparr>)"
    if "ss_state s = S_CONNECTING"
    using assms that by (auto simp: session_inv_defs new_future_def split: if_splits)
  ultimately show ?thesis
    using inv_outcome_rejected [OF assms] by (auto simp: close_async_def Let_def)
qed

text \<open>A pending attempt that ends: with success or with an error.\<close>

definition attempt_done :: "session \<Rightarrow> bool" where
  "attempt_done s \<longleftrightarrow> \<not> ss_connect_event s \<and> ss_pending_resolve s = 0 \<and>
     ss_control s \<noteq> Control_connecting \<and> ss_pending_pool s = 0"

lemma inv_notify_connected:
  assumes "phase_inv s" and "futures_inv s" and "attempt_done s" and "ss_connect_future s = Some f"
  shows "\<exists>s'. notify_connected s = Some s' \<and> session_inv s'"
proof -
  have st: "ss_state s = S_CONNECTING \<or> ss_state s = S_CLOSING"
    using assms(1,4) by (cases "ss_state s") (auto simp: phase_inv_def)
  then show ?thesis
    using assms
    by (auto simp: notify_connected_def session_internal_close_def session_inv_defs outcome_def
        attempt_done_def Let_def split: if_splits)
qed

lemma inv_notify_connect_error:
  assumes "phase_inv s" and "futures_inv s" and "attempt_done s" and "ss_connect_future s = Some f"
  shows "\<exists>s'. notify_connect_error code s = Some s' \<and> session_inv s'"
proof -
  have st: "ss_state s = S_CONNECTING \<or> ss_state s = S_CLOSING"
    using assms(1,4) by (cases "ss_state s") (auto simp: phase_inv_def)
  then show ?thesis
    using assms
    by (auto simp: notify_connect_error_def session_internal_close_def session_inv_defs outcome_def
        attempt_done_def Let_def split: if_splits)
qed

lemma inv_internal_connect:
  assumes "phase_inv s" and "futures_inv s" and "ss_connect_future s = Some f"
    and "\<not> ss_connect_event s" and "ss_pending_resolve s = 0" and "ss_control s = Control_idle"
    and "ss_pending_pool s = 0"
  shows "\<exists>s'. internal_connect s = Some s' \<and> session_inv s'"
proof (cases "ss_hosts s = []")
  case True
  then show ?thesis
    using inv_notify_connect_error [OF assms(1,2) _ assms(3)] assms(4-7)
    by (simp add: internal_connect_def attempt_done_def)
next
  case False
  then show ?thesis
    using assms by (auto simp: internal_connect_def session_inv_defs split: if_splits)
qed

text \<open>What the operations on hosts leave alone, field by field.\<close>

definition same_life :: "session \<Rightarrow> session \<Rightarrow> bool" where
  "same_life s t \<longleftrightarrow> ss_state s = ss_state t \<and> ss_connect_future s = ss_connect_future t \<and>
     ss_close_future s = ss_close_future t \<and> ss_workers s = ss_workers t \<and>
     ss_outcomes s = ss_outcomes t \<and> ss_connect_event s = ss_connect_event t \<and>
     ss_null_requests s = ss_null_requests t \<and> ss_control s = ss_control t \<and>
     ss_workers_closing s = ss_workers_closing t \<and> ss_handles_closed s = ss_handles_closed t \<and>
     ss_pending_workers s = ss_pending_workers t"

lemma same_life_refl [simp]: "same_life s s"
  by (simp add: same_life_def)

lemma contact_points_life:
  "same_life (add_contact_points cs s) s \<and> ss_pending_pool (add_contact_points cs s) = ss_pending_pool s \<and>
   ss_pending_resolve s \<le> ss_pending_resolve (add_contact_points cs s)"
proof (induction cs s rule: add_contact_points.induct)
  case (2 a cs s)
  then show ?case by (simp add: session_add_host_def Let_def same_life_def)
next
  case (3 name cs s)
  then show ?case by (simp add: same_life_def)
qed simp

lemma same_life_invs: "same_life s t \<Longrightarrow> phase_inv s = phase_inv t \<and> futures_inv s = futures_inv t"
  by (simp add: same_life_def phase_inv_def futures_inv_def closing_phases_def)

lemma inv_connect_event:
  assumes "session_inv s" and "ss_connect_event s"
  shows "\<exists>s'. on_connect_event cs (s\<lparr>ss_connect_event := False\<rparr>) = Some s' \<and> session_inv s'"
proof -
  let ?s = "s\<lparr>ss_connect_event := False\<rparr>"
  let ?t = "add_contact_points cs ?s"
  note l = contact_points_life [of cs ?s]
  have p: "phase_inv ?t" "futures_inv ?t"
    using same_life_invs [OF conjunct1 [OF l]] assms(1)
    by (simp_all add: session_inv_def phase_inv_def futures_inv_def closing_phases_def)
  obtain f where f: "ss_connect_future s = Some f"
    using assms by (cases "ss_connect_future s") (auto simp: session_inv_def attempt_inv_def)
  have i: "ss_pending_pool ?t = 0" "ss_control ?t = Control_idle" "0 \<le> ss_pending_resolve ?t"
      "\<not> ss_connect_event ?t" "ss_connect_future ?t = Some f"
    using assms l f by (auto simp: session_inv_def attempt_inv_def same_life_def)
  show ?thesis
  proof (cases "ss_pending_resolve ?t = 0")
    case True
    then show ?thesis using inv_internal_connect [OF p i(5,4)] i by (simp add: on_connect_event_def)
  next
    case False
    then show ?thesis using p i by (simp add: on_connect_event_def session_inv_def attempt_inv_def)
  qed
qed

lemma inv_resolve:
  assumes "session_inv s" and "0 < ss_pending_resolve s"
  shows "\<exists>s'. on_resolve r s = Some s' \<and> session_inv s'"
proof -
  define t where "t = (case r of Some a \<Rightarrow> session_add_host a s | None \<Rightarrow> s)\<lparr>ss_pending_resolve := ss_pending_resolve s - 1\<rparr>"
  have t: "on_resolve r s = (if ss_pending_resolve t = 0 then internal_connect t else Some t)"
    by (cases r) (simp_all add: on_resolve_def t_def session_add_host_def Let_def)
  have l: "same_life t s" "ss_pending_pool t = ss_pending_pool s" "ss_pending_resolve t = ss_pending_resolve s - 1"
    by (cases r; simp add: t_def same_life_def session_add_host_def Let_def)+
  have p: "phase_inv t" "futures_inv t"
    using same_life_invs [OF l(1)] assms(1) by (simp_all add: session_inv_def)
  obtain f where f: "ss_connect_future t = Some f"
    using assms l(1) by (cases "ss_connect_future s") (auto simp: session_inv_def attempt_inv_def same_life_def)
  have i: "ss_pending_pool t = 0" "ss_control t = Control_idle" "\<not> ss_connect_event t"
    using assms l by (auto simp: session_inv_def attempt_inv_def same_life_def)
  show ?thesis
  proof (cases "ss_pending_resolve t = 0")
    case True
    then show ?thesis unfolding t using inv_internal_connect [OF p f i(3) True i(2,1)] by simp
  next
    case False
    then show ?thesis
      unfolding t using p i l(3) f assms(2) by (simp add: session_inv_def attempt_inv_def)
  qed
qed

lemma initial_add_life:
  "same_life (foldl (\<lambda>s (a, h). session_on_add txt h True s) s hosts) s \<and>
   ss_pending_resolve (foldl (\<lambda>s (a, h). session_on_add txt h True s) s hosts) = ss_pending_resolve s \<and>
   ss_pending_pool s \<le> ss_pending_pool (foldl (\<lambda>s (a, h). session_on_add txt h True s) s hosts)"
proof (induction hosts arbitrary: s)
  case (Cons e hosts)
  obtain a h where e: "e = (a, h)" by force
  have "same_life (session_on_add txt h True s) s \<and>
      ss_pending_resolve (session_on_add txt h True s) = ss_pending_resolve s \<and>
      ss_pending_pool s \<le> ss_pending_pool (session_on_add txt h True s)"
    by (simp add: session_on_add_def store_set_up_def all_workers_def Let_def same_life_def)
  then show ?case using Cons [of "session_on_add txt h True s"] by (auto simp: e same_life_def)
qed simp

lemma inv_control_ready:
  assumes "session_inv s" and "ss_control s = Control_connecting"
    and "lb_init txt c (ss_policy s) (ss_hosts s) (ss_store s) \<noteq> None"
  shows "\<exists>s'. on_control_connection_ready txt c (s\<lparr>ss_control := Control_reported\<rparr>) = Some s' \<and> session_inv s'"
proof -
  obtain p st where p: "lb_init txt c (ss_policy s) (ss_hosts s) (ss_store s) = Some (p, st)"
    using assms(3) by auto
  let ?s = "s\<lparr>ss_control := Control_reported, ss_policy := p, ss_store := st\<rparr>"
  let ?t = "foldl (\<lambda>s (a, h). session_on_add txt h True s) ?s (ss_hosts s)"
  note l = initial_add_life [of "txt" ?s "ss_hosts s"]
  have "phase_inv ?t" "futures_inv ?t"
    using same_life_invs [OF conjunct1 [OF l]] assms(1)
    by (simp_all add: session_inv_def phase_inv_def futures_inv_def closing_phases_def)
  moreover have "attempt_inv ?t"
    using l assms(1,2) by (auto simp: session_inv_def attempt_inv_def same_life_def)
  ultimately show ?thesis using p by (simp add: on_control_connection_ready_def session_inv_def)
qed

lemma inv_control_error:
  assumes "session_inv s" and "ss_control s = Control_connecting"
  shows "\<exists>s'. on_control_connection_error code (s\<lparr>ss_control := Control_reported\<rparr>) = Some s' \<and> session_inv s'"
proof -
  let ?s = "s\<lparr>ss_control := Control_reported\<rparr>"
  obtain f where f: "ss_connect_future s = Some f"
    using assms by (cases "ss_connect_future s") (auto simp: session_inv_def attempt_inv_def)
  have "phase_inv ?s" "futures_inv ?s" "attempt_done ?s"
    using assms by (auto simp: session_inv_defs attempt_done_def)
  from inv_notify_connect_error [OF this] f show ?thesis
    by (simp add: on_control_connection_error_def)
qed

lemma inv_ready:
  assumes "session_inv s"
  shows "\<exists>s'. on_notify_ready s = Some s' \<and> session_inv s'"
proof -
  let ?s = "s\<lparr>ss_pending_pool := ss_pending_pool s - 1\<rparr>"
  have p: "phase_inv ?s" "futures_inv ?s"
    using assms by (simp_all add: session_inv_def phase_inv_def futures_inv_def closing_phases_def)
  consider "ss_pending_pool s \<le> 0" | "1 < ss_pending_pool s" | "ss_pending_pool s = 1" by linarith
  then show ?thesis
  proof cases
    case 1
    then show ?thesis using assms by (simp add: on_notify_ready_def)
  next
    case 2
    then show ?thesis
      using assms p by (auto simp: on_notify_ready_def Let_def session_inv_def attempt_inv_def)
  next
    case 3
    then obtain f where f: "ss_connect_future s = Some f"
      using assms by (cases "ss_connect_future s") (auto simp: session_inv_def attempt_inv_def)
    have "attempt_done ?s" using assms 3 by (auto simp: session_inv_def attempt_inv_def attempt_done_def)
    from inv_notify_connected [OF p this] f 3 show ?thesis by (simp add: on_notify_ready_def)
  qed
qed

lemma inv_null:
  assumes "session_inv s" and "0 < ss_null_requests s"
  shows "session_inv (close_workers (s\<lparr>ss_null_requests := ss_null_requests s - 1\<rparr>))"
proof -
  have st: "ss_state s = S_CLOSING"
    using assms by (auto simp: session_inv_def phase_inv_def closing_phases_def)
  show ?thesis
    using assms st by (auto simp: session_inv_defs close_workers_def all_workers_def split: if_splits)
qed

lemma inv_worker_closed:
  assumes "session_inv s" and "0 < ss_workers_closing s"
  shows "session_inv (on_notify_worker_closed (s\<lparr>ss_workers_closing := ss_workers_closing s - 1\<rparr>))"
proof -
  have st: "ss_state s = S_CLOSING"
    using assms by (auto simp: session_inv_def phase_inv_def closing_phases_def split: if_splits)
  show ?thesis
    using assms st by (auto simp: session_inv_defs on_notify_worker_closed_def Let_def split: if_splits)
qed

lemma inv_thread_end:
  assumes "session_inv s" and "ss_handles_closed s"
  shows "session_inv (notify_closed (s\<lparr>ss_handles_closed := False\<rparr>))"
proof -
  have st: "ss_state s = S_CLOSING"
    using assms by (auto simp: session_inv_def phase_inv_def closing_phases_def split: if_splits)
  show ?thesis
    using assms st
    by (auto simp: session_inv_defs notify_closed_def outcome_def Let_def split: if_splits option.splits)
qed

lemma session_step_inv:
  "session_step s r \<Longrightarrow> session_inv s \<Longrightarrow> \<exists>s'. r = Some s' \<and> session_inv s'"
proof (induction rule: session_step.induct)
  case (Control_ready s tx connected)
  then show ?case using inv_control_ready by blast
qed (simp_all del: One_nat_def add: inv_connect_async inv_close_async inv_connect_event inv_resolve inv_control_error inv_ready
  inv_null inv_worker_closed inv_thread_end
  session_inv_same_life [OF life_host_events(1)] session_inv_same_life [OF life_host_events(2)]
  session_inv_same_life [OF life_host_events(3)] session_inv_same_life [OF life_host_events(4)]
  session_inv_same_life [OF life_purge_hosts] session_inv_same_life [OF life_add_host]
  session_inv_same_life [OF life_store])

lemma session_reachable_inv: "session_reachable s \<Longrightarrow> session_inv s"
proof (induction rule: session_reachable.induct)
  case (Step s s')
  then show ?case using session_step_inv by blast
qed (rule inv_new)

text \<open>
  Whatever the application calls and in whatever order the events arrive, no future of a
  session is completed twice.
\<close>

theorem session_futures_once:
  assumes "session_reachable s"
  shows "distinct (map fst (ss_outcomes s))"
  using session_reachable_inv [OF assms] by (simp add: session_inv_def futures_inv_def)


section \<open>Closing\<close>

text \<open>The steps of the driver itself once the attempt to connect is over.\<close>

inductive closing_step :: "session \<Rightarrow> session \<Rightarrow> bool" where
  "0 < ss_null_requests s \<Longrightarrow>
     closing_step s (close_workers (s\<lparr>ss_null_requests := ss_null_requests s - 1\<rparr>))"
| "0 < ss_workers_closing s \<Longrightarrow>
     closing_step s (on_notify_worker_closed (s\<lparr>ss_workers_closing := ss_workers_closing s - 1\<rparr>))"
| "ss_handles_closed s \<Longrightarrow> closing_step s (notify_closed (s\<lparr>ss_handles_closed := False\<rparr>))"

definition closing_measure :: "session \<Rightarrow> nat" where
  "closing_measure s =
     (if 0 < ss_null_requests s then ss_workers s + 2
      else if 0 < ss_workers_closing s then ss_workers_closing s + 1
      else if ss_handles_closed s then 1 else 0)"

lemma closing_step_session: "closing_step s t \<Longrightarrow> session_step s (Some t)"
  by (induction rule: closing_step.induct) (auto simp del: One_nat_def intro: session_step.intros)

lemma closing_step_measure:
  assumes "closing_step s t" and "session_inv s"
  shows "closing_measure s = Suc (closing_measure t)"
  using assms
  by (induction rule: closing_step.induct)
    (auto simp: closing_measure_def close_workers_def all_workers_def on_notify_worker_closed_def
      notify_closed_def outcome_def session_inv_defs Let_def split: if_splits option.splits)

lemma closing_step_enabled: "0 < closing_measure s \<Longrightarrow> \<exists>t. closing_step s t"
  by (auto simp: closing_measure_def intro: closing_step.intros split: if_splits)

text \<open>The state stays closing, with its future, until the last step.\<close>

definition closing_with :: "future_id option \<Rightarrow> session \<Rightarrow> bool" where
  "closing_with f s \<longleftrightarrow> session_inv s \<and>
     (ss_state s = S_CLOSING \<and> ss_connect_future s = None \<and> ss_close_future s = f \<or>
      ss_state s = S_CLOSED \<and> (f \<noteq> None \<longrightarrow> (the f, Future_set) \<in> set (ss_outcomes s)))"

lemma closing_with_step:
  assumes "closing_step s t" and "closing_with f s"
  shows "closing_with f t"
proof -
  have "session_inv t"
    using session_step_inv [OF closing_step_session [OF assms(1)]] assms(2) by (auto simp: closing_with_def)
  moreover have "ss_state t = S_CLOSING \<and> ss_connect_future t = None \<and> ss_close_future t = f \<or>
      ss_state t = S_CLOSED \<and> (f \<noteq> None \<longrightarrow> (the f, Future_set) \<in> set (ss_outcomes t))"
  proof -
    have "0 < closing_measure s"
      using closing_step_measure [OF assms(1)] assms(2) by (simp add: closing_with_def)
    then have "ss_state s \<noteq> S_CLOSED"
      using assms(2)
      by (auto simp: closing_with_def session_inv_def phase_inv_def closing_phases_def closing_measure_def
          split: if_splits)
    then have s: "ss_state s = S_CLOSING" "ss_connect_future s = None" "ss_close_future s = f"
      using assms(2) by (auto simp: closing_with_def)
    from assms(1) show ?thesis
    proof cases
      case 1
      then show ?thesis using s by (simp add: close_workers_def all_workers_def)
    next
      case 2
      then show ?thesis using s by (simp add: on_notify_worker_closed_def Let_def)
    next
      case 3
      then show ?thesis using s by (cases f) (simp_all add: notify_closed_def outcome_def)
    qed
  qed
  ultimately show ?thesis by (simp add: closing_with_def)
qed

lemma closing_with_done: "closing_with f s \<Longrightarrow> closing_measure s = 0 \<Longrightarrow> ss_state s = S_CLOSED"
  by (auto simp: closing_with_def session_inv_def phase_inv_def closing_phases_def closing_measure_def split: if_splits)

lemma closing_run:
  assumes "closing_with f s"
  shows "(\<exists>t. (closing_step ^^ closing_measure s) s t) \<and>
         (\<forall>t. (closing_step ^^ closing_measure s) s t \<longrightarrow> closing_with f t \<and> closing_measure t = 0)"
  using assms
proof (induction "closing_measure s" arbitrary: s)
  case 0
  then show ?case by simp
next
  case (Suc n)
  have step: "closing_with f u \<and> n = closing_measure u" if "closing_step s u" for u
    using that closing_with_step closing_step_measure Suc.prems Suc.hyps(2)
    by (fastforce simp: closing_with_def)
  obtain u where u: "closing_step s u" using closing_step_enabled [of s] Suc.hyps(2) by auto
  have nu: "n = closing_measure u" and wu: "closing_with f u" using step [OF u] by simp_all
  obtain t where "(closing_step ^^ n) u t" using Suc.hyps(1) [OF nu wu] nu by auto
  then have ex: "\<exists>t. (closing_step ^^ Suc n) s t" using u by (metis relpowp_Suc_I2)
  have all: "closing_with f t \<and> closing_measure t = 0" if t: "(closing_step ^^ Suc n) s t" for t
  proof -
    obtain v where v: "closing_step s v" "(closing_step ^^ n) v t" using t by (meson relpowp_Suc_D2)
    have n: "n = closing_measure v" and w: "closing_with f v" using step [OF v(1)] by simp_all
    show ?thesis using conjunct2 [OF Suc.hyps(1) [OF n w]] v(2) unfolding n by blast
  qed
  show ?case using ex all unfolding Suc.hyps(2) by blast
qed

text \<open>The session is closed and the close future, if there was one, is set.\<close>

definition closed_with :: "future_id option \<Rightarrow> session \<Rightarrow> bool" where
  "closed_with f s \<longleftrightarrow> ss_state s = S_CLOSED \<and>
     (case f of None \<Rightarrow> True | Some f \<Rightarrow> (f, Future_set) \<in> set (ss_outcomes s))"

text \<open>
  C20: Once the attempt to connect has ended, a session that is asked to close (or whose
  attempt failed) gets closed: the steps the driver owes all follow, their number is known,
  and after them, in whatever order the workers report, the session is closed and its close
  future, if there is one, is set.
\<close>

theorem closing_completes:
  assumes "session_reachable s" and "ss_state s = S_CLOSING" and "ss_connect_future s = None"
  shows "{t. (closing_step ^^ closing_measure s) s t} \<noteq> {} \<and>
         {t. (closing_step ^^ closing_measure s) s t} \<subseteq> {t. closed_with (ss_close_future s) t}"
proof -
  have "closing_with (ss_close_future s) s"
    using assms session_reachable_inv by (simp add: closing_with_def)
  note run = closing_run [OF this]
  have "closed_with (ss_close_future s) t" if "(closing_step ^^ closing_measure s) s t" for t
  proof -
    have w: "closing_with (ss_close_future s) t" and "closing_measure t = 0" using run that by blast+
    then have c: "ss_state t = S_CLOSED" by (rule closing_with_done)
    then show ?thesis using w by (auto simp: closing_with_def closed_with_def split: option.split)
  qed
  then show ?thesis using run by blast
qed

section \<open>Witnesses\<close>

definition demo_connected :: session where
  "demo_connected = session_new\<lparr>ss_state := S_CONNECTED, ss_workers := 2, ss_control := Control_reported\<rparr>"

text \<open>A session that connects, fails because no contact point resolves, and is closing.\<close>

definition demo_failed :: session where
  "demo_failed = the (on_connect_event []
     ((connect_async new_round_robin 2 [] 7 True True session_new)\<lparr>ss_connect_event := False\<rparr>))"

lemma demo_failed_reachable: "session_reachable demo_failed"
proof -
  let ?c = "connect_async new_round_robin 2 [] 7 True True session_new"
  have "session_step session_new (Some ?c)"
    by (rule Connect_call) (simp_all add: new_future_def session_new_def)
  with New have c: "session_reachable ?c" by (rule Step)
  have "ss_connect_event ?c" by code_simp
  then have "session_step ?c (on_connect_event [] (?c\<lparr>ss_connect_event := False\<rparr>))" by (rule Connect_event)
  moreover have "on_connect_event [] (?c\<lparr>ss_connect_event := False\<rparr>) = Some demo_failed"
    by (simp add: demo_failed_def connect_async_def session_new_def session_init_def session_clear_def
        on_connect_event_def internal_connect_def notify_connect_error_def session_internal_close_def)
  ultimately show ?thesis using c Step by metis
qed

lemma demo_failed_facts:
  "ss_state demo_failed = S_CLOSING" "ss_connect_future demo_failed = None"
  "ss_outcomes demo_failed = [(7, Future_error LIB_NO_HOSTS)]"
  by (simp_all add: demo_failed_def connect_async_def session_new_def session_init_def session_clear_def
      on_connect_event_def internal_connect_def notify_connect_error_def session_internal_close_def outcome_def)

theorem session_futures_once_witness: "distinct (map fst (ss_outcomes demo_failed))"
  by (rule session_futures_once [OF demo_failed_reachable])


theorem closing_completes_witness:
  "{t. (closing_step ^^ closing_measure demo_failed) demo_failed t} \<noteq> {} \<and>
   {t. (closing_step ^^ closing_measure demo_failed) demo_failed t} \<subseteq> {t. closed_with (ss_close_future demo_failed) t}"
  by (rule closing_completes [OF demo_failed_reachable demo_failed_facts(1,2)])

section \<open>An attempt that never ends\<close>

text \<open>The attempt waits for pools, none of which is due.\<close>

definition stuck :: "future_id \<Rightarrow> session \<Rightarrow> bool" where
  "stuck f s \<longleftrightarrow> ss_connect_future s = Some f \<and> ss_control s = Control_reported \<and> ss_pending_pool s = 0 \<and>
     ss_pending_resolve s = 0 \<and> \<not> ss_connect_event s \<and> closing_phases s = 0 \<and>
     (ss_state s = S_CONNECTING \<or> ss_state s = S_CLOSING)"

lemma stuck_life: "stuck f (life s) = stuck f s"
  by (simp add: stuck_def life_def closing_phases_def)

lemma stuck_same_life: "life s = life t \<Longrightarrow> stuck f s = stuck f t"
  by (metis stuck_life)

lemma stuck_step:
  assumes "session_step s r" and "stuck f s"
  shows "\<exists>s'. r = Some s' \<and> stuck f s'"
  using assms
  by (induction rule: session_step.induct)
    (auto simp: stuck_same_life [OF life_host_events(1)] stuck_same_life [OF life_host_events(2)]
      stuck_same_life [OF life_host_events(3)] stuck_same_life [OF life_host_events(4)]
      stuck_same_life [OF life_purge_hosts] stuck_same_life [OF life_add_host] stuck_same_life [OF life_store],
     auto simp: stuck_def connect_async_def close_async_def outcome_def on_notify_ready_def closing_phases_def
       Let_def split: if_splits)

inductive session_steps :: "session \<Rightarrow> session \<Rightarrow> bool" where
  Steps_refl: "session_steps s s"
| Steps_step: "session_steps s t \<Longrightarrow> session_step t (Some u) \<Longrightarrow> session_steps s u"

lemma stuck_steps: "session_steps s t \<Longrightarrow> stuck f s \<Longrightarrow> stuck f t"
proof (induction rule: session_steps.induct)
  case (Steps_step s t u)
  then show ?case using stuck_step by blast
qed simp

lemma lb_distance_cong:
  assumes "\<And>x. address (st' x) = address (st x)" and "\<And>x. dc (st' x) = dc (st x)"
  shows "lb_distance txt st' pol h = lb_distance txt st pol h"
  using assms
  by (induction pol) (simp_all add: dc_distance_def same_address_def is_valid_host_def)

lemma distance_set_up: "lb_distance txt (st(h := set_up (st h))) pol x = lb_distance txt st pol x"
  by (rule lb_distance_cong) (simp_all add: set_up_def)

lemma distance_set_down: "lb_distance txt (st(h := set_down (st h))) pol x = lb_distance txt st pol x"
  by (rule lb_distance_cong) (simp_all add: set_down_def)

lemma ignored_add_one:
  "lb_distance txt (ss_store s) (ss_policy s) h = IGNORE \<Longrightarrow> session_on_add txt h i s = store_set_up h s"
  by (simp add: session_on_add_def host_distance_of_def store_set_up_def distance_set_up)

lemma ignored_add:
  "\<forall>(a, h) \<in> set hosts. lb_distance txt (ss_store s) (ss_policy s) h = IGNORE \<Longrightarrow>
   life (foldl (\<lambda>s (a, h). session_on_add txt h True s) s hosts) = life s"
proof (induction hosts arbitrary: s)
  case (Cons e hosts)
  obtain a h where e: "e = (a, h)" by force
  have h: "session_on_add txt h True s = store_set_up h s"
    using Cons.prems by (simp add: e ignored_add_one)
  have "\<forall>(a, x) \<in> set hosts. lb_distance txt (ss_store (store_set_up h s)) (ss_policy (store_set_up h s)) x = IGNORE"
    using Cons.prems by (simp add: e store_set_up_def distance_set_up)
  from Cons.IH [OF this] show ?case by (simp add: e h)
qed simp

text \<open>
  When the load balancing policy ignores every host, the attempt to connect never ends:
  the connect future is not completed whatever happens, also not when the session is then
  closed by force, which waits for the attempt.
\<close>

theorem connect_never_completes:
  assumes "session_reachable s" and "ss_control s = Control_connecting"
    and "lb_init txt c (ss_policy s) (ss_hosts s) (ss_store s) = Some (pol, st)"
    and "\<forall>(a, h) \<in> set (ss_hosts s). lb_distance txt st pol h = IGNORE"
    and "on_control_connection_ready txt c (s\<lparr>ss_control := Control_reported\<rparr>) = Some s'"
    and "session_steps s' t"
  shows "ss_connect_future t \<noteq> None \<and> ss_state t \<noteq> S_CONNECTED \<and> ss_state t \<noteq> S_CLOSED"
proof -
  let ?s = "s\<lparr>ss_control := Control_reported, ss_policy := pol, ss_store := st\<rparr>"
  have inv: "session_inv s" by (rule session_reachable_inv [OF assms(1)])
  then obtain f where f: "ss_connect_future s = Some f"
    using assms(2) by (cases "ss_connect_future s") (auto simp: session_inv_def attempt_inv_def)
  have "stuck f ?s"
    using inv f assms(2)
    by (cases "ss_state s") (auto simp: session_inv_def attempt_inv_def phase_inv_def stuck_def closing_phases_def)
  moreover have "life s' = life ?s"
    using ignored_add [of "ss_hosts s" "txt" ?s] assms(3-5) by (auto simp: on_control_connection_ready_def)
  ultimately have "stuck f s'" by (simp add: stuck_same_life [of s' ?s])
  from stuck_steps [OF assms(6) this] show ?thesis by (auto simp: stuck_def)
qed

definition demo_local_policy :: lb_policy where
  "demo_local_policy = new_dc_aware ''dc9'' 0 True"

definition demo_waiting :: session where
  "demo_waiting = the (on_connect_event [Inl (Inet 1 9042)]
     ((connect_async demo_local_policy 1 [] 7 True True session_new)\<lparr>ss_connect_event := False\<rparr>))"

lemmas demo_connect_defs = connect_async_def session_new_def session_init_def session_clear_def
  on_connect_event_def internal_connect_def session_add_host_def

lemma demo_waiting_reachable: "session_reachable demo_waiting"
proof -
  let ?c = "connect_async demo_local_policy 1 [] 7 True True session_new"
  have "session_step session_new (Some ?c)"
    by (rule Connect_call) (simp_all add: new_future_def session_new_def)
  with New have c: "session_reachable ?c" by (rule Step)
  have "ss_connect_event ?c" by code_simp
  then have "session_step ?c (on_connect_event [Inl (Inet 1 9042)] (?c\<lparr>ss_connect_event := False\<rparr>))"
    by (rule Connect_event)
  moreover have "on_connect_event [Inl (Inet 1 9042)] (?c\<lparr>ss_connect_event := False\<rparr>) = Some demo_waiting"
    by (simp add: demo_waiting_def demo_connect_defs Let_def)
  ultimately show ?thesis using c Step by metis
qed

lemma demo_waiting_facts:
  "ss_control demo_waiting = Control_connecting" "ss_hosts demo_waiting = [(Inet 1 9042, 0)]"
  "ss_policy demo_waiting = demo_local_policy" "dc (ss_store demo_waiting 0) = []"
  by (simp_all add: demo_waiting_def demo_connect_defs Let_def new_host_def)

definition demo_ignoring :: lb_policy where
  "demo_ignoring = DC_Aware \<lparr>local_dc = ''dc9'', used_hosts_per_remote_dc = 0,
     skip_remote_dcs_for_local_cl = True, local_dc_live_hosts = [],
     per_remote_dc_live_hosts = [([], [0])], dc_index = 0\<rparr>"

theorem connect_never_completes_witness:
  "ss_connect_future (the (on_control_connection_ready (\<lambda>a. []) None (demo_waiting\<lparr>ss_control := Control_reported\<rparr>))) \<noteq> None \<and>
   ss_state (the (on_control_connection_ready (\<lambda>a. []) None (demo_waiting\<lparr>ss_control := Control_reported\<rparr>))) \<noteq> S_CONNECTED \<and>
   ss_state (the (on_control_connection_ready (\<lambda>a. []) None (demo_waiting\<lparr>ss_control := Control_reported\<rparr>))) \<noteq> S_CLOSED"
proof (rule connect_never_completes [OF demo_waiting_reachable demo_waiting_facts(1)])
  show i: "lb_init (\<lambda>a. []) None (ss_policy demo_waiting) (ss_hosts demo_waiting) (ss_store demo_waiting) =
      Some (demo_ignoring, ss_store demo_waiting)"
    by (simp add: demo_waiting_facts demo_local_policy_def new_dc_aware_def demo_ignoring_def dc_init_def
        dc_on_add_def add_host_to_dc_def map_insert_new_def map_find_def)
  show "\<forall>(a, h) \<in> set (ss_hosts demo_waiting). lb_distance (\<lambda>a. []) (ss_store demo_waiting) demo_ignoring h = IGNORE"
    by (simp add: demo_waiting_facts demo_ignoring_def dc_distance_def)
  show "on_control_connection_ready (\<lambda>a. []) None (demo_waiting\<lparr>ss_control := Control_reported\<rparr>) =
      Some (the (on_control_connection_ready (\<lambda>a. []) None (demo_waiting\<lparr>ss_control := Control_reported\<rparr>)))"
    using i by (simp add: on_control_connection_ready_def)
qed (rule Steps_refl)

section \<open>Hosts of remote data centers\<close>

lemma removed_is_ignored:
  assumes "base_policy pol = DC_Aware d" and "local_dc d \<noteq> []" and "dc (st h) \<noteq> local_dc d"
    and "map_inv (per_remote_dc_live_hosts d)" and "proper_hosts st"
    and "distinct_hosts st (get_hosts (per_remote_dc_live_hosts d) (dc (st h)))"
  shows "lb_distance txt st (lb_on_remove txt h pol st) h = IGNORE"
  using assms(1)
proof (induction pol)
  case (DC_Aware d')
  then have d: "d' = d" by simp
  have "\<not> same_address st r h" if "r \<in> set (get_hosts (remove_host_from_dc st (dc (st h)) h (per_remote_dc_live_hosts d)) (dc (st h)))" for r
  proof (cases "map_find (per_remote_dc_live_hosts d) (dc (st h))")
    case None
    then show ?thesis using that by (simp add: remove_host_from_dc_def get_hosts_def map_get_def)
  next
    case (Some hosts)
    then have "r \<in> set (remove_host st h hosts)" and "distinct_hosts st hosts"
      using that assms(4,6) by (simp_all add: remove_host_from_dc_def get_hosts_def map_get_def map_find_assign)
    then show ?thesis by (simp add: set_remove_host [OF assms(5)])
  qed
  then show ?case
    using assms(2,3) by (auto simp: d dc_on_remove_def dc_distance_def dest: in_set_takeD)
qed simp_all

text \<open>
  A host of a remote data center that goes down never comes back: from then on the policy
  ignores it, so that when it is up again the session neither tells the policy nor gives it
  pools.
\<close>

theorem remote_host_never_returns:
  assumes "base_policy (ss_policy s) = DC_Aware d" and "local_dc d \<noteq> []" and "dc (ss_store s h) \<noteq> local_dc d"
    and "map_inv (per_remote_dc_live_hosts d)" and "proper_hosts (ss_store s)"
    and "distinct_hosts (ss_store s) (get_hosts (per_remote_dc_live_hosts d) (dc (ss_store s h)))"
  shows "session_on_up txt h (session_on_down txt h s) = store_set_up h (session_on_down txt h s)"
proof -
  let ?st = "(ss_store s)(h := set_down (ss_store s h))"
  have e: "address (?st x) = address (ss_store s x)" "dc (?st x) = dc (ss_store s x)" for x
    by (simp_all add: set_down_def)
  have "lb_distance txt ?st (lb_on_remove txt h (ss_policy s) ?st) h = IGNORE"
    using assms
    by (intro removed_is_ignored) (simp_all add: proper_hosts_def distinct_hosts_def e del: fun_upd_apply)
  then have "lb_distance txt (ss_store (session_on_down txt h s)) (ss_policy (session_on_down txt h s)) h = IGNORE"
    by (simp add: session_on_down_def all_workers_def Let_def)
  then show ?thesis
    by (simp add: session_on_up_def host_distance_of_def store_set_up_def distance_set_up)
qed

definition demo_remote :: session where
  "demo_remote = demo_connected\<lparr>ss_policy := Token_Aware (DC_Aware (demo_dc\<lparr>used_hosts_per_remote_dc := 2\<rparr>)) 0,
     ss_store := demo_cluster\<rparr>"

theorem remote_host_never_returns_witness:
  "session_on_up (\<lambda>a. []) 3 (session_on_down (\<lambda>a. []) 3 demo_remote) =
   store_set_up 3 (session_on_down (\<lambda>a. []) 3 demo_remote)"
  by (rule remote_host_never_returns [where d = "demo_dc\<lparr>used_hosts_per_remote_dc := 2\<rparr>"])
    (simp_all add: demo_remote_def demo_dc_def demo_cluster_def new_host_def map_inv_def
      proper_demo_cluster [unfolded proper_hosts_def] proper_hosts_def get_hosts_def map_get_def map_find_def
      distinct_hosts_def host_part_def proper_address_def)

section \<open>Dispatch\<close>

lemma scan_workers_spec:
  "0 < nw \<Longrightarrow>
   (case scan_workers accepts nw start n of
      Some (w, e) \<Rightarrow> accepts w \<and> w < nw \<and> (\<exists>k < n. w = (start + k) mod nw \<and>
                       (\<forall>j < k. \<not> accepts ((start + j) mod nw)) \<and> e = (w + 1) mod nw)
    | None \<Rightarrow> \<forall>j < n. \<not> accepts ((start + j) mod nw))"
proof (induction accepts nw start n rule: scan_workers.induct)
  case (2 accepts nw start n)
  show ?case
  proof (cases "accepts (start mod nw)")
    case True
    then show ?thesis using 2 by (auto simp: mod_Suc_eq intro!: exI [of _ 0])
  next
    case False
    then have IH: "case scan_workers accepts nw (start + 1) n of
        Some (w, e) \<Rightarrow> accepts w \<and> w < nw \<and> (\<exists>k < n. w = (start + 1 + k) mod nw \<and>
                       (\<forall>j < k. \<not> accepts ((start + 1 + j) mod nw)) \<and> e = (w + 1) mod nw)
      | None \<Rightarrow> \<forall>j < n. \<not> accepts ((start + 1 + j) mod nw)"
      using 2 by blast
    have shift: "(\<forall>j < Suc k. \<not> accepts ((start + j) mod nw)) \<longleftrightarrow>
        (\<forall>j < k. \<not> accepts ((start + 1 + j) mod nw))" for k
      using False by (auto simp: less_Suc_eq_0_disj)
    show ?thesis
    proof (cases "scan_workers accepts nw (start + 1) n")
      case None
      then show ?thesis using IH False shift by simp
    next
      case (Some p)
      then obtain w e k where p: "p = (w, e)" "accepts w" "w < nw" "k < n" "w = (start + 1 + k) mod nw"
        "\<forall>j < k. \<not> accepts ((start + 1 + j) mod nw)" "e = (w + 1) mod nw"
        using IH by (cases p) auto
      then have "\<exists>k < Suc n. w = (start + k) mod nw \<and> (\<forall>j < k. \<not> accepts ((start + j) mod nw)) \<and> e = (w + 1) mod nw"
        using shift [of k] by (intro exI [of _ "Suc k"]) simp
      then show ?thesis using Some False p(1-3) by simp
    qed
  qed
qed simp

lemma all_workers_mod:
  assumes "w < (nw :: nat)"
  shows "\<exists>j < nw. w = (start + j) mod nw"
proof (intro exI conjI)
  let ?d = "w + (nw - start mod nw)"
  show "?d mod nw < nw" using assms by simp
  have "(start + ?d mod nw) mod nw = (start mod nw + ?d) mod nw" by (simp only: mod_simps)
  also have "start mod nw + ?d = w + nw"
    using assms mod_less_divisor [of nw start] by linarith
  finally show "w = (start + ?d mod nw) mod nw" using assms by simp
qed

lemma scan_workers_None:
  assumes "0 < nw"
  shows "scan_workers accepts nw start nw = None \<longleftrightarrow> (\<forall>w < nw. \<not> accepts w)"
proof (cases "scan_workers accepts nw start nw")
  case None
  note spec = scan_workers_spec [OF assms, where accepts = accepts and start = start and n = nw, unfolded None option.case]
  have "\<not> accepts w" if "w < nw" for w
    using all_workers_mod [OF that, of start] spec by blast
  then show ?thesis using None by simp
next
  case (Some p)
  obtain w e where p: "p = (w, e)" by force
  note spec = scan_workers_spec [OF assms, where accepts = accepts and start = start and n = nw,
      unfolded Some p option.case prod.case]
  then show ?thesis unfolding Some by blast
qed

text \<open>A request goes to the first host of its plan that some worker takes it for.\<close>

lemma dispatch_spec:
  assumes "0 < ss_workers s"
  shows "if \<exists>a \<in> set plan. \<exists>w < ss_workers s. accepts w a
         then \<exists>a before after w. plan = before @ a # after \<and> w < ss_workers s \<and> accepts w a \<and>
                (\<forall>b \<in> set before. \<forall>v < ss_workers s. \<not> accepts v b) \<and>
                ss_effects (dispatch accepts r plan s) = ss_effects s @ [Execute_on w r]
         else ss_effects (dispatch accepts r plan s) = ss_effects s @ [Request_error r LIB_NO_HOSTS]"
proof (induction plan)
  case (Cons a plan)
  let ?f = "\<lambda>w. accepts w a"
  show ?case
  proof (cases "scan_workers ?f (ss_workers s) (ss_current_io_worker s) (ss_workers s)")
    case None
    then have no: "\<forall>w < ss_workers s. \<not> accepts w a"
      using scan_workers_None [OF assms, of ?f] by blast
    then have e: "(\<exists>b \<in> set (a # plan). \<exists>w < ss_workers s. accepts w b) \<longleftrightarrow>
        (\<exists>b \<in> set plan. \<exists>w < ss_workers s. accepts w b)" by auto
    show ?thesis
    proof (cases "\<exists>b \<in> set plan. \<exists>w < ss_workers s. accepts w b")
      case True
      then obtain b before after w where "plan = before @ b # after" "w < ss_workers s" "accepts w b"
        "\<forall>c \<in> set before. \<forall>v < ss_workers s. \<not> accepts v c"
        "ss_effects (dispatch accepts r plan s) = ss_effects s @ [Execute_on w r]"
        using Cons by auto
      then have "a # plan = (a # before) @ b # after \<and> w < ss_workers s \<and> accepts w b \<and>
          (\<forall>c \<in> set (a # before). \<forall>v < ss_workers s. \<not> accepts v c) \<and>
          ss_effects (dispatch accepts r (a # plan) s) = ss_effects s @ [Execute_on w r]"
        using None no by simp
      then show ?thesis unfolding e if_P [OF True] by blast
    next
      case False
      then show ?thesis
        using Cons [unfolded if_not_P [OF False]] None unfolding e if_not_P [OF False] by simp
    qed
  next
    case (Some p)
    then obtain w k where p: "p = (w, k)" "accepts w a" "w < ss_workers s"
      using scan_workers_spec [OF assms, where accepts = ?f and start = "ss_current_io_worker s" and n = "ss_workers s"] by (cases p) auto
    then have "\<exists>b \<in> set (a # plan). \<exists>v < ss_workers s. accepts v b" by auto
    moreover have "a # plan = [] @ a # plan \<and> w < ss_workers s \<and> accepts w a \<and>
        (\<forall>b \<in> set []. \<forall>v < ss_workers s. \<not> accepts v b) \<and>
        ss_effects (dispatch accepts r (a # plan) s) = ss_effects s @ [Execute_on w r]"
      using Some p by simp
    ultimately show ?thesis by (simp only: if_True) blast
  qed
qed simp

end
