(* ===== verification/Pool.thy ===== *)
theory Pool
  imports Connection "HOL-Library.Multiset"
begin

text \<open>
  \<open>pool.hpp\<close> and \<open>pool.cpp\<close>: the connections of an I/O worker to one host. The connections are
  those of theory \<open>Connection\<close>, which tell the pool their events; the calls of the pool to its
  worker and to requests are recorded in order. \<open>None\<close> is a failed assertion of the pool or of a
  connection. Log lines and metrics are not modelled.
\<close>

section \<open>State\<close>

datatype pool_state =
    POOL_STATE_NEW | POOL_STATE_CONNECTING | POOL_STATE_WAITING_TO_CONNECT | POOL_STATE_READY
  | POOL_STATE_CLOSING | POOL_STATE_CLOSED

text \<open>The callback of the connect timer while it runs.\<close>

datatype pool_callback = On_wait_to_connect | On_partial_reconnect

text \<open>
  The calls to the worker and to the requests; a ready notification comes with what
  \<open>is_ready\<close> answers then. A request is written or the keyspace is set first.
\<close>

datatype pool_call =
    Set_host_is_available bool
  | Notify_pool_ready bool
  | Notify_pool_closed
  | Add_pending_flush
  | Start_request_timer nat
  | Stop_request_timer nat
  | Write_request nat nat
  | Write_keyspace nat nat
  | Next_host_and_retry nat

text \<open>
  Connections are numbered in the order they are allocated, and the set of the pending ones
  is a list in the order of its insertions.
\<close>

record pool =
  p_state :: pool_state
  p_connections :: "nat list"
  p_pending :: "nat list"
  p_store :: "nat \<Rightarrow> connection option"
  p_allocated :: nat
  p_requests :: "nat list"
  p_available_count :: int
  p_is_available :: bool
  p_is_initial :: bool
  p_is_critical :: bool
  p_is_pending_flush :: bool
  p_cancel_reconnect :: bool
  p_connect_timer :: "pool_callback option"
  p_calls :: "pool_call list"

text \<open>The configuration the pool reads, and the keyspace and protocol version of its worker.\<close>

record pool_config =
  pc_core_connections :: nat
  pc_max_connections :: nat
  pc_max_creation :: nat
  pc_max_requests :: nat
  pc_high_water_mark :: nat
  pc_low_water_mark :: nat
  pc_connection :: connection_config
  pc_keyspace :: bytes
  pc_protocol_version :: int

definition pool_new :: "bool \<Rightarrow> pool" where
  "pool_new is_initial =
     \<lparr>p_state = POOL_STATE_NEW, p_connections = [], p_pending = [], p_store = (\<lambda>i. None), p_allocated = 0,
      p_requests = [], p_available_count = 0, p_is_available = False, p_is_initial = is_initial,
      p_is_critical = False, p_is_pending_flush = False, p_cancel_reconnect = False,
      p_connect_timer = None, p_calls = []\<rparr>"

definition pool_calls :: "pool_call \<Rightarrow> pool \<Rightarrow> pool" where
  "pool_calls x p = p\<lparr>p_calls := p_calls p @ [x]\<rparr>"

definition store_connection :: "nat \<Rightarrow> connection \<Rightarrow> pool \<Rightarrow> pool" where
  "store_connection i c p = p\<lparr>p_store := (p_store p)(i := Some c)\<rparr>"

definition pool_is_ready :: "pool \<Rightarrow> bool" where
  "pool_is_ready p \<longleftrightarrow> p_state p = POOL_STATE_READY"

section \<open>Availability\<close>

definition set_is_available :: "pool_config \<Rightarrow> bool \<Rightarrow> pool \<Rightarrow> pool" where
  "set_is_available cf is_available p =
     (if is_available then
        if \<not> p_is_available p \<and> p_available_count p > 0 \<and> length (p_requests p) < pc_low_water_mark cf
        then (pool_calls (Set_host_is_available True) p)\<lparr>p_is_available := True\<rparr>
        else p
      else if p_is_available p then (pool_calls (Set_host_is_available False) p)\<lparr>p_is_available := False\<rparr>
      else p)"

definition on_availability_change :: "pool_config \<Rightarrow> bool \<Rightarrow> pool \<Rightarrow> pool option" where
  "on_availability_change cf is_available p =
     (if is_available then
        Some (set_is_available cf True (p\<lparr>p_available_count := p_available_count p + 1\<rparr>))
      else
        let p = p\<lparr>p_available_count := p_available_count p - 1\<rparr>
        in if p_available_count p < 0 then None
           else Some (if p_available_count p = 0 then set_is_available cf False p else p))"

text \<open>
  What a connection told during one of its operations, without a ready notification. The
  answer of the pool does not depend on where in the operation it is told.
\<close>

fun hear :: "pool_config \<Rightarrow> connection_event list \<Rightarrow> pool \<Rightarrow> pool option" where
  "hear cf [] p = Some p"
| "hear cf (Availability_change b # es) p = on_availability_change cf b p \<bind> hear cf es"
| "hear cf (e # es) p = hear cf es p"

text \<open>An operation on a connection that does not make it ready.\<close>

definition news :: "connection \<Rightarrow> connection \<Rightarrow> connection_event list" where
  "news c c' = drop (length (c_events c)) (c_events c')"

definition update_connection ::
    "pool_config \<Rightarrow> nat \<Rightarrow> (connection \<Rightarrow> connection option) \<Rightarrow> pool \<Rightarrow> pool option" where
  "update_connection cf i f p =
     do { c \<leftarrow> p_store p i; c' \<leftarrow> f c; hear cf (news c c') (store_connection i c' p) }"

section \<open>Opening and closing\<close>

definition maybe_notify_ready :: "pool \<Rightarrow> pool" where
  "maybe_notify_ready p =
     (if p_state p = POOL_STATE_CONNECTING \<and> p_pending p = []
      then pool_calls (Notify_pool_ready True) (p\<lparr>p_state := POOL_STATE_READY\<rparr>) else p)"

definition maybe_close :: "pool \<Rightarrow> pool" where
  "maybe_close p =
     (if p_state p = POOL_STATE_CLOSING \<and> p_connections p = [] \<and> p_pending p = []
      then pool_calls Notify_pool_closed (p\<lparr>p_state := POOL_STATE_CLOSED\<rparr>) else p)"

definition spawn_connection :: "pool_config \<Rightarrow> pool \<Rightarrow> pool option" where
  "spawn_connection cf p =
     (if p_state p \<noteq> POOL_STATE_CLOSING \<and> p_state p \<noteq> POOL_STATE_CLOSED then
        do { c \<leftarrow> connect (connection_init (pc_keyspace cf) (pc_protocol_version cf) 0);
             Some ((store_connection (p_allocated p) c p)
               \<lparr>p_pending := p_pending p @ [p_allocated p], p_allocated := p_allocated p + 1\<rparr>) }
      else Some p)"

definition maybe_spawn_connection :: "pool_config \<Rightarrow> pool \<Rightarrow> pool option" where
  "maybe_spawn_connection cf p =
     (if length (p_pending p) \<ge> pc_max_creation cf then Some p
      else if length (p_connections p) + length (p_pending p) \<ge> pc_max_connections cf then Some p
      else if p_state p \<noteq> POOL_STATE_READY then Some p
      else spawn_connection cf p)"

fun repeat :: "nat \<Rightarrow> ('a \<Rightarrow> 'a option) \<Rightarrow> 'a \<Rightarrow> 'a option" where
  "repeat 0 f x = Some x"
| "repeat (Suc n) f x = f x \<bind> repeat n f"

definition pool_connect :: "pool_config \<Rightarrow> pool \<Rightarrow> pool option" where
  "pool_connect cf p =
     (if p_state p = POOL_STATE_NEW \<or> p_state p = POOL_STATE_WAITING_TO_CONNECT then
        do { p \<leftarrow> repeat (pc_core_connections cf) (spawn_connection cf) (p\<lparr>p_connect_timer := None\<rparr>);
             Some (maybe_notify_ready (p\<lparr>p_state := POOL_STATE_CONNECTING\<rparr>)) }
      else Some p)"

definition delayed_connect :: "pool \<Rightarrow> pool" where
  "delayed_connect p =
     (if p_state p = POOL_STATE_NEW
      then p\<lparr>p_state := POOL_STATE_WAITING_TO_CONNECT, p_connect_timer := Some On_wait_to_connect\<rparr> else p)"

fun close_all :: "pool_config \<Rightarrow> nat list \<Rightarrow> pool \<Rightarrow> pool option" where
  "close_all cf [] p = Some p"
| "close_all cf (i # is) p = update_connection cf i connection_close p \<bind> close_all cf is"

definition start_closing :: "pool \<Rightarrow> pool" where
  "start_closing p =
     (let p = p\<lparr>p_connect_timer := None\<rparr>
      in if p_state p = POOL_STATE_CONNECTING
         then pool_calls (Notify_pool_ready False) (p\<lparr>p_state := POOL_STATE_CLOSING\<rparr>)
         else p\<lparr>p_state := POOL_STATE_CLOSING\<rparr>)"

definition pool_close :: "pool_config \<Rightarrow> bool \<Rightarrow> pool \<Rightarrow> pool option" where
  "pool_close cf cancel_reconnect p =
     do { p \<leftarrow> (if p_state p \<noteq> POOL_STATE_CLOSING \<and> p_state p \<noteq> POOL_STATE_CLOSED then
                 let p = (set_is_available cf False (start_closing p))\<lparr>p_cancel_reconnect := cancel_reconnect\<rparr>
                 in close_all cf (p_connections p @ p_pending p) p
               else Some p);
          Some (maybe_close p) }"

section \<open>Requests\<close>

text \<open>
  The answer of the write of a connection: no stream id, a request that does not encode, or
  the number of its bytes.
\<close>

datatype write_answer = No_stream_id | Does_not_encode | Encodes nat

definition connection_write :: "connection_config \<Rightarrow> write_answer \<Rightarrow> connection \<Rightarrow> connection option" where
  "connection_write cf w c =
     (case w of
        No_stream_id \<Rightarrow> Some c
      | Does_not_encode \<Rightarrow> Some (internal_write_unencodable c)
      | Encodes n \<Rightarrow> internal_write cf False True n c)"

definition pool_write :: "pool_config \<Rightarrow> nat \<Rightarrow> nat \<Rightarrow> write_answer \<Rightarrow> pool \<Rightarrow> (bool \<times> pool) option" where
  "pool_write cf i r w p =
     do { c \<leftarrow> p_store p i;
          p \<leftarrow> update_connection cf i (connection_write (pc_connection cf) w) p;
          Some (if w = No_stream_id then (False, p)
                else
                  let p = pool_calls (if pc_keyspace cf = c_keyspace c then Write_request i r else Write_keyspace i r) p;
                      p = (if \<not> p_is_pending_flush p then pool_calls Add_pending_flush p else p)
                  in (True, p\<lparr>p_is_pending_flush := True\<rparr>)) }"

text \<open>\<open>flush\<close> goes over the connections that are not pending.\<close>

fun flush_all :: "pool_config \<Rightarrow> nat list \<Rightarrow> pool \<Rightarrow> pool option" where
  "flush_all cf [] p = Some p"
| "flush_all cf (i # is) p = update_connection cf i (\<lambda>c. Some (connection_flush c)) p \<bind> flush_all cf is"

definition pool_flush :: "pool_config \<Rightarrow> pool \<Rightarrow> pool option" where
  "pool_flush cf p = flush_all cf (p_connections p) (p\<lparr>p_is_pending_flush := False\<rparr>)"

definition add_pending_request :: "pool_config \<Rightarrow> nat \<Rightarrow> pool \<Rightarrow> pool" where
  "add_pending_request cf r p =
     (let p = p\<lparr>p_requests := p_requests p @ [r]\<rparr>
      in if length (p_requests p) > pc_high_water_mark cf then set_is_available cf False p else p)"

definition remove_pending_request :: "pool_config \<Rightarrow> nat \<Rightarrow> pool \<Rightarrow> pool" where
  "remove_pending_request cf r p = set_is_available cf True (p\<lparr>p_requests := remove1 r (p_requests p)\<rparr>)"

definition pool_return_connection :: "pool_config \<Rightarrow> nat \<Rightarrow> write_answer \<Rightarrow> pool \<Rightarrow> pool option" where
  "pool_return_connection cf i w p =
     do { c \<leftarrow> p_store p i;
          case p_requests p of
            [] \<Rightarrow> Some p
          | r # _ \<Rightarrow>
              if c_state c \<noteq> C_READY then Some p
              else do { (written, p) \<leftarrow> pool_write cf i r w (pool_calls (Stop_request_timer r) (remove_pending_request cf r p));
                        Some (if written then p else pool_calls (Next_host_and_retry r) p) } }"

text \<open>
  The counts of the streams of a connection are those of its stream manager;
  \<open>std::min_element\<close> answers the first of the least.
\<close>

fun min_element :: "(nat \<Rightarrow> nat) \<Rightarrow> nat \<Rightarrow> nat list \<Rightarrow> nat" where
  "min_element f i [] = i"
| "min_element f i (j # js) = (if f j < f i then min_element f j js else min_element f i js)"

definition find_least_busy :: "(nat \<Rightarrow> nat) \<Rightarrow> (nat \<Rightarrow> nat) \<Rightarrow> pool \<Rightarrow> nat option" where
  "find_least_busy pending_count available_streams p =
     (let i = min_element pending_count (hd (p_connections p)) (tl (p_connections p))
      in if map_option c_state (p_store p i) = Some C_READY \<and> available_streams i > 0 then Some i else None)"

definition borrow_connection ::
    "pool_config \<Rightarrow> (nat \<Rightarrow> nat) \<Rightarrow> (nat \<Rightarrow> nat) \<Rightarrow> pool \<Rightarrow> (nat option \<times> pool) option" where
  "borrow_connection cf pending_count available_streams p =
     (if p_connections p = [] then
        do { p \<leftarrow> repeat (pc_core_connections cf) (maybe_spawn_connection cf) p; Some (None, p) }
      else
        let borrowed = find_least_busy pending_count available_streams p
        in do { p \<leftarrow> (if (case borrowed of None \<Rightarrow> True | Some i \<Rightarrow> pending_count i \<ge> pc_max_requests cf)
                       then maybe_spawn_connection cf p else Some p);
                Some (borrowed, p) })"

definition wait_for_connection :: "pool_config \<Rightarrow> nat \<Rightarrow> pool \<Rightarrow> pool" where
  "wait_for_connection cf r p = add_pending_request cf r (pool_calls (Start_request_timer r) p)"

text \<open>The timer has stopped itself; no other part of the pool follows the retry.\<close>

definition on_pending_request_timeout :: "pool_config \<Rightarrow> nat \<Rightarrow> pool \<Rightarrow> pool" where
  "on_pending_request_timeout cf r p =
     maybe_close (pool_calls (Next_host_and_retry r) (remove_pending_request cf r p))"

fun pool_destroy :: "nat list \<Rightarrow> pool_call list" where
  "pool_destroy [] = []"
| "pool_destroy (r # rs) = Stop_request_timer r # Next_host_and_retry r # pool_destroy rs"

section \<open>What the connections tell\<close>

definition pool_on_ready :: "pool_config \<Rightarrow> nat \<Rightarrow> write_answer \<Rightarrow> pool \<Rightarrow> pool option" where
  "pool_on_ready cf i w p =
     do { p \<leftarrow> pool_return_connection cf i w
                 (p\<lparr>p_pending := filter (\<lambda>j. j \<noteq> i) (p_pending p), p_connections := p_connections p @ [i]\<rparr>);
          Some (maybe_notify_ready p) }"

text \<open>
  An operation of a connection, with what it tells. A ready notification is the last thing
  an operation tells.
\<close>

definition hear_ready ::
    "pool_config \<Rightarrow> nat \<Rightarrow> write_answer \<Rightarrow> connection_event list \<Rightarrow> pool \<Rightarrow> pool option" where
  "hear_ready cf i w es p =
     do { p \<leftarrow> hear cf es p; if Notify_ready \<in> set es then pool_on_ready cf i w p else Some p }"

definition pool_connection_op :: "pool_config \<Rightarrow> nat \<Rightarrow> connection_op \<Rightarrow> write_answer \<Rightarrow> pool \<Rightarrow> pool option" where
  "pool_connection_op cf i operation w p =
     do { c \<leftarrow> p_store p i; c' \<leftarrow> run_op (pc_connection cf) operation c;
          hear_ready cf i w (news c c') (store_connection i c' p) }"

definition is_critical_failure :: "connection \<Rightarrow> bool" where
  "is_critical_failure c \<longleftrightarrow> c_error c = ERROR_INVALID_PROTOCOL \<or> c_error c = ERROR_AUTH \<or> c_error c = ERROR_SSL"

definition pool_on_close :: "pool_config \<Rightarrow> nat \<Rightarrow> pool \<Rightarrow> pool option" where
  "pool_on_close cf i p =
     do { c \<leftarrow> p_store p i;
          let p = p\<lparr>p_pending := filter (\<lambda>j. j \<noteq> i) (p_pending p), p_connections := remove1 i (p_connections p),
                   p_store := (p_store p)(i := None)\<rparr>;
          if c_error c = ERROR_TIMEOUT \<and> p_connections p \<noteq> [] then
            Some (maybe_notify_ready
              (if p_connect_timer p = None then p\<lparr>p_connect_timer := Some On_partial_reconnect\<rparr> else p))
          else if c_state c = C_CLOSE_DEFUNCT then
            pool_close cf False (p\<lparr>p_is_critical := p_is_critical p \<or> is_critical_failure c\<rparr>)
          else Some (maybe_close (maybe_notify_ready p)) }"

definition on_partial_reconnect :: "pool_config \<Rightarrow> pool \<Rightarrow> pool option" where
  "on_partial_reconnect cf p =
     (let p = p\<lparr>p_connect_timer := None\<rparr>;
          current = length (p_connections p) + length (p_pending p);
          want = pc_core_connections cf
      in if current < want then repeat (want - current) (spawn_connection cf) p else Some p)"

definition on_wait_to_connect :: "pool_config \<Rightarrow> pool \<Rightarrow> pool option" where
  "on_wait_to_connect cf p = pool_connect cf (p\<lparr>p_connect_timer := None\<rparr>)"

section \<open>Counting what is available\<close>

text \<open>
  A listener that counts what is available, up for each gain and down for each loss, and fails
  below zero; and what one source tells when it only tells changes.
\<close>

fun counter :: "bool list \<Rightarrow> int \<Rightarrow> int option" where
  "counter [] n = Some n"
| "counter (b # bs) n = (if b then counter bs (n + 1) else if n - 1 < 0 then None else counter bs (n - 1))"

fun follow :: "bool \<Rightarrow> bool list \<Rightarrow> bool option" where
  "follow b [] = Some b"
| "follow b (b' # bs) = (if b' = b then None else follow b' bs)"

lemma follow_append: "follow b (xs @ ys) = follow b xs \<bind> (\<lambda>b. follow b ys)"
  by (induction xs arbitrary: b) simp_all

lemma follow_last: "follow b bs = Some b' \<Longrightarrow> (if bs = [] then b else last bs) = b'"
  by (induction bs arbitrary: b) (force split: if_splits)+

lemma counter_follow:
  "follow b bs = Some b' \<Longrightarrow> of_bool b \<le> n \<Longrightarrow> counter bs n = Some (n - of_bool b + of_bool b')"
  by (induction bs arbitrary: b n) (auto split: if_splits)

definition number :: "('c \<Rightarrow> bool) \<Rightarrow> (nat \<Rightarrow> 'c option) \<Rightarrow> nat" where
  "number P s = card {i \<in> dom s. P (the (s i))}"

lemma number_update:
  assumes "finite (dom s)" and "s i = Some c"
  shows "int (number P (s(i := Some c'))) = int (number P s) - of_bool (P c) + of_bool (P c')"
    and "of_bool (P c) \<le> int (number P s)"
    and "int (number P (s(i := None))) = int (number P s) - of_bool (P c)"
proof -
  define A where "A = {j \<in> dom s. P (the (s j)) \<and> j \<noteq> i}"
  have fin: "finite A" "i \<notin> A" using assms(1) by (auto simp: A_def)
  have *: "{j \<in> dom s. P (the (s j))} = (if P c then insert i A else A)"
    "{j \<in> dom (s(i := Some c')). P (the ((s(i := Some c')) j))} = (if P c' then insert i A else A)"
    "{j \<in> dom (s(i := None)). P (the ((s(i := None)) j))} = A"
    using assms(2) by (auto simp: A_def split: if_splits)
  show "int (number P (s(i := Some c'))) = int (number P s) - of_bool (P c) + of_bool (P c')"
    and "of_bool (P c) \<le> int (number P s)"
    and "int (number P (s(i := None))) = int (number P s) - of_bool (P c)"
    unfolding number_def * using fin by simp_all
qed

lemma number_fresh: "finite (dom s) \<Longrightarrow> s i = None \<Longrightarrow> \<not> P c \<Longrightarrow> number P (s(i := Some c)) = number P s"
  unfolding number_def by (rule arg_cong [where f = card]) (auto split: if_splits)

text \<open>What the connections of a pool promise to it, and what follows for its count.\<close>

locale availability_source =
  fixes available :: "'c \<Rightarrow> bool"
    and step :: "'c \<Rightarrow> 'c \<Rightarrow> bool"
    and told :: "'c \<Rightarrow> 'c \<Rightarrow> bool list"
  assumes tells_changes: "step c c' \<Longrightarrow> follow (available c) (told c c') = Some (available c')"
begin

lemma counts:
  assumes "finite (dom s)" and "s i = Some c" and "step c c'"
  shows "counter (told c c') (int (number available s)) = Some (int (number available (s(i := Some c'))))"
  unfolding number_update(1) [OF assms(1,2)]
  by (rule counter_follow [OF tells_changes [OF assms(3)]]) (rule number_update(2) [OF assms(1,2)])

lemma told_last: "step c c' \<Longrightarrow> (if told c c' = [] then available c else last (told c c')) = available c'"
  by (rule follow_last [OF tells_changes])

end

section \<open>What a connection promises\<close>

definition changes :: "connection_event list \<Rightarrow> bool list" where
  "changes es = concat (map (\<lambda>e. case e of Availability_change b \<Rightarrow> [b] | _ \<Rightarrow> []) es)"

definition connection_available :: "connection \<Rightarrow> bool" where
  "connection_available c \<longleftrightarrow> c_state c = C_READY"

lemma changes_simps [simp]:
  "changes [] = []" "changes (Availability_change b # es) = b # changes es"
  "changes (Notify_ready # es) = changes es" "changes (Uv_close # es) = changes es"
  "changes (Sent r # es) = changes es" "changes (Heartbeat_sent # es) = changes es"
  "changes (es @ es') = changes es @ changes es'"
  by (simp_all add: changes_def)

text \<open>
  Steps of a connection: what is told is appended, changes of the availability are told and
  nothing else is; closing is final. An operation ends with at most one ready notification.
\<close>

definition quiet :: "connection \<Rightarrow> connection \<Rightarrow> bool" where
  "quiet c c' \<longleftrightarrow>
     (\<exists>es. c_events c' = c_events c @ es \<and> Notify_ready \<notin> set es \<and>
           follow (connection_available c) (changes es) = Some (connection_available c')) \<and>
     (is_closing c \<longrightarrow> is_closing c')"

definition advances :: "connection \<Rightarrow> connection \<Rightarrow> bool" where
  "advances c c' \<longleftrightarrow> quiet c c' \<or> (\<exists>d. quiet c d \<and> connection_available d \<and> c' = tell Notify_ready d)"

lemma quiet_same:
  "c_events c' = c_events c \<Longrightarrow> c_state c' = c_state c \<Longrightarrow> quiet c c'"
  by (simp add: quiet_def connection_available_def is_closing_def)

lemma quiet_trans:
  assumes "quiet c c'" and "quiet c' c''" shows "quiet c c''"
proof -
  obtain es where "c_events c' = c_events c @ es" "Notify_ready \<notin> set es"
    "follow (connection_available c) (changes es) = Some (connection_available c')"
    using assms(1) by (auto simp: quiet_def)
  moreover obtain es' where "c_events c'' = c_events c' @ es'" "Notify_ready \<notin> set es'"
    "follow (connection_available c') (changes es') = Some (connection_available c'')"
    using assms(2) by (auto simp: quiet_def)
  ultimately show ?thesis using assms by (auto simp: quiet_def follow_append intro!: exI [of _ "es @ es'"])
qed

lemma quiet_after: "quiet c c' \<Longrightarrow> c_events c'' = c_events c' \<Longrightarrow> c_state c'' = c_state c' \<Longrightarrow> quiet c c''"
  by (rule quiet_trans [OF _ quiet_same])

lemma quiet_tell:
  "quiet c c' \<Longrightarrow> e \<noteq> Notify_ready \<Longrightarrow> (\<And>b. e \<noteq> Availability_change b) \<Longrightarrow> quiet c (tell e c')"
  by (rule quiet_trans [of c c'], assumption, cases e)
    (auto simp: quiet_def tell_def connection_available_def is_closing_def)

lemma quiet_set_state: "connection_set_state s c = Some c' \<Longrightarrow> quiet c c'"
  by (cases "c_state c") (auto simp: connection_set_state_def Let_def quiet_def tell_def connection_available_def
      is_closing_def split: if_splits)

lemma quiet_internal_close:
  assumes "internal_close s c = Some c'" shows "quiet c c'"
proof (cases "is_closing c \<or> c_uv_closing c")
  case True
  then show ?thesis using assms by (auto simp: internal_close_def intro: quiet_same split: if_splits)
next
  case False
  then obtain d where d: "connection_set_state s (c\<lparr>c_heartbeat_timer := False, c_connect_timer := False\<rparr>) = Some d"
    "c' = tell Uv_close (d\<lparr>c_uv_closing := True\<rparr>)"
    using assms by (auto simp: internal_close_def split: option.splits)
  have "quiet c d" by (rule quiet_trans [OF quiet_same quiet_set_state [OF d(1)]]) simp_all
  then have "quiet c (d\<lparr>c_uv_closing := True\<rparr>)" by (rule quiet_after) simp_all
  then show ?thesis unfolding d(2) by (rule quiet_tell) simp_all
qed

lemma quiet_notify_error:
  assumes "notify_error e c = Some c'" shows "quiet c c'"
proof -
  have "quiet (c\<lparr>c_error := e\<rparr>) c'"
    using assms by (auto simp: notify_error_def defunct_def Let_def bind_eq_Some_conv split: if_splits
        intro: quiet_internal_close quiet_trans)
  moreover have "quiet c (c\<lparr>c_error := e\<rparr>)" by (rule quiet_same) simp_all
  ultimately show ?thesis using quiet_trans by blast
qed

lemma quiet_internal_write:
  assumes "internal_write cf now_flush reset n c = Some c'" shows "quiet c c'"
proof -
  define c0 where "c0 = c\<lparr>c_writes := add_to_writes n (c_writes c), c_writes_size := c_writes_size c + n\<rparr>"
  obtain c1 where c1: "(if c_writes_size c0 > cf_high_water_mark cf then connection_set_state C_OVERWHELMED c0 else Some c0) = Some c1"
    and c': "c_events c' = c_events c1" "c_state c' = c_state c1"
    using assms by (auto simp: internal_write_def Let_def c0_def [symmetric] bind_eq_Some_conv connection_flush_def
        restart_heartbeat_timer_def)
  have "quiet c c0" by (rule quiet_same) (simp_all add: c0_def)
  moreover have "quiet c0 c1" using c1 by (auto split: if_splits intro: quiet_set_state quiet_same)
  ultimately have "quiet c c1" by (rule quiet_trans)
  then show ?thesis using c' by (rule quiet_after)
qed

lemma quiet_on_write:
  assumes "on_write cf c = Some c'" shows "quiet c c'"
proof -
  obtain f n ws where ws: "c_writes c = (f, n) # ws" using assms by (auto simp: on_write_def split: list.splits)
  define c0 where "c0 = c\<lparr>c_writes_size := c_writes_size c - n\<rparr>"
  define result where "result = (if c_writes_size c0 < cf_low_water_mark cf \<and> c_state c0 = C_OVERWHELMED
      then connection_set_state C_READY c0 else Some c0)"
  have "on_write cf c = result \<bind> (\<lambda>c. Some (connection_flush (c\<lparr>c_writes := ws\<rparr>)))"
    by (simp add: on_write_def ws result_def c0_def Let_def)
  then obtain c1 where c1: "result = Some c1" and c': "c_events c' = c_events c1" "c_state c' = c_state c1"
    using assms by (cases result) (auto simp: connection_flush_def)
  have "quiet c c0" by (rule quiet_same) (simp_all add: c0_def)
  moreover have "quiet c0 c1" using c1 by (auto simp: result_def split: if_splits intro: quiet_set_state quiet_same)
  ultimately have "quiet c c1" by (rule quiet_trans)
  then show ?thesis using c' by (rule quiet_after)
qed

lemma quiet_send_startup:
  assumes "send_startup cf r n c = Some c'" shows "quiet c c'"
proof -
  obtain d where "internal_write cf True True n c = Some d" "c' = tell (Sent r) d"
    using assms by (auto simp: send_startup_def bind_eq_Some_conv)
  then show ?thesis using quiet_tell [OF quiet_internal_write] by blast
qed

lemma advances_notify_ready:
  assumes "notify_ready cf c = Some c'" shows "advances c c'"
proof -
  obtain d where d: "connection_set_state C_READY (restart_heartbeat_timer cf (c\<lparr>c_connect_timer := False\<rparr>)) = Some d"
    "c' = tell Notify_ready d"
    using assms by (auto simp: notify_ready_def bind_eq_Some_conv)
  have "quiet c (restart_heartbeat_timer cf (c\<lparr>c_connect_timer := False\<rparr>))"
    by (rule quiet_same) (simp_all add: restart_heartbeat_timer_def)
  then have "quiet c d" using quiet_set_state [OF d(1)] by (rule quiet_trans)
  moreover have "connection_available d"
    using d(1) by (auto simp: connection_set_state_def Let_def connection_available_def tell_def split: if_splits)
  ultimately show ?thesis using d(2) by (auto simp: advances_def)
qed

lemma quiet_advances: "quiet c c' \<Longrightarrow> advances c c'"
  by (simp add: advances_def)

lemma advances_same: "c_events c' = c_events c \<Longrightarrow> c_state c' = c_state c \<Longrightarrow> advances c c'"
  by (simp add: quiet_advances quiet_same)

lemma advances_trans: "quiet c c' \<Longrightarrow> advances c' c'' \<Longrightarrow> advances c c''"
  by (auto simp: advances_def intro: quiet_trans)

lemma advances_connection_on_ready:
  assumes "connection_on_ready cf n c = Some c'" shows "advances c c'"
proof (cases "c_state c = C_CONNECTED \<and> c_event_types c \<noteq> 0")
  case True
  then show ?thesis
    using assms by (auto simp: connection_on_ready_def bind_eq_Some_conv
        intro!: quiet_advances quiet_trans [OF quiet_set_state quiet_send_startup])
next
  case False
  then show ?thesis
    using assms by (auto simp: connection_on_ready_def split: if_splits
        intro: advances_notify_ready quiet_advances quiet_send_startup)
qed

lemmas quiet_intros = quiet_send_startup quiet_notify_error quiet_internal_write quiet_on_write quiet_internal_close

lemma advances_startup:
  "startup_on_set cf n response c = Some c' \<Longrightarrow> advances c c'"
  by (cases response)
    (auto simp: startup_on_set_def on_authenticate_def send_credentials_def send_initial_auth_response_def
      split: if_splits option.splits
      intro: advances_connection_on_ready advances_notify_ready quiet_advances quiet_intros)

lemma quiet_heartbeat:
  assumes "on_heartbeat cf now written n c = Some c'" shows "quiet c c'"
proof -
  define c0 where "c0 = c\<lparr>c_heartbeat_timer := False\<rparr>"
  define c1 where "c1 = (if c_idle_start c0 = 0 then c0\<lparr>c_idle_start := now\<rparr> else c0)"
  have q: "quiet c c0" "quiet c c1" by (auto intro!: quiet_same simp: c0_def c1_def)
  have restart: "quiet d (restart_heartbeat_timer cf d)" for d
    by (rule quiet_same) (simp_all add: restart_heartbeat_timer_def)
  have sent: "quiet c1 c'" if "internal_write cf True False n c1 \<bind>
      (\<lambda>c. Some (restart_heartbeat_timer cf (tell Heartbeat_sent (c\<lparr>c_heartbeat_outstanding := True\<rparr>)))) = Some c'"
  proof -
    obtain d where d: "internal_write cf True False n c1 = Some d"
      "c' = restart_heartbeat_timer cf (tell Heartbeat_sent (d\<lparr>c_heartbeat_outstanding := True\<rparr>))"
      using \<open>internal_write cf True False n c1 \<bind> _ = _\<close> by (auto simp: bind_eq_Some_conv)
    have "quiet c1 (d\<lparr>c_heartbeat_outstanding := True\<rparr>)"
      by (rule quiet_after [OF quiet_internal_write [OF d(1)]]) simp_all
    then have "quiet c1 (tell Heartbeat_sent (d\<lparr>c_heartbeat_outstanding := True\<rparr>))" by (rule quiet_tell) simp_all
    then show ?thesis unfolding d(2) by (rule quiet_trans [OF _ restart])
  qed
  have "quiet c0 c' \<or> quiet c1 c'"
    using assms unfolding on_heartbeat_def Let_def c0_def [symmetric] unfolding c1_def [symmetric]
    by (auto split: if_splits intro: quiet_notify_error restart sent)
  then show ?thesis using q quiet_trans by blast
qed

lemma quiet_on_connect:
  assumes "on_connect cf connected n c = Some c'" shows "quiet c c'"
  using assms
  by (auto simp: on_connect_def bind_eq_Some_conv split: if_splits
      intro: quiet_same quiet_notify_error quiet_trans [OF quiet_set_state quiet_send_startup])

lemma advances_op: "run_op cf operation c = Some c' \<Longrightarrow> advances c c'"
proof (cases operation)
  case Op_connect_timeout
  assume "run_op cf operation c = Some c'"
  then show ?thesis
    using Op_connect_timeout quiet_notify_error [of ERROR_TIMEOUT "c\<lparr>c_connect_timer := False\<rparr>" c']
      quiet_trans [OF quiet_same [of "c\<lparr>c_connect_timer := False\<rparr>" c]]
    by (auto simp: on_connect_timeout_def intro: quiet_advances)
qed (auto simp: startup_on_error_def startup_on_timeout_def connection_close_def defunct_def connection_flush_def
      internal_write_unencodable_def heartbeat_on_set_def heartbeat_on_error_def maybe_set_keyspace_def
      advances_same split: if_splits
      intro: advances_startup quiet_advances quiet_on_connect quiet_heartbeat quiet_intros)

lemma quiet_close: "connection_close c = Some c' \<Longrightarrow> quiet c c'"
  by (auto simp: connection_close_def intro: quiet_internal_close)

lemma quiet_connection_write: "connection_write cf w c = Some c' \<Longrightarrow> quiet c c'"
  by (auto simp: connection_write_def internal_write_unencodable_def split: write_answer.splits
      intro: quiet_internal_write quiet_same)

lemma news_append [simp]: "c_events c' = c_events c @ es \<Longrightarrow> news c c' = es"
  by (simp add: news_def)

lemma quiet_news:
  assumes "quiet c c'"
  shows "Notify_ready \<notin> set (news c c')" "follow (connection_available c) (changes (news c c')) = Some (connection_available c')"
    "ready_count c' = ready_count c" "is_closing c \<Longrightarrow> is_closing c'"
  using assms by (auto simp: quiet_def ready_count_def filter_empty_conv)

lemma advances_news:
  assumes "advances c c'"
  shows "follow (connection_available c) (changes (news c c')) = Some (connection_available c')"
    and "ready_count c' = ready_count c + of_bool (Notify_ready \<in> set (news c c'))"
    and "Notify_ready \<in> set (news c c') \<Longrightarrow> connection_available c'"
    and "is_closing c \<Longrightarrow> is_closing c' \<and> Notify_ready \<notin> set (news c c')"
proof -
  have "follow (connection_available c) (changes (news c c')) = Some (connection_available c') \<and>
        ready_count c' = ready_count c + of_bool (Notify_ready \<in> set (news c c')) \<and>
        (Notify_ready \<in> set (news c c') \<longrightarrow> connection_available c') \<and>
        (is_closing c \<longrightarrow> is_closing c' \<and> Notify_ready \<notin> set (news c c'))"
  proof (cases "quiet c c'")
    case True
    from quiet_news [OF this] show ?thesis by simp
  next
    case False
    then obtain d where d: "quiet c d" "connection_available d" "c' = tell Notify_ready d"
      using assms by (auto simp: advances_def)
    obtain es where es: "c_events d = c_events c @ es" using d(1) by (auto simp: quiet_def)
    have n: "news c c' = es @ [Notify_ready]" "news c d = es" using es d(3) by (simp_all add: tell_def news_def)
    have "c_state d = C_READY" using d(2) by (simp add: connection_available_def)
    then have "\<not> is_closing d" by (simp add: is_closing_def)
    with quiet_news [OF d(1)] d n show ?thesis
      by (auto simp: follow_append connection_available_def tell_def ready_count_def filter_empty_conv)
  qed
  then show "follow (connection_available c) (changes (news c c')) = Some (connection_available c')"
    and "ready_count c' = ready_count c + of_bool (Notify_ready \<in> set (news c c'))"
    and "Notify_ready \<in> set (news c c') \<Longrightarrow> connection_available c'"
    and "is_closing c \<Longrightarrow> is_closing c' \<and> Notify_ready \<notin> set (news c c')" by blast+
qed

interpretation connections: availability_source connection_available advances "\<lambda>c c'. changes (news c c')"
  by unfold_locales (rule advances_news(1))

section \<open>What happens to a pool\<close>

text \<open>
  The calls and callbacks. The worker borrows from pools that are ready, and writes to the
  connection it got; the callback of a closed handle comes after it was closed; a request
  times out while it waits.
\<close>

datatype pool_op =
    Pool_connect | Pool_delayed_connect | Pool_close bool | Pool_connection nat connection_op write_answer
  | Pool_connection_closed nat | Pool_return nat write_answer | Pool_borrow "nat \<Rightarrow> nat" "nat \<Rightarrow> nat"
  | Pool_write nat nat write_answer | Pool_wait nat | Pool_flush | Pool_request_timeout nat | Pool_timer

fun run_pool_op :: "pool_config \<Rightarrow> pool_op \<Rightarrow> pool \<Rightarrow> pool option" where
  "run_pool_op cf Pool_connect p = pool_connect cf p"
| "run_pool_op cf Pool_delayed_connect p = Some (delayed_connect p)"
| "run_pool_op cf (Pool_close cancel) p = pool_close cf cancel p"
| "run_pool_op cf (Pool_connection i operation w) p = pool_connection_op cf i operation w p"
| "run_pool_op cf (Pool_connection_closed i) p = pool_on_close cf i p"
| "run_pool_op cf (Pool_return i w) p = pool_return_connection cf i w p"
| "run_pool_op cf (Pool_borrow pending_count streams) p = map_option snd (borrow_connection cf pending_count streams p)"
| "run_pool_op cf (Pool_write i r w) p = map_option snd (pool_write cf i r w p)"
| "run_pool_op cf (Pool_wait r) p = Some (wait_for_connection cf r p)"
| "run_pool_op cf Pool_flush p = pool_flush cf p"
| "run_pool_op cf (Pool_request_timeout r) p = Some (on_pending_request_timeout cf r p)"
| "run_pool_op cf Pool_timer p =
     (case p_connect_timer p of
        None \<Rightarrow> Some p
      | Some On_wait_to_connect \<Rightarrow> on_wait_to_connect cf p
      | Some On_partial_reconnect \<Rightarrow> on_partial_reconnect cf p)"

fun pool_enabled :: "pool_config \<Rightarrow> pool_op \<Rightarrow> pool \<Rightarrow> bool" where
  "pool_enabled cf (Pool_connection i operation w) p =
     (case p_store p i of None \<Rightarrow> False | Some c \<Rightarrow> enabled (pc_connection cf) operation c)"
| "pool_enabled cf (Pool_connection_closed i) p = (case p_store p i of None \<Rightarrow> False | Some c \<Rightarrow> c_uv_closing c)"
| "pool_enabled cf (Pool_return i w) p = (p_store p i \<noteq> None)"
| "pool_enabled cf (Pool_write i r w) p = (case p_store p i of None \<Rightarrow> False | Some c \<Rightarrow> c_state c = C_READY)"
| "pool_enabled cf (Pool_request_timeout r) p = (r \<in> set (p_requests p))"
| "pool_enabled cf _ p = True"

text \<open>The keyspace and the protocol version of the worker can be others at every step.\<close>

inductive pool_reach :: "pool_config \<Rightarrow> pool \<Rightarrow> bool" for cf where
  new: "pool_reach cf (pool_new is_initial)"
| step: "pool_reach cf p \<Longrightarrow> pool_enabled cf operation p \<Longrightarrow>
    run_pool_op (cf\<lparr>pc_keyspace := keyspace, pc_protocol_version := version\<rparr>) operation p = Some p' \<Longrightarrow> pool_reach cf p'"

section \<open>The invariant\<close>

definition host_changes :: "pool_call list \<Rightarrow> bool list" where
  "host_changes xs = concat (map (\<lambda>x. case x of Set_host_is_available b \<Rightarrow> [b] | _ \<Rightarrow> []) xs)"

definition ready_calls :: "pool_call list \<Rightarrow> nat" where
  "ready_calls xs = length (filter (\<lambda>x. case x of Notify_pool_ready b \<Rightarrow> True | _ \<Rightarrow> False) xs)"

definition closed_calls :: "pool_call list \<Rightarrow> nat" where
  "closed_calls xs = length (filter (\<lambda>x. x = Notify_pool_closed) xs)"

text \<open>The connections; what was told about them; the states.\<close>

definition owns_inv :: "pool_config \<Rightarrow> pool \<Rightarrow> bool" where
  "owns_inv cf p \<longleftrightarrow>
     distinct (p_connections p @ p_pending p) \<and> dom (p_store p) = set (p_connections p @ p_pending p) \<and>
     (\<forall>i \<in> dom (p_store p). i < p_allocated p) \<and>
     (\<forall>i c. p_store p i = Some c \<longrightarrow>
        connection_reach (pc_connection cf) c \<and> ready_count c = of_bool (i \<in> set (p_connections p)))"

definition count_inv :: "pool \<Rightarrow> bool" where
  "count_inv p \<longleftrightarrow>
     p_available_count p = int (number connection_available (p_store p)) \<and>
     (p_is_available p \<longrightarrow> p_available_count p > 0) \<and>
     follow False (host_changes (p_calls p)) = Some (p_is_available p)"

definition all_closing :: "pool \<Rightarrow> bool" where
  "all_closing p \<longleftrightarrow> (\<forall>i c. p_store p i = Some c \<longrightarrow> is_closing c)"

definition no_connections :: "pool \<Rightarrow> bool" where
  "no_connections p \<longleftrightarrow> p_connections p = [] \<and> p_pending p = []"

definition weak_phase :: "pool \<Rightarrow> bool" where
  "weak_phase p \<longleftrightarrow>
     (p_state p \<in> {POOL_STATE_NEW, POOL_STATE_WAITING_TO_CONNECT, POOL_STATE_CLOSED} \<longrightarrow> no_connections p) \<and>
     (p_state p = POOL_STATE_WAITING_TO_CONNECT \<longleftrightarrow> p_connect_timer p = Some On_wait_to_connect) \<and>
     (p_state p = POOL_STATE_NEW \<longrightarrow> p_connect_timer p = None) \<and>
     (p_state p = POOL_STATE_CLOSING \<longrightarrow> all_closing p) \<and>
     (p_state p \<in> {POOL_STATE_NEW, POOL_STATE_WAITING_TO_CONNECT, POOL_STATE_CONNECTING} \<longrightarrow> ready_calls (p_calls p) = 0) \<and>
     (p_state p \<in> {POOL_STATE_NEW, POOL_STATE_WAITING_TO_CONNECT} \<longrightarrow> p_allocated p = 0) \<and>
     (p_state p \<in> {POOL_STATE_CLOSING, POOL_STATE_CLOSED} \<and> p_allocated p > 0 \<longrightarrow> ready_calls (p_calls p) = 1) \<and>
     (p_state p = POOL_STATE_READY \<longrightarrow> ready_calls (p_calls p) = 1) \<and> ready_calls (p_calls p) \<le> 1 \<and>
     closed_calls (p_calls p) = of_bool (p_state p = POOL_STATE_CLOSED)"

text \<open>A pool that waits for connections to be ready or to be closed has such connections.\<close>

definition phase_inv :: "pool \<Rightarrow> bool" where
  "phase_inv p \<longleftrightarrow>
     weak_phase p \<and> (p_state p = POOL_STATE_CONNECTING \<longrightarrow> p_pending p \<noteq> []) \<and>
     (p_state p = POOL_STATE_CLOSING \<longrightarrow> \<not> no_connections p)"

definition pool_inv :: "pool_config \<Rightarrow> pool \<Rightarrow> bool" where
  "pool_inv cf p \<longleftrightarrow> owns_inv cf p \<and> count_inv p \<and> phase_inv p"

lemma calls_simps [simp]:
  "host_changes [] = []" "host_changes (xs @ ys) = host_changes xs @ host_changes ys"
  "host_changes (Set_host_is_available b # xs) = b # host_changes xs"
  "host_changes (Notify_pool_ready b # xs) = host_changes xs" "host_changes (Notify_pool_closed # xs) = host_changes xs"
  "host_changes (Add_pending_flush # xs) = host_changes xs" "host_changes (Start_request_timer r # xs) = host_changes xs"
  "host_changes (Stop_request_timer r # xs) = host_changes xs" "host_changes (Write_request i r # xs) = host_changes xs"
  "host_changes (Write_keyspace i r # xs) = host_changes xs" "host_changes (Next_host_and_retry r # xs) = host_changes xs"
  "ready_calls [] = 0" "ready_calls (xs @ ys) = ready_calls xs + ready_calls ys"
  "ready_calls (Set_host_is_available b # xs) = ready_calls xs"
  "ready_calls (Notify_pool_ready b # xs) = Suc (ready_calls xs)" "ready_calls (Notify_pool_closed # xs) = ready_calls xs"
  "ready_calls (Add_pending_flush # xs) = ready_calls xs" "ready_calls (Start_request_timer r # xs) = ready_calls xs"
  "ready_calls (Stop_request_timer r # xs) = ready_calls xs" "ready_calls (Write_request i r # xs) = ready_calls xs"
  "ready_calls (Write_keyspace i r # xs) = ready_calls xs" "ready_calls (Next_host_and_retry r # xs) = ready_calls xs"
  "closed_calls [] = 0" "closed_calls (xs @ ys) = closed_calls xs + closed_calls ys"
  "closed_calls (x # xs) = of_bool (x = Notify_pool_closed) + closed_calls xs"
  by (simp_all add: host_changes_def ready_calls_def closed_calls_def)

text \<open>What hearing about availability changes of a pool.\<close>

definition heard :: "pool \<Rightarrow> pool \<Rightarrow> bool" where
  "heard p p' \<longleftrightarrow>
     (\<exists>a n xs. p' = p\<lparr>p_available_count := n, p_is_available := a, p_calls := p_calls p @ xs\<rparr> \<and>
        follow (p_is_available p) (host_changes xs) = Some a \<and> ready_calls xs = 0 \<and> closed_calls xs = 0)"

lemma heard_refl [intro, simp]: "heard p p"
  unfolding heard_def by (intro exI [of _ "p_is_available p"] exI [of _ "p_available_count p"] exI [of _ "[]"]) simp

lemma heard_trans:
  assumes "heard p q" and "heard q r" shows "heard p r"
proof -
  obtain a n xs where 1: "q = p\<lparr>p_available_count := n, p_is_available := a, p_calls := p_calls p @ xs\<rparr>"
    "follow (p_is_available p) (host_changes xs) = Some a" "ready_calls xs = 0" "closed_calls xs = 0"
    using assms(1) unfolding heard_def by blast
  obtain b m ys where 2: "r = q\<lparr>p_available_count := m, p_is_available := b, p_calls := p_calls q @ ys\<rparr>"
    "follow (p_is_available q) (host_changes ys) = Some b" "ready_calls ys = 0" "closed_calls ys = 0"
    using assms(2) unfolding heard_def by blast
  show ?thesis unfolding heard_def
    by (intro exI [of _ b] exI [of _ m] exI [of _ "xs @ ys"]) (use 1 2 in \<open>simp add: follow_append\<close>)
qed

lemma heard_set_is_available: "heard p (set_is_available cf b p)"
  unfolding heard_def
  by (intro exI [of _ "p_is_available (set_is_available cf b p)"] exI [of _ "p_available_count p"]
      exI [of _ "drop (length (p_calls p)) (p_calls (set_is_available cf b p))"])
    (simp add: set_is_available_def pool_calls_def)

lemma heard_count: "heard (p\<lparr>p_available_count := n\<rparr>) p' \<Longrightarrow> heard p p'"
  by (auto simp: heard_def)

lemma set_is_available_count [simp]: "p_available_count (set_is_available cf b p) = p_available_count p"
  by (simp add: set_is_available_def pool_calls_def)

lemma hear_availability:
  assumes "counter [b] (p_available_count p) = Some n" and "p_is_available p \<longrightarrow> p_available_count p > 0"
  shows "\<exists>p'. on_availability_change cf b p = Some p' \<and> heard p p' \<and> p_available_count p' = n \<and> (p_is_available p' \<longrightarrow> n > 0)"
proof (cases b)
  case True
  let ?p = "p\<lparr>p_available_count := n\<rparr>"
  have n: "n = p_available_count p + 1" using assms(1) True by simp
  have "p_is_available (set_is_available cf True ?p) \<longrightarrow> n > 0"
    using assms(2) n by (auto simp: set_is_available_def pool_calls_def)
  then show ?thesis using True n heard_count [OF heard_set_is_available [of ?p cf True]]
    by (simp add: on_availability_change_def)
next
  case False
  let ?p = "p\<lparr>p_available_count := n\<rparr>"
  have n: "n = p_available_count p - 1" "0 \<le> n" using assms(1) False by (auto split: if_splits)
  define q where "q = (if n = 0 then set_is_available cf False ?p else ?p)"
  have "on_availability_change cf b p = Some q"
    using False n by (simp add: on_availability_change_def q_def Let_def)
  moreover have "p_is_available q \<longrightarrow> n > 0" "p_available_count q = n"
    using n by (simp_all add: q_def set_is_available_def pool_calls_def)
  moreover have "heard p q"
    unfolding q_def by (split if_split)
      (blast intro: heard_count heard_set_is_available heard_refl)
  ultimately show ?thesis by blast
qed

lemma hear_counts:
  "counter (changes es) (p_available_count p) = Some n \<Longrightarrow> (p_is_available p \<longrightarrow> p_available_count p > 0) \<Longrightarrow>
   \<exists>p'. hear cf es p = Some p' \<and> heard p p' \<and> p_available_count p' = n \<and> (p_is_available p' \<longrightarrow> n > 0)"
proof (induction es arbitrary: p)
  case Nil
  then show ?case by auto
next
  case (Cons e es)
  show ?case
  proof (cases "\<exists>b. e = Availability_change b")
    case False
    then have "changes (e # es) = changes es" "hear cf (e # es) p = hear cf es p" by (cases e; simp)+
    then show ?thesis using Cons.IH [of p] Cons.prems by simp
  next
    case True
    then obtain b where e: "e = Availability_change b" by blast
    obtain m where m: "counter [b] (p_available_count p) = Some m" "counter (changes es) m = Some n"
      using Cons.prems(1) by (auto simp: e split: if_splits)
    from hear_availability [OF m(1) Cons.prems(2), of cf] obtain q where q:
      "on_availability_change cf b p = Some q" "heard p q" "p_available_count q = m" "p_is_available q \<longrightarrow> m > 0" by blast
    from Cons.IH [of q] m(2) q(3,4) obtain p' where "hear cf es q = Some p'" "heard q p'" "p_available_count p' = n"
      "p_is_available p' \<longrightarrow> n > 0" by auto
    then show ?thesis using q(1,2) by (auto simp: e intro: heard_trans)
  qed
qed

text \<open>What an operation that does not change the phase leaves.\<close>

definition stays :: "pool \<Rightarrow> pool \<Rightarrow> bool" where
  "stays p p' \<longleftrightarrow>
     p_state p' = p_state p \<and> p_connections p' = p_connections p \<and> p_pending p' = p_pending p \<and>
     p_connect_timer p' = p_connect_timer p \<and> ready_calls (p_calls p') = ready_calls (p_calls p) \<and>
     closed_calls (p_calls p') = closed_calls (p_calls p) \<and> dom (p_store p') = dom (p_store p) \<and>
     p_allocated p' = p_allocated p \<and> (all_closing p \<longrightarrow> all_closing p')"

lemma stays_refl [intro, simp]: "stays p p" by (simp add: stays_def)

lemma stays_trans: "stays p q \<Longrightarrow> stays q r \<Longrightarrow> stays p r" by (simp add: stays_def)

lemma stays_phase: "stays p p' \<Longrightarrow> weak_phase p \<Longrightarrow> weak_phase p'" "stays p p' \<Longrightarrow> phase_inv p \<Longrightarrow> phase_inv p'"
  by (simp_all add: stays_def phase_inv_def weak_phase_def no_connections_def)

lemma heard_stays: "heard p p' \<Longrightarrow> stays p p'"
  by (auto simp: heard_def stays_def all_closing_def)

definition fine :: "pool_config \<Rightarrow> pool \<Rightarrow> bool" where
  "fine cf p \<longleftrightarrow> owns_inv cf p \<and> count_inv p"

lemma owns_cong:
  "p_connections p' = p_connections p \<Longrightarrow> p_pending p' = p_pending p \<Longrightarrow> p_store p' = p_store p \<Longrightarrow>
   p_allocated p' = p_allocated p \<Longrightarrow> pc_connection cf' = pc_connection cf \<Longrightarrow> owns_inv cf' p' = owns_inv cf p"
  by (simp only: owns_inv_def)

lemma heard_owns: "heard p p' \<Longrightarrow> owns_inv cf p' = owns_inv cf p"
  unfolding heard_def by (elim exE conjE, rule owns_cong) simp_all

lemma fine_set_is_available: "fine cf p \<Longrightarrow> fine cf (set_is_available cf' b p)"
  using owns_cong [of "set_is_available cf' b p" p cf cf]
  by (auto simp: fine_def count_inv_def set_is_available_def pool_calls_def follow_append)

lemma fine_calls:
  "fine cf p \<Longrightarrow> host_changes [x] = [] \<Longrightarrow> fine cf (pool_calls x p)"
  using owns_cong [of "pool_calls x p" p cf cf]
  by (auto simp: fine_def count_inv_def pool_calls_def)

lemma fine_cong:
  assumes "p_connections p' = p_connections p" and "p_pending p' = p_pending p" and "p_store p' = p_store p"
    and "p_allocated p' = p_allocated p" and "pc_connection cf' = pc_connection cf"
    and "p_available_count p' = p_available_count p" and "p_is_available p' = p_is_available p"
    and "p_calls p' = p_calls p"
  shows "fine cf' p' = fine cf p"
  unfolding fine_def count_inv_def owns_cong [OF assms(1-5)] assms(3,6-8) ..

lemma fine_rest [simp]:
  "fine cf (p\<lparr>p_state := s\<rparr>) = fine cf p" "fine cf (p\<lparr>p_requests := rs\<rparr>) = fine cf p"
  "fine cf (p\<lparr>p_connect_timer := t\<rparr>) = fine cf p" "fine cf (p\<lparr>p_is_pending_flush := f\<rparr>) = fine cf p"
  "fine cf (p\<lparr>p_cancel_reconnect := r\<rparr>) = fine cf p" "fine cf (p\<lparr>p_is_critical := r\<rparr>) = fine cf p"
  "fine (cf\<lparr>pc_keyspace := k, pc_protocol_version := v\<rparr>) p = fine cf p"
  by (rule fine_cong; simp)+

lemma fine_dom: "fine cf p \<Longrightarrow> finite (dom (p_store p)) \<and> dom (p_store p) = set (p_connections p @ p_pending p)"
  by (simp add: fine_def owns_inv_def)

lemma all_closing_update: "all_closing p \<Longrightarrow> p_store p i = Some c \<Longrightarrow> (is_closing c \<longrightarrow> is_closing c') \<Longrightarrow>
    all_closing (store_connection i c' p)"
  by (auto simp: all_closing_def store_connection_def)

lemma hear_store:
  assumes fine: "fine cf p" and i: "p_store p i = Some c" and adv: "advances c c'" and r: "connection_reach (pc_connection cf) c'"
  shows "\<exists>q. hear cf (news c c') (store_connection i c' p) = Some q \<and> heard (store_connection i c' p) q \<and> count_inv q"
proof -
  have "counter (changes (news c c')) (p_available_count p) = Some (int (number connection_available ((p_store p)(i := Some c'))))"
    using connections.counts [of "p_store p" i c c'] fine i adv by (simp add: fine_def owns_inv_def count_inv_def)
  then have "counter (changes (news c c')) (p_available_count (store_connection i c' p)) =
      Some (int (number connection_available ((p_store p)(i := Some c'))))" by (simp add: store_connection_def)
  from hear_counts [OF this, of cf] obtain q where q: "hear cf (news c c') (store_connection i c' p) = Some q" "heard (store_connection i c' p) q"
    "p_available_count q = int (number connection_available ((p_store p)(i := Some c')))"
    "p_is_available q \<longrightarrow> p_available_count q > 0"
    using fine by (auto simp: fine_def count_inv_def store_connection_def)
  moreover have "count_inv q"
    using q fine by (auto simp: heard_def count_inv_def store_connection_def fine_def follow_append)
  ultimately show ?thesis by blast
qed

lemma update_fine:
  assumes fine: "fine cf p" and i: "p_store p i = Some c" and f: "f c = Some c'" and quiet: "quiet c c'"
    and r: "connection_reach (pc_connection cf) c'"
  shows "\<exists>q. update_connection cf i f p = Some q \<and> fine cf q \<and> stays p q \<and> p_store q = (p_store p)(i := Some c') \<and>
           p_requests q = p_requests p \<and> p_allocated q = p_allocated p"
proof -
  from hear_store [OF fine i quiet_advances [OF quiet] r] obtain q where
    q: "hear cf (news c c') (store_connection i c' p) = Some q" "heard (store_connection i c' p) q" "count_inv q" by blast
  have "owns_inv cf (store_connection i c' p)"
    using fine i r quiet_news(3) [OF quiet] by (auto simp: fine_def owns_inv_def store_connection_def)
  then have "fine cf q" using q by (simp add: fine_def heard_owns)
  moreover have "stays p (store_connection i c' p)"
    using all_closing_update [OF _ i, of c'] quiet_news(4) [OF quiet] i by (auto simp: stays_def store_connection_def)
  then have "stays p q" using heard_stays [OF q(2)] by (rule stays_trans)
  moreover have "p_store q = (p_store p)(i := Some c')" "p_requests q = p_requests p" "p_allocated q = p_allocated p"
    using q(2) by (auto simp: heard_def store_connection_def)
  ultimately show ?thesis using i f q(1) by (simp add: update_connection_def)
qed

section \<open>Every operation keeps the invariant\<close>

lemma pool_inv_alt: "pool_inv cf p \<longleftrightarrow> fine cf p \<and> phase_inv p"
  by (simp add: pool_inv_def fine_def)

definition pool_keeps :: "pool_config \<Rightarrow> pool option \<Rightarrow> bool" where
  "pool_keeps cf r \<longleftrightarrow> (\<exists>p. r = Some p \<and> pool_inv cf p)"

text \<open>An operation that does not change the phase.\<close>

definition steady :: "pool_config \<Rightarrow> pool \<Rightarrow> pool option \<Rightarrow> bool" where
  "steady cf p r \<longleftrightarrow> (\<exists>q. r = Some q \<and> fine cf q \<and> stays p q)"

lemma steady_keeps: "steady cf p r \<Longrightarrow> phase_inv p \<Longrightarrow> pool_keeps cf r"
  by (auto simp: steady_def pool_keeps_def pool_inv_alt intro: stays_phase)

lemma steady_trans: "steady cf p r \<Longrightarrow> (\<And>q. r = Some q \<Longrightarrow> fine cf q \<Longrightarrow> stays p q \<Longrightarrow> steady cf q (f q)) \<Longrightarrow> steady cf p (r \<bind> f)"
  unfolding steady_def by (elim exE conjE) (auto dest: stays_trans)

lemma steady_refl: "fine cf p \<Longrightarrow> steady cf p (Some p)"
  by (simp add: steady_def)

lemma stays_set_is_available: "stays p (set_is_available cf b p)"
  by (rule heard_stays [OF heard_set_is_available])

lemma stays_calls:
  "x \<noteq> Notify_pool_closed \<Longrightarrow> ready_calls [x] = 0 \<Longrightarrow> stays p (pool_calls x p)"
  by (simp add: stays_def pool_calls_def all_closing_def)

lemma stays_requests: "stays p (p\<lparr>p_requests := rs\<rparr>)" "stays p (p\<lparr>p_is_pending_flush := f\<rparr>)"
  by (simp_all add: stays_def all_closing_def)

lemma owned: "fine cf p \<Longrightarrow> p_store p i = Some c \<Longrightarrow>
    connection_reach (pc_connection cf) c \<and> ready_count c = of_bool (i \<in> set (p_connections p))"
  by (simp add: fine_def owns_inv_def)

lemma close_all_fine:
  "fine cf p \<Longrightarrow> set is \<subseteq> dom (p_store p) \<Longrightarrow>
   \<exists>q. close_all cf is p = Some q \<and> fine cf q \<and> stays p q \<and>
       (\<forall>i c. p_store q i = Some c \<and> i \<in> set is \<longrightarrow> is_closing c) \<and>
       (\<forall>i c c'. p_store p i = Some c \<and> is_closing c \<and> p_store q i = Some c' \<longrightarrow> is_closing c') \<and>
       p_requests q = p_requests p"
proof (induction "is" arbitrary: p)
  case Nil
  then show ?case by auto
next
  case (Cons i "is")
  obtain c where c: "p_store p i = Some c" using Cons.prems(2) by auto
  note r = conjunct1 [OF owned [OF Cons.prems(1) c]]
  obtain c' where c': "connection_close c = Some c'" "is_closing c'" using inv_close [OF reach_inv [OF r]] by blast
  have "connection_reach (pc_connection cf) c'" using connection_reach.op [OF r, of Op_close c'] c'(1) by simp
  from update_fine [where f = connection_close, OF Cons.prems(1) c c'(1) quiet_close [OF c'(1)] this] obtain q where q:
    "update_connection cf i connection_close p = Some q" "fine cf q" "stays p q" "p_store q = (p_store p)(i := Some c')"
    "p_requests q = p_requests p" by blast
  have "set is \<subseteq> dom (p_store q)" using Cons.prems(2) q(4) by auto
  from Cons.IH [OF q(2) this] obtain q' where q': "close_all cf is q = Some q'" "fine cf q'" "stays q q'"
    "\<forall>i c. p_store q' i = Some c \<and> i \<in> set is \<longrightarrow> is_closing c"
    "\<forall>i c c'. p_store q i = Some c \<and> is_closing c \<and> p_store q' i = Some c' \<longrightarrow> is_closing c'"
    "p_requests q' = p_requests q" by blast
  have "is_closing d'" if "p_store p j = Some d" "is_closing d" "p_store q' j = Some d'" for j d d'
    using q'(5) [rule_format, of j "if j = i then c' else d" d'] that q(4) c'(2) by simp
  moreover have "is_closing d" if "p_store q' j = Some d" "j \<in> set (i # is)" for j d
  proof (cases "j = i")
    case True
    then show ?thesis using q'(5) [rule_format, of j c' d] that q(4) c'(2) by simp
  next
    case False
    then show ?thesis using q'(4) that by simp
  qed
  moreover have "close_all cf (i # is) p = Some q'" "p_requests q' = p_requests p" using q(1,5) q'(1,6) by simp_all
  ultimately show ?case using q'(2) stays_trans [OF q(3) q'(3)] by blast
qed

lemma phase_maybe_close:
  assumes "weak_phase p" and "p_state p \<noteq> POOL_STATE_CONNECTING \<or> p_pending p \<noteq> []"
  shows "phase_inv (maybe_close p)"
  using assms by (auto simp: maybe_close_def phase_inv_def weak_phase_def no_connections_def pool_calls_def)

lemma weak_maybe_notify_ready: "weak_phase p \<Longrightarrow> weak_phase (maybe_notify_ready p)"
  by (auto simp: maybe_notify_ready_def weak_phase_def no_connections_def pool_calls_def)

lemma maybe_notify_ready_done:
  "p_state (maybe_notify_ready p) \<noteq> POOL_STATE_CONNECTING \<or> p_pending (maybe_notify_ready p) \<noteq> []"
  by (auto simp: maybe_notify_ready_def pool_calls_def)

lemma fine_maybe_close: "fine cf p \<Longrightarrow> fine cf (maybe_close p)"
  by (simp add: maybe_close_def fine_calls)

lemma fine_maybe_notify_ready: "fine cf p \<Longrightarrow> fine cf (maybe_notify_ready p)"
  by (simp add: maybe_notify_ready_def fine_calls)

lemma phase_maybe_notify_ready:
  "weak_phase p \<Longrightarrow> p_state p \<noteq> POOL_STATE_CLOSING \<or> \<not> no_connections p \<Longrightarrow> phase_inv (maybe_notify_ready p)"
  using weak_maybe_notify_ready [of p] maybe_notify_ready_done [of p]
  by (auto simp: phase_inv_def maybe_notify_ready_def no_connections_def pool_calls_def split: if_splits)

lemma keeps_close:
  assumes "fine cf p" and "weak_phase p" and "p_state p \<noteq> POOL_STATE_CLOSING \<and> p_state p \<noteq> POOL_STATE_CLOSED \<or> phase_inv p"
  shows "pool_keeps cf (pool_close cf cancel p)"
proof (cases "p_state p \<noteq> POOL_STATE_CLOSING \<and> p_state p \<noteq> POOL_STATE_CLOSED")
  case False
  then show ?thesis using assms fine_maybe_close [OF assms(1)] phase_maybe_close [OF assms(2)]
    by (auto simp: pool_close_def pool_keeps_def pool_inv_alt)
next
  case True
  define q where "q = (set_is_available cf False (start_closing p))\<lparr>p_cancel_reconnect := cancel\<rparr>"
  have fine: "fine cf q"
    using assms(1) unfolding q_def by (simp add: fine_set_is_available start_closing_def Let_def fine_calls)
  have same: "p_connections q = p_connections p" "p_pending q = p_pending p" "p_state q = POOL_STATE_CLOSING"
    "p_store q = p_store p" "p_connect_timer q = None" "ready_calls (p_calls q) \<le> 1" "closed_calls (p_calls q) = 0"
    "p_allocated q > 0 \<longrightarrow> ready_calls (p_calls q) = 1"
    using True assms(2)
    by (cases "p_state p"; simp add: q_def start_closing_def Let_def set_is_available_def pool_calls_def weak_phase_def)+
  from close_all_fine [OF fine, of "p_connections q @ p_pending q"] fine_dom [OF fine] obtain q' where q':
    "close_all cf (p_connections q @ p_pending q) q = Some q'" "fine cf q'" "stays q q'"
    "\<forall>i c. p_store q' i = Some c \<and> i \<in> set (p_connections q @ p_pending q) \<longrightarrow> is_closing c" by blast
  have "all_closing q'"
    unfolding all_closing_def
  proof (intro allI impI)
    fix i c assume c: "p_store q' i = Some c"
    then have "i \<in> dom (p_store q')" by blast
    then have "i \<in> set (p_connections q @ p_pending q)" using fine_dom [OF q'(2)] q'(3) by (simp add: stays_def)
    with q'(4) c show "is_closing c" by blast
  qed
  then have "weak_phase q'" using q'(3) same by (auto simp: weak_phase_def stays_def no_connections_def)
  then have "phase_inv (maybe_close q')" using q'(3) same by (intro phase_maybe_close) (auto simp: stays_def)
  moreover have "pool_close cf cancel p = Some (maybe_close q')"
    using True q'(1) by (simp add: pool_close_def q_def Let_def)
  ultimately show ?thesis using fine_maybe_close [OF q'(2)] by (simp add: pool_keeps_def pool_inv_alt)
qed

lemma spawned_connection:
  "\<exists>c. connect (connection_init k v 0) = Some c \<and> connection_reach cf c \<and> \<not> connection_available c \<and> ready_count c = 0"
proof -
  obtain c where c: "connect (connection_init k v 0) = Some c" "c_state c = C_CONNECTING" "c_events c = []"
    by (simp add: connect_def connection_init_def connection_set_state_def)
  from c connection_reach.spawned [OF c(1)] show ?thesis by (auto simp: connection_available_def ready_count_def)
qed

definition open_state :: "pool \<Rightarrow> bool" where
  "open_state p \<longleftrightarrow> p_state p \<noteq> POOL_STATE_CLOSING \<and> p_state p \<noteq> POOL_STATE_CLOSED"

lemma spawn_fine:
  assumes "fine cf p" and "open_state p"
  shows "\<exists>q. spawn_connection cf' p = Some q \<and> fine cf q \<and> p_state q = p_state p \<and> p_connections q = p_connections p \<and>
           p_pending q \<noteq> [] \<and> p_connect_timer q = p_connect_timer p \<and> p_calls q = p_calls p \<and> p_requests q = p_requests p"
proof -
  obtain c where c: "connect (connection_init (pc_keyspace cf') (pc_protocol_version cf') 0) = Some c"
    "connection_reach (pc_connection cf) c" "\<not> connection_available c" "ready_count c = 0"
    using spawned_connection [of "pc_keyspace cf'" "pc_protocol_version cf'" "pc_connection cf"] by blast
  define i where "i = p_allocated p"
  define q where "q = (store_connection i c p)\<lparr>p_pending := p_pending p @ [i], p_allocated := i + 1\<rparr>"
  have owns: "owns_inv cf p" using assms(1) by (simp add: fine_def)
  have i: "i \<notin> dom (p_store p)" "\<forall>j \<in> dom (p_store p). j < i" using owns by (auto simp: owns_inv_def i_def)
  have d: "dom (p_store q) = insert i (dom (p_store p))" by (auto simp: q_def store_connection_def)
  have "distinct (p_connections q @ p_pending q) \<and> dom (p_store q) = set (p_connections q @ p_pending q)"
    using owns i d by (auto simp: owns_inv_def q_def store_connection_def)
  moreover have "\<forall>j \<in> dom (p_store q). j < p_allocated q"
    using i(2) unfolding d by (simp add: q_def) (metis less_Suc_eq)
  moreover have "connection_reach (pc_connection cf) e \<and> ready_count e = of_bool (j \<in> set (p_connections q))"
    if "p_store q j = Some e" for j e
    using owns i c that by (auto simp: owns_inv_def q_def store_connection_def split: if_splits)
  ultimately have "owns_inv cf q" unfolding owns_inv_def by blast
  moreover have "count_inv q"
    using assms(1) number_fresh [of "p_store p" i connection_available c] c(3) i
    by (auto simp: fine_def count_inv_def owns_inv_def q_def store_connection_def)
  moreover have "spawn_connection cf' p = Some q" using assms(2) c(1) by (simp add: spawn_connection_def open_state_def q_def i_def)
  ultimately show ?thesis by (auto simp: fine_def q_def store_connection_def)
qed

lemma repeat_inv:
  "(\<And>x. P x \<Longrightarrow> \<exists>y. f x = Some y \<and> P y) \<Longrightarrow> P x \<Longrightarrow> \<exists>y. repeat n f x = Some y \<and> P y"
proof (induction n arbitrary: x)
  case 0
  then show ?case by simp
next
  case (Suc n)
  obtain y where y: "f x = Some y" "P y" using Suc.prems by blast
  then show ?case using Suc.IH [of y] Suc.prems(1) by auto
qed

lemma spawn_keeps:
  assumes "pool_inv cf p" and "p_state p \<noteq> POOL_STATE_NEW \<and> p_state p \<noteq> POOL_STATE_WAITING_TO_CONNECT"
  shows "\<exists>q. spawn_connection cf' p = Some q \<and> pool_inv cf q \<and> p_state q = p_state p"
proof (cases "open_state p")
  case False
  then show ?thesis using assms by (auto simp: spawn_connection_def open_state_def)
next
  case True
  have "fine cf p" "phase_inv p" using assms(1) by (simp_all add: pool_inv_alt)
  note old = this
  obtain q where q: "spawn_connection cf' p = Some q" "fine cf q" "p_state q = p_state p" "p_pending q \<noteq> []"
    "p_connect_timer q = p_connect_timer p" "p_calls q = p_calls p"
    using spawn_fine [OF old(1) True, of cf'] by blast
  have "phase_inv q" using old(2) assms(2) True q(3-6)
    by (simp add: phase_inv_def weak_phase_def open_state_def no_connections_def)
  then show ?thesis using q by (simp add: pool_inv_alt)
qed

lemma maybe_spawn_keeps: "pool_inv cf p \<Longrightarrow> \<exists>q. maybe_spawn_connection cf' p = Some q \<and> pool_inv cf q"
  using spawn_keeps [of cf p cf'] by (auto simp: maybe_spawn_connection_def)

lemma keeps_connect:
  assumes "pool_inv cf p"
  shows "pool_keeps cf (pool_connect cf' p)"
proof (cases "p_state p = POOL_STATE_NEW \<or> p_state p = POOL_STATE_WAITING_TO_CONNECT")
  case False
  then show ?thesis using assms by (auto simp: pool_connect_def pool_keeps_def)
next
  case True
  define P where "P = (\<lambda>q. fine cf q \<and> p_state q = p_state p \<and> p_connect_timer q = None \<and> p_calls q = p_calls p)"
  have "P (p\<lparr>p_connect_timer := None\<rparr>)" using assms by (simp add: P_def pool_inv_alt)
  moreover have "\<exists>r. spawn_connection cf' q = Some r \<and> P r" if "P q" for q
  proof -
    have "open_state q" using True that by (auto simp: P_def open_state_def)
    with spawn_fine [of cf q cf'] that show ?thesis by (auto simp: P_def)
  qed
  ultimately obtain q where q: "repeat (pc_core_connections cf') (spawn_connection cf') (p\<lparr>p_connect_timer := None\<rparr>) = Some q"
    "P q" using repeat_inv [of P] by blast
  have "phase_inv p" using assms by (simp add: pool_inv_alt)
  then have "weak_phase (q\<lparr>p_state := POOL_STATE_CONNECTING\<rparr>)"
    using q(2) True by (auto simp: P_def weak_phase_def phase_inv_def)
  then have "phase_inv (maybe_notify_ready (q\<lparr>p_state := POOL_STATE_CONNECTING\<rparr>))"
    by (rule phase_maybe_notify_ready) simp
  then show ?thesis using True q by (simp add: pool_connect_def pool_keeps_def pool_inv_alt P_def fine_maybe_notify_ready)
qed

lemma steady_write:
  assumes "fine cf p" and "p_store p i = Some c" and "c_state c = C_READY"
  shows "steady (cf\<lparr>pc_keyspace := k, pc_protocol_version := v\<rparr>) p
           (map_option snd (pool_write (cf\<lparr>pc_keyspace := k, pc_protocol_version := v\<rparr>) i r w p))" (is "steady ?cf p _")
proof -
  note reach = conjunct1 [OF owned [OF assms(1,2)]]
  have "\<exists>c'. connection_write (pc_connection cf) w c = Some c' \<and> connection_reach (pc_connection cf) c'"
  proof (cases w)
    case No_stream_id
    then show ?thesis using reach by (simp add: connection_write_def)
  next
    case Does_not_encode
    then show ?thesis using connection_reach.op [OF reach, of Op_unencodable] by (simp add: connection_write_def)
  next
    case (Encodes n)
    have e: "enabled (pc_connection cf) (Op_write False n) c" using assms(3) by simp
    obtain c' where "run_op (pc_connection cf) (Op_write False n) c = Some c'"
      using keeps_op [OF reach_inv [OF reach] e] by (auto simp: keeps_def)
    then show ?thesis using Encodes connection_reach.op [OF reach e] by (auto simp: connection_write_def)
  qed
  then obtain c' where c': "connection_write (pc_connection cf) w c = Some c'" "connection_reach (pc_connection cf) c'" by blast
  from update_fine [where f = "connection_write (pc_connection cf) w" and cf = ?cf, OF _ assms(2) c'(1) quiet_connection_write [OF c'(1)]]
  obtain q where q: "update_connection ?cf i (connection_write (pc_connection cf) w) p = Some q" "fine ?cf q" "stays p q"
    using assms(1) c'(2) by auto
  let ?q = "pool_calls (if k = c_keyspace c then Write_request i r else Write_keyspace i r) q"
  let ?r = "if \<not> p_is_pending_flush ?q then pool_calls Add_pending_flush ?q else ?q"
  have 1: "fine ?cf ?q \<and> stays q ?q" using fine_calls [OF q(2)] by (auto intro: stays_calls)
  have 2: "fine ?cf ?r \<and> stays ?q ?r" using fine_calls [OF conjunct1 [OF 1]] 1 by (auto intro: stays_calls)
  have "stays p ?r" by (rule stays_trans [OF q(3) stays_trans [OF conjunct2 [OF 1] conjunct2 [OF 2]]])
  then have "stays p (?r\<lparr>p_is_pending_flush := True\<rparr>)" by (rule stays_trans [OF _ stays_requests(2)])
  then have "fine ?cf (?r\<lparr>p_is_pending_flush := True\<rparr>) \<and> stays p (?r\<lparr>p_is_pending_flush := True\<rparr>)"
    using 2 by simp
  then show ?thesis using q assms(2) by (auto simp: pool_write_def steady_def Let_def)
qed

text \<open>The configuration of a step, with another keyspace and protocol version.\<close>

abbreviation current_config :: "pool_config \<Rightarrow> bytes \<Rightarrow> int \<Rightarrow> pool_config" where
  "current_config cf k v \<equiv> cf\<lparr>pc_keyspace := k, pc_protocol_version := v\<rparr>"

lemma steady_config [simp]: "steady (current_config cf k v) p r = steady cf p r"
  by (simp add: steady_def)

lemma steady_return:
  assumes "fine cf p" and "p_store p i = Some c"
  shows "steady cf p (pool_return_connection (current_config cf k v) i w p)"
proof (cases "p_requests p")
  case Nil
  then show ?thesis using assms by (simp add: pool_return_connection_def steady_refl)
next
  case (Cons r rs)
  show ?thesis
  proof (cases "c_state c = C_READY")
    case False
    then show ?thesis using assms Cons by (simp add: pool_return_connection_def steady_refl)
  next
    case True
    define q where "q = pool_calls (Stop_request_timer r) (remove_pending_request (current_config cf k v) r p)"
    have q: "fine cf q" "stays p q" "p_store q = p_store p"
    proof -
      let ?p = "set_is_available (current_config cf k v) True (p\<lparr>p_requests := remove1 r (p_requests p)\<rparr>)"
      have "fine cf ?p" using assms(1) by (simp add: fine_set_is_available)
      then show "fine cf q" by (simp add: q_def remove_pending_request_def fine_calls)
      have "stays p ?p" by (rule stays_trans [OF stays_requests(1) stays_set_is_available])
      then show "stays p q" unfolding q_def remove_pending_request_def by (rule stays_trans) (simp add: stays_calls)
      show "p_store q = p_store p" by (simp add: q_def remove_pending_request_def set_is_available_def pool_calls_def)
    qed
    have "steady cf q (map_option snd (pool_write (current_config cf k v) i r w q))"
      using steady_write [OF q(1), where i = i and c = c and k = k and v = v and r = r and w = w] assms(2) True q(3) by simp
    then obtain b s where s: "pool_write (current_config cf k v) i r w q = Some (b, s)" "fine cf s" "stays q s"
      by (auto simp: steady_def)
    define s' where "s' = (if b then s else pool_calls (Next_host_and_retry r) s)"
    have "fine cf s'" using s(2) by (simp add: s'_def fine_calls)
    moreover have "stays s s'" by (simp add: s'_def stays_calls)
    then have "stays p s'" using q(2) s(3) stays_trans by blast
    moreover have "pool_return_connection (current_config cf k v) i w p = Some s'"
      using s(1) assms(2) Cons True by (simp add: pool_return_connection_def q_def [symmetric] s'_def)
    ultimately show ?thesis by (simp add: steady_def)
  qed
qed

lemma keeps_connection_op:
  assumes "pool_inv cf p" and "p_store p i = Some c" and "enabled (pc_connection cf) operation c"
  shows "pool_keeps cf (pool_connection_op (current_config cf k v) i operation w p)"
proof -
  have fine: "fine cf p" and phase: "phase_inv p" using assms(1) by (simp_all add: pool_inv_alt)
  note old = owned [OF fine assms(2)]
  obtain c' where run: "run_op (pc_connection cf) operation c = Some c'"
    using keeps_op [OF reach_inv assms(3)] old by (auto simp: keeps_def)
  note adv = advances_op [OF run]
  have r: "connection_reach (pc_connection cf) c'" using connection_reach.op [OF conjunct1 [OF old] assms(3) run] .
  from hear_store [OF fine assms(2) adv r] have
    "\<exists>q. hear (current_config cf k v) (news c c') (store_connection i c' p) = Some q \<and> heard (store_connection i c' p) q \<and> count_inv q"
    using hear_store [of "current_config cf k v" p i c c'] fine assms(2) adv r by simp
  then obtain q where q: "hear (current_config cf k v) (news c c') (store_connection i c' p) = Some q"
    "heard (store_connection i c' p) q" "count_inv q" by blast
  have stays: "stays p q"
    using stays_trans [OF _ heard_stays [OF q(2)], of p] all_closing_update [OF _ assms(2), of c'] advances_news(4) [OF adv] assms(2)
    by (auto simp: stays_def store_connection_def)
  have store: "p_store q = (p_store p)(i := Some c')" "p_allocated q = p_allocated p"
    using q(2) by (auto simp: heard_def store_connection_def)
  have lists: "p_connections q = p_connections p" "p_pending q = p_pending p" "p_state q = p_state p"
    using stays by (simp_all add: stays_def)
  have owns: "owns_inv cf p" using fine by (simp add: fine_def)
  have step: "pool_connection_op (current_config cf k v) i operation w p =
      (if Notify_ready \<in> set (news c c') then pool_on_ready (current_config cf k v) i w q else Some q)"
    using assms(2) run q(1) by (simp add: pool_connection_op_def hear_ready_def)
  show ?thesis
  proof (cases "Notify_ready \<in> set (news c c')")
    case False
    have "owns_inv cf (store_connection i c' p)"
      using owns assms(2) r old advances_news(2) [OF adv] False by (auto simp: owns_inv_def store_connection_def)
    then have "fine cf q" using q(2,3) by (simp add: fine_def heard_owns)
    then show ?thesis using False step stays_phase(2) [OF stays phase] by (simp add: pool_keeps_def pool_inv_alt)
  next
    case True
    have n: "ready_count c' = ready_count c + 1" using advances_news(2) [OF adv] True by simp
    then have "ready_count c = 0" "ready_count c' = 1"
      using reach_inv [OF r] by (auto simp: connection_inv_def told_inv_def)
    then have pend: "i \<in> set (p_pending p)" "i \<notin> set (p_connections p)"
      using old owns assms(2) by (auto simp: owns_inv_def)
    define s where "s = q\<lparr>p_pending := filter (\<lambda>j. j \<noteq> i) (p_pending q), p_connections := p_connections q @ [i]\<rparr>"
    have "owns_inv cf s"
      using owns assms(2) pend r \<open>ready_count c' = 1\<close> by (auto simp: owns_inv_def s_def store lists)
    then have s: "fine cf s" "p_store s i = Some c'" using q(3) by (auto simp: fine_def count_inv_def s_def store)
    have "\<not> all_closing p" using advances_news(4) [OF adv] True assms(2) by (auto simp: all_closing_def)
    then have w: "weak_phase s" "p_state s \<noteq> POOL_STATE_CLOSING"
      using stays phase pend
      by (cases "p_state p"; auto simp: s_def weak_phase_def phase_inv_def stays_def no_connections_def)+
    from steady_return [OF s, where k = k and v = v and w = w] obtain z where z: "pool_return_connection (current_config cf k v) i w s = Some z"
      "fine cf z" "stays s z" by (auto simp: steady_def)
    have "phase_inv (maybe_notify_ready z)"
      using stays_phase(1) [OF z(3) w(1)] w(2) z(3) by (intro phase_maybe_notify_ready) (auto simp: stays_def)
    then show ?thesis
      using True step z(1) fine_maybe_notify_ready [OF z(2)]
      by (simp add: pool_on_ready_def s_def [symmetric] pool_keeps_def pool_inv_alt)
  qed
qed

lemma steady_flush:
  "fine cf p \<Longrightarrow> set is \<subseteq> dom (p_store p) \<Longrightarrow> steady cf p (flush_all (current_config cf k v) is p)"
proof (induction "is" arbitrary: p)
  case Nil
  then show ?case by (simp add: steady_refl)
next
  case (Cons i "is")
  obtain c where c: "p_store p i = Some c" using Cons.prems(2) by auto
  note r = conjunct1 [OF owned [OF Cons.prems(1) c]]
  have r': "connection_reach (pc_connection cf) (connection_flush c)" using connection_reach.op [OF r, of Op_flush] by simp
  from update_fine [where f = "\<lambda>c. Some (connection_flush c)" and cf = "current_config cf k v", OF _ c refl]
  obtain q where q: "update_connection (current_config cf k v) i (\<lambda>c. Some (connection_flush c)) p = Some q" "fine cf q" "stays p q"
    using Cons.prems(1) r' by (auto simp: connection_flush_def quiet_same)
  have "set is \<subseteq> dom (p_store q)" using Cons.prems(2) q(3) by (auto simp: stays_def)
  from Cons.IH [OF q(2) this] q show ?case by (auto simp: steady_def intro: stays_trans)
qed

lemma pool_keeps_config [simp]: "pool_keeps (current_config cf k v) r = pool_keeps cf r"
  by (simp add: pool_keeps_def pool_inv_alt)

lemma closing_removed:
  assumes fine: "fine cf p" and weak: "weak_phase p" and i: "p_store p i = Some c" "c_uv_closing c"
    and q: "q = p\<lparr>p_pending := filter (\<lambda>j. j \<noteq> i) (p_pending p), p_connections := remove1 i (p_connections p),
                  p_store := (p_store p)(i := None)\<rparr>"
  shows "fine cf q \<and> weak_phase q \<and>
         p_state p \<notin> {POOL_STATE_NEW, POOL_STATE_WAITING_TO_CONNECT, POOL_STATE_CLOSED}"
proof -
  have owns: "owns_inv cf p" using fine by (simp add: fine_def)
  have "is_closing c"
    using reach_inv [OF conjunct1 [OF owned [OF fine i(1)]]] i(2) by (simp add: connection_inv_def told_inv_def)
  then have "\<not> connection_available c" by (auto simp: connection_available_def is_closing_def)
  then have n: "number connection_available ((p_store p)(i := None)) = number connection_available (p_store p)"
    using number_update(3) [of "p_store p" i c connection_available] fine_dom [OF fine] i(1) by simp
  have d: "i \<in> set (p_connections p @ p_pending p)" using fine_dom [OF fine] i(1) by auto
  have "owns_inv cf q"
    using owns i(1) by (auto simp: q owns_inv_def)
  moreover have "count_inv q" using fine n by (auto simp: fine_def count_inv_def q)
  moreover have "weak_phase q"
    using weak d by (auto simp: q weak_phase_def no_connections_def all_closing_def)
  moreover have "\<not> no_connections p" using d by (auto simp: no_connections_def)
  ultimately show ?thesis using weak by (auto simp: fine_def weak_phase_def)
qed

lemma keeps_on_close:
  assumes "pool_inv cf p" and "p_store p i = Some c" and "c_uv_closing c"
  shows "pool_keeps cf (pool_on_close (current_config cf k v) i p)"
proof -
  have fine: "fine cf p" and phase: "phase_inv p" using assms(1) by (simp_all add: pool_inv_alt)
  define q where "q = p\<lparr>p_pending := filter (\<lambda>j. j \<noteq> i) (p_pending p), p_connections := remove1 i (p_connections p),
                  p_store := (p_store p)(i := None)\<rparr>"
  have q: "fine cf q" "weak_phase q" "p_state q = p_state p"
    "p_state p \<notin> {POOL_STATE_NEW, POOL_STATE_WAITING_TO_CONNECT, POOL_STATE_CLOSED}"
    using closing_removed [OF fine _ assms(2,3) q_def] phase by (auto simp: phase_inv_def q_def)
  consider (timeout) "c_error c = ERROR_TIMEOUT" "p_connections q \<noteq> []"
    | (defunct) "\<not> (c_error c = ERROR_TIMEOUT \<and> p_connections q \<noteq> [])" "c_state c = C_CLOSE_DEFUNCT"
    | (other) "\<not> (c_error c = ERROR_TIMEOUT \<and> p_connections q \<noteq> [])" "c_state c \<noteq> C_CLOSE_DEFUNCT"
    by blast
  then show ?thesis
  proof cases
    case timeout
    define s where "s = (if p_connect_timer q = None then q\<lparr>p_connect_timer := Some On_partial_reconnect\<rparr> else q)"
    have "fine cf s \<and> weak_phase s \<and> \<not> no_connections s"
      using q timeout by (auto simp: s_def weak_phase_def no_connections_def all_closing_def)
    then show ?thesis using timeout assms(2)
      by (auto simp: pool_on_close_def q_def [symmetric] s_def [symmetric] pool_keeps_def pool_inv_alt
          intro: fine_maybe_notify_ready phase_maybe_notify_ready)
  next
    case defunct
    let ?q = "q\<lparr>p_is_critical := p_is_critical q \<or> is_critical_failure c\<rparr>"
    have s: "fine cf ?q" "weak_phase ?q"
      using q by (simp_all add: weak_phase_def no_connections_def all_closing_def)
    have "pool_keeps (current_config cf k v) (pool_close (current_config cf k v) False ?q)"
    proof (cases "p_state p = POOL_STATE_CLOSING")
      case False
      then show ?thesis using keeps_close [of "current_config cf k v" ?q False] s q(3,4) by simp
    next
      case True
      then show ?thesis using s q(3) phase_maybe_close [OF s(2)] fine_maybe_close [OF s(1)]
        by (simp add: pool_close_def pool_keeps_def pool_inv_alt)
    qed
    then show ?thesis using defunct assms(2) by (auto simp: pool_on_close_def q_def [symmetric])
  next
    case other
    have "fine cf (maybe_close (maybe_notify_ready q))" using q(1) by (intro fine_maybe_close fine_maybe_notify_ready)
    moreover have "phase_inv (maybe_close (maybe_notify_ready q))"
      by (rule phase_maybe_close [OF weak_maybe_notify_ready [OF q(2)] maybe_notify_ready_done])
    ultimately show ?thesis using other assms(2)
      by (auto simp: pool_on_close_def q_def [symmetric] pool_keeps_def pool_inv_alt)
  qed
qed

lemma steady_wait: "fine cf p \<Longrightarrow> steady cf p (Some (wait_for_connection cf' r p))"
proof -
  assume fine: "fine cf p"
  let ?q = "(pool_calls (Start_request_timer r) p)\<lparr>p_requests := p_requests p @ [r]\<rparr>"
  have "fine cf ?q" "stays p ?q"
    using fine by (auto intro: fine_calls stays_trans [OF stays_calls stays_requests(1)])
  then show ?thesis
    by (auto simp: wait_for_connection_def add_pending_request_def Let_def steady_def pool_calls_def
        intro: fine_set_is_available stays_trans [OF _ stays_set_is_available])
qed

lemma steady_request_timeout:
  assumes "fine cf p" and "phase_inv p"
  shows "steady cf p (Some (on_pending_request_timeout cf' r p))"
proof -
  let ?q = "pool_calls (Next_host_and_retry r) (remove_pending_request cf' r p)"
  have q: "fine cf ?q" "stays p ?q"
    using assms(1) stays_trans [OF stays_requests(1) stays_set_is_available, of p cf' True "remove1 r (p_requests p)"]
    by (auto simp: remove_pending_request_def intro!: fine_calls fine_set_is_available stays_trans [OF _ stays_calls])
  have "maybe_close ?q = ?q"
    using stays_phase(2) [OF q(2) assms(2)] by (auto simp: maybe_close_def phase_inv_def no_connections_def)
  then show ?thesis using q by (simp add: on_pending_request_timeout_def steady_def)
qed

lemma keeps_borrow:
  assumes "pool_inv cf p"
  shows "pool_keeps cf (map_option snd (borrow_connection cf' f g p))"
proof (cases "p_connections p = []")
  case True
  from repeat_inv [of "pool_inv cf" "maybe_spawn_connection cf'" p "pc_core_connections cf'"] maybe_spawn_keeps assms
  obtain q where "repeat (pc_core_connections cf') (maybe_spawn_connection cf') p = Some q" "pool_inv cf q" by blast
  then show ?thesis using True by (simp add: borrow_connection_def pool_keeps_def)
next
  case False
  then show ?thesis using assms maybe_spawn_keeps [OF assms, of cf']
    by (auto simp: borrow_connection_def Let_def pool_keeps_def)
qed

lemma keeps_timer:
  assumes "pool_inv cf p"
  shows "pool_keeps cf (run_pool_op (current_config cf k v) Pool_timer p)"
proof -
  have fine: "fine cf p" and phase: "phase_inv p" using assms by (simp_all add: pool_inv_alt)
  consider "p_connect_timer p = None" | (wait) "p_connect_timer p = Some On_wait_to_connect"
    | (partial) "p_connect_timer p = Some On_partial_reconnect"
    by (metis option.exhaust pool_callback.exhaust)
  then show ?thesis
  proof cases
    case 1
    then show ?thesis using assms by (simp add: pool_keeps_def)
  next
    case wait
    have "pool_connect (current_config cf k v) (p\<lparr>p_connect_timer := None\<rparr>) = pool_connect (current_config cf k v) p"
      using wait phase by (simp add: pool_connect_def phase_inv_def weak_phase_def)
    then show ?thesis using wait keeps_connect [OF assms] by (simp add: on_wait_to_connect_def)
  next
    case partial
    let ?q = "p\<lparr>p_connect_timer := None\<rparr>"
    have s: "p_state p \<noteq> POOL_STATE_NEW \<and> p_state p \<noteq> POOL_STATE_WAITING_TO_CONNECT"
      using partial phase by (auto simp: phase_inv_def weak_phase_def)
    have q: "pool_inv cf ?q"
      using fine phase s by (auto simp: pool_inv_alt phase_inv_def weak_phase_def no_connections_def all_closing_def)
    define P where "P = (\<lambda>q. pool_inv cf q \<and> p_state q = p_state p)"
    have "P ?q" using q by (simp add: P_def)
    moreover have "\<exists>r. spawn_connection (current_config cf k v) q = Some r \<and> P r" if "P q" for q
      using spawn_keeps [of cf q "current_config cf k v"] that s by (auto simp: P_def)
    ultimately have "\<exists>r. repeat n (spawn_connection (current_config cf k v)) ?q = Some r \<and> P r" for n
      using repeat_inv [of P] by blast
    then show ?thesis using partial q by (auto simp: on_partial_reconnect_def Let_def pool_keeps_def P_def)
  qed
qed

lemma keeps_pool_op:
  assumes "pool_inv cf p" and "pool_enabled cf operation p"
  shows "pool_keeps cf (run_pool_op (current_config cf k v) operation p)"
proof -
  have fine: "fine cf p" and phase: "phase_inv p" using assms(1) by (simp_all add: pool_inv_alt)
  note steady = steady_keeps [OF _ phase]
  show ?thesis
  proof (cases operation)
    case Pool_delayed_connect
    have "phase_inv (delayed_connect p)" "fine cf (delayed_connect p)"
      using phase fine by (auto simp: delayed_connect_def phase_inv_def weak_phase_def no_connections_def)
    then show ?thesis using Pool_delayed_connect by (simp add: pool_keeps_def pool_inv_alt)
  next
    case (Pool_close b)
    then show ?thesis using keeps_close [of "current_config cf k v" p b] fine phase by (simp add: phase_inv_def)
  next
    case (Pool_connection i operation' w)
    then show ?thesis using assms keeps_connection_op by (auto split: option.splits)
  next
    case (Pool_connection_closed i)
    then show ?thesis using assms keeps_on_close by (auto split: option.splits)
  next
    case (Pool_return i w)
    then show ?thesis using assms(2) steady [OF steady_return [OF fine]] by auto
  next
    case (Pool_write i r w)
    then show ?thesis using assms(2) steady [OF steady_write [OF fine, unfolded steady_config]] by (auto split: option.splits)
  next
    case (Pool_flush)
    let ?p = "p\<lparr>p_is_pending_flush := False\<rparr>"
    have "steady cf ?p (flush_all (current_config cf k v) (p_connections p) ?p)"
      using fine fine_dom [OF fine] by (intro steady_flush) simp_all
    then have "steady cf p (flush_all (current_config cf k v) (p_connections p) ?p)"
      by (auto simp: steady_def intro: stays_trans [OF stays_requests(2)])
    then show ?thesis using Pool_flush steady by (simp add: pool_flush_def)
  next
    case (Pool_borrow f g)
    then show ?thesis using keeps_borrow [OF assms(1)] by simp
  next
    case Pool_timer
    then show ?thesis using keeps_timer [OF assms(1)] by simp
  qed (use fine phase assms(1) in \<open>auto intro: keeps_connect steady steady_wait steady_request_timeout\<close>)
qed

lemma pool_new_inv: "pool_inv cf (pool_new is_initial)"
  by (simp add: pool_inv_def pool_new_def owns_inv_def count_inv_def phase_inv_def weak_phase_def no_connections_def number_def)

lemma pool_reach_inv: "pool_reach cf p \<Longrightarrow> pool_inv cf p"
proof (induction rule: pool_reach.induct)
  case (new is_initial)
  then show ?case by (rule pool_new_inv)
next
  case (step p operation keyspace version p')
  then show ?case using keeps_pool_op [of cf p operation keyspace version] by (auto simp: pool_keeps_def)
qed

section \<open>Properties\<close>

text \<open>
  In no order of calls, callbacks and connection events an assertion of a pool or of one of
  its connections fails: the count of available connections never falls below zero.
\<close>

theorem pool_never_asserts:
  assumes "pool_reach cf p" and "pool_enabled cf operation p"
  shows "\<exists>p'. run_pool_op (cf\<lparr>pc_keyspace := keyspace, pc_protocol_version := version\<rparr>) operation p = Some p'"
  using keeps_pool_op [OF pool_reach_inv [OF assms(1)] assms(2)] by (auto simp: pool_keeps_def)

definition example_pool_config :: pool_config where
  "example_pool_config = \<lparr>pc_core_connections = 1, pc_max_connections = 2, pc_max_creation = 1, pc_max_requests = 100,
     pc_high_water_mark = 128, pc_low_water_mark = 64, pc_connection = example_config, pc_keyspace = [],
     pc_protocol_version = 3\<rparr>"

fun run_pool_ops :: "pool_config \<Rightarrow> pool_op list \<Rightarrow> pool \<Rightarrow> pool option" where
  "run_pool_ops cf [] p = Some p"
| "run_pool_ops cf (x # xs) p = run_pool_op cf x p \<bind> run_pool_ops cf xs"

fun pool_ops_enabled :: "pool_config \<Rightarrow> pool_op list \<Rightarrow> pool \<Rightarrow> bool" where
  "pool_ops_enabled cf [] p = True"
| "pool_ops_enabled cf (x # xs) p =
     (pool_enabled cf x p \<and> (case run_pool_op cf x p of None \<Rightarrow> False | Some q \<Rightarrow> pool_ops_enabled cf xs q))"

lemma same_config [simp]: "cf\<lparr>pc_keyspace := pc_keyspace cf, pc_protocol_version := pc_protocol_version cf\<rparr> = cf"
  by (cases cf) simp

lemma reach_ops: "pool_reach cf p \<Longrightarrow> pool_ops_enabled cf xs p \<Longrightarrow> run_pool_ops cf xs p = Some q \<Longrightarrow> pool_reach cf q"
proof (induction xs arbitrary: p)
  case Nil
  then show ?case by simp
next
  case (Cons x xs)
  obtain r where r: "run_pool_op cf x p = Some r" "pool_ops_enabled cf xs r" "run_pool_ops cf xs r = Some q"
    using Cons.prems by (auto split: option.splits)
  have "pool_reach cf r"
    using pool_reach.step [OF Cons.prems(1), where operation = x and keyspace = "pc_keyspace cf" and version = "pc_protocol_version cf" and p' = r] Cons.prems(2) r(1) by simp
  then show ?case by (rule Cons.IH [OF _ r(2,3)])
qed

text \<open>A pool with a connection that got through its handshake.\<close>

definition example_ops :: "pool_op list" where
  "example_ops = [Pool_connect, Pool_connection 0 (Op_on_connect True 9) No_stream_id,
     Pool_connection 0 (Op_startup Supported 9) No_stream_id, Pool_connection 0 (Op_startup Ready 9) No_stream_id]"

definition example_pool :: pool where
  "example_pool = the (run_pool_ops example_pool_config example_ops (pool_new False))"

lemma bind_weak_cong: "x = y \<Longrightarrow> Option.bind x f = Option.bind y f" by simp

text \<open>What evaluates the examples, with the argument of a bind first.\<close>

lemmas pool_eval =
  example_pool_config_def example_config_def example_ops_def pool_new_def pool_connect_def spawn_connection_def connect_def
  connection_init_def connection_set_state_def store_connection_def maybe_notify_ready_def pool_connection_op_def
  on_connect_def send_startup_def internal_write_def tell_def connection_flush_def restart_heartbeat_timer_def
  add_to_writes_def flush_writes_def news_def hear_ready_def startup_on_set_def connection_on_ready_def notify_ready_def
  on_availability_change_def set_is_available_def pool_calls_def pool_on_ready_def pool_return_connection_def
  start_closing_def pool_close_def maybe_close_def update_connection_def connection_close_def internal_close_def
  is_closing_def handshaking_def fits_def

lemmas pool_eval_cong = bind_weak_cong let_weak_cong

lemma example_run: "run_pool_ops example_pool_config example_ops (pool_new False) = Some example_pool"
  by (simp add: example_pool_def pool_eval cong: pool_eval_cong)

lemma example_enabled: "pool_ops_enabled example_pool_config example_ops (pool_new False)"
  by (simp add: pool_eval cong: pool_eval_cong)

lemma example_reach: "pool_reach example_pool_config example_pool"
  by (rule reach_ops [OF pool_reach.new example_enabled example_run])

lemma example_state:
  "p_state example_pool = POOL_STATE_READY" "p_connections example_pool = [0]" "p_available_count example_pool = 1"
  "p_is_available example_pool" "p_requests example_pool = []"
  "map_option c_state (p_store example_pool 0) = Some C_READY" "host_changes (p_calls example_pool) = [True]"
  by (simp_all add: example_pool_def pool_eval cong: pool_eval_cong)

theorem pool_never_asserts_witness:
  "\<exists>p'. run_pool_op (example_pool_config\<lparr>pc_keyspace := [1], pc_protocol_version := 2\<rparr>) (Pool_connection 0 Op_defunct No_stream_id)
     example_pool = Some p'"
proof (rule pool_never_asserts [OF example_reach])
  show "pool_enabled example_pool_config (Pool_connection 0 Op_defunct No_stream_id) example_pool"
    using example_state(6) by (cases "p_store example_pool 0") simp_all
qed

text \<open>
  A pool counts exactly its ready connections; it says that its host is available only
  while there is one, and what it told its worker last is what it thinks, in changes only.
\<close>

theorem pool_counts_ready:
  assumes "pool_reach cf p"
  shows "p_available_count p = int (card {i \<in> set (p_connections p @ p_pending p). map_option c_state (p_store p i) = Some C_READY}) \<and>
         (if p_is_available p then p_available_count p > 0 else True) \<and>
         follow False (host_changes (p_calls p)) = Some (p_is_available p)"
proof -
  have inv: "owns_inv cf p" "count_inv p" using pool_reach_inv [OF assms] by (simp_all add: pool_inv_def)
  have d: "set (p_connections p @ p_pending p) = dom (p_store p)" using inv(1) by (simp add: owns_inv_def)
  have "map_option c_state (p_store p i) = Some C_READY \<longleftrightarrow> connection_available (the (p_store p i))"
    if "i \<in> dom (p_store p)" for i
    using that by (cases "p_store p i") (auto simp: connection_available_def)
  then have "{i \<in> set (p_connections p @ p_pending p). map_option c_state (p_store p i) = Some C_READY} =
        {i \<in> dom (p_store p). connection_available (the (p_store p i))}"
    unfolding d by blast
  then have "number connection_available (p_store p) =
      card {i \<in> set (p_connections p @ p_pending p). map_option c_state (p_store p i) = Some C_READY}"
    by (simp only: number_def)
  then have c: "p_available_count p = int (card {i \<in> set (p_connections p @ p_pending p). map_option c_state (p_store p i) = Some C_READY})"
    using inv(2) unfolding count_inv_def by metis
  have "if p_is_available p then p_available_count p > 0 else True"
    "follow False (host_changes (p_calls p)) = Some (p_is_available p)" using inv(2) by (auto simp: count_inv_def)
  then show ?thesis using c by blast
qed

theorem pool_counts_ready_witness:
  "p_available_count example_pool = 1 \<and> host_changes (p_calls example_pool) = [True] \<and>
   int (card {i \<in> set (p_connections example_pool @ p_pending example_pool).
     map_option c_state (p_store example_pool i) = Some C_READY}) = 1"
  using pool_counts_ready [OF example_reach] example_state(3,7) by simp

text \<open>
  C26: A pool tells its worker that it is ready exactly once, when it is done connecting, also
  when it is closed before its connections are ready; and exactly once that it is closed,
  when it has no connection left; while it connects or closes there are connections it waits
  for.
\<close>

theorem pool_notifies_once:
  assumes "pool_reach cf p"
  shows "ready_calls (p_calls p) \<le> 1 \<and> closed_calls (p_calls p) = of_bool (p_state p = POOL_STATE_CLOSED) \<and>
         (case p_state p of POOL_STATE_READY \<Rightarrow> ready_calls (p_calls p) = 1
           | POOL_STATE_CLOSING \<Rightarrow> ready_calls (p_calls p) = 1
           | POOL_STATE_CLOSED \<Rightarrow> p_allocated p = 0 \<or> ready_calls (p_calls p) = 1
           | _ \<Rightarrow> ready_calls (p_calls p) = 0) \<and>
         (case p_state p of POOL_STATE_CONNECTING \<Rightarrow> p_pending p \<noteq> []
           | POOL_STATE_CLOSING \<Rightarrow> p_connections p @ p_pending p \<noteq> []
           | POOL_STATE_READY \<Rightarrow> True | _ \<Rightarrow> p_connections p @ p_pending p = [])"
proof -
  have "weak_phase p" "phase_inv p" "owns_inv cf p" using pool_reach_inv [OF assms] by (simp_all add: pool_inv_def phase_inv_def)
  moreover have "p_allocated p > 0" if "p_connections p @ p_pending p \<noteq> []"
  proof -
    have "last (p_connections p @ p_pending p) \<in> set (p_connections p @ p_pending p)" using that by (rule last_in_set)
    then have "last (p_connections p @ p_pending p) < p_allocated p"
      using \<open>owns_inv cf p\<close> unfolding owns_inv_def by blast
    then show ?thesis by simp
  qed
  ultimately show ?thesis
    by (cases "p_state p") (auto simp: phase_inv_def weak_phase_def no_connections_def)
qed

theorem pool_notifies_once_witness:
  "ready_calls (p_calls example_pool) = 1 \<and> closed_calls (p_calls example_pool) = 0"
  using pool_notifies_once [OF example_reach] example_state(1) by simp

lemma on_close_closing:
  assumes "pool_inv cf p" and "p_state p = POOL_STATE_CLOSING" and "p_store p i = Some c"
  shows "\<exists>q. pool_on_close cf i p = Some q \<and> pool_inv cf q \<and> p_state q \<in> {POOL_STATE_CLOSING, POOL_STATE_CLOSED} \<and>
           dom (p_store q) = dom (p_store p) - {i}"
proof -
  have "is_closing c" using assms by (auto simp: pool_inv_def phase_inv_def weak_phase_def all_closing_def)
  moreover have "connection_reach (pc_connection cf) c" using assms(1,3) by (simp add: pool_inv_def owns_inv_def)
  ultimately have "c_uv_closing c" using reach_inv by (auto simp: connection_inv_def told_inv_def)
  then have "pool_keeps cf (pool_on_close (current_config cf (pc_keyspace cf) (pc_protocol_version cf)) i p)"
    by (rule keeps_on_close [OF assms(1,3)])
  then obtain q where q: "pool_on_close cf i p = Some q" "pool_inv cf q" by (auto simp: pool_keeps_def)
  moreover have "p_state q \<in> {POOL_STATE_CLOSING, POOL_STATE_CLOSED} \<and> dom (p_store q) = dom (p_store p) - {i}"
    using q(1) assms(2,3)
    by (auto simp: pool_on_close_def maybe_notify_ready_def maybe_close_def pool_close_def pool_calls_def Let_def split: if_splits)
  ultimately show ?thesis by blast
qed

text \<open>
  A closing pool gets closed: its connections are all closed, so that the callbacks of
  their handles follow, and after the last one, in whatever order, the pool is closed and
  its worker was told once.
\<close>

theorem closing_pool_closes:
  assumes "pool_reach cf p" and "p_state p = POOL_STATE_CLOSING" and "mset is = mset (p_connections p @ p_pending p)"
  shows "\<exists>q. run_pool_ops cf (map Pool_connection_closed is) p = Some q \<and> p_state q = POOL_STATE_CLOSED \<and>
           closed_calls (p_calls q) = 1"
proof -
  have inv: "pool_inv cf p" by (rule pool_reach_inv [OF assms(1)])
  have "distinct is \<and> set is = dom (p_store p)"
    using inv mset_eq_setD [OF assms(3)] mset_eq_imp_distinct_iff [OF assms(3)] by (simp add: pool_inv_def owns_inv_def)
  with inv assms(2) show ?thesis
  proof (induction "is" arbitrary: p)
    case Nil
    then have "no_connections p" by (auto simp: pool_inv_def owns_inv_def no_connections_def)
    then show ?case using Nil by (simp add: pool_inv_def phase_inv_def)
  next
    case (Cons i "is")
    obtain c where "p_store p i = Some c" using Cons.prems(3) by auto
    from on_close_closing [OF Cons.prems(1,2) this] obtain q where q: "pool_on_close cf i p = Some q" "pool_inv cf q"
      "p_state q = POOL_STATE_CLOSING \<or> p_state q = POOL_STATE_CLOSED" "dom (p_store q) = dom (p_store p) - {i}" by auto
    have d: "distinct is" "set is = dom (p_store q)" using Cons.prems(3) q(4) by auto
    have n: "no_connections q \<longleftrightarrow> is = []"
      using q(2) d(2) by (cases "is") (auto simp: pool_inv_def owns_inv_def no_connections_def)
    have ph: "p_state q = POOL_STATE_CLOSED \<longrightarrow> no_connections q" "p_state q = POOL_STATE_CLOSING \<longrightarrow> \<not> no_connections q"
      "closed_calls (p_calls q) = of_bool (p_state q = POOL_STATE_CLOSED)"
      using q(2) by (auto simp: pool_inv_def phase_inv_def weak_phase_def)
    show ?case
    proof (cases "is = []")
      case True
      then show ?thesis using q(1,3) n ph by simp
    next
      case False
      then have "p_state q = POOL_STATE_CLOSING" using q(3) n ph(1) by blast
      from Cons.IH [OF q(2) this] d show ?thesis using q(1) by auto
    qed
  qed
qed

definition example_closing :: pool where
  "example_closing = the (run_pool_ops example_pool_config [Pool_close False] example_pool)"

lemma example_closing:
  "run_pool_ops example_pool_config [Pool_close False] example_pool = Some example_closing"
  "p_state example_closing = POOL_STATE_CLOSING" "p_connections example_closing @ p_pending example_closing = [0]"
  by (simp_all add: example_closing_def example_pool_def pool_eval cong: pool_eval_cong)

theorem closing_pool_closes_witness:
  "\<exists>q. run_pool_ops example_pool_config (map Pool_connection_closed [0]) example_closing = Some q \<and>
     p_state q = POOL_STATE_CLOSED \<and> closed_calls (p_calls q) = 1"
proof (rule closing_pool_closes [OF _ example_closing(2)])
  have "pool_ops_enabled example_pool_config [Pool_close False] example_pool"
    using example_closing(1) by (auto split: option.splits bind_splits)
  then show "pool_reach example_pool_config example_closing"
    by (rule reach_ops [OF example_reach _ example_closing(1)])
qed (simp add: example_closing(3))

text \<open>
  \<open>find_least_busy\<close> looks at the connection with the least requests only: when that one is
  overwhelmed, or closing, no connection is lent, however many others are ready and have
  free streams.
\<close>

theorem least_busy_hides_ready:
  assumes "i \<in> set (p_connections p)" and "\<forall>j \<in> set (p_connections p). j \<noteq> i \<longrightarrow> pending_count i < pending_count j"
    and "map_option c_state (p_store p i) \<noteq> Some C_READY" and "borrow_connection cf pending_count streams p = Some (borrowed, q)"
  shows "borrowed = None"
proof -
  have "min_element pending_count j js = i"
    if "i \<in> set (j # js)" "\<forall>k \<in> set (j # js). k \<noteq> i \<longrightarrow> pending_count i < pending_count k" for j js
    using that
  proof (induction js arbitrary: j)
    case Nil
    then show ?case by simp
  next
    case (Cons k js)
    have "k \<noteq> i \<Longrightarrow> pending_count i < pending_count k" "j \<noteq> i \<Longrightarrow> pending_count i < pending_count j" using Cons.prems(2) by auto
    then have "i \<in> set ((if pending_count k < pending_count j then k else j) # js)"
      using Cons.prems(1) by (cases "k = i"; cases "j = i") auto
    moreover have "\<forall>l \<in> set ((if pending_count k < pending_count j then k else j) # js). l \<noteq> i \<longrightarrow> pending_count i < pending_count l"
      using Cons.prems(2) by simp
    ultimately show ?case using Cons.IH by (simp split: if_splits)
  qed
  moreover have ne: "p_connections p \<noteq> []" using assms(1) by auto
  ultimately have "min_element pending_count (hd (p_connections p)) (tl (p_connections p)) = i"
    using assms(1,2) by (metis list.collapse)
  then have "find_least_busy pending_count streams p = None" using assms(3) by (simp add: find_least_busy_def)
  then show ?thesis using assms(4) ne by (auto simp: borrow_connection_def bind_eq_Some_conv)
qed

theorem least_busy_hides_ready_witness:
  "let p = (pool_new False)\<lparr>p_connections := [0, 1], p_state := POOL_STATE_READY,
     p_store := [0 \<mapsto> (connection_init [] 3 0)\<lparr>c_state := C_OVERWHELMED\<rparr>, 1 \<mapsto> (connection_init [] 3 0)\<lparr>c_state := C_READY\<rparr>]\<rparr>
   in map_option fst (borrow_connection (example_pool_config\<lparr>pc_max_connections := 2\<rparr>) (\<lambda>i. i) (\<lambda>i. 100) p) = Some None"
proof -
  define p where "p = (pool_new False)\<lparr>p_connections := [0, 1], p_state := POOL_STATE_READY,
     p_store := [0 \<mapsto> (connection_init [] 3 0)\<lparr>c_state := C_OVERWHELMED\<rparr>, 1 \<mapsto> (connection_init [] 3 0)\<lparr>c_state := C_READY\<rparr>]\<rparr>"
  let ?cf = "example_pool_config\<lparr>pc_max_connections := 2\<rparr>"
  have m: "maybe_spawn_connection ?cf p = Some p"
    by (simp add: p_def maybe_spawn_connection_def example_pool_config_def pool_new_def)
  have "find_least_busy (\<lambda>i. i) (\<lambda>i. 100) p = None"
    by (simp add: p_def find_least_busy_def pool_new_def connection_init_def)
  then obtain borrowed q where b: "borrow_connection ?cf (\<lambda>i. i) (\<lambda>i. 100) p = Some (borrowed, q)"
    using m by (simp add: borrow_connection_def p_def)
  have "borrowed = None"
    by (rule least_busy_hides_ready [of 0 p "\<lambda>i. i", OF _ _ _ b]) (simp_all add: p_def pool_new_def connection_init_def)
  then show ?thesis using b by (simp add: p_def)
qed

end
