(* ===== verification/IO_Worker.thy ===== *)
theory IO_Worker
  imports Pool Address "HOL-Library.AList"
begin

text \<open>
  \<open>io_worker.hpp\<close> and \<open>io_worker.cpp\<close>: the pools of a worker, the hosts it takes for
  unavailable, its closing and what it tells the session. The pools are those of theory \<open>Pool\<close>
  and their calls are answered in order; the search for a host that takes a request is
  \<open>io_worker_retry\<close> of theory \<open>Request_Handler\<close>. The locks, the event queue and the libuv
  handles are not modelled: an event, a callback or a call is one step.
\<close>

section \<open>What pool operations append\<close>

text \<open>No operation opens a pool again that is closing or closed.\<close>

definition closes :: "pool \<Rightarrow> bool" where
  "closes p \<longleftrightarrow> p_state p = POOL_STATE_CLOSING \<or> p_state p = POOL_STATE_CLOSED"

definition grows :: "pool \<Rightarrow> pool \<Rightarrow> bool" where
  "grows p p' \<longleftrightarrow> (\<exists>xs. p_calls p' = p_calls p @ xs) \<and> p_is_initial p' = p_is_initial p \<and> (closes p \<longrightarrow> closes p')"

lemma grows_refl [intro, simp]: "grows p p" by (simp add: grows_def)

lemma grows_trans: "grows p q \<Longrightarrow> grows q r \<Longrightarrow> grows p r" by (auto simp: grows_def)

lemma grows_fields [simp]:
  "grows (p\<lparr>p_connections := x1\<rparr>) q = grows p q" "grows q (p\<lparr>p_connections := x1\<rparr>) = grows q p"
  "grows (p\<lparr>p_pending := x2\<rparr>) q = grows p q" "grows q (p\<lparr>p_pending := x2\<rparr>) = grows q p"
  "grows (p\<lparr>p_store := x3\<rparr>) q = grows p q" "grows q (p\<lparr>p_store := x3\<rparr>) = grows q p"
  "grows (p\<lparr>p_allocated := x4\<rparr>) q = grows p q" "grows q (p\<lparr>p_allocated := x4\<rparr>) = grows q p"
  "grows (p\<lparr>p_requests := x5\<rparr>) q = grows p q" "grows q (p\<lparr>p_requests := x5\<rparr>) = grows q p"
  "grows (p\<lparr>p_available_count := x6\<rparr>) q = grows p q" "grows q (p\<lparr>p_available_count := x6\<rparr>) = grows q p"
  "grows (p\<lparr>p_is_available := x7\<rparr>) q = grows p q" "grows q (p\<lparr>p_is_available := x7\<rparr>) = grows q p"
  "grows (p\<lparr>p_is_critical := x8\<rparr>) q = grows p q" "grows q (p\<lparr>p_is_critical := x8\<rparr>) = grows q p"
  "grows (p\<lparr>p_is_pending_flush := x9\<rparr>) q = grows p q" "grows q (p\<lparr>p_is_pending_flush := x9\<rparr>) = grows q p"
  "grows (p\<lparr>p_cancel_reconnect := x10\<rparr>) q = grows p q" "grows q (p\<lparr>p_cancel_reconnect := x10\<rparr>) = grows q p"
  "grows (p\<lparr>p_connect_timer := x11\<rparr>) q = grows p q" "grows q (p\<lparr>p_connect_timer := x11\<rparr>) = grows q p"
  by (simp_all add: grows_def closes_def)

lemma grows_store [simp]: "grows (store_connection i c p) q = grows p q"
  by (simp add: store_connection_def)

lemma grows_calls: "grows p q \<Longrightarrow> grows p (pool_calls x q)"
  by (auto simp: grows_def pool_calls_def closes_def)

lemma grows_set_is_available: "grows p q \<Longrightarrow> grows p (set_is_available cf b q)"
  by (auto simp: set_is_available_def pool_calls_def grows_def closes_def)

lemma grows_hear: "hear cf es p = Some q \<Longrightarrow> grows p q"
proof (induction cf es p rule: hear.induct)
  case (2 cf b es p)
  obtain r where r: "on_availability_change cf b p = Some r" "hear cf es r = Some q"
    using "2.prems" by (auto simp: bind_eq_Some_conv)
  have "grows p r"
    using r(1) by (auto simp: on_availability_change_def Let_def split: if_splits intro!: grows_set_is_available)
  then show ?case using "2.IH" [OF r] by (rule grows_trans)
qed auto

lemma grows_update: "update_connection cf i f p = Some q \<Longrightarrow> grows p q"
  by (auto simp: update_connection_def bind_eq_Some_conv dest: grows_hear)

lemma grows_close_all: "close_all cf is p = Some q \<Longrightarrow> grows p q"
  by (induction cf "is" p rule: close_all.induct)
    (auto simp: bind_eq_Some_conv intro: grows_trans [OF grows_update])

lemma grows_flush_all: "flush_all cf is p = Some q \<Longrightarrow> grows p q"
  by (induction cf "is" p rule: flush_all.induct)
    (auto simp: bind_eq_Some_conv intro: grows_trans [OF grows_update])

lemma grows_spawn: "spawn_connection cf p = Some q \<Longrightarrow> grows p q"
  by (auto simp: spawn_connection_def bind_eq_Some_conv store_connection_def split: if_splits)

lemma grows_maybe_spawn: "maybe_spawn_connection cf p = Some q \<Longrightarrow> grows p q"
  by (auto simp: maybe_spawn_connection_def split: if_splits intro: grows_spawn)

lemma grows_repeat:
  assumes "\<And>p q. f p = Some q \<Longrightarrow> grows p q"
  shows "repeat n f p = Some q \<Longrightarrow> grows p q"
  by (induction n arbitrary: p) (auto simp: bind_eq_Some_conv intro: grows_trans assms)

lemma grows_maybe: "grows p q \<Longrightarrow> grows p (maybe_notify_ready q)" "grows p q \<Longrightarrow> grows p (maybe_close q)"
  by (auto simp: maybe_notify_ready_def maybe_close_def pool_calls_def grows_def closes_def)

lemma grows_connect: "pool_connect cf p = Some q \<Longrightarrow> grows p q"
proof (cases "p_state p = POOL_STATE_NEW \<or> p_state p = POOL_STATE_WAITING_TO_CONNECT")
  case True
  assume "pool_connect cf p = Some q"
  then obtain r where r: "repeat (pc_core_connections cf) (spawn_connection cf) (p\<lparr>p_connect_timer := None\<rparr>) = Some r"
    "q = maybe_notify_ready (r\<lparr>p_state := POOL_STATE_CONNECTING\<rparr>)"
    using True by (auto simp: pool_connect_def bind_eq_Some_conv)
  have "grows p r" using grows_repeat [OF grows_spawn r(1)] by simp
  then have "grows p (r\<lparr>p_state := POOL_STATE_CONNECTING\<rparr>)" using True by (auto simp: grows_def closes_def)
  then show ?thesis unfolding r(2) by (rule grows_maybe)
qed (auto simp: pool_connect_def)

lemma grows_close:
  assumes "pool_close cf b p = Some q" shows "grows p q"
proof -
  define s where "s = (set_is_available cf False (start_closing p))\<lparr>p_cancel_reconnect := b\<rparr>"
  have "grows p (start_closing p)" by (auto simp: start_closing_def Let_def grows_def pool_calls_def closes_def)
  then have "grows p (set_is_available cf False (start_closing p))" by (rule grows_set_is_available)
  then have s: "grows p s" by (simp add: s_def)
  obtain r where r: "q = maybe_close r" "r = p \<or> close_all cf (p_connections s @ p_pending s) s = Some r"
    using assms by (auto simp: pool_close_def s_def Let_def bind_eq_Some_conv split: if_splits)
  have "grows p r" using r(2) s grows_close_all grows_trans by blast
  then show ?thesis unfolding r(1) by (rule grows_maybe)
qed

lemma grows_write:
  assumes "pool_write cf i r w p = Some (b, q)" shows "grows p q"
proof -
  obtain s where s: "update_connection cf i (connection_write (pc_connection cf) w) p = Some s"
    using assms by (auto simp: pool_write_def bind_eq_Some_conv)
  then show ?thesis using grows_update [OF s] assms
    by (auto simp: pool_write_def bind_eq_Some_conv Let_def split: if_splits intro!: grows_calls)
qed

lemma grows_return:
  assumes "pool_return_connection cf i w p = Some q" shows "grows p q"
proof (cases "p_requests p")
  case Nil
  then show ?thesis using assms by (auto simp: pool_return_connection_def bind_eq_Some_conv)
next
  case (Cons r rs)
  define s where "s = pool_calls (Stop_request_timer r) (remove_pending_request cf r p)"
  have s: "grows p s" by (auto simp: s_def remove_pending_request_def intro!: grows_calls grows_set_is_available)
  consider "q = p" | u where "pool_write cf i r w s = Some (True, u)" "q = u"
    | u where "pool_write cf i r w s = Some (False, u)" "q = pool_calls (Next_host_and_retry r) u"
    using assms Cons by (auto simp: pool_return_connection_def s_def bind_eq_Some_conv split: if_splits)
  then show ?thesis
  proof cases
    case 2
    then show ?thesis using grows_trans [OF s grows_write [OF 2(1)]] by simp
  next
    case 3
    then show ?thesis using grows_calls [OF grows_trans [OF s grows_write [OF 3(1)]]] by simp
  qed simp
qed

lemma grows_connection_op:
  assumes "pool_connection_op cf i operation w p = Some q" shows "grows p q"
proof -
  obtain c c' r where r: "hear cf (news c c') (store_connection i c' p) = Some r"
    "(if Notify_ready \<in> set (news c c') then pool_on_ready cf i w r else Some r) = Some q"
    using assms by (auto simp: pool_connection_op_def hear_ready_def bind_eq_Some_conv)
  have "grows p r" using grows_hear [OF r(1)] by simp
  moreover have "grows r q"
    using r(2) by (auto simp: pool_on_ready_def bind_eq_Some_conv split: if_splits
        intro!: grows_maybe dest: grows_return)
  ultimately show ?thesis by (rule grows_trans)
qed

lemma grows_on_close: "pool_on_close cf i p = Some q \<Longrightarrow> grows p q"
  by (auto simp: pool_on_close_def bind_eq_Some_conv Let_def split: if_splits
      intro!: grows_maybe dest: grows_close)

lemma grows_op: "run_pool_op cf operation p = Some q \<Longrightarrow> grows p q"
proof (cases operation)
  case (Pool_borrow f g)
  assume "run_pool_op cf operation p = Some q"
  then show ?thesis using Pool_borrow
    by (auto simp: borrow_connection_def bind_eq_Some_conv Let_def split: if_splits
        intro: grows_repeat [OF grows_maybe_spawn] grows_maybe_spawn)
next
  case Pool_timer
  assume "run_pool_op cf operation p = Some q"
  then show ?thesis using Pool_timer
    by (auto simp: on_wait_to_connect_def on_partial_reconnect_def Let_def
        split: option.splits pool_callback.splits if_splits
        dest: grows_connect grows_repeat [OF grows_spawn, rotated -1])
next
  case Pool_delayed_connect
  assume "run_pool_op cf operation p = Some q"
  then show ?thesis using Pool_delayed_connect by (auto simp: delayed_connect_def grows_def closes_def split: if_splits)
qed (auto simp: pool_flush_def wait_for_connection_def add_pending_request_def Let_def
      on_pending_request_timeout_def remove_pending_request_def split: if_splits
      intro: grows_connect grows_close grows_connection_op grows_on_close grows_return grows_write
      dest: grows_flush_all intro!: grows_maybe grows_calls grows_set_is_available)

section \<open>State\<close>

datatype worker_state = IO_WORKER_STATE_READY | IO_WORKER_STATE_CLOSING | IO_WORKER_STATE_CLOSED

text \<open>
  What the worker tells the session, and the requests it lets find a connection
  (\<open>Try\<close> from the current host on, \<open>Try_next\<close> from the next one on).
\<close>

datatype worker_call =
    Notify_ready_async | Notify_up_async address | Notify_down_async address | Notify_worker_closed_async
  | Session_keyspace bytes | Try nat | Try_next nat | Queue_send

text \<open>
  The map of the pools is the list of its entries. A pool is in the vector of the pending
  flushes while its flag is set; one that was erased from the map before its flush lingers
  until then. \<open>None\<close> in the request queue is the request to close.
\<close>

record io_worker =
  w_state :: worker_state
  w_keyspace :: bytes
  w_protocol_version :: int
  w_unavailable :: "address set"
  w_pools :: "(address \<times> pool) list"
  w_lingering :: "pool list"
  w_pending_requests :: int
  w_queue :: "nat option list"
  w_calls :: "worker_call list"

record worker_config =
  wc_pool :: pool_config
  wc_max_requests_per_flush :: nat
  wc_queue_size :: nat

definition worker_new :: io_worker where
  "worker_new =
     \<lparr>w_state = IO_WORKER_STATE_READY, w_keyspace = [], w_protocol_version = - 1, w_unavailable = {},
      w_pools = [], w_lingering = [], w_pending_requests = 0, w_queue = [], w_calls = []\<rparr>"

definition worker_tell :: "worker_call \<Rightarrow> io_worker \<Rightarrow> io_worker" where
  "worker_tell x w = w\<lparr>w_calls := w_calls w @ [x]\<rparr>"

definition worker_is_closing :: "io_worker \<Rightarrow> bool" where
  "worker_is_closing w \<longleftrightarrow> w_state w = IO_WORKER_STATE_CLOSING"

definition worker_is_ready :: "io_worker \<Rightarrow> bool" where
  "worker_is_ready w \<longleftrightarrow> w_state w = IO_WORKER_STATE_READY"

definition pool_config_of :: "worker_config \<Rightarrow> io_worker \<Rightarrow> pool_config" where
  "pool_config_of cf w = (wc_pool cf)\<lparr>pc_keyspace := w_keyspace w, pc_protocol_version := w_protocol_version w\<rparr>"

definition set_keyspace :: "bytes \<Rightarrow> io_worker \<Rightarrow> io_worker" where
  "set_keyspace k w = w\<lparr>w_keyspace := k\<rparr>"

definition worker_broadcast_keyspace_change :: "bytes \<Rightarrow> io_worker \<Rightarrow> io_worker" where
  "worker_broadcast_keyspace_change k w = worker_tell (Session_keyspace k) (set_keyspace k w)"

definition is_host_up :: "address \<Rightarrow> io_worker \<Rightarrow> bool" where
  "is_host_up a w = (case map_of (w_pools w) a of None \<Rightarrow> False | Some p \<Rightarrow> pool_is_ready p)"

definition set_host_is_available :: "address \<Rightarrow> bool \<Rightarrow> io_worker \<Rightarrow> io_worker" where
  "set_host_is_available a is_available w =
     (if is_available then w\<lparr>w_unavailable := w_unavailable w - {a}\<rparr>
      else w\<lparr>w_unavailable := insert a (w_unavailable w)\<rparr>)"

definition is_host_available :: "address \<Rightarrow> io_worker \<Rightarrow> bool" where
  "is_host_available a w \<longleftrightarrow> a \<notin> w_unavailable w"

section \<open>What the pools tell\<close>

definition notify_pool_ready :: "address \<Rightarrow> pool \<Rightarrow> bool \<Rightarrow> io_worker \<Rightarrow> io_worker" where
  "notify_pool_ready a p is_ready w =
     (if p_is_initial p then worker_tell Notify_ready_async w
      else if worker_is_ready w \<and> is_ready then worker_tell (Notify_up_async a) w
      else w)"

text \<open>A closed event loop takes no further events.\<close>

definition maybe_notify_closed :: "io_worker \<Rightarrow> io_worker" where
  "maybe_notify_closed w =
     (if worker_is_closing w \<and> w_pools w = []
      then worker_tell Notify_worker_closed_async (w\<lparr>w_state := IO_WORKER_STATE_CLOSED\<rparr>) else w)"

definition schedule_reconnect :: "address \<Rightarrow> io_worker \<Rightarrow> io_worker" where
  "schedule_reconnect a w =
     (if map_of (w_pools w) a = None
      then w\<lparr>w_pools := AList.update a (delayed_connect (pool_new False)) (w_pools w)\<rparr> else w)"

text \<open>The destructor of a pool sends the requests that wait in it to their next hosts.\<close>

definition destroy_pool :: "pool \<Rightarrow> io_worker \<Rightarrow> io_worker" where
  "destroy_pool p w =
     w\<lparr>w_calls := w_calls w @ concat (map (\<lambda>x. case x of Next_host_and_retry r \<Rightarrow> [Try_next r] | _ \<Rightarrow> [])
                                          (pool_destroy (p_requests p)))\<rparr>"

definition erase_pool :: "address \<Rightarrow> pool \<Rightarrow> io_worker \<Rightarrow> io_worker" where
  "erase_pool a p w =
     (let w = w\<lparr>w_pools := AList.delete a (w_pools w)\<rparr>
      in if p_is_pending_flush p then w\<lparr>w_lingering := w_lingering w @ [p]\<rparr> else destroy_pool p w)"

definition notify_pool_closed :: "address \<Rightarrow> pool \<Rightarrow> io_worker \<Rightarrow> io_worker" where
  "notify_pool_closed a p w =
     (let w = erase_pool a p w
      in if worker_is_closing w then maybe_notify_closed w
         else
           let w = worker_tell (Notify_down_async a) w
           in if \<not> p_is_critical p \<and> \<not> p_cancel_reconnect p then schedule_reconnect a w else w)"

text \<open>
  A call of the pool of an address; writes and timers of requests, and the vector of the
  pending flushes, are part of the pools.
\<close>

definition answer_call :: "address \<Rightarrow> pool \<Rightarrow> pool_call \<Rightarrow> io_worker \<Rightarrow> io_worker" where
  "answer_call a p x w =
     (case x of
        Set_host_is_available b \<Rightarrow> set_host_is_available a b w
      | Notify_pool_ready b \<Rightarrow> notify_pool_ready a p b w
      | Notify_pool_closed \<Rightarrow> notify_pool_closed a p w
      | Next_host_and_retry r \<Rightarrow> worker_tell (Try_next r) w
      | _ \<Rightarrow> w)"

definition pool_news :: "pool \<Rightarrow> pool \<Rightarrow> pool_call list" where
  "pool_news p p' = drop (length (p_calls p)) (p_calls p')"

definition worker_pool_op :: "worker_config \<Rightarrow> address \<Rightarrow> pool_op \<Rightarrow> io_worker \<Rightarrow> io_worker option" where
  "worker_pool_op cf a operation w =
     do { p \<leftarrow> map_of (w_pools w) a;
          p' \<leftarrow> run_pool_op (pool_config_of cf w) operation p;
          Some (fold (answer_call a p') (pool_news p p') (w\<lparr>w_pools := AList.update a p' (w_pools w)\<rparr>)) }"

section \<open>Events\<close>

text \<open>An operation on the pools of some addresses, one after the other.\<close>


fun each_pool :: "worker_config \<Rightarrow> pool_op \<Rightarrow> address list \<Rightarrow> io_worker \<Rightarrow> io_worker option" where
  "each_pool cf operation [] w = Some w"
| "each_pool cf operation (a # as) w = worker_pool_op cf a operation w \<bind> each_pool cf operation as"

definition add_pool :: "worker_config \<Rightarrow> address \<Rightarrow> bool \<Rightarrow> io_worker \<Rightarrow> io_worker option" where
  "add_pool cf a is_initial w =
     (if \<not> worker_is_ready w then Some w
      else if map_of (w_pools w) a = None then
        let w = set_host_is_available a False w
        in worker_pool_op cf a Pool_connect (w\<lparr>w_pools := AList.update a (pool_new is_initial) (w_pools w)\<rparr>)
      else worker_pool_op cf a Pool_connect w)"

definition on_remove_pool :: "worker_config \<Rightarrow> address \<Rightarrow> bool \<Rightarrow> io_worker \<Rightarrow> io_worker option" where
  "on_remove_pool cf a cancel_reconnect w =
     (if map_of (w_pools w) a = None then Some w else worker_pool_op cf a (Pool_close cancel_reconnect) w)"

text \<open>
  \<open>maybe_close\<close> goes over the entries there are when it begins; without core connections it
  closes the first pool until there is none.
\<close>

partial_function (option) close_first :: "worker_config \<Rightarrow> io_worker \<Rightarrow> io_worker option" where
  "close_first cf w =
     (case w_pools w of
        [] \<Rightarrow> Some w
      | (a, p) # _ \<Rightarrow> worker_pool_op cf a (Pool_close False) w \<bind> close_first cf)"

definition worker_maybe_close :: "worker_config \<Rightarrow> io_worker \<Rightarrow> io_worker option" where
  "worker_maybe_close cf w =
     (if worker_is_closing w \<and> w_pending_requests w \<le> 0 then
        if pc_core_connections (wc_pool cf) > 0 then
          do { w \<leftarrow> each_pool cf (Pool_close False) (map fst (w_pools w)) w; Some (maybe_notify_closed w) }
        else close_first cf w
      else Some w)"

definition request_finished :: "worker_config \<Rightarrow> io_worker \<Rightarrow> io_worker option" where
  "request_finished cf w =
     do { w \<leftarrow> worker_maybe_close cf (w\<lparr>w_pending_requests := w_pending_requests w - 1\<rparr>);
          Some (worker_tell Queue_send w) }"

definition worker_enqueue :: "worker_config \<Rightarrow> nat option \<Rightarrow> io_worker \<Rightarrow> bool \<times> io_worker" where
  "worker_enqueue cf r w =
     (if length (w_queue w) < wc_queue_size cf then (True, w\<lparr>w_queue := w_queue w @ [r]\<rparr>) else (False, w))"

fun dequeue_requests :: "nat \<Rightarrow> io_worker \<Rightarrow> io_worker" where
  "dequeue_requests 0 w = w"
| "dequeue_requests (Suc remaining) w =
     (case w_queue w of
        [] \<Rightarrow> w
      | Some r # q \<Rightarrow>
          dequeue_requests remaining
            (worker_tell (Try r) (w\<lparr>w_queue := q, w_pending_requests := w_pending_requests w + 1\<rparr>))
      | None # q \<Rightarrow> dequeue_requests remaining (w\<lparr>w_queue := q, w_state := IO_WORKER_STATE_CLOSING\<rparr>))"

definition worker_on_execute :: "worker_config \<Rightarrow> io_worker \<Rightarrow> io_worker option" where
  "worker_on_execute cf w = worker_maybe_close cf (dequeue_requests (wc_max_requests_per_flush cf) w)"

definition on_prepare :: "worker_config \<Rightarrow> io_worker \<Rightarrow> io_worker option" where
  "on_prepare cf w =
     do { w \<leftarrow> each_pool cf Pool_flush (map fst (filter (\<lambda>(a, p). p_is_pending_flush p) (w_pools w))) w;
          Some ((fold destroy_pool (w_lingering w) w)\<lparr>w_lingering := []\<rparr>) }"

section \<open>What happens to a worker\<close>

datatype worker_op =
    Worker_add address bool | Worker_remove address bool | Worker_pool address pool_op | Worker_enqueue "nat option"
  | Worker_execute | Worker_finished | Worker_prepare | Worker_keyspace bytes | Worker_version int

fun run_worker_op :: "worker_config \<Rightarrow> worker_op \<Rightarrow> io_worker \<Rightarrow> io_worker option" where
  "run_worker_op cf (Worker_add a is_initial) w = add_pool cf a is_initial w"
| "run_worker_op cf (Worker_remove a cancel) w = on_remove_pool cf a cancel w"
| "run_worker_op cf (Worker_pool a operation) w = worker_pool_op cf a operation w"
| "run_worker_op cf (Worker_enqueue r) w = Some (snd (worker_enqueue cf r w))"
| "run_worker_op cf Worker_execute w = worker_on_execute cf w"
| "run_worker_op cf Worker_finished w = request_finished cf w"
| "run_worker_op cf Worker_prepare w = on_prepare cf w"
| "run_worker_op cf (Worker_keyspace k) w = Some (worker_broadcast_keyspace_change k w)"
| "run_worker_op cf (Worker_version v) w = Some (w\<lparr>w_protocol_version := v\<rparr>)"

text \<open>
  What a pool gets other than from the worker; the events and the async and prepare callbacks
  come only until their handles are closed.
\<close>

fun pool_callback_op :: "pool_op \<Rightarrow> bool" where
  "pool_callback_op Pool_connect = False"
| "pool_callback_op Pool_delayed_connect = False"
| "pool_callback_op (Pool_close b) = False"
| "pool_callback_op Pool_flush = False"
| "pool_callback_op _ = True"

fun worker_enabled :: "worker_config \<Rightarrow> worker_op \<Rightarrow> io_worker \<Rightarrow> bool" where
  "worker_enabled cf (Worker_pool a operation) w =
     (pool_callback_op operation \<and>
      (case map_of (w_pools w) a of None \<Rightarrow> False | Some p \<Rightarrow> pool_enabled (wc_pool cf) operation p))"
| "worker_enabled cf Worker_finished w = (w_pending_requests w > 0)"
| "worker_enabled cf (Worker_enqueue r) w = True"
| "worker_enabled cf (Worker_keyspace k) w = True"
| "worker_enabled cf (Worker_version v) w = True"
| "worker_enabled cf _ w = (w_state w \<noteq> IO_WORKER_STATE_CLOSED)"

inductive worker_reach :: "worker_config \<Rightarrow> io_worker \<Rightarrow> bool" for cf where
  new: "worker_reach cf worker_new"
| step: "worker_reach cf w \<Longrightarrow> worker_enabled cf operation w \<Longrightarrow> run_worker_op cf operation w = Some w' \<Longrightarrow> worker_reach cf w'"

section \<open>What a pool promises to its worker\<close>

definition pool_step :: "pool \<Rightarrow> pool \<Rightarrow> bool" where
  "pool_step p p' \<longleftrightarrow> count_inv p \<and> count_inv p' \<and> grows p p'"

lemma grows_news: "grows p p' \<Longrightarrow> p_calls p' = p_calls p @ pool_news p p'"
  by (auto simp: grows_def pool_news_def)

lemma pool_step_follow:
  "pool_step p p' \<Longrightarrow> follow (p_is_available p) (host_changes (pool_news p p')) = Some (p_is_available p')"
  by (auto simp: pool_step_def count_inv_def follow_append dest!: grows_news)

interpretation pools: availability_source p_is_available pool_step "\<lambda>p p'. host_changes (pool_news p p')"
  by unfold_locales (rule pool_step_follow)

lemma closed_news:
  assumes "pool_inv cf p" and "pool_inv cf' p'" and "grows p p'"
  shows "closed_calls (pool_news p p') + of_bool (p_state p = POOL_STATE_CLOSED) = of_bool (p_state p' = POOL_STATE_CLOSED)"
proof -
  have "closed_calls (p_calls p') = closed_calls (p_calls p) + closed_calls (pool_news p p')"
    using grows_news [OF assms(3)] by simp
  then show ?thesis using assms(1,2) by (simp add: pool_inv_def phase_inv_def weak_phase_def)
qed

section \<open>The invariant\<close>

definition worker_closed_calls :: "worker_call list \<Rightarrow> nat" where
  "worker_closed_calls xs = length (filter (\<lambda>x. x = Notify_worker_closed_async) xs)"

lemma worker_closed_calls_append [simp]: "worker_closed_calls (xs @ ys) = worker_closed_calls xs + worker_closed_calls ys"
  by (simp add: worker_closed_calls_def)

definition pool_ok :: "worker_config \<Rightarrow> io_worker \<Rightarrow> address \<Rightarrow> pool \<Rightarrow> bool" where
  "pool_ok cf w a p \<longleftrightarrow>
     pool_inv (wc_pool cf) p \<and> p_state p \<noteq> POOL_STATE_CLOSED \<and> (p_is_available p \<longleftrightarrow> is_host_available a w)"

definition worker_weak :: "worker_config \<Rightarrow> io_worker \<Rightarrow> bool" where
  "worker_weak cf w \<longleftrightarrow>
     distinct (map fst (w_pools w)) \<and> (\<forall>a p. map_of (w_pools w) a = Some p \<longrightarrow> pool_ok cf w a p) \<and>
     worker_closed_calls (w_calls w) = of_bool (w_state w = IO_WORKER_STATE_CLOSED) \<and>
     (w_state w = IO_WORKER_STATE_CLOSED \<longrightarrow> w_pools w = [])"

text \<open>A closing worker without requests has pools it waits for, all of them closing.\<close>

definition all_pools_closing :: "io_worker \<Rightarrow> bool" where
  "all_pools_closing w \<longleftrightarrow> (\<forall>a p. map_of (w_pools w) a = Some p \<longrightarrow> p_state p = POOL_STATE_CLOSING)"

definition settled :: "io_worker \<Rightarrow> bool" where
  "settled w \<longleftrightarrow> (worker_is_closing w \<and> w_pending_requests w \<le> 0 \<longrightarrow> w_pools w \<noteq> [] \<and> all_pools_closing w)"

text \<open>The hosts taken for unavailable after the changes one pool told.\<close>

definition told_hosts :: "address \<Rightarrow> bool list \<Rightarrow> address set \<Rightarrow> address set" where
  "told_hosts a bs U = (if bs = [] then U else if last bs then U - {a} else insert a U)"

lemma told_hosts_append: "told_hosts a (xs @ ys) U = told_hosts a ys (told_hosts a xs U)"
  by (auto simp: told_hosts_def)

lemma answers_without_close:
  "closed_calls xs = 0 \<Longrightarrow>
   \<exists>ys. fold (answer_call a p) xs w =
     w\<lparr>w_unavailable := told_hosts a (host_changes xs) (w_unavailable w), w_calls := w_calls w @ ys\<rparr> \<and>
     worker_closed_calls ys = 0"
proof (induction xs arbitrary: w)
  case Nil
  then show ?case by (intro exI [of _ "[]"]) (simp add: told_hosts_def worker_closed_calls_def)
next
  case (Cons x xs)
  have x: "x \<noteq> Notify_pool_closed" and "closed_calls xs = 0" using Cons.prems by (auto split: if_splits)
  obtain zs where z: "answer_call a p x w =
      w\<lparr>w_unavailable := told_hosts a (host_changes [x]) (w_unavailable w), w_calls := w_calls w @ zs\<rparr>"
    "worker_closed_calls zs = 0"
  proof (cases "\<exists>z. answer_call a p x w = worker_tell z w \<and> z \<noteq> Notify_worker_closed_async \<and> host_changes [x] = []")
    case True
    then obtain z where "answer_call a p x w = worker_tell z w" "z \<noteq> Notify_worker_closed_async" "host_changes [x] = []" by blast
    then show ?thesis by (intro that [of "[z]"]) (simp_all add: worker_tell_def told_hosts_def worker_closed_calls_def)
  next
    case False
    then show ?thesis using x
      by (intro that [of "[]"]; cases x)
        (auto simp: answer_call_def told_hosts_def set_host_is_available_def notify_pool_ready_def worker_closed_calls_def split: if_splits)
  qed
  from Cons.IH [OF \<open>closed_calls xs = 0\<close>, of "answer_call a p x w"] obtain ys where
    "fold (answer_call a p) xs (answer_call a p x w) =
      (answer_call a p x w)\<lparr>w_unavailable := told_hosts a (host_changes xs) (w_unavailable (answer_call a p x w)),
        w_calls := w_calls (answer_call a p x w) @ ys\<rparr>" "worker_closed_calls ys = 0" by blast
  then show ?case using z
    by (intro exI [of _ "zs @ ys"]) (simp add: told_hosts_append [of a "host_changes [x]" "host_changes xs", symmetric]
        flip: calls_simps(2))
qed

lemma host_changes_Cons: "host_changes (x # xs) = host_changes [x] @ host_changes xs"
  by (simp add: host_changes_def)

text \<open>The closing of a pool, with the changes told before and after.\<close>

lemma answers_with_close:
  assumes "closed_calls xs = 1"
  shows "\<exists>w1 ys zs. fold (answer_call a p) xs w =
     (notify_pool_closed a p w1)\<lparr>w_unavailable := told_hosts a (host_changes xs) (w_unavailable w),
        w_calls := w_calls (notify_pool_closed a p w1) @ zs\<rparr> \<and>
     w1 = w\<lparr>w_unavailable := w_unavailable w1, w_calls := w_calls w @ ys\<rparr> \<and>
     worker_closed_calls ys = 0 \<and> worker_closed_calls zs = 0"
proof -
  have "Notify_pool_closed \<in> set xs"
  proof (rule ccontr)
    assume "Notify_pool_closed \<notin> set xs"
    then have "closed_calls xs = 0" by (auto simp: closed_calls_def filter_empty_conv)
    with assms show False by simp
  qed
  then obtain us vs where xs: "xs = us @ Notify_pool_closed # vs" by (auto dest: split_list)
  have 0: "closed_calls us = 0" "closed_calls vs = 0" using assms by (auto simp: xs)
  obtain ys where ys: "fold (answer_call a p) us w =
      w\<lparr>w_unavailable := told_hosts a (host_changes us) (w_unavailable w), w_calls := w_calls w @ ys\<rparr>"
    "worker_closed_calls ys = 0" using answers_without_close [OF 0(1)] by blast
  define w1 where "w1 = fold (answer_call a p) us w"
  obtain zs where zs: "fold (answer_call a p) vs (notify_pool_closed a p w1) =
      (notify_pool_closed a p w1)\<lparr>w_unavailable := told_hosts a (host_changes vs) (w_unavailable (notify_pool_closed a p w1)),
        w_calls := w_calls (notify_pool_closed a p w1) @ zs\<rparr>"
    "worker_closed_calls zs = 0" using answers_without_close [OF 0(2)] by blast
  have "w_unavailable (notify_pool_closed a p w1) = w_unavailable w1"
    by (simp add: notify_pool_closed_def Let_def erase_pool_def destroy_pool_def maybe_notify_closed_def worker_tell_def
        schedule_reconnect_def)
  moreover have "w_unavailable w1 = told_hosts a (host_changes us) (w_unavailable w)" by (simp add: w1_def ys(1))
  ultimately have "fold (answer_call a p) xs w =
     (notify_pool_closed a p w1)\<lparr>w_unavailable := told_hosts a (host_changes xs) (w_unavailable w),
        w_calls := w_calls (notify_pool_closed a p w1) @ zs\<rparr>"
    using zs(1) by (simp add: xs w1_def [symmetric] answer_call_def [of a p Notify_pool_closed] told_hosts_append)
  moreover have "w1 = w\<lparr>w_unavailable := w_unavailable w1, w_calls := w_calls w @ ys\<rparr>"
    by (simp add: w1_def ys(1))
  ultimately show ?thesis using ys(2) zs(2) by blast
qed

section \<open>Every step keeps the invariant\<close>

text \<open>What an operation of the pool of an address does to the worker.\<close>

definition pool_op_result :: "worker_config \<Rightarrow> address \<Rightarrow> pool \<Rightarrow> io_worker \<Rightarrow> io_worker \<Rightarrow> bool" where
  "pool_op_result cf a p' w w' \<longleftrightarrow>
     worker_weak cf w' \<and> w_pending_requests w' = w_pending_requests w \<and> w_queue w' = w_queue w \<and>
     (if p_state p' \<noteq> POOL_STATE_CLOSED then w_state w' = w_state w \<and> w_pools w' = AList.update a p' (w_pools w)
      else if worker_is_closing w then
        w_pools w' = AList.delete a (w_pools w) \<and>
        w_state w' = (if w_pools w' = [] then IO_WORKER_STATE_CLOSED else IO_WORKER_STATE_CLOSING)
      else w_state w' = w_state w \<and>
        w_pools w' = (if p_is_critical p' \<or> p_cancel_reconnect p' then AList.delete a (w_pools w)
                      else AList.update a (delayed_connect (pool_new False)) (AList.delete a (w_pools w))))"

lemma told_hosts_other: "b \<noteq> a \<Longrightarrow> b \<in> told_hosts a bs U \<longleftrightarrow> b \<in> U"
  by (auto simp: told_hosts_def)

lemma delete_update: "AList.delete a (AList.update a p m) = AList.delete a m"
  by (induction m) (auto simp: AList.delete_eq)

lemma delayed_ok: "a \<in> w_unavailable w \<Longrightarrow> pool_ok cf w a (delayed_connect (pool_new False))"
  by (simp add: pool_ok_def delayed_connect_def pool_new_def is_host_available_def pool_inv_def owns_inv_def count_inv_def
      phase_inv_def weak_phase_def no_connections_def number_def)

lemma pool_op_lemma:
  assumes weak: "worker_weak cf w" and a: "map_of (w_pools w) a = Some p" and en: "pool_enabled (wc_pool cf) operation p"
  shows "\<exists>p' w'. run_pool_op (pool_config_of cf w) operation p = Some p' \<and> worker_pool_op cf a operation w = Some w' \<and>
           grows p p' \<and> pool_inv (wc_pool cf) p' \<and> pool_op_result cf a p' w w'"
proof -
  have ok: "pool_inv (wc_pool cf) p" "p_state p \<noteq> POOL_STATE_CLOSED" "p_is_available p \<longleftrightarrow> a \<notin> w_unavailable w"
    using weak a by (auto simp: worker_weak_def pool_ok_def is_host_available_def)
  obtain p' where p': "run_pool_op (pool_config_of cf w) operation p = Some p'" "pool_inv (wc_pool cf) p'"
    using keeps_pool_op [OF ok(1) en, of "w_protocol_version w" "w_keyspace w"]
    by (auto simp: pool_keeps_def pool_config_of_def)
  have g: "grows p p'" by (rule grows_op [OF p'(1)])
  define xs where "xs = pool_news p p'"
  define U where "U = told_hosts a (host_changes xs) (w_unavailable w)"
  define w0 where "w0 = w\<lparr>w_pools := AList.update a p' (w_pools w)\<rparr>"
  define w' where "w' = fold (answer_call a p') xs w0"
  have run: "worker_pool_op cf a operation w = Some w'" using a p'(1) by (simp add: worker_pool_op_def w'_def w0_def xs_def)
  have step: "pool_step p p'" using ok(1) p'(2) g by (simp add: pool_step_def pool_inv_def)
  have avail: "p_is_available p' \<longleftrightarrow> a \<notin> U"
    using pools.told_last [OF step] ok(3) by (auto simp: U_def told_hosts_def xs_def split: if_splits)
  have closed: "closed_calls xs = of_bool (p_state p' = POOL_STATE_CLOSED)"
    using closed_news [OF ok(1) p'(2) g] ok(2) by (simp add: xs_def)
  have others: "pool_ok cf v b q" if "map_of (w_pools w) b = Some q" "b \<noteq> a" "w_unavailable v = U" for v b q
    using weak that told_hosts_other [OF that(2), of "host_changes xs" "w_unavailable w"]
    by (auto simp: worker_weak_def pool_ok_def is_host_available_def U_def)
  have dist: "distinct (map fst (w_pools w))" using weak by (simp add: worker_weak_def)
  have st: "w_state w \<noteq> IO_WORKER_STATE_CLOSED" "worker_closed_calls (w_calls w) = 0"
    using weak a by (auto simp: worker_weak_def)
  have "pool_op_result cf a p' w w'"
  proof (cases "p_state p' = POOL_STATE_CLOSED")
    case False
    obtain ys where ys: "w' = w0\<lparr>w_unavailable := U, w_calls := w_calls w @ ys\<rparr>" "worker_closed_calls ys = 0"
      using answers_without_close [of xs a p' w0] closed False by (auto simp: w'_def w0_def U_def)
    have "pool_ok cf w' a p'" using p'(2) False avail by (simp add: pool_ok_def is_host_available_def ys(1))
    then have "worker_weak cf w'"
      using dist st others ys
      by (auto simp: worker_weak_def w0_def update_conv' distinct_update split: if_splits)
    then show ?thesis using False ys(1) by (simp add: pool_op_result_def w0_def)
  next
    case True
    then obtain w1 ys zs where w': "w' = (notify_pool_closed a p' w1)\<lparr>w_unavailable := U,
        w_calls := w_calls (notify_pool_closed a p' w1) @ zs\<rparr>"
      and w1: "w1 = w0\<lparr>w_unavailable := w_unavailable w1, w_calls := w_calls w @ ys\<rparr>"
      and 0: "worker_closed_calls ys = 0" "worker_closed_calls zs = 0"
      using answers_with_close [of xs a p' w0] closed by (auto simp: w'_def w0_def U_def)
    define M where "M = AList.delete a (w_pools w)"
    define w2 where "w2 = erase_pool a p' w1"
    have same: "w_pools w1 = AList.update a p' (w_pools w)" "w_state w1 = w_state w" "w_calls w1 = w_calls w @ ys"
      "w_pending_requests w1 = w_pending_requests w" "w_queue w1 = w_queue w"
      by (subst w1, simp add: w0_def)+
    have no_closed: "worker_closed_calls (concat (map (\<lambda>x. case x of Next_host_and_retry r \<Rightarrow> [Try_next r] | _ \<Rightarrow> []) vs)) = 0" for vs
      by (induction vs) (auto simp: worker_closed_calls_def split: pool_call.splits)
    have w2: "w_pools w2 = M" "w_state w2 = w_state w" "worker_closed_calls (w_calls w2) = 0"
      "w_pending_requests w2 = w_pending_requests w" "w_queue w2 = w_queue w"
      using 0(1) st(2) no_closed
      by (simp_all add: w2_def erase_pool_def Let_def destroy_pool_def same M_def delete_update)
    have M: "distinct (map fst M)" "map_of M a = None" "\<And>b. b \<noteq> a \<Longrightarrow> map_of M b = map_of (w_pools w) b"
      using dist by (simp_all add: M_def distinct_delete delete_conv')
    have na: "a \<in> U" using avail p'(2) True
      by (auto simp: pool_inv_def count_inv_def phase_inv_def weak_phase_def no_connections_def owns_inv_def number_def)
    show ?thesis
    proof (cases "worker_is_closing w")
      case closing: True
      then have "notify_pool_closed a p' w1 = maybe_notify_closed w2"
        using same(2) w2(2) by (simp add: notify_pool_closed_def Let_def w2_def [symmetric] worker_is_closing_def)
      then have f: "w_pools w' = M" "w_state w' = (if M = [] then IO_WORKER_STATE_CLOSED else IO_WORKER_STATE_CLOSING)"
        "worker_closed_calls (w_calls w') = of_bool (M = [])" "w_unavailable w' = U"
        "w_pending_requests w' = w_pending_requests w" "w_queue w' = w_queue w"
        using w2 closing 0(2)
        by (auto simp: w' maybe_notify_closed_def worker_is_closing_def worker_tell_def worker_closed_calls_def)
      have "pool_ok cf w' b q" if "map_of M b = Some q" for b q
        using that M(2) M(3) [of b] others [of b q w'] f(4) by (cases "b = a") simp_all
      then have "worker_weak cf w'" using f M(1) by (simp add: worker_weak_def)
      then show ?thesis using True closing f by (simp add: pool_op_result_def M_def)
    next
      case running: False
      define M' where "M' = (if p_is_critical p' \<or> p_cancel_reconnect p' then M
        else AList.update a (delayed_connect (pool_new False)) M)"
      have f: "w_pools w' = M'" "w_state w' = w_state w" "worker_closed_calls (w_calls w') = 0" "w_unavailable w' = U"
        "w_pending_requests w' = w_pending_requests w" "w_queue w' = w_queue w"
        using w2 running 0(2) same(2) M(2)
        by (auto simp: w' notify_pool_closed_def Let_def w2_def [symmetric] worker_is_closing_def worker_tell_def
            schedule_reconnect_def M'_def worker_closed_calls_def)
      have "pool_ok cf w' b q" if "map_of M' b = Some q" for b q
        using that M(2) M(3) [of b] others [of b q w'] f(4) delayed_ok [of a w' cf] na
        by (cases "b = a") (auto simp: M'_def update_conv' split: if_splits)
      moreover have "distinct (map fst M')" using M(1) by (simp add: M'_def distinct_update)
      ultimately have "worker_weak cf w'" using f st(1) by (simp add: worker_weak_def)
      then show ?thesis using True running f by (simp add: pool_op_result_def M_def M'_def)
    qed
  qed
  then show ?thesis using p' g run by blast
qed

definition worker_inv :: "worker_config \<Rightarrow> io_worker \<Rightarrow> bool" where
  "worker_inv cf w \<longleftrightarrow> worker_weak cf w \<and> settled w"

lemma pool_op_pools:
  assumes "pool_op_result cf a p' w w'" and "b \<noteq> a"
  shows "map_of (w_pools w') b = map_of (w_pools w) b"
  using assms by (auto simp: pool_op_result_def update_conv' delete_conv' split: if_splits)

lemma pool_op_closing:
  assumes "pool_op_result cf a p' w w'" and "worker_is_closing w"
  shows "w_state w' = (if w_pools w' = [] then IO_WORKER_STATE_CLOSED else IO_WORKER_STATE_CLOSING)"
    and "map_of (w_pools w') a = Some q \<Longrightarrow> q = p' \<and> p_state p' \<noteq> POOL_STATE_CLOSED"
proof -
  have "AList.update a p' (w_pools w) \<noteq> []" by (cases "w_pools w") (auto simp: split: prod.splits if_splits)
  then show "w_state w' = (if w_pools w' = [] then IO_WORKER_STATE_CLOSED else IO_WORKER_STATE_CLOSING)"
    using assms by (auto simp: pool_op_result_def worker_is_closing_def split: if_splits)
  show "map_of (w_pools w') a = Some q \<Longrightarrow> q = p' \<and> p_state p' \<noteq> POOL_STATE_CLOSED"
    using assms by (auto simp: pool_op_result_def update_conv' delete_conv' split: if_splits)
qed

lemma pool_op_not_closing:
  "pool_op_result cf a p' w w' \<Longrightarrow> \<not> worker_is_closing w \<Longrightarrow> w_state w' = w_state w"
  by (auto simp: pool_op_result_def split: if_splits)

lemma pool_op_inv:
  assumes inv: "worker_inv cf w" and a: "map_of (w_pools w) a = Some p" and g: "grows p p'"
    and r: "pool_op_result cf a p' w w'"
  shows "worker_inv cf w'"
proof -
  have "settled w'"
  proof (cases "worker_is_closing w \<and> w_pending_requests w \<le> 0")
    case False
    have "worker_is_closing w' \<Longrightarrow> worker_is_closing w"
      using pool_op_not_closing [OF r] by (auto simp: worker_is_closing_def)
    with False r show ?thesis by (auto simp: settled_def pool_op_result_def)
  next
    case True
    have all: "all_pools_closing w" using inv True by (simp add: worker_inv_def settled_def)
    then have "closes p'" using a g by (auto simp: all_pools_closing_def grows_def closes_def)
    then have "p_state q = POOL_STATE_CLOSING" if "map_of (w_pools w') b = Some q" for b q
      using all that pool_op_pools [OF r, of b] pool_op_closing(2) [OF r, of q] True
      by (cases "b = a") (auto simp: all_pools_closing_def closes_def)
    then show ?thesis
      using pool_op_closing(1) [OF r] True by (auto simp: settled_def all_pools_closing_def worker_is_closing_def split: if_splits)
  qed
  then show ?thesis using r by (simp add: worker_inv_def pool_op_result_def)
qed

lemma close_closes: "pool_close cf b p = Some q \<Longrightarrow> closes q"
proof -
  assume q: "pool_close cf b p = Some q"
  define s where "s = (set_is_available cf False (start_closing p))\<lparr>p_cancel_reconnect := b\<rparr>"
  obtain r where r: "q = maybe_close r" "closes p \<and> r = p \<or> close_all cf (p_connections s @ p_pending s) s = Some r"
    using q by (auto simp: pool_close_def s_def Let_def bind_eq_Some_conv closes_def split: if_splits)
  have "closes s" by (simp add: s_def start_closing_def Let_def set_is_available_def pool_calls_def closes_def)
  then have "closes r" using r(2) grows_close_all [of cf "p_connections s @ p_pending s" s r] by (auto simp: grows_def)
  then show ?thesis using grows_maybe(2) [OF grows_refl, of r] by (simp add: grows_def r(1))
qed

definition always_enabled :: "pool_op \<Rightarrow> bool" where
  "always_enabled operation \<longleftrightarrow> (\<forall>cf p. pool_enabled cf operation p)"

lemma each_pool_lemma:
  assumes en: "always_enabled operation"
  shows "worker_weak cf w \<Longrightarrow> distinct as \<Longrightarrow> set as \<subseteq> fst ` set (w_pools w) \<Longrightarrow>
    \<exists>w'. each_pool cf operation as w = Some w' \<and> worker_weak cf w' \<and> (worker_inv cf w \<longrightarrow> worker_inv cf w') \<and>
      w_pending_requests w' = w_pending_requests w \<and>
      (\<not> worker_is_closing w \<longrightarrow> w_state w' = w_state w) \<and>
      (worker_is_closing w \<and> as \<noteq> [] \<longrightarrow>
         w_state w' = (if w_pools w' = [] then IO_WORKER_STATE_CLOSED else IO_WORKER_STATE_CLOSING)) \<and>
      (\<forall>b q. map_of (w_pools w') b = Some q \<and> b \<notin> set as \<longrightarrow> map_of (w_pools w) b = Some q) \<and>
      (worker_is_closing w \<and> operation = Pool_close False \<longrightarrow>
         (\<forall>b q. map_of (w_pools w') b = Some q \<and> b \<in> set as \<longrightarrow> p_state q = POOL_STATE_CLOSING))"
proof (induction "as" arbitrary: w)
  case Nil
  then show ?case by auto
next
  case (Cons a "as")
  have "a \<in> fst ` set (w_pools w)" using Cons.prems(3) by simp
  then have "map_of (w_pools w) a \<noteq> None" by (simp add: map_of_eq_None_iff)
  then obtain p where a: "map_of (w_pools w) a = Some p" by blast
  from pool_op_lemma [OF Cons.prems(1) a] en obtain p' w1 where
    p': "run_pool_op (pool_config_of cf w) operation p = Some p'" and w1: "worker_pool_op cf a operation w = Some w1"
    and g: "grows p p'" and r: "pool_op_result cf a p' w w1" unfolding always_enabled_def by blast
  have weak: "worker_weak cf w1" and pend: "w_pending_requests w1 = w_pending_requests w"
    using r by (simp_all add: pool_op_result_def)
  have keys: "set as \<subseteq> fst ` set (w_pools w1)"
  proof
    fix b assume "b \<in> set as"
    then have "b \<noteq> a" "b \<in> fst ` set (w_pools w)" using Cons.prems(2,3) by auto
    then show "b \<in> fst ` set (w_pools w1)" using pool_op_pools [OF r] by (metis map_of_eq_None_iff)
  qed
  from Cons.IH [OF weak _ keys] Cons.prems(2) obtain w2 where w2: "each_pool cf operation as w1 = Some w2" "worker_weak cf w2"
    "worker_inv cf w1 \<longrightarrow> worker_inv cf w2" "w_pending_requests w2 = w_pending_requests w1"
    "\<not> worker_is_closing w1 \<longrightarrow> w_state w2 = w_state w1"
    "worker_is_closing w1 \<and> as \<noteq> [] \<longrightarrow>
       w_state w2 = (if w_pools w2 = [] then IO_WORKER_STATE_CLOSED else IO_WORKER_STATE_CLOSING)"
    "\<forall>b q. map_of (w_pools w2) b = Some q \<and> b \<notin> set as \<longrightarrow> map_of (w_pools w1) b = Some q"
    "worker_is_closing w1 \<and> operation = Pool_close False \<longrightarrow>
       (\<forall>b q. map_of (w_pools w2) b = Some q \<and> b \<in> set as \<longrightarrow> p_state q = POOL_STATE_CLOSING)" by auto
  have still: "worker_is_closing w1" if "worker_is_closing w" "as \<noteq> []"
    using pool_op_closing(1) [OF r that(1)] keys that(2) by (cases "as") (auto simp: worker_is_closing_def)
  have nil: "w2 = w1" if "as = []" using w2(1) that by simp
  have "map_of (w_pools w) b = Some q" if "map_of (w_pools w2) b = Some q" "b \<notin> set (a # as)" for b q
    using w2(7) that pool_op_pools [OF r, of b] by auto
  moreover have "p_state q = POOL_STATE_CLOSING"
    if "worker_is_closing w" "operation = Pool_close False" "map_of (w_pools w2) b = Some q" "b \<in> set (a # as)" for b q
  proof (cases "b \<in> set as")
    case True
    then show ?thesis using w2(8) still that by (cases "as") auto
  next
    case False
    then have "b = a" "map_of (w_pools w1) a = Some q" using that(3,4) w2(7) by auto
    then have "q = p'" "p_state p' \<noteq> POOL_STATE_CLOSED" using pool_op_closing(2) [OF r that(1)] by auto
    moreover have "closes p'" using p' that(2) close_closes by auto
    ultimately show ?thesis by (auto simp: closes_def)
  qed
  moreover have "w_state w2 = (if w_pools w2 = [] then IO_WORKER_STATE_CLOSED else IO_WORKER_STATE_CLOSING)"
    if "worker_is_closing w"
    using w2(6) still [OF that] nil pool_op_closing(1) [OF r that] by (cases "as = []") auto
  moreover have "w_state w2 = w_state w" if "\<not> worker_is_closing w"
    using w2(5) pool_op_not_closing [OF r that] that by (simp add: worker_is_closing_def)
  moreover have "worker_inv cf w \<longrightarrow> worker_inv cf w2" using w2(3) pool_op_inv [OF _ a g r] by blast
  moreover have "each_pool cf operation (a # as) w = Some w2" using w1 w2(1) by simp
  moreover have "w_pending_requests w2 = w_pending_requests w" using w2(4) pend by simp
  ultimately show ?case using w2(2) by (intro exI [of _ w2] conjI allI impI) (blast | simp)+
qed

lemma maybe_close_inv:
  assumes weak: "worker_weak cf w" and core: "pc_core_connections (wc_pool cf) > 0"
  shows "\<exists>w'. worker_maybe_close cf w = Some w' \<and> worker_inv cf w'"
proof (cases "worker_is_closing w \<and> w_pending_requests w \<le> 0")
  case False
  then show ?thesis using weak by (auto simp: worker_maybe_close_def worker_inv_def settled_def)
next
  case True
  have en: "always_enabled (Pool_close False)" by (simp add: always_enabled_def)
  have d: "distinct (map fst (w_pools w))" using weak by (simp add: worker_weak_def)
  have cl: "worker_is_closing w" using True by simp
  obtain w1 where
    w1: "each_pool cf (Pool_close False) (map fst (w_pools w)) w = Some w1" "worker_weak cf w1"
    "map fst (w_pools w) \<noteq> [] \<longrightarrow> w_state w1 = (if w_pools w1 = [] then IO_WORKER_STATE_CLOSED else IO_WORKER_STATE_CLOSING)"
    "\<forall>b q. map_of (w_pools w1) b = Some q \<and> b \<notin> set (map fst (w_pools w)) \<longrightarrow> map_of (w_pools w) b = Some q"
    "\<forall>b q. map_of (w_pools w1) b = Some q \<and> b \<in> set (map fst (w_pools w)) \<longrightarrow> p_state q = POOL_STATE_CLOSING"
    using each_pool_lemma [OF en weak d] cl by auto
  have all: "all_pools_closing w1"
    unfolding all_pools_closing_def using w1(4,5) by (metis list.set_map map_of_eq_None_iff option.distinct(1))
  define w2 where "w2 = maybe_notify_closed w1"
  have "worker_weak cf w2" using w1(2)
    by (auto simp: w2_def maybe_notify_closed_def worker_tell_def worker_weak_def worker_is_closing_def worker_closed_calls_def)
  moreover have "settled w2"
    using all by (auto simp: w2_def maybe_notify_closed_def worker_tell_def settled_def worker_is_closing_def)
  moreover have "worker_maybe_close cf w = Some w2" using True core w1(1) by (simp add: worker_maybe_close_def w2_def)
  ultimately show ?thesis by (simp add: worker_inv_def)
qed

lemma pool_op_enabled:
  assumes "worker_inv cf w" and "map_of (w_pools w) a = Some p" and "pool_enabled (wc_pool cf) operation p"
  shows "\<exists>w'. worker_pool_op cf a operation w = Some w' \<and> worker_inv cf w'"
  using pool_op_lemma [of cf w a p operation] pool_op_inv [OF assms(1,2)] assms by (auto simp: worker_inv_def)

lemma weak_rest:
  assumes "worker_weak cf w" and "w_pools w' = w_pools w" and "w_unavailable w' = w_unavailable w"
    and "w_state w' = IO_WORKER_STATE_CLOSED \<longleftrightarrow> w_state w = IO_WORKER_STATE_CLOSED"
    and "worker_closed_calls (w_calls w') = worker_closed_calls (w_calls w)"
  shows "worker_weak cf w'"
  using assms by (simp add: worker_weak_def pool_ok_def is_host_available_def)

lemma worker_inv_rest:
  assumes "worker_inv cf w" and "w_pools w' = w_pools w" and "w_unavailable w' = w_unavailable w" and "w_state w' = w_state w"
    and "worker_closed_calls (w_calls w') = worker_closed_calls (w_calls w)" and "w_pending_requests w' = w_pending_requests w"
  shows "worker_inv cf w'"
  using assms by (auto simp: worker_inv_def worker_weak_def pool_ok_def is_host_available_def settled_def worker_is_closing_def
      all_pools_closing_def)

lemma destroy_rest: "w_pools (destroy_pool p w) = w_pools w" "w_unavailable (destroy_pool p w) = w_unavailable w"
    "w_state (destroy_pool p w) = w_state w" "w_pending_requests (destroy_pool p w) = w_pending_requests w"
    "worker_closed_calls (w_calls (destroy_pool p w)) = worker_closed_calls (w_calls w)"
proof -
  have "worker_closed_calls (concat (map (\<lambda>x. case x of Next_host_and_retry r \<Rightarrow> [Try_next r] | _ \<Rightarrow> []) vs)) = 0" for vs
    by (induction vs) (auto simp: worker_closed_calls_def split: pool_call.splits)
  then show "worker_closed_calls (w_calls (destroy_pool p w)) = worker_closed_calls (w_calls w)" by (simp add: destroy_pool_def)
qed (simp_all add: destroy_pool_def)

lemma destroy_all_rest: "w_pools (fold destroy_pool ps w) = w_pools w" "w_unavailable (fold destroy_pool ps w) = w_unavailable w"
    "w_state (fold destroy_pool ps w) = w_state w" "w_pending_requests (fold destroy_pool ps w) = w_pending_requests w"
    "worker_closed_calls (w_calls (fold destroy_pool ps w)) = worker_closed_calls (w_calls w)"
  by (induction ps arbitrary: w) (simp_all add: destroy_rest)

lemma dequeue_weak:
  "worker_weak cf w \<Longrightarrow> w_state w \<noteq> IO_WORKER_STATE_CLOSED \<Longrightarrow> worker_weak cf (dequeue_requests n w)"
proof (induction n w rule: dequeue_requests.induct)
  case (2 n w)
  show ?case
  proof (cases "w_queue w")
    case Nil
    then show ?thesis using "2.prems" by simp
  next
    case (Cons x q)
    show ?thesis
    proof (cases x)
      case None
      have "worker_weak cf (w\<lparr>w_queue := q, w_state := IO_WORKER_STATE_CLOSING\<rparr>)"
        by (rule weak_rest [OF "2.prems"(1)]) (use "2.prems"(2) in simp_all)
      then show ?thesis using "2.IH"(1) [OF Cons None] Cons None by simp
    next
      case (Some r)
      have "worker_weak cf (worker_tell (Try r) (w\<lparr>w_queue := q, w_pending_requests := w_pending_requests w + 1\<rparr>))"
        by (rule weak_rest [OF "2.prems"(1)]) (simp_all add: worker_tell_def worker_closed_calls_def)
      then show ?thesis using "2.IH"(2) [OF Cons Some] Cons Some "2.prems"(2) by (simp add: worker_tell_def)
    qed
  qed
qed simp

lemma add_pool_inv:
  assumes inv: "worker_inv cf w"
  shows "\<exists>w'. add_pool cf a is_initial w = Some w' \<and> worker_inv cf w'"
proof (cases "worker_is_ready w")
  case False
  then show ?thesis using inv by (simp add: add_pool_def)
next
  case True
  show ?thesis
  proof (cases "map_of (w_pools w) a")
    case (Some p)
    then show ?thesis using True pool_op_enabled [OF inv Some, of Pool_connect] by (simp add: add_pool_def)
  next
    case None
    define w1 where "w1 = (set_host_is_available a False w)\<lparr>w_pools := AList.update a (pool_new is_initial) (w_pools w)\<rparr>"
    have new: "pool_ok cf w1 a (pool_new is_initial)"
      using pool_new_inv by (simp add: pool_ok_def w1_def is_host_available_def set_host_is_available_def pool_new_def)
    have "pool_ok cf w1 b q" if "map_of (w_pools w1) b = Some q" for b q
    proof (cases "b = a")
      case True
      then show ?thesis using that new by (simp add: w1_def update_conv')
    next
      case False
      then have "map_of (w_pools w) b = Some q" using that by (simp add: w1_def update_conv')
      then have "pool_ok cf w b q" using inv by (simp add: worker_inv_def worker_weak_def)
      then show ?thesis using False by (simp add: w1_def pool_ok_def is_host_available_def set_host_is_available_def)
    qed
    moreover have "distinct (map fst (w_pools w1))" using inv by (simp add: w1_def worker_inv_def worker_weak_def distinct_update)
    ultimately have "worker_inv cf w1"
      using inv True by (simp add: worker_inv_def worker_weak_def settled_def worker_is_closing_def worker_is_ready_def w1_def
          set_host_is_available_def)
    moreover have "map_of (w_pools w1) a = Some (pool_new is_initial)" by (simp add: w1_def update_conv')
    ultimately have "\<exists>w'. worker_pool_op cf a Pool_connect w1 = Some w' \<and> worker_inv cf w'"
      using pool_op_enabled [of cf w1 a "pool_new is_initial" Pool_connect] by simp
    then show ?thesis using True None by (simp add: add_pool_def w1_def Let_def set_host_is_available_def)
  qed
qed

lemma keeps_worker_op:
  assumes inv: "worker_inv cf w" and core: "pc_core_connections (wc_pool cf) > 0" and en: "worker_enabled cf operation w"
  shows "\<exists>w'. run_worker_op cf operation w = Some w' \<and> worker_inv cf w'"
proof (cases operation)
  case (Worker_add a is_initial)
  then show ?thesis using add_pool_inv [OF inv] by simp
next
  case (Worker_remove a cancel)
  then show ?thesis using inv pool_op_enabled [OF inv, of a _ "Pool_close cancel"] by (auto simp: on_remove_pool_def)
next
  case (Worker_pool a x)
  then show ?thesis using en pool_op_enabled [OF inv, of a _ x] by (auto split: option.splits)
next
  case (Worker_enqueue r)
  then show ?thesis using worker_inv_rest [OF inv, of "snd (worker_enqueue cf r w)"] by (simp add: worker_enqueue_def)
next
  case Worker_execute
  then show ?thesis
    using maybe_close_inv [OF dequeue_weak core, of w] inv en by (simp add: worker_on_execute_def worker_inv_def)
next
  case Worker_finished
  have "worker_weak cf (w\<lparr>w_pending_requests := w_pending_requests w - 1\<rparr>)"
    using inv by (simp add: worker_inv_def worker_weak_def pool_ok_def is_host_available_def)
  from maybe_close_inv [OF this core] obtain w1 where
    w1: "worker_maybe_close cf (w\<lparr>w_pending_requests := w_pending_requests w - 1\<rparr>) = Some w1" "worker_inv cf w1" by blast
  have "worker_inv cf (worker_tell Queue_send w1)"
    by (rule worker_inv_rest [OF w1(2)]) (simp_all add: worker_tell_def worker_closed_calls_def)
  then show ?thesis using Worker_finished w1(1) by (simp add: request_finished_def)
next
  case Worker_prepare
  let ?as = "map fst (filter (\<lambda>(a, p). p_is_pending_flush p) (w_pools w))"
  have f: "always_enabled Pool_flush" by (simp add: always_enabled_def)
  have "distinct ?as" using inv by (simp add: worker_inv_def worker_weak_def distinct_map_filter)
  moreover have "set ?as \<subseteq> fst ` set (w_pools w)" by auto
  ultimately obtain w1 where w1: "each_pool cf Pool_flush ?as w = Some w1" "worker_inv cf w1"
    using each_pool_lemma [OF f, of cf w ?as] inv by (auto simp: worker_inv_def)
  have "worker_inv cf ((fold destroy_pool (w_lingering w1) w1)\<lparr>w_lingering := []\<rparr>)"
    by (rule worker_inv_rest [OF w1(2)]) (simp_all add: destroy_all_rest)
  then show ?thesis using Worker_prepare w1(1) by (simp add: on_prepare_def)
next
  case (Worker_keyspace k)
  have "worker_inv cf (worker_broadcast_keyspace_change k w)"
    by (rule worker_inv_rest [OF inv])
      (simp_all add: worker_broadcast_keyspace_change_def set_keyspace_def worker_tell_def worker_closed_calls_def)
  then show ?thesis using Worker_keyspace by simp
next
  case (Worker_version v)
  have "worker_inv cf (w\<lparr>w_protocol_version := v\<rparr>)" by (rule worker_inv_rest [OF inv]) simp_all
  then show ?thesis using Worker_version by simp
qed

lemma worker_reach_inv: "worker_reach cf w \<Longrightarrow> pc_core_connections (wc_pool cf) > 0 \<Longrightarrow> worker_inv cf w"
proof (induction rule: worker_reach.induct)
  case new
  show ?case by (simp add: worker_inv_def worker_weak_def worker_new_def settled_def worker_is_closing_def worker_closed_calls_def)
next
  case (step w operation w')
  then show ?case using keeps_worker_op [of cf w operation] by auto
qed

section \<open>Closing\<close>

fun run_worker_ops :: "worker_config \<Rightarrow> worker_op list \<Rightarrow> io_worker \<Rightarrow> io_worker option" where
  "run_worker_ops cf [] w = Some w"
| "run_worker_ops cf (x # xs) w = run_worker_op cf x w \<bind> run_worker_ops cf xs"

fun worker_ops_enabled :: "worker_config \<Rightarrow> worker_op list \<Rightarrow> io_worker \<Rightarrow> bool" where
  "worker_ops_enabled cf [] w = True"
| "worker_ops_enabled cf (x # xs) w =
     (worker_enabled cf x w \<and> (case run_worker_op cf x w of None \<Rightarrow> False | Some w' \<Rightarrow> worker_ops_enabled cf xs w'))"

fun handle_closed :: "worker_op \<Rightarrow> bool" where
  "handle_closed (Worker_pool a (Pool_connection_closed i)) = True"
| "handle_closed _ = False"

definition open_connections :: "io_worker \<Rightarrow> nat" where
  "open_connections w = (\<Sum>(a, p)\<leftarrow>w_pools w. length (p_connections p) + length (p_pending p))"

definition pool_size :: "pool \<Rightarrow> nat" where
  "pool_size p = length (p_connections p) + length (p_pending p)"

lemma sum_pools:
  assumes "distinct (map fst m)" and "map_of m a = Some p"
  shows "(\<Sum>(a, p)\<leftarrow>AList.update a q m. f p) + f p = (\<Sum>(a, p)\<leftarrow>m. f p) + (f q :: nat)"
    and "(\<Sum>(a, p)\<leftarrow>AList.delete a m. f p) + f p = (\<Sum>(a, p)\<leftarrow>m. f p)"
proof -
  show "(\<Sum>(a, p)\<leftarrow>AList.update a q m. f p) + f p = (\<Sum>(a, p)\<leftarrow>m. f p) + f q"
    using assms by (induction m) (auto split: if_splits)
  have "AList.delete a m = m" if "a \<notin> fst ` set m" for m :: "(_ \<times> 'b) list"
    using that by (induction m) (auto simp: AList.delete_eq)
  then show "(\<Sum>(a, p)\<leftarrow>AList.delete a m. f p) + f p = (\<Sum>(a, p)\<leftarrow>m. f p)"
    using assms by (induction m) (auto simp: AList.delete_eq split: if_splits)
qed

lemma pool_size_card: "pool_inv cf p \<Longrightarrow> pool_size p = card (dom (p_store p))"
  unfolding pool_inv_def owns_inv_def pool_size_def by (metis distinct_card length_append)

text \<open>While it closes, a callback of a closed handle is due, and it leaves one connection less.\<close>

lemma closing_step:
  assumes inv: "worker_inv cf w" and closing: "worker_is_closing w" "w_pending_requests w \<le> 0"
  shows "\<exists>x w'. handle_closed x \<and> worker_enabled cf x w \<and> run_worker_op cf x w = Some w' \<and> worker_inv cf w' \<and>
           w_pending_requests w' = w_pending_requests w \<and> open_connections w = Suc (open_connections w') \<and>
           (if w_pools w' = [] then w_state w' = IO_WORKER_STATE_CLOSED else worker_is_closing w')"
proof -
  have "w_pools w \<noteq> []" and all: "all_pools_closing w" using inv closing by (simp_all add: worker_inv_def settled_def)
  then obtain a p m where "w_pools w = (a, p) # m" by (cases "w_pools w") auto
  then have a: "map_of (w_pools w) a = Some p" by simp
  have st: "p_state p = POOL_STATE_CLOSING" using all a by (simp add: all_pools_closing_def)
  have pinv: "pool_inv (wc_pool cf) p" using inv a by (simp add: worker_inv_def worker_weak_def pool_ok_def)
  then have "\<not> no_connections p" using st by (simp add: pool_inv_def phase_inv_def)
  then have "dom (p_store p) \<noteq> {}" using pinv by (auto simp: pool_inv_def owns_inv_def no_connections_def)
  then obtain i c where i: "p_store p i = Some c" by blast
  have "is_closing c" using pinv st i by (auto simp: pool_inv_def phase_inv_def weak_phase_def all_closing_def)
  moreover have "connection_reach (pc_connection (wc_pool cf)) c" using pinv i by (simp add: pool_inv_def owns_inv_def)
  ultimately have "c_uv_closing c" using reach_inv by (auto simp: connection_inv_def told_inv_def)
  then have en: "pool_enabled (wc_pool cf) (Pool_connection_closed i) p" using i by simp
  obtain p' w' where p': "run_pool_op (pool_config_of cf w) (Pool_connection_closed i) p = Some p'"
    "worker_pool_op cf a (Pool_connection_closed i) w = Some w'" "grows p p'" "pool_inv (wc_pool cf) p'" "pool_op_result cf a p' w w'"
    using pool_op_lemma [OF _ a en] inv by (auto simp: worker_inv_def)
  have cinv: "pool_inv (pool_config_of cf w) p" using pinv by (simp add: pool_inv_alt pool_config_of_def)
  obtain q where "pool_on_close (pool_config_of cf w) i p = Some q" "dom (p_store q) = dom (p_store p) - {i}"
    using on_close_closing [OF cinv st i] by blast
  then have d: "dom (p_store p') = dom (p_store p) - {i}" using p'(1) by simp
  have fin: "finite (dom (p_store p))" using pinv by (simp add: pool_inv_def owns_inv_def)
  have size: "pool_size p = Suc (pool_size p')"
    using pool_size_card [OF pinv] pool_size_card [OF p'(4)] d card_Suc_Diff1 [OF fin, of i] i by (simp add: domI)
  have dist: "distinct (map fst (w_pools w))" using inv by (simp add: worker_inv_def worker_weak_def)
  have "open_connections w = Suc (open_connections w')"
  proof (cases "p_state p' = POOL_STATE_CLOSED")
    case False
    then have "w_pools w' = AList.update a p' (w_pools w)" using p'(5) by (simp add: pool_op_result_def)
    then show ?thesis using sum_pools(1) [OF dist a, of pool_size p'] size by (simp add: open_connections_def pool_size_def)
  next
    case True
    then have "pool_size p' = 0" using p'(4) by (simp add: pool_size_def pool_inv_def phase_inv_def weak_phase_def no_connections_def)
    moreover have "w_pools w' = AList.delete a (w_pools w)" using p'(5) True closing(1) by (simp add: pool_op_result_def)
    ultimately show ?thesis using sum_pools(2) [OF dist a, of pool_size] size by (simp add: open_connections_def pool_size_def)
  qed
  moreover have "worker_enabled cf (Worker_pool a (Pool_connection_closed i)) w" using a en by simp
  moreover have "worker_inv cf w'" by (rule pool_op_inv [OF inv a p'(3,5)])
  moreover have "w_pending_requests w' = w_pending_requests w" using p'(5) by (simp add: pool_op_result_def)
  moreover have "if w_pools w' = [] then w_state w' = IO_WORKER_STATE_CLOSED else worker_is_closing w'"
    using pool_op_closing(1) [OF p'(5) closing(1)] by (simp add: worker_is_closing_def)
  ultimately show ?thesis using p'(2) by (intro exI [of _ "Worker_pool a (Pool_connection_closed i)"] exI [of _ w']) simp
qed

lemma closing_ends:
  "worker_inv cf w \<Longrightarrow> worker_is_closing w \<Longrightarrow> w_pending_requests w \<le> 0 \<Longrightarrow>
   \<exists>xs w'. list_all handle_closed xs \<and> worker_ops_enabled cf xs w \<and> run_worker_ops cf xs w = Some w' \<and>
     length xs = open_connections w \<and> worker_inv cf w' \<and> w_state w' = IO_WORKER_STATE_CLOSED"
proof (induction "open_connections w" arbitrary: w)
  case 0
  then show ?case using closing_step [OF 0(2-4)] by auto
next
  case (Suc n)
  obtain x w1 where x: "handle_closed x" "worker_enabled cf x w" "run_worker_op cf x w = Some w1" "worker_inv cf w1"
    "w_pending_requests w1 = w_pending_requests w" "open_connections w = Suc (open_connections w1)"
    "if w_pools w1 = [] then w_state w1 = IO_WORKER_STATE_CLOSED else worker_is_closing w1"
    using closing_step [OF Suc.prems] by blast
  show ?case
  proof (cases "w_pools w1 = []")
    case True
    then have "open_connections w1 = 0" by (simp add: open_connections_def)
    then show ?thesis using x True by (intro exI [of _ "[x]"] exI [of _ w1]) simp
  next
    case False
    then have "worker_is_closing w1" using x(7) by simp
    moreover have "n = open_connections w1" using Suc.hyps(2) x(6) by simp
    moreover have "w_pending_requests w1 \<le> 0" using x(5) Suc.prems(3) by simp
    ultimately obtain xs w' where "list_all handle_closed xs" "worker_ops_enabled cf xs w1" "run_worker_ops cf xs w1 = Some w'"
      "length xs = open_connections w1" "worker_inv cf w'" "w_state w' = IO_WORKER_STATE_CLOSED"
      using Suc.hyps(1) [of w1] x(4) by blast
    then show ?thesis using x by (intro exI [of _ "x # xs"] exI [of _ w']) simp
  qed
qed

section \<open>Properties\<close>


definition example_worker_config :: worker_config where
  "example_worker_config = \<lparr>wc_pool = example_pool_config, wc_max_requests_per_flush = 1, wc_queue_size = 8\<rparr>"

lemma example_core: "pc_core_connections (wc_pool example_worker_config) > 0"
  by (simp add: example_worker_config_def example_pool_config_def)


text \<open>
  C25: A host with a pool is taken for available exactly when its pool has a ready connection
  and not too many waiting requests, as the pool told last; a pool that is closed is not in
  the map; and the session is told exactly once that the worker is closed, when no pool is
  left.
\<close>

theorem worker_tells_the_truth:
  assumes "worker_reach cf w" and "pc_core_connections (wc_pool cf) > 0"
  shows "list_all (\<lambda>(a, p). (is_host_available a w \<longleftrightarrow> p_is_available p) \<and> p_state p \<noteq> POOL_STATE_CLOSED) (w_pools w) \<and>
         worker_closed_calls (w_calls w) = of_bool (w_state w = IO_WORKER_STATE_CLOSED) \<and>
         (case w_state w of IO_WORKER_STATE_CLOSED \<Rightarrow> w_pools w = [] | _ \<Rightarrow> True)"
proof -
  have weak: "worker_weak cf w" using worker_reach_inv [OF assms] by (simp add: worker_inv_def)
  then have "is_host_available a w = p_is_available p \<and> p_state p \<noteq> POOL_STATE_CLOSED" if "(a, p) \<in> set (w_pools w)" for a p
    using that by (auto simp: worker_weak_def pool_ok_def)
  then have "list_all (\<lambda>(a, p). (is_host_available a w \<longleftrightarrow> p_is_available p) \<and> p_state p \<noteq> POOL_STATE_CLOSED) (w_pools w)"
    by (auto simp: list_all_iff)
  moreover have "case w_state w of IO_WORKER_STATE_CLOSED \<Rightarrow> w_pools w = [] | _ \<Rightarrow> True"
    using weak by (cases "w_state w") (simp_all add: worker_weak_def)
  ultimately show ?thesis using weak by (simp add: worker_weak_def)
qed

lemma example_add:
  "\<exists>w. worker_reach example_worker_config w \<and>
     run_worker_op example_worker_config (Worker_add (Inet 1 9042) True) worker_new = Some w \<and>
     w_pools w \<noteq> [] \<and> w_state w = IO_WORKER_STATE_READY"
proof -
  obtain w where w: "run_worker_op example_worker_config (Worker_add (Inet 1 9042) True) worker_new = Some w"
    "w_pools w \<noteq> [] \<and> w_state w = IO_WORKER_STATE_READY"
    by (simp add: add_pool_def worker_is_ready_def worker_new_def worker_pool_op_def set_host_is_available_def pool_config_of_def
        example_worker_config_def pool_eval pool_news_def cong: pool_eval_cong)
  have "worker_enabled example_worker_config (Worker_add (Inet 1 9042) True) worker_new" by (simp add: worker_new_def)
  from worker_reach.step [OF worker_reach.new this w(1)] w show ?thesis by blast
qed

theorem worker_tells_the_truth_witness:
  "\<exists>w. run_worker_op example_worker_config (Worker_add (Inet 1 9042) True) worker_new = Some w \<and> w_pools w \<noteq> [] \<and>
     list_all (\<lambda>(a, p). is_host_available a w = p_is_available p) (w_pools w) \<and> worker_closed_calls (w_calls w) = 0"
proof -
  obtain w where w: "worker_reach example_worker_config w"
    "run_worker_op example_worker_config (Worker_add (Inet 1 9042) True) worker_new = Some w"
    "w_pools w \<noteq> []" "w_state w = IO_WORKER_STATE_READY" using example_add by blast
  have "list_all (\<lambda>(a, p). is_host_available a w = p_is_available p) (w_pools w) \<and> worker_closed_calls (w_calls w) = 0"
    using worker_tells_the_truth [OF w(1) example_core] w(4) by (auto simp: list_all_iff)
  then show ?thesis using w by blast
qed

text \<open>
  C24: A worker that is closing and has no request left gets closed: the callbacks of the
  handles of its connections are due, each leaves one connection less, and after as many as
  there are connections no pool is left and the session was told once.
\<close>

theorem closing_worker_closes:
  assumes "worker_reach cf w" and "pc_core_connections (wc_pool cf) > 0"
    and "worker_is_closing w" and "w_pending_requests w \<le> 0"
  shows "\<exists>xs w'. list_all handle_closed xs \<and> worker_ops_enabled cf xs w \<and> run_worker_ops cf xs w = Some w' \<and>
           length xs = open_connections w \<and> w_state w' = IO_WORKER_STATE_CLOSED \<and> w_pools w' = [] \<and>
           worker_closed_calls (w_calls w') = 1"
proof -
  obtain xs w' where "list_all handle_closed xs" "worker_ops_enabled cf xs w" "run_worker_ops cf xs w = Some w'"
    "length xs = open_connections w" "worker_inv cf w'" "w_state w' = IO_WORKER_STATE_CLOSED"
    using closing_ends [OF worker_reach_inv [OF assms(1,2)] assms(3,4)] by blast
  then show ?thesis by (auto simp: worker_inv_def worker_weak_def)
qed

theorem closing_worker_closes_witness:
  "\<exists>w1 w2 w3 xs w. run_worker_op example_worker_config (Worker_add (Inet 1 9042) True) worker_new = Some w1 \<and>
     run_worker_op example_worker_config (Worker_enqueue None) w1 = Some w2 \<and>
     run_worker_op example_worker_config Worker_execute w2 = Some w3 \<and> worker_is_closing w3 \<and>
     run_worker_ops example_worker_config xs w3 = Some w \<and> w_state w = IO_WORKER_STATE_CLOSED"
proof -
  let ?cf = example_worker_config
  obtain w1 where w1: "run_worker_op ?cf (Worker_add (Inet 1 9042) True) worker_new = Some w1"
    and w2: "w_queue (snd (worker_enqueue ?cf None w1)) = [None]" "w_state w1 = IO_WORKER_STATE_READY" "w_pending_requests w1 = 0"
    and w3: "\<exists>w3. worker_on_execute ?cf (snd (worker_enqueue ?cf None w1)) = Some w3 \<and> worker_is_closing w3 \<and> w_pending_requests w3 = 0"
    by (simp add: add_pool_def worker_is_ready_def worker_new_def worker_pool_op_def set_host_is_available_def pool_config_of_def
        example_worker_config_def pool_eval pool_news_def worker_enqueue_def worker_on_execute_def
        worker_maybe_close_def worker_is_closing_def maybe_notify_closed_def answer_call_def notify_pool_ready_def
        worker_tell_def cong: pool_eval_cong)
  define w2' where "w2' = snd (worker_enqueue ?cf None w1)"
  have st2: "w_state w2' = IO_WORKER_STATE_READY" using w2(2) by (simp add: w2'_def worker_enqueue_def)
  obtain w3 where w3: "worker_on_execute ?cf w2' = Some w3" "worker_is_closing w3" "w_pending_requests w3 = 0"
    using w3 by (auto simp: w2'_def)
  have "worker_reach ?cf w1" by (rule worker_reach.step [OF worker_reach.new _ w1]) (simp add: worker_new_def)
  then have "worker_reach ?cf w2'" by (rule worker_reach.step [of _ _ "Worker_enqueue None"]) (simp_all add: w2'_def)
  then have "worker_reach ?cf w3" by (rule worker_reach.step [of _ _ Worker_execute]) (simp_all add: st2 w3)
  from closing_worker_closes [OF this example_core w3(2)] w3(3) obtain xs w where
    "run_worker_ops ?cf xs w3 = Some w" "w_state w = IO_WORKER_STATE_CLOSED" by auto
  then show ?thesis using w1 w3 w2'_def by fastforce
qed

text \<open>
  When the pool of a worker that is not closing gets closed, the worker has a new pool for
  the host at once, which waits to connect, unless a connection had a critical failure (wrong
  credentials, protocol or certificate) or the closing was told not to reconnect; then it has
  none.
\<close>

theorem closed_pool_reconnects:
  assumes "worker_reach cf w" and "pc_core_connections (wc_pool cf) > 0" and "\<not> worker_is_closing w"
    and "map_of (w_pools w) a = Some p" and "worker_enabled cf (Worker_pool a operation) w"
    and "run_pool_op (pool_config_of cf w) operation p = Some p'" and "p_state p' = POOL_STATE_CLOSED"
  shows "\<exists>w'. run_worker_op cf (Worker_pool a operation) w = Some w' \<and> w_state w' = w_state w \<and>
           map_option (\<lambda>q. (p_state q, p_connect_timer q, p_is_initial q)) (map_of (w_pools w') a) =
             (if p_is_critical p' \<or> p_cancel_reconnect p' then None
              else Some (POOL_STATE_WAITING_TO_CONNECT, Some On_wait_to_connect, False))"
proof -
  have inv: "worker_weak cf w" using worker_reach_inv [OF assms(1,2)] by (simp add: worker_inv_def)
  have en: "pool_enabled (wc_pool cf) operation p" using assms(4,5) by simp
  obtain w' where "worker_pool_op cf a operation w = Some w'" "pool_op_result cf a p' w w'"
    using pool_op_lemma [OF inv assms(4) en] assms(6) by auto
  then show ?thesis using assms(3,7)
    by (auto simp: pool_op_result_def delete_conv' update_conv' delayed_connect_def pool_new_def)
qed

text \<open>A pool whose only connection fails gets closed.\<close>

lemma example_failure:
  "\<exists>w1 p p1 w2 p2. run_worker_op example_worker_config (Worker_add (Inet 1 9042) True) worker_new = Some w1 \<and>
     \<not> worker_is_closing w1 \<and> map_of (w_pools w1) (Inet 1 9042) = Some p \<and>
     worker_enabled example_worker_config (Worker_pool (Inet 1 9042) (Pool_connection 0 Op_defunct No_stream_id)) w1 \<and>
     worker_pool_op example_worker_config (Inet 1 9042) (Pool_connection 0 Op_defunct No_stream_id) w1 = Some w2 \<and>
     \<not> worker_is_closing w2 \<and> map_of (w_pools w2) (Inet 1 9042) = Some p1 \<and>
     worker_enabled example_worker_config (Worker_pool (Inet 1 9042) (Pool_connection_closed 0)) w2 \<and>
     run_pool_op (pool_config_of example_worker_config w2) (Pool_connection_closed 0) p1 = Some p2 \<and>
     p_state p2 = POOL_STATE_CLOSED \<and> \<not> p_is_critical p2 \<and> \<not> p_cancel_reconnect p2"
  by (simp add: add_pool_def worker_is_ready_def worker_new_def worker_pool_op_def set_host_is_available_def pool_config_of_def
      example_worker_config_def pool_eval pool_news_def worker_is_closing_def defunct_def pool_on_close_def
      is_critical_failure_def cong: pool_eval_cong)

theorem closed_pool_reconnects_witness:
  "\<exists>w w' q. run_worker_op example_worker_config (Worker_pool (Inet 1 9042) (Pool_connection_closed 0)) w = Some w' \<and>
     map_of (w_pools w') (Inet 1 9042) = Some q \<and> p_state q = POOL_STATE_WAITING_TO_CONNECT"
proof -
  let ?cf = example_worker_config and ?a = "Inet 1 9042"
  obtain w1 p p1 w2 p2 where w1: "run_worker_op ?cf (Worker_add ?a True) worker_new = Some w1"
    and w2: "worker_enabled ?cf (Worker_pool ?a (Pool_connection 0 Op_defunct No_stream_id)) w1"
      "worker_pool_op ?cf ?a (Pool_connection 0 Op_defunct No_stream_id) w1 = Some w2"
    and p: "\<not> worker_is_closing w2" "map_of (w_pools w2) ?a = Some p1"
      "worker_enabled ?cf (Worker_pool ?a (Pool_connection_closed 0)) w2"
      "run_pool_op (pool_config_of ?cf w2) (Pool_connection_closed 0) p1 = Some p2" "p_state p2 = POOL_STATE_CLOSED"
    and p2: "\<not> p_is_critical p2" "\<not> p_cancel_reconnect p2"
    using example_failure by blast
  have "worker_reach ?cf w1" by (rule worker_reach.step [OF worker_reach.new _ w1]) (simp add: worker_new_def)
  then have "worker_reach ?cf w2" by (rule worker_reach.step [OF _ w2(1)]) (simp add: w2(2))
  from closed_pool_reconnects [OF this example_core p] p2 show ?thesis by auto
qed

text \<open>
  A pool that is closing already does not take the order not to reconnect: the removal of
  its host changes nothing, and when the pool is closed the worker connects to the removed
  host again.
\<close>

theorem removal_while_closing_is_lost:
  assumes "worker_reach cf w" and "pc_core_connections (wc_pool cf) > 0"
    and "map_of (w_pools w) a = Some p" and "p_state p = POOL_STATE_CLOSING"
  shows "run_worker_op cf (Worker_remove a True) w = Some w"
proof -
  have "pool_inv (wc_pool cf) p"
    using worker_reach_inv [OF assms(1,2)] assms(3) by (simp add: worker_inv_def worker_weak_def pool_ok_def)
  then have "\<not> no_connections p" using assms(4) by (simp add: pool_inv_def phase_inv_def)
  then have "pool_close (pool_config_of cf w) True p = Some p"
    using assms(4) by (auto simp: pool_close_def maybe_close_def no_connections_def)
  then show ?thesis
    using assms(3) by (simp add: on_remove_pool_def worker_pool_op_def pool_news_def update_triv)
qed

text \<open>
  Without core connections a closing worker that has no pool never tells the session that
  it is closed: the loop over the pools is the only way to the notification.
\<close>

theorem no_core_never_closed:
  assumes "pc_core_connections (wc_pool cf) = 0" and "w_pools w = []"
  shows "worker_maybe_close cf w = Some w"
  using assms by (simp add: worker_maybe_close_def close_first.simps)

theorem no_core_never_closed_witness:
  "worker_maybe_close (example_worker_config\<lparr>wc_pool := example_pool_config\<lparr>pc_core_connections := 0\<rparr>\<rparr>)
     (worker_new\<lparr>w_state := IO_WORKER_STATE_CLOSING\<rparr>) = Some (worker_new\<lparr>w_state := IO_WORKER_STATE_CLOSING\<rparr>)"
  by (rule no_core_never_closed) (simp_all add: example_worker_config_def worker_new_def)

lemma example_removal:
  "\<exists>w1 w2 p. run_worker_op example_worker_config (Worker_add (Inet 1 9042) True) worker_new = Some w1 \<and>
     w_state w1 = IO_WORKER_STATE_READY \<and>
     run_worker_op example_worker_config (Worker_remove (Inet 1 9042) False) w1 = Some w2 \<and>
     map_of (w_pools w2) (Inet 1 9042) = Some p \<and> p_state p = POOL_STATE_CLOSING"
  by (simp add: add_pool_def on_remove_pool_def worker_is_ready_def worker_new_def worker_pool_op_def set_host_is_available_def
      pool_config_of_def example_worker_config_def pool_eval pool_news_def answer_call_def notify_pool_ready_def worker_tell_def
      cong: pool_eval_cong)

theorem removal_while_closing_is_lost_witness:
  "\<exists>w. w_pools w \<noteq> [] \<and> run_worker_op example_worker_config (Worker_remove (Inet 1 9042) True) w = Some w"
proof -
  let ?cf = example_worker_config
  obtain w1 w2 p where w: "run_worker_op ?cf (Worker_add (Inet 1 9042) True) worker_new = Some w1" "w_state w1 = IO_WORKER_STATE_READY"
    "run_worker_op ?cf (Worker_remove (Inet 1 9042) False) w1 = Some w2"
    "map_of (w_pools w2) (Inet 1 9042) = Some p" "p_state p = POOL_STATE_CLOSING" using example_removal by blast
  have "worker_reach ?cf w1" by (rule worker_reach.step [OF worker_reach.new _ w(1)]) (simp add: worker_new_def)
  then have "worker_reach ?cf w2" by (rule worker_reach.step [OF _ _ w(3)]) (simp add: w(2))
  from removal_while_closing_is_lost [OF this example_core w(4,5)] w(4) show ?thesis by (intro exI [of _ w2]) auto
qed

end
