(* ===== verification/Hash_Table.thy ===== *)
theory Hash_Table
  imports String_Util "HOL-Library.Monad_Syntax"
begin

text \<open>
  The case insensitive hash table of \<open>hash_table.hpp\<close>, which finds the columns of a result,
  the fields of a user type and the parameters of a statement by name. Its entries stand in
  a vector and are linked by raw pointers into that vector: a slot of the index points to
  the first entry of a name, \<open>next\<close> to the next entry of an equal name. The model keeps the
  vectors as blocks of a memory and the pointers as pairs of a block and a position, so that a
  pointer into a block that was freed when the vector grew, or into the vector of another
  table, is what it is in the code. \<open>None\<close> is undefined behaviour: a read through a dangling
  pointer, a failed assertion, or a chain that never ends.
\<close>

section \<open>Entries, memory and tables\<close>

type_synonym ptr = "nat \<times> nat"

record 'a ht_entry =
  ent_name :: string
  ent_data :: 'a
  ent_index :: nat
  ent_next :: "ptr option"

text \<open>A new entry, as \<open>HashTableEntry\<close> constructs it.\<close>

definition new_entry :: "string \<Rightarrow> 'a \<Rightarrow> 'a ht_entry" where
  "new_entry name x = \<lparr>ent_name = name, ent_data = x, ent_index = 0, ent_next = None\<rparr>"

record 'a memory =
  blocks :: "nat \<Rightarrow> 'a ht_entry list option"
  next_block :: nat

record hash_table =
  index_mask :: nat
  slots :: "ptr option list"
  entries_block :: nat
  entries_capacity :: nat

definition entries_of :: "'a memory \<Rightarrow> hash_table \<Rightarrow> 'a ht_entry list option" where
  "entries_of mem t = blocks mem (entries_block t)"

definition deref :: "'a memory \<Rightarrow> ptr \<Rightarrow> 'a ht_entry option" where
  "deref mem p =
     (case blocks mem (fst p) of None \<Rightarrow> None
      | Some es \<Rightarrow> if snd p < length es then Some (es ! snd p) else None)"

definition set_block :: "nat \<Rightarrow> 'a ht_entry list option \<Rightarrow> 'a memory \<Rightarrow> 'a memory" where
  "set_block b es mem = mem\<lparr>blocks := (blocks mem)(b := es)\<rparr>"

definition assign :: "ptr \<Rightarrow> ('a ht_entry \<Rightarrow> 'a ht_entry) \<Rightarrow> 'a memory \<Rightarrow> 'a memory option" where
  "assign p f mem =
     (case blocks mem (fst p) of None \<Rightarrow> None
      | Some es \<Rightarrow> if snd p < length es
          then Some (set_block (fst p) (Some (es[snd p := f (es ! snd p)])) mem) else None)"

section \<open>The hash\<close>

definition fnv_step :: "u64 \<Rightarrow> char \<Rightarrow> u64" where
  "fnv_step h c = (h XOR of_nat (of_char (tolower c))) * 0x100000001b3"

definition fnv1a_hash_lower :: "string \<Rightarrow> u64" where
  "fnv1a_hash_lower s = foldl fnv_step 0xcbf29ce484222325 s"

definition home_slot :: "hash_table \<Rightarrow> string \<Rightarrow> nat" where
  "home_slot t name = unat (fnv1a_hash_lower name AND of_nat (index_mask t))"

section \<open>Probing and chains\<close>

text \<open>
  The loop over the index: from slot \<open>h\<close> on to the first slot that is empty or holds the
  name; \<open>Some None\<close> when it comes back to where it started. The index has
  \<open>index_mask + 1\<close> slots, the fuel the callers give.
\<close>

fun probe :: "'a memory \<Rightarrow> hash_table \<Rightarrow> string \<Rightarrow> nat \<Rightarrow> nat \<Rightarrow> nat \<Rightarrow> nat option option" where
  "probe mem t name start 0 h = None"
| "probe mem t name start (Suc fuel) h =
     (case slots t ! h of
        None \<Rightarrow> Some (Some h)
      | Some p \<Rightarrow>
          (case deref mem p of
             None \<Rightarrow> None
           | Some e \<Rightarrow>
               if iequals name (ent_name e) then Some (Some h)
               else (let h' = (h + 1) AND index_mask t in
                     if h' = start then Some None else probe mem t name start fuel h')))"

definition find_slot :: "'a memory \<Rightarrow> hash_table \<Rightarrow> string \<Rightarrow> nat option option" where
  "find_slot mem t name =
     probe mem t name (home_slot t name) (index_mask t + 1) (home_slot t name)"

text \<open>The entries from a pointer on along \<open>next\<close>.\<close>

partial_function (option) chain :: "'a memory \<Rightarrow> ptr option \<Rightarrow> 'a ht_entry list option" where
  "chain mem p =
     (case p of None \<Rightarrow> Some []
      | Some q \<Rightarrow>
          Option.bind (deref mem q) (\<lambda>e.
          Option.bind (chain mem (ent_next e)) (\<lambda>es. Some (e # es))))"

partial_function (option) last_in_chain :: "'a memory \<Rightarrow> ptr \<Rightarrow> ptr option" where
  "last_in_chain mem p =
     Option.bind (deref mem p) (\<lambda>e.
     (case ent_next e of None \<Rightarrow> Some p | Some q \<Rightarrow> last_in_chain mem q))"

declare chain.simps [code] last_in_chain.simps [code]

section \<open>Lookup\<close>

text \<open>A name in double quotes asks for a comparison with case.\<close>

definition unquote :: "string \<Rightarrow> (bool \<times> string) option" where
  "unquote name =
     (if length name > 0 \<and> hd name = quote_char \<and> last name = quote_char
      then (case string_substr name 1 (if length name = 1 then 2 ^ 64 - 1 else length name - 2) of
              None \<Rightarrow> None | Some s \<Rightarrow> Some (True, s))
      else Some (False, name))"

definition get_indices :: "'a memory \<Rightarrow> hash_table \<Rightarrow> string \<Rightarrow> nat list option" where
  "get_indices mem t quoted =
     (case unquote quoted of
        None \<Rightarrow> None
      | Some (is_case_sensitive, name) \<Rightarrow>
          (case find_slot mem t name of
             None \<Rightarrow> None
           | Some None \<Rightarrow> Some []
           | Some (Some h) \<Rightarrow>
               (case chain mem (slots t ! h) of
                  None \<Rightarrow> None
                | Some es \<Rightarrow>
                    Some (map ent_index
                      (if is_case_sensitive then filter (\<lambda>e. string_equals name (ent_name e)) es
                       else es)))))"

section \<open>Insertion\<close>

definition add_index :: "ptr \<Rightarrow> 'a memory \<Rightarrow> hash_table \<Rightarrow> ('a memory \<times> hash_table) option" where
  "add_index entry mem t =
     (case deref mem entry of
        None \<Rightarrow> None
      | Some e \<Rightarrow>
          (let h = home_slot t (ent_name e) in
           if slots t ! h = None then Some (mem, t\<lparr>slots := (slots t)[h := Some entry]\<rparr>)
           else
             (case find_slot mem t (ent_name e) of
                None \<Rightarrow> None
              | Some None \<Rightarrow> Some (mem, t)
              | Some (Some h) \<Rightarrow>
                  (case slots t ! h of
                     None \<Rightarrow> Some (mem, t\<lparr>slots := (slots t)[h := Some entry]\<rparr>)
                   | Some first \<Rightarrow>
                       (case last_in_chain mem first of
                          None \<Rightarrow> None
                        | Some end_of_chain \<Rightarrow>
                            (case assign end_of_chain (\<lambda>c. c\<lparr>ent_next := Some entry\<rparr>) mem of
                               None \<Rightarrow> None
                             | Some mem \<Rightarrow> Some (mem, t)))))))"

text \<open>
  \<open>reserve\<close> of the vector: beyond its capacity the entries move, with the pointers they hold,
  to a new block, and the old one is freed.
\<close>

definition reserve_entries :: "nat \<Rightarrow> 'a memory \<Rightarrow> hash_table \<Rightarrow> 'a memory \<times> hash_table" where
  "reserve_entries cap mem t =
     (if cap \<le> entries_capacity t then (mem, t)
      else ((set_block (entries_block t) None
               (set_block (next_block mem) (entries_of mem t) mem))
              \<lparr>next_block := next_block mem + 1\<rparr>,
            t\<lparr>entries_block := next_block mem, entries_capacity := cap\<rparr>))"

text \<open>The index is a third larger than the entries: \<open>CASS_LOAD_FACTOR\<close> is 0.75.\<close>

definition reset :: "nat \<Rightarrow> 'a memory \<Rightarrow> hash_table \<Rightarrow> ('a memory \<times> hash_table) option" where
  "reset capacity mem t =
     (let cap = (if capacity < entries_capacity t then entries_capacity t else capacity) in
      (case next_pow_2 (cap * 4 div 3 + 1) of
         None \<Rightarrow> None
       | Some index_capacity \<Rightarrow>
           Some (reserve_entries cap mem
             (t\<lparr>slots := replicate index_capacity None, index_mask := index_capacity - 1\<rparr>))))"

fun reindex_from :: "nat \<Rightarrow> nat \<Rightarrow> 'a memory \<Rightarrow> hash_table \<Rightarrow> ('a memory \<times> hash_table) option" where
  "reindex_from i 0 mem t = Some (mem, t)"
| "reindex_from i (Suc k) mem t =
     (case assign (entries_block t, i) (\<lambda>e. e\<lparr>ent_index := i\<rparr>) mem of
        None \<Rightarrow> None
      | Some mem \<Rightarrow>
          (case add_index (entries_block t, i) mem t of
             None \<Rightarrow> None
           | Some (mem, t) \<Rightarrow> reindex_from (i + 1) k mem t))"

definition reindex :: "'a memory \<Rightarrow> hash_table \<Rightarrow> ('a memory \<times> hash_table) option" where
  "reindex mem t =
     (case entries_of mem t of None \<Rightarrow> None | Some es \<Rightarrow> reindex_from 0 (length es) mem t)"

definition resize :: "nat \<Rightarrow> 'a memory \<Rightarrow> hash_table \<Rightarrow> ('a memory \<times> hash_table) option" where
  "resize new_capacity mem t =
     (case reset new_capacity mem t of None \<Rightarrow> None | Some (mem, t) \<Rightarrow> reindex mem t)"

definition push_entry :: "'a ht_entry \<Rightarrow> 'a memory \<Rightarrow> hash_table \<Rightarrow> ('a memory \<times> hash_table) option" where
  "push_entry e mem t =
     (case entries_of mem t of
        None \<Rightarrow> None
      | Some es \<Rightarrow>
          add_index (entries_block t, length es)
            (set_block (entries_block t) (Some (es @ [e\<lparr>ent_index := length es\<rparr>])) mem) t)"

definition add :: "'a ht_entry \<Rightarrow> 'a memory \<Rightarrow> hash_table \<Rightarrow> ('a memory \<times> hash_table) option" where
  "add e mem t =
     (case entries_of mem t of
        None \<Rightarrow> None
      | Some es \<Rightarrow>
          (if length es \<ge> entries_capacity t
           then (case resize (2 * entries_capacity t) mem t of
                   None \<Rightarrow> None | Some (mem, t) \<Rightarrow> push_entry e mem t)
           else push_entry e mem t))"

fun add_all :: "'a ht_entry list \<Rightarrow> 'a memory \<Rightarrow> hash_table \<Rightarrow> ('a memory \<times> hash_table) option" where
  "add_all [] mem t = Some (mem, t)"
| "add_all (e # es) mem t =
     (case add e mem t of None \<Rightarrow> None | Some (mem, t) \<Rightarrow> add_all es mem t)"

text \<open>\<open>set_entries\<close> copies the entries of another vector, with the pointers they hold.\<close>

definition set_entries :: "'a ht_entry list \<Rightarrow> 'a memory \<Rightarrow> hash_table \<Rightarrow> ('a memory \<times> hash_table) option" where
  "set_entries entries mem t =
     (case reset (length entries) (set_block (entries_block t) (Some []) mem) t of
        None \<Rightarrow> None
      | Some (mem, t) \<Rightarrow> add_all entries mem t)"

text \<open>A table before \<open>reset\<close>: an empty vector with room for 16 entries, no index.\<close>

definition raw_table :: "'a memory \<Rightarrow> 'a memory \<times> hash_table" where
  "raw_table mem =
     ((set_block (next_block mem) (Some []) mem)\<lparr>next_block := next_block mem + 1\<rparr>,
      \<lparr>index_mask = 0, slots = [], entries_block = next_block mem, entries_capacity = 16\<rparr>)"

definition table_with_capacity :: "nat \<Rightarrow> 'a memory \<Rightarrow> ('a memory \<times> hash_table) option" where
  "table_with_capacity capacity mem = (case raw_table mem of (mem, t) \<Rightarrow> reset capacity mem t)"

definition table_of_entries :: "'a ht_entry list \<Rightarrow> 'a memory \<Rightarrow> ('a memory \<times> hash_table) option" where
  "table_of_entries entries mem = (case raw_table mem of (mem, t) \<Rightarrow> set_entries entries mem t)"

definition empty_memory :: "'a memory" where
  "empty_memory = \<lparr>blocks = (\<lambda>b. None), next_block = 0\<rparr>"

section \<open>The hash and the probe\<close>

lemma tolower_toupper [simp]: "tolower (toupper c) = tolower c"
proof -
  have "(of_char (char_of (m :: nat)) :: nat) = m" if "m < 256" for m
    using that by (simp add: take_bit_eq_mod)
  moreover have "char_of (of_char c :: nat) = c" by simp
  moreover have "(of_char c :: nat) < 256" by (rule nat_of_char_less_256)
  ultimately show ?thesis
    by (auto simp: tolower_def toupper_def Let_def)
qed

lemma hash_upper: "fnv1a_hash_lower (map toupper s) = fnv1a_hash_lower s"
proof -
  have "foldl fnv_step h (map toupper s) = foldl fnv_step h s" for h
    by (induction s arbitrary: h) (simp_all add: fnv_step_def)
  then show ?thesis by (simp add: fnv1a_hash_lower_def)
qed

lemma equal_names_same_home: "iequals a b \<Longrightarrow> home_slot t a = home_slot t b"
  by (metis hash_upper home_slot_def iequals_iff)

text \<open>The index is a power of two: the mask takes the rest of the division.\<close>

definition index_ok :: "hash_table \<Rightarrow> bool" where
  "index_ok t \<longleftrightarrow>
     index_mask t + 1 = length (slots t) \<and> (\<exists>k < 64. length (slots t) = 2 ^ k)"

lemma masked:
  assumes "index_ok t"
  shows "h AND index_mask t = h mod length (slots t)"
proof -
  from assms obtain k where "length (slots t) = 2 ^ k" "index_mask t = mask k"
    by (auto simp: index_ok_def mask_eq_exp_minus_1)
  then show ?thesis by (simp flip: take_bit_eq_mask add: take_bit_eq_mod)
qed

lemma home_in_index:
  assumes "index_ok t"
  shows "home_slot t name < length (slots t)"
proof -
  from assms obtain k where k: "k < 64" "length (slots t) = 2 ^ k" "index_mask t + 1 = 2 ^ k"
    by (auto simp: index_ok_def)
  have "index_mask t < 2 ^ 64"
    using k power_strict_increasing [of k 64 "2 :: nat"] by linarith
  then have "unat (of_nat (index_mask t) :: u64) = index_mask t"
    by (simp add: unat_of_nat take_bit_eq_mod)
  moreover have "fnv1a_hash_lower name AND of_nat (index_mask t) \<le> (of_nat (index_mask t) :: u64)"
    by (rule word_and_le1)
  ultimately have "home_slot t name \<le> index_mask t"
    unfolding home_slot_def word_le_nat_alt by simp
  then show ?thesis using k by simp
qed

text \<open>The slot \<open>d\<close> steps behind the home slot of a name.\<close>

definition step_slot :: "hash_table \<Rightarrow> string \<Rightarrow> nat \<Rightarrow> nat" where
  "step_slot t name d = (home_slot t name + d) mod length (slots t)"

definition hits :: "'a memory \<Rightarrow> hash_table \<Rightarrow> string \<Rightarrow> nat \<Rightarrow> bool" where
  "hits mem t name h \<longleftrightarrow>
     (case slots t ! h of None \<Rightarrow> True
      | Some p \<Rightarrow> (case deref mem p of None \<Rightarrow> False | Some e \<Rightarrow> iequals name (ent_name e)))"

definition slot_valid :: "'a memory \<Rightarrow> hash_table \<Rightarrow> nat \<Rightarrow> bool" where
  "slot_valid mem t h \<longleftrightarrow> (case slots t ! h of None \<Rightarrow> True | Some p \<Rightarrow> deref mem p \<noteq> None)"

lemma step_slot_0: "index_ok t \<Longrightarrow> step_slot t name 0 = home_slot t name"
  by (simp add: step_slot_def home_in_index)

lemma step_slot_Suc:
  "index_ok t \<Longrightarrow> (step_slot t name d + 1) AND index_mask t = step_slot t name (Suc d)"
  by (simp add: masked step_slot_def mod_Suc_eq)

lemma step_slot_not_home:
  assumes "index_ok t" and "0 < d" and "d < length (slots t)"
  shows "step_slot t name d \<noteq> home_slot t name"
proof -
  define h where "h = home_slot t name"
  define n where "n = length (slots t)"
  have "h < n" "0 < d" "d < n" using assms home_in_index [OF assms(1)] by (simp_all add: h_def n_def)
  then have "(h + d) mod n \<noteq> h"
    by (cases "h + d < n") (simp_all add: le_mod_geq)
  then show ?thesis by (simp add: step_slot_def h_def n_def)
qed

lemma probe_from:
  assumes "index_ok t" and "c \<le> d" and "d < length (slots t)" and "d - c < fuel"
    and "hits mem t name (step_slot t name d)"
    and "\<And>e. e < d \<Longrightarrow> \<not> hits mem t name (step_slot t name e) \<and> slot_valid mem t (step_slot t name e)"
  shows "probe mem t name (home_slot t name) fuel (step_slot t name c) = Some (Some (step_slot t name d))"
  using assms
proof (induction "d - c" arbitrary: c fuel)
  case 0
  then have "c = d" by simp
  with 0 show ?case
    by (cases fuel) (auto simp: hits_def split: option.splits)
next
  case (Suc m)
  then obtain f where f: "fuel = Suc f" by (cases fuel) auto
  have c: "c < d" using Suc.hyps(2) by simp
  have next_home: "step_slot t name (Suc c) \<noteq> home_slot t name"
    using step_slot_not_home [OF Suc.prems(1)] c Suc.prems(3) by simp
  have "probe mem t name (home_slot t name) f (step_slot t name (Suc c)) = Some (Some (step_slot t name d))"
    using Suc.hyps(1) [of "Suc c" f] Suc.hyps(2) Suc.prems c f by simp
  then show ?case
    using Suc.prems(6) [OF c] next_home step_slot_Suc [OF Suc.prems(1), of name c]
    by (auto simp: f hits_def slot_valid_def Let_def split: option.splits)
qed

lemma find_slot_first:
  assumes "index_ok t" and "d < length (slots t)"
    and "hits mem t name (step_slot t name d)"
    and "\<And>e. e < d \<Longrightarrow> \<not> hits mem t name (step_slot t name e) \<and> slot_valid mem t (step_slot t name e)"
  shows "find_slot mem t name = Some (Some (step_slot t name d))"
proof -
  have "probe mem t name (home_slot t name) (index_mask t + 1) (step_slot t name 0) =
      Some (Some (step_slot t name d))"
    by (rule probe_from [OF assms(1) _ assms(2) _ assms(3, 4)])
      (use assms(1, 2) in \<open>simp_all add: index_ok_def\<close>)
  then show ?thesis by (simp only: find_slot_def step_slot_0 [OF assms(1)])
qed

section \<open>What a table represents\<close>

definition same_name :: "'a ht_entry list \<Rightarrow> nat \<Rightarrow> nat \<Rightarrow> bool" where
  "same_name es i j \<longleftrightarrow> iequals (ent_name (es ! i)) (ent_name (es ! j))"

definition first_of :: "'a ht_entry list \<Rightarrow> nat \<Rightarrow> bool" where
  "first_of es i \<longleftrightarrow> (\<forall>j < i. \<not> same_name es i j)"

definition later :: "'a ht_entry list \<Rightarrow> nat \<Rightarrow> nat \<Rightarrow> nat option" where
  "later es n i = List.find (same_name es i) [Suc i..<n]"

text \<open>The first \<open>n\<close> of the entries \<open>es\<close> are linked and in the index, the others are not.\<close>

definition links_ok :: "nat \<Rightarrow> 'a ht_entry list \<Rightarrow> nat \<Rightarrow> bool" where
  "links_ok b es n \<longleftrightarrow>
     (\<forall>i < n. ent_index (es ! i) = i \<and> ent_next (es ! i) = map_option (Pair b) (later es n i)) \<and>
     (\<forall>i. n \<le> i \<longrightarrow> i < length es \<longrightarrow> ent_next (es ! i) = None)"

definition slots_sound :: "hash_table \<Rightarrow> 'a ht_entry list \<Rightarrow> nat \<Rightarrow> bool" where
  "slots_sound t es n \<longleftrightarrow>
     (\<forall>h < length (slots t). \<forall>p. slots t ! h = Some p \<longrightarrow>
        (\<exists>i < n. p = (entries_block t, i) \<and> first_of es i))"

definition slots_complete :: "hash_table \<Rightarrow> 'a ht_entry list \<Rightarrow> nat \<Rightarrow> bool" where
  "slots_complete t es n \<longleftrightarrow>
     (\<forall>i < n. first_of es i \<longrightarrow>
        (\<exists>d < length (slots t).
           slots t ! step_slot t (ent_name (es ! i)) d = Some (entries_block t, i) \<and>
           (\<forall>e < d. slots t ! step_slot t (ent_name (es ! i)) e \<noteq> None)))"

definition slots_once :: "hash_table \<Rightarrow> bool" where
  "slots_once t \<longleftrightarrow>
     (\<forall>g < length (slots t). \<forall>h < length (slots t).
        slots t ! g = slots t ! h \<longrightarrow> slots t ! g \<noteq> None \<longrightarrow> g = h)"

definition indexed :: "'a memory \<Rightarrow> hash_table \<Rightarrow> 'a ht_entry list \<Rightarrow> nat \<Rightarrow> bool" where
  "indexed mem t es n \<longleftrightarrow>
     entries_of mem t = Some es \<and> n \<le> length es \<and> index_ok t \<and> n < length (slots t) \<and>
     links_ok (entries_block t) es n \<and> slots_sound t es n \<and> slots_complete t es n \<and> slots_once t"

lemma same_name_refl [simp]: "same_name es i i"
  by (simp add: same_name_def iequals_iff)

lemma same_name_sym: "same_name es i j \<Longrightarrow> same_name es j i"
  by (simp add: same_name_def iequals_iff)

lemma same_name_trans: "same_name es i j \<Longrightarrow> same_name es j k \<Longrightarrow> same_name es i k"
  by (simp add: same_name_def iequals_iff)

lemma same_name_eq: "same_name es i j \<Longrightarrow> same_name es i = same_name es j"
  by (auto intro: same_name_trans same_name_sym)

lemma first_of_unique: "first_of es i \<Longrightarrow> first_of es j \<Longrightarrow> same_name es i j \<Longrightarrow> i = j"
  by (metis first_of_def linorder_neqE_nat same_name_sym)

lemma deref_entry:
  "indexed mem t es n \<Longrightarrow> i < length es \<Longrightarrow> deref mem (entries_block t, i) = Some (es ! i)"
  by (simp add: indexed_def entries_of_def deref_def)

lemma step_slot_in: "index_ok t \<Longrightarrow> step_slot t name d < length (slots t)"
  using home_in_index [of t name] by (cases "slots t = []") (simp_all add: step_slot_def)

lemma step_slot_onto:
  assumes "index_ok t" and "h < length (slots t)"
  shows "\<exists>d < length (slots t). step_slot t name d = h"
proof -
  define s where "s = home_slot t name"
  define n where "n = length (slots t)"
  have "s < n" "h < n" using assms home_in_index [OF assms(1)] by (simp_all add: s_def n_def)
  then have "(s + (if s \<le> h then h - s else n - s + h)) mod n = h"
    and "(if s \<le> h then h - s else n - s + h) < n" by auto
  then show ?thesis unfolding step_slot_def s_def n_def by blast
qed

lemma free_slot:
  assumes "indexed mem t es n"
  shows "\<exists>h < length (slots t). slots t ! h = None"
proof (rule ccontr)
  assume none: "\<not> ?thesis"
  let ?f = "\<lambda>h. snd (the (slots t ! h))"
  have val: "\<exists>i < n. slots t ! h = Some (entries_block t, i)" if "h < length (slots t)" for h
  proof -
    obtain p where p: "slots t ! h = Some p" using none \<open>h < length (slots t)\<close>
      by (cases "slots t ! h") blast+
    with assms \<open>h < length (slots t)\<close> show ?thesis unfolding indexed_def slots_sound_def by blast
  qed
  have "inj_on ?f {..<length (slots t)}"
  proof (rule inj_onI)
    fix g h assume gh: "g \<in> {..<length (slots t)}" "h \<in> {..<length (slots t)}" "?f g = ?f h"
    with val [of g] val [of h] have "slots t ! g = slots t ! h" "slots t ! g \<noteq> None" by auto
    with assms gh show "g = h" unfolding indexed_def slots_once_def by blast
  qed
  moreover have "?f ` {..<length (slots t)} \<subseteq> {..<n}" using val by force
  ultimately have "length (slots t) \<le> n"
    using card_inj_on_le [of ?f "{..<length (slots t)}" "{..<n}"] by simp
  then show False using assms by (simp add: indexed_def)
qed

text \<open>A slot that is taken by another name is passed.\<close>

lemma occupied_slot:
  assumes "indexed mem t es n" and "h < length (slots t)" and "slots t ! h \<noteq> None"
  obtains i where "i < n" "slots t ! h = Some (entries_block t, i)" "first_of es i"
    "slot_valid mem t h" "hits mem t name h \<longleftrightarrow> iequals name (ent_name (es ! i))"
proof -
  obtain p where p: "slots t ! h = Some p" using assms(3) by blast
  moreover obtain i where i: "i < n" "p = (entries_block t, i)" "first_of es i"
    using assms(1, 2) p unfolding indexed_def slots_sound_def by blast
  moreover have "deref mem p = Some (es ! i)"
    using deref_entry [OF assms(1), of i] i assms(1) by (simp add: indexed_def)
  ultimately show ?thesis
    using that [of i] by (simp add: slot_valid_def hits_def)
qed

lemma find_slot_absent:
  assumes "indexed mem t es n" and "\<And>i. i < n \<Longrightarrow> \<not> iequals name (ent_name (es ! i))"
  shows "\<exists>d < length (slots t). find_slot mem t name = Some (Some (step_slot t name d)) \<and>
    slots t ! step_slot t name d = None \<and> (\<forall>e < d. slots t ! step_slot t name e \<noteq> None)"
proof -
  have ok: "index_ok t" using assms(1) by (simp add: indexed_def)
  obtain d0 where d0: "d0 < length (slots t)" "slots t ! step_slot t name d0 = None"
    using free_slot [OF assms(1)] step_slot_onto [OF ok] by metis
  define d where "d = (LEAST d. slots t ! step_slot t name d = None)"
  have d: "slots t ! step_slot t name d = None" "d < length (slots t)"
    using LeastI [of "\<lambda>d. slots t ! step_slot t name d = None", OF d0(2)]
      Least_le [of "\<lambda>d. slots t ! step_slot t name d = None", OF d0(2)] d0(1)
    by (simp_all add: d_def)
  have before: "slots t ! step_slot t name e \<noteq> None" if "e < d" for e
    using not_less_Least that unfolding d_def by blast
  have "find_slot mem t name = Some (Some (step_slot t name d))"
  proof (rule find_slot_first [OF ok d(2)])
    show "hits mem t name (step_slot t name d)" using d(1) by (simp add: hits_def)
    fix e assume "e < d"
    from occupied_slot [OF assms(1) step_slot_in [OF ok] before [OF this]] assms(2)
    show "\<not> hits mem t name (step_slot t name e) \<and> slot_valid mem t (step_slot t name e)"
      by metis
  qed
  then show ?thesis using d before by blast
qed

lemma find_slot_present:
  assumes "indexed mem t es n" and "i < n" and "first_of es i" and "iequals name (ent_name (es ! i))"
  shows "\<exists>h < length (slots t). find_slot mem t name = Some (Some h) \<and>
    slots t ! h = Some (entries_block t, i) \<and> slots t ! home_slot t name \<noteq> None"
proof -
  have ok: "index_ok t" using assms(1) by (simp add: indexed_def)
  have steps: "step_slot t (ent_name (es ! i)) = step_slot t name"
    using equal_names_same_home [OF assms(4)] by (simp add: step_slot_def [abs_def])
  from assms(1-3) obtain d0 where d0: "d0 < length (slots t)"
    "slots t ! step_slot t name d0 = Some (entries_block t, i)"
    "\<And>e. e < d0 \<Longrightarrow> slots t ! step_slot t name e \<noteq> None"
    unfolding indexed_def slots_complete_def steps [symmetric] by blast
  define d where "d = (LEAST d. slots t ! step_slot t name d = Some (entries_block t, i))"
  have d: "slots t ! step_slot t name d = Some (entries_block t, i)" "d \<le> d0"
    using LeastI [of "\<lambda>d. slots t ! step_slot t name d = Some (entries_block t, i)", OF d0(2)]
      Least_le [of "\<lambda>d. slots t ! step_slot t name d = Some (entries_block t, i)", OF d0(2)]
    by (simp_all add: d_def)
  have before: "slots t ! step_slot t name e \<noteq> Some (entries_block t, i)" if "e < d" for e
    using not_less_Least that unfolding d_def by blast
  have "find_slot mem t name = Some (Some (step_slot t name d))"
  proof (rule find_slot_first [OF ok])
    show "d < length (slots t)" using d(2) d0(1) by simp
    have "i < length es" using assms(1, 2) by (simp add: indexed_def)
    then show "hits mem t name (step_slot t name d)"
      using d(1) deref_entry [OF assms(1)] assms(4) by (simp add: hits_def)
    fix e assume e: "e < d"
    then have "slots t ! step_slot t name e \<noteq> None" using d0(3) d(2) by simp
    from occupied_slot [OF assms(1) step_slot_in [OF ok] this] obtain j where
      j: "j < n" "slots t ! step_slot t name e = Some (entries_block t, j)" "first_of es j"
        "slot_valid mem t (step_slot t name e)"
        "hits mem t name (step_slot t name e) \<longleftrightarrow> iequals name (ent_name (es ! j))" by metis
    have "i \<noteq> j" using before [OF e] j(2) by auto
    then have "\<not> same_name es i j" using first_of_unique [OF assms(3) j(3)] by blast
    then have "\<not> iequals name (ent_name (es ! j))"
      using assms(4) by (simp add: same_name_def iequals_iff)
    with j show "\<not> hits mem t name (step_slot t name e) \<and> slot_valid mem t (step_slot t name e)"
      by blast
  qed
  moreover have "slots t ! home_slot t name \<noteq> None"
    using d0(2) d0(3) [of 0] step_slot_0 [OF ok] by (cases d0) auto
  ultimately show ?thesis using d(1) step_slot_in [OF ok] by blast
qed

section \<open>Chains\<close>

lemma find_upt_Some:
  "List.find P [a..<n] = Some j \<Longrightarrow> a \<le> j \<and> j < n \<and> P j \<and> filter P [a..<n] = j # filter P [Suc j..<n]"
proof (induction "n - a" arbitrary: a)
  case (Suc m)
  then have up: "[a..<n] = a # [Suc a..<n]" by (simp add: upt_conv_Cons)
  show ?case
  proof (cases "P a")
    case True
    with Suc up show ?thesis by auto
  next
    case False
    with Suc.prems up have "List.find P [Suc a..<n] = Some j" by simp
    moreover have "m = n - Suc a" using Suc.hyps(2) by simp
    ultimately show ?thesis using Suc.hyps(1) [of "Suc a"] False by (simp add: up)
  qed
qed simp

lemma find_upt_None: "List.find P [a..<n] = None \<Longrightarrow> filter P [a..<n] = []"
  by (simp add: find_None_iff filter_empty_conv)

lemma chain_from:
  assumes "indexed mem t es n" and "i < n"
  shows "chain mem (Some (entries_block t, i)) = Some (map (nth es) (filter (same_name es i) [i..<n]))
    \<and> last_in_chain mem (entries_block t, i) =
        Some (entries_block t, last (filter (same_name es i) [i..<n]))"
  using assms(2)
proof (induction "n - i" arbitrary: i rule: less_induct)
  case less
  have i: "i < length es" using less.prems assms(1) by (simp add: indexed_def)
  have nxt: "ent_next (es ! i) = map_option (Pair (entries_block t)) (later es n i)"
    using assms(1) less.prems by (simp add: indexed_def links_ok_def)
  have split: "filter (same_name es i) [i..<n] = i # filter (same_name es i) [Suc i..<n]"
    using less.prems by (simp add: upt_conv_Cons)
  note deref = deref_entry [OF assms(1) i]
  show ?case
  proof (cases "later es n i")
    case None
    then have "filter (same_name es i) [Suc i..<n] = []"
      using find_upt_None by (simp add: later_def)
    moreover have "chain mem None = Some []" by (subst chain.simps) simp
    ultimately show ?thesis
      using None nxt deref split by (subst chain.simps, subst last_in_chain.simps) simp
  next
    case (Some j)
    then have j: "Suc i \<le> j" "j < n" "same_name es i j"
      "filter (same_name es i) [Suc i..<n] = j # filter (same_name es i) [Suc j..<n]"
      using find_upt_Some unfolding later_def by blast+
    have rest: "filter (same_name es j) [j..<n] = j # filter (same_name es i) [Suc j..<n]"
      using j(2) by (simp add: upt_conv_Cons same_name_eq [OF j(3)])
    have "n - j < n - i" using j less.prems by simp
    from less.hyps [OF this j(2)] show ?thesis
      using Some nxt deref split j(4) rest
      by (subst chain.simps, subst last_in_chain.simps) simp
  qed
qed

section \<open>Linking one more entry\<close>

lemma last_filter_upt:
  "a \<le> i \<Longrightarrow> i < n \<Longrightarrow> P i \<Longrightarrow>
   i \<le> last (filter P [a..<n]) \<and> last (filter P [a..<n]) < n \<and> P (last (filter P [a..<n]))"
proof (induction n)
  case (Suc n)
  then show ?case by (cases "i = n") auto
qed simp

lemma later_Suc:
  "i < n \<Longrightarrow> later es (Suc n) i =
     (case later es n i of None \<Rightarrow> if same_name es i n then Some n else None | Some j \<Rightarrow> Some j)"
proof -
  have "List.find P (xs @ [y]) =
      (case List.find P xs of None \<Rightarrow> if P y then Some y else None | Some z \<Rightarrow> Some z)" for P xs and y :: nat
    by (induction xs) auto
  moreover assume "i < n"
  then have "[Suc i..<Suc n] = [Suc i..<n] @ [n]" by simp
  ultimately show ?thesis by (simp add: later_def)
qed

lemma later_self [simp]: "later es (Suc n) n = None"
  by (simp add: later_def)

lemma later_None: "later es n i = None \<longleftrightarrow> (\<forall>j. i < j \<longrightarrow> j < n \<longrightarrow> \<not> same_name es i j)"
  by (auto simp: later_def find_None_iff)

definition set_next :: "nat \<Rightarrow> ptr \<Rightarrow> 'a ht_entry list \<Rightarrow> 'a ht_entry list" where
  "set_next k p es = es[k := (es ! k)\<lparr>ent_next := Some p\<rparr>]"

lemma set_next_simps [simp]:
  "length (set_next k p es) = length es"
  "ent_name (set_next k p es ! i) = ent_name (es ! i)"
  "ent_index (set_next k p es ! i) = ent_index (es ! i)"
  "ent_data (set_next k p es ! i) = ent_data (es ! i)"
  "k < length es \<Longrightarrow> ent_next (set_next k p es ! i) = (if i = k then Some p else ent_next (es ! i))"
  by (simp_all add: set_next_def nth_list_update)
    (cases "k < length es", simp_all add: nth_list_update list_update_beyond)+

lemma set_next_relations [simp]:
  "same_name (set_next k p es) = same_name es"
  "first_of (set_next k p es) = first_of es"
  "later (set_next k p es) = later es"
  by (simp_all add: same_name_def [abs_def] first_of_def [abs_def] later_def [abs_def])

lemma entries_after_set [simp]: "entries_of (set_block (entries_block t) x mem) t = x"
  by (simp add: entries_of_def set_block_def)

text \<open>The first entry of a name goes into a free slot.\<close>

lemma indexed_new_slot:
  assumes ix: "indexed mem t es n" and n: "n < length es" "ent_index (es ! n) = n" "Suc n < length (slots t)"
    and first: "first_of es n"
    and d: "d < length (slots t)" "slots t ! step_slot t (ent_name (es ! n)) d = None"
      "\<forall>e < d. slots t ! step_slot t (ent_name (es ! n)) e \<noteq> None"
  shows "indexed mem (t\<lparr>slots := (slots t)[step_slot t (ent_name (es ! n)) d := Some (entries_block t, n)]\<rparr>) es (Suc n)"
    (is "indexed mem ?t es (Suc n)")
proof -
  let ?h = "step_slot t (ent_name (es ! n)) d"
  have ok: "index_ok t" using ix by (simp add: indexed_def)
  note h = step_slot_in [OF ok, of "ent_name (es ! n)" d]
  have steps: "step_slot ?t = step_slot t" by (simp add: step_slot_def [abs_def] home_slot_def [abs_def])
  have get: "slots ?t ! g = (if g = ?h then Some (entries_block t, n) else slots t ! g)"
    if "g < length (slots t)" for g using that h by simp
  have alone: "\<not> same_name es i n" if "i < n" for i
    using first that by (auto simp: first_of_def dest: same_name_sym)
  have later_same: "later es (Suc n) i = later es n i" if "i < n" for i
    using alone [OF that] that by (simp add: later_Suc split: option.split)
  have links: "links_ok (entries_block t) es (Suc n)"
    using ix n later_same by (simp add: indexed_def links_ok_def less_Suc_eq)
  have sound: "slots_sound ?t es (Suc n)"
    unfolding slots_sound_def
  proof (intro allI impI)
    fix g p assume g: "g < length (slots ?t)" and p: "slots ?t ! g = Some p"
    show "\<exists>i<Suc n. p = (entries_block ?t, i) \<and> first_of es i"
    proof (cases "g = ?h")
      case True
      with p h first show ?thesis by auto
    next
      case False
      with g p have "slots t ! g = Some p" "g < length (slots t)" by simp_all
      with ix show ?thesis by (cases p) (auto simp: indexed_def slots_sound_def)
    qed
  qed
  have complete: "slots_complete ?t es (Suc n)"
    unfolding slots_complete_def steps
  proof (intro allI impI)
    fix i assume i: "i < Suc n" "first_of es i"
    show "\<exists>d<length (slots ?t). slots ?t ! step_slot t (ent_name (es ! i)) d = Some (entries_block ?t, i) \<and>
        (\<forall>e<d. slots ?t ! step_slot t (ent_name (es ! i)) e \<noteq> None)"
    proof (cases "i = n")
      case True
      with d h show ?thesis using get step_slot_in [OF ok] by (intro exI [of _ d]) simp
    next
      case False
      then have "i < n" using i by simp
      with ix i obtain c where c: "c < length (slots t)"
        "slots t ! step_slot t (ent_name (es ! i)) c = Some (entries_block t, i)"
        "\<forall>e<c. slots t ! step_slot t (ent_name (es ! i)) e \<noteq> None"
        unfolding indexed_def slots_complete_def by blast
      then have "step_slot t (ent_name (es ! i)) c \<noteq> ?h" using d(2) by auto
      with c show ?thesis using get step_slot_in [OF ok] by (intro exI [of _ c]) simp
    qed
  qed
  have fresh: "slots t ! g \<noteq> Some (entries_block t, n)" if "g < length (slots t)" for g
    using ix that unfolding indexed_def slots_sound_def by blast
  have "slots_once ?t"
    unfolding slots_once_def
  proof (intro allI impI)
    fix f g assume "f < length (slots ?t)" "g < length (slots ?t)" "slots ?t ! f = slots ?t ! g" "slots ?t ! f \<noteq> None"
    then have fg: "f < length (slots t)" "g < length (slots t)" "slots ?t ! f = slots ?t ! g" "slots ?t ! f \<noteq> None"
      by simp_all
    with ix show "f = g" unfolding indexed_def slots_once_def
      using get [OF fg(1)] get [OF fg(2)] fresh [OF fg(1)] fresh [OF fg(2)] by metis
  qed
  with ix n links sound complete show ?thesis
    by (simp add: indexed_def entries_of_def index_ok_def)
qed

text \<open>An entry of a name that is there already is linked behind the last of that name.\<close>

lemma indexed_new_link:
  assumes ix: "indexed mem t es n" and n: "n < length es" "ent_index (es ! n) = n" "Suc n < length (slots t)"
    and f: "f < n" "first_of es f" "same_name es f n"
    and l: "l = last (filter (same_name es f) [f..<n])"
  shows "indexed (set_block (entries_block t) (Some (set_next l (entries_block t, n) es)) mem) t
    (set_next l (entries_block t, n) es) (Suc n)"
proof -
  have l_facts: "l < n" "same_name es f l"
    using last_filter_upt [of f f n "same_name es f"] f(1) by (simp_all add: l)
  then have "l < length es" using n by simp
  have l_last: "i \<le> l" if "same_name es f i" "i < n" for i
  proof (cases "f \<le> i")
    case True
    then show ?thesis using last_filter_upt [of f i n "same_name es f"] that by (simp add: l)
  next
    case False
    then show ?thesis using f(2) that by (simp add: first_of_def)
  qed
  have at_l: "later es n l = None"
    unfolding later_None using l_last same_name_trans [OF l_facts(2)] not_le by blast
  have same_l: "same_name es l n"
    using same_name_trans [OF same_name_sym [OF l_facts(2)] f(3)] .
  have other: "later es n i \<noteq> None \<or> \<not> same_name es i n" if "i < n" "i \<noteq> l" for i
  proof (rule ccontr)
    assume "\<not> ?thesis"
    then have none: "later es n i = None" and s: "same_name es i n" by auto
    have "same_name es f i" using same_name_trans [OF f(3) same_name_sym [OF s]] .
    then have "i < l" using l_last [of i] that by simp
    moreover have "same_name es i l"
      using same_name_trans [OF same_name_sym [OF \<open>same_name es f i\<close>] l_facts(2)] .
    ultimately show False using none l_facts(1) unfolding later_None by blast
  qed
  have links: "links_ok (entries_block t) (set_next l (entries_block t, n) es) (Suc n)"
    unfolding links_ok_def
  proof (intro conjI allI impI)
    fix i assume i: "i < Suc n"
    show "ent_index (set_next l (entries_block t, n) es ! i) = i"
      using i n ix by (cases "i = n") (simp_all add: indexed_def links_ok_def)
    show "ent_next (set_next l (entries_block t, n) es ! i) =
        map_option (Pair (entries_block t)) (later (set_next l (entries_block t, n) es) (Suc n) i)"
    proof (cases "i = n")
      case True
      then show ?thesis using n ix l_facts \<open>l < length es\<close> by (simp add: indexed_def links_ok_def)
    next
      case False
      then have "i < n" using i by simp
      then have "ent_next (es ! i) = map_option (Pair (entries_block t)) (later es n i)"
        using ix by (simp add: indexed_def links_ok_def)
      then show ?thesis
        using at_l same_l other [OF \<open>i < n\<close>] \<open>l < length es\<close> \<open>i < n\<close>
        by (cases "i = l") (auto simp: later_Suc split: option.splits)
    qed
  next
    fix i assume "Suc n \<le> i" "i < length (set_next l (entries_block t, n) es)"
    then show "ent_next (set_next l (entries_block t, n) es ! i) = None"
      using ix l_facts \<open>l < length es\<close> by (simp add: indexed_def links_ok_def)
  qed
  have sound: "slots_sound t (set_next l (entries_block t, n) es) (Suc n)"
    using ix unfolding indexed_def slots_sound_def by (metis set_next_relations(2) less_SucI)
  have "\<not> first_of es n" using f by (auto simp: first_of_def dest: same_name_sym)
  then have complete: "slots_complete t (set_next l (entries_block t, n) es) (Suc n)"
    using ix by (simp add: indexed_def slots_complete_def less_Suc_eq)
  show ?thesis
    using ix n links sound complete by (simp add: indexed_def)
qed

text \<open>Entries that differ in their links only.\<close>

definition alike :: "'a ht_entry list \<Rightarrow> 'a ht_entry list \<Rightarrow> bool" where
  "alike es' es \<longleftrightarrow>
     map ent_name es' = map ent_name es \<and> map ent_data es' = map ent_data es \<and>
     map ent_index es' = map ent_index es"

lemma alike_refl [simp]: "alike es es"
  by (simp add: alike_def)

lemma alike_trans: "alike a b \<Longrightarrow> alike b c \<Longrightarrow> alike a c"
  by (simp add: alike_def)

lemma alike_length: "alike a b \<Longrightarrow> length a = length b"
  by (auto simp: alike_def dest: map_eq_imp_length_eq)

lemma alike_set_next [simp]: "alike (set_next k p es) es"
  by (simp add: alike_def list_eq_iff_nth_eq)

definition same_frame :: "'a memory \<Rightarrow> hash_table \<Rightarrow> 'a memory \<Rightarrow> hash_table \<Rightarrow> bool" where
  "same_frame mem' t' mem t \<longleftrightarrow>
     entries_block t' = entries_block t \<and> entries_capacity t' = entries_capacity t \<and>
     length (slots t') = length (slots t) \<and> next_block mem' = next_block mem"

lemma add_index_indexed:
  assumes ix: "indexed mem t es n" and n: "n < length es" "ent_index (es ! n) = n" "Suc n < length (slots t)"
  shows "\<exists>mem' t' es'. add_index (entries_block t, n) mem t = Some (mem', t') \<and>
    indexed mem' t' es' (Suc n) \<and> alike es' es \<and> same_frame mem' t' mem t"
proof -
  let ?name = "ent_name (es ! n)"
  note deref = deref_entry [OF ix n(1)]
  have ok: "index_ok t" using ix by (simp add: indexed_def)
  show ?thesis
  proof (cases "first_of es n")
    case True
    then have "\<And>i. i < n \<Longrightarrow> \<not> iequals ?name (ent_name (es ! i))"
      by (simp add: first_of_def same_name_def)
    from find_slot_absent [OF ix this] obtain d where
      d: "d < length (slots t)" "find_slot mem t ?name = Some (Some (step_slot t ?name d))"
        "slots t ! step_slot t ?name d = None" "\<forall>e < d. slots t ! step_slot t ?name e \<noteq> None" by blast
    have "home_slot t ?name = step_slot t ?name d" if "slots t ! home_slot t ?name = None"
      using d(4) that step_slot_0 [OF ok] by (cases d) (auto dest: spec [of _ 0])
    then have "add_index (entries_block t, n) mem t =
        Some (mem, t\<lparr>slots := (slots t)[step_slot t ?name d := Some (entries_block t, n)]\<rparr>)"
      using d(2, 3) deref by (auto simp: add_index_def Let_def)
    moreover have "same_frame mem (t\<lparr>slots := (slots t)[step_slot t ?name d := Some (entries_block t, n)]\<rparr>) mem t"
      by (simp add: same_frame_def)
    ultimately show ?thesis using indexed_new_slot [OF ix n True d(1, 3, 4)] alike_refl by blast
  next
    case False
    define f where "f = (LEAST i. same_name es n i)"
    have f: "same_name es n f" "f < n"
    proof -
      obtain i where "i < n" "same_name es n i" using False by (auto simp: first_of_def)
      then show "same_name es n f" "f < n"
        using LeastI [of "same_name es n" i] Least_le [of "same_name es n" i] by (auto simp: f_def)
    qed
    have first: "first_of es f"
      unfolding first_of_def
    proof (intro allI impI)
      fix j assume "j < f"
      then have "\<not> same_name es n j" unfolding f_def by (rule not_less_Least)
      then show "\<not> same_name es f j" using same_name_trans [OF f(1)] by blast
    qed
    let ?l = "last (filter (same_name es f) [f..<n])"
    from find_slot_present [OF ix f(2) first f(1) [unfolded same_name_def]] obtain h where
      h: "find_slot mem t ?name = Some (Some h)" "slots t ! h = Some (entries_block t, f)"
        "slots t ! home_slot t ?name \<noteq> None" by blast
    have l: "last_in_chain mem (entries_block t, f) = Some (entries_block t, ?l)"
      using chain_from [OF ix f(2)] by simp
    have "?l < n" using last_filter_upt [of f f n "same_name es f"] f(2) by simp
    then have "assign (entries_block t, ?l) (\<lambda>c. c\<lparr>ent_next := Some (entries_block t, n)\<rparr>) mem =
        Some (set_block (entries_block t) (Some (set_next ?l (entries_block t, n) es)) mem)"
      using ix n by (simp add: assign_def indexed_def entries_of_def set_next_def)
    with h l deref have "add_index (entries_block t, n) mem t =
        Some (set_block (entries_block t) (Some (set_next ?l (entries_block t, n) es)) mem, t)"
      by (auto simp: add_index_def Let_def)
    moreover have "indexed (set_block (entries_block t) (Some (set_next ?l (entries_block t, n) es)) mem) t
        (set_next ?l (entries_block t, n) es) (Suc n)"
      using indexed_new_link [OF ix n f(2) first same_name_sym [OF f(1)] refl] .
    moreover have "same_frame (set_block (entries_block t) (Some (set_next ?l (entries_block t, n) es)) mem) t mem t"
      by (simp add: same_frame_def set_block_def)
    ultimately show ?thesis using alike_set_next by blast
  qed
qed

text \<open>An entry behind the indexed ones changes nothing for them.\<close>

lemma indexed_append:
  assumes ix: "indexed mem t es n" and e: "ent_next e = None" and n: "n = length es"
  shows "indexed (set_block (entries_block t) (Some (es @ [e])) mem) t (es @ [e]) n"
proof -
  have same: "same_name (es @ [e]) i j = same_name es i j" if "i < n" "j < n" for i j
    using that n by (simp add: same_name_def nth_append)
  have first: "first_of (es @ [e]) i = first_of es i" if "i < n" for i
    using same that by (simp add: first_of_def)
  have "later (es @ [e]) n i = later es n i" if "i < n" for i
    unfolding later_def by (rule find_cong) (use same that in auto)
  then have "links_ok (entries_block t) (es @ [e]) n"
    using ix e n by (auto simp: indexed_def links_ok_def nth_append)
  moreover have "slots_sound t (es @ [e]) n"
    using ix first unfolding indexed_def slots_sound_def by blast
  moreover have "slots_complete t (es @ [e]) n"
    using ix first n by (simp add: indexed_def slots_complete_def nth_append)
  ultimately show ?thesis using ix n by (simp add: indexed_def)
qed

lemma push_entry_indexed:
  assumes ix: "indexed mem t es (length es)" and e: "ent_next e = None" and room: "Suc (length es) < length (slots t)"
  shows "\<exists>mem' t' es'. push_entry e mem t = Some (mem', t') \<and>
    indexed mem' t' es' (Suc (length es)) \<and> alike es' (es @ [e\<lparr>ent_index := length es\<rparr>]) \<and>
    same_frame mem' t' mem t"
proof -
  let ?es = "es @ [e\<lparr>ent_index := length es\<rparr>]"
  let ?mem = "set_block (entries_block t) (Some ?es) mem"
  have "indexed ?mem t ?es (length es)"
    using indexed_append [OF ix, of "e\<lparr>ent_index := length es\<rparr>"] e by simp
  from add_index_indexed [OF this] room obtain mem' t' es' where
    "add_index (entries_block t, length es) ?mem t = Some (mem', t')"
    "indexed mem' t' es' (Suc (length es))" "alike es' ?es" "same_frame mem' t' ?mem t" by auto
  moreover have "push_entry e mem t = add_index (entries_block t, length es) ?mem t"
    using ix by (simp add: push_entry_def indexed_def)
  moreover have "next_block ?mem = next_block mem" by (simp add: set_block_def)
  ultimately show ?thesis by (auto simp: same_frame_def)
qed

section \<open>Tables that are built and grow\<close>

text \<open>
  A table with the entries \<open>es\<close>: all are indexed, the index has room for as many as the
  vector, and new blocks are new.
\<close>

definition table_rep :: "'a memory \<Rightarrow> hash_table \<Rightarrow> 'a ht_entry list \<Rightarrow> bool" where
  "table_rep mem t es \<longleftrightarrow>
     indexed mem t es (length es) \<and> length es \<le> entries_capacity t \<and> 0 < entries_capacity t \<and>
     entries_capacity t < length (slots t) \<and> entries_block t < next_block mem"

definition unlinked :: "'a ht_entry list \<Rightarrow> bool" where
  "unlinked es \<longleftrightarrow> list_all (\<lambda>e. ent_next e = None) es"

definition different_names :: "'a ht_entry list \<Rightarrow> bool" where
  "different_names es \<longleftrightarrow> distinct (map (\<lambda>e. map toupper (ent_name e)) es)"

lemma different_namesD: "different_names es \<Longrightarrow> i < length es \<Longrightarrow> j < length es \<Longrightarrow> same_name es i j \<Longrightarrow> i = j"
  by (auto simp: different_names_def distinct_conv_nth same_name_def iequals_iff)

lemma reset_indexed:
  assumes es: "entries_of mem t = Some es" "unlinked es" and cap: "capacity \<le> 2 ^ 62" "entries_capacity t \<le> 2 ^ 62"
    and block: "entries_block t < next_block mem"
  shows "\<exists>mem' t'. reset capacity mem t = Some (mem', t') \<and> indexed mem' t' es 0 \<and>
    entries_capacity t' = max capacity (entries_capacity t) \<and>
    entries_capacity t' < length (slots t') \<and> entries_block t' < next_block mem'"
proof -
  define cap where "cap = max capacity (entries_capacity t)"
  have cap_eq: "(if capacity < entries_capacity t then entries_capacity t else capacity) = cap"
    by (simp add: cap_def)
  have bound: "cap * 4 div 3 + 1 \<le> 2 ^ 63" using cap by (simp add: cap_def)
  then obtain r k where r: "next_pow_2 (cap * 4 div 3 + 1) = Some r" "r = 2 ^ k" "cap * 4 div 3 + 1 \<le> r"
    "r < max 3 (2 * (cap * 4 div 3 + 1))" using next_pow_2_spec by blast
  have "cap < r" using r(3) by linarith
  have "(2 :: nat) ^ k < 2 ^ 64" using r(2, 4) bound by simp
  then have "k < 64" by (rule power_less_imp_less_exp [rotated]) simp
  let ?t = "t\<lparr>slots := replicate r None, index_mask := r - 1\<rparr>"
  obtain mem' t' where reserved: "reserve_entries cap mem ?t = (mem', t')" by force
  have t': "slots t' = replicate r None" "index_mask t' = r - 1" "entries_of mem' t' = Some es"
    "entries_capacity t' = cap" "entries_block t' < next_block mem'"
    using reserved es(1) block
    by (auto simp: reserve_entries_def entries_of_def set_block_def cap_def split: if_splits)
  have "indexed mem' t' es 0"
    using t' es(2) \<open>k < 64\<close> \<open>r = 2 ^ k\<close>
    by (auto simp: indexed_def index_ok_def links_ok_def slots_sound_def slots_complete_def
        slots_once_def unlinked_def list_all_length)
  moreover have "reset capacity mem t = Some (mem', t')"
    using reserved r(1) by (simp add: reset_def Let_def cap_eq)
  ultimately show ?thesis using t' \<open>cap < r\<close> by (auto simp: cap_def)
qed

lemma reindex_indexed:
  assumes "indexed mem t es n" and "n + k = length es" and "length es < length (slots t)"
    and "map ent_index es = [0..<length es]"
  shows "\<exists>mem' t' es'. reindex_from n k mem t = Some (mem', t') \<and>
    indexed mem' t' es' (length es) \<and> alike es' es \<and> same_frame mem' t' mem t"
  using assms
proof (induction k arbitrary: mem t es n)
  case 0
  then show ?case using alike_refl by (auto simp: same_frame_def)
next
  case (Suc k)
  have n: "n < length es" using Suc.prems(2) by simp
  have idx: "ent_index (es ! n) = n"
    using Suc.prems(4) n by (metis add_0 nth_map nth_upt)
  have assigned: "assign (entries_block t, n) (\<lambda>e. e\<lparr>ent_index := n\<rparr>) mem = Some mem"
  proof -
    have "(es ! n)\<lparr>ent_index := n\<rparr> = es ! n" using idx by simp
    moreover have "blocks mem (entries_block t) = Some es"
      using Suc.prems(1) by (simp add: indexed_def entries_of_def)
    ultimately show ?thesis using n by (simp add: assign_def set_block_def fun_upd_idem)
  qed
  have "Suc n < length (slots t)" using Suc.prems(2, 3) by simp
  from add_index_indexed [OF Suc.prems(1) n idx this] obtain mem1 t1 es1 where
    one: "add_index (entries_block t, n) mem t = Some (mem1, t1)" "indexed mem1 t1 es1 (Suc n)"
      "alike es1 es" "same_frame mem1 t1 mem t" by blast
  have len: "length es1 = length es" using alike_length one(3) by blast
  have "map ent_index es1 = [0..<length es1]"
    using one(3) Suc.prems(4) len by (simp add: alike_def)
  moreover have "length es1 < length (slots t1)" using Suc.prems(3) one(4) len by (simp add: same_frame_def)
  moreover have "Suc n + k = length es1" using Suc.prems(2) len by simp
  ultimately obtain mem' t' es' where
    rest: "reindex_from (Suc n) k mem1 t1 = Some (mem', t')" "indexed mem' t' es' (length es1)"
      "alike es' es1" "same_frame mem' t' mem1 t1"
    using Suc.IH [OF one(2)] by blast
  have "entries_block t1 = entries_block t" using one(4) by (simp add: same_frame_def)
  with rest(1) one(1) assigned have "reindex_from n (Suc k) mem t = Some (mem', t')" by simp
  moreover have "indexed mem' t' es' (length es)" using rest(2) len by simp
  moreover have "alike es' es" using alike_trans [OF rest(3) one(3)] .
  moreover have "same_frame mem' t' mem t" using rest(4) one(4) by (simp add: same_frame_def)
  ultimately show ?case by blast
qed

lemma indexed_indices:
  assumes "indexed mem t es (length es)"
  shows "map ent_index es = [0..<length es]"
proof (rule nth_equalityI)
  fix i assume "i < length (map ent_index es)"
  moreover from assms have "\<forall>i < length es. ent_index (es ! i) = i"
    unfolding indexed_def links_ok_def by blast
  ultimately show "map ent_index es ! i = [0..<length es] ! i" by simp
qed simp

lemma indexed_unlinked:
  assumes "indexed mem t es (length es)" and "different_names es"
  shows "unlinked es"
proof -
  have "later es (length es) i = None" if "i < length es" for i
    unfolding later_None using different_namesD [OF assms(2), of i] that by auto
  then show ?thesis
    using assms(1) by (simp add: unlinked_def list_all_length indexed_def links_ok_def)
qed

text \<open>Adding keeps the table, where the vector need not grow or no name occurs twice.\<close>

lemma add_rep:
  assumes rep: "table_rep mem t es" and e: "ent_next e = None"
    and room: "length es < entries_capacity t \<or> different_names es \<and> entries_capacity t \<le> 2 ^ 61"
  shows "\<exists>mem' t' es'. add e mem t = Some (mem', t') \<and> table_rep mem' t' es' \<and>
    map ent_name es' = map ent_name es @ [ent_name e] \<and> map ent_data es' = map ent_data es @ [ent_data e] \<and>
    (length es < entries_capacity t \<longrightarrow> entries_capacity t' = entries_capacity t) \<and>
    entries_capacity t' \<le> max (entries_capacity t) (2 * length es)"
proof -
  have ix: "indexed mem t es (length es)" using rep by (simp add: table_rep_def)
  then have es: "entries_of mem t = Some es" by (simp add: indexed_def)
  have push: "\<exists>mem' t' es'. push_entry e mem1 t1 = Some (mem', t') \<and> table_rep mem' t' es' \<and>
      map ent_name es' = map ent_name es @ [ent_name e] \<and> map ent_data es' = map ent_data es @ [ent_data e] \<and>
      entries_capacity t' = entries_capacity t1"
    if r: "table_rep mem1 t1 es1" and a: "alike es1 es" and room: "length es1 < entries_capacity t1" for mem1 t1 es1
  proof -
    have ix1: "indexed mem1 t1 es1 (length es1)" "Suc (length es1) < length (slots t1)"
      using r room by (simp_all add: table_rep_def)
    from push_entry_indexed [OF ix1(1) e ix1(2)] obtain mem' t' es' where
      p: "push_entry e mem1 t1 = Some (mem', t')" "indexed mem' t' es' (Suc (length es1))"
        "alike es' (es1 @ [e\<lparr>ent_index := length es1\<rparr>])" "same_frame mem' t' mem1 t1" by blast
    have "length es' = Suc (length es1)" using alike_length [OF p(3)] by simp
    then have "table_rep mem' t' es'"
      using p(2, 4) r room by (simp add: table_rep_def same_frame_def)
    moreover have "map ent_name es' = map ent_name es @ [ent_name e]" "map ent_data es' = map ent_data es @ [ent_data e]"
      using p(3) a by (simp_all add: alike_def)
    moreover have "entries_capacity t' = entries_capacity t1" using p(4) by (simp add: same_frame_def)
    ultimately show ?thesis using p(1) by blast
  qed
  show ?thesis
  proof (cases "length es < entries_capacity t")
    case True
    then have "add e mem t = push_entry e mem t" using es by (simp add: add_def)
    with push [OF rep alike_refl True] show ?thesis by auto
  next
    case False
    then have full: "length es = entries_capacity t" "different_names es" "entries_capacity t \<le> 2 ^ 61"
      using rep room by (simp_all add: table_rep_def)
    have "2 * entries_capacity t \<le> 2 ^ 62" "entries_capacity t \<le> 2 ^ 62" "entries_block t < next_block mem"
      using full(3) rep by (simp_all add: table_rep_def)
    from reset_indexed [OF es indexed_unlinked [OF ix full(2)] this] obtain mem1 t1 where
      one: "reset (2 * entries_capacity t) mem t = Some (mem1, t1)" "indexed mem1 t1 es 0"
        "entries_capacity t1 = 2 * entries_capacity t" "entries_capacity t1 < length (slots t1)"
        "entries_block t1 < next_block mem1" by (auto simp: max_def)
    have "length es < length (slots t1)" using one(3, 4) full(1) by linarith
    from reindex_indexed [OF one(2) _ this indexed_indices [OF ix]] obtain mem2 t2 es2 where
      two: "reindex_from 0 (length es) mem1 t1 = Some (mem2, t2)" "indexed mem2 t2 es2 (length es)"
        "alike es2 es" "same_frame mem2 t2 mem1 t1" by auto
    have len: "length es2 = length es" using alike_length [OF two(3)] .
    have rep2: "table_rep mem2 t2 es2" and room2: "length es2 < entries_capacity t2"
      using two one rep full(1) len by (auto simp: table_rep_def same_frame_def)
    have "entries_of mem1 t1 = Some es" using one(2) by (simp add: indexed_def)
    then have "add e mem t = push_entry e mem2 t2"
      using es full(1) one(1) two(1) by (simp add: add_def resize_def reindex_def)
    with push [OF rep2 two(3) room2] show ?thesis
      using full(1) one(3) two(4) by (auto simp: same_frame_def)
  qed
qed

section \<open>What a lookup returns\<close>

text \<open>
  The abstract table is the list of the names in the order they were added: a lookup returns
  the positions of the names that are equal, without case unless the name was quoted.
\<close>

definition positions :: "bool \<Rightarrow> string \<Rightarrow> string list \<Rightarrow> nat list" where
  "positions is_case_sensitive name names =
     filter (\<lambda>i. if is_case_sensitive then names ! i = name else iequals name (names ! i)) [0..<length names]"

lemma filter_from_first:
  assumes "f < n" and "\<And>i. i < f \<Longrightarrow> \<not> P i"
  shows "filter P [0..<n] = filter P [f..<n]"
proof -
  have "[0..<n] = [0..<f] @ [f..<n]" using upt_add_eq_append [of 0 f "n - f"] assms(1) by simp
  moreover have "filter P [0..<f] = []" using assms(2) by (simp add: filter_empty_conv)
  ultimately show ?thesis by simp
qed

lemma lookup_rep:
  assumes rep: "table_rep mem t es" and q: "unquote quoted = Some (cs, name)"
  shows "get_indices mem t quoted = Some (positions cs name (map ent_name es))"
proof -
  have ix: "indexed mem t es (length es)" using rep by (simp add: table_rep_def)
  define P where "P = (\<lambda>i. iequals name (ent_name (es ! i)))"
  have pos: "positions cs name (map ent_name es) =
      (if cs then filter (\<lambda>i. ent_name (es ! i) = name) (filter P [0..<length es]) else filter P [0..<length es])"
    unfolding positions_def by (auto simp: P_def iequals_iff intro!: filter_cong)
  show ?thesis
  proof (cases "\<exists>i < length es. P i")
    case True
    define f where "f = (LEAST i. P i)"
    from True obtain i where "i < length es" "P i" by blast
    then have f: "P f" "f < length es"
      using LeastI [of P i] Least_le [of P i] by (auto simp: f_def)
    have before: "\<not> P i" if "i < f" for i using that unfolding f_def by (rule not_less_Least)
    have same: "same_name es f = P"
      using f(1) by (auto simp: same_name_def P_def iequals_iff)
    have "first_of es f" using before by (simp add: first_of_def same)
    from find_slot_present [OF ix f(2) this f(1) [unfolded P_def]] obtain h where
      "find_slot mem t name = Some (Some h)" "slots t ! h = Some (entries_block t, f)" by blast
    moreover have "chain mem (Some (entries_block t, f)) = Some (map (nth es) (filter P [0..<length es]))"
      using chain_from [OF ix f(2)] filter_from_first [OF f(2) before] by (simp add: same)
    moreover have "ent_index (es ! i) = i" if "i < length es" for i
      using ix that unfolding indexed_def links_ok_def by blast
    then have "map (\<lambda>i. ent_index (es ! i)) xs = xs" if "set xs \<subseteq> {..<length es}" for xs
      using that by (induction xs) auto
    moreover have "set (filter Q [0..<length es]) \<subseteq> {..<length es}" for Q by auto
    ultimately show ?thesis
      unfolding pos using q
      by (auto simp: get_indices_def filter_map comp_def filter_filter eq_commute [of name] simp del: filter_filter)
  next
    case False
    then have "\<And>i. i < length es \<Longrightarrow> \<not> iequals name (ent_name (es ! i))" by (simp add: P_def)
    from find_slot_absent [OF ix this] obtain d where
      "find_slot mem t name = Some (Some (step_slot t name d))" "slots t ! step_slot t name d = None" by blast
    moreover have "chain mem None = Some []" by (subst chain.simps) simp
    moreover have "filter P [0..<length es] = []" using False by (simp add: filter_empty_conv)
    ultimately show ?thesis
      unfolding pos using q by (simp add: get_indices_def)
  qed
qed

lemma add_all_rep:
  assumes "table_rep mem t es" and "unlinked es'"
    and "length es + length es' \<le> entries_capacity t \<or>
      different_names (es @ es') \<and> length es + length es' \<le> 2 ^ 59 \<and> entries_capacity t \<le> 2 ^ 60"
  shows "\<exists>mem' t' fs. add_all es' mem t = Some (mem', t') \<and> table_rep mem' t' fs \<and>
    map ent_name fs = map ent_name (es @ es') \<and> map ent_data fs = map ent_data (es @ es')"
  using assms
proof (induction es' arbitrary: mem t es)
  case Nil
  then show ?case by auto
next
  case (Cons e es')
  have e: "ent_next e = None" "unlinked es'" using Cons.prems(2) by (simp_all add: unlinked_def)
  have "length es < entries_capacity t \<or> different_names es \<and> entries_capacity t \<le> 2 ^ 61"
    using Cons.prems(3) by (auto simp: different_names_def)
  from add_rep [OF Cons.prems(1) e(1) this] obtain mem1 t1 es1 where
    one: "add e mem t = Some (mem1, t1)" "table_rep mem1 t1 es1"
      "map ent_name es1 = map ent_name es @ [ent_name e]" "map ent_data es1 = map ent_data es @ [ent_data e]"
      "length es < entries_capacity t \<longrightarrow> entries_capacity t1 = entries_capacity t"
      "entries_capacity t1 \<le> max (entries_capacity t) (2 * length es)" by blast
  have len: "length es1 = Suc (length es)" using one(3) by (metis length_map length_append_singleton)
  have upper: "map (\<lambda>e. map toupper (ent_name e)) xs = map (map toupper) (map ent_name xs)" for xs :: "'a ht_entry list"
    by simp
  have "length es1 + length es' \<le> entries_capacity t1 \<or>
      different_names (es1 @ es') \<and> length es1 + length es' \<le> 2 ^ 59 \<and> entries_capacity t1 \<le> 2 ^ 60"
  proof (cases "length es + length (e # es') \<le> entries_capacity t")
    case True
    then show ?thesis using one(5) len by simp
  next
    case False
    then have prems: "different_names (es @ e # es')" "length es + length (e # es') \<le> 2 ^ 59"
      "entries_capacity t \<le> 2 ^ 60" using Cons.prems(3) by blast+
    have "map ent_name (es1 @ es') = map ent_name (es @ e # es')" using one(3) by simp
    then have "different_names (es1 @ es')"
      using prems(1) unfolding different_names_def upper by metis
    moreover have "entries_capacity t1 \<le> 2 ^ 60" using one(6) prems by simp
    ultimately show ?thesis using prems(2) len by simp
  qed
  from Cons.IH [OF one(2) e(2) this] one show ?case by auto
qed

lemma raw_table_entries:
  "raw_table mem = (mem', t) \<Longrightarrow> entries_of mem' t = Some [] \<and> entries_capacity t = 16 \<and> entries_block t < next_block mem'"
  by (auto simp: raw_table_def entries_of_def set_block_def)

lemma table_with_capacity_rep:
  assumes "capacity \<le> 2 ^ 60"
  shows "\<exists>mem' t. table_with_capacity capacity mem = Some (mem', t) \<and> table_rep mem' t [] \<and>
    entries_capacity t = max capacity 16"
proof -
  obtain mem1 t1 where raw: "raw_table mem = (mem1, t1)" by force
  note r = raw_table_entries [OF this]
  have "unlinked ([] :: 'a ht_entry list)" "capacity \<le> 2 ^ 62" "entries_capacity t1 \<le> 2 ^ 62" "entries_block t1 < next_block mem1"
    using assms r by (simp_all add: unlinked_def)
  from reset_indexed [OF conjunct1 [OF r] this] r obtain mem' t where
    "reset capacity mem1 t1 = Some (mem', t)" "indexed mem' t [] 0" "entries_capacity t = max capacity 16"
    "entries_capacity t < length (slots t)" "entries_block t < next_block mem'" by auto
  then show ?thesis using raw by (auto simp: table_with_capacity_def table_rep_def)
qed

lemma table_of_entries_rep:
  assumes "length es \<le> 2 ^ 60" and "unlinked es"
  shows "\<exists>mem' t fs. table_of_entries es mem = Some (mem', t) \<and> table_rep mem' t fs \<and>
    map ent_name fs = map ent_name es \<and> map ent_data fs = map ent_data es"
proof -
  obtain mem0 t0 where raw: "raw_table mem = (mem0, t0)" by force
  then have "set_block (entries_block t0) (Some []) mem0 = mem0"
    by (auto simp: raw_table_def set_block_def)
  then have "table_of_entries es mem =
      (case table_with_capacity (length es) mem of None \<Rightarrow> None | Some (mem, t) \<Rightarrow> add_all es mem t)"
    using raw by (simp add: table_of_entries_def set_entries_def table_with_capacity_def)
  moreover obtain mem1 t1 where one: "table_with_capacity (length es) mem = Some (mem1, t1)"
    "table_rep mem1 t1 []" "entries_capacity t1 = max (length es) 16"
    using table_with_capacity_rep [OF assms(1)] by blast
  ultimately show ?thesis using add_all_rep [OF one(2) assms(2)] by auto
qed

section \<open>The contract of a lookup by name\<close>

text \<open>
  What the clients of the table rely on (user types, result columns, bound parameters): with
  the names in the order they were added, a lookup returns their positions.
\<close>

locale name_lookup =
  fixes holds :: "'s \<Rightarrow> string list \<Rightarrow> bool"
    and look :: "'s \<Rightarrow> string \<Rightarrow> nat list option"
  assumes look: "holds s names \<Longrightarrow> unquote q = Some (cs, name) \<Longrightarrow> look s q = Some (positions cs name names)"
begin

lemma look_valid:
  "holds s names \<Longrightarrow> unquote q = Some (cs, name) \<Longrightarrow> look s q = Some is \<Longrightarrow> i \<in> set is \<Longrightarrow> i < length names"
  by (auto simp: look positions_def)

lemma look_equal:
  "holds s names \<Longrightarrow> unquote q = Some (cs, name) \<Longrightarrow> look s q = Some is \<Longrightarrow> i \<in> set is \<Longrightarrow>
   iequals name (names ! i)"
  by (auto simp: look positions_def iequals_iff split: if_splits)

lemma look_none:
  "holds s names \<Longrightarrow> unquote q = Some (cs, name) \<Longrightarrow>
   look s q = Some [] \<longleftrightarrow> (\<forall>x \<in> set names. \<not> (if cs then x = name else iequals name x))"
  by (cases cs) (auto simp: look positions_def filter_empty_conv all_set_conv_all_nth)

lemma look_first:
  "holds s names \<Longrightarrow> unquote q = Some (cs, name) \<Longrightarrow> look s q = Some (i # is) \<Longrightarrow> j < i \<Longrightarrow>
   \<not> (if cs then names ! j = name else iequals name (names ! j))"
proof -
  assume a: "holds s names" "unquote q = Some (cs, name)" "look s q = Some (i # is)" "j < i"
  have "sorted (positions cs name names)"
    unfolding positions_def by (rule sorted_wrt_filter) simp
  moreover have eq: "positions cs name names = i # is" using a by (simp add: look)
  ultimately have "j \<notin> set (positions cs name names)" using a(4) by auto
  moreover have "i \<in> set (positions cs name names)" using eq by simp
  then have "i < length names" by (simp add: positions_def)
  ultimately show ?thesis using a(4) by (auto simp: positions_def)
qed

end

interpretation hash_table: name_lookup
  "\<lambda>(mem, t) names. \<exists>es. table_rep mem t es \<and> map ent_name es = names" "\<lambda>(mem, t). get_indices mem t"
  by unfold_locales (auto simp: lookup_rep)

section \<open>Properties\<close>

text \<open>C22: a table made from the entries of a vector finds a name at exactly the positions of the
  entries with that name, in their order: without regard to case, or with regard to it when the
  name is in double quotes. Building the table and looking up read no invalid memory and end.\<close>

theorem lookup_finds_all:
  assumes "unlinked es" and "length es \<le> 2 ^ 60" and "unquote quoted = Some (cs, name)"
  shows "\<exists>mem' t. table_of_entries es mem = Some (mem', t) \<and>
    get_indices mem' t quoted = Some (positions cs name (map ent_name es))"
proof -
  obtain mem' t fs where "table_of_entries es mem = Some (mem', t)" "table_rep mem' t fs"
    "map ent_name fs = map ent_name es" using table_of_entries_rep [OF assms(2, 1)] by blast
  with lookup_rep [OF this(2) assms(3)] show ?thesis by auto
qed

theorem lookup_finds_all_witness:
  "\<exists>mem' t. table_of_entries [new_entry ''Id'' (), new_entry ''name'' (), new_entry ''ID'' ()] empty_memory = Some (mem', t) \<and>
    get_indices mem' t ''id'' = Some (positions False ''id'' [''Id'', ''name'', ''ID''])"
  using lookup_finds_all [of "[new_entry ''Id'' (), new_entry ''name'' (), new_entry ''ID'' ()]" "''id''" False "''id''" empty_memory]
  by (simp add: unlinked_def new_entry_def unquote_def quote_char_def)

text \<open>a table that is filled by adding grows as often as it must, and finds every name at its one
  position, as long as no two names are equal without regard to case.\<close>

theorem grown_table_finds_all:
  assumes "unlinked es" and "different_names es" and "capacity \<le> 2 ^ 59" and "length es \<le> 2 ^ 59"
    and "unquote quoted = Some (cs, name)"
  shows "\<exists>mem0 t0 mem' t. table_with_capacity capacity mem = Some (mem0, t0) \<and>
    add_all es mem0 t0 = Some (mem', t) \<and>
    get_indices mem' t quoted = Some (positions cs name (map ent_name es))"
proof -
  have "capacity \<le> 2 ^ 60" using assms(3) by simp
  then obtain mem0 t0 where t0: "table_with_capacity capacity mem = Some (mem0, t0)" "table_rep mem0 t0 []"
    "entries_capacity t0 = max capacity 16" using table_with_capacity_rep by blast
  then have "entries_capacity t0 \<le> 2 ^ 60" using assms(3) by simp
  then obtain mem' t fs where t: "add_all es mem0 t0 = Some (mem', t)" "table_rep mem' t fs"
    "map ent_name fs = map ent_name es"
    using add_all_rep [OF t0(2) assms(1)] assms(2, 4) by auto
  with t0 lookup_rep [OF t(2) assms(5)] show ?thesis by auto
qed

theorem grown_table_finds_all_witness:
  "\<exists>mem0 t0 mem' t. table_with_capacity 2 empty_memory = Some (mem0, t0) \<and>
    add_all [new_entry ''Id'' (), new_entry ''name'' ()] mem0 t0 = Some (mem', t) \<and>
    get_indices mem' t ''NAME'' = Some (positions False ''NAME'' [''Id'', ''name''])"
  using grown_table_finds_all [of "[new_entry ''Id'' (), new_entry ''name'' ()]" 2 "''NAME''" False "''NAME''" empty_memory]
  by (simp add: unlinked_def new_entry_def unquote_def quote_char_def different_names_def toupper_def Let_def)

text \<open>
  The entries of a table that holds a name twice are linked. A table made of them, as
  \<open>UserType::copy\<close> does, copies the pointers into the vector of the first table and
  links through them: the name is found three times, and in the first table too.
\<close>

definition twice :: "unit ht_entry list" where
  "twice = [new_entry ''a'' (), new_entry ''A'' ()]"

definition copied_lookups :: "(nat list option \<times> nat list option) option" where
  "copied_lookups =
     (case table_of_entries twice empty_memory of None \<Rightarrow> None
      | Some (mem, t) \<Rightarrow>
         (case entries_of mem t of None \<Rightarrow> None
          | Some es \<Rightarrow>
             (case table_of_entries es mem of None \<Rightarrow> None
              | Some (mem', t') \<Rightarrow> Some (get_indices mem' t' ''a'', get_indices mem' t ''a''))))"

lemma copied_table_finds_twice: "copied_lookups = Some (Some [0, 1, 1], Some [0, 1, 1])"
  by code_simp

text \<open>
  When such a table grows, the pointers are copied with the entries and point into the
  vector that was freed: the next link is read from there.
\<close>

definition grown_twice :: "(unit memory \<times> hash_table) option" where
  "grown_twice =
     (case table_with_capacity 16 empty_memory of None \<Rightarrow> None
      | Some (mem, t) \<Rightarrow> add_all (twice @ map (\<lambda>c. new_entry [c] ()) ''bcdefghijklmnop'') mem t)"

lemma growing_reads_freed_memory: "grown_twice = None"
  by code_simp

end
