(* ===== verification/Data_Type.thy ===== *)
theory Data_Type
  imports Hash_Table
begin

text \<open>
  The types of CQL values (\<open>data_type.hpp\<close>, \<open>data_type.cpp\<close>): the class hierarchy of
  \<open>DataType\<close> with its comparison and printing, the tables of the native types, and the
  functions of the C interface that build and inspect types. A pointer to a sub-type may be
  null, which is \<open>None\<close> in the lists of sub-types; \<open>None\<close> as a result is a failed assertion, a
  null pointer read, or a cast to a class the object does not have. Types are shared by
  reference count and never changed once shared, so that a type is a value.
\<close>

section \<open>Value types\<close>

datatype value_type =
  CASS_VALUE_TYPE_UNKNOWN | CASS_VALUE_TYPE_CUSTOM | CASS_VALUE_TYPE_ASCII | CASS_VALUE_TYPE_BIGINT
| CASS_VALUE_TYPE_BLOB | CASS_VALUE_TYPE_BOOLEAN | CASS_VALUE_TYPE_COUNTER | CASS_VALUE_TYPE_DECIMAL
| CASS_VALUE_TYPE_DOUBLE | CASS_VALUE_TYPE_FLOAT | CASS_VALUE_TYPE_INT | CASS_VALUE_TYPE_TEXT
| CASS_VALUE_TYPE_TIMESTAMP | CASS_VALUE_TYPE_UUID | CASS_VALUE_TYPE_VARCHAR | CASS_VALUE_TYPE_VARINT
| CASS_VALUE_TYPE_TIMEUUID | CASS_VALUE_TYPE_INET | CASS_VALUE_TYPE_DATE | CASS_VALUE_TYPE_TIME
| CASS_VALUE_TYPE_SMALL_INT | CASS_VALUE_TYPE_TINY_INT | CASS_VALUE_TYPE_LIST | CASS_VALUE_TYPE_MAP
| CASS_VALUE_TYPE_SET | CASS_VALUE_TYPE_UDT | CASS_VALUE_TYPE_TUPLE

definition is_int64_type :: "value_type \<Rightarrow> bool" where
  "is_int64_type v \<longleftrightarrow>
     v = CASS_VALUE_TYPE_BIGINT \<or> v = CASS_VALUE_TYPE_COUNTER \<or> v = CASS_VALUE_TYPE_TIMESTAMP \<or>
     v = CASS_VALUE_TYPE_TIME"

definition is_string_type :: "value_type \<Rightarrow> bool" where
  "is_string_type v \<longleftrightarrow>
     v = CASS_VALUE_TYPE_ASCII \<or> v = CASS_VALUE_TYPE_TEXT \<or> v = CASS_VALUE_TYPE_VARCHAR"

definition is_bytes_type :: "value_type \<Rightarrow> bool" where
  "is_bytes_type v \<longleftrightarrow>
     v = CASS_VALUE_TYPE_BLOB \<or> v = CASS_VALUE_TYPE_VARINT \<or> v = CASS_VALUE_TYPE_CUSTOM"

definition is_uuid_type :: "value_type \<Rightarrow> bool" where
  "is_uuid_type v \<longleftrightarrow> v = CASS_VALUE_TYPE_TIMEUUID \<or> v = CASS_VALUE_TYPE_UUID"

definition equals_both_not_empty :: "string \<Rightarrow> string \<Rightarrow> bool" where
  "equals_both_not_empty s1 s2 \<longleftrightarrow> s1 = [] \<or> s2 = [] \<or> s1 = s2"

section \<open>The classes\<close>

text \<open>
  One constructor per class; the class \<open>CollectionType\<close> has any value type its constructor was
  given, also that of a tuple.
\<close>

datatype data_type =
  Simple_type value_type
| Custom_type string
| Collection_type value_type "data_type option list"
| Tuple_type "data_type option list"
| User_type string string "(string \<times> data_type option) list"

fun type_value :: "data_type \<Rightarrow> value_type" where
  "type_value (Simple_type v) = v"
| "type_value (Custom_type c) = CASS_VALUE_TYPE_CUSTOM"
| "type_value (Collection_type v ts) = v"
| "type_value (Tuple_type ts) = CASS_VALUE_TYPE_TUPLE"
| "type_value (User_type k n fs) = CASS_VALUE_TYPE_UDT"

definition is_collection :: "data_type \<Rightarrow> bool" where
  "is_collection t \<longleftrightarrow>
     type_value t = CASS_VALUE_TYPE_LIST \<or> type_value t = CASS_VALUE_TYPE_MAP \<or>
     type_value t = CASS_VALUE_TYPE_SET"

definition is_map :: "data_type \<Rightarrow> bool" where
  "is_map t \<longleftrightarrow> type_value t = CASS_VALUE_TYPE_MAP"

definition is_tuple :: "data_type \<Rightarrow> bool" where
  "is_tuple t \<longleftrightarrow> type_value t = CASS_VALUE_TYPE_TUPLE"

definition is_user_type :: "data_type \<Rightarrow> bool" where
  "is_user_type t \<longleftrightarrow> type_value t = CASS_VALUE_TYPE_UDT"

definition is_custom :: "data_type \<Rightarrow> bool" where
  "is_custom t \<longleftrightarrow> type_value t = CASS_VALUE_TYPE_CUSTOM"

text \<open>The casts to \<open>SubTypesDataType\<close>, \<open>UserType\<close> and \<open>CustomType\<close>.\<close>

fun as_sub_types :: "data_type \<Rightarrow> data_type option list option" where
  "as_sub_types (Collection_type v ts) = Some ts"
| "as_sub_types (Tuple_type ts) = Some ts"
| "as_sub_types _ = None"

fun as_user_type :: "data_type \<Rightarrow> (string \<times> string \<times> (string \<times> data_type option) list) option" where
  "as_user_type (User_type k n fs) = Some (k, n, fs)"
| "as_user_type _ = None"

fun as_custom_type :: "data_type \<Rightarrow> string option" where
  "as_custom_type (Custom_type c) = Some c"
| "as_custom_type _ = None"

section \<open>Comparison\<close>

definition simple_equals :: "value_type \<Rightarrow> value_type \<Rightarrow> bool" where
  "simple_equals v w \<longleftrightarrow>
     (if v = CASS_VALUE_TYPE_TEXT \<or> v = CASS_VALUE_TYPE_VARCHAR
      then w = CASS_VALUE_TYPE_TEXT \<or> w = CASS_VALUE_TYPE_VARCHAR else v = w)"

text \<open>
  The virtual \<open>equals\<close>: \<open>data_equals\<close> dispatches on the class, \<open>sub_types_equal\<close> and \<open>fields_equal\<close>
  are the loops, which stop at the first difference.
\<close>

fun data_equals :: "data_type \<Rightarrow> data_type option \<Rightarrow> bool option"
  and sub_types_equal :: "data_type option list \<Rightarrow> data_type option list \<Rightarrow> bool option"
  and fields_equal :: "(string \<times> data_type option) list \<Rightarrow> (string \<times> data_type option) list \<Rightarrow> bool option"
where
  "data_equals t None = None"
| "data_equals (Simple_type v) (Some d) = Some (simple_equals v (type_value d))"
| "data_equals (Custom_type c) (Some d) =
     (if type_value d \<noteq> CASS_VALUE_TYPE_CUSTOM then Some False
      else (case as_custom_type d of None \<Rightarrow> None | Some c' \<Rightarrow> Some (equals_both_not_empty c c')))"
| "data_equals (Collection_type v ts) (Some d) =
     (if v \<noteq> CASS_VALUE_TYPE_LIST \<and> v \<noteq> CASS_VALUE_TYPE_SET \<and> v \<noteq> CASS_VALUE_TYPE_MAP then None
      else if v \<noteq> type_value d then Some False
      else (case as_sub_types d of None \<Rightarrow> None
            | Some us \<Rightarrow>
                if ts \<noteq> [] \<and> us \<noteq> []
                then (if length ts \<noteq> length us then Some False else sub_types_equal ts us)
                else Some True))"
| "data_equals (Tuple_type ts) (Some d) =
     (if type_value d \<noteq> CASS_VALUE_TYPE_TUPLE then Some False
      else (case as_sub_types d of None \<Rightarrow> None
            | Some us \<Rightarrow>
                if ts \<noteq> [] \<and> us \<noteq> []
                then (if length ts \<noteq> length us then Some False else sub_types_equal ts us)
                else Some True))"
| "data_equals (User_type k n fs) (Some d) =
     (if type_value d \<noteq> CASS_VALUE_TYPE_UDT then Some False
      else (case as_user_type d of None \<Rightarrow> None
            | Some (k', n', gs) \<Rightarrow>
                if \<not> equals_both_not_empty k k' then Some False
                else if \<not> equals_both_not_empty n n' then Some False
                else if length fs \<noteq> length gs then Some False
                else fields_equal fs gs))"
| "sub_types_equal (t # ts) (u # us) =
     (case t of None \<Rightarrow> None
      | Some t \<Rightarrow>
          (case data_equals t u of None \<Rightarrow> None
           | Some same \<Rightarrow> if same then sub_types_equal ts us else Some False))"
| "sub_types_equal _ _ = Some True"
| "fields_equal ((f, t) # fs) ((g, u) # gs) =
     (if f \<noteq> g then Some False
      else (case t of None \<Rightarrow> None
            | Some t \<Rightarrow>
                (case data_equals t u of None \<Rightarrow> None
                 | Some same \<Rightarrow> if same then fields_equal fs gs else Some False)))"
| "fields_equal _ _ = Some True"

section \<open>Printing\<close>

definition value_type_names :: "(value_type \<times> string) list" where
  "value_type_names =
     [(CASS_VALUE_TYPE_ASCII, ''ascii''), (CASS_VALUE_TYPE_BIGINT, ''bigint''),
      (CASS_VALUE_TYPE_BLOB, ''blob''), (CASS_VALUE_TYPE_BOOLEAN, ''boolean''),
      (CASS_VALUE_TYPE_COUNTER, ''counter''), (CASS_VALUE_TYPE_DECIMAL, ''decimal''),
      (CASS_VALUE_TYPE_DOUBLE, ''double''), (CASS_VALUE_TYPE_FLOAT, ''float''),
      (CASS_VALUE_TYPE_INT, ''int''), (CASS_VALUE_TYPE_TEXT, ''text''),
      (CASS_VALUE_TYPE_TIMESTAMP, ''timestamp''), (CASS_VALUE_TYPE_UUID, ''uuid''),
      (CASS_VALUE_TYPE_VARCHAR, ''varchar''), (CASS_VALUE_TYPE_VARINT, ''varint''),
      (CASS_VALUE_TYPE_TIMEUUID, ''timeuuid''), (CASS_VALUE_TYPE_INET, ''inet''),
      (CASS_VALUE_TYPE_DATE, ''date''), (CASS_VALUE_TYPE_TIME, ''time''),
      (CASS_VALUE_TYPE_SMALL_INT, ''smallint''), (CASS_VALUE_TYPE_TINY_INT, ''tinyint''),
      (CASS_VALUE_TYPE_LIST, ''list''), (CASS_VALUE_TYPE_MAP, ''map''),
      (CASS_VALUE_TYPE_SET, ''set''), (CASS_VALUE_TYPE_TUPLE, ''tuple'')]"

definition value_type_name :: "value_type \<Rightarrow> string" where
  "value_type_name v = (case map_of value_type_names v of None \<Rightarrow> [] | Some s \<Rightarrow> s)"

text \<open>In the loop over the sub-types \<open>first\<close> stays true: the separator is never written.\<close>

fun type_string :: "data_type \<Rightarrow> string option"
  and sub_types_string :: "bool \<Rightarrow> data_type option list \<Rightarrow> string option"
where
  "type_string (Simple_type v) = Some (value_type_name v)"
| "type_string (Custom_type c) = Some c"
| "type_string (Collection_type v ts) =
     (case sub_types_string True ts of None \<Rightarrow> None
      | Some s \<Rightarrow> Some (value_type_name v @ ''<'' @ s @ ''>''))"
| "type_string (Tuple_type ts) =
     (case sub_types_string True ts of None \<Rightarrow> None
      | Some s \<Rightarrow> Some (''tuple<'' @ s @ ''>''))"
| "type_string (User_type k n fs) = Some n"
| "sub_types_string is_first [] = Some []"
| "sub_types_string is_first (t # ts) =
     (case t of None \<Rightarrow> None
      | Some t \<Rightarrow>
          (case type_string t of None \<Rightarrow> None
           | Some s \<Rightarrow>
               (case sub_types_string is_first ts of None \<Rightarrow> None
                | Some rest \<Rightarrow> Some ((if is_first then [] else '', '') @ s @ rest))))"

section \<open>The native types\<close>

definition marshal :: string where
  "marshal = ''org.apache.cassandra.db.marshal.''"

definition native_class_types :: "(string \<times> value_type) list" where
  "native_class_types =
     [(''AsciiType'', CASS_VALUE_TYPE_ASCII),
      (''BooleanType'', CASS_VALUE_TYPE_BOOLEAN),
      (''ByteType'', CASS_VALUE_TYPE_TINY_INT),
      (''BytesType'', CASS_VALUE_TYPE_BLOB),
      (''CounterColumnType'', CASS_VALUE_TYPE_COUNTER),
      (''DateType'', CASS_VALUE_TYPE_TIMESTAMP),
      (''DecimalType'', CASS_VALUE_TYPE_DECIMAL),
      (''DoubleType'', CASS_VALUE_TYPE_DOUBLE),
      (''FloatType'', CASS_VALUE_TYPE_FLOAT),
      (''InetAddressType'', CASS_VALUE_TYPE_INET),
      (''Int32Type'', CASS_VALUE_TYPE_INT),
      (''IntegerType'', CASS_VALUE_TYPE_INT),
      (''LongType'', CASS_VALUE_TYPE_BIGINT),
      (''ShortType'', CASS_VALUE_TYPE_SMALL_INT),
      (''SimpleDateType'', CASS_VALUE_TYPE_DATE),
      (''TimeType'', CASS_VALUE_TYPE_TIME),
      (''TimestampType'', CASS_VALUE_TYPE_TIMESTAMP),
      (''TimeUUIDType'', CASS_VALUE_TYPE_TIMEUUID),
      (''UTF8Type'', CASS_VALUE_TYPE_TEXT),
      (''UUIDType'', CASS_VALUE_TYPE_UUID)]"

definition native_cql_types :: "(string \<times> value_type) list" where
  "native_cql_types =
     [(''ascii'', CASS_VALUE_TYPE_ASCII),
      (''bigint'', CASS_VALUE_TYPE_BIGINT),
      (''blob'', CASS_VALUE_TYPE_BLOB),
      (''boolean'', CASS_VALUE_TYPE_BOOLEAN),
      (''counter'', CASS_VALUE_TYPE_COUNTER),
      (''date'', CASS_VALUE_TYPE_DATE),
      (''decimal'', CASS_VALUE_TYPE_DECIMAL),
      (''double'', CASS_VALUE_TYPE_DOUBLE),
      (''float'', CASS_VALUE_TYPE_FLOAT),
      (''inet'', CASS_VALUE_TYPE_INET),
      (''int'', CASS_VALUE_TYPE_INT),
      (''smallint'', CASS_VALUE_TYPE_SMALL_INT),
      (''time'', CASS_VALUE_TYPE_TIME),
      (''timestamp'', CASS_VALUE_TYPE_TIMESTAMP),
      (''timeuuid'', CASS_VALUE_TYPE_TIMEUUID),
      (''tinyint'', CASS_VALUE_TYPE_TINY_INT),
      (''text'', CASS_VALUE_TYPE_TEXT),
      (''uuid'', CASS_VALUE_TYPE_UUID),
      (''varchar'', CASS_VALUE_TYPE_VARCHAR),
      (''varint'', CASS_VALUE_TYPE_VARINT)]"

definition by_class_name :: "string \<Rightarrow> data_type option" where
  "by_class_name name =
     map_option Simple_type (map_of (map (\<lambda>(n, v). (marshal @ n, v)) native_class_types) name)"

definition by_cql_name :: "string \<Rightarrow> data_type option" where
  "by_cql_name name = map_option Simple_type (map_of native_cql_types name)"

section \<open>The C interface\<close>

datatype lib_error =
  CASS_ERROR_LIB_BAD_PARAMS | CASS_ERROR_LIB_INDEX_OUT_OF_BOUNDS | CASS_ERROR_LIB_INVALID_ITEM_COUNT
| CASS_ERROR_LIB_INVALID_VALUE_TYPE | CASS_ERROR_LIB_NAME_DOES_NOT_EXIST | CASS_ERROR_LIB_NULL_VALUE
| CASS_ERROR_LIB_INVALID_STATEMENT_TYPE | CASS_ERROR_LIB_PARAMETER_UNSET
| CASS_ERROR_LIB_NO_PAGING_STATE | CASS_ERROR_LIB_NOT_IMPLEMENTED

definition cass_data_type_new :: "value_type \<Rightarrow> data_type option" where
  "cass_data_type_new v =
     (case v of
        CASS_VALUE_TYPE_LIST \<Rightarrow> Some (Collection_type v [])
      | CASS_VALUE_TYPE_SET \<Rightarrow> Some (Collection_type v [])
      | CASS_VALUE_TYPE_TUPLE \<Rightarrow> Some (Collection_type v [])
      | CASS_VALUE_TYPE_MAP \<Rightarrow> Some (Collection_type v [])
      | CASS_VALUE_TYPE_UDT \<Rightarrow> Some (User_type [] [] [])
      | CASS_VALUE_TYPE_CUSTOM \<Rightarrow> Some (Custom_type [])
      | CASS_VALUE_TYPE_UNKNOWN \<Rightarrow> None
      | _ \<Rightarrow> Some (Simple_type v))"

definition cass_data_type_new_tuple :: "nat \<Rightarrow> data_type" where
  "cass_data_type_new_tuple item_count = Collection_type CASS_VALUE_TYPE_TUPLE []"

definition cass_data_type_new_udt :: "nat \<Rightarrow> data_type" where
  "cass_data_type_new_udt field_count = User_type [] [] []"

text \<open>\<open>copy\<close>: the sub-types are shared.\<close>

fun copy_type :: "data_type \<Rightarrow> data_type" where
  "copy_type (Simple_type v) = Simple_type v"
| "copy_type (Custom_type c) = Custom_type c"
| "copy_type (Collection_type v ts) = Collection_type v ts"
| "copy_type (Tuple_type ts) = Tuple_type ts"
| "copy_type (User_type k n fs) = User_type k n fs"

text \<open>
  The functions that look inside: the outer option is a wrong cast, the inner one the null
  pointer they return.
\<close>

definition cass_data_type_sub_data_type :: "data_type \<Rightarrow> nat \<Rightarrow> data_type option option" where
  "cass_data_type_sub_data_type t index =
     (if is_collection t \<or> is_tuple t
      then (case as_sub_types t of None \<Rightarrow> None
            | Some ts \<Rightarrow> Some (if index < length ts then ts ! index else None))
      else if is_user_type t
      then (case as_user_type t of None \<Rightarrow> None
            | Some (k, n, fs) \<Rightarrow> Some (if index < length fs then snd (fs ! index) else None))
      else Some None)"

text \<open>The hash table of a user type, as the constructor with fields builds it.\<close>

definition field_entries :: "(string \<times> data_type option) list \<Rightarrow> data_type option ht_entry list" where
  "field_entries fs = map (\<lambda>(name, t). new_entry name t) fs"

definition user_type_get_indices :: "(string \<times> data_type option) list \<Rightarrow> string \<Rightarrow> nat list option" where
  "user_type_get_indices fs name =
     (case table_of_entries (field_entries fs) empty_memory of None \<Rightarrow> None
      | Some (mem, t) \<Rightarrow> get_indices mem t name)"

definition cass_data_type_sub_data_type_by_name_n :: "data_type \<Rightarrow> string \<Rightarrow> data_type option option" where
  "cass_data_type_sub_data_type_by_name_n t name =
     (if \<not> is_user_type t then Some None
      else (case as_user_type t of None \<Rightarrow> None
            | Some (k, n, fs) \<Rightarrow>
                (case user_type_get_indices fs name of None \<Rightarrow> None
                 | Some [] \<Rightarrow> Some None
                 | Some (i # is) \<Rightarrow> if i < length fs then Some (snd (fs ! i)) else None)))"

definition cass_data_type_type_name :: "data_type \<Rightarrow> (lib_error + string) option" where
  "cass_data_type_type_name t =
     (if \<not> is_user_type t then Some (Inl CASS_ERROR_LIB_INVALID_VALUE_TYPE)
      else map_option (\<lambda>(k, n, fs). Inr n) (as_user_type t))"

definition cass_data_type_set_type_name_n :: "data_type \<Rightarrow> string \<Rightarrow> (lib_error + data_type) option" where
  "cass_data_type_set_type_name_n t type_name =
     (if \<not> is_user_type t then Some (Inl CASS_ERROR_LIB_INVALID_VALUE_TYPE)
      else map_option (\<lambda>(k, n, fs). Inr (User_type k type_name fs)) (as_user_type t))"

definition cass_data_type_keyspace :: "data_type \<Rightarrow> (lib_error + string) option" where
  "cass_data_type_keyspace t =
     (if \<not> is_user_type t then Some (Inl CASS_ERROR_LIB_INVALID_VALUE_TYPE)
      else map_option (\<lambda>(k, n, fs). Inr k) (as_user_type t))"

definition cass_data_type_set_keyspace_n :: "data_type \<Rightarrow> string \<Rightarrow> (lib_error + data_type) option" where
  "cass_data_type_set_keyspace_n t keyspace =
     (if \<not> is_user_type t then Some (Inl CASS_ERROR_LIB_INVALID_VALUE_TYPE)
      else map_option (\<lambda>(k, n, fs). Inr (User_type keyspace n fs)) (as_user_type t))"

definition cass_data_type_class_name :: "data_type \<Rightarrow> (lib_error + string) option" where
  "cass_data_type_class_name t =
     (if \<not> is_custom t then Some (Inl CASS_ERROR_LIB_INVALID_VALUE_TYPE)
      else map_option Inr (as_custom_type t))"

definition cass_data_type_set_class_name_n :: "data_type \<Rightarrow> string \<Rightarrow> (lib_error + data_type) option" where
  "cass_data_type_set_class_name_n t class_name =
     (if \<not> is_custom t then Some (Inl CASS_ERROR_LIB_INVALID_VALUE_TYPE)
      else map_option (\<lambda>c. Inr (Custom_type class_name)) (as_custom_type t))"

definition cass_data_sub_type_count :: "data_type \<Rightarrow> nat option" where
  "cass_data_sub_type_count t =
     (if is_collection t \<or> is_tuple t then map_option length (as_sub_types t)
      else if is_user_type t then map_option (\<lambda>(k, n, fs). length fs) (as_user_type t)
      else Some 0)"

definition cass_data_type_sub_type_name :: "data_type \<Rightarrow> nat \<Rightarrow> (lib_error + string) option" where
  "cass_data_type_sub_type_name t index =
     (if \<not> is_user_type t then Some (Inl CASS_ERROR_LIB_INVALID_VALUE_TYPE)
      else map_option (\<lambda>(k, n, fs).
             if index \<ge> length fs then Inl CASS_ERROR_LIB_INDEX_OUT_OF_BOUNDS
             else Inr (fst (fs ! index))) (as_user_type t))"

text \<open>Appending through the base class \<open>SubTypesDataType\<close>.\<close>

fun push_sub_type :: "data_type \<Rightarrow> data_type option \<Rightarrow> data_type" where
  "push_sub_type (Collection_type v ts) u = Collection_type v (ts @ [u])"
| "push_sub_type (Tuple_type ts) u = Tuple_type (ts @ [u])"
| "push_sub_type t u = t"

definition cass_data_type_add_sub_type :: "data_type \<Rightarrow> data_type option \<Rightarrow> (lib_error + data_type) option" where
  "cass_data_type_add_sub_type t sub =
     (if \<not> is_collection t \<and> \<not> is_tuple t then Some (Inl CASS_ERROR_LIB_INVALID_VALUE_TYPE)
      else (case as_sub_types t of None \<Rightarrow> None
            | Some ts \<Rightarrow>
                (case type_value t of
                   CASS_VALUE_TYPE_LIST \<Rightarrow>
                     if length ts \<ge> 1 then Some (Inl CASS_ERROR_LIB_BAD_PARAMS) else Some (Inr (push_sub_type t sub))
                 | CASS_VALUE_TYPE_SET \<Rightarrow>
                     if length ts \<ge> 1 then Some (Inl CASS_ERROR_LIB_BAD_PARAMS) else Some (Inr (push_sub_type t sub))
                 | CASS_VALUE_TYPE_MAP \<Rightarrow>
                     if length ts \<ge> 2 then Some (Inl CASS_ERROR_LIB_BAD_PARAMS) else Some (Inr (push_sub_type t sub))
                 | CASS_VALUE_TYPE_TUPLE \<Rightarrow> Some (Inr (push_sub_type t sub))
                 | _ \<Rightarrow> None)))"

definition cass_data_type_add_sub_type_by_name_n ::
  "data_type \<Rightarrow> string \<Rightarrow> data_type option \<Rightarrow> (lib_error + data_type) option" where
  "cass_data_type_add_sub_type_by_name_n t name sub =
     (if \<not> is_user_type t then Some (Inl CASS_ERROR_LIB_INVALID_VALUE_TYPE)
      else map_option (\<lambda>(k, n, fs). Inr (User_type k n (fs @ [(name, sub)]))) (as_user_type t))"

text \<open>The variants for a value type make an object of the base class, whatever the type.\<close>

definition cass_data_type_add_sub_value_type :: "data_type \<Rightarrow> value_type \<Rightarrow> (lib_error + data_type) option" where
  "cass_data_type_add_sub_value_type t v = cass_data_type_add_sub_type t (Some (Simple_type v))"

definition cass_data_type_add_sub_value_type_by_name_n ::
  "data_type \<Rightarrow> string \<Rightarrow> value_type \<Rightarrow> (lib_error + data_type) option" where
  "cass_data_type_add_sub_value_type_by_name_n t name v =
     cass_data_type_add_sub_type_by_name_n t name (Some (Simple_type v))"

section \<open>Well-formed types\<close>

text \<open>
  What the parsers and the server's metadata produce: every object has the class of its value
  type, no sub-type is null, and a collection has at most as many sub-types as it can.
\<close>

fun simple_value_type :: "value_type \<Rightarrow> bool" where
  "simple_value_type CASS_VALUE_TYPE_CUSTOM = False"
| "simple_value_type CASS_VALUE_TYPE_LIST = False"
| "simple_value_type CASS_VALUE_TYPE_SET = False"
| "simple_value_type CASS_VALUE_TYPE_MAP = False"
| "simple_value_type CASS_VALUE_TYPE_TUPLE = False"
| "simple_value_type CASS_VALUE_TYPE_UDT = False"
| "simple_value_type _ = True"

fun max_sub_types :: "value_type \<Rightarrow> nat option" where
  "max_sub_types CASS_VALUE_TYPE_LIST = Some 1"
| "max_sub_types CASS_VALUE_TYPE_SET = Some 1"
| "max_sub_types CASS_VALUE_TYPE_MAP = Some 2"
| "max_sub_types _ = None"

fun well_formed :: "data_type \<Rightarrow> bool"
  and all_well_formed :: "data_type option list \<Rightarrow> bool"
  and fields_well_formed :: "(string \<times> data_type option) list \<Rightarrow> bool"
where
  "well_formed (Simple_type v) = simple_value_type v"
| "well_formed (Custom_type c) = True"
| "well_formed (Collection_type v ts) =
     ((case max_sub_types v of None \<Rightarrow> False | Some n \<Rightarrow> length ts \<le> n) \<and> all_well_formed ts)"
| "well_formed (Tuple_type ts) = all_well_formed ts"
| "well_formed (User_type k n fs) = fields_well_formed fs"
| "all_well_formed [] = True"
| "all_well_formed (t # ts) = ((case t of None \<Rightarrow> False | Some t \<Rightarrow> well_formed t) \<and> all_well_formed ts)"
| "fields_well_formed [] = True"
| "fields_well_formed ((f, t) # fs) = ((case t of None \<Rightarrow> False | Some t \<Rightarrow> well_formed t) \<and> fields_well_formed fs)"

lemma all_well_formed_iff: "all_well_formed ts \<longleftrightarrow> (\<forall>t \<in> set ts. \<exists>u. t = Some u \<and> well_formed u)"
  by (induction ts) (auto split: option.splits)

lemma fields_well_formed_iff: "fields_well_formed fs \<longleftrightarrow> (\<forall>(f, t) \<in> set fs. \<exists>u. t = Some u \<and> well_formed u)"
  by (induction fs) (auto split: option.splits)

lemma max_sub_types_Some:
  "max_sub_types v = Some n \<longleftrightarrow>
     (v = CASS_VALUE_TYPE_LIST \<or> v = CASS_VALUE_TYPE_SET) \<and> n = 1 \<or> v = CASS_VALUE_TYPE_MAP \<and> n = 2"
  by (cases v) auto

text \<open>The class of a well-formed type follows from its value type, so that the casts are right.\<close>

lemma well_formed_custom:
  "well_formed t \<Longrightarrow> type_value t = CASS_VALUE_TYPE_CUSTOM \<Longrightarrow> \<exists>c. t = Custom_type c"
  by (cases t) (auto simp: max_sub_types_Some split: option.splits)

lemma well_formed_collection:
  "well_formed t \<Longrightarrow> is_collection t \<Longrightarrow> \<exists>v ts. t = Collection_type v ts"
  by (cases t) (auto simp: is_collection_def)

lemma well_formed_tuple:
  "well_formed t \<Longrightarrow> type_value t = CASS_VALUE_TYPE_TUPLE \<Longrightarrow> \<exists>ts. t = Tuple_type ts"
  by (cases t) (auto simp: max_sub_types_Some split: option.splits)

lemma well_formed_user:
  "well_formed t \<Longrightarrow> type_value t = CASS_VALUE_TYPE_UDT \<Longrightarrow> \<exists>k n fs. t = User_type k n fs"
  by (cases t) (auto simp: max_sub_types_Some split: option.splits)

section \<open>Comparison of well-formed types\<close>

lemma equals_defined:
  "well_formed t \<Longrightarrow> (\<And>d. u = Some d \<Longrightarrow> well_formed d) \<Longrightarrow> u \<noteq> None \<Longrightarrow> data_equals t u \<noteq> None"
  "all_well_formed ts \<Longrightarrow> all_well_formed us \<Longrightarrow> sub_types_equal ts us \<noteq> None"
  "fields_well_formed fs \<Longrightarrow> fields_well_formed gs \<Longrightarrow> fields_equal fs gs \<noteq> None"
proof (induction t u and ts us and fs gs rule: data_equals_sub_types_equal_fields_equal.induct)
  case (3 c d)
  then show ?case using well_formed_custom by fastforce
next
  case (4 v ts d)
  then show ?case by (cases d) (auto simp: max_sub_types_Some split: option.splits)
next
  case (5 ts d)
  then show ?case by (cases d) (auto simp: max_sub_types_Some split: option.splits)
next
  case (6 k n fs d)
  then show ?case by (cases d) (auto simp: max_sub_types_Some split: option.splits)
qed (auto split: option.splits)

lemma equals_both_not_empty_sym: "equals_both_not_empty a b = equals_both_not_empty b a"
  by (auto simp: equals_both_not_empty_def)

lemma simple_equals_sym: "simple_equals v w = simple_equals w v"
  by (auto simp: simple_equals_def)

lemma equals_sym_aux:
  "well_formed t \<Longrightarrow> (\<And>d. u = Some d \<Longrightarrow> well_formed d \<Longrightarrow> data_equals t u = data_equals d (Some t))"
  "all_well_formed ts \<Longrightarrow> all_well_formed us \<Longrightarrow> length ts = length us \<Longrightarrow>
   sub_types_equal ts us = sub_types_equal us ts"
  "fields_well_formed fs \<Longrightarrow> fields_well_formed gs \<Longrightarrow> length fs = length gs \<Longrightarrow>
   fields_equal fs gs = fields_equal gs fs"
proof (induction t u and ts us and fs gs rule: data_equals_sub_types_equal_fields_equal.induct)
  case (2 v d')
  then show ?case
    by (cases d) (auto simp: simple_equals_def max_sub_types_Some split: option.splits if_splits)
next
  case (3 c d')
  then show ?case
    by (cases d) (auto simp: max_sub_types_Some simple_equals_def equals_both_not_empty_sym split: option.splits if_splits)
next
  case (4 v ts d')
  then show ?case
    by (cases d) (auto simp: max_sub_types_Some simple_equals_def split: option.splits if_splits)
next
  case (5 ts d')
  then show ?case
    by (cases d) (auto simp: max_sub_types_Some simple_equals_def split: option.splits if_splits)
next
  case (6 k n fs d')
  then show ?case
    by (cases d) (auto simp: max_sub_types_Some simple_equals_def equals_both_not_empty_sym split: option.splits if_splits)
next
  case (7 t ts u us)
  then obtain x y where xy: "t = Some x" "u = Some y" "well_formed x" "well_formed y"
    by (auto split: option.splits)
  have "data_equals x (Some y) = data_equals y (Some x)" using "7.IH"(1) [OF xy(1) xy(3) xy(2) xy(4)] xy by simp
  moreover have "sub_types_equal ts us = sub_types_equal us ts" if "data_equals y (Some x) = Some True"
    using "7.IH"(2) [OF xy(1), of True] that calculation "7.prems" xy by simp
  ultimately show ?case using xy by (auto split: option.split)
next
  case (9 f t fs g u gs)
  then obtain x y where xy: "t = Some x" "u = Some y" "well_formed x" "well_formed y"
    by (auto split: option.splits)
  show ?case
  proof (cases "f = g")
    case True
    have "data_equals x (Some y) = data_equals y (Some x)" using "9.IH"(1) [OF _ xy(1) xy(3) xy(2) xy(4)] xy True by simp
    moreover have "fields_equal fs gs = fields_equal gs fs" if "data_equals y (Some x) = Some True"
      using "9.IH"(2) [OF _ xy(1), of True] that calculation "9.prems" xy True by simp
    ultimately show ?thesis using xy True by (auto split: option.split)
  qed auto
qed (auto split: option.splits)

lemma equals_refl_aux:
  "well_formed t \<Longrightarrow> data_equals t (Some t) = Some True"
  "all_well_formed ts \<Longrightarrow> sub_types_equal ts ts = Some True"
  "fields_well_formed fs \<Longrightarrow> fields_equal fs fs = Some True"
proof (induction t and ts and fs rule: well_formed_all_well_formed_fields_well_formed.induct)
  case (1 v)
  then show ?case by (simp add: simple_equals_def)
qed (auto simp: equals_both_not_empty_def max_sub_types_Some split: option.splits)

lemma user_type_indices:
  assumes "length fs \<le> 2 ^ 60" and "unquote quoted = Some (cs, name)"
  shows "user_type_get_indices fs quoted = Some (positions cs name (map fst fs))"
proof -
  have names: "map ent_name (field_entries fs) = map fst fs" and "unlinked (field_entries fs)"
    and len: "length (field_entries fs) \<le> 2 ^ 60"
    using assms(1) by (auto simp: field_entries_def new_entry_def unlinked_def list_all_iff)
  from table_of_entries_rep [OF len this(2), of empty_memory] names obtain mem t where
    t: "table_of_entries (field_entries fs) empty_memory = Some (mem, t)"
      "\<exists>es. table_rep mem t es \<and> map ent_name es = map fst fs" by auto
  then show ?thesis
    using hash_table.look [of "(mem, t)" "map fst fs" quoted cs name] assms(2)
    by (simp add: user_type_get_indices_def)
qed

section \<open>Properties\<close>

text \<open>on well-formed types the comparison never fails an assertion, follows no null pointer and makes
  no wrong cast; it is reflexive and symmetric.\<close>

theorem comparison_well_typed:
  assumes "well_formed a" and "well_formed b"
  shows "data_equals a (Some b) \<noteq> None \<and> data_equals a (Some b) = data_equals b (Some a) \<and>
    data_equals a (Some a) = Some True"
  using equals_defined(1) [OF assms(1), of "Some b"] equals_sym_aux(1) [OF assms(1) refl assms(2)]
    equals_refl_aux(1) [OF assms(1)] assms(2) by simp

definition map_of_ints :: data_type where
  "map_of_ints = Collection_type CASS_VALUE_TYPE_MAP [Some (Simple_type CASS_VALUE_TYPE_INT), Some (Simple_type CASS_VALUE_TYPE_TEXT)]"

definition map_of_ints' :: data_type where
  "map_of_ints' = Collection_type CASS_VALUE_TYPE_MAP [Some (Simple_type CASS_VALUE_TYPE_INT), Some (Simple_type CASS_VALUE_TYPE_VARCHAR)]"

theorem comparison_well_typed_witness:
  "data_equals map_of_ints (Some map_of_ints') \<noteq> None \<and>
   data_equals map_of_ints (Some map_of_ints') = data_equals map_of_ints' (Some map_of_ints) \<and>
   data_equals map_of_ints (Some map_of_ints) = Some True"
  by (rule comparison_well_typed) (simp_all add: map_of_ints_def map_of_ints'_def)

text \<open>adding sub-types through the interface stops at one for a list or a set and at two for a map, and
  keeps a type well-formed when the added type is; other types are refused.\<close>

theorem add_sub_type_keeps_arity:
  assumes "well_formed t" and "well_formed u"
  shows "cass_data_type_add_sub_type t (Some u) =
    (if \<not> is_collection t \<and> \<not> is_tuple t then Some (Inl CASS_ERROR_LIB_INVALID_VALUE_TYPE)
     else if (case max_sub_types (type_value t) of None \<Rightarrow> False
              | Some n \<Rightarrow> cass_data_sub_type_count t = Some n)
     then Some (Inl CASS_ERROR_LIB_BAD_PARAMS) else Some (Inr (push_sub_type t (Some u)))) \<and>
    (case cass_data_type_add_sub_type t (Some u) of Some (Inr t') \<Rightarrow> well_formed t' | _ \<Rightarrow> True)"
  using assms
  by (cases t)
    (auto simp: cass_data_type_add_sub_type_def is_collection_def is_tuple_def cass_data_sub_type_count_def
      max_sub_types_Some all_well_formed_iff Suc_le_eq not_le less_2_cases_iff split: option.splits value_type.splits)

theorem add_sub_type_keeps_arity_witness:
  "cass_data_type_add_sub_type map_of_ints (Some map_of_ints) = Some (Inl CASS_ERROR_LIB_BAD_PARAMS)"
  using add_sub_type_keeps_arity [of map_of_ints map_of_ints]
  by (simp add: map_of_ints_def is_collection_def cass_data_sub_type_count_def)

text \<open>a tuple type made by \<open>cass_data_type_new_tuple\<close> is an object of the class of collections, so that
  comparing it with any type fails the assertion of that class, whatever sub-types it is given.\<close>

theorem interface_tuple_never_compares:
  "data_equals (foldl push_sub_type (cass_data_type_new_tuple n) subs) d = None"
proof -
  have "\<exists>us. foldl push_sub_type (Collection_type CASS_VALUE_TYPE_TUPLE ts) subs = Collection_type CASS_VALUE_TYPE_TUPLE us" for ts
    by (induction subs arbitrary: ts) auto
  then obtain us where "foldl push_sub_type (cass_data_type_new_tuple n) subs = Collection_type CASS_VALUE_TYPE_TUPLE us"
    unfolding cass_data_type_new_tuple_def by blast
  then show ?thesis by (cases d) simp_all
qed

text \<open>a field of a user type is found by name at its first position; null is returned exactly when no
  field has the name.\<close>

theorem field_found_by_name:
  assumes "length fs \<le> 2 ^ 60" and "unquote quoted = Some (cs, name)"
  shows "cass_data_type_sub_data_type_by_name_n (User_type k n fs) quoted =
    (case positions cs name (map fst fs) of [] \<Rightarrow> Some None | i # is \<Rightarrow> Some (snd (fs ! i)))"
proof -
  have "i < length fs" if "positions cs name (map fst fs) = i # is" for i "is"
  proof -
    have "i \<in> set (positions cs name (map fst fs))" using that by simp
    then show ?thesis by (simp add: positions_def)
  qed
  then show ?thesis
    by (auto simp: user_type_indices [OF assms] cass_data_type_sub_data_type_by_name_n_def is_user_type_def
        split: list.split)
qed

theorem field_found_by_name_witness:
  "cass_data_type_sub_data_type_by_name_n (User_type ''ks'' ''t'' [(''Id'', None), (''id'', Some (Custom_type []))]) ''ID'' =
    (case positions False ''ID'' [''Id'', ''id''] of [] \<Rightarrow> Some None
     | i # is \<Rightarrow> Some (snd ([(''Id'', None), (''id'', Some (Custom_type []))] ! i)))"
  using field_found_by_name [of "[(''Id'', None), (''id'', Some (Custom_type []))]" "''ID''" False "''ID''" "''ks''" "''t''"]
  by (simp add: unquote_def quote_char_def)

end
