(* ===== verification/Data_Type_Parser.thy ===== *)
theory Data_Type_Parser
  imports Data_Type "HOL-Library.AList"
begin

text \<open>
  The parsers of type names (\<open>data_type_parser.hpp\<close>, \<open>data_type_parser.cpp\<close>):
  \<open>DataTypeClassNameParser\<close> for the Java class names of Cassandra before 3.0 and
  \<open>DataTypeCqlNameParser\<close> for CQL types. A parser is a string and an index; a function of
  the parser takes both and returns the new index. A string is shorter than \<open>2 ^ 31\<close>
  characters, so that the \<open>int\<close> that holds an index is exact. Log lines are not modelled.
\<close>

section \<open>Characters and hexadecimal strings\<close>

definition is_identifier_char :: "char \<Rightarrow> bool" where
  "is_identifier_char c \<longleftrightarrow>
     (let n = (of_char c :: nat) in
      48 \<le> n \<and> n \<le> 57 \<or> 97 \<le> n \<and> n \<le> 122 \<or> 65 \<le> n \<and> n \<le> 90 \<or>
      c = CHR ''-'' \<or> c = CHR ''+'' \<or> c = CHR ''.'' \<or> c = CHR ''_'' \<or> c = CHR ''&'')"

definition is_blank :: "char \<Rightarrow> bool" where
  "is_blank c \<longleftrightarrow> c = CHR '' '' \<or> c = CHR 0x09 \<or> c = CHR 0x0A"

definition hex_value :: "char \<Rightarrow> int" where
  "hex_value c =
     (let n = int (of_char c :: nat) in
      if 48 \<le> n \<and> n \<le> 57 then n - 48
      else if 65 \<le> n \<and> n \<le> 70 then n - 65 + 10
      else if 97 \<le> n \<and> n \<le> 102 then n - 97 + 10
      else - 1)"

fun from_hex_pairs :: "string \<Rightarrow> string option" where
  "from_hex_pairs (a # b # rest) =
     (if hex_value a < 0 \<or> hex_value b < 0 then None
      else map_option (Cons (char_of (nat (hex_value a * 16 + hex_value b)))) (from_hex_pairs rest))"
| "from_hex_pairs _ = Some []"

definition from_hex :: "string \<Rightarrow> string option" where
  "from_hex hex = (if odd (length hex) then None else from_hex_pairs hex)"

section \<open>The base class\<close>

text \<open>Reading at the end of a constant string gives the terminating zero.\<close>

definition char_at :: "string \<Rightarrow> nat \<Rightarrow> char" where
  "char_at s i = (if i < length s then s ! i else CHR 0x00)"

definition skip_blank :: "string \<Rightarrow> nat \<Rightarrow> nat" where
  "skip_blank s i = i + length (takeWhile is_blank (drop i s))"

text \<open>Blanks and at most one comma; false at the end of the string.\<close>

function skip_blank_and_comma_from :: "string \<Rightarrow> nat \<Rightarrow> bool \<Rightarrow> bool \<times> nat" where
  "skip_blank_and_comma_from s i comma_found =
     (if length s \<le> i then (False, i)
      else if s ! i = CHR '',''
      then (if comma_found then (True, i) else skip_blank_and_comma_from s (i + 1) True)
      else if \<not> is_blank (s ! i) then (True, i)
      else skip_blank_and_comma_from s (i + 1) comma_found)"
  by pat_completeness auto
termination by (relation "measure (\<lambda>(s, i, c). length s - i)") auto

declare skip_blank_and_comma_from.simps [simp del]

definition skip_blank_and_comma :: "string \<Rightarrow> nat \<Rightarrow> bool \<times> nat" where
  "skip_blank_and_comma s i = skip_blank_and_comma_from s i False"

section \<open>The parser of class names\<close>

definition read_next_identifier :: "string \<Rightarrow> nat \<Rightarrow> string \<times> nat" where
  "read_next_identifier s i =
     (let name = takeWhile is_identifier_char (drop i s) in (name, i + length name))"

definition get_next_name :: "string \<Rightarrow> nat \<Rightarrow> string \<times> nat" where
  "get_next_name s i = read_next_identifier s (skip_blank s i)"

text \<open>The loop to the closing parenthesis: \<open>i\<close> is the character looked at last.\<close>

function close_arguments :: "string \<Rightarrow> nat \<Rightarrow> nat \<Rightarrow> nat option" where
  "close_arguments s i opened =
     (if opened = 0 then Some i
      else if length s \<le> i + 1 then None
      else close_arguments s (i + 1)
        (if s ! (i + 1) = CHR ''('' then opened + 1
         else if s ! (i + 1) = CHR '')'' then opened - 1 else opened))"
  by pat_completeness auto
termination by (relation "measure (\<lambda>(s, i, n). length s - i)") auto

declare close_arguments.simps [simp del]

text \<open>
  The arguments are \<open>substr(i, index_)\<close>: the second number is a length, so that the string
  goes on behind the closing parenthesis, for as many characters as stand before the opening one.
\<close>

definition read_raw_arguments :: "string \<Rightarrow> nat \<Rightarrow> (string \<times> nat) option" where
  "read_raw_arguments s i =
     (let i = skip_blank s i in
      if length s \<le> i \<or> s ! i = CHR '')'' \<or> s ! i = CHR '','' then Some ([], i)
      else if s ! i \<noteq> CHR ''('' then None
      else (case close_arguments s i 1 of
              None \<Rightarrow> None
            | Some j \<Rightarrow> Some (take (j + 1) (drop i s), j + 1)))"

definition read_one :: "string \<Rightarrow> nat \<Rightarrow> (string \<times> nat) option" where
  "read_one s i =
     (case get_next_name s i of (name, i) \<Rightarrow>
       (case read_raw_arguments s i of None \<Rightarrow> None | Some (args, i) \<Rightarrow> Some (name @ args, i)))"

subsection \<open>Progress\<close>

lemma skip_blank_bounds: "i \<le> skip_blank s i \<and> (i \<le> length s \<longrightarrow> skip_blank s i \<le> length s)"
  using length_takeWhile_le [of is_blank "drop i s"] by (auto simp: skip_blank_def)

lemma skip_blank_and_comma_from_progress:
  "skip_blank_and_comma_from s i c = (b, j) \<Longrightarrow>
   i \<le> j \<and> (b \<longrightarrow> j < length s \<and> \<not> is_blank (s ! j) \<and> (s ! j = CHR '','' \<longrightarrow> c \<or> i < j))"
proof (induction s i c rule: skip_blank_and_comma_from.induct)
  case (1 s i c)
  then show ?case
    by (subst (asm) (3) skip_blank_and_comma_from.simps)
      (auto simp: is_blank_def split: if_splits)
qed

lemma close_arguments_bounds:
  "close_arguments s i n = Some j \<Longrightarrow> i \<le> j \<and> (i < length s \<longrightarrow> j < length s)"
proof (induction s i n rule: close_arguments.induct)
  case (1 s i n)
  then show ?case by (subst (asm) (2) close_arguments.simps) (auto split: if_splits)
qed

lemma read_raw_arguments_bounds:
  assumes "read_raw_arguments s i = Some (args, j)"
  shows "i \<le> j \<and> length args \<le> length s - i"
proof -
  note skip = skip_blank_bounds [of i s]
  let ?i = "skip_blank s i"
  show ?thesis
  proof (cases "length s \<le> ?i \<or> s ! ?i = CHR '')'' \<or> s ! ?i = CHR '',''")
    case True
    with assms have "args = []" "j = ?i" by (simp_all add: read_raw_arguments_def)
    then show ?thesis using skip by simp
  next
    case False
    then have call: "(if s ! ?i \<noteq> CHR ''('' then None
        else case close_arguments s ?i 1 of None \<Rightarrow> None
          | Some j \<Rightarrow> Some (take (j + 1) (drop ?i s), j + 1)) = Some (args, j)"
      using assms unfolding read_raw_arguments_def Let_def by (simp only: if_False)
    show ?thesis
    proof (cases "close_arguments s ?i 1")
      case None
      with call show ?thesis by (simp split: if_splits)
    next
      case (Some k)
      with call have "args = take (k + 1) (drop ?i s)" "j = k + 1" by (auto split: if_splits)
      then show ?thesis using skip close_arguments_bounds [OF Some] by (auto simp: min_def)
    qed
  qed
qed

lemma read_next_identifier_bounds:
  "read_next_identifier s i = (name, j) \<Longrightarrow> j = i + length name \<and> length name \<le> length s - i"
  using length_takeWhile_le [of is_identifier_char "drop i s"]
  by (auto simp: read_next_identifier_def Let_def)

lemma read_one_bounds:
  assumes "read_one s i = Some (p, j)"
  shows "i \<le> j \<and> length p \<le> length s - i"
proof -
  obtain name k args where a: "read_next_identifier s (skip_blank s i) = (name, k)"
    "read_raw_arguments s k = Some (args, j)" "p = name @ args"
    using assms by (auto simp: read_one_def get_next_name_def split: prod.splits option.splits)
  from read_next_identifier_bounds [OF a(1)] read_raw_arguments_bounds [OF a(2)] skip_blank_bounds [of i s] a(3)
  show ?thesis by auto
qed

text \<open>A parameter is read past at least one character, unless it is empty before a comma.\<close>

lemma read_one_progress:
  assumes "read_one s i = Some (p, j)" and "i < length s" and "\<not> is_blank (s ! i)"
    and "s ! i \<noteq> CHR '')''" and "s ! i \<noteq> CHR '',''"
  shows "i < j"
proof -
  have skip: "skip_blank s i = i"
    using assms(2, 3) by (simp add: skip_blank_def takeWhile_eq_Nil_iff hd_drop_conv_nth)
  obtain name k args where a: "read_next_identifier s i = (name, k)" "read_raw_arguments s k = Some (args, j)"
    using assms(1) by (auto simp: read_one_def get_next_name_def skip split: prod.splits option.splits)
  note b = read_next_identifier_bounds [OF a(1)] read_raw_arguments_bounds [OF a(2)]
  show ?thesis
  proof (cases "name = []")
    case True
    then have "k = i" using b(1) by simp
    with a(2) obtain m where "close_arguments s i 1 = Some m" "j = m + 1"
      using assms by (auto simp: read_raw_arguments_def skip split: if_splits option.splits)
    then show ?thesis using close_arguments_bounds by fastforce
  next
    case False
    then have "0 < length name" by simp
    then show ?thesis using b by linarith
  qed
qed

lemma step_progress:
  assumes "skip_blank_and_comma s i = (True, k)" and "s ! k \<noteq> CHR '')''" and "read_one s k = Some (p, j)"
  shows "i < j \<and> i < length s"
proof -
  have k: "i \<le> k" "k < length s" "\<not> is_blank (s ! k)" "s ! k = CHR '','' \<longrightarrow> i < k"
    using skip_blank_and_comma_from_progress assms(1) unfolding skip_blank_and_comma_def by blast+
  show ?thesis
  proof (cases "s ! k = CHR '',''")
    case True
    then show ?thesis using k read_one_bounds [OF assms(3)] by simp
  next
    case False
    then show ?thesis using read_one_progress [OF assms(3) k(2, 3) assms(2)] k by simp
  qed
qed

section \<open>Lists of parameters\<close>

text \<open>The loop of \<open>get_type_params\<close>, with what was pushed so far; on failure the caller still has that.\<close>

function type_params_loop :: "string \<Rightarrow> nat \<Rightarrow> string list \<Rightarrow> bool \<times> string list \<times> nat" where
  "type_params_loop s i params =
     (case skip_blank_and_comma s i of (found, k) \<Rightarrow>
        if \<not> found then (False, params, k)
        else if s ! k = CHR '')'' then (True, params, k + 1)
        else (case read_one s k of
                None \<Rightarrow> (False, params, k)
              | Some (param, j) \<Rightarrow> type_params_loop s j (params @ [param])))"
  by pat_completeness auto
termination
  by (relation "measure (\<lambda>(s, i, ps). length s - i)") (auto dest!: step_progress [OF sym])

declare type_params_loop.simps [simp del]

definition get_type_params :: "string \<Rightarrow> nat \<Rightarrow> bool \<times> string list \<times> nat" where
  "get_type_params s i =
     (if length s \<le> i then (True, [], i)
      else if s ! i \<noteq> CHR ''('' then (False, [], i)
      else type_params_loop s (i + 1) [])"

function name_and_type_params_loop :: "string \<Rightarrow> nat \<Rightarrow> (string \<times> string) list \<Rightarrow> (string \<times> string) list option" where
  "name_and_type_params_loop s i params =
     (case skip_blank_and_comma s i of (found, k) \<Rightarrow>
        if \<not> found then None
        else if s ! k = CHR '')'' then Some params
        else (case read_next_identifier s k of (hex, j) \<Rightarrow>
               (case from_hex hex of
                  None \<Rightarrow> None
                | Some name \<Rightarrow>
                    if char_at s (skip_blank s j) \<noteq> CHR '':'' then None
                    else (case read_one s (skip_blank s (skip_blank s j + 1)) of
                            None \<Rightarrow> None
                          | Some (type, j) \<Rightarrow> name_and_type_params_loop s j (params @ [(name, type)])))))"
  by pat_completeness auto
termination
proof (relation "measure (\<lambda>(s, i, ps). length s - i)")
  fix s i ps found k hex j name p q and x y
  assume a: "(found, k) = skip_blank_and_comma s i" "\<not> \<not> found" "(hex, j) = read_next_identifier s k"
    "read_one s (skip_blank s (skip_blank s j + 1)) = Some x" "(p, q) = x"
  have "i \<le> k" "k < length s"
    using skip_blank_and_comma_from_progress a(1, 2) unfolding skip_blank_and_comma_def by metis+
  moreover have "k \<le> j" using read_next_identifier_bounds [OF a(3) [symmetric]] by simp
  moreover have "j < q"
    using read_one_bounds [of s _ p q] a(4, 5) skip_blank_bounds [of "skip_blank s j + 1" s] skip_blank_bounds [of j s] by fastforce
  ultimately show "((s, q, ps @ [(name, p)]), (s, i, ps)) \<in> measure (\<lambda>(s, i, ps). length s - i)" by simp
qed simp

declare name_and_type_params_loop.simps [simp del]

definition get_name_and_type_params :: "string \<Rightarrow> nat \<Rightarrow> (string \<times> string) list option" where
  "get_name_and_type_params s i = name_and_type_params_loop s i []"

definition get_collection_params :: "string \<Rightarrow> nat \<Rightarrow> (string \<times> string) list option" where
  "get_collection_params s i =
     (if length s \<le> i then Some []
      else if s ! i \<noteq> CHR ''('' then None
      else get_name_and_type_params s (i + 1))"

definition get_nested_class_name :: "string \<Rightarrow> string option" where
  "get_nested_class_name type =
     (case get_next_name type 0 of (name, i) \<Rightarrow>
       (case get_type_params type i of (ok, params, j) \<Rightarrow>
         if length params \<noteq> 1 then None else Some (params ! 0)))"

subsection \<open>A parameter is shorter than the string it is read from\<close>

lemma type_params_loop_short:
  "0 < i \<Longrightarrow> \<forall>p \<in> set ps. length p < length s \<Longrightarrow>
   type_params_loop s i ps = (ok, qs, j) \<Longrightarrow> q \<in> set qs \<Longrightarrow> length q < length s"
proof (induction s i ps rule: type_params_loop.induct)
  case (1 s i ps)
  obtain found k where k: "skip_blank_and_comma s i = (found, k)" by force
  show ?case
  proof (cases "found \<and> s ! k \<noteq> CHR '')''")
    case False
    with "1.prems"(3) k have "qs = ps"
      by (subst (asm) type_params_loop.simps) (auto split: if_splits)
    then show ?thesis using "1.prems" by blast
  next
    case True
    show ?thesis
    proof (cases "read_one s k")
      case None
      with "1.prems"(3) k True have "qs = ps" by (subst (asm) type_params_loop.simps) simp
      then show ?thesis using "1.prems" by blast
    next
      case (Some r)
      obtain p m where r: "r = (p, m)" by force
      have step: "i < m \<and> i < length s" using step_progress [of s i k p m] k True Some r by simp
      have "i \<le> k" "k < length s"
        using skip_blank_and_comma_from_progress k True unfolding skip_blank_and_comma_def by metis+
      then have "length p < length s"
        using read_one_bounds [of s k p m] Some r "1.prems"(1) by auto
      then have "\<forall>p' \<in> set (ps @ [p]). length p' < length s" using "1.prems"(2) by auto
      moreover have "type_params_loop s m (ps @ [p]) = (ok, qs, j)"
        using "1.prems"(3) k True Some r by (subst (asm) type_params_loop.simps) simp
      moreover have "0 < m" using step by simp
      ultimately show ?thesis
        using "1.IH" [OF k [symmetric]] True Some r "1.prems"(4) by blast
    qed
  qed
qed

lemma get_type_params_short:
  "get_type_params s i = (ok, ps, j) \<Longrightarrow> p \<in> set ps \<Longrightarrow> length p < length s"
  using type_params_loop_short [of "i + 1" "[]" s] by (auto simp: get_type_params_def split: if_splits)

lemma get_nested_class_name_short: "get_nested_class_name s = Some c \<Longrightarrow> length c < length s"
  by (auto simp: get_nested_class_name_def split: prod.splits if_splits dest!: get_type_params_short)

lemma name_and_type_params_loop_short:
  "\<forall>(n, p) \<in> set ps. length p < length s \<Longrightarrow> name_and_type_params_loop s i ps = Some qs \<Longrightarrow>
   (m, q) \<in> set qs \<Longrightarrow> length q < length s"
proof (induction s i ps rule: name_and_type_params_loop.induct)
  case (1 s i ps)
  obtain found k where k: "skip_blank_and_comma s i = (found, k)" by force
  obtain hex j where hex: "read_next_identifier s k = (hex, j)" by force
  show ?case
  proof (cases "found \<and> s ! k \<noteq> CHR '')''")
    case False
    with "1.prems"(2) k have "qs = ps"
      by (subst (asm) name_and_type_params_loop.simps) (auto split: if_splits)
    then show ?thesis using "1.prems" by blast
  next
    case True
    let ?m = "skip_blank s (skip_blank s j + 1)"
    from "1.prems"(2) k hex True obtain name p l where
      r: "from_hex hex = Some name" "\<not> char_at s (skip_blank s j) \<noteq> CHR '':''" "read_one s ?m = Some (p, l)"
        "name_and_type_params_loop s l (ps @ [(name, p)]) = Some qs"
      by (subst (asm) name_and_type_params_loop.simps) (auto split: if_splits option.splits)
    have "0 < length s"
      using skip_blank_and_comma_from_progress k True unfolding skip_blank_and_comma_def by fastforce
    moreover have "0 < ?m" using skip_blank_bounds [of "skip_blank s j + 1" s] by simp
    ultimately have "length p < length s" using read_one_bounds [OF r(3)] by linarith
    then have "\<forall>(n, p') \<in> set (ps @ [(name, p)]). length p' < length s" using "1.prems"(1) by auto
    with "1.IH" [OF k [symmetric] _ _ hex [symmetric] r(1, 2, 3) refl] True r(4) "1.prems"(3) show ?thesis by blast
  qed
qed

lemma get_name_and_type_params_short:
  "get_name_and_type_params s i = Some qs \<Longrightarrow> (m, q) \<in> set qs \<Longrightarrow> length q < length s"
  using name_and_type_params_loop_short [of "[]" s i] by (simp add: get_name_and_type_params_def)

section \<open>One type\<close>

definition "REVERSED_TYPE = marshal @ ''ReversedType''"
definition "FROZEN_TYPE = marshal @ ''FrozenType''"
definition "COMPOSITE_TYPE = marshal @ ''CompositeType''"
definition "COLLECTION_TYPE = marshal @ ''ColumnToCollectionType''"
definition "LIST_TYPE = marshal @ ''ListType''"
definition "SET_TYPE = marshal @ ''SetType''"
definition "MAP_TYPE = marshal @ ''MapType''"
definition "UDT_TYPE = marshal @ ''UserType''"
definition "TUPLE_TYPE = marshal @ ''TupleType''"

definition is_reversed :: "string \<Rightarrow> bool" where "is_reversed type = starts_with type REVERSED_TYPE"
definition is_frozen :: "string \<Rightarrow> bool" where "is_frozen type = starts_with type FROZEN_TYPE"
definition is_composite :: "string \<Rightarrow> bool" where "is_composite type = starts_with type COMPOSITE_TYPE"
definition is_collection_type :: "string \<Rightarrow> bool" where "is_collection_type type = starts_with type COLLECTION_TYPE"
definition is_user_type_name :: "string \<Rightarrow> bool" where "is_user_type_name type = starts_with type UDT_TYPE"
definition is_tuple_type :: "string \<Rightarrow> bool" where "is_tuple_type type = starts_with type TUPLE_TYPE"

text \<open>The parameters of a user type: keyspace, name and the fields, whose types are not parsed yet.\<close>

definition read_user_type :: "string \<Rightarrow> nat \<Rightarrow> (string \<times> string \<times> (string \<times> string) list) option" where
  "read_user_type s i =
     (case read_one s (i + 1) of
        None \<Rightarrow> None
      | Some (keyspace, i) \<Rightarrow>
          (case read_one s (snd (skip_blank_and_comma s i)) of
             None \<Rightarrow> None
           | Some (hex, i) \<Rightarrow>
               (case from_hex hex of
                  None \<Rightarrow> None
                | Some type_name \<Rightarrow>
                    if keyspace = [] \<or> type_name = [] then None
                    else (case get_name_and_type_params s (snd (skip_blank_and_comma s i)) of
                            None \<Rightarrow> None
                          | Some raw_fields \<Rightarrow> Some (keyspace, type_name, raw_fields)))))"

text \<open>The loops over parameters stop at the first that is no type.\<close>

fun all_some :: "'a option list \<Rightarrow> 'a list option" where
  "all_some [] = Some []"
| "all_some (x # xs) =
     (case x of None \<Rightarrow> None
      | Some y \<Rightarrow> (case all_some xs of None \<Rightarrow> None | Some ys \<Rightarrow> Some (y # ys)))"

lemma read_user_type_short:
  "read_user_type s i = Some (k, n, raw) \<Longrightarrow> (m, q) \<in> set raw \<Longrightarrow> length q < length s"
  by (auto simp: read_user_type_def split: option.splits if_splits prod.splits
      dest: get_name_and_type_params_short)

lemma class_name_short:
  "(if is_reversed type \<or> is_frozen type then get_nested_class_name type else Some type) = Some c \<Longrightarrow>
   length c \<le> length type"
  by (auto split: if_splits dest: get_nested_class_name_short)

lemma param_shorter:
  assumes "(if is_reversed type \<or> is_frozen type then get_nested_class_name type else Some type) = Some c"
    and "(ok, r) = get_type_params c i" and "(ps, j) = r" and "p \<in> set ps"
  shows "length p < length type"
  using class_name_short [OF assms(1)] get_type_params_short [of c i ok ps j p] assms(2-4) by simp

lemma field_shorter:
  assumes "(if is_reversed type \<or> is_frozen type then get_nested_class_name type else Some type) = Some c"
    and "read_user_type c i = Some x" and "(k, r) = x" and "(n, raw) = r" and "y \<in> set raw" and "(m, p) = y"
  shows "length p < length type"
  using class_name_short [OF assms(1)] read_user_type_short [of c i k n raw m p] assms(2-6) by simp

text \<open>Every parameter is shorter than the name it is part of, so that the recursion ends.\<close>

function parse_one :: "string \<Rightarrow> data_type option" where
  "parse_one type =
     (case (if is_reversed type \<or> is_frozen type then get_nested_class_name type else Some type) of
        None \<Rightarrow> None
      | Some class_name \<Rightarrow>
         (case get_next_name class_name 0 of (nxt, i) \<Rightarrow>
            if starts_with nxt LIST_TYPE then
              (case get_type_params class_name i of (ok, params, j) \<Rightarrow>
                 if \<not> ok \<or> params = [] then None
                 else (case parse_one (params ! 0) of None \<Rightarrow> None
                       | Some e \<Rightarrow> Some (Collection_type CASS_VALUE_TYPE_LIST [Some e])))
            else if starts_with nxt SET_TYPE then
              (case get_type_params class_name i of (ok, params, j) \<Rightarrow>
                 if \<not> ok \<or> params = [] then None
                 else (case parse_one (params ! 0) of None \<Rightarrow> None
                       | Some e \<Rightarrow> Some (Collection_type CASS_VALUE_TYPE_SET [Some e])))
            else if starts_with nxt MAP_TYPE then
              (case get_type_params class_name i of (ok, params, j) \<Rightarrow>
                 if \<not> ok \<or> length params < 2 then None
                 else (case (parse_one (params ! 0), parse_one (params ! 1)) of
                         (Some k, Some v) \<Rightarrow> Some (Collection_type CASS_VALUE_TYPE_MAP [Some k, Some v])
                       | _ \<Rightarrow> None))
            else if is_user_type_name nxt then
              (case read_user_type class_name i of None \<Rightarrow> None
               | Some (keyspace, type_name, raw_fields) \<Rightarrow>
                   (case all_some (map (\<lambda>(n, p). map_option (\<lambda>t. (n, Some t)) (parse_one p)) raw_fields) of
                      None \<Rightarrow> None
                    | Some typed_fields \<Rightarrow> Some (User_type keyspace type_name typed_fields)))
            else if is_tuple_type type then
              (case get_type_params class_name i of (ok, raw_types, j) \<Rightarrow>
                 if \<not> ok then None
                 else (case all_some (map parse_one raw_types) of None \<Rightarrow> None
                       | Some types \<Rightarrow> Some (Tuple_type (map Some types))))
            else (case by_class_name nxt of Some native_type \<Rightarrow> Some native_type
                  | None \<Rightarrow> Some (Custom_type nxt))))"
  by pat_completeness auto
termination
  apply (relation "measure length")
        apply simp
       apply (simp, erule (2) param_shorter, simp)
      apply (simp, erule (2) param_shorter, simp)
     apply (simp, erule (2) param_shorter, rule nth_mem, force)
    apply (simp, erule (2) param_shorter, rule nth_mem, force)
   apply (simp, erule (5) field_shorter)
  apply (simp, erule (2) param_shorter, simp)
  done

declare parse_one.simps [simp del]

section \<open>Composite types\<close>

record parse_result =
  res_composite :: bool
  res_types :: "data_type list"
  res_reversed :: "bool list"
  res_collections :: "(string \<times> data_type) list"

text \<open>\<open>collections[name] = type\<close> on the ordered map, a later name replacing an earlier one.\<close>

definition collect_types :: "(string \<times> string) list \<Rightarrow> (string \<times> data_type) list option" where
  "collect_types params =
     map_option (\<lambda>xs. foldl (\<lambda>m (n, t). AList.update n t m) [] xs)
       (all_some (map (\<lambda>(n, p). map_option (Pair n) (parse_one p)) params))"

definition parse_with_composite :: "string \<Rightarrow> parse_result option" where
  "parse_with_composite type =
     (case get_next_name type 0 of (nxt, i) \<Rightarrow>
        if \<not> is_composite nxt then
          map_option (\<lambda>t. \<lparr>res_composite = False, res_types = [t], res_reversed = [is_reversed nxt],
            res_collections = []\<rparr>) (parse_one type)
        else
          (case get_type_params type i of (ok, sub_class_names, j) \<Rightarrow>
             if \<not> ok \<or> sub_class_names = [] then None
             else
               let final = last sub_class_names;
                   names = (if is_collection_type final then butlast sub_class_names else sub_class_names)
               in (case (if is_collection_type final
                         then (case get_next_name final 0 of (name, k) \<Rightarrow>
                                (case get_collection_params final k of
                                   None \<Rightarrow> None | Some params \<Rightarrow> collect_types params))
                         else Some []) of
                     None \<Rightarrow> None
                   | Some collections \<Rightarrow>
                       map_option (\<lambda>ts. \<lparr>res_composite = True, res_types = ts,
                         res_reversed = map is_reversed names, res_collections = collections\<rparr>)
                         (all_some (map parse_one names)))))"

section \<open>The parser of CQL names\<close>

text \<open>Behind the closing quote; two quotes in a row are a quote in the name.\<close>

function quoted_end :: "string \<Rightarrow> nat \<Rightarrow> nat" where
  "quoted_end s i =
     (if length s \<le> i then i
      else if s ! i = quote_char
      then (if i + 1 < length s \<and> s ! (i + 1) = quote_char then quoted_end s (i + 2) else i + 1)
      else quoted_end s (i + 1))"
  by pat_completeness auto
termination by (relation "measure (\<lambda>(s, i). length s - i)") auto

declare quoted_end.simps [simp del]

definition cql_read_next_identifier :: "string \<Rightarrow> nat \<Rightarrow> string \<times> nat" where
  "cql_read_next_identifier s i =
     (let j = (if char_at s i = quote_char then quoted_end s (i + 1)
               else i + length (takeWhile (\<lambda>c. is_identifier_char c \<or> c = quote_char) (drop i s)))
      in (take (j - i) (drop i s), j))"

definition parse_type_name :: "string \<Rightarrow> nat \<Rightarrow> string \<times> nat" where
  "parse_type_name s i = cql_read_next_identifier s (skip_blank s i)"

definition angle_step :: "char \<Rightarrow> nat \<Rightarrow> bool \<Rightarrow> nat \<times> bool" where
  "angle_step c opened in_quotes =
     (if \<not> in_quotes
      then (if c = quote_char then (opened, True)
            else if c = CHR ''<'' then (opened + 1, in_quotes)
            else if c = CHR ''>'' then (opened - 1, in_quotes)
            else (opened, in_quotes))
      else (opened, c \<noteq> quote_char))"

function close_angles :: "string \<Rightarrow> nat \<Rightarrow> nat \<Rightarrow> bool \<Rightarrow> nat option" where
  "close_angles s i opened in_quotes =
     (if opened = 0 then Some i
      else if length s \<le> i + 1 then None
      else (case angle_step (s ! (i + 1)) opened in_quotes of (opened, in_quotes) \<Rightarrow>
              close_angles s (i + 1) opened in_quotes))"
  by pat_completeness auto
termination by (relation "measure (\<lambda>(s, i, n, q). length s - i)") auto

declare close_angles.simps [simp del]

definition read_raw_type_parameters :: "string \<Rightarrow> nat \<Rightarrow> (string \<times> nat) option" where
  "read_raw_type_parameters s i =
     (let i = skip_blank s i in
      if length s \<le> i \<or> s ! i = CHR ''>'' \<or> s ! i = CHR '','' then Some ([], i)
      else if s ! i \<noteq> CHR ''<'' then None
      else (case close_angles s i 1 False of None \<Rightarrow> None
            | Some j \<Rightarrow> Some (take (j + 1 - i) (drop i s), j + 1)))"

lemma quoted_end_mono: "i \<le> quoted_end s i"
proof (induction s i rule: quoted_end.induct)
  case (1 s i)
  then show ?case by (subst quoted_end.simps) auto
qed

lemma close_angles_mono: "close_angles s i n q = Some j \<Longrightarrow> i \<le> j"
proof (induction s i n q rule: close_angles.induct)
  case (1 s i n q)
  then show ?case
    by (subst (asm) (2) close_angles.simps) (force split: if_splits prod.splits)
qed

lemma parse_type_name_bounds:
  assumes "parse_type_name s i = (name, j)"
  shows "i \<le> j \<and> length name \<le> min j (length s) - i"
proof -
  let ?i = "skip_blank s i"
  have "name = take (j - ?i) (drop ?i s)" "?i \<le> j"
    using assms quoted_end_mono [of "?i + 1" s]
    by (auto simp: parse_type_name_def cql_read_next_identifier_def Let_def split: if_splits)
  then show ?thesis using skip_blank_bounds [of i s] by (auto simp: min_def)
qed

lemma read_raw_type_parameters_bounds:
  assumes "read_raw_type_parameters s i = Some (args, j)"
  shows "i \<le> j \<and> length args \<le> length s - i"
proof -
  let ?i = "skip_blank s i"
  show ?thesis
  proof (cases "length s \<le> ?i \<or> s ! ?i = CHR ''>'' \<or> s ! ?i = CHR '',''")
    case True
    with assms have "args = []" "j = ?i" by (simp_all add: read_raw_type_parameters_def)
    then show ?thesis using skip_blank_bounds [of i s] by simp
  next
    case False
    then have call: "(if s ! ?i \<noteq> CHR ''<'' then None
        else case close_angles s ?i 1 False of None \<Rightarrow> None
          | Some j \<Rightarrow> Some (take (j + 1 - ?i) (drop ?i s), j + 1)) = Some (args, j)"
      using assms unfolding read_raw_type_parameters_def Let_def by (simp only: if_False)
    show ?thesis
    proof (cases "close_angles s ?i 1 False")
      case None
      with call show ?thesis by (simp split: if_splits)
    next
      case (Some k)
      with call have "args = take (k + 1 - ?i) (drop ?i s)" "j = k + 1" by (auto split: if_splits)
      then show ?thesis using skip_blank_bounds [of i s] close_angles_mono [OF Some] by (auto simp: min_def)
    qed
  qed
qed

text \<open>The loop of \<open>parse_type_parameters\<close> returns what it has read when it meets an error.\<close>

lemma type_parameter_progress:
  assumes "skip_blank_and_comma s i = (True, k)" and "s ! k \<noteq> CHR ''>''"
    and "parse_type_name s k = (name, j)" and "read_raw_type_parameters s j = Some (args, m)"
  shows "i < m \<and> i < length s \<and> length (name @ args) \<le> length s - k"
proof -
  have k: "i \<le> k" "k < length s" "\<not> is_blank (s ! k)" "s ! k = CHR '','' \<longrightarrow> i < k"
    using skip_blank_and_comma_from_progress assms(1) unfolding skip_blank_and_comma_def by blast+
  note b = parse_type_name_bounds [OF assms(3)] read_raw_type_parameters_bounds [OF assms(4)]
  have "length (name @ args) \<le> length s - k" using b by auto
  moreover have "i < m"
  proof (cases "j = k")
    case False
    then show ?thesis using b k by linarith
  next
    case True
    have skip: "skip_blank s k = k"
      using k(2, 3) by (simp add: skip_blank_def takeWhile_eq_Nil_iff hd_drop_conv_nth)
    show ?thesis
    proof (cases "s ! k = CHR '',''")
      case True
      then show ?thesis using b k by linarith
    next
      case False
      then obtain n where "close_angles s k 1 False = Some n" "m = n + 1"
        using assms(2, 4) k(2) skip \<open>j = k\<close>
        by (auto simp: read_raw_type_parameters_def split: if_splits option.splits)
      then show ?thesis using close_angles_mono k by fastforce
    qed
  qed
  ultimately show ?thesis using k by simp
qed

function type_parameters_loop :: "string \<Rightarrow> nat \<Rightarrow> string list \<Rightarrow> string list" where
  "type_parameters_loop s i params =
     (case skip_blank_and_comma s i of (found, k) \<Rightarrow>
        if \<not> found \<or> s ! k = CHR ''>'' then params
        else (case parse_type_name s k of (name, j) \<Rightarrow>
               (case read_raw_type_parameters s j of
                  None \<Rightarrow> params
                | Some (args, m) \<Rightarrow> type_parameters_loop s m (params @ [name @ args]))))"
  by pat_completeness auto
termination
  by (relation "measure (\<lambda>(s, i, ps). length s - i)") (auto dest!: type_parameter_progress [OF sym _ sym])

declare type_parameters_loop.simps [simp del]

definition parse_type_parameters :: "string \<Rightarrow> nat \<Rightarrow> string list" where
  "parse_type_parameters s i =
     (if length s \<le> i then []
      else (let k = snd (skip_blank_and_comma s i) in
            if char_at s k \<noteq> CHR ''<'' then [] else type_parameters_loop s (k + 1) []))"

lemma type_parameters_loop_short:
  "0 < i \<Longrightarrow> \<forall>p \<in> set ps. length p < length s \<Longrightarrow> q \<in> set (type_parameters_loop s i ps) \<Longrightarrow> length q < length s"
proof (induction s i ps rule: type_parameters_loop.induct)
  case (1 s i ps)
  obtain found k where k: "skip_blank_and_comma s i = (found, k)" by force
  obtain name j where name: "parse_type_name s k = (name, j)" by force
  show ?case
  proof (cases "found \<and> s ! k \<noteq> CHR ''>'' \<and> read_raw_type_parameters s j \<noteq> None")
    case False
    then have "type_parameters_loop s i ps = ps"
      using k name by (subst type_parameters_loop.simps) (auto split: option.splits)
    then show ?thesis using "1.prems" by simp
  next
    case True
    then obtain args m where args: "read_raw_type_parameters s j = Some (args, m)" by auto
    have step: "i < m" "i < length s" "length (name @ args) \<le> length s - k"
      using type_parameter_progress [OF _ _ name args, of i] k True by auto
    have "i \<le> k"
      using skip_blank_and_comma_from_progress k unfolding skip_blank_and_comma_def by blast
    then have "length (name @ args) < length s" using step "1.prems"(1) by linarith
    then have "\<forall>p \<in> set (ps @ [name @ args]). length p < length s" using "1.prems"(2) by auto
    moreover have "type_parameters_loop s i ps = type_parameters_loop s m (ps @ [name @ args])"
      using k name True args by (subst type_parameters_loop.simps) simp
    moreover have "0 < m" using step by simp
    ultimately show ?thesis
      using "1.IH" [OF k [symmetric] _ name [symmetric] args refl] True "1.prems"(3) by simp
  qed
qed

lemma parse_type_parameters_short: "p \<in> set (parse_type_parameters s i) \<Longrightarrow> length p < length s"
  using type_parameters_loop_short [of "snd (skip_blank_and_comma s i) + 1" "[]" s p]
  by (auto simp: parse_type_parameters_def Let_def split: if_splits)

text \<open>
  The keyspace a type is parsed for: its name and its user types, which are made as they are
  mentioned, without fields until the keyspace's types are read.
\<close>

record type_space =
  ks_name :: string
  ks_user_types :: "(string \<times> data_type) list"

definition get_or_create_user_type :: "string \<Rightarrow> type_space \<Rightarrow> data_type option \<times> type_space" where
  "get_or_create_user_type name ks =
     (case map_of (ks_user_types ks) name of
        Some t \<Rightarrow> (Some t, ks)
      | None \<Rightarrow>
          (let t = User_type (ks_name ks) name []
           in (Some t, ks\<lparr>ks_user_types := AList.update name t (ks_user_types ks)\<rparr>)))"

text \<open>The outcome of looking at the name alone: a finished type, or parameters to parse.\<close>

datatype cql_head =
  Whole "data_type option" | List_of | Set_of | Map_of | Tuple_of | Frozen_of | Named string

definition cql_head_of :: "string \<Rightarrow> cql_head" where
  "cql_head_of name =
     (case by_cql_name name of
        Some t \<Rightarrow> Whole (Some t)
      | None \<Rightarrow>
          if name = ''list'' then List_of else if name = ''set'' then Set_of
          else if name = ''map'' then Map_of else if name = ''tuple'' then Tuple_of
          else if name = ''frozen'' then Frozen_of
          else if name = ''empty'' then Whole (Some (Custom_type name))
          else if name = [] then Whole None else Named name)"

definition longest :: "string list \<Rightarrow> nat" where
  "longest ps = foldr max (map length ps) 0"

lemma longest_Cons [simp]: "longest (p # ps) = max (length p) (longest ps)"
  by (simp add: longest_def)

lemma longest_less: "0 < n \<Longrightarrow> (\<And>p. p \<in> set ps \<Longrightarrow> length p < n) \<Longrightarrow> longest ps < n"
  by (induction ps) (auto simp: longest_def)

lemma longest_parameters: "parse_type_parameters type i \<noteq> [] \<Longrightarrow> longest (parse_type_parameters type i) < length type"
  by (rule longest_less)
    (auto simp: parse_type_parameters_short parse_type_parameters_def split: if_splits)

definition cql_measure :: "string \<times> type_space + string list \<times> type_space \<Rightarrow> nat \<times> nat" where
  "cql_measure x = (case x of Inl (t, ks) \<Rightarrow> (length t, 0) | Inr (ps, ks) \<Rightarrow> (longest ps, Suc (length ps)))"

function cql_parse :: "string \<Rightarrow> type_space \<Rightarrow> data_type option \<times> type_space"
  and cql_parse_all :: "string list \<Rightarrow> type_space \<Rightarrow> data_type option list \<times> type_space"
where
  "cql_parse type ks =
     (case parse_type_name type 0 of (name, i) \<Rightarrow>
       let type_name = map tolower name; params = parse_type_parameters type i in
       (case cql_head_of type_name of
          Whole t \<Rightarrow> (t, ks)
        | Named n \<Rightarrow> get_or_create_user_type n ks
        | List_of \<Rightarrow>
            (if length params \<noteq> 1 then (None, ks)
             else (case cql_parse_all params ks of (ts, ks) \<Rightarrow> (Some (Collection_type CASS_VALUE_TYPE_LIST ts), ks)))
        | Set_of \<Rightarrow>
            (if length params \<noteq> 1 then (None, ks)
             else (case cql_parse_all params ks of (ts, ks) \<Rightarrow> (Some (Collection_type CASS_VALUE_TYPE_SET ts), ks)))
        | Map_of \<Rightarrow>
            (if length params \<noteq> 2 then (None, ks)
             else (case cql_parse_all params ks of (ts, ks) \<Rightarrow> (Some (Collection_type CASS_VALUE_TYPE_MAP ts), ks)))
        | Tuple_of \<Rightarrow>
            (if params = [] then (None, ks)
             else (case cql_parse_all params ks of (ts, ks) \<Rightarrow> (Some (Tuple_type ts), ks)))
        | Frozen_of \<Rightarrow>
            (if length params \<noteq> 1 then (None, ks)
             else (case cql_parse_all params ks of (ts, ks) \<Rightarrow> (hd ts, ks)))))"
| "cql_parse_all [] ks = ([], ks)"
| "cql_parse_all (p # ps) ks =
     (case cql_parse p ks of (t, ks) \<Rightarrow> (case cql_parse_all ps ks of (ts, ks) \<Rightarrow> (t # ts, ks)))"
  by pat_completeness auto
termination
  by (relation "inv_image (less_than <*lex*> less_than) cql_measure")
    (auto simp: cql_measure_def intro!: longest_parameters)

declare cql_parse.simps [simp del]

section \<open>What the class name parser returns\<close>

lemma all_some_iff: "all_some xs = Some ys \<longleftrightarrow> xs = map Some ys"
proof (induction xs arbitrary: ys)
  case (Cons x xs)
  then show ?case
    by (cases "all_some xs") (auto simp: Cons_eq_map_conv split: option.splits)
qed auto

text \<open>The types of the class name parser: well-formed, and collections have all their sub-types.\<close>

fun complete :: "data_type \<Rightarrow> bool"
  and all_complete :: "data_type option list \<Rightarrow> bool"
  and fields_complete :: "(string \<times> data_type option) list \<Rightarrow> bool"
where
  "complete (Simple_type v) = simple_value_type v"
| "complete (Custom_type c) = True"
| "complete (Collection_type v ts) = (max_sub_types v = Some (length ts) \<and> all_complete ts)"
| "complete (Tuple_type ts) = all_complete ts"
| "complete (User_type k n fs) = (k \<noteq> [] \<and> n \<noteq> [] \<and> fields_complete fs)"
| "all_complete [] = True"
| "all_complete (t # ts) = ((case t of None \<Rightarrow> False | Some t \<Rightarrow> complete t) \<and> all_complete ts)"
| "fields_complete [] = True"
| "fields_complete ((f, t) # fs) = ((case t of None \<Rightarrow> False | Some t \<Rightarrow> complete t) \<and> fields_complete fs)"

lemma all_complete_map: "all_complete (map Some ts) \<longleftrightarrow> (\<forall>t \<in> set ts. complete t)"
  by (induction ts) auto

lemma fields_complete_iff: "fields_complete fs \<longleftrightarrow> (\<forall>(f, t) \<in> set fs. \<exists>u. t = Some u \<and> complete u)"
  by (induction fs) (auto split: option.splits)

lemma complete_well_formed:
  "complete t \<Longrightarrow> well_formed t"
  "all_complete ts \<Longrightarrow> all_well_formed ts"
  "fields_complete fs \<Longrightarrow> fields_well_formed fs"
  by (induction t and ts and fs rule: complete_all_complete_fields_complete.induct)
    (auto split: option.splits)

text \<open>How deep the types of a type are nested.\<close>

fun type_depth :: "data_type \<Rightarrow> nat"
  and types_depth :: "data_type option list \<Rightarrow> nat"
  and fields_depth :: "(string \<times> data_type option) list \<Rightarrow> nat"
where
  "type_depth (Simple_type v) = 0"
| "type_depth (Custom_type c) = 0"
| "type_depth (Collection_type v ts) = Suc (types_depth ts)"
| "type_depth (Tuple_type ts) = Suc (types_depth ts)"
| "type_depth (User_type k n fs) = Suc (fields_depth fs)"
| "types_depth [] = 0"
| "types_depth (t # ts) = max (case t of None \<Rightarrow> 0 | Some t \<Rightarrow> type_depth t) (types_depth ts)"
| "fields_depth [] = 0"
| "fields_depth ((f, t) # fs) = max (case t of None \<Rightarrow> 0 | Some t \<Rightarrow> type_depth t) (fields_depth fs)"

lemma types_depth_less: "0 < n \<Longrightarrow> (\<And>t. t \<in> set ts \<Longrightarrow> type_depth t < n) \<Longrightarrow> types_depth (map Some ts) < n"
  by (induction ts) auto

lemma fields_depth_less:
  "0 < n \<Longrightarrow> (\<And>f t. (f, t) \<in> set fs \<Longrightarrow> \<exists>u. t = Some u \<and> type_depth u < n) \<Longrightarrow> fields_depth fs < n"
proof (induction fs)
  case (Cons g fs)
  obtain f t where g: "g = (f, t)" by force
  with Cons.prems(2) [of f t] obtain u where "t = Some u" "type_depth u < n" by auto
  moreover have "fields_depth fs < n"
  proof (rule Cons.IH [OF Cons.prems(1)])
    fix f t assume "(f, t) \<in> set fs"
    then show "\<exists>u. t = Some u \<and> type_depth u < n" using Cons.prems(2) [of f t] by simp
  qed
  ultimately show ?case using g by simp
qed simp

lemma parse_empty: "type \<noteq> [] \<or> parse_one type = Some (Custom_type [])"
proof -
  have "parse_one [] = Some (Custom_type [])" by code_simp
  then show ?thesis by (cases type) simp_all
qed

lemma native_types_simple: "\<forall>(n, v) \<in> set native_class_types. simple_value_type v"
  by (simp add: native_class_types_def)

lemma by_class_name_complete: "by_class_name n = Some t \<Longrightarrow> complete t \<and> type_depth t = 0"
  using native_types_simple by (auto simp: by_class_name_def dest!: map_of_SomeD)

lemma read_user_type_names: "read_user_type s i = Some (k, n, raw) \<Longrightarrow> k \<noteq> [] \<and> n \<noteq> []"
  by (auto simp: read_user_type_def split: option.splits if_splits prod.splits)

definition inner_class :: "string \<Rightarrow> string option" where
  "inner_class type = (if is_reversed type \<or> is_frozen type then get_nested_class_name type else Some type)"

lemma parse_one_unfold:
  assumes "inner_class type = Some c" and "get_next_name c 0 = (nxt, i)" and "get_type_params c i = (ok, ps, j)"
  shows "parse_one type =
    (if starts_with nxt LIST_TYPE then
       (if \<not> ok \<or> ps = [] then None
        else map_option (\<lambda>e. Collection_type CASS_VALUE_TYPE_LIST [Some e]) (parse_one (ps ! 0)))
     else if starts_with nxt SET_TYPE then
       (if \<not> ok \<or> ps = [] then None
        else map_option (\<lambda>e. Collection_type CASS_VALUE_TYPE_SET [Some e]) (parse_one (ps ! 0)))
     else if starts_with nxt MAP_TYPE then
       (if \<not> ok \<or> length ps < 2 then None
        else (case (parse_one (ps ! 0), parse_one (ps ! 1)) of
                (Some k, Some v) \<Rightarrow> Some (Collection_type CASS_VALUE_TYPE_MAP [Some k, Some v])
              | _ \<Rightarrow> None))
     else if is_user_type_name nxt then
       (case read_user_type c i of None \<Rightarrow> None
        | Some (k, n, raw) \<Rightarrow>
            map_option (User_type k n) (all_some (map (\<lambda>(f, p). map_option (\<lambda>t. (f, Some t)) (parse_one p)) raw)))
     else if is_tuple_type type then
       (if \<not> ok then None else map_option (\<lambda>ts. Tuple_type (map Some ts)) (all_some (map parse_one ps)))
     else (case by_class_name nxt of Some t \<Rightarrow> Some t | None \<Rightarrow> Some (Custom_type nxt)))"
  unfolding parse_one.simps [of type] inner_class_def [symmetric] assms option.case prod.case
  by (auto simp: map_option_case split: option.split)

lemma inner_class_short: "inner_class type = Some c \<Longrightarrow> length c \<le> length type"
  by (simp only: inner_class_def class_name_short)

lemma parse_one_complete: "parse_one type = Some t \<Longrightarrow> complete t \<and> type_depth t \<le> length type"
proof (induction "length type" arbitrary: type t rule: less_induct)
  case less
  obtain c where c: "inner_class type = Some c"
    using less.prems unfolding parse_one.simps [of type] inner_class_def [symmetric]
    by (cases "inner_class type") simp_all
  obtain nxt i where name: "get_next_name c 0 = (nxt, i)" by force
  obtain ok ps j where ps: "get_type_params c i = (ok, ps, j)" by (metis prod.exhaust)
  have IH: "complete u \<and> type_depth u < length type" if "p \<in> set ps" "parse_one p = Some u" for p u
    using less.hyps [of p u] get_type_params_short [OF ps that(1)] inner_class_short [OF c] that(2) by simp
  note eq = less.prems [unfolded parse_one_unfold [OF c name ps]]
  show ?case
  proof (cases "starts_with nxt LIST_TYPE \<or> starts_with nxt SET_TYPE")
    case True
    then obtain v where "max_sub_types v = Some 1" "ok" "ps \<noteq> []"
      "map_option (\<lambda>e. Collection_type v [Some e]) (parse_one (ps ! 0)) = Some t"
      using eq by (metis max_sub_types.simps(1) max_sub_types.simps(2) option.distinct(1))
    then show ?thesis using IH [of "ps ! 0"] by (auto simp: Suc_le_eq)
  next
    case not_single: False
    show ?thesis
    proof (cases "starts_with nxt MAP_TYPE")
      case True
      with eq not_single obtain k v where kv: "t = Collection_type CASS_VALUE_TYPE_MAP [Some k, Some v]"
        "\<not> length ps < 2" "parse_one (ps ! 0) = Some k" "parse_one (ps ! 1) = Some v"
        by (auto split: if_splits option.splits)
      then have "0 < length ps" "1 < length ps" by linarith+
      then have "ps ! 0 \<in> set ps" "ps ! 1 \<in> set ps" by (simp_all only: nth_mem)
      with IH [OF _ kv(3)] IH [OF _ kv(4)] kv(1) show ?thesis by (simp add: Suc_le_eq)
    next
      case not_map: False
      show ?thesis
      proof (cases "is_user_type_name nxt")
        case True
        with eq not_single not_map obtain k n raw fs where u: "read_user_type c i = Some (k, n, raw)"
          "t = User_type k n fs"
          "all_some (map (\<lambda>(f, p). map_option (\<lambda>t. (f, Some t)) (parse_one p)) raw) = Some fs"
          by (simp split: option.splits prod.splits) blast
        have sub: "complete u \<and> type_depth u < length type" if "(f, p) \<in> set raw" "parse_one p = Some u" for f p u
          using less.hyps [of p u] read_user_type_short [OF u(1) that(1)] inner_class_short [OF c] that(2) by simp
        have maps: "map (\<lambda>(f, p). map_option (\<lambda>t. (f, Some t)) (parse_one p)) raw = map Some fs"
          using u(3) by (simp add: all_some_iff)
        have fields: "\<exists>v. t = Some v \<and> complete v \<and> type_depth v < length type" if "(f, t) \<in> set fs" for f t
        proof -
          have "Some (f, t) \<in> set (map Some fs)" using that by simp
          then obtain g p where p: "(g, p) \<in> set raw" "Some (f, t) = map_option (\<lambda>t. (g, Some t)) (parse_one p)"
            unfolding maps [symmetric] by auto
          then have "(f, p) \<in> set raw" "map_option Some (parse_one p) = Some t"
            by (cases "parse_one p"; simp)+
          then show ?thesis using sub by auto
        qed
        have "0 < length type" using parse_empty [of type] less.prems u(2) by auto
        then have "fields_depth fs < length type" using fields by (intro fields_depth_less) blast+
        then show ?thesis
          using u(2) read_user_type_names [OF u(1)] fields by (fastforce simp: fields_complete_iff Suc_le_eq)
      next
        case not_user: False
        show ?thesis
        proof (cases "is_tuple_type type")
          case True
          with eq not_single not_map not_user obtain ts where
            ts: "t = Tuple_type (map Some ts)" "map parse_one ps = map Some ts"
            by (auto simp: all_some_iff split: if_splits)
          have sub: "complete u \<and> type_depth u < length type" if "u \<in> set ts" for u
          proof -
            have "Some u \<in> set (map Some ts)" using that by simp
            then show ?thesis unfolding ts(2) [symmetric] using IH by auto
          qed
          have "0 < length type" using parse_empty [of type] less.prems ts(1) by auto
          then have "types_depth (map Some ts) < length type" using sub by (intro types_depth_less) blast+
          then show ?thesis using ts(1) sub by (simp add: all_complete_map Suc_le_eq)
        next
          case False
          with eq not_single not_map not_user show ?thesis
            using by_class_name_complete [of nxt] by (auto split: option.splits)
        qed
      qed
    qed
  qed
qed

section \<open>The class name of a type\<close>

text \<open>The names Cassandra gives to types, which the parser reads.\<close>

definition hex_digit :: "nat \<Rightarrow> char" where
  "hex_digit n = ''0123456789abcdef'' ! n"

definition to_hex :: "string \<Rightarrow> string" where
  "to_hex s = concat (map (\<lambda>c. [hex_digit (of_char c div 16), hex_digit (of_char c mod 16)]) s)"

definition native_class :: "value_type \<Rightarrow> string option" where
  "native_class v = map_of (map (\<lambda>(n, v). (v, n)) native_class_types) v"

fun collection_class :: "value_type \<Rightarrow> string" where
  "collection_class CASS_VALUE_TYPE_LIST = LIST_TYPE"
| "collection_class CASS_VALUE_TYPE_SET = SET_TYPE"
| "collection_class _ = MAP_TYPE"

text \<open>
  \<open>rest_string\<close> writes a comma before every type, \<open>drop 1\<close> of it is the list of parameters.
\<close>

fun class_string :: "data_type \<Rightarrow> string"
  and rest_string :: "data_type option list \<Rightarrow> string"
  and fields_string :: "(string \<times> data_type option) list \<Rightarrow> string"
where
  "class_string (Simple_type v) = marshal @ (case native_class v of None \<Rightarrow> [] | Some n \<Rightarrow> n)"
| "class_string (Custom_type c) = c"
| "class_string (Collection_type v ts) = collection_class v @ ''('' @ drop 1 (rest_string ts) @ '')''"
| "class_string (Tuple_type ts) = TUPLE_TYPE @ ''('' @ drop 1 (rest_string ts) @ '')''"
| "class_string (User_type k n fs) = UDT_TYPE @ ''('' @ k @ '','' @ to_hex n @ fields_string fs @ '')''"
| "rest_string [] = []"
| "rest_string (t # ts) = '','' @ (case t of None \<Rightarrow> [] | Some t \<Rightarrow> class_string t) @ rest_string ts"
| "fields_string [] = []"
| "fields_string ((f, t) # fs) =
     '','' @ to_hex f @ '':'' @ (case t of None \<Rightarrow> [] | Some t \<Rightarrow> class_string t) @ fields_string fs"

text \<open>
  A custom class is printable when its name is no name the parser knows. Of the native types
  \<open>varchar\<close> and \<open>varint\<close> have no class of their own here.
\<close>

definition reserved :: "string \<Rightarrow> bool" where
  "reserved c \<longleftrightarrow>
     list_ex (starts_with c)
       [LIST_TYPE, SET_TYPE, MAP_TYPE, UDT_TYPE, TUPLE_TYPE, REVERSED_TYPE, FROZEN_TYPE]"

definition is_identifier :: "string \<Rightarrow> bool" where
  "is_identifier s \<longleftrightarrow> s \<noteq> [] \<and> list_all is_identifier_char s"

fun printable :: "data_type \<Rightarrow> bool"
  and all_printable :: "data_type option list \<Rightarrow> bool"
  and fields_printable :: "(string \<times> data_type option) list \<Rightarrow> bool"
where
  "printable (Simple_type v) = (native_class v \<noteq> None)"
| "printable (Custom_type c) = (is_identifier c \<and> \<not> reserved c \<and> by_class_name c = None)"
| "printable (Collection_type v ts) = (max_sub_types v = Some (length ts) \<and> all_printable ts)"
| "printable (Tuple_type ts) = all_printable ts"
| "printable (User_type k n fs) = (is_identifier k \<and> n \<noteq> [] \<and> fields_printable fs)"
| "all_printable [] = True"
| "all_printable (t # ts) = ((case t of None \<Rightarrow> False | Some t \<Rightarrow> printable t) \<and> all_printable ts)"
| "fields_printable [] = True"
| "fields_printable ((f, t) # fs) = ((case t of None \<Rightarrow> False | Some t \<Rightarrow> printable t) \<and> fields_printable fs)"

section \<open>Reading what was printed\<close>

subsection \<open>Positions\<close>

lemma drop_Cons_nth: "drop i s = c # rest \<Longrightarrow> i < length s \<and> s ! i = c \<and> drop (i + 1) s = rest"
  by (metis Suc_eq_plus1 drop_Suc hd_drop_conv_nth list.sel(1) list.sel(3) not_less drop_all list.simps(3) tl_drop)

lemma drop_append: "drop i s = w @ rest \<Longrightarrow> drop (i + length w) s = rest"
  by (metis append_eq_conv_conj drop_drop add.commute)

lemma skip_no_blank: "drop i s = c # rest \<Longrightarrow> \<not> is_blank c \<Longrightarrow> skip_blank s i = i"
  by (simp add: skip_blank_def)

lemma identifier_not_blank: "is_identifier_char c \<Longrightarrow> \<not> is_blank c"
  by (auto simp: is_identifier_char_def is_blank_def Let_def)

lemma comma_at:
  "drop i s = CHR '','' # c # rest \<Longrightarrow> c \<noteq> CHR '','' \<Longrightarrow> \<not> is_blank c \<Longrightarrow>
   skip_blank_and_comma s i = (True, i + 1)"
  using drop_Cons_nth [of i s "CHR '',''" "c # rest"] drop_Cons_nth [of "i + 1" s c rest]
  by (simp add: skip_blank_and_comma_def skip_blank_and_comma_from.simps [of s i]
      skip_blank_and_comma_from.simps [of s "i + 1"] skip_blank_and_comma_from.simps [of s "Suc i"])

lemma no_comma_at:
  "drop i s = c # rest \<Longrightarrow> c \<noteq> CHR '','' \<Longrightarrow> \<not> is_blank c \<Longrightarrow> skip_blank_and_comma s i = (True, i)"
  using drop_Cons_nth [of i s c rest]
  by (simp add: skip_blank_and_comma_def skip_blank_and_comma_from.simps [of s i])

subsection \<open>Names and arguments\<close>

lemma read_name:
  "drop i s = w @ c # rest \<Longrightarrow> list_all is_identifier_char w \<Longrightarrow> \<not> is_identifier_char c \<Longrightarrow>
   read_next_identifier s i = (w, i + length w)"
  by (simp add: read_next_identifier_def list_all_iff takeWhile_append2)

lemma read_name_end:
  "drop i s = w \<Longrightarrow> list_all is_identifier_char w \<Longrightarrow> read_next_identifier s i = (w, i + length w)"
  by (simp add: read_next_identifier_def Let_def list_all_iff) (metis takeWhile_eq_all_conv)

text \<open>A string with balanced parentheses is passed on the way to the closing one.\<close>

definition balanced :: "string \<Rightarrow> bool" where
  "balanced w \<longleftrightarrow>
     (\<forall>s i n rest. drop (i + 1) s = w @ rest \<longrightarrow>
        close_arguments s i (Suc n) = close_arguments s (i + length w) (Suc n))"

lemma balanced_Nil [simp]: "balanced []"
  by (simp add: balanced_def)

lemma balanced_append: "balanced u \<Longrightarrow> balanced v \<Longrightarrow> balanced (u @ v)"
  unfolding balanced_def
proof (intro allI impI)
  fix s :: string and i n rest
  assume u: "\<forall>s i n rest. drop (i + 1) s = u @ rest \<longrightarrow> close_arguments s i (Suc n) = close_arguments s (i + length u) (Suc n)"
    and v: "\<forall>s i n rest. drop (i + 1) s = v @ rest \<longrightarrow> close_arguments s i (Suc n) = close_arguments s (i + length v) (Suc n)"
    and s: "drop (i + 1) s = (u @ v) @ rest"
  then have "drop (i + length u + 1) s = v @ rest"
    using drop_append [of "i + 1" s u "v @ rest"] by (simp add: ac_simps)
  with u v s show "close_arguments s i (Suc n) = close_arguments s (i + length (u @ v)) (Suc n)"
    by (simp add: ac_simps) 
qed

lemma close_step:
  "drop (i + 1) s = c # rest \<Longrightarrow>
   close_arguments s i (Suc n) =
     close_arguments s (i + 1) (if c = CHR ''('' then Suc n + 1 else if c = CHR '')'' then n else Suc n)"
  using drop_Cons_nth [of "i + 1" s c rest] by (subst close_arguments.simps) simp

lemma balanced_char: "c \<noteq> CHR ''('' \<Longrightarrow> c \<noteq> CHR '')'' \<Longrightarrow> balanced [c]"
  unfolding balanced_def using close_step by fastforce

lemma balanced_word: "list_all (\<lambda>c. c \<noteq> CHR ''('' \<and> c \<noteq> CHR '')'') w \<Longrightarrow> balanced w"
proof (induction w)
  case (Cons c w)
  then show ?case using balanced_append [of "[c]" w] balanced_char by simp
qed simp

lemma balanced_parentheses: "balanced w \<Longrightarrow> balanced (''('' @ w @ '')'')"
  unfolding balanced_def
proof (intro allI impI)
  fix s :: string and i n rest
  assume w: "\<forall>s i n rest. drop (i + 1) s = w @ rest \<longrightarrow> close_arguments s i (Suc n) = close_arguments s (i + length w) (Suc n)"
    and s: "drop (i + 1) s = (''('' @ w @ '')'') @ rest"
  have inner: "drop (i + 1 + 1) s = w @ CHR '')'' # rest"
    using drop_Cons_nth [of "i + 1" s "CHR ''(''" "w @ CHR '')'' # rest"] s by simp
  have "close_arguments s i (Suc n) = close_arguments s (i + 1) (Suc (Suc n))"
    using close_step [of i s "CHR ''(''" "w @ CHR '')'' # rest"] s by simp
  also have "\<dots> = close_arguments s (i + 1 + length w) (Suc (Suc n))"
    using w [rule_format, OF inner] by simp
  also have "drop (i + 1 + length w + 1) s = CHR '')'' # rest"
    using drop_append [OF inner] by (simp add: ac_simps)
  then have "close_arguments s (i + 1 + length w) (Suc (Suc n)) = close_arguments s (i + 1 + length w + 1) (Suc n)"
    using close_step [of "i + 1 + length w" s "CHR '')''" rest "Suc n"] by simp
  finally show "close_arguments s i (Suc n) = close_arguments s (i + length (''('' @ w @ '')'')) (Suc n)"
    by (simp add: ac_simps)
qed

lemma identifier_balanced: "list_all is_identifier_char w \<Longrightarrow> balanced w"
  by (rule balanced_word) (auto simp: list_all_iff is_identifier_char_def Let_def)

text \<open>The arguments with the characters that \<open>substr\<close> takes too many.\<close>

lemma read_arguments:
  assumes "drop i s = ''('' @ w @ '')'' @ rest" and "balanced w"
  shows "\<exists>junk. read_raw_arguments s i = Some (''('' @ w @ '')'' @ junk, i + length w + 2)"
proof -
  have i: "i < length s" "s ! i = CHR ''(''" "drop (i + 1) s = w @ CHR '')'' # rest"
    using drop_Cons_nth [of i s "CHR ''(''" "w @ CHR '')'' # rest"] assms(1) by simp_all
  have skip: "skip_blank s i = i" using skip_no_blank [of i s] assms(1) by (simp add: is_blank_def)
  have "close_arguments s i 1 = close_arguments s (i + length w) (Suc 0)"
    using assms(2) i(3) unfolding balanced_def by (metis One_nat_def)
  also have "drop (i + length w + 1) s = CHR '')'' # rest"
    using drop_append [OF i(3)] by (simp add: ac_simps)
  then have "close_arguments s (i + length w) (Suc 0) = close_arguments s (i + length w + 1) 0"
    using close_step [of "i + length w" s "CHR '')''" rest 0] by simp
  also have "\<dots> = Some (i + length w + 1)" by (simp add: close_arguments.simps)
  finally have "read_raw_arguments s i = Some (take (i + length w + 2) (drop i s), i + length w + 2)"
    using i by (simp add: read_raw_arguments_def skip)
  moreover have "take (i + length w + 2) (drop i s) = ''('' @ w @ '')'' @ take i rest"
    using assms(1) by simp
  ultimately show ?thesis by auto
qed

lemma read_no_arguments:
  "drop i s = c # rest \<Longrightarrow> c = CHR '')'' \<or> c = CHR '','' \<Longrightarrow> read_raw_arguments s i = Some ([], i)"
  using drop_Cons_nth [of i s c rest] skip_no_blank [of i s c rest]
  by (auto simp: read_raw_arguments_def is_blank_def)

subsection \<open>Hexadecimal names\<close>

lemma hex_digits:
  assumes "n < 16"
  shows "is_identifier_char (hex_digit n)" and "hex_value (hex_digit n) = int n"
proof -
  have "list_all (\<lambda>n. is_identifier_char (hex_digit n) \<and> hex_value (hex_digit n) = int n) [0..<16]"
    by code_simp
  then show "is_identifier_char (hex_digit n)" "hex_value (hex_digit n) = int n"
    using assms by (simp_all add: list_all_iff)
qed

lemma char_halves: "(of_char c :: nat) div 16 < 16 \<and> (of_char c :: nat) mod 16 < 16"
  using nat_of_char_less_256 [of c] by (simp add: less_mult_imp_div_less)

lemma to_hex_identifier: "list_all is_identifier_char (to_hex s)"
  using hex_digits char_halves by (induction s) (simp_all add: to_hex_def)

lemma length_to_hex: "length (to_hex s) = 2 * length s"
  by (induction s) (simp_all add: to_hex_def)

lemma from_to_hex: "from_hex (to_hex s) = Some s"
proof -
  have "from_hex_pairs (to_hex s) = Some s"
  proof (induction s)
    case (Cons c s)
    have "nat (int (of_char c div 16) * 16 + int (of_char c mod 16)) = (of_char c :: nat)"
      by (metis div_mult_mod_eq nat_int of_nat_add of_nat_mult of_nat_numeral)
    then show ?case
      using Cons hex_digits char_halves [of c] by (simp add: to_hex_def)
  qed (simp add: to_hex_def)
  then show ?thesis by (simp add: from_hex_def length_to_hex)
qed

subsection \<open>The shape of a class name\<close>

fun class_head :: "data_type \<Rightarrow> string" where
  "class_head (Simple_type v) = class_string (Simple_type v)"
| "class_head (Custom_type c) = c"
| "class_head (Collection_type v ts) = collection_class v"
| "class_head (Tuple_type ts) = TUPLE_TYPE"
| "class_head (User_type k n fs) = UDT_TYPE"

fun class_args :: "data_type \<Rightarrow> string option" where
  "class_args (Collection_type v ts) = Some (drop 1 (rest_string ts))"
| "class_args (Tuple_type ts) = Some (drop 1 (rest_string ts))"
| "class_args (User_type k n fs) = Some (k @ '','' @ to_hex n @ fields_string fs)"
| "class_args _ = None"

lemma class_split:
  "class_string t = class_head t @ (case class_args t of None \<Rightarrow> [] | Some w \<Rightarrow> ''('' @ w @ '')'')"
  by (cases t) simp_all

lemma marshal_identifier: "list_all is_identifier_char marshal" "marshal \<noteq> []"
  by (simp_all add: marshal_def is_identifier_char_def)

lemma class_names_identifiers:
  "list_all is_identifier_char LIST_TYPE" "list_all is_identifier_char SET_TYPE"
  "list_all is_identifier_char MAP_TYPE" "list_all is_identifier_char UDT_TYPE"
  "list_all is_identifier_char TUPLE_TYPE"
  by (simp_all add: LIST_TYPE_def SET_TYPE_def MAP_TYPE_def UDT_TYPE_def TUPLE_TYPE_def
      marshal_identifier is_identifier_char_def)

lemma collection_class_identifier: "list_all is_identifier_char (collection_class v) \<and> collection_class v \<noteq> []"
proof -
  have "LIST_TYPE \<noteq> []" "SET_TYPE \<noteq> []" "MAP_TYPE \<noteq> []"
    by (simp_all add: LIST_TYPE_def SET_TYPE_def MAP_TYPE_def)
  then show ?thesis by (cases v) (simp_all add: class_names_identifiers)
qed

lemma native_identifiers: "list_all (\<lambda>(n, v). list_all is_identifier_char n) native_class_types"
  by (simp add: native_class_types_def is_identifier_char_def)

lemma native_class_identifier: "native_class v = Some n \<Longrightarrow> list_all is_identifier_char n"
  using native_identifiers by (fastforce simp: native_class_def list_all_iff dest!: map_of_SomeD)

lemma class_head_identifier: "printable t \<Longrightarrow> is_identifier (class_head t)"
proof -
  have "TUPLE_TYPE \<noteq> []" "UDT_TYPE \<noteq> []" by (simp_all add: TUPLE_TYPE_def UDT_TYPE_def)
  then show "printable t \<Longrightarrow> is_identifier (class_head t)"
    by (cases t)
      (auto simp: is_identifier_def class_names_identifiers marshal_identifier native_class_identifier
        collection_class_identifier)
qed

lemma class_string_balanced:
  "printable t \<Longrightarrow> balanced (class_string t)"
  "all_printable ts \<Longrightarrow> balanced (rest_string ts) \<and> balanced (drop 1 (rest_string ts))"
  "fields_printable fs \<Longrightarrow> balanced (fields_string fs)"
proof (induction t and ts and fs rule: printable_all_printable_fields_printable.induct)
  case (1 v)
  then show ?case
    using class_head_identifier [of "Simple_type v"] by (simp add: is_identifier_def identifier_balanced)
next
  case (2 c)
  then show ?case by (simp add: is_identifier_def identifier_balanced)
next
  case (3 v ts)
  then show ?case
    using class_head_identifier [of "Collection_type v ts"]
      balanced_append [OF _ balanced_parentheses, of "collection_class v" "drop 1 (rest_string ts)"]
    by (simp add: is_identifier_def identifier_balanced)
next
  case (4 ts)
  then show ?case
    using balanced_append [OF identifier_balanced [OF class_names_identifiers(5)] balanced_parentheses, of "drop 1 (rest_string ts)"]
    by simp
next
  case (5 k n fs)
  have b: "balanced (k @ [CHR '',''] @ to_hex n @ fields_string fs)"
    using 5 identifier_balanced [of k] identifier_balanced [OF to_hex_identifier]
    by (intro balanced_append balanced_char) (simp_all add: is_identifier_def)
  show ?case
    using balanced_append [OF identifier_balanced [OF class_names_identifiers(4)] balanced_parentheses [OF b]] by simp
next
  case (7 t ts)
  then obtain u where u: "t = Some u" "balanced (class_string u)" "balanced (rest_string ts)"
    by (auto split: option.splits)
  then have "balanced ([CHR '',''] @ class_string u @ rest_string ts)"
    by (intro balanced_append balanced_char) simp_all
  moreover have "balanced (class_string u @ rest_string ts)" using u by (intro balanced_append)
  ultimately show ?case using u by simp
next
  case (9 f t fs)
  then obtain u where u: "t = Some u" "balanced (class_string u)" "balanced (fields_string fs)"
    by (auto split: option.splits)
  then have "balanced ([CHR '',''] @ to_hex f @ [CHR '':''] @ class_string u @ fields_string fs)"
    using identifier_balanced [OF to_hex_identifier] by (intro balanced_append balanced_char) simp_all
  then show ?case using u by simp
qed simp_all

lemma class_args_balanced: "printable t \<Longrightarrow> class_args t = Some w \<Longrightarrow> balanced w"
proof (cases t)
  case (User_type k n fs)
  assume p: "printable t" and w: "class_args t = Some w"
  have "balanced (k @ [CHR '',''] @ to_hex n @ fields_string fs)"
    using p User_type class_string_balanced(3) [of fs] identifier_balanced [of k]
      identifier_balanced [OF to_hex_identifier]
    by (intro balanced_append balanced_char) (simp_all add: is_identifier_def)
  then show ?thesis using w User_type by simp
qed (use class_string_balanced(2) in auto)

text \<open>
  A parameter read from a class name: the name of the type, with more characters behind its
  closing parenthesis when it has one.
\<close>

definition param_of :: "data_type option \<Rightarrow> string \<Rightarrow> bool" where
  "param_of t p \<longleftrightarrow>
     (\<exists>u junk. t = Some u \<and> p = class_string u @ junk \<and> (junk = [] \<or> class_args u \<noteq> None))"

lemma read_one_class:
  assumes "drop i s = class_string t @ c # rest" and "c = CHR '')'' \<or> c = CHR '',''" and "printable t"
  shows "\<exists>p. read_one s i = Some (p, i + length (class_string t)) \<and> param_of (Some t) p"
proof -
  have head: "list_all is_identifier_char (class_head t)" "class_head t \<noteq> []"
    using class_head_identifier [OF assms(3)] by (simp_all add: is_identifier_def)
  obtain a as where a: "class_head t = a # as" "\<not> is_blank a"
    using head by (cases "class_head t") (simp_all add: identifier_not_blank)
  have skip: "skip_blank s i = i"
    using skip_no_blank [of i s a] assms(1) a by (simp add: class_split [of t])
  show ?thesis
  proof (cases "class_args t")
    case None
    then have s: "drop i s = class_head t @ c # rest" using assms(1) by (simp add: class_split [of t])
    have "\<not> is_identifier_char c" using assms(2) by (auto simp: is_identifier_char_def)
    with read_name [OF s head(1)] have "get_next_name s i = (class_head t, i + length (class_head t))"
      by (simp add: get_next_name_def skip)
    moreover have "read_raw_arguments s (i + length (class_head t)) = Some ([], i + length (class_head t))"
      using read_no_arguments [OF drop_append [OF s]] assms(2) by simp
    ultimately have "read_one s i = Some (class_head t, i + length (class_head t))"
      by (simp add: read_one_def)
    then show ?thesis using None by (auto simp: param_of_def class_split [of t])
  next
    case (Some w)
    then have s: "drop i s = class_head t @ CHR ''('' # (w @ '')'' @ c # rest)"
      using assms(1) by (simp add: class_split [of t])
    have "\<not> is_identifier_char (CHR ''('')" by (simp add: is_identifier_char_def)
    with read_name [OF s head(1)] have name: "get_next_name s i = (class_head t, i + length (class_head t))"
      by (simp add: get_next_name_def skip)
    have "drop (i + length (class_head t)) s = ''('' @ w @ '')'' @ c # rest"
      using drop_append [OF s] by simp
    from read_arguments [OF this class_args_balanced [OF assms(3) Some]] obtain junk where
      "read_raw_arguments s (i + length (class_head t)) =
        Some (''('' @ w @ '')'' @ junk, i + length (class_head t) + length w + 2)" by blast
    with name have "read_one s i = Some (class_string t @ junk, i + length (class_string t))"
      using Some by (simp add: read_one_def class_split [of t])
    then show ?thesis using Some by (auto simp: param_of_def)
  qed
qed

subsection \<open>Lists of parameters\<close>

lemma class_string_first:
  assumes "printable t"
  shows "\<exists>a as. class_string t = a # as \<and> is_identifier_char a"
  using class_head_identifier [OF assms]
  by (cases "class_head t") (auto simp: is_identifier_def class_split [of t])

lemma identifier_char_not:
  "is_identifier_char a \<Longrightarrow> a \<noteq> CHR '','' \<and> a \<noteq> CHR '')'' \<and> a \<noteq> CHR ''('' \<and> a \<noteq> CHR '':'' \<and> \<not> is_blank a"
  by (auto simp: is_identifier_char_def is_blank_def)

lemma rest_string_first:
  "\<exists>c rest'. rest_string ts @ '')'' @ rest = c # rest' \<and> (c = CHR '')'' \<or> c = CHR '','')"
  by (cases ts) auto

lemma fields_string_first:
  "\<exists>c rest'. fields_string fs @ '')'' @ rest = c # rest' \<and> (c = CHR '')'' \<or> c = CHR '','')"
  by (cases fs) auto

lemma type_params_step:
  assumes "skip_blank_and_comma s i = (True, k)" and "drop k s = class_string u @ rest_string ts @ '')'' @ rest"
    and "printable u"
  shows "\<exists>p. param_of (Some u) p \<and>
    type_params_loop s i acc = type_params_loop s (k + length (class_string u)) (acc @ [p])"
proof -
  obtain c rest' where c: "drop k s = class_string u @ c # rest'" "c = CHR '')'' \<or> c = CHR '',''"
    using rest_string_first [of ts rest] assms(2) by auto
  from read_one_class [OF this assms(3)] obtain p where
    p: "read_one s k = Some (p, k + length (class_string u))" "param_of (Some u) p" by blast
  obtain a as where a: "class_string u = a # as" "is_identifier_char a"
    using class_string_first [OF assms(3)] by blast
  then have "s ! k \<noteq> CHR '')''"
    using drop_Cons_nth [of k s a] c(1) identifier_char_not by auto
  with assms(1) p(1) have "type_params_loop s i acc = type_params_loop s (k + length (class_string u)) (acc @ [p])"
    by (subst type_params_loop.simps) simp
  with p(2) show ?thesis by blast
qed

lemma type_params_rest:
  "drop i s = rest_string ts @ '')'' @ rest \<Longrightarrow> all_printable ts \<Longrightarrow>
   \<exists>ps j. list_all2 param_of ts ps \<and> type_params_loop s i acc = (True, acc @ ps, j)"
proof (induction ts arbitrary: i acc)
  case Nil
  then have "drop i s = CHR '')'' # rest" by simp
  then have "skip_blank_and_comma s i = (True, i)" "s ! i = CHR '')''"
    using no_comma_at [of i s "CHR '')''"] drop_Cons_nth [of i s "CHR '')''" rest] by (simp_all add: is_blank_def)
  then show ?case by (subst type_params_loop.simps) simp
next
  case (Cons t ts)
  then obtain u where u: "t = Some u" "printable u" "all_printable ts" by (auto split: option.splits)
  obtain a as where a: "class_string u = a # as" "is_identifier_char a"
    using class_string_first [OF u(2)] by blast
  have s: "drop i s = CHR '','' # class_string u @ rest_string ts @ '')'' @ rest"
    using Cons.prems(1) u by simp
  have skip: "skip_blank_and_comma s i = (True, i + 1)"
    using comma_at [of i s a] s a identifier_char_not [OF a(2)] by simp
  have s1: "drop (i + 1) s = class_string u @ rest_string ts @ '')'' @ rest"
    using drop_Cons_nth [OF s] by simp
  from type_params_step [OF skip s1 u(2)] obtain p where
    p: "param_of t p" "type_params_loop s i acc = type_params_loop s (i + 1 + length (class_string u)) (acc @ [p])"
    using u(1) by metis
  from Cons.IH [OF drop_append [OF s1] u(3)] obtain ps j where
    "list_all2 param_of ts ps" "type_params_loop s (i + 1 + length (class_string u)) (acc @ [p]) = (True, (acc @ [p]) @ ps, j)"
    by blast
  then show ?case using p by (intro exI [of _ "p # ps"]) auto
qed

lemma type_params_printed:
  assumes "drop i s = ''('' @ drop 1 (rest_string ts) @ '')'' @ rest" and "all_printable ts"
  shows "\<exists>ps j. list_all2 param_of ts ps \<and> get_type_params s i = (True, ps, j)"
proof -
  have i: "i < length s" "s ! i = CHR ''(''" "drop (i + 1) s = drop 1 (rest_string ts) @ '')'' @ rest"
    using drop_Cons_nth [of i s "CHR ''(''"] assms(1) by auto
  then have get: "get_type_params s i = type_params_loop s (i + 1) []" by (simp add: get_type_params_def)
  show ?thesis
  proof (cases ts)
    case Nil
    with type_params_rest [of "i + 1" s "[]" rest "[]"] i get show ?thesis by simp
  next
    case (Cons t us)
    then obtain u where u: "t = Some u" "printable u" "all_printable us"
      using assms(2) by (auto split: option.splits)
    obtain a as where a: "class_string u = a # as" "is_identifier_char a"
      using class_string_first [OF u(2)] by blast
    have s1: "drop (i + 1) s = class_string u @ rest_string us @ '')'' @ rest"
      using i(3) Cons u(1) by simp
    have skip: "skip_blank_and_comma s (i + 1) = (True, i + 1)"
      using no_comma_at [of "i + 1" s a] s1 a identifier_char_not [OF a(2)] by simp
    from type_params_step [OF skip s1 u(2)] obtain p where
      p: "param_of t p" "type_params_loop s (i + 1) [] = type_params_loop s (i + 1 + length (class_string u)) [p]"
      using u(1) by (metis append_Nil)
    from type_params_rest [OF drop_append [OF s1] u(3)] obtain ps j where
      "list_all2 param_of us ps" "type_params_loop s (i + 1 + length (class_string u)) [p] = (True, [p] @ ps, j)"
      by blast
    then show ?thesis using p get Cons by (intro exI [of _ "p # ps"]) auto
  qed
qed

subsection \<open>Fields\<close>

definition field_of :: "string \<times> data_type option \<Rightarrow> string \<times> string \<Rightarrow> bool" where
  "field_of f p \<longleftrightarrow> fst p = fst f \<and> param_of (snd f) (snd p)"

lemma hex_first: "\<exists>c rest'. to_hex f @ CHR '':'' # rest = c # rest' \<and> c \<noteq> CHR '','' \<and> c \<noteq> CHR '')'' \<and> \<not> is_blank c"
  using to_hex_identifier [of f] identifier_char_not by (cases "to_hex f") (auto simp: is_blank_def)

lemma name_params_step:
  assumes "skip_blank_and_comma s i = (True, k)"
    and "drop k s = to_hex f @ '':'' @ class_string u @ fields_string fs @ '')'' @ rest" and "printable u"
  shows "\<exists>p j. param_of (Some u) p \<and> drop j s = fields_string fs @ '')'' @ rest \<and>
    name_and_type_params_loop s i acc = name_and_type_params_loop s j (acc @ [(f, p)])"
proof -
  let ?j = "k + length (to_hex f)"
  have hex: "read_next_identifier s k = (to_hex f, ?j)"
    using read_name [of k s "to_hex f" "CHR '':''"] assms(2) to_hex_identifier by (simp add: is_identifier_char_def)
  have colon: "drop ?j s = CHR '':'' # class_string u @ fields_string fs @ '')'' @ rest"
    using drop_append [OF assms(2)] by simp
  then have j: "skip_blank s ?j = ?j" "char_at s ?j = CHR '':''"
    using skip_no_blank [OF colon] drop_Cons_nth [OF colon] by (simp_all add: is_blank_def char_at_def)
  have s1: "drop (?j + 1) s = class_string u @ fields_string fs @ '')'' @ rest"
    using drop_Cons_nth [OF colon] by simp
  obtain a as where a: "class_string u = a # as" "is_identifier_char a"
    using class_string_first [OF assms(3)] by blast
  then have skip: "skip_blank s (?j + 1) = ?j + 1"
    using skip_no_blank [of "?j + 1" s a] s1 identifier_char_not by simp
  obtain c rest' where "drop (?j + 1) s = class_string u @ c # rest'" "c = CHR '')'' \<or> c = CHR '',''"
    using fields_string_first [of fs rest] s1 by auto
  from read_one_class [OF this assms(3)] obtain p where
    p: "read_one s (?j + 1) = Some (p, ?j + 1 + length (class_string u))" "param_of (Some u) p" by blast
  obtain b bs where "drop k s = b # bs" "b \<noteq> CHR '')''" 
    using hex_first [of f "class_string u @ fields_string fs @ '')'' @ rest"] assms(2) by auto
  then have "s ! k \<noteq> CHR '')''" using drop_Cons_nth [of k s b bs] by simp
  then have "name_and_type_params_loop s i acc =
      name_and_type_params_loop s (?j + 1 + length (class_string u)) (acc @ [(f, p)])"
    using assms(1) hex j skip p(1) from_to_hex by (subst name_and_type_params_loop.simps) simp
  with p(2) drop_append [OF s1] show ?thesis by blast
qed

lemma name_params_rest:
  "drop i s = fields_string fs @ '')'' @ rest \<Longrightarrow> fields_printable fs \<Longrightarrow>
   \<exists>ps. list_all2 field_of fs ps \<and> name_and_type_params_loop s i acc = Some (acc @ ps)"
proof (induction fs arbitrary: i acc)
  case Nil
  then have "drop i s = CHR '')'' # rest" by simp
  then have "skip_blank_and_comma s i = (True, i)" "s ! i = CHR '')''"
    using no_comma_at [of i s "CHR '')''"] drop_Cons_nth [of i s "CHR '')''" rest] by (simp_all add: is_blank_def)
  then show ?case by (subst name_and_type_params_loop.simps) simp
next
  case (Cons g fs)
  then obtain f u where u: "g = (f, Some u)" "printable u" "fields_printable fs"
    by (cases g) (auto split: option.splits)
  have s: "drop i s = CHR '','' # to_hex f @ '':'' @ class_string u @ fields_string fs @ '')'' @ rest"
    using Cons.prems(1) u(1) by simp
  have skip: "skip_blank_and_comma s i = (True, i + 1)"
    using comma_at [of i s] hex_first [of f "class_string u @ fields_string fs @ '')'' @ rest"] s by auto
  from name_params_step [OF skip conjunct2 [OF conjunct2 [OF drop_Cons_nth [OF s]]] u(2)] obtain p j where
    p: "param_of (Some u) p" "drop j s = fields_string fs @ '')'' @ rest"
      "name_and_type_params_loop s i acc = name_and_type_params_loop s j (acc @ [(f, p)])" by blast
  from Cons.IH [OF p(2) u(3)] obtain ps where
    "list_all2 field_of fs ps" "name_and_type_params_loop s j (acc @ [(f, p)]) = Some ((acc @ [(f, p)]) @ ps)" by blast
  moreover have "field_of g (f, p)" using p(1) u(1) by (simp add: field_of_def)
  ultimately show ?case using p(3) by (intro exI [of _ "(f, p) # ps"]) auto
qed

text \<open>The caller skips the comma before the first field; the loop would have.\<close>

lemma name_params_skipped:
  assumes "drop i s = fields_string fs @ '')'' @ rest" and "fields_printable fs"
  shows "\<exists>ps. list_all2 field_of fs ps \<and>
    get_name_and_type_params s (snd (skip_blank_and_comma s i)) = Some ps"
proof (cases fs)
  case Nil
  then have s: "drop i s = CHR '')'' # rest" using assms(1) by simp
  then have "skip_blank_and_comma s i = (True, i)" using no_comma_at [of i s "CHR '')''"] by (simp add: is_blank_def)
  then show ?thesis using name_params_rest [OF assms, of "[]"] by (simp add: get_name_and_type_params_def)
next
  case (Cons g gs)
  then obtain f u where u: "g = (f, Some u)" "printable u" "fields_printable gs"
    using assms(2) by (cases g) (auto split: option.splits)
  have s: "drop i s = CHR '','' # to_hex f @ '':'' @ class_string u @ fields_string gs @ '')'' @ rest"
    using assms(1) Cons u(1) by simp
  have skip: "skip_blank_and_comma s i = (True, i + 1)"
    using comma_at [of i s] hex_first [of f "class_string u @ fields_string gs @ '')'' @ rest"] s by auto
  have s1: "drop (i + 1) s = to_hex f @ '':'' @ class_string u @ fields_string gs @ '')'' @ rest"
    using drop_Cons_nth [OF s] by blast
  have "skip_blank_and_comma s (i + 1) = (True, i + 1)"
    using no_comma_at [of "i + 1" s] hex_first [of f "class_string u @ fields_string gs @ '')'' @ rest"] s1 by auto
  from name_params_step [OF this s1 u(2), of "[]"] obtain p j where
    p: "param_of (Some u) p" "drop j s = fields_string gs @ '')'' @ rest"
      "name_and_type_params_loop s (i + 1) [] = name_and_type_params_loop s j [(f, p)]" by auto
  from name_params_rest [OF p(2) u(3)] obtain ps where
    "list_all2 field_of gs ps" "name_and_type_params_loop s j [(f, p)] = Some ([(f, p)] @ ps)" by blast
  moreover have "field_of g (f, p)" using p(1) u(1) by (simp add: field_of_def)
  ultimately show ?thesis using p(3) skip Cons
    by (intro exI [of _ "(f, p) # ps"]) (auto simp: get_name_and_type_params_def)
qed

subsection \<open>One type\<close>

lemma starts_with_marshal: "starts_with (marshal @ a) (marshal @ b) = starts_with a b"
  by (simp add: starts_with_iff)

lemma not_wrapped:
  "\<not> is_reversed (LIST_TYPE @ y)" "\<not> is_frozen (LIST_TYPE @ y)"
  "\<not> is_reversed (SET_TYPE @ y)" "\<not> is_frozen (SET_TYPE @ y)"
  "\<not> is_reversed (MAP_TYPE @ y)" "\<not> is_frozen (MAP_TYPE @ y)"
  "\<not> is_reversed (UDT_TYPE @ y)" "\<not> is_frozen (UDT_TYPE @ y)"
  "\<not> is_reversed (TUPLE_TYPE @ y)" "\<not> is_frozen (TUPLE_TYPE @ y)"
  by (simp_all add: is_reversed_def is_frozen_def LIST_TYPE_def SET_TYPE_def MAP_TYPE_def UDT_TYPE_def
      TUPLE_TYPE_def REVERSED_TYPE_def FROZEN_TYPE_def starts_with_marshal starts_with_iff)

lemma class_tests:
  "starts_with LIST_TYPE LIST_TYPE" "\<not> starts_with SET_TYPE LIST_TYPE" "starts_with SET_TYPE SET_TYPE"
  "\<not> starts_with MAP_TYPE LIST_TYPE" "\<not> starts_with MAP_TYPE SET_TYPE" "starts_with MAP_TYPE MAP_TYPE"
  "\<not> starts_with UDT_TYPE LIST_TYPE" "\<not> starts_with UDT_TYPE SET_TYPE" "\<not> starts_with UDT_TYPE MAP_TYPE"
  "\<not> starts_with TUPLE_TYPE LIST_TYPE" "\<not> starts_with TUPLE_TYPE SET_TYPE"
  "\<not> starts_with TUPLE_TYPE MAP_TYPE" "is_user_type_name UDT_TYPE" "\<not> is_user_type_name TUPLE_TYPE"
  by (simp_all add: is_user_type_name_def LIST_TYPE_def SET_TYPE_def MAP_TYPE_def UDT_TYPE_def
      TUPLE_TYPE_def starts_with_marshal starts_with_iff)

lemma tuple_test: "is_tuple_type (TUPLE_TYPE @ y)"
  by (simp add: is_tuple_type_def starts_with_iff)

lemma native_tests:
  assumes "native_class v = Some n"
  shows "\<not> reserved (marshal @ n)" and "by_class_name (marshal @ n) = Some (Simple_type v)"
proof -
  have "list_all (\<lambda>(n, v). case native_class v of None \<Rightarrow> True
      | Some m \<Rightarrow> \<not> reserved (marshal @ m) \<and> by_class_name (marshal @ m) = Some (Simple_type v)) native_class_types"
    by code_simp
  moreover have "(n, v) \<in> set native_class_types"
    using assms by (auto simp: native_class_def dest!: map_of_SomeD)
  ultimately show "\<not> reserved (marshal @ n)" "by_class_name (marshal @ n) = Some (Simple_type v)"
    using assms by (auto simp: list_all_iff)
qed

lemma parse_name_only:
  assumes "is_identifier c" and "\<not> reserved c"
  shows "parse_one c = (case by_class_name c of Some t \<Rightarrow> Some t | None \<Rightarrow> Some (Custom_type c))"
proof -
  have r: "\<not> is_reversed c" "\<not> is_frozen c" "\<not> starts_with c LIST_TYPE" "\<not> starts_with c SET_TYPE"
    "\<not> starts_with c MAP_TYPE" "\<not> is_user_type_name c" "\<not> is_tuple_type c"
    using assms(2) by (simp_all add: reserved_def is_reversed_def is_frozen_def is_user_type_name_def is_tuple_type_def)
  obtain a as where a: "c = a # as" "\<not> is_blank a"
    using assms(1) by (cases c) (simp_all add: is_identifier_def identifier_not_blank)
  have "skip_blank c 0 = 0" using skip_no_blank [of 0 c a as] a by simp
  then have name: "get_next_name c 0 = (c, length c)"
    using read_name_end [of 0 c c] assms(1) by (simp add: get_next_name_def is_identifier_def)
  obtain ok ps j where "get_type_params c (length c) = (ok, ps, j)" by (metis prod.exhaust)
  from parse_one_unfold [OF _ name this] r show ?thesis by (simp add: inner_class_def)
qed

lemma parse_head:
  assumes "is_identifier h" and "s = h @ CHR ''('' # rest"
  shows "get_next_name s 0 = (h, length h)"
proof -
  obtain a as where a: "h = a # as" "\<not> is_blank a"
    using assms(1) by (cases h) (simp_all add: is_identifier_def identifier_not_blank)
  have "skip_blank s 0 = 0" using skip_no_blank [of 0 s a] a assms(2) by simp
  then show ?thesis
    using read_name [of 0 s h "CHR ''(''" rest] assms
    by (simp add: get_next_name_def is_identifier_def is_identifier_char_def)
qed

lemma heads_identifiers: "is_identifier (collection_class v)" "is_identifier TUPLE_TYPE" "is_identifier UDT_TYPE"
  using collection_class_identifier [of v] class_names_identifiers
  by (simp_all add: is_identifier_def TUPLE_TYPE_def UDT_TYPE_def)

lemma class_string_with_args:
  "class_args t = Some w \<Longrightarrow> class_string t @ junk = class_head t @ CHR ''('' # w @ '')'' @ junk"
  by (simp add: class_split [of t])

lemma parse_params:
  assumes "all_printable ts" and "s = h @ ''('' @ drop 1 (rest_string ts) @ '')'' @ junk" and "is_identifier h"
  obtains ps j where "list_all2 param_of ts ps" "get_next_name s 0 = (h, length h)"
    "get_type_params s (length h) = (True, ps, j)"
proof -
  have "drop (length h) s = ''('' @ drop 1 (rest_string ts) @ '')'' @ junk" using assms(2) by simp
  from type_params_printed [OF this assms(1)] obtain ps j where
    "list_all2 param_of ts ps" "get_type_params s (length h) = (True, ps, j)" by blast
  moreover have "get_next_name s 0 = (h, length h)" using parse_head [OF assms(3)] assms(2) by simp
  ultimately show ?thesis using that by blast
qed

lemma read_user_type_printed:
  assumes "is_identifier k" and "n \<noteq> []" and "fields_printable fs"
    and "drop i s = ''('' @ k @ '','' @ to_hex n @ fields_string fs @ '')'' @ rest"
  shows "\<exists>raw. list_all2 field_of fs raw \<and> read_user_type s i = Some (k, n, raw)"
proof -
  let ?a = "i + 1 + length k"
  have s1: "drop (i + 1) s = k @ CHR '','' # to_hex n @ fields_string fs @ '')'' @ rest"
    using drop_Cons_nth [of i s "CHR ''(''"] assms(4) by simp
  obtain a as where a: "k = a # as" "\<not> is_blank a"
    using assms(1) by (cases k) (simp_all add: is_identifier_def identifier_not_blank)
  have skip: "skip_blank s (i + 1) = i + 1" using skip_no_blank [of "i + 1" s a] s1 a by simp
  have "\<not> is_identifier_char (CHR '','')" by (simp add: is_identifier_char_def)
  with read_name [OF s1] assms(1) have "get_next_name s (i + 1) = (k, ?a)"
    unfolding get_next_name_def skip by (simp add: is_identifier_def)
  moreover have s2: "drop ?a s = CHR '','' # to_hex n @ fields_string fs @ '')'' @ rest"
    using drop_append [OF s1] .
  ultimately have ks: "read_one s (i + 1) = Some (k, ?a)"
    using read_no_arguments [OF s2] by (simp add: read_one_def)
  have s3: "drop (?a + 1) s = to_hex n @ fields_string fs @ '')'' @ rest" using drop_Cons_nth [OF s2] by blast
  obtain b bs where b: "to_hex n = b # bs" "is_identifier_char b"
    using assms(2) to_hex_identifier [of n] length_to_hex [of n] by (cases "to_hex n") auto
  have comma: "skip_blank_and_comma s ?a = (True, ?a + 1)"
    using comma_at [of ?a s b] s2 b identifier_char_not [OF b(2)] by simp
  obtain c rest' where c: "drop (?a + 1) s = to_hex n @ c # rest'" "c = CHR '')'' \<or> c = CHR '',''"
    using fields_string_first [of fs rest] s3 by auto
  have "skip_blank s (?a + 1) = ?a + 1"
    using skip_no_blank [of "?a + 1" s b] s3 b identifier_not_blank by simp
  moreover have "\<not> is_identifier_char c" using c(2) by (auto simp: is_identifier_char_def)
  ultimately have "get_next_name s (?a + 1) = (to_hex n, ?a + 1 + length (to_hex n))"
    using read_name [OF c(1) to_hex_identifier] by (simp add: get_next_name_def)
  moreover have "read_raw_arguments s (?a + 1 + length (to_hex n)) = Some ([], ?a + 1 + length (to_hex n))"
    using read_no_arguments [OF drop_append [OF c(1)] c(2)] .
  ultimately have hex: "read_one s (?a + 1) = Some (to_hex n, ?a + 1 + length (to_hex n))"
    by (simp add: read_one_def)
  from name_params_skipped [OF drop_append [OF s3] assms(3)] obtain raw where
    "list_all2 field_of fs raw"
    "get_name_and_type_params s (snd (skip_blank_and_comma s (?a + 1 + length (to_hex n)))) = Some raw" by blast
  then show ?thesis
    using ks comma hex assms(1, 2) from_to_hex by (simp add: read_user_type_def is_identifier_def)
qed

lemma parse_printed:
  "printable t \<Longrightarrow> junk = [] \<or> class_args t \<noteq> None \<Longrightarrow> parse_one (class_string t @ junk) = Some t"
  "all_printable ts \<Longrightarrow> list_all2 param_of ts ps \<Longrightarrow> map parse_one ps = ts"
  "fields_printable fs \<Longrightarrow> list_all2 field_of fs raw \<Longrightarrow>
   map (\<lambda>(f, p). map_option (\<lambda>t. (f, Some t)) (parse_one p)) raw = map Some fs"
proof (induction t and ts and fs arbitrary: junk and ps and raw
    rule: printable_all_printable_fields_printable.induct)
  case (1 v)
  then obtain n where n: "native_class v = Some n" by auto
  have "is_identifier (marshal @ n)"
    using marshal_identifier native_class_identifier [OF n] by (simp add: is_identifier_def)
  then show ?case using parse_name_only native_tests [OF n] n 1 by simp
next
  case (2 c)
  then show ?case using parse_name_only [of c] by simp
next
  case (3 v ts)
  have p: "all_printable ts" "max_sub_types v = Some (length ts)" using "3.prems" by simp_all
  define s where "s = class_string (Collection_type v ts) @ junk"
  then have s: "s = collection_class v @ ''('' @ drop 1 (rest_string ts) @ '')'' @ junk" by simp
  from parse_params [OF p(1) s heads_identifiers(1)] obtain ps j where
    ps: "list_all2 param_of ts ps" "get_next_name s 0 = (collection_class v, length (collection_class v))"
      "get_type_params s (length (collection_class v)) = (True, ps, j)" by blast
  have len: "length ps = length ts" using ps(1) by (simp add: list_all2_lengthD)
  have maps: "map parse_one ps = ts" using "3.IH" p(1) ps(1) by blast
  then have nth: "parse_one (ps ! i) = ts ! i" if "i < length ts" for i using that len by (metis nth_map)
  have "inner_class s = Some s"
    using s not_wrapped by (cases v) (simp_all add: inner_class_def)
  note eq = parse_one_unfold [OF this ps(2, 3)]
  have some: "\<exists>u. t = Some u" if "t \<in> set ts" for t
    using p(1) that by (induction ts) (auto split: option.splits)
  from p(2) consider "v = CASS_VALUE_TYPE_LIST \<or> v = CASS_VALUE_TYPE_SET" "length ts = 1"
    | "v = CASS_VALUE_TYPE_MAP" "length ts = 2" by (auto simp: max_sub_types_Some)
  then show ?case
  proof cases
    case 1
    then obtain u where "ts = [Some u]" using some by (auto simp: length_Suc_conv)
    then show ?thesis
      using eq nth [of 0] len 1(1) class_tests unfolding s_def [symmetric] by auto
  next
    case 2
    then obtain y z where yz: "ts = [y, z]" by (auto simp: length_Suc_conv numeral_2_eq_2)
    with some [of y] some [of z] obtain u w where "ts = [Some u, Some w]" by auto
    then show ?thesis
      using eq nth [of 0] nth [of 1] len 2(1) class_tests unfolding s_def [symmetric] by auto
  qed
next
  case (4 ts)
  define s where "s = class_string (Tuple_type ts) @ junk"
  then have s: "s = TUPLE_TYPE @ ''('' @ drop 1 (rest_string ts) @ '')'' @ junk" by simp
  from parse_params [OF _ s heads_identifiers(2)] "4.prems" obtain ps j where
    ps: "list_all2 param_of ts ps" "get_next_name s 0 = (TUPLE_TYPE, length TUPLE_TYPE)"
      "get_type_params s (length TUPLE_TYPE) = (True, ps, j)" by auto
  have "inner_class s = Some s" using s not_wrapped by (simp add: inner_class_def)
  note eq = parse_one_unfold [OF this ps(2, 3)]
  have maps: "map parse_one ps = ts" using "4.IH" "4.prems" ps(1) by simp
  have "\<exists>us. ts = map Some us"
    using "4.prems" by (auto simp: all_well_formed_iff) (induction ts, auto split: option.splits simp: Cons_eq_map_conv)
  then obtain us where us: "ts = map Some us" by blast
  then have "all_some (map parse_one ps) = Some us" using maps by (simp add: all_some_iff)
  then show ?case
    using eq class_tests tuple_test us s unfolding s_def [symmetric] by simp
next
  case (5 k n fs)
  define s where "s = class_string (User_type k n fs) @ junk"
  then have s: "s = UDT_TYPE @ ''('' @ k @ '','' @ to_hex n @ fields_string fs @ '')'' @ junk" by simp
  have p: "is_identifier k" "n \<noteq> []" "fields_printable fs" using "5.prems" by simp_all
  have "drop (length UDT_TYPE) s = ''('' @ k @ '','' @ to_hex n @ fields_string fs @ '')'' @ junk"
    using s by simp
  from read_user_type_printed [OF p this] obtain raw where
    raw: "list_all2 field_of fs raw" "read_user_type s (length UDT_TYPE) = Some (k, n, raw)" by blast
  have name: "get_next_name s 0 = (UDT_TYPE, length UDT_TYPE)"
    using parse_head [OF heads_identifiers(3)] s by simp
  obtain ok ps j where ps: "get_type_params s (length UDT_TYPE) = (ok, ps, j)" by (metis prod.exhaust)
  have "inner_class s = Some s" using s not_wrapped by (simp add: inner_class_def)
  note eq = parse_one_unfold [OF this name ps]
  have "all_some (map (\<lambda>(f, p). map_option (\<lambda>t. (f, Some t)) (parse_one p)) raw) = Some fs"
    using "5.IH" p(3) raw(1) by (simp add: all_some_iff)
  then show ?case using eq class_tests raw(2) unfolding s_def [symmetric] by simp
next
  case (7 t ts)
  then obtain u where u: "t = Some u" "printable u" "all_printable ts" by (auto split: option.splits)
  from "7.prems"(2) obtain p qs where ps: "ps = p # qs" "param_of t p" "list_all2 param_of ts qs"
    by (auto simp: list_all2_Cons1)
  from ps(2) u(1) obtain junk where "p = class_string u @ junk" "junk = [] \<or> class_args u \<noteq> None"
    by (auto simp: param_of_def)
  then have "parse_one p = t" using "7.IH"(1) [OF u(1, 2)] u(1) by simp
  then show ?case using "7.IH"(2) [OF u(3) ps(3)] ps(1) by simp
next
  case (9 f t fs)
  then obtain u where u: "t = Some u" "printable u" "fields_printable fs" by (auto split: option.splits)
  from "9.prems"(2) obtain x qs where x: "raw = x # qs" "field_of (f, t) x" "list_all2 field_of fs qs"
    by (auto simp: list_all2_Cons1)
  then obtain p where ps: "raw = (f, p) # qs" "param_of t p" "list_all2 field_of fs qs"
    by (cases x) (auto simp: field_of_def)
  from ps(2) u(1) obtain junk where "p = class_string u @ junk" "junk = [] \<or> class_args u \<noteq> None"
    by (auto simp: param_of_def)
  then have "parse_one p = t" using "9.IH"(1) [OF u(1, 2)] u(1) by simp
  then show ?case using "9.IH"(2) [OF u(3) ps(3)] ps(1) u(1) by simp
qed simp_all

section \<open>Wrapped types\<close>

lemma reads_itself: "printable t \<Longrightarrow> junk = [] \<or> class_args t \<noteq> None \<Longrightarrow> inner_class (class_string t @ junk) = Some (class_string t @ junk)"
proof (cases t)
  case (Simple_type v)
  assume "printable t" "junk = [] \<or> class_args t \<noteq> None"
  with Simple_type obtain n where n: "native_class v = Some n" "junk = []" by auto
  then show ?thesis
    using native_tests(1) [OF n(1)] Simple_type
    by (simp add: inner_class_def is_reversed_def is_frozen_def reserved_def)
next
  case (Collection_type v ts)
  then show ?thesis using not_wrapped by (cases v) (simp_all add: inner_class_def)
qed (auto simp: inner_class_def not_wrapped is_reversed_def is_frozen_def reserved_def
    simp flip: is_reversed_def is_frozen_def)

lemma wrapper_names: "is_identifier REVERSED_TYPE" "is_identifier FROZEN_TYPE"
  by (simp_all add: is_identifier_def REVERSED_TYPE_def FROZEN_TYPE_def marshal_identifier is_identifier_char_def)

lemma nested_printed:
  assumes "is_identifier h" and "printable t"
  shows "\<exists>p. get_nested_class_name (h @ ''('' @ class_string t @ '')'') = Some p \<and> param_of (Some t) p"
proof -
  let ?s = "h @ ''('' @ class_string t @ '')''"
  have "?s = h @ ''('' @ drop 1 (rest_string [Some t]) @ '')'' @ []" by simp
  moreover have "all_printable [Some t]" using assms(2) by simp
  ultimately obtain ps j where ps: "list_all2 param_of [Some t] ps" "get_next_name ?s 0 = (h, length h)"
    "get_type_params ?s (length h) = (True, ps, j)" using parse_params [OF _ _ assms(1)] by metis
  then obtain p where "ps = [p]" "param_of (Some t) p" by (auto simp: list_all2_Cons1)
  with ps show ?thesis by (simp add: get_nested_class_name_def)
qed

lemma not_tuple_class:
  "\<not> is_tuple_type (LIST_TYPE @ y)" "\<not> is_tuple_type (SET_TYPE @ y)" "\<not> is_tuple_type (MAP_TYPE @ y)"
  "\<not> is_tuple_type (UDT_TYPE @ y)" "\<not> is_tuple_type (REVERSED_TYPE @ y)" "\<not> is_tuple_type (FROZEN_TYPE @ y)"
  by (simp_all add: is_tuple_type_def LIST_TYPE_def SET_TYPE_def MAP_TYPE_def UDT_TYPE_def TUPLE_TYPE_def
      REVERSED_TYPE_def FROZEN_TYPE_def starts_with_marshal starts_with_iff)

fun is_tuple_class :: "data_type \<Rightarrow> bool" where
  "is_tuple_class (Tuple_type ts) = True"
| "is_tuple_class _ = False"

lemma printed_not_tuple:
  "printable t \<Longrightarrow> junk = [] \<or> class_args t \<noteq> None \<Longrightarrow> \<not> is_tuple_class t \<Longrightarrow> \<not> is_tuple_type (class_string t @ junk)"
proof (cases t)
  case (Simple_type v)
  assume "printable t" "junk = [] \<or> class_args t \<noteq> None"
  with Simple_type obtain n where n: "native_class v = Some n" "junk = []" by auto
  then show ?thesis using native_tests(1) [OF n(1)] Simple_type by (simp add: is_tuple_type_def reserved_def)
next
  case (Collection_type v ts)
  then show ?thesis using not_tuple_class by (cases v) simp_all
qed (auto simp: not_tuple_class reserved_def simp flip: is_tuple_type_def)

lemma parse_wrapped:
  fixes W t
  defines "s \<equiv> W @ ''('' @ class_string t @ '')''"
  assumes "is_identifier W" and t: "printable t" and "is_reversed s \<or> is_frozen s" and "\<not> is_tuple_type s"
  shows "parse_one s = (if is_tuple_class t then Some (Custom_type TUPLE_TYPE) else Some t)"
proof -
  obtain p where p: "get_nested_class_name s = Some p" "param_of (Some t) p"
    using nested_printed [OF assms(2) t] unfolding s_def by blast
  then obtain junk where junk: "p = class_string t @ junk" "junk = [] \<or> class_args t \<noteq> None"
    by (auto simp: param_of_def)
  obtain nxt i where name: "get_next_name p 0 = (nxt, i)" by force
  obtain ok ps j where ps: "get_type_params p i = (ok, ps, j)" by (metis prod.exhaust)
  have inner: "inner_class s = Some p" using p(1) assms(4) by (simp add: inner_class_def)
  have self: "inner_class p = Some p" using reads_itself [OF t junk(2)] junk(1) by simp
  note outer = parse_one_unfold [OF inner name ps] and direct = parse_one_unfold [OF self name ps]
  show ?thesis
  proof (cases "is_tuple_class t")
    case True
    then obtain ts where Tuple_type: "t = Tuple_type ts" by (cases t) simp_all
    then have "p = TUPLE_TYPE @ CHR ''('' # drop 1 (rest_string ts) @ '')'' @ junk" using junk(1) by simp
    then have "nxt = TUPLE_TYPE" using parse_head [OF heads_identifiers(2)] name by simp
    moreover have "by_class_name TUPLE_TYPE = None" by code_simp
    ultimately show ?thesis using outer assms(5) class_tests Tuple_type by simp
  next
    case False
    then have "\<not> is_tuple_type p" using printed_not_tuple [OF t junk(2)] junk(1) by simp
    then have "parse_one s = parse_one p" using outer direct assms(5) by simp
    then show ?thesis using parse_printed(1) [OF t junk(2)] junk(1) False by simp
  qed
qed

section \<open>Properties\<close>

text \<open>C23: whatever string is parsed as a class name, the type that comes out is well-formed, every collection in
  it has all its sub-types, and no part of it is null: it can be compared, and is equal to itself.\<close>

theorem parsed_type_well_formed:
  assumes "parse_one type = Some t"
  shows "complete t \<and> well_formed t \<and> data_equals t (Some t) = Some True"
  using parse_one_complete [OF assms] complete_well_formed(1) equals_refl_aux(1) by blast

definition example_type :: data_type where
  "example_type =
     User_type ''ks'' ''address''
       [(''zip'', Some (Collection_type CASS_VALUE_TYPE_LIST [Some (Simple_type CASS_VALUE_TYPE_INT)])),
        ([], Some (Tuple_type [Some (Custom_type ''a.B''), Some (Collection_type CASS_VALUE_TYPE_MAP
           [Some (Simple_type CASS_VALUE_TYPE_TEXT), Some (Simple_type CASS_VALUE_TYPE_UUID)])]))]"

lemma example_printable: "printable example_type"
  by code_simp

theorem parsed_type_well_formed_witness:
  "complete example_type \<and> well_formed example_type \<and> data_equals example_type (Some example_type) = Some True"
  by (rule parsed_type_well_formed [of "class_string example_type"])
    (use parse_printed(1) [OF example_printable, of "[]"] in simp)

text \<open>C13: parsing the class name of a type gives the type back, although every parameter with arguments is
  handed on with characters behind its closing parenthesis.\<close>

theorem class_name_roundtrip:
  assumes "printable t"
  shows "parse_one (class_string t) = Some t"
  using parse_printed(1) [OF assms, of "[]"] by simp

theorem class_name_roundtrip_witness: "parse_one (class_string example_type) = Some example_type"
  by (rule class_name_roundtrip) (rule example_printable)

text \<open>a reversed or frozen type is parsed as the type itself, except a tuple: the test for a tuple looks at
  the name with the wrapper, so that a frozen tuple becomes a custom type and its parts are lost.\<close>

theorem wrapped_tuple_lost:
  assumes "printable t" and "W = REVERSED_TYPE \<or> W = FROZEN_TYPE"
  shows "parse_one (W @ ''('' @ class_string t @ '')'') =
    (if is_tuple_class t then Some (Custom_type TUPLE_TYPE) else Some t)"
  using assms parse_wrapped [OF wrapper_names(1) assms(1)] parse_wrapped [OF wrapper_names(2) assms(1)]
    not_tuple_class(5, 6)
  by (auto simp: is_reversed_def is_frozen_def starts_with_iff)

theorem wrapped_tuple_lost_witness:
  "parse_one (FROZEN_TYPE @ ''('' @ class_string (Tuple_type [Some (Simple_type CASS_VALUE_TYPE_INT)]) @ '')'') =
    (if is_tuple_class (Tuple_type [Some (Simple_type CASS_VALUE_TYPE_INT)]) then Some (Custom_type TUPLE_TYPE)
     else Some (Tuple_type [Some (Simple_type CASS_VALUE_TYPE_INT)]))"
  by (rule wrapped_tuple_lost) (code_simp, simp)

text \<open>C37: parsing a class name ends for every string, with a type or with null; the type is nested no deeper than
  the string is long, because every parameter is strictly shorter than the name it is read from even with
  the characters that are taken too many.\<close>

theorem parse_depth_bounded:
  "case parse_one type of None \<Rightarrow> True | Some t \<Rightarrow> type_depth t \<le> length type"
  using parse_one_complete by (simp split: option.split)

text \<open>A parameter of a CQL list that is no type leaves a null element type in the list.\<close>

lemma cql_null_element:
  "fst (cql_parse ''list<list>'' \<lparr>ks_name = ''ks'', ks_user_types = []\<rparr>) =
   Some (Collection_type CASS_VALUE_TYPE_LIST [None])"
  by code_simp

text \<open>The name of a quoted user type is changed to lower case and keeps its quotes.\<close>

lemma cql_quoted_name:
  "fst (cql_parse (quote_char # ''Address'' @ [quote_char]) \<lparr>ks_name = ''ks'', ks_user_types = []\<rparr>) =
   Some (User_type ''ks'' (quote_char # ''address'' @ [quote_char]) [])"
  by code_simp

end
