(* ===== verification/Values.thy ===== *)
theory Values
  imports Data_Type Buffer
begin

text \<open>
  The values an application binds (\<open>types.hpp\<close>, \<open>encode.hpp\<close>, \<open>collection.hpp\<close>,
  \<open>tuple.hpp\<close>, \<open>abstract_data.hpp\<close>, \<open>user_type_value.hpp\<close> and their .cpp files): their encodings,
  the check of a value against a type, and the containers of values. A collection is an object
  with a reference count that the application, statements and user type values share by pointer,
  so that it lives at an address of a store; tuples and user type values are encoded as soon as
  they are bound and are plain values here. \<open>None\<close> is a failed assertion, a null or dangling
  pointer, a wrong cast or an access out of bounds; \<open>Inl\<close> is an error code returned to the
  application.
\<close>

section \<open>Encoding scalar values\<close>

text \<open>
  The values passed by value, one constructor per overload. \<open>cass_bool_t\<close> is an enumeration of
  two constants; floats are their bit patterns; \<open>CassInet\<close> is an array and the length used of it.
\<close>

datatype scalar =
  Val_int8 byte
| Val_int16 u16
| Val_int32 u32
| Val_uint32 u32
| Val_int64 u64
| Val_float u32
| Val_double u64
| Val_bool bool
| Val_string bytes
| Val_bytes bytes
| Val_uuid cass_uuid
| Val_inet bytes nat
| Val_decimal bytes u32

text \<open>
  A new buffer of size \<open>n\<close> filled by the encoder \<open>f\<close>. Its first content, undefined in the source,
  is zero here; the lemma \<open>fill_writes\<close> shows that no byte of it survives.
\<close>

definition fill :: "nat \<Rightarrow> buffer_op \<Rightarrow> buffer option" where
  "fill n f = map_option snd (f 0 (replicate n 0))"

definition bool_byte :: "bool \<Rightarrow> byte" where
  "bool_byte b = (if b then 1 else 0)"

definition copy_inet :: "bytes \<Rightarrow> nat \<Rightarrow> buffer_op" where
  "copy_inet address len = (if len \<le> length address then buf_copy (take len address) else buf_fail)"

fun encode_value :: "scalar \<Rightarrow> buffer option" where
  "encode_value (Val_int8 v) = fill 1 (buf_encode_int8 v)"
| "encode_value (Val_int16 v) = fill 2 (buf_encode_int16 v)"
| "encode_value (Val_int32 v) = fill 4 (buf_encode_int32 v)"
| "encode_value (Val_uint32 v) = fill 4 (buf_encode_uint32 v)"
| "encode_value (Val_int64 v) = fill 8 (buf_encode_int64 v)"
| "encode_value (Val_float v) = fill 4 (buf_encode_float v)"
| "encode_value (Val_double v) = fill 8 (buf_encode_double v)"
| "encode_value (Val_bool v) = fill 1 (buf_encode_byte (bool_byte v))"
| "encode_value (Val_string s) = fill (length s) (buf_copy s)"
| "encode_value (Val_bytes s) = fill (length s) (buf_copy s)"
| "encode_value (Val_uuid u) = fill 16 (buf_encode_uuid u)"
| "encode_value (Val_inet address len) = fill len (copy_inet address len)"
| "encode_value (Val_decimal varint scale) =
     fill (4 + length varint) (buf_then (buf_encode_int32 scale) (buf_copy varint))"

fun encode_value_with_length :: "scalar \<Rightarrow> buffer option" where
  "encode_value_with_length (Val_int8 v) = fill (4 + 1) (buf_then (buf_encode_int32 1) (buf_encode_int8 v))"
| "encode_value_with_length (Val_int16 v) = fill (4 + 2) (buf_then (buf_encode_int32 2) (buf_encode_int16 v))"
| "encode_value_with_length (Val_int32 v) = fill (4 + 4) (buf_then (buf_encode_int32 4) (buf_encode_int32 v))"
| "encode_value_with_length (Val_uint32 v) = fill (4 + 4) (buf_then (buf_encode_int32 4) (buf_encode_uint32 v))"
| "encode_value_with_length (Val_int64 v) = fill (4 + 8) (buf_then (buf_encode_int32 8) (buf_encode_int64 v))"
| "encode_value_with_length (Val_float v) = fill (4 + 4) (buf_then (buf_encode_int32 4) (buf_encode_float v))"
| "encode_value_with_length (Val_double v) = fill (4 + 8) (buf_then (buf_encode_int32 8) (buf_encode_double v))"
| "encode_value_with_length (Val_bool v) =
     fill (4 + 1) (buf_then (buf_encode_int32 1) (buf_encode_byte (bool_byte v)))"
| "encode_value_with_length (Val_string s) =
     fill (4 + length s) (buf_then (buf_encode_int32 (of_nat (length s))) (buf_copy s))"
| "encode_value_with_length (Val_bytes s) =
     fill (4 + length s) (buf_then (buf_encode_int32 (of_nat (length s))) (buf_copy s))"
| "encode_value_with_length (Val_uuid u) = fill (4 + 16) (buf_then (buf_encode_int32 16) (buf_encode_uuid u))"
| "encode_value_with_length (Val_inet address len) =
     fill (4 + len) (buf_then (buf_encode_int32 (of_nat len)) (copy_inet address len))"
| "encode_value_with_length (Val_decimal varint scale) =
     fill (4 + 4 + length varint)
       (buf_then (buf_encode_int32 (of_nat (4 + length varint)))
         (buf_then (buf_encode_int32 scale) (buf_copy varint)))"

definition encode_null_with_length :: "buffer option" where
  "encode_null_with_length = fill 4 (buf_encode_int32 (- 1))"

definition encode_unset_with_length :: "buffer option" where
  "encode_unset_with_length = fill 4 (buf_encode_int32 (- 2))"

section \<open>Checking a value against a type\<close>

fun scalar_valid :: "scalar \<Rightarrow> value_type \<Rightarrow> bool" where
  "scalar_valid (Val_int8 _) v \<longleftrightarrow> v = CASS_VALUE_TYPE_TINY_INT"
| "scalar_valid (Val_int16 _) v \<longleftrightarrow> v = CASS_VALUE_TYPE_SMALL_INT"
| "scalar_valid (Val_int32 _) v \<longleftrightarrow> v = CASS_VALUE_TYPE_INT"
| "scalar_valid (Val_uint32 _) v \<longleftrightarrow> v = CASS_VALUE_TYPE_DATE"
| "scalar_valid (Val_int64 _) v \<longleftrightarrow> is_int64_type v"
| "scalar_valid (Val_float _) v \<longleftrightarrow> v = CASS_VALUE_TYPE_FLOAT"
| "scalar_valid (Val_double _) v \<longleftrightarrow> v = CASS_VALUE_TYPE_DOUBLE"
| "scalar_valid (Val_bool _) v \<longleftrightarrow> v = CASS_VALUE_TYPE_BOOLEAN"
| "scalar_valid (Val_string _) v \<longleftrightarrow> is_string_type v"
| "scalar_valid (Val_bytes _) v \<longleftrightarrow> is_bytes_type v"
| "scalar_valid (Val_uuid _) v \<longleftrightarrow> is_uuid_type v"
| "scalar_valid (Val_inet _ _) v \<longleftrightarrow> v = CASS_VALUE_TYPE_INET"
| "scalar_valid (Val_decimal _ _) v \<longleftrightarrow> v = CASS_VALUE_TYPE_DECIMAL"

section \<open>The objects\<close>

text \<open>A collection with its reference count; the store of the collections.\<close>

record collection =
  col_refs :: nat
  col_type :: data_type
  col_items :: "buffer list"

type_synonym collections = "nat \<Rightarrow> collection option"

record tuple_value =
  tup_type :: data_type
  tup_items :: "buffer list"

datatype element = Elem_unset | Elem_null buffer | Elem_buffer buffer | Elem_collection nat

record user_type_value =
  udt_type :: data_type
  udt_elements :: "element list"

datatype bound_value =
  Bind_null
| Bind_scalar scalar
| Bind_collection nat
| Bind_tuple tuple_value
| Bind_user_type user_type_value

text \<open>\<open>IsValidDataType\<close> of the type a position has; the pointer to that type may be null.\<close>

definition is_valid_data_type :: "collections \<Rightarrow> bound_value \<Rightarrow> data_type option \<Rightarrow> bool option" where
  "is_valid_data_type heap value t =
     (case value of
        Bind_null \<Rightarrow> Some True
      | Bind_scalar s \<Rightarrow> map_option (\<lambda>d. scalar_valid s (type_value d)) t
      | Bind_collection a \<Rightarrow>
          (case heap a of None \<Rightarrow> None | Some c \<Rightarrow> data_equals (col_type c) t)
      | Bind_tuple v \<Rightarrow> data_equals (tup_type v) t
      | Bind_user_type v \<Rightarrow> data_equals (udt_type v) t)"

section \<open>Reference counts\<close>

definition inc_ref :: "nat \<Rightarrow> collections \<Rightarrow> collections option" where
  "inc_ref a heap =
     (case heap a of None \<Rightarrow> None
      | Some c \<Rightarrow> Some (heap(a \<mapsto> c\<lparr>col_refs := col_refs c + 1\<rparr>)))"

definition dec_ref :: "nat \<Rightarrow> collections \<Rightarrow> collections option" where
  "dec_ref a heap =
     (case heap a of None \<Rightarrow> None
      | Some c \<Rightarrow>
          if col_refs c < 1 then None
          else if col_refs c = 1 then Some (heap(a := None))
          else Some (heap(a \<mapsto> c\<lparr>col_refs := col_refs c - 1\<rparr>)))"

section \<open>Collections\<close>

definition collection_sub_types :: "collection \<Rightarrow> data_type option list option" where
  "collection_sub_types c = as_sub_types (col_type c)"

text \<open>\<open>Collection::check\<close>: \<open>Some None\<close> is \<open>CASS_OK\<close>.\<close>

definition collection_check :: "collections \<Rightarrow> collection \<Rightarrow> bound_value \<Rightarrow> lib_error option option" where
  "collection_check heap c value =
     (let index = length (col_items c); v = type_value (col_type c) in
      if v = CASS_VALUE_TYPE_MAP then
        (case collection_sub_types c of None \<Rightarrow> None
         | Some ts \<Rightarrow>
             if length ts = 2 then
               (case is_valid_data_type heap value (ts ! (index mod 2)) of None \<Rightarrow> None
                | Some ok \<Rightarrow> Some (if \<not> ok then Some CASS_ERROR_LIB_INVALID_VALUE_TYPE else None))
             else Some None)
      else if v = CASS_VALUE_TYPE_LIST \<or> v = CASS_VALUE_TYPE_SET then
        (case collection_sub_types c of None \<Rightarrow> None
         | Some ts \<Rightarrow>
             if length ts = 1 then
               (case is_valid_data_type heap value (ts ! 0) of None \<Rightarrow> None
                | Some ok \<Rightarrow> Some (if \<not> ok then Some CASS_ERROR_LIB_INVALID_VALUE_TYPE else None))
             else Some None)
      else Some None)"

definition get_count :: "collection \<Rightarrow> u32" where
  "get_count c =
     (if type_value (col_type c) = CASS_VALUE_TYPE_MAP then of_nat (length (col_items c) div 2)
      else of_nat (length (col_items c)))"

fun get_items_size :: "nat \<Rightarrow> buffer list \<Rightarrow> nat" where
  "get_items_size num_bytes_for_size [] = 0"
| "get_items_size num_bytes_for_size (b # bs) =
     num_bytes_for_size + length b + get_items_size num_bytes_for_size bs"

definition size_of_length :: "int \<Rightarrow> nat" where
  "size_of_length version = (if version \<ge> 3 then 4 else 2)"

text \<open>
  \<open>encode_items_int32\<close> and \<open>encode_items_uint16\<close> write through a plain pointer; a write behind
  the end of the buffer, undefined there, is \<open>None\<close>.
\<close>

fun encode_items_int32 :: "buffer list \<Rightarrow> buffer_op" where
  "encode_items_int32 [] = buf_skip"
| "encode_items_int32 (b # bs) =
     buf_then (buf_encode_int32 (of_nat (length b))) (buf_then (buf_copy b) (encode_items_int32 bs))"

fun encode_items_uint16 :: "buffer list \<Rightarrow> buffer_op" where
  "encode_items_uint16 [] = buf_skip"
| "encode_items_uint16 (b # bs) =
     buf_then (buf_encode_uint16 (of_nat (length b))) (buf_then (buf_copy b) (encode_items_uint16 bs))"

definition collection_get_items_size :: "int \<Rightarrow> collection \<Rightarrow> nat" where
  "collection_get_items_size version c = get_items_size (size_of_length version) (col_items c)"

definition collection_encode_items :: "int \<Rightarrow> collection \<Rightarrow> buffer_op" where
  "collection_encode_items version c =
     (if version \<ge> 3 then encode_items_int32 (col_items c) else encode_items_uint16 (col_items c))"

definition get_size_with_length :: "int \<Rightarrow> collection \<Rightarrow> nat" where
  "get_size_with_length version c =
     4 + (if version \<ge> 3 then 4 + get_items_size 4 (col_items c) else 2 + get_items_size 2 (col_items c))"

definition collection_encode :: "collection \<Rightarrow> buffer option" where
  "collection_encode c =
     fill (4 + get_items_size 4 (col_items c))
       (buf_then (buf_encode_int32 (get_count c)) (encode_items_int32 (col_items c)))"

definition collection_encode_with_length :: "int \<Rightarrow> collection \<Rightarrow> buffer option" where
  "collection_encode_with_length version c =
     (let internal_size =
        (if version \<ge> 3 then 4 + get_items_size 4 (col_items c) else 2 + get_items_size 2 (col_items c))
      in fill (4 + internal_size)
           (buf_then (buf_encode_int32 (of_nat internal_size))
             (if version \<ge> 3
              then buf_then (buf_encode_int32 (get_count c)) (encode_items_int32 (col_items c))
              else buf_then (buf_encode_uint16 (ucast (get_count c))) (encode_items_uint16 (col_items c)))))"

section \<open>Tuples\<close>

definition CASS_HIGHEST_SUPPORTED_PROTOCOL_VERSION :: int where
  "CASS_HIGHEST_SUPPORTED_PROTOCOL_VERSION = 3"

text \<open>An item that was never set is the empty buffer.\<close>

fun tuple_buffers_size :: "buffer list \<Rightarrow> nat" where
  "tuple_buffers_size [] = 0"
| "tuple_buffers_size (b # bs) = (if length b \<noteq> 0 then length b else 4) + tuple_buffers_size bs"

fun tuple_encode_buffers :: "buffer list \<Rightarrow> buffer_op" where
  "tuple_encode_buffers [] = buf_skip"
| "tuple_encode_buffers (b # bs) =
     buf_then (if length b \<noteq> 0 then buf_copy b else buf_encode_int32 (- 1)) (tuple_encode_buffers bs)"

definition tuple_encode :: "tuple_value \<Rightarrow> buffer option" where
  "tuple_encode v = fill (tuple_buffers_size (tup_items v)) (tuple_encode_buffers (tup_items v))"

definition tuple_encode_with_length :: "tuple_value \<Rightarrow> buffer option" where
  "tuple_encode_with_length v =
     (let buffers_size = tuple_buffers_size (tup_items v)
      in fill (4 + buffers_size)
           (buf_then (buf_encode_int32 (of_nat buffers_size)) (tuple_encode_buffers (tup_items v))))"

definition tuple_check :: "collections \<Rightarrow> tuple_value \<Rightarrow> nat \<Rightarrow> bound_value \<Rightarrow> lib_error option option" where
  "tuple_check heap v index value =
     (if index > length (tup_items v) then Some (Some CASS_ERROR_LIB_INDEX_OUT_OF_BOUNDS)
      else
        (case as_sub_types (tup_type v) of None \<Rightarrow> None
         | Some ts \<Rightarrow>
             if index < length ts then
               (case is_valid_data_type heap value (ts ! index) of None \<Rightarrow> None
                | Some ok \<Rightarrow> Some (if \<not> ok then Some CASS_ERROR_LIB_INVALID_VALUE_TYPE else None))
             else Some None))"

section \<open>Elements\<close>

definition is_unset :: "element \<Rightarrow> bool" where
  "is_unset e = (case e of Elem_unset \<Rightarrow> True | Elem_buffer b \<Rightarrow> length b = 0 | _ \<Rightarrow> False)"

definition is_null_element :: "element \<Rightarrow> bool" where
  "is_null_element e = (case e of Elem_null b \<Rightarrow> True | _ \<Rightarrow> False)"

definition get_size :: "collections \<Rightarrow> int \<Rightarrow> element \<Rightarrow> nat option" where
  "get_size heap version e =
     (case e of
        Elem_collection a \<Rightarrow> map_option (get_size_with_length version) (heap a)
      | Elem_buffer b \<Rightarrow> Some (length b)
      | Elem_null b \<Rightarrow> Some (length b)
      | Elem_unset \<Rightarrow> None)"

definition copy_buffer :: "collections \<Rightarrow> int \<Rightarrow> element \<Rightarrow> buffer_op" where
  "copy_buffer heap version e =
     (case e of
        Elem_collection a \<Rightarrow>
          (case heap a of None \<Rightarrow> buf_fail
           | Some c \<Rightarrow>
               (case collection_encode_with_length version c of None \<Rightarrow> buf_fail | Some b \<Rightarrow> buf_copy b))
      | Elem_buffer b \<Rightarrow> buf_copy b
      | Elem_null b \<Rightarrow> buf_copy b
      | Elem_unset \<Rightarrow> buf_fail)"

text \<open>\<open>EncodingCache\<close> maps the address of a collection to a buffer, whatever the version was.\<close>

type_synonym encoding_cache = "nat \<Rightarrow> buffer option"

definition get_buffer_cached ::
    "collections \<Rightarrow> int \<Rightarrow> bool \<Rightarrow> element \<Rightarrow> encoding_cache \<Rightarrow> (buffer \<times> encoding_cache) option" where
  "get_buffer_cached heap version add_to_cache e cache =
     (case e of
        Elem_collection a \<Rightarrow>
          (case heap a of None \<Rightarrow> None
           | Some c \<Rightarrow>
               (case cache a of
                  Some b \<Rightarrow> Some (b, cache)
                | None \<Rightarrow>
                    (case collection_encode_with_length version c of None \<Rightarrow> None
                     | Some b \<Rightarrow> Some (b, if add_to_cache then cache(a \<mapsto> b) else cache))))
      | Elem_buffer b \<Rightarrow> Some (b, cache)
      | Elem_null b \<Rightarrow> Some (b, cache)
      | Elem_unset \<Rightarrow> None)"

section \<open>AbstractData\<close>

fun get_buffers_size :: "collections \<Rightarrow> element list \<Rightarrow> nat option" where
  "get_buffers_size heap [] = Some 0"
| "get_buffers_size heap (e # es) =
     (case (if \<not> is_unset e then get_size heap CASS_HIGHEST_SUPPORTED_PROTOCOL_VERSION e else Some 4) of
        None \<Rightarrow> None
      | Some n \<Rightarrow> map_option (\<lambda>rest. n + rest) (get_buffers_size heap es))"

fun encode_buffers :: "collections \<Rightarrow> element list \<Rightarrow> buffer_op" where
  "encode_buffers heap [] = buf_skip"
| "encode_buffers heap (e # es) =
     buf_then (if \<not> is_unset e then copy_buffer heap CASS_HIGHEST_SUPPORTED_PROTOCOL_VERSION e
               else buf_encode_int32 (- 1))
       (encode_buffers heap es)"

definition data_encode :: "collections \<Rightarrow> element list \<Rightarrow> buffer option" where
  "data_encode heap es =
     (case get_buffers_size heap es of None \<Rightarrow> None | Some n \<Rightarrow> fill n (encode_buffers heap es))"

definition data_encode_with_length :: "collections \<Rightarrow> element list \<Rightarrow> buffer option" where
  "data_encode_with_length heap es =
     (case get_buffers_size heap es of None \<Rightarrow> None
      | Some buffers_size \<Rightarrow>
          fill (4 + buffers_size)
            (buf_then (buf_encode_int32 (of_nat buffers_size)) (encode_buffers heap es)))"

text \<open>
  \<open>check\<close> and \<open>set\<close>. The virtual \<open>get_type\<close> returns a pointer that may be null, and fails on an
  index it does not have. Replacing an element retains the collection it gets before the
  one it had is released.
\<close>

definition data_check ::
    "(nat \<Rightarrow> data_type option option) \<Rightarrow> collections \<Rightarrow> element list \<Rightarrow> nat \<Rightarrow> bound_value \<Rightarrow> lib_error option option" where
  "data_check get_type heap es index value =
     (if index \<ge> length es then Some (Some CASS_ERROR_LIB_INDEX_OUT_OF_BOUNDS)
      else
        (case get_type index of None \<Rightarrow> None
         | Some None \<Rightarrow> Some None
         | Some (Some t) \<Rightarrow>
             (case is_valid_data_type heap value (Some t) of None \<Rightarrow> None
              | Some ok \<Rightarrow> Some (if \<not> ok then Some CASS_ERROR_LIB_INVALID_VALUE_TYPE else None))))"

definition retain_element :: "element \<Rightarrow> collections \<Rightarrow> collections option" where
  "retain_element e heap = (case e of Elem_collection a \<Rightarrow> inc_ref a heap | _ \<Rightarrow> Some heap)"

definition release_element :: "element \<Rightarrow> collections \<Rightarrow> collections option" where
  "release_element e heap = (case e of Elem_collection a \<Rightarrow> dec_ref a heap | _ \<Rightarrow> Some heap)"

definition assign_element ::
    "nat \<Rightarrow> element \<Rightarrow> collections \<Rightarrow> element list \<Rightarrow> (collections \<times> element list) option" where
  "assign_element index e heap es =
     (if index < length es then
        (case retain_element e heap of None \<Rightarrow> None
         | Some heap \<Rightarrow>
             (case release_element (es ! index) heap of None \<Rightarrow> None
              | Some heap \<Rightarrow> Some (heap, es[index := e])))
      else None)"

definition encode_element :: "collections \<Rightarrow> bound_value \<Rightarrow> element option" where
  "encode_element heap value =
     (case value of
        Bind_null \<Rightarrow> map_option Elem_null encode_null_with_length
      | Bind_scalar s \<Rightarrow> map_option Elem_buffer (encode_value_with_length s)
      | Bind_collection a \<Rightarrow> Some (Elem_collection a)
      | Bind_tuple v \<Rightarrow> map_option Elem_buffer (tuple_encode_with_length v)
      | Bind_user_type v \<Rightarrow> map_option Elem_buffer (data_encode_with_length heap (udt_elements v)))"

definition odd_map :: "collections \<Rightarrow> bound_value \<Rightarrow> bool option" where
  "odd_map heap value =
     (case value of
        Bind_collection a \<Rightarrow>
          (case heap a of None \<Rightarrow> None
           | Some c \<Rightarrow> Some (type_value (col_type c) = CASS_VALUE_TYPE_MAP \<and> length (col_items c) mod 2 \<noteq> 0))
      | _ \<Rightarrow> Some False)"

definition data_set ::
    "(nat \<Rightarrow> data_type option option) \<Rightarrow> nat \<Rightarrow> bound_value \<Rightarrow> collections \<Rightarrow> element list \<Rightarrow>
     (lib_error + collections \<times> element list) option" where
  "data_set get_type index value heap es =
     (case data_check get_type heap es index value of
        None \<Rightarrow> None
      | Some (Some rc) \<Rightarrow> Some (Inl rc)
      | Some None \<Rightarrow>
          (case odd_map heap value of None \<Rightarrow> None
           | Some bad \<Rightarrow>
               if bad then Some (Inl CASS_ERROR_LIB_INVALID_ITEM_COUNT)
               else
                 (case encode_element heap value of None \<Rightarrow> None
                  | Some e \<Rightarrow> map_option Inr (assign_element index e heap es))))"

text \<open>Binding by name sets every position of that name, one after the other.\<close>

fun data_set_all ::
    "(nat \<Rightarrow> data_type option option) \<Rightarrow> nat list \<Rightarrow> bound_value \<Rightarrow> collections \<Rightarrow> element list \<Rightarrow>
     (lib_error option \<times> collections \<times> element list) option" where
  "data_set_all get_type [] value heap es = Some (None, heap, es)"
| "data_set_all get_type (index # indices) value heap es =
     (case data_set get_type index value heap es of
        None \<Rightarrow> None
      | Some (Inl rc) \<Rightarrow> Some (Some rc, heap, es)
      | Some (Inr (heap, es)) \<Rightarrow> data_set_all get_type indices value heap es)"

definition data_set_by_name ::
    "(nat \<Rightarrow> data_type option option) \<Rightarrow> (string \<Rightarrow> nat list option) \<Rightarrow> string \<Rightarrow> bound_value \<Rightarrow>
     collections \<Rightarrow> element list \<Rightarrow> (lib_error option \<times> collections \<times> element list) option" where
  "data_set_by_name get_type look name value heap es =
     (case look name of None \<Rightarrow> None
      | Some indices \<Rightarrow>
          if length indices = 0 then Some (Some CASS_ERROR_LIB_NAME_DOES_NOT_EXIST, heap, es)
          else data_set_all get_type indices value heap es)"

text \<open>The destructor of the elements.\<close>

fun release_elements :: "element list \<Rightarrow> collections \<Rightarrow> collections option" where
  "release_elements [] heap = Some heap"
| "release_elements (e # es) heap =
     (case release_element e heap of None \<Rightarrow> None | Some heap \<Rightarrow> release_elements es heap)"

section \<open>Adding values to collections and tuples\<close>

definition collection_item :: "collections \<Rightarrow> bound_value \<Rightarrow> buffer option" where
  "collection_item heap value =
     (case value of
        Bind_null \<Rightarrow> Some []
      | Bind_scalar s \<Rightarrow> encode_value s
      | Bind_collection a \<Rightarrow> (case heap a of None \<Rightarrow> None | Some c \<Rightarrow> collection_encode c)
      | Bind_tuple v \<Rightarrow> tuple_encode v
      | Bind_user_type v \<Rightarrow> data_encode heap (udt_elements v))"

definition collection_append :: "nat \<Rightarrow> bound_value \<Rightarrow> collections \<Rightarrow> (lib_error + collections) option" where
  "collection_append a value heap =
     (case heap a of None \<Rightarrow> None
      | Some c \<Rightarrow>
          (case collection_check heap c value of
             None \<Rightarrow> None
           | Some (Some rc) \<Rightarrow> Some (Inl rc)
           | Some None \<Rightarrow>
               (case collection_item heap value of None \<Rightarrow> None
                | Some b \<Rightarrow> Some (Inr (heap(a \<mapsto> c\<lparr>col_items := col_items c @ [b]\<rparr>))))))"

definition collection_clear :: "nat \<Rightarrow> collections \<Rightarrow> collections option" where
  "collection_clear a heap =
     (case heap a of None \<Rightarrow> None | Some c \<Rightarrow> Some (heap(a \<mapsto> c\<lparr>col_items := []\<rparr>)))"

definition tuple_item :: "collections \<Rightarrow> bound_value \<Rightarrow> buffer option" where
  "tuple_item heap value =
     (case value of
        Bind_null \<Rightarrow> encode_null_with_length
      | Bind_scalar s \<Rightarrow> encode_value_with_length s
      | Bind_collection a \<Rightarrow>
          (case heap a of None \<Rightarrow> None
           | Some c \<Rightarrow> collection_encode_with_length CASS_HIGHEST_SUPPORTED_PROTOCOL_VERSION c)
      | Bind_tuple v \<Rightarrow> tuple_encode_with_length v
      | Bind_user_type v \<Rightarrow> data_encode_with_length heap (udt_elements v))"

definition tuple_set :: "collections \<Rightarrow> nat \<Rightarrow> bound_value \<Rightarrow> tuple_value \<Rightarrow> (lib_error + tuple_value) option" where
  "tuple_set heap index value v =
     (case tuple_check heap v index value of
        None \<Rightarrow> None
      | Some (Some rc) \<Rightarrow> Some (Inl rc)
      | Some None \<Rightarrow>
          (case tuple_item heap value of None \<Rightarrow> None
           | Some b \<Rightarrow>
               if index < length (tup_items v)
               then Some (Inr (v\<lparr>tup_items := (tup_items v)[index := b]\<rparr>)) else None))"

section \<open>User type values\<close>

definition user_type_value_new :: "data_type \<Rightarrow> user_type_value option" where
  "user_type_value_new t =
     (case as_user_type t of None \<Rightarrow> None
      | Some (k, n, fs) \<Rightarrow> Some \<lparr>udt_type = t, udt_elements = replicate (length fs) Elem_unset\<rparr>)"

definition user_type_get_type :: "data_type \<Rightarrow> nat \<Rightarrow> data_type option option" where
  "user_type_get_type t index =
     (case as_user_type t of None \<Rightarrow> None
      | Some (k, n, fs) \<Rightarrow> if index < length fs then Some (snd (fs ! index)) else None)"

definition user_type_look :: "data_type \<Rightarrow> string \<Rightarrow> nat list option" where
  "user_type_look t name =
     (case as_user_type t of None \<Rightarrow> None | Some (k, n, fs) \<Rightarrow> user_type_get_indices fs name)"

definition user_type_set ::
    "nat \<Rightarrow> bound_value \<Rightarrow> collections \<Rightarrow> user_type_value \<Rightarrow> (lib_error + collections \<times> user_type_value) option" where
  "user_type_set index value heap v =
     map_option (map_sum id (\<lambda>(heap, es). (heap, v\<lparr>udt_elements := es\<rparr>)))
       (data_set (user_type_get_type (udt_type v)) index value heap (udt_elements v))"

definition user_type_set_by_name ::
    "string \<Rightarrow> bound_value \<Rightarrow> collections \<Rightarrow> user_type_value \<Rightarrow>
     (lib_error option \<times> collections \<times> user_type_value) option" where
  "user_type_set_by_name name value heap v =
     map_option (\<lambda>(rc, heap, es). (rc, heap, v\<lparr>udt_elements := es\<rparr>))
       (data_set_by_name (user_type_get_type (udt_type v)) (user_type_look (udt_type v)) name value heap
         (udt_elements v))"

section \<open>The C interface\<close>

text \<open>\<open>a\<close> is the address the allocator returns; the space reserved for the items does not show.\<close>

definition cass_collection_new :: "nat \<Rightarrow> value_type \<Rightarrow> nat \<Rightarrow> collections \<Rightarrow> collections" where
  "cass_collection_new a v item_count heap =
     heap(a \<mapsto> \<lparr>col_refs = 1, col_type = Collection_type v [], col_items = []\<rparr>)"

text \<open>Here the reference of the application is not counted.\<close>

definition cass_collection_new_from_data_type ::
    "nat \<Rightarrow> data_type \<Rightarrow> nat \<Rightarrow> collections \<Rightarrow> (nat option \<times> collections)" where
  "cass_collection_new_from_data_type a t item_count heap =
     (if \<not> is_collection t then (None, heap)
      else (Some a, heap(a \<mapsto> \<lparr>col_refs = 0, col_type = t, col_items = []\<rparr>)))"

definition cass_collection_free :: "nat \<Rightarrow> collections \<Rightarrow> collections option" where
  "cass_collection_free a heap = dec_ref a heap"

text \<open>A C string in the memory \<open>s\<close>: the bytes before its first null byte.\<close>

definition c_string :: "bytes \<Rightarrow> bytes option" where
  "c_string s = (if 0 \<in> set s then Some (takeWhile (\<lambda>b. b \<noteq> 0) s) else None)"

text \<open>The string functions of collections and tuples return \<open>CASS_OK\<close> whatever happens.\<close>

definition cass_collection_append_string_n :: "nat \<Rightarrow> bytes \<Rightarrow> collections \<Rightarrow> collections option" where
  "cass_collection_append_string_n a value heap =
     (case collection_append a (Bind_scalar (Val_string value)) heap of
        None \<Rightarrow> None | Some (Inl rc) \<Rightarrow> Some heap | Some (Inr heap) \<Rightarrow> Some heap)"

definition cass_collection_append_string :: "nat \<Rightarrow> bytes \<Rightarrow> collections \<Rightarrow> collections option" where
  "cass_collection_append_string a value heap =
     (case c_string value of None \<Rightarrow> None | Some s \<Rightarrow> cass_collection_append_string_n a s heap)"

definition cass_tuple_new :: "nat \<Rightarrow> tuple_value" where
  "cass_tuple_new item_count = \<lparr>tup_type = Tuple_type [], tup_items = replicate item_count []\<rparr>"

definition cass_tuple_new_from_data_type :: "data_type \<Rightarrow> tuple_value option option" where
  "cass_tuple_new_from_data_type t =
     (if \<not> is_tuple t then Some None
      else (case as_sub_types t of None \<Rightarrow> None
            | Some ts \<Rightarrow> Some (Some \<lparr>tup_type = t, tup_items = replicate (length ts) []\<rparr>)))"

definition cass_tuple_set_string_n :: "collections \<Rightarrow> nat \<Rightarrow> bytes \<Rightarrow> tuple_value \<Rightarrow> tuple_value option" where
  "cass_tuple_set_string_n heap index value v =
     (case tuple_set heap index (Bind_scalar (Val_string value)) v of
        None \<Rightarrow> None | Some (Inl rc) \<Rightarrow> Some v | Some (Inr v) \<Rightarrow> Some v)"

definition cass_tuple_set_string :: "collections \<Rightarrow> nat \<Rightarrow> bytes \<Rightarrow> tuple_value \<Rightarrow> tuple_value option" where
  "cass_tuple_set_string heap index value v =
     (case c_string value of None \<Rightarrow> None | Some s \<Rightarrow> cass_tuple_set_string_n heap index s v)"

definition cass_user_type_new_from_data_type :: "data_type \<Rightarrow> user_type_value option option" where
  "cass_user_type_new_from_data_type t =
     (if \<not> is_user_type t then Some None else map_option Some (user_type_value_new t))"


section \<open>What the encoders write\<close>

lemma fill_writes: "writes f xs \<Longrightarrow> n = length xs \<Longrightarrow> fill n f = Some xs"
  by (simp add: fill_def writes_def put_bytes_def)

text \<open>
  A \<open>[bytes]\<close> of the protocol: a length and that many bytes, or the length -1 for null.
\<close>

definition frame_wire :: "bytes option \<Rightarrow> bytes" where
  "frame_wire f = (case f of None \<Rightarrow> encode_int32 (- 1) | Some b \<Rightarrow> long_string_wire b)"

definition frame_ok :: "bytes option \<Rightarrow> bool" where
  "frame_ok f = (case f of None \<Rightarrow> True | Some b \<Rightarrow> length b < 2 ^ 31)"

interpretation frames: wire_codec frame_ok frame_wire decode_bytes
  by unfold_locales
    (auto simp: frame_ok_def frame_wire_def decode_bytes_def long_string_wire_def wire_simps split: option.splits)

lemma frame_wire_nonempty [simp]: "frame_wire f \<noteq> []"
proof -
  have "4 \<le> length (frame_wire f)" by (simp add: frame_wire_def long_string_wire_def split: option.split)
  then show ?thesis by auto
qed

fun scalar_bytes :: "scalar \<Rightarrow> bytes" where
  "scalar_bytes (Val_int8 v) = encode_int8 v"
| "scalar_bytes (Val_int16 v) = encode_int16 v"
| "scalar_bytes (Val_int32 v) = encode_int32 v"
| "scalar_bytes (Val_uint32 v) = encode_uint32 v"
| "scalar_bytes (Val_int64 v) = encode_int64 v"
| "scalar_bytes (Val_float v) = encode_float v"
| "scalar_bytes (Val_double v) = encode_double v"
| "scalar_bytes (Val_bool v) = encode_byte (bool_byte v)"
| "scalar_bytes (Val_string s) = s"
| "scalar_bytes (Val_bytes s) = s"
| "scalar_bytes (Val_uuid u) = encode_uuid u"
| "scalar_bytes (Val_inet address len) = take len address"
| "scalar_bytes (Val_decimal varint scale) = encode_int32 scale @ varint"

fun scalar_ok :: "scalar \<Rightarrow> bool" where
  "scalar_ok (Val_inet address len) \<longleftrightarrow> len \<le> length address"
| "scalar_ok _ \<longleftrightarrow> True"

lemma fill_framed: "writes f xs \<Longrightarrow> n = 4 + length xs \<Longrightarrow> l = of_nat (length xs) \<Longrightarrow>
    fill n (buf_then (buf_encode_int32 l) f) = Some (frame_wire (Some xs))"
  by (rule fill_writes) (simp_all add: frame_wire_def long_string_wire_def writes_seq writes_ints)

lemma writes_inet: "len \<le> length address \<Longrightarrow> writes (copy_inet address len) (take len address)"
  by (simp add: copy_inet_def writes_copy)

lemma encode_value_bytes: "scalar_ok s \<Longrightarrow> encode_value s = Some (scalar_bytes s)"
  by (cases s)
    (auto intro!: fill_writes writes_ints writes_copy writes_inet writes_seq)

lemma encode_value_with_length_bytes:
  "scalar_ok s \<Longrightarrow> encode_value_with_length s = Some (frame_wire (Some (scalar_bytes s)))"
  by (cases s)
    (auto intro!: fill_framed writes_ints writes_copy writes_inet writes_seq)

lemma encode_null_bytes: "encode_null_with_length = Some (frame_wire None)"
  by (simp add: encode_null_with_length_def frame_wire_def fill_writes writes_ints)

subsection \<open>Collections\<close>

definition collection_bytes :: "int \<Rightarrow> collection \<Rightarrow> bytes" where
  "collection_bytes version c =
     (if version \<ge> 3 then encode_int32 (get_count c) @ concat (map long_string_wire (col_items c))
      else encode_uint16 (ucast (get_count c)) @ concat (map string_wire (col_items c)))"

lemma items_sizes:
  "get_items_size 4 bs = length (concat (map long_string_wire bs))"
  "get_items_size 2 bs = length (concat (map string_wire bs))"
  by (induction bs) (simp_all add: long_string_wire_def string_wire_def)

lemma writes_items:
  "writes (encode_items_int32 bs) (concat (map long_string_wire bs))"
  "writes (encode_items_uint16 bs) (concat (map string_wire bs))"
  by (induction bs)
    (simp_all add: writes_skip long_string_wire_def string_wire_def writes_seq writes_ints writes_copy)

lemma collection_encode_bytes: "collection_encode c = Some (collection_bytes 3 c)"
  unfolding collection_encode_def
  by (rule fill_writes) (simp_all add: collection_bytes_def items_sizes writes_seq writes_ints writes_items)

lemma collection_encode_with_length_bytes:
  "collection_encode_with_length version c = Some (frame_wire (Some (collection_bytes version c)))"
  unfolding collection_encode_with_length_def Let_def
  by (rule fill_framed) (simp_all add: collection_bytes_def items_sizes writes_seq writes_ints writes_items)

lemma get_size_with_length_bytes:
  "get_size_with_length version c = length (frame_wire (Some (collection_bytes version c)))"
  by (simp add: get_size_with_length_def collection_bytes_def frame_wire_def long_string_wire_def items_sizes)

subsection \<open>Tuples and elements\<close>

definition tuple_item_bytes :: "buffer \<Rightarrow> bytes" where
  "tuple_item_bytes b = (if b = [] then frame_wire None else b)"

definition tuple_bytes :: "tuple_value \<Rightarrow> bytes" where
  "tuple_bytes v = concat (map tuple_item_bytes (tup_items v))"

lemma tuple_size: "tuple_buffers_size bs = length (concat (map tuple_item_bytes bs))"
  by (induction bs) (simp_all add: tuple_item_bytes_def frame_wire_def)

lemma writes_tuple: "writes (tuple_encode_buffers bs) (concat (map tuple_item_bytes bs))"
  by (induction bs)
    (auto simp: tuple_item_bytes_def frame_wire_def writes_skip writes_copy writes_ints intro!: writes_seq)

lemma tuple_encode_bytes: "tuple_encode v = Some (tuple_bytes v)"
  by (simp add: tuple_encode_def tuple_bytes_def fill_writes writes_tuple tuple_size)

lemma tuple_encode_with_length_bytes: "tuple_encode_with_length v = Some (frame_wire (Some (tuple_bytes v)))"
  unfolding tuple_encode_with_length_def Let_def tuple_bytes_def
  by (rule fill_framed) (simp_all add: writes_tuple tuple_size)

definition element_bytes :: "collections \<Rightarrow> int \<Rightarrow> element \<Rightarrow> bytes" where
  "element_bytes heap version e =
     (case e of
        Elem_unset \<Rightarrow> frame_wire None
      | Elem_null b \<Rightarrow> b
      | Elem_buffer b \<Rightarrow> tuple_item_bytes b
      | Elem_collection a \<Rightarrow>
          (case heap a of None \<Rightarrow> [] | Some c \<Rightarrow> frame_wire (Some (collection_bytes version c))))"

definition element_live :: "collections \<Rightarrow> element \<Rightarrow> bool" where
  "element_live heap e = (case e of Elem_collection a \<Rightarrow> heap a \<noteq> None | _ \<Rightarrow> True)"

definition elements_bytes :: "collections \<Rightarrow> element list \<Rightarrow> bytes" where
  "elements_bytes heap es = concat (map (element_bytes heap 3) es)"

lemma element_sizes:
  "element_live heap e \<Longrightarrow> \<not> is_unset e \<Longrightarrow> get_size heap version e = Some (length (element_bytes heap version e))"
  by (auto simp: get_size_def element_bytes_def element_live_def is_unset_def tuple_item_bytes_def
      get_size_with_length_bytes split: element.splits)

lemma writes_element:
  "element_live heap e \<Longrightarrow> \<not> is_unset e \<Longrightarrow> writes (copy_buffer heap version e) (element_bytes heap version e)"
  by (auto simp: copy_buffer_def element_bytes_def element_live_def is_unset_def tuple_item_bytes_def
      collection_encode_with_length_bytes writes_copy split: element.splits)

lemma unset_bytes: "is_unset e \<Longrightarrow> element_bytes heap version e = encode_int32 (- 1)"
  by (auto simp: is_unset_def element_bytes_def tuple_item_bytes_def frame_wire_def split: element.splits)

lemma elements_size:
  "list_all (element_live heap) es \<Longrightarrow> get_buffers_size heap es = Some (length (elements_bytes heap es))"
  by (induction es)
    (auto simp: elements_bytes_def element_sizes unset_bytes CASS_HIGHEST_SUPPORTED_PROTOCOL_VERSION_def)

lemma writes_elements:
  "list_all (element_live heap) es \<Longrightarrow> writes (encode_buffers heap es) (elements_bytes heap es)"
  by (induction es)
    (auto simp: elements_bytes_def unset_bytes CASS_HIGHEST_SUPPORTED_PROTOCOL_VERSION_def
      intro!: writes_skip writes_seq writes_element writes_ints)

lemma data_encode_bytes:
  "list_all (element_live heap) es \<Longrightarrow> data_encode heap es = Some (elements_bytes heap es)"
  by (simp add: data_encode_def elements_size fill_writes writes_elements)

lemma data_encode_with_length_bytes:
  "list_all (element_live heap) es \<Longrightarrow>
   data_encode_with_length heap es = Some (frame_wire (Some (elements_bytes heap es)))"
  by (simp add: data_encode_with_length_def elements_size fill_framed writes_elements)


section \<open>The contract of a container of values\<close>

text \<open>
  A tuple or a user type value stands for a list of values, each null or a byte string; its two
  encoders must write exactly these as \<open>[bytes]\<close>, one after the other, without and with the
  length in front.
\<close>

locale framed_values =
  fixes holds :: "'s \<Rightarrow> bytes option list \<Rightarrow> bool"
    and enc :: "'s \<Rightarrow> buffer option"
    and enc_len :: "'s \<Rightarrow> buffer option"
  assumes enc_frames: "holds s fs \<Longrightarrow> enc s = Some (concat (map frame_wire fs))"
    and enc_len_frames: "holds s fs \<Longrightarrow> enc_len s = Some (frame_wire (Some (concat (map frame_wire fs))))"
begin

lemma reads_back:
  assumes "holds s fs" and "list_all frame_ok fs"
  shows "\<exists>bs. enc s = Some bs \<and> read_many (length fs) decode_bytes (bs @ rest) = Some (fs, rest)"
  using enc_frames [OF assms(1)] frames.read_many_enc [of fs rest] assms(2) by (simp add: list_all_iff)

lemma nested_reads_back:
  assumes "holds s fs" and "list_all frame_ok fs" and "enc s = Some bs" and "length bs < 2 ^ 31"
  shows "\<exists>framed. enc_len s = Some framed \<and> decode_bytes (framed @ rest) = Some (Some bs, rest) \<and>
    read_many (length fs) decode_bytes bs = Some (fs, [])"
  using enc_len_frames [OF assms(1)] reads_back [OF assms(1,2), of "[]"] assms(3,4)
    enc_frames [OF assms(1)] frames.dec_enc [of "Some bs" rest]
  by (simp add: frame_ok_def)

lemma holds_unique:
  assumes "holds s fs" and "holds s gs" and "length fs = length gs"
    and "list_all frame_ok fs" and "list_all frame_ok gs"
  shows "fs = gs"
  using reads_back [OF assms(1,4), of "[]"] reads_back [OF assms(2,5), of "[]"] assms(3) by auto

end

definition tuple_holds :: "tuple_value \<Rightarrow> bytes option list \<Rightarrow> bool" where
  "tuple_holds v fs \<longleftrightarrow> map tuple_item_bytes (tup_items v) = map frame_wire fs"

definition data_holds :: "collections \<times> element list \<Rightarrow> bytes option list \<Rightarrow> bool" where
  "data_holds s fs \<longleftrightarrow> list_all (element_live (fst s)) (snd s) \<and>
     map (element_bytes (fst s) 3) (snd s) = map frame_wire fs"

interpretation tuple: framed_values tuple_holds tuple_encode tuple_encode_with_length
  by unfold_locales
    (simp_all add: tuple_holds_def tuple_encode_bytes tuple_encode_with_length_bytes tuple_bytes_def)

interpretation user_value: framed_values data_holds "\<lambda>(heap, es). data_encode heap es"
  "\<lambda>(heap, es). data_encode_with_length heap es"
  by unfold_locales
    (auto simp: data_holds_def data_encode_bytes data_encode_with_length_bytes elements_bytes_def)

section \<open>Binding values\<close>

fun value_live :: "collections \<Rightarrow> bound_value \<Rightarrow> bool" where
  "value_live heap Bind_null \<longleftrightarrow> True"
| "value_live heap (Bind_scalar s) \<longleftrightarrow> scalar_ok s"
| "value_live heap (Bind_collection a) \<longleftrightarrow> heap a \<noteq> None"
| "value_live heap (Bind_tuple v) \<longleftrightarrow> True"
| "value_live heap (Bind_user_type v) \<longleftrightarrow> list_all (element_live heap) (udt_elements v)"

text \<open>What a bound value means: null, or the bytes of its encoding.\<close>

fun value_frame :: "collections \<Rightarrow> bound_value \<Rightarrow> bytes option" where
  "value_frame heap Bind_null = None"
| "value_frame heap (Bind_scalar s) = Some (scalar_bytes s)"
| "value_frame heap (Bind_collection a) =
     Some (case heap a of None \<Rightarrow> [] | Some c \<Rightarrow> collection_bytes 3 c)"
| "value_frame heap (Bind_tuple v) = Some (tuple_bytes v)"
| "value_frame heap (Bind_user_type v) = Some (elements_bytes heap (udt_elements v))"

lemma tuple_item_frame:
  "value_live heap value \<Longrightarrow> tuple_item heap value = Some (frame_wire (value_frame heap value))"
  by (cases "value")
    (auto simp: tuple_item_def encode_null_bytes encode_value_with_length_bytes tuple_encode_with_length_bytes
      data_encode_with_length_bytes collection_encode_with_length_bytes CASS_HIGHEST_SUPPORTED_PROTOCOL_VERSION_def)

lemma collection_item_bytes:
  assumes "value_live heap value"
  shows "collection_item heap value = Some (case value_frame heap value of None \<Rightarrow> [] | Some b \<Rightarrow> b)"
  using assms
  by (cases "value")
    (auto simp: collection_item_def encode_value_bytes collection_encode_bytes tuple_encode_bytes data_encode_bytes)

lemma tuple_item_bytes_frame [simp]: "tuple_item_bytes (frame_wire f) = frame_wire f"
  by (simp add: tuple_item_bytes_def)

lemma tuple_holds_length: "tuple_holds v fs \<Longrightarrow> length (tup_items v) = length fs"
  unfolding tuple_holds_def using length_map by metis

lemma tuple_holds_new: "tuple_holds (cass_tuple_new n) (replicate n None)"
  by (simp add: tuple_holds_def cass_tuple_new_def tuple_item_bytes_def)

lemma tuple_set_holds:
  assumes "tuple_holds v fs" and "value_live heap value" and "tuple_set heap i value v = Some (Inr v')"
  shows "tuple_holds v' (fs[i := value_frame heap value])" and "tup_type v' = tup_type v"
  using assms
  by (auto simp: tuple_set_def tuple_item_frame tuple_holds_def map_update split: option.splits if_splits)

subsection \<open>Reference counts\<close>

definition counts :: "collections \<Rightarrow> (nat \<Rightarrow> nat) \<Rightarrow> bool" where
  "counts heap r \<longleftrightarrow> (\<forall>a. (case heap a of None \<Rightarrow> 0 | Some c \<Rightarrow> col_refs c) = r a \<and> (heap a \<noteq> None \<longrightarrow> 0 < r a))"

definition content :: "collections \<Rightarrow> nat \<Rightarrow> (data_type \<times> buffer list) option" where
  "content heap a = map_option (\<lambda>c. (col_type c, col_items c)) (heap a)"

definition kept :: "collections \<Rightarrow> collections \<Rightarrow> bool" where
  "kept heap heap' \<longleftrightarrow> (\<forall>a. heap' a \<noteq> None \<longrightarrow> content heap' a = content heap a)"

definition refers :: "nat \<Rightarrow> element \<Rightarrow> nat" where
  "refers a e = (if e = Elem_collection a then 1 else 0)"

definition shares :: "nat \<Rightarrow> element list \<Rightarrow> nat" where
  "shares a es = sum_list (map (refers a) es)"

lemma kept_refl [simp]: "kept heap heap"
  by (simp add: kept_def)

lemma kept_trans: "kept h1 h2 \<Longrightarrow> kept h2 h3 \<Longrightarrow> kept h1 h3"
proof -
  assume a: "kept h1 h2" "kept h2 h3"
  have "content h3 x = content h1 x" if "h3 x \<noteq> None" for x
  proof -
    have "content h3 x = content h2 x" using a(2) that by (simp add: kept_def)
    moreover from this that have "h2 x \<noteq> None" by (cases "h2 x") (auto simp: content_def)
    then have "content h2 x = content h1 x" using a(1) by (simp add: kept_def)
    ultimately show ?thesis by simp
  qed
  then show ?thesis by (simp add: kept_def)
qed

lemma inc_ref_counts:
  assumes "counts heap r" and "heap a \<noteq> None"
  shows "\<exists>heap'. inc_ref a heap = Some heap' \<and> counts heap' (r(a := r a + 1)) \<and> kept heap heap' \<and>
    (\<forall>b. heap' b = None \<longleftrightarrow> heap b = None)"
  using assms by (auto simp: inc_ref_def counts_def kept_def content_def split: option.splits)

lemma dec_ref_counts:
  assumes "counts heap r" and "0 < r a"
  shows "\<exists>heap'. dec_ref a heap = Some heap' \<and> counts heap' (r(a := r a - 1)) \<and> kept heap heap'"
proof -
  from assms obtain c where c: "heap a = Some c" "col_refs c = r a"
    unfolding counts_def by (metis not_less_zero option.case_eq_if option.collapse)
  show ?thesis
  proof (cases "r a = 1")
    case True
    then have "dec_ref a heap = Some (heap(a := None))" using c by (simp add: dec_ref_def)
    moreover have "counts (heap(a := None)) (r(a := r a - 1))" using assms(1) True by (simp add: counts_def)
    moreover have "kept heap (heap(a := None))" by (simp add: kept_def content_def)
    ultimately show ?thesis by blast
  next
    case False
    let ?heap = "heap(a \<mapsto> c\<lparr>col_refs := col_refs c - 1\<rparr>)"
    have "dec_ref a heap = Some ?heap" using c False assms(2) by (simp add: dec_ref_def)
    moreover have "counts ?heap (r(a := r a - 1))" using assms False c by (auto simp: counts_def)
    moreover have "kept heap ?heap" using c by (simp add: kept_def content_def)
    ultimately show ?thesis by blast
  qed
qed

lemma counts_live: "counts heap r \<Longrightarrow> heap a \<noteq> None \<longleftrightarrow> 0 < r a"
  unfolding counts_def by (metis option.case_eq_if less_numeral_extra(3))


text \<open>
  The references are counted exactly: a collection exists while there are handles of the
  application, or elements, that refer to it, and its count is their number.
\<close>

definition refs_ok :: "(nat \<Rightarrow> nat) \<Rightarrow> collections \<times> element list \<Rightarrow> bool" where
  "refs_ok handles s \<longleftrightarrow> counts (fst s) (\<lambda>a. handles a + shares a (snd s))"

lemma shares_update:
  "i < length es \<Longrightarrow> shares a (es[i := e]) + refers a (es ! i) = shares a es + refers a e"
  by (induction es arbitrary: i) (auto simp: shares_def split: nat.split)

lemma retain_counts:
  assumes "counts heap r" and "element_live heap e"
  shows "\<exists>heap'. retain_element e heap = Some heap' \<and> counts heap' (\<lambda>a. r a + refers a e) \<and> kept heap heap' \<and>
    (\<forall>b. heap' b = None \<longleftrightarrow> heap b = None)"
proof (cases e)
  case (Elem_collection a)
  have "(\<lambda>b. r b + refers b e) = r(a := r a + 1)" by (auto simp: Elem_collection refers_def)
  then show ?thesis
    using inc_ref_counts [OF assms(1), of a] assms(2) Elem_collection
    by (simp add: retain_element_def element_live_def)
qed (use assms in \<open>simp_all add: retain_element_def refers_def\<close>)

lemma release_counts:
  assumes "counts heap r" and "\<And>a. refers a e \<le> r a"
  shows "\<exists>heap'. release_element e heap = Some heap' \<and> counts heap' (\<lambda>a. r a - refers a e) \<and> kept heap heap'"
proof (cases e)
  case (Elem_collection a)
  have "(\<lambda>b. r b - refers b e) = r(a := r a - 1)" by (auto simp: Elem_collection refers_def)
  moreover have "0 < r a" using assms(2) [of a] by (simp add: Elem_collection refers_def)
  ultimately show ?thesis
    using dec_ref_counts [OF assms(1), of a] Elem_collection by (simp add: release_element_def)
qed (use assms in \<open>simp_all add: release_element_def refers_def\<close>)

lemma assign_counts:
  assumes ok: "refs_ok handles (heap, es)" and live: "element_live heap e" and i: "i < length es"
  shows "\<exists>heap'. assign_element i e heap es = Some (heap', es[i := e]) \<and> refs_ok handles (heap', es[i := e]) \<and>
    kept heap heap'"
proof -
  let ?r = "\<lambda>a. handles a + shares a es"
  have up: "shares a (es[i := e]) + refers a (es ! i) = shares a es + refers a e" for a
    by (rule shares_update [OF i])
  obtain h1 where h1: "retain_element e heap = Some h1" "counts h1 (\<lambda>a. ?r a + refers a e)" "kept heap h1"
    using retain_counts [of heap ?r e] ok live by (auto simp: refs_ok_def)
  have "refers a (es ! i) \<le> ?r a + refers a e" for a using up [of a] by linarith
  then obtain h2 where h2: "release_element (es ! i) h1 = Some h2"
      "counts h2 (\<lambda>a. ?r a + refers a e - refers a (es ! i))" "kept h1 h2"
    using release_counts [OF h1(2), of "es ! i"] by blast
  have "(\<lambda>a. ?r a + refers a e - refers a (es ! i)) = (\<lambda>a. handles a + shares a (es[i := e]))"
  proof
    fix a
    show "?r a + refers a e - refers a (es ! i) = handles a + shares a (es[i := e])" using up [of a] by linarith
  qed
  then have "refs_ok handles (h2, es[i := e])" using h2(2) by (simp add: refs_ok_def)
  moreover have "assign_element i e heap es = Some (h2, es[i := e])"
    by (simp add: assign_element_def i h1(1) h2(1))
  ultimately show ?thesis using kept_trans [OF h1(3) h2(3)] by blast
qed

lemma shares_pos: "e \<in> set es \<Longrightarrow> refers a e \<le> shares a es"
  unfolding shares_def by (simp add: member_le_sum_list)

lemma refs_ok_live:
  assumes "refs_ok handles (heap, es)"
  shows "list_all (element_live heap) es"
proof -
  have "element_live heap e" if e: "e \<in> set es" for e
  proof (cases e)
    case (Elem_collection a)
    then have "0 < handles a + shares a es" using shares_pos [OF e, of a] by (simp add: refers_def)
    then show ?thesis
      using assms counts_live [of heap] Elem_collection by (auto simp: refs_ok_def element_live_def)
  qed (simp_all add: element_live_def)
  then show ?thesis by (simp add: list_all_iff)
qed

lemma element_bytes_kept:
  assumes "kept heap heap'" and "element_live heap' e"
  shows "element_bytes heap' version e = element_bytes heap version e"
proof (cases e)
  case (Elem_collection a)
  then obtain c' where c': "heap' a = Some c'" using assms(2) by (auto simp: element_live_def)
  then have "content heap' a = content heap a" using assms(1) unfolding kept_def by blast
  then obtain c where "heap a = Some c" "col_type c = col_type c'" "col_items c = col_items c'"
    using c' by (cases "heap a") (auto simp: content_def)
  then show ?thesis using c' Elem_collection
    by (simp add: element_bytes_def collection_bytes_def get_count_def)
qed (simp_all add: element_bytes_def)

lemma encode_element_frame:
  assumes "value_live heap value"
  shows "\<exists>e. encode_element heap value = Some e \<and> element_live heap e \<and>
    element_bytes heap 3 e = frame_wire (value_frame heap value)"
  using assms
  by (cases "value")
    (auto simp: encode_element_def encode_null_bytes encode_value_with_length_bytes tuple_encode_with_length_bytes
      data_encode_with_length_bytes element_live_def element_bytes_def)

lemma odd_map_live: "value_live heap value \<Longrightarrow> odd_map heap value \<noteq> None"
  by (cases "value") (auto simp: odd_map_def)

text \<open>The one step lemma of binding: counts, meaning and result of \<open>data_set\<close>.\<close>

lemma data_set_step:
  assumes ok: "refs_ok handles (heap, es)" and holds: "data_holds (heap, es) fs"
    and live: "value_live heap value" and rc: "data_check get_type heap es i value = Some None"
    and even: "odd_map heap value = Some False"
  shows "\<exists>heap' es'. data_set get_type i value heap es = Some (Inr (heap', es')) \<and>
    refs_ok handles (heap', es') \<and> data_holds (heap', es') (fs[i := value_frame heap value]) \<and>
    kept heap heap' \<and> length es' = length es"
proof -
  have i: "i < length es" using rc by (auto simp: data_check_def split: if_splits)
  obtain e where e: "encode_element heap value = Some e" "element_live heap e"
      "element_bytes heap 3 e = frame_wire (value_frame heap value)"
    using encode_element_frame [OF live] by blast
  obtain heap' where h: "assign_element i e heap es = Some (heap', es[i := e])"
      "refs_ok handles (heap', es[i := e])" "kept heap heap'"
    using assign_counts [OF ok e(2) i] by blast
  have live': "list_all (element_live heap') (es[i := e])" by (rule refs_ok_live [OF h(2)])
  have "map (element_bytes heap' 3) (es[i := e]) = map (element_bytes heap 3) (es[i := e])"
    using live' element_bytes_kept [OF h(3)] by (simp add: list_all_iff)
  also have "\<dots> = map frame_wire (fs[i := value_frame heap value])"
    using holds by (simp add: data_holds_def map_update e(3))
  finally have "data_holds (heap', es[i := e]) (fs[i := value_frame heap value])"
    using live' by (simp add: data_holds_def)
  then show ?thesis using e(1) h rc even by (simp add: data_set_def)
qed

lemma data_set_refused:
  assumes "data_set get_type i value heap es = Some (Inl rc)"
  shows "data_check get_type heap es i value = Some (Some rc) \<or>
    rc = CASS_ERROR_LIB_INVALID_ITEM_COUNT \<and> odd_map heap value = Some True"
  using assms by (auto simp: data_set_def split: option.splits if_splits)

lemma data_holds_new: "data_holds (heap, replicate n Elem_unset) (replicate n None)"
  by (simp add: data_holds_def list_all_iff element_live_def element_bytes_def)


subsection \<open>Binding by name\<close>

text \<open>The collections a value refers to are held by somebody other than the object it is bound to.\<close>

fun value_owned :: "(nat \<Rightarrow> nat) \<Rightarrow> bound_value \<Rightarrow> bool" where
  "value_owned handles Bind_null \<longleftrightarrow> True"
| "value_owned handles (Bind_scalar s) \<longleftrightarrow> scalar_ok s"
| "value_owned handles (Bind_collection a) \<longleftrightarrow> 0 < handles a"
| "value_owned handles (Bind_tuple v) \<longleftrightarrow> True"
| "value_owned handles (Bind_user_type v) \<longleftrightarrow>
     list_all (\<lambda>e. case e of Elem_collection a \<Rightarrow> 0 < handles a | _ \<Rightarrow> True) (udt_elements v)"

lemma owned_element_live:
  assumes "refs_ok handles (heap, es)" and "case e of Elem_collection a \<Rightarrow> 0 < handles a | _ \<Rightarrow> True"
  shows "element_live heap e"
  using assms counts_live [of heap] by (cases e) (auto simp: refs_ok_def element_live_def)

lemma owned_live: "refs_ok handles (heap, es) \<Longrightarrow> value_owned handles value \<Longrightarrow> value_live heap value"
  using counts_live [of heap]
  by (cases "value") (auto simp: refs_ok_def list_all_iff intro: owned_element_live)

lemma kept_collection:
  assumes "kept heap heap'" and "heap' a = Some c'"
  shows "\<exists>c. heap a = Some c \<and> col_type c = col_type c' \<and> col_items c = col_items c'"
proof -
  have "content heap' a = content heap a" using assms unfolding kept_def by blast
  then show ?thesis using assms(2) by (cases "heap a") (auto simp: content_def)
qed

lemma value_frame_kept:
  assumes "kept heap heap'" and "value_live heap' value"
  shows "value_frame heap' value = value_frame heap value"
proof (cases "value")
  case (Bind_collection a)
  then obtain c' where c': "heap' a = Some c'" using assms(2) by auto
  from kept_collection [OF assms(1) this] Bind_collection c' show ?thesis
    by (auto simp: collection_bytes_def get_count_def)
next
  case (Bind_user_type v)
  then have "map (element_bytes heap' 3) (udt_elements v) = map (element_bytes heap 3) (udt_elements v)"
    using assms element_bytes_kept [OF assms(1)] by (simp add: list_all_iff)
  then show ?thesis by (simp only: Bind_user_type value_frame.simps elements_bytes_def)
qed simp_all

lemma is_valid_kept:
  assumes "kept heap heap'" and "value_live heap' value"
  shows "is_valid_data_type heap' value t = is_valid_data_type heap value t"
    and "odd_map heap' value = odd_map heap value"
proof -
  have "is_valid_data_type heap' value t = is_valid_data_type heap value t \<and> odd_map heap' value = odd_map heap value"
  proof (cases "value")
    case (Bind_collection a)
    then obtain c' where c': "heap' a = Some c'" using assms(2) by auto
    from kept_collection [OF assms(1) this] Bind_collection c' show ?thesis
      by (auto simp: is_valid_data_type_def odd_map_def)
  qed (simp_all add: is_valid_data_type_def odd_map_def)
  then show "is_valid_data_type heap' value t = is_valid_data_type heap value t"
    and "odd_map heap' value = odd_map heap value" by simp_all
qed

lemma data_check_kept:
  assumes "kept heap heap'" and "value_live heap' value" and "length es' = length es"
  shows "data_check get_type heap' es' i value = data_check get_type heap es i value"
  using assms(3) is_valid_kept(1) [OF assms(1,2)] by (auto simp: data_check_def split: option.split)

text \<open>The error a position refuses a value with; \<open>None\<close> when it takes it.\<close>

definition refusal ::
    "(nat \<Rightarrow> data_type option option) \<Rightarrow> collections \<Rightarrow> element list \<Rightarrow> bound_value \<Rightarrow> nat \<Rightarrow> lib_error option" where
  "refusal get_type heap es value i =
     (case data_check get_type heap es i value of
        Some None \<Rightarrow> (if odd_map heap value = Some True then Some CASS_ERROR_LIB_INVALID_ITEM_COUNT else None)
      | Some (Some rc) \<Rightarrow> Some rc
      | None \<Rightarrow> None)"

lemma data_set_all_spec:
  assumes "refs_ok handles (heap, es)" and "data_holds (heap, es) fs" and "value_owned handles value"
    and "list_all (\<lambda>i. data_check get_type heap es i value \<noteq> None) indices"
  shows "\<exists>heap' es'. data_set_all get_type indices value heap es =
      Some (case dropWhile (\<lambda>i. refusal get_type heap es value i = None) indices of
              [] \<Rightarrow> None | i # is \<Rightarrow> refusal get_type heap es value i, heap', es') \<and>
    refs_ok handles (heap', es') \<and>
    data_holds (heap', es')
      (foldl (\<lambda>fs i. fs[i := value_frame heap value]) fs
        (takeWhile (\<lambda>i. refusal get_type heap es value i = None) indices)) \<and>
    kept heap heap' \<and> length es' = length es"
  using assms
proof (induction indices arbitrary: heap es fs)
  case Nil
  then show ?case by simp
next
  case (Cons i "is")
  have live: "value_live heap value" by (rule owned_live [OF Cons.prems(1,3)])
  obtain bad where bad: "odd_map heap value = Some bad" using odd_map_live [OF live] by blast
  obtain rc where rc: "data_check get_type heap es i value = Some rc" using Cons.prems(4) by auto
  show ?case
  proof (cases "refusal get_type heap es value i")
    case (Some err)
    then have "data_set get_type i value heap es = Some (Inl err)"
      using rc bad by (auto simp: refusal_def data_set_def split: option.splits if_splits)
    then show ?thesis using Some Cons.prems(1,2) by simp
  next
    case None
    then have ok: "data_check get_type heap es i value = Some None" "odd_map heap value = Some False"
      using rc bad by (auto simp: refusal_def split: option.splits if_splits)
    obtain heap1 es1 where s: "data_set get_type i value heap es = Some (Inr (heap1, es1))"
        "refs_ok handles (heap1, es1)" "data_holds (heap1, es1) (fs[i := value_frame heap value])"
        "kept heap heap1" "length es1 = length es"
      using data_set_step [OF Cons.prems(1,2) live ok] by blast
    have live1: "value_live heap1 value" by (rule owned_live [OF s(2) Cons.prems(3)])
    have chk: "data_check get_type heap1 es1 j value = data_check get_type heap es j value" for j
      by (rule data_check_kept [OF s(4) live1 s(5)])
    have ref: "refusal get_type heap1 es1 value = refusal get_type heap es value"
      by (simp add: fun_eq_iff refusal_def chk is_valid_kept(2) [OF s(4) live1])
    have "list_all (\<lambda>j. data_check get_type heap1 es1 j value \<noteq> None) is"
      using Cons.prems(4) by (simp add: chk list_all_iff)
    from Cons.IH [OF s(2,3) Cons.prems(3) this] obtain heap' es' where
      "data_set_all get_type is value heap1 es1 =
        Some (case dropWhile (\<lambda>i. refusal get_type heap es value i = None) is of
                [] \<Rightarrow> None | i # is \<Rightarrow> refusal get_type heap es value i, heap', es')"
      "refs_ok handles (heap', es')" "kept heap1 heap'" "length es' = length es1"
      "data_holds (heap', es') (foldl (\<lambda>fs i. fs[i := value_frame heap value]) (fs[i := value_frame heap value])
        (takeWhile (\<lambda>i. refusal get_type heap es value i = None) is))"
      unfolding ref value_frame_kept [OF s(4) live1] by blast
    then show ?thesis using None s(1,5) kept_trans [OF s(4)] by simp
  qed
qed


section \<open>Properties\<close>

fun value_typed :: "collections \<Rightarrow> bound_value \<Rightarrow> bool" where
  "value_typed heap Bind_null \<longleftrightarrow> True"
| "value_typed heap (Bind_scalar s) \<longleftrightarrow> True"
| "value_typed heap (Bind_collection a) \<longleftrightarrow> (case heap a of None \<Rightarrow> False | Some c \<Rightarrow> well_formed (col_type c))"
| "value_typed heap (Bind_tuple v) \<longleftrightarrow> well_formed (tup_type v)"
| "value_typed heap (Bind_user_type v) \<longleftrightarrow> well_formed (udt_type v)"

lemma typed_is_valid:
  assumes "value_typed heap value" and "well_formed t"
  shows "is_valid_data_type heap value (Some t) \<noteq> None"
proof -
  have "data_equals u (Some t) \<noteq> None" if "well_formed u" for u
    using equals_defined(1) [OF that, of "Some t"] assms(2) by simp
  then show ?thesis using assms(1)
    by (cases "value") (auto simp: is_valid_data_type_def split: option.splits)
qed

lemma user_type_check_defined:
  assumes "value_typed heap value" and "length es = length fs"
    and "list_all (\<lambda>(n, t). case t of None \<Rightarrow> True | Some t \<Rightarrow> well_formed t) fs"
  shows "data_check (user_type_get_type (User_type k n fs)) heap es i value \<noteq> None"
proof (cases "i < length fs")
  case True
  then have "case snd (fs ! i) of None \<Rightarrow> True | Some t \<Rightarrow> well_formed t"
    using assms(3) by (cases "fs ! i") (auto simp: list_all_length)
  moreover have "\<not> well_formed t" if "is_valid_data_type heap value (Some t) = None" for t
    using typed_is_valid [OF assms(1)] that by blast
  ultimately show ?thesis using True assms(2)
    by (auto simp: data_check_def user_type_get_type_def split: option.splits)
qed (simp add: data_check_def assms(2))


definition example_fields :: "(string \<times> data_type option) list" where
  "example_fields =
     [(''a'', Some (Simple_type CASS_VALUE_TYPE_INT)), (''A'', Some (Simple_type CASS_VALUE_TYPE_TEXT))]"

definition example_udt :: user_type_value where
  "example_udt = \<lparr>udt_type = User_type ''ks'' ''t'' example_fields, udt_elements = [Elem_unset, Elem_unset]\<rparr>"


text \<open>setting an item of a tuple made for \<open>n\<close> items without types works for the indices below \<open>n\<close> and
  is refused above \<open>n\<close>, but the index \<open>n\<close> passes the check and writes behind the end of the items.\<close>

theorem tuple_index_checked:
  assumes "value_live heap value" and "tup_type v = Tuple_type []"
  shows "tuple_set heap index value v =
    (if index < length (tup_items v)
     then Some (Inr (v\<lparr>tup_items := (tup_items v)[index := frame_wire (value_frame heap value)]\<rparr>))
     else if index = length (tup_items v) then None
     else Some (Inl CASS_ERROR_LIB_INDEX_OUT_OF_BOUNDS))"
  using assms by (auto simp: tuple_set_def tuple_check_def tuple_item_frame)

theorem tuple_index_checked_witness:
  "tuple_set Map.empty 2 Bind_null (cass_tuple_new 2) = None \<and>
   tuple_set Map.empty 3 Bind_null (cass_tuple_new 2) = Some (Inl CASS_ERROR_LIB_INDEX_OUT_OF_BOUNDS)"
  using tuple_index_checked [of Map.empty Bind_null "cass_tuple_new 2" 2]
    tuple_index_checked [of Map.empty Bind_null "cass_tuple_new 2" 3]
  by (simp add: cass_tuple_new_def)

text \<open>The calls that set the items of a tuple, one after the other; one that is refused changes nothing.\<close>

fun tuple_set_items :: "collections \<Rightarrow> (nat \<times> bound_value) list \<Rightarrow> tuple_value \<Rightarrow> tuple_value option" where
  "tuple_set_items heap [] v = Some v"
| "tuple_set_items heap ((i, value) # sets) v =
     (case tuple_set heap i value v of
        None \<Rightarrow> None
      | Some (Inl rc) \<Rightarrow> tuple_set_items heap sets v
      | Some (Inr v) \<Rightarrow> tuple_set_items heap sets v)"

definition accepted :: "collections \<Rightarrow> data_type \<Rightarrow> nat \<Rightarrow> nat \<times> bound_value \<Rightarrow> bool" where
  "accepted heap t n s \<longleftrightarrow> fst s < n \<and> tuple_check heap \<lparr>tup_type = t, tup_items = replicate n []\<rparr> (fst s) (snd s) = Some None"

lemma tuple_set_items_holds:
  assumes "tuple_set_items heap sets v = Some v'" and "list_all (\<lambda>s. value_live heap (snd s)) sets"
    and "tuple_holds v fs"
  shows "tuple_holds v' (foldl (\<lambda>fs (i, value). fs[i := value_frame heap value]) fs
    (filter (accepted heap (tup_type v) (length fs)) sets))"
  using assms
proof (induction sets arbitrary: v fs)
  case (Cons s sets)
  obtain i "value" where s: "s = (i, value)" by (cases s)
  have n: "length (tup_items v) = length fs" by (rule tuple_holds_length [OF Cons.prems(3)])
  have chk: "tuple_check heap v i value =
      tuple_check heap \<lparr>tup_type = tup_type v, tup_items = replicate (length fs) []\<rparr> i value"
    by (simp add: tuple_check_def n)
  from Cons.prems(1) s obtain r where r: "tuple_set heap i value v = Some r" by (auto split: option.splits)
  show ?case
  proof (cases r)
    case (Inl rc)
    then have "tuple_check heap v i value \<noteq> Some None"
      using r by (auto simp: tuple_set_def split: option.splits if_splits)
    then show ?thesis using Cons.IH [OF _ _ Cons.prems(3)] Cons.prems(1,2) s r Inl chk
      by (simp add: accepted_def)
  next
    case (Inr v1)
    then have "accepted heap (tup_type v) (length fs) s"
      using r n s chk by (auto simp: tuple_set_def accepted_def split: option.splits if_splits)
    moreover have h: "tuple_holds v1 (fs[i := value_frame heap value])" "tup_type v1 = tup_type v"
      using tuple_set_holds [OF Cons.prems(3), of heap "value" i v1] Cons.prems(2) s r Inr by simp_all
    ultimately show ?thesis using Cons.IH [OF _ _ h(1)] Cons.prems(1,2) s r Inr h(2) by simp
  qed
qed simp

text \<open>whatever sequence of calls fills a tuple, its encoding is read back, value by value, as what was
  last accepted at each position, and as null where nothing was; and inside another value it is one
  value that holds exactly these bytes.\<close>

theorem tuple_reads_back:
  assumes "tuple_set_items heap sets (cass_tuple_new n) = Some v" and "list_all (\<lambda>s. value_live heap (snd s)) sets"
    and "fs = foldl (\<lambda>fs (i, value). fs[i := value_frame heap value]) (replicate n None)
      (filter (accepted heap (Tuple_type []) n) sets)"
    and "list_all frame_ok fs" and "tuple_encode v = Some bs" and "length bs < 2 ^ 31"
  shows "read_many (length fs) decode_bytes bs = Some (fs, []) \<and>
    (\<exists>framed. tuple_encode_with_length v = Some framed \<and> decode_bytes (framed @ rest) = Some (Some bs, rest))"
proof -
  have "tuple_holds v fs"
    using tuple_set_items_holds [OF assms(1,2) tuple_holds_new] assms(3) by (simp add: cass_tuple_new_def)
  from tuple.nested_reads_back [OF this assms(4,5,6), of rest] show ?thesis by blast
qed

theorem tuple_reads_back_witness:
  "read_many (length [Some [1 :: byte, 2], None]) decode_bytes [0, 0, 0, 2, 1, 2, 255, 255, 255, 255] =
     Some ([Some [1, 2], None], []) \<and>
   (\<exists>framed. tuple_encode_with_length \<lparr>tup_type = Tuple_type [], tup_items = [[0, 0, 0, 2, 1, 2], []]\<rparr> = Some framed \<and>
      decode_bytes (framed @ [9]) = Some (Some [0, 0, 0, 2, 1, 2, 255, 255, 255, 255], [9]))"
  by (rule tuple_reads_back [where heap = Map.empty and n = 2 and sets = "[(0, Bind_scalar (Val_bytes [1, 2])), (3, Bind_null)]"])
    (code_simp, simp, code_simp, simp add: frame_ok_def, code_simp, simp)

text \<open>a statement or a user type value shares the collection it is given: what is appended to the
  collection afterwards is sent. A tuple has the items of the time it was set.\<close>

theorem bound_collection_is_shared:
  assumes "es ! i = Elem_collection a" and "i < length es" and "collection_append a value heap = Some (Inr heap')"
    and "list_all (element_live heap) es" and "value_live heap value"
  shows "\<exists>c. heap a = Some c \<and>
    element_bytes heap' 3 (es ! i) = frame_wire (Some (collection_bytes 3
      (c\<lparr>col_items := col_items c @ [case value_frame heap value of None \<Rightarrow> [] | Some b \<Rightarrow> b]\<rparr>)))"
  using assms
  by (auto simp: collection_append_def element_bytes_def collection_item_bytes split: option.splits)

text \<open>a collection made from a data type is not counted for the application that holds it: freeing it fails the
  assertion, and the first element that refers to it and is destroyed deletes it.\<close>

theorem uncounted_collection:
  assumes "is_collection t" and "heap a = None"
  shows "cass_collection_free a (snd (cass_collection_new_from_data_type a t n heap)) = None \<and>
    (\<exists>heap' heap''. data_set (\<lambda>_. Some None) 0 (Bind_collection a)
        (snd (cass_collection_new_from_data_type a t n heap)) [Elem_unset] = Some (Inr (heap', [Elem_collection a])) \<and>
      release_elements [Elem_collection a] heap' = Some heap'' \<and> heap'' a = None \<and>
      cass_collection_free a heap'' = None)"
  using assms
  by (auto simp: cass_collection_free_def cass_collection_new_from_data_type_def dec_ref_def data_set_def
      data_check_def odd_map_def encode_element_def assign_element_def retain_element_def release_element_def inc_ref_def)

theorem uncounted_collection_witness:
  "cass_collection_free 5 (snd (cass_collection_new_from_data_type 5 (Collection_type CASS_VALUE_TYPE_LIST []) 1 Map.empty)) = None"
  using uncounted_collection [of "Collection_type CASS_VALUE_TYPE_LIST []" Map.empty 5 1]
  by (simp add: is_collection_def)

end
