(* ===== verification/Result.thy ===== *)
theory Result
  imports Values
begin

text \<open>
  What a query returns (\<open>result_response.cpp\<close>, \<open>result_metadata.cpp\<close>, \<open>value.cpp\<close>, \<open>row.cpp\<close> and
  the iterators): decoding the types and names of the columns, the rows, and reading the values.
  A pointer into the message is the list of the bytes from there to its end; reading behind the
  end is \<open>None\<close>, as are null pointers, wrong casts and failed assertions. The iterators over
  collections add sizes of any sign to their position, which is an offset into the data of the
  collection.
\<close>

section \<open>Types on the wire\<close>

text \<open>
  The numbers of \<open>cassandra.h\<close>. A number below the last entry without a name makes a type that
  equals no named type; all of these are \<open>CASS_VALUE_TYPE_UNKNOWN\<close> here.
\<close>

definition value_type_codes :: "(u16 \<times> value_type) list" where
  "value_type_codes =
     [(0x0, CASS_VALUE_TYPE_CUSTOM), (0x1, CASS_VALUE_TYPE_ASCII), (0x2, CASS_VALUE_TYPE_BIGINT),
      (0x3, CASS_VALUE_TYPE_BLOB), (0x4, CASS_VALUE_TYPE_BOOLEAN), (0x5, CASS_VALUE_TYPE_COUNTER),
      (0x6, CASS_VALUE_TYPE_DECIMAL), (0x7, CASS_VALUE_TYPE_DOUBLE), (0x8, CASS_VALUE_TYPE_FLOAT),
      (0x9, CASS_VALUE_TYPE_INT), (0xA, CASS_VALUE_TYPE_TEXT), (0xB, CASS_VALUE_TYPE_TIMESTAMP),
      (0xC, CASS_VALUE_TYPE_UUID), (0xD, CASS_VALUE_TYPE_VARCHAR), (0xE, CASS_VALUE_TYPE_VARINT),
      (0xF, CASS_VALUE_TYPE_TIMEUUID), (0x10, CASS_VALUE_TYPE_INET), (0x11, CASS_VALUE_TYPE_DATE),
      (0x12, CASS_VALUE_TYPE_TIME), (0x13, CASS_VALUE_TYPE_SMALL_INT), (0x14, CASS_VALUE_TYPE_TINY_INT),
      (0x20, CASS_VALUE_TYPE_LIST), (0x21, CASS_VALUE_TYPE_MAP), (0x22, CASS_VALUE_TYPE_SET),
      (0x30, CASS_VALUE_TYPE_UDT), (0x31, CASS_VALUE_TYPE_TUPLE)]"

definition CASS_VALUE_TYPE_LAST_ENTRY :: u16 where
  "CASS_VALUE_TYPE_LAST_ENTRY = 0x32"

definition value_type_of_code :: "u16 \<Rightarrow> value_type" where
  "value_type_of_code code =
     (case map_of value_type_codes code of None \<Rightarrow> CASS_VALUE_TYPE_UNKNOWN | Some v \<Rightarrow> v)"

definition bytes_string :: "bytes \<Rightarrow> string" where
  "bytes_string bs = map (\<lambda>b. char_of (unat b)) bs"

text \<open>
  \<open>DataTypeDecoder\<close>: the recursion descends one level per call, each of which consumes two bytes
  first; \<open>depth\<close> bounds it, and \<open>decode_data_type\<close> starts with the number of the bytes, which
  is enough (\<open>decode_type_depth_enough\<close>). The cache of the simple types does not show. The
  inner \<open>None\<close> is the null pointer of an unknown type.
\<close>

fun decode_type :: "nat \<Rightarrow> data_type option reader"
  and decode_types :: "nat \<Rightarrow> nat \<Rightarrow> data_type option list reader"
  and decode_fields :: "nat \<Rightarrow> nat \<Rightarrow> (string \<times> data_type option) list reader"
where
  "decode_type 0 input = None"
| "decode_type (Suc depth) input =
     (case decode_uint16 input of None \<Rightarrow> None
      | Some (code, buffer) \<Rightarrow>
          (case value_type_of_code code of
             CASS_VALUE_TYPE_CUSTOM \<Rightarrow>
               (case decode_string buffer of None \<Rightarrow> None
                | Some (class_name, buffer) \<Rightarrow> Some (Some (Custom_type (bytes_string class_name)), buffer))
           | CASS_VALUE_TYPE_LIST \<Rightarrow>
               (case decode_types depth 1 buffer of None \<Rightarrow> None
                | Some (ts, buffer) \<Rightarrow> Some (Some (Collection_type CASS_VALUE_TYPE_LIST ts), buffer))
           | CASS_VALUE_TYPE_SET \<Rightarrow>
               (case decode_types depth 1 buffer of None \<Rightarrow> None
                | Some (ts, buffer) \<Rightarrow> Some (Some (Collection_type CASS_VALUE_TYPE_SET ts), buffer))
           | CASS_VALUE_TYPE_MAP \<Rightarrow>
               (case decode_types depth 2 buffer of None \<Rightarrow> None
                | Some (ts, buffer) \<Rightarrow> Some (Some (Collection_type CASS_VALUE_TYPE_MAP ts), buffer))
           | CASS_VALUE_TYPE_UDT \<Rightarrow>
               (case decode_string buffer of None \<Rightarrow> None
                | Some (keyspace, buffer) \<Rightarrow>
                    (case decode_string buffer of None \<Rightarrow> None
                     | Some (type_name, buffer) \<Rightarrow>
                         (case decode_uint16 buffer of None \<Rightarrow> None
                          | Some (n, buffer) \<Rightarrow>
                              (case decode_fields depth (unat n) buffer of None \<Rightarrow> None
                               | Some (fs, buffer) \<Rightarrow>
                                   Some (Some (User_type (bytes_string keyspace) (bytes_string type_name) fs), buffer)))))
           | CASS_VALUE_TYPE_TUPLE \<Rightarrow>
               (case decode_uint16 buffer of None \<Rightarrow> None
                | Some (n, buffer) \<Rightarrow>
                    (case decode_types depth (unat n) buffer of None \<Rightarrow> None
                     | Some (ts, buffer) \<Rightarrow> Some (Some (Tuple_type ts), buffer)))
           | v \<Rightarrow> Some (if code < CASS_VALUE_TYPE_LAST_ENTRY then Some (Simple_type v) else None, buffer)))"
| "decode_types depth 0 buffer = Some ([], buffer)"
| "decode_types depth (Suc n) buffer =
     (case decode_type depth buffer of None \<Rightarrow> None
      | Some (t, buffer) \<Rightarrow>
          (case decode_types depth n buffer of None \<Rightarrow> None | Some (ts, buffer) \<Rightarrow> Some (t # ts, buffer)))"
| "decode_fields depth 0 buffer = Some ([], buffer)"
| "decode_fields depth (Suc n) buffer =
     (case decode_string buffer of None \<Rightarrow> None
      | Some (field_name, buffer) \<Rightarrow>
          (case decode_type depth buffer of None \<Rightarrow> None
           | Some (t, buffer) \<Rightarrow>
               (case decode_fields depth n buffer of None \<Rightarrow> None
                | Some (fs, buffer) \<Rightarrow> Some ((bytes_string field_name, t) # fs, buffer))))"

definition decode_data_type :: "data_type option reader" where
  "decode_data_type input = decode_type (length input) input"

section \<open>The columns of a result\<close>

record column =
  col_keyspace :: bytes
  col_table :: bytes
  col_data_type :: "data_type option"

type_synonym result_metadata = "column memory \<times> hash_table"

definition metadata_columns :: "result_metadata \<Rightarrow> column ht_entry list option" where
  "metadata_columns m = entries_of (fst m) (snd m)"

definition column_definition :: "result_metadata \<Rightarrow> nat \<Rightarrow> column ht_entry option" where
  "column_definition m index =
     (case metadata_columns m of None \<Rightarrow> None
      | Some defs \<Rightarrow> if index < length defs then Some (defs ! index) else None)"

definition metadata_column_count :: "result_metadata \<Rightarrow> nat option" where
  "metadata_column_count m = map_option length (metadata_columns m)"

definition metadata_get_indices :: "result_metadata \<Rightarrow> string \<Rightarrow> nat list option" where
  "metadata_get_indices m name = get_indices (fst m) (snd m) name"

definition metadata_add :: "column ht_entry \<Rightarrow> result_metadata \<Rightarrow> result_metadata option" where
  "metadata_add def m = add def (fst m) (snd m)"

section \<open>Values\<close>

record cass_value =
  val_version :: int
  val_type :: "data_type option"
  val_count :: int
  val_data :: bytes
  val_size :: int

text \<open>The default constructor; its data is not initialised.\<close>

definition value_null :: cass_value where
  "value_null = \<lparr>val_version = 0, val_type = None, val_count = 0, val_data = [], val_size = - 1\<rparr>"

definition value_new :: "int \<Rightarrow> data_type option \<Rightarrow> bytes \<Rightarrow> int \<Rightarrow> cass_value option" where
  "value_new version t data sz =
     (case t of None \<Rightarrow> None
      | Some d \<Rightarrow>
          if sz > 0 \<and> is_collection d then
            (case decode_size version data of None \<Rightarrow> None
             | Some (n, data) \<Rightarrow>
                 Some \<lparr>val_version = version, val_type = t, val_count = sint n, val_data = data,
                   val_size = (if version \<ge> 3 then sz - 4 else sz - 2)\<rparr>)
          else
            (case (if is_tuple d then map_option length (as_sub_types d)
                   else if is_user_type d then map_option (\<lambda>(k, n, fs). length fs) (as_user_type d)
                   else Some 0) of None \<Rightarrow> None
             | Some n \<Rightarrow>
                 Some \<lparr>val_version = version, val_type = t, val_count = int n, val_data = data, val_size = sz\<rparr>))"

definition value_value_type :: "cass_value \<Rightarrow> value_type" where
  "value_value_type v = (case val_type v of None \<Rightarrow> CASS_VALUE_TYPE_UNKNOWN | Some t \<Rightarrow> type_value t)"

definition primary_data_type :: "cass_value \<Rightarrow> data_type option option" where
  "primary_data_type v =
     (case val_type v of None \<Rightarrow> Some None
      | Some t \<Rightarrow>
          if \<not> is_collection t then Some None
          else (case as_sub_types t of None \<Rightarrow> None
                | Some ts \<Rightarrow> Some (if length ts < 1 then None else ts ! 0)))"

definition secondary_data_type :: "cass_value \<Rightarrow> data_type option option" where
  "secondary_data_type v =
     (case val_type v of None \<Rightarrow> Some None
      | Some t \<Rightarrow>
          if \<not> is_map t then Some None
          else (case as_sub_types t of None \<Rightarrow> None
                | Some ts \<Rightarrow> Some (if length ts < 2 then None else ts ! 1)))"

definition value_is_null :: "cass_value \<Rightarrow> bool" where
  "value_is_null v \<longleftrightarrow> val_size v < 0"

definition value_is_collection :: "cass_value \<Rightarrow> bool" where
  "value_is_collection v \<longleftrightarrow> (case val_type v of None \<Rightarrow> False | Some t \<Rightarrow> is_collection t)"

definition value_is_map :: "cass_value \<Rightarrow> bool" where
  "value_is_map v \<longleftrightarrow> (case val_type v of None \<Rightarrow> False | Some t \<Rightarrow> is_map t)"

definition value_is_tuple :: "cass_value \<Rightarrow> bool" where
  "value_is_tuple v \<longleftrightarrow> (case val_type v of None \<Rightarrow> False | Some t \<Rightarrow> is_tuple t)"

definition value_is_user_type :: "cass_value \<Rightarrow> bool" where
  "value_is_user_type v \<longleftrightarrow> (case val_type v of None \<Rightarrow> False | Some t \<Rightarrow> is_user_type t)"

definition to_string_ref :: "cass_value \<Rightarrow> bytes option" where
  "to_string_ref v =
     (if val_size v < 0 then Some []
      else if nat (val_size v) \<le> length (val_data v) then Some (take (nat (val_size v)) (val_data v)) else None)"


subsection \<open>The functions of the C interface that read a value\<close>

text \<open>
  A pointer to a value may be null. \<open>check_value\<close> is the beginning of each function: \<open>Inl\<close> is the
  error code.
\<close>

definition check_value :: "(value_type \<Rightarrow> bool) \<Rightarrow> cass_value option \<Rightarrow> lib_error + cass_value" where
  "check_value valid v =
     (case v of None \<Rightarrow> Inl CASS_ERROR_LIB_NULL_VALUE
      | Some v \<Rightarrow>
          if value_is_null v then Inl CASS_ERROR_LIB_NULL_VALUE
          else if \<not> valid (value_value_type v) then Inl CASS_ERROR_LIB_INVALID_VALUE_TYPE
          else Inr v)"

definition read_value :: "(value_type \<Rightarrow> bool) \<Rightarrow> 'a reader \<Rightarrow> cass_value option \<Rightarrow> (lib_error + 'a) option" where
  "read_value valid r v =
     (case check_value valid v of
        Inl rc \<Rightarrow> Some (Inl rc)
      | Inr v \<Rightarrow> map_option (\<lambda>(x, rest). Inr x) (r (val_data v)))"

definition cass_value_get_int8 :: "cass_value option \<Rightarrow> (lib_error + byte) option" where
  "cass_value_get_int8 v = read_value (\<lambda>t. t = CASS_VALUE_TYPE_TINY_INT) decode_int8 v"

definition cass_value_get_int16 :: "cass_value option \<Rightarrow> (lib_error + u16) option" where
  "cass_value_get_int16 v = read_value (\<lambda>t. t = CASS_VALUE_TYPE_SMALL_INT) decode_int16 v"

definition cass_value_get_int32 :: "cass_value option \<Rightarrow> (lib_error + u32) option" where
  "cass_value_get_int32 v = read_value (\<lambda>t. t = CASS_VALUE_TYPE_INT) decode_int32 v"

definition cass_value_get_uint32 :: "cass_value option \<Rightarrow> (lib_error + u32) option" where
  "cass_value_get_uint32 v = read_value (\<lambda>t. t = CASS_VALUE_TYPE_DATE) decode_uint32 v"

definition cass_value_get_int64 :: "cass_value option \<Rightarrow> (lib_error + u64) option" where
  "cass_value_get_int64 v = read_value is_int64_type decode_int64 v"

definition cass_value_get_float :: "cass_value option \<Rightarrow> (lib_error + u32) option" where
  "cass_value_get_float v = read_value (\<lambda>t. t = CASS_VALUE_TYPE_FLOAT) decode_float v"

definition cass_value_get_double :: "cass_value option \<Rightarrow> (lib_error + u64) option" where
  "cass_value_get_double v = read_value (\<lambda>t. t = CASS_VALUE_TYPE_DOUBLE) decode_double v"

definition cass_value_get_bool :: "cass_value option \<Rightarrow> (lib_error + byte) option" where
  "cass_value_get_bool v = read_value (\<lambda>t. t = CASS_VALUE_TYPE_BOOLEAN) decode_byte v"

definition cass_value_get_uuid :: "cass_value option \<Rightarrow> (lib_error + cass_uuid) option" where
  "cass_value_get_uuid v = read_value is_uuid_type decode_uuid v"

text \<open>
  The address is copied into an array of sixteen bytes without a check: more is a write behind
  its end. The result is the array's bytes that were copied and the length, cut to a byte.
\<close>

definition cass_value_get_inet :: "cass_value option \<Rightarrow> (lib_error + bytes \<times> byte) option" where
  "cass_value_get_inet v =
     (case check_value (\<lambda>t. t = CASS_VALUE_TYPE_INET) v of
        Inl rc \<Rightarrow> Some (Inl rc)
      | Inr v \<Rightarrow>
          if nat (val_size v) \<le> 16 \<and> nat (val_size v) \<le> length (val_data v)
          then Some (Inr (take (nat (val_size v)) (val_data v), word_of_int (val_size v))) else None)"

text \<open>The next two accept any type and return the pointer and the size.\<close>

definition cass_value_get_string :: "cass_value option \<Rightarrow> lib_error + bytes \<times> nat" where
  "cass_value_get_string v =
     (case check_value (\<lambda>_. True) v of
        Inl rc \<Rightarrow> Inl rc | Inr v \<Rightarrow> Inr (val_data v, nat (val_size v)))"

definition cass_value_get_bytes :: "cass_value option \<Rightarrow> lib_error + bytes \<times> nat" where
  "cass_value_get_bytes v =
     (case check_value (\<lambda>_. True) v of
        Inl rc \<Rightarrow> Inl rc | Inr v \<Rightarrow> Inr (val_data v, nat (val_size v)))"

text \<open>The size is a \<open>size_t\<close>: a value shorter than its scale gives a size close to \<open>2 ^ 64\<close>.\<close>

definition cass_value_get_decimal :: "cass_value option \<Rightarrow> (lib_error + bytes \<times> u64 \<times> u32) option" where
  "cass_value_get_decimal v =
     (case check_value (\<lambda>t. t = CASS_VALUE_TYPE_DECIMAL) v of
        Inl rc \<Rightarrow> Some (Inl rc)
      | Inr v \<Rightarrow>
          (case decode_int32 (val_data v) of None \<Rightarrow> None
           | Some (scale, varint) \<Rightarrow> Some (Inr (varint, word_of_int (val_size v - 4), scale))))"

subsection \<open>The functions of the driver itself\<close>

definition as_bool :: "cass_value \<Rightarrow> bool option" where
  "as_bool v =
     (if value_value_type v = CASS_VALUE_TYPE_BOOLEAN
      then map_option (\<lambda>(b, rest). b \<noteq> 0) (decode_byte (val_data v)) else None)"

definition as_int32 :: "cass_value \<Rightarrow> u32 option" where
  "as_int32 v =
     (if value_value_type v = CASS_VALUE_TYPE_INT then map_option fst (decode_int32 (val_data v)) else None)"

definition as_uuid :: "cass_value \<Rightarrow> cass_uuid option" where
  "as_uuid v =
     (if value_value_type v = CASS_VALUE_TYPE_UUID \<or> value_value_type v = CASS_VALUE_TYPE_TIMEUUID
      then map_option fst (decode_uuid (val_data v)) else None)"

section \<open>Iterators over collections\<close>

text \<open>Reading at an offset of the data, and adding a size to it.\<close>

definition read_at :: "'a reader \<Rightarrow> bytes \<Rightarrow> nat \<Rightarrow> ('a \<times> nat) option" where
  "read_at r data position =
     (if position \<le> length data
      then map_option (\<lambda>(x, rest). (x, length data - length rest)) (r (drop position data)) else None)"

definition advance :: "bytes \<Rightarrow> nat \<Rightarrow> int \<Rightarrow> nat option" where
  "advance data position n =
     (if 0 \<le> int position + n \<and> int position + n \<le> int (length data) then Some (nat (int position + n)) else None)"

definition decode_item ::
    "cass_value \<Rightarrow> data_type option option \<Rightarrow> nat \<Rightarrow> (cass_value \<times> nat) option" where
  "decode_item v t position =
     (case read_at (decode_size (val_version v)) (val_data v) position of None \<Rightarrow> None
      | Some (n, buffer) \<Rightarrow>
          (case t of None \<Rightarrow> None
           | Some t \<Rightarrow>
               (case value_new (val_version v) t (drop buffer (val_data v)) (sint n) of None \<Rightarrow> None
                | Some item \<Rightarrow> map_option (Pair item) (advance (val_data v) buffer (sint n)))))"

record collection_iterator =
  ci_collection :: cass_value
  ci_position :: nat
  ci_index :: int
  ci_count :: int
  ci_value :: cass_value

definition collection_iterator_new :: "cass_value \<Rightarrow> collection_iterator" where
  "collection_iterator_new v =
     \<lparr>ci_collection = v, ci_position = 0, ci_index = - 1,
      ci_count = (if value_value_type v = CASS_VALUE_TYPE_MAP then 2 * val_count v else val_count v),
      ci_value = value_null\<rparr>"

definition item_type :: "cass_value \<Rightarrow> int \<Rightarrow> data_type option option" where
  "item_type v i =
     (if value_value_type v = CASS_VALUE_TYPE_MAP then
        (if i mod 2 = 0 then primary_data_type v else secondary_data_type v)
      else primary_data_type v)"

definition collection_decode_value :: "collection_iterator \<Rightarrow> collection_iterator option" where
  "collection_decode_value it =
     (let v = ci_collection it in
      case decode_item v (item_type v (ci_index it)) (ci_position it) of None \<Rightarrow> None
      | Some (item, position) \<Rightarrow> Some (it\<lparr>ci_value := item, ci_position := position\<rparr>))"

definition collection_next :: "collection_iterator \<Rightarrow> (bool \<times> collection_iterator) option" where
  "collection_next it =
     (if ci_index it + 1 \<ge> ci_count it then Some (False, it)
      else map_option (Pair True) (collection_decode_value (it\<lparr>ci_index := ci_index it + 1\<rparr>)))"

record map_iterator =
  mi_map :: cass_value
  mi_position :: nat
  mi_key :: cass_value
  mi_value :: cass_value
  mi_index :: int
  mi_count :: int

definition map_iterator_new :: "cass_value \<Rightarrow> map_iterator" where
  "map_iterator_new v =
     \<lparr>mi_map = v, mi_position = 0, mi_key = value_null, mi_value = value_null, mi_index = - 1,
      mi_count = val_count v\<rparr>"

definition decode_pair :: "map_iterator \<Rightarrow> map_iterator option" where
  "decode_pair it =
     (case decode_item (mi_map it) (primary_data_type (mi_map it)) (mi_position it) of None \<Rightarrow> None
      | Some (key, position) \<Rightarrow>
          (case decode_item (mi_map it) (secondary_data_type (mi_map it)) position of None \<Rightarrow> None
           | Some (val, position) \<Rightarrow> Some (it\<lparr>mi_key := key, mi_value := val, mi_position := position\<rparr>)))"

definition map_next :: "map_iterator \<Rightarrow> (bool \<times> map_iterator) option" where
  "map_next it =
     (if mi_index it + 1 \<ge> mi_count it then Some (False, it)
      else map_option (Pair True) (decode_pair (it\<lparr>mi_index := mi_index it + 1\<rparr>)))"

definition map_key :: "map_iterator \<Rightarrow> cass_value option" where
  "map_key it = (if 0 \<le> mi_index it \<and> mi_index it < mi_count it then Some (mi_key it) else None)"

definition map_value :: "map_iterator \<Rightarrow> cass_value option" where
  "map_value it = (if 0 \<le> mi_index it \<and> mi_index it < mi_count it then Some (mi_value it) else None)"

section \<open>Iterators over tuples and user types\<close>

text \<open>\<open>None\<close> as the current position is an iterator that was never advanced.\<close>

record tuple_iterator =
  ti_version :: int
  ti_position :: bytes
  ti_next :: "data_type option list"
  ti_value :: cass_value

definition tuple_iterator_new :: "cass_value \<Rightarrow> tuple_iterator option" where
  "tuple_iterator_new v =
     (case val_type v of None \<Rightarrow> None
      | Some t \<Rightarrow>
          (case as_sub_types t of None \<Rightarrow> None
           | Some ts \<Rightarrow>
               Some \<lparr>ti_version = val_version v, ti_position = val_data v, ti_next = ts, ti_value = value_null\<rparr>))"

definition decode_field_value ::
    "int \<Rightarrow> data_type option \<Rightarrow> bytes \<Rightarrow> (cass_value \<times> bytes) option" where
  "decode_field_value version t position =
     (case decode_int32 position of None \<Rightarrow> None
      | Some (n, buffer) \<Rightarrow>
          (case value_new version t buffer (sint n) of None \<Rightarrow> None
           | Some v \<Rightarrow>
               if sint n > 0 then
                 (if nat (sint n) \<le> length buffer then Some (v, drop (nat (sint n)) buffer) else None)
               else Some (v, buffer)))"

definition tuple_next :: "tuple_iterator \<Rightarrow> (bool \<times> tuple_iterator) option" where
  "tuple_next it =
     (case ti_next it of
        [] \<Rightarrow> Some (False, it)
      | t # ts \<Rightarrow>
          (case decode_field_value (ti_version it) t (ti_position it) of None \<Rightarrow> None
           | Some (v, position) \<Rightarrow>
               Some (True, it\<lparr>ti_next := ts, ti_value := v, ti_position := position\<rparr>)))"

record user_type_iterator =
  ui_version :: int
  ui_position :: bytes
  ui_next :: "(string \<times> data_type option) list"
  ui_current :: "(string \<times> data_type option) option"
  ui_value :: cass_value

definition user_type_iterator_new :: "cass_value \<Rightarrow> user_type_iterator option" where
  "user_type_iterator_new v =
     (case val_type v of None \<Rightarrow> None
      | Some t \<Rightarrow>
          (case as_user_type t of None \<Rightarrow> None
           | Some (k, n, fs) \<Rightarrow>
               Some \<lparr>ui_version = val_version v, ui_position = val_data v, ui_next = fs, ui_current = None,
                 ui_value = value_null\<rparr>))"

definition user_type_next :: "user_type_iterator \<Rightarrow> (bool \<times> user_type_iterator) option" where
  "user_type_next it =
     (case ui_next it of
        [] \<Rightarrow> Some (False, it)
      | f # fs \<Rightarrow>
          (case decode_field_value (ui_version it) (snd f) (ui_position it) of None \<Rightarrow> None
           | Some (v, position) \<Rightarrow>
               Some (True, it\<lparr>ui_next := fs, ui_current := Some f, ui_value := v, ui_position := position\<rparr>)))"

text \<open>The current field, uninitialised before the first step, which is \<open>None\<close>.\<close>

definition user_type_field_name :: "user_type_iterator \<Rightarrow> string option" where
  "user_type_field_name it = map_option fst (ui_current it)"

definition user_type_field_value :: "user_type_iterator \<Rightarrow> cass_value option" where
  "user_type_field_value it = (case ui_current it of None \<Rightarrow> None | Some f \<Rightarrow> Some (ui_value it))"

text \<open>\<open>Value::as_stringlist\<close>: the loop ends, since the index grows to the count.\<close>

lemma collection_decode_value_index:
  "collection_decode_value it = Some it' \<Longrightarrow>
   ci_index it' = ci_index it \<and> ci_count it' = ci_count it \<and> ci_collection it' = ci_collection it"
  by (auto simp: collection_decode_value_def Let_def split: option.splits)

function stringlist_loop :: "collection_iterator \<Rightarrow> bytes list option" where
  "stringlist_loop it =
     (if ci_index it + 1 \<ge> ci_count it then Some []
      else (case collection_decode_value (it\<lparr>ci_index := ci_index it + 1\<rparr>) of None \<Rightarrow> None
            | Some it' \<Rightarrow>
                (case to_string_ref (ci_value it') of None \<Rightarrow> None
                 | Some s \<Rightarrow> map_option (Cons s) (stringlist_loop it'))))"
  by pat_completeness auto
termination
  by (relation "measure (\<lambda>it. nat (ci_count it - ci_index it))")
    (auto dest!: collection_decode_value_index)

declare stringlist_loop.simps [simp del]

definition as_stringlist :: "cass_value \<Rightarrow> bytes list option" where
  "as_stringlist v =
     (if value_value_type v = CASS_VALUE_TYPE_LIST \<or> value_value_type v = CASS_VALUE_TYPE_SET then
        (case primary_data_type v of
           Some (Some t) \<Rightarrow>
             if type_value t = CASS_VALUE_TYPE_VARCHAR then stringlist_loop (collection_iterator_new v) else None
         | _ \<Rightarrow> None)
      else None)"


section \<open>Decoding a result\<close>

definition CASS_RESULT_KIND_VOID :: u32 where "CASS_RESULT_KIND_VOID = 1"
definition CASS_RESULT_KIND_ROWS :: u32 where "CASS_RESULT_KIND_ROWS = 2"
definition CASS_RESULT_KIND_SET_KEYSPACE :: u32 where "CASS_RESULT_KIND_SET_KEYSPACE = 3"
definition CASS_RESULT_KIND_PREPARED :: u32 where "CASS_RESULT_KIND_PREPARED = 4"
definition CASS_RESULT_KIND_SCHEMA_CHANGE :: u32 where "CASS_RESULT_KIND_SCHEMA_CHANGE = 5"

definition CASS_RESULT_FLAG_GLOBAL_TABLESPEC :: u32 where "CASS_RESULT_FLAG_GLOBAL_TABLESPEC = 1"
definition CASS_RESULT_FLAG_HAS_MORE_PAGES :: u32 where "CASS_RESULT_FLAG_HAS_MORE_PAGES = 2"
definition CASS_RESULT_FLAG_NO_METADATA :: u32 where "CASS_RESULT_FLAG_NO_METADATA = 4"

record result_response =
  rr_protocol_version :: int
  rr_kind :: u32
  rr_has_more_pages :: bool
  rr_metadata :: "result_metadata option"
  rr_result_metadata :: "result_metadata option"
  rr_paging_state :: "bytes option"
  rr_prepared :: bytes
  rr_change :: bytes
  rr_keyspace :: bytes
  rr_table :: bytes
  rr_row_count :: int
  rr_rows :: bytes
  rr_first_row :: "cass_value list"
  rr_pk_indices :: "nat list"

definition result_response_new :: result_response where
  "result_response_new =
     \<lparr>rr_protocol_version = 0, rr_kind = CASS_RESULT_KIND_VOID, rr_has_more_pages = False, rr_metadata = None,
      rr_result_metadata = None, rr_paging_state = None, rr_prepared = [], rr_change = [], rr_keyspace = [],
      rr_table = [], rr_row_count = 0, rr_rows = [], rr_first_row = [], rr_pk_indices = []\<rparr>"

text \<open>One column definition; its keyspace and table stay empty when they are global.\<close>

definition decode_column :: "bool \<Rightarrow> column ht_entry reader" where
  "decode_column global buffer =
     (case (if global then Some (([], []), buffer)
            else (case decode_string buffer of None \<Rightarrow> None
                  | Some (keyspace, buffer) \<Rightarrow>
                      (case decode_string buffer of None \<Rightarrow> None
                       | Some (table, buffer) \<Rightarrow> Some ((keyspace, table), buffer)))) of
        None \<Rightarrow> None
      | Some ((keyspace, table), buffer) \<Rightarrow>
          (case decode_string buffer of None \<Rightarrow> None
           | Some (name, buffer) \<Rightarrow>
               (case decode_data_type buffer of None \<Rightarrow> None
                | Some (t, buffer) \<Rightarrow>
                    Some (new_entry (bytes_string name)
                      \<lparr>col_keyspace = keyspace, col_table = table, col_data_type = t\<rparr>, buffer))))"

fun decode_columns :: "bool \<Rightarrow> nat \<Rightarrow> result_metadata \<Rightarrow> result_metadata reader" where
  "decode_columns global 0 m buffer = Some (m, buffer)"
| "decode_columns global (Suc n) m buffer =
     (case decode_column global buffer of None \<Rightarrow> None
      | Some (def, buffer) \<Rightarrow>
          (case metadata_add def m of None \<Rightarrow> None | Some m \<Rightarrow> decode_columns global n m buffer))"

text \<open>
  \<open>decode_metadata\<close> returns the metadata it made, which is null when the message has none. A
  negative number of columns, which as a size is more than can be allocated, is \<open>None\<close>.
\<close>

definition decode_metadata ::
    "bool \<Rightarrow> result_response \<Rightarrow> bytes \<Rightarrow> ((result_metadata option \<times> result_response) \<times> bytes) option" where
  "decode_metadata has_pk_indices r input =
     (case decode_int32 input of None \<Rightarrow> None
      | Some (flags, buffer) \<Rightarrow>
     (case decode_int32 buffer of None \<Rightarrow> None
      | Some (column_count, buffer) \<Rightarrow>
     (case (if has_pk_indices then
              (case decode_int32 buffer of None \<Rightarrow> None
               | Some (pk_count, buffer) \<Rightarrow> read_many (nat (sint pk_count)) decode_uint16 buffer)
            else Some ([], buffer)) of None \<Rightarrow> None
      | Some (pks, buffer) \<Rightarrow>
     (let r = r\<lparr>rr_pk_indices := rr_pk_indices r @ map unat pks\<rparr>;
          more_pages = flags AND CASS_RESULT_FLAG_HAS_MORE_PAGES \<noteq> 0
      in case (if more_pages then decode_bytes buffer else Some (rr_paging_state r, buffer)) of None \<Rightarrow> None
      | Some (paging_state, buffer) \<Rightarrow>
     (let r = r\<lparr>rr_has_more_pages := more_pages, rr_paging_state := paging_state\<rparr>
      in if flags AND CASS_RESULT_FLAG_NO_METADATA \<noteq> 0 then Some ((None, r), buffer)
         else
           (let global = flags AND CASS_RESULT_FLAG_GLOBAL_TABLESPEC \<noteq> 0
            in case (if global then
                       (case decode_string buffer of None \<Rightarrow> None
                        | Some (keyspace, buffer) \<Rightarrow>
                            (case decode_string buffer of None \<Rightarrow> None
                             | Some (table, buffer) \<Rightarrow> Some (r\<lparr>rr_keyspace := keyspace, rr_table := table\<rparr>, buffer)))
                     else Some (r, buffer)) of None \<Rightarrow> None
            | Some (r, buffer) \<Rightarrow>
                (case (if sint column_count < 0 then None
                       else table_with_capacity (nat (sint column_count)) empty_memory) of None \<Rightarrow> None
                 | Some m \<Rightarrow>
                     (case decode_columns global (nat (sint column_count)) m buffer of None \<Rightarrow> None
                      | Some (m, buffer) \<Rightarrow> Some ((Some m, r), buffer)))))))))"

definition decode_rows :: "result_response \<Rightarrow> bytes \<Rightarrow> result_response option" where
  "decode_rows r input =
     (case decode_metadata False r input of None \<Rightarrow> None
      | Some ((m, r), buffer) \<Rightarrow>
          (case decode_int32 buffer of None \<Rightarrow> None
           | Some (row_count, rows) \<Rightarrow>
               Some (r\<lparr>rr_metadata := (case m of None \<Rightarrow> rr_metadata r | Some m \<Rightarrow> Some m),
                 rr_row_count := sint row_count, rr_rows := rows\<rparr>)))"

definition decode_set_keyspace :: "result_response \<Rightarrow> bytes \<Rightarrow> result_response option" where
  "decode_set_keyspace r input =
     map_option (\<lambda>(keyspace, buffer). r\<lparr>rr_keyspace := keyspace\<rparr>) (decode_string input)"

definition decode_prepared :: "int \<Rightarrow> result_response \<Rightarrow> bytes \<Rightarrow> result_response option" where
  "decode_prepared version r input =
     (case decode_string input of None \<Rightarrow> None
      | Some (prepared, buffer) \<Rightarrow>
          (case decode_metadata (version \<ge> 4) (r\<lparr>rr_prepared := prepared\<rparr>) buffer of None \<Rightarrow> None
           | Some ((m, r), buffer) \<Rightarrow>
               (let r = r\<lparr>rr_metadata := (case m of None \<Rightarrow> rr_metadata r | Some m \<Rightarrow> Some m)\<rparr>
                in if version > 1 then
                     (case decode_metadata False r buffer of None \<Rightarrow> None
                      | Some ((m, r), buffer) \<Rightarrow>
                          Some (r\<lparr>rr_result_metadata := (case m of None \<Rightarrow> rr_result_metadata r | Some m \<Rightarrow> Some m)\<rparr>))
                   else Some r)))"

definition decode_schema_change :: "result_response \<Rightarrow> bytes \<Rightarrow> result_response option" where
  "decode_schema_change r input =
     (case decode_string input of None \<Rightarrow> None
      | Some (change, buffer) \<Rightarrow>
          (case decode_string buffer of None \<Rightarrow> None
           | Some (keyspace, buffer) \<Rightarrow>
               (case decode_string buffer of None \<Rightarrow> None
                | Some (table, buffer) \<Rightarrow>
                    Some (r\<lparr>rr_change := change, rr_keyspace := keyspace, rr_table := table\<rparr>))))"

definition result_decode :: "int \<Rightarrow> bytes \<Rightarrow> result_response \<Rightarrow> result_response option" where
  "result_decode version input r =
     (case decode_int32 input of None \<Rightarrow> None
      | Some (kind, buffer) \<Rightarrow>
          (let r = r\<lparr>rr_protocol_version := version, rr_kind := kind\<rparr>
           in if kind = CASS_RESULT_KIND_VOID then Some r
              else if kind = CASS_RESULT_KIND_ROWS then decode_rows r buffer
              else if kind = CASS_RESULT_KIND_SET_KEYSPACE then decode_set_keyspace r buffer
              else if kind = CASS_RESULT_KIND_PREPARED then decode_prepared version r buffer
              else if kind = CASS_RESULT_KIND_SCHEMA_CHANGE then decode_schema_change r buffer
              else None))"

section \<open>Rows\<close>

definition result_column_count :: "result_response \<Rightarrow> nat option" where
  "result_column_count r =
     (case rr_metadata r of None \<Rightarrow> Some 0 | Some m \<Rightarrow> metadata_column_count m)"

fun decode_row_values :: "int \<Rightarrow> column ht_entry list \<Rightarrow> cass_value list reader" where
  "decode_row_values version [] buffer = Some ([], buffer)"
| "decode_row_values version (def # defs) buffer =
     (case decode_int32 buffer of None \<Rightarrow> None
      | Some (n, buffer) \<Rightarrow>
          (case (if sint n \<ge> 0 then
                   (case value_new version (col_data_type (ent_data def)) buffer (sint n) of None \<Rightarrow> None
                    | Some v \<Rightarrow>
                        if nat (sint n) \<le> length buffer then Some (v, drop (nat (sint n)) buffer) else None)
                 else Some (value_null, buffer)) of None \<Rightarrow> None
           | Some (v, buffer) \<Rightarrow>
               (case decode_row_values version defs buffer of None \<Rightarrow> None
                | Some (vs, buffer) \<Rightarrow> Some (v # vs, buffer))))"

definition decode_row :: "result_response \<Rightarrow> cass_value list reader" where
  "decode_row r rows =
     (case (case rr_metadata r of None \<Rightarrow> Some [] | Some m \<Rightarrow> metadata_columns m) of None \<Rightarrow> None
      | Some defs \<Rightarrow> decode_row_values (rr_protocol_version r) defs rows)"

definition decode_first_row :: "result_response \<Rightarrow> result_response option" where
  "decode_first_row r =
     (if rr_row_count r > 0 then
        map_option (\<lambda>(vs, rows). r\<lparr>rr_first_row := vs, rr_rows := rows\<rparr>) (decode_row r (rr_rows r))
      else Some r)"

text \<open>\<open>get_by_name\<close>: the row of a result whose metadata is null follows a null pointer.\<close>

definition row_get_by_name :: "result_response \<Rightarrow> cass_value list \<Rightarrow> string \<Rightarrow> cass_value option option" where
  "row_get_by_name r vs name =
     (case rr_metadata r of None \<Rightarrow> None
      | Some m \<Rightarrow>
          (case metadata_get_indices m name of None \<Rightarrow> None
           | Some [] \<Rightarrow> Some None
           | Some (i # is) \<Rightarrow> if i < length vs then Some (Some (vs ! i)) else None))"

definition row_get_string_by_name :: "result_response \<Rightarrow> cass_value list \<Rightarrow> string \<Rightarrow> bytes option option" where
  "row_get_string_by_name r vs name =
     (case row_get_by_name r vs name of None \<Rightarrow> None
      | Some None \<Rightarrow> Some None
      | Some (Some v) \<Rightarrow>
          if val_size v < 0 then Some None
          else if nat (val_size v) \<le> length (val_data v)
          then Some (Some (take (nat (val_size v)) (val_data v))) else None)"

definition cass_row_get_column :: "cass_value list \<Rightarrow> nat \<Rightarrow> cass_value option" where
  "cass_row_get_column vs index = (if index \<ge> length vs then None else Some (vs ! index))"

record result_iterator =
  ri_result :: result_response
  ri_index :: int
  ri_position :: bytes
  ri_row :: "cass_value list"

definition result_iterator_new :: "result_response \<Rightarrow> result_iterator" where
  "result_iterator_new r = \<lparr>ri_result = r, ri_index = - 1, ri_position = rr_rows r, ri_row = []\<rparr>"

definition result_next :: "result_iterator \<Rightarrow> (bool \<times> result_iterator) option" where
  "result_next it =
     (if ri_index it + 1 \<ge> rr_row_count (ri_result it) then Some (False, it)
      else
        (let it = it\<lparr>ri_index := ri_index it + 1\<rparr>
         in if ri_index it > 0 then
              map_option (\<lambda>(vs, position). (True, it\<lparr>ri_row := vs, ri_position := position\<rparr>))
                (decode_row (ri_result it) (ri_position it))
            else Some (True, it)))"

definition result_row :: "result_iterator \<Rightarrow> cass_value list option" where
  "result_row it =
     (if ri_index it \<ge> 0 \<and> ri_index it < rr_row_count (ri_result it) then
        Some (if ri_index it > 0 then ri_row it else rr_first_row (ri_result it))
      else None)"

record row_iterator =
  wi_row :: "cass_value list"
  wi_index :: int

definition row_next :: "row_iterator \<Rightarrow> bool \<times> row_iterator" where
  "row_next it =
     (if nat (wi_index it + 1) \<ge> length (wi_row it) then (False, it)
      else (True, it\<lparr>wi_index := wi_index it + 1\<rparr>))"

definition row_column :: "row_iterator \<Rightarrow> cass_value option" where
  "row_column it =
     (if wi_index it \<ge> 0 \<and> nat (wi_index it) < length (wi_row it)
      then Some (wi_row it ! nat (wi_index it)) else None)"

section \<open>The C interface of results and iterators\<close>

definition cass_result_row_count :: "result_response \<Rightarrow> int" where
  "cass_result_row_count r = (if rr_kind r = CASS_RESULT_KIND_ROWS then rr_row_count r else 0)"

definition cass_result_column_count :: "result_response \<Rightarrow> nat option" where
  "cass_result_column_count r = (if rr_kind r = CASS_RESULT_KIND_ROWS then result_column_count r else Some 0)"

text \<open>The metadata is used before the kind is checked; without metadata it is a null pointer.\<close>

definition cass_result_column_name :: "result_response \<Rightarrow> nat \<Rightarrow> (lib_error + string) option" where
  "cass_result_column_name r index =
     (case rr_metadata r of None \<Rightarrow> None
      | Some m \<Rightarrow>
          (case metadata_column_count m of None \<Rightarrow> None
           | Some n \<Rightarrow>
               if index \<ge> n then Some (Inl CASS_ERROR_LIB_INDEX_OUT_OF_BOUNDS)
               else if rr_kind r \<noteq> CASS_RESULT_KIND_ROWS then Some (Inl CASS_ERROR_LIB_BAD_PARAMS)
               else map_option (\<lambda>def. Inr (ent_name def)) (column_definition m index)))"

definition cass_result_column_type :: "result_response \<Rightarrow> nat \<Rightarrow> value_type option" where
  "cass_result_column_type r index =
     (if rr_kind r = CASS_RESULT_KIND_ROWS then
        (case rr_metadata r of None \<Rightarrow> None
         | Some m \<Rightarrow>
             (case metadata_column_count m of None \<Rightarrow> None
              | Some n \<Rightarrow>
                  if index < n then
                    (case column_definition m index of None \<Rightarrow> None
                     | Some def \<Rightarrow> map_option type_value (col_data_type (ent_data def)))
                  else Some CASS_VALUE_TYPE_UNKNOWN))
      else Some CASS_VALUE_TYPE_UNKNOWN)"

definition cass_result_column_data_type :: "result_response \<Rightarrow> nat \<Rightarrow> data_type option option" where
  "cass_result_column_data_type r index =
     (if rr_kind r = CASS_RESULT_KIND_ROWS then
        (case rr_metadata r of None \<Rightarrow> None
         | Some m \<Rightarrow>
             (case metadata_column_count m of None \<Rightarrow> None
              | Some n \<Rightarrow>
                  if index < n then map_option (\<lambda>def. col_data_type (ent_data def)) (column_definition m index)
                  else Some None))
      else Some None)"

definition cass_result_first_row :: "result_response \<Rightarrow> cass_value list option" where
  "cass_result_first_row r =
     (if rr_kind r = CASS_RESULT_KIND_ROWS \<and> rr_row_count r > 0 then Some (rr_first_row r) else None)"

definition cass_result_paging_state_token :: "result_response \<Rightarrow> lib_error + bytes" where
  "cass_result_paging_state_token r =
     (if \<not> rr_has_more_pages r then Inl CASS_ERROR_LIB_NO_PAGING_STATE
      else Inr (case rr_paging_state r of None \<Rightarrow> [] | Some s \<Rightarrow> s))"

datatype iterator =
  It_result result_iterator
| It_row row_iterator
| It_collection collection_iterator
| It_tuple tuple_iterator
| It_map map_iterator
| It_user_type user_type_iterator

definition cass_iterator_from_result :: "result_response \<Rightarrow> iterator" where
  "cass_iterator_from_result r = It_result (result_iterator_new r)"

definition cass_iterator_from_row :: "cass_value list \<Rightarrow> iterator" where
  "cass_iterator_from_row vs = It_row \<lparr>wi_row = vs, wi_index = - 1\<rparr>"

definition cass_iterator_from_collection :: "cass_value \<Rightarrow> iterator option" where
  "cass_iterator_from_collection v =
     (if value_is_null v \<or> \<not> value_is_collection v then None
      else Some (It_collection (collection_iterator_new v)))"

text \<open>A wrong cast is the outer \<open>None\<close>.\<close>

definition cass_iterator_from_tuple :: "cass_value \<Rightarrow> iterator option option" where
  "cass_iterator_from_tuple v =
     (if value_is_null v \<or> \<not> value_is_tuple v then Some None
      else map_option (\<lambda>it. Some (It_tuple it)) (tuple_iterator_new v))"

definition cass_iterator_from_map :: "cass_value \<Rightarrow> iterator option" where
  "cass_iterator_from_map v =
     (if value_is_null v \<or> \<not> value_is_map v then None else Some (It_map (map_iterator_new v)))"

definition cass_iterator_fields_from_user_type :: "cass_value \<Rightarrow> iterator option option" where
  "cass_iterator_fields_from_user_type v =
     (if value_is_null v \<or> \<not> value_is_user_type v then Some None
      else map_option (\<lambda>it. Some (It_user_type it)) (user_type_iterator_new v))"

fun cass_iterator_next :: "iterator \<Rightarrow> (bool \<times> iterator) option" where
  "cass_iterator_next (It_result it) = map_option (map_prod id It_result) (result_next it)"
| "cass_iterator_next (It_row it) = Some (map_prod id It_row (row_next it))"
| "cass_iterator_next (It_collection it) = map_option (map_prod id It_collection) (collection_next it)"
| "cass_iterator_next (It_tuple it) = map_option (map_prod id It_tuple) (tuple_next it)"
| "cass_iterator_next (It_map it) = map_option (map_prod id It_map) (map_next it)"
| "cass_iterator_next (It_user_type it) = map_option (map_prod id It_user_type) (user_type_next it)"

text \<open>The accessors return null for the wrong kind of iterator: the inner \<open>None\<close>.\<close>

definition cass_iterator_get_row :: "iterator \<Rightarrow> cass_value list option option" where
  "cass_iterator_get_row it = (case it of It_result it \<Rightarrow> map_option Some (result_row it) | _ \<Rightarrow> Some None)"

definition cass_iterator_get_column :: "iterator \<Rightarrow> cass_value option option" where
  "cass_iterator_get_column it = (case it of It_row it \<Rightarrow> map_option Some (row_column it) | _ \<Rightarrow> Some None)"

definition cass_iterator_get_value :: "iterator \<Rightarrow> cass_value option" where
  "cass_iterator_get_value it =
     (case it of It_collection it \<Rightarrow> Some (ci_value it) | It_tuple it \<Rightarrow> Some (ti_value it) | _ \<Rightarrow> None)"

definition cass_iterator_get_map_key :: "iterator \<Rightarrow> cass_value option option" where
  "cass_iterator_get_map_key it = (case it of It_map it \<Rightarrow> map_option Some (map_key it) | _ \<Rightarrow> Some None)"

definition cass_iterator_get_map_value :: "iterator \<Rightarrow> cass_value option option" where
  "cass_iterator_get_map_value it = (case it of It_map it \<Rightarrow> map_option Some (map_value it) | _ \<Rightarrow> Some None)"

definition cass_iterator_get_user_type_field_name :: "iterator \<Rightarrow> (lib_error + string) option" where
  "cass_iterator_get_user_type_field_name it =
     (case it of It_user_type it \<Rightarrow> map_option Inr (user_type_field_name it)
      | _ \<Rightarrow> Some (Inl CASS_ERROR_LIB_BAD_PARAMS))"

definition cass_iterator_get_user_type_field_value :: "iterator \<Rightarrow> cass_value option option" where
  "cass_iterator_get_user_type_field_value it =
     (case it of It_user_type it \<Rightarrow> map_option Some (user_type_field_value it) | _ \<Rightarrow> Some None)"


section \<open>The contract of an iterator\<close>

text \<open>
  The loop of an application: advance, and look at the item while there is one. \<open>fuel\<close> bounds the
  rounds; \<open>None\<close> is a failed step or item, or not enough fuel.
\<close>

fun walk :: "('it \<Rightarrow> (bool \<times> 'it) option) \<Rightarrow> ('it \<Rightarrow> 'v option) \<Rightarrow> nat \<Rightarrow> 'it \<Rightarrow> 'v list option" where
  "walk step item 0 it = None"
| "walk step item (Suc fuel) it =
     (case step it of None \<Rightarrow> None
      | Some (False, it) \<Rightarrow> Some []
      | Some (True, it) \<Rightarrow>
          (case item it of None \<Rightarrow> None
           | Some v \<Rightarrow> map_option (Cons v) (walk step item fuel it)))"

text \<open>
  What an iterator promises: with \<open>xs\<close> left, it ends when there are none, and else it advances to
  an item that shows the first of them, with the others left.
\<close>

locale iterates =
  fixes step :: "'it \<Rightarrow> (bool \<times> 'it) option"
    and item :: "'it \<Rightarrow> 'v option"
    and left :: "'it \<Rightarrow> 'x list \<Rightarrow> bool"
    and shows_item :: "'v \<Rightarrow> 'x \<Rightarrow> bool"
  assumes step_end: "left it [] \<Longrightarrow> \<exists>it'. step it = Some (False, it')"
    and step_item: "left it (x # xs) \<Longrightarrow>
      \<exists>it' v. step it = Some (True, it') \<and> item it' = Some v \<and> shows_item v x \<and> left it' xs"
begin

lemma walk_all:
  "left it xs \<Longrightarrow> length xs < fuel \<Longrightarrow> \<exists>vs. walk step item fuel it = Some vs \<and> list_all2 shows_item vs xs"
proof (induction xs arbitrary: it fuel)
  case Nil
  then show ?case using step_end [OF Nil.prems(1)] by (cases fuel) auto
next
  case (Cons x xs)
  then obtain n where n: "fuel = Suc n" "length xs < n" by (cases fuel) auto
  obtain it' v where s: "step it = Some (True, it')" "item it' = Some v" "shows_item v x" "left it' xs"
    using step_item [OF Cons.prems(1)] by blast
  from Cons.IH [OF s(4) n(2)] s n(1) show ?case by auto
qed

lemma walk_length:
  "left it xs \<Longrightarrow> length xs < fuel \<Longrightarrow> walk step item fuel it = Some vs \<Longrightarrow> length vs = length xs"
  using walk_all [of it xs fuel] by (auto dest: list_all2_lengthD)

end

text \<open>
  A value shows a type and a frame: it is null, or what the constructor makes of the bytes with any
  bytes behind them.
\<close>

definition value_shows :: "int \<Rightarrow> cass_value \<Rightarrow> data_type option \<times> bytes option \<Rightarrow> bool" where
  "value_shows version v x \<longleftrightarrow>
     (case snd x of None \<Rightarrow> val_size v < 0
      | Some b \<Rightarrow> \<exists>rest. value_new version (fst x) (b @ rest) (int (length b)) = Some v)"

definition readable :: "int \<Rightarrow> data_type option \<times> bytes option \<Rightarrow> bool" where
  "readable version x \<longleftrightarrow>
     (case snd x of None \<Rightarrow> value_new version (fst x) [] (- 1) \<noteq> None
      | Some b \<Rightarrow> value_new version (fst x) b (int (length b)) \<noteq> None)"

lemma decode_uint16_more: "decode_uint16 bs = Some (x, r) \<Longrightarrow> decode_uint16 (bs @ rest) = Some (x, r @ rest)"
  by (cases bs rule: decode_uint16.cases) auto

lemma decode_int32_more: "decode_int32 bs = Some (x, r) \<Longrightarrow> decode_int32 (bs @ rest) = Some (x, r @ rest)"
  by (cases bs rule: decode_int32.cases) auto

lemma decode_size_more: "decode_size version bs = Some (x, r) \<Longrightarrow> decode_size version (bs @ rest) = Some (x, r @ rest)"
  by (auto simp: decode_size_def decode_int32_more decode_uint16_more split: option.split_asm if_splits)

lemma value_new_more:
  "value_new version t b n = Some v \<Longrightarrow> \<exists>v'. value_new version t (b @ rest) n = Some v'"
  by (auto simp: value_new_def split: option.splits if_splits dest: decode_size_more [of version b _ _ rest])

lemma value_new_negative:
  "n < 0 \<Longrightarrow> value_new version t [] (- 1) \<noteq> None \<Longrightarrow> \<exists>v. value_new version t b n = Some v \<and> val_size v = n"
  by (auto simp: value_new_def split: option.splits if_splits)

subsection \<open>Tuples and user types\<close>

lemma decode_field_value_frame:
  assumes "frame_ok f" and "readable version (t, f)"
  shows "\<exists>v. decode_field_value version t (frame_wire f @ rest) = Some (v, rest) \<and> value_shows version v (t, f)"
proof (cases f)
  case None
  have "sint (- 1 :: u32) = - 1" by simp
  moreover obtain v where "value_new version t rest (- 1) = Some v" "val_size v = - 1"
    using value_new_negative [of "- 1" version t rest] assms(2) None by (auto simp: readable_def)
  ultimately show ?thesis using None
    by (simp add: decode_field_value_def frame_wire_def wire_simps value_shows_def)
next
  case (Some b)
  then have len: "length b < 2147483648" using assms(1) by (simp add: frame_ok_def)
  obtain v where v: "value_new version t (b @ rest) (int (length b)) = Some v"
    using value_new_more assms(2) Some by (fastforce simp: readable_def)
  have "decode_field_value version t (frame_wire f @ rest) = Some (v, rest)"
    using len v Some by (simp add: decode_field_value_def frame_wire_def long_string_wire_def wire_simps)
  then show ?thesis using v Some by (auto simp: value_shows_def)
qed

definition tuple_left :: "int \<Rightarrow> tuple_iterator \<Rightarrow> (data_type option \<times> bytes option) list \<Rightarrow> bool" where
  "tuple_left version it xs \<longleftrightarrow>
     ti_version it = version \<and> ti_next it = map fst xs \<and>
     (\<exists>rest. ti_position it = concat (map (frame_wire \<circ> snd) xs) @ rest) \<and>
     list_all (\<lambda>x. frame_ok (snd x) \<and> readable version x) xs"

definition user_type_left ::
    "int \<Rightarrow> user_type_iterator \<Rightarrow> ((string \<times> data_type option) \<times> bytes option) list \<Rightarrow> bool" where
  "user_type_left version it xs \<longleftrightarrow>
     ui_version it = version \<and> ui_next it = map fst xs \<and>
     (\<exists>rest. ui_position it = concat (map (frame_wire \<circ> snd) xs) @ rest) \<and>
     list_all (\<lambda>x. frame_ok (snd x) \<and> readable version (snd (fst x), snd x)) xs"

definition user_type_item :: "user_type_iterator \<Rightarrow> (string \<times> cass_value) option" where
  "user_type_item it =
     (case user_type_field_name it of None \<Rightarrow> None
      | Some name \<Rightarrow> map_option (Pair name) (user_type_field_value it))"

interpretation tuple_iteration: iterates tuple_next "\<lambda>it. Some (ti_value it)" "tuple_left version" "value_shows version"
  for version
proof
  fix it
  show "tuple_left version it [] \<Longrightarrow> \<exists>it'. tuple_next it = Some (False, it')"
    by (simp add: tuple_left_def tuple_next_def)
next
  fix it x xs
  assume l: "tuple_left version it (x # xs)"
  then obtain rest where pos: "ti_position it = frame_wire (snd x) @ concat (map (frame_wire \<circ> snd) xs) @ rest"
    by (auto simp: tuple_left_def)
  obtain v where "decode_field_value version (fst x) (ti_position it) =
      Some (v, concat (map (frame_wire \<circ> snd) xs) @ rest)" "value_shows version v x"
    using decode_field_value_frame [of "snd x" version "fst x"] l pos by (auto simp: tuple_left_def)
  then show "\<exists>it' v. tuple_next it = Some (True, it') \<and> Some (ti_value it') = Some v \<and> value_shows version v x \<and>
      tuple_left version it' xs"
    using l by (auto simp: tuple_left_def tuple_next_def)
qed

interpretation user_type_iteration: iterates user_type_next user_type_item "user_type_left version"
  "\<lambda>v x. fst v = fst (fst x) \<and> value_shows version (snd v) (snd (fst x), snd x)"
  for version
proof
  fix it
  show "user_type_left version it [] \<Longrightarrow> \<exists>it'. user_type_next it = Some (False, it')"
    by (simp add: user_type_left_def user_type_next_def)
next
  fix it x xs
  assume l: "user_type_left version it (x # xs)"
  then obtain rest where pos: "ui_position it = frame_wire (snd x) @ concat (map (frame_wire \<circ> snd) xs) @ rest"
    by (auto simp: user_type_left_def)
  obtain v where "decode_field_value version (snd (fst x)) (ui_position it) =
      Some (v, concat (map (frame_wire \<circ> snd) xs) @ rest)" "value_shows version v (snd (fst x), snd x)"
    using decode_field_value_frame [of "snd x" version "snd (fst x)"] l pos by (auto simp: user_type_left_def)
  then show "\<exists>it' v. user_type_next it = Some (True, it') \<and> user_type_item it' = Some v \<and>
      (fst v = fst (fst x) \<and> value_shows version (snd v) (snd (fst x), snd x)) \<and> user_type_left version it' xs"
    using l by (auto simp: user_type_left_def user_type_next_def user_type_item_def user_type_field_name_def
        user_type_field_value_def)
qed


subsection \<open>Collections and maps\<close>

definition item_wire :: "int \<Rightarrow> bytes \<Rightarrow> bytes" where
  "item_wire version b = (if version \<ge> 3 then long_string_wire b else string_wire b)"

definition item_fits :: "int \<Rightarrow> bytes \<Rightarrow> bool" where
  "item_fits version b \<longleftrightarrow> length b < (if version \<ge> 3 then 2 ^ 31 else 2 ^ 16)"

lemma widened_length: "n < 65536 \<Longrightarrow> sint (ucast (of_nat n :: u16) :: u32) = int n"
proof -
  assume n: "n < 65536"
  then have "(ucast (of_nat n :: u16) :: u32) = of_nat n"
    by (intro word_unat_eq_iff [THEN iffD2]) (simp add: unsigned_ucast_eq unsigned_of_nat take_bit_nat_eq_self)
  then show ?thesis using n by (simp add: signed_of_nat signed_take_bit_int_eq_self)
qed

lemma narrowed_length: "(ucast (of_nat n :: u32) :: u16) = of_nat n"
  by (intro word_unat_eq_iff [THEN iffD2]) (simp add: unsigned_ucast_eq unsigned_of_nat)

lemma decode_size_item:
  assumes "item_fits version b"
  shows "\<exists>n. decode_size version (item_wire version b @ rest) = Some (n, b @ rest) \<and> sint n = int (length b)"
proof (cases "version \<ge> 3")
  case True
  then show ?thesis using assms
    by (simp add: decode_size_def item_wire_def item_fits_def long_string_wire_def wire_simps)
next
  case False
  then have "length b < 65536" using assms by (simp add: item_fits_def)
  moreover from this have "sint (ucast (of_nat (length b) :: u16) :: u32) = int (length b)"
    by (rule widened_length)
  ultimately show ?thesis using False
    by (simp add: decode_size_def item_wire_def string_wire_def wire_simps)
qed

lemma decode_item_wire:
  assumes "drop position (val_data v) = item_wire (val_version v) b @ rest" and "position \<le> length (val_data v)"
    and "item_fits (val_version v) b" and "readable (val_version v) (t, Some b)"
  shows "\<exists>item position'. decode_item v (Some t) position = Some (item, position') \<and>
    value_shows (val_version v) item (t, Some b) \<and> drop position' (val_data v) = rest \<and> position' \<le> length (val_data v)"
proof -
  let ?d = "val_data v"
  obtain n where n: "decode_size (val_version v) (drop position ?d) = Some (n, b @ rest)" "sint n = int (length b)"
    using decode_size_item [OF assms(3)] assms(1) by force
  define buffer where "buffer = length ?d - length (b @ rest)"
  have len: "length ?d = position + length (item_wire (val_version v) b) + length rest"
    using arg_cong [OF assms(1), of length] assms(2) by simp
  have wire: "item_wire (val_version v) b = take (length (item_wire (val_version v) b) - length b) (item_wire (val_version v) b) @ b"
    by (simp add: item_wire_def long_string_wire_def string_wire_def)
  have longer: "length b \<le> length (item_wire (val_version v) b)"
    by (simp add: item_wire_def long_string_wire_def string_wire_def)
  have buffer: "buffer = position + (length (item_wire (val_version v) b) - length b)"
    using len longer by (simp add: buffer_def)
  have at: "drop buffer ?d = b @ rest"
  proof -
    have "drop buffer ?d = drop (length (item_wire (val_version v) b) - length b) (drop position ?d)"
      by (simp add: buffer add.commute)
    also have "\<dots> = b @ rest"
      unfolding assms(1) by (simp add: item_wire_def long_string_wire_def string_wire_def)
    finally show ?thesis .
  qed
  obtain item where item: "value_new (val_version v) t (b @ rest) (int (length b)) = Some item"
    using value_new_more assms(4) by (fastforce simp: readable_def)
  have "buffer + length b \<le> length ?d" using len longer by (simp add: buffer)
  then have "advance ?d buffer (int (length b)) = Some (buffer + length b)" by (simp add: advance_def)
  moreover have "drop (buffer + length b) ?d = rest"
    using at by (metis append_eq_conv_conj drop_drop add.commute)
  moreover have "read_at (decode_size (val_version v)) ?d position = Some (n, buffer)"
    using n(1) assms(2) by (simp add: read_at_def buffer_def)
  ultimately show ?thesis
    using item n(2) at \<open>buffer + length b \<le> length ?d\<close> by (auto simp: decode_item_def value_shows_def)
qed

fun items_typed :: "cass_value \<Rightarrow> int \<Rightarrow> (data_type option \<times> bytes) list \<Rightarrow> bool" where
  "items_typed v i [] \<longleftrightarrow> True"
| "items_typed v i (x # xs) \<longleftrightarrow> item_type v i = Some (fst x) \<and> items_typed v (i + 1) xs"

definition items_ok :: "int \<Rightarrow> (data_type option \<times> bytes) list \<Rightarrow> bool" where
  "items_ok version xs \<longleftrightarrow> list_all (\<lambda>x. item_fits version (snd x) \<and> readable version (fst x, Some (snd x))) xs"

definition collection_left :: "int \<Rightarrow> collection_iterator \<Rightarrow> (data_type option \<times> bytes) list \<Rightarrow> bool" where
  "collection_left version it xs \<longleftrightarrow>
     (let v = ci_collection it in
      val_version v = version \<and>
      ci_count it = ci_index it + 1 + int (length xs) \<and> ci_position it \<le> length (val_data v) \<and>
      (\<exists>rest. drop (ci_position it) (val_data v) = concat (map (item_wire (val_version v) \<circ> snd) xs) @ rest) \<and>
      items_ok (val_version v) xs \<and> items_typed v (ci_index it + 1) xs)"

definition shows_bytes :: "int \<Rightarrow> cass_value \<Rightarrow> data_type option \<times> bytes \<Rightarrow> bool" where
  "shows_bytes version v x \<longleftrightarrow> value_shows version v (fst x, Some (snd x))"

interpretation collection_iteration: iterates collection_next "\<lambda>it. Some (ci_value it)" "collection_left version"
  "shows_bytes version" for version
proof
  fix it
  show "collection_left version it [] \<Longrightarrow> \<exists>it'. collection_next it = Some (False, it')"
    by (simp add: collection_left_def collection_next_def Let_def)
next
  fix it x xs
  assume l: "collection_left version it (x # xs)"
  define v where "v = ci_collection it"
  obtain rest where pos: "drop (ci_position it) (val_data v) =
      item_wire (val_version v) (snd x) @ concat (map (item_wire (val_version v) \<circ> snd) xs) @ rest"
    and p: "ci_position it \<le> length (val_data v)"
    using l by (auto simp: collection_left_def v_def Let_def)
  have ok: "item_fits (val_version v) (snd x)" "readable (val_version v) (fst x, Some (snd x))"
    "item_type v (ci_index it + 1) = Some (fst x)"
    using l by (auto simp: collection_left_def items_ok_def v_def Let_def)
  obtain item position' where i: "decode_item v (Some (fst x)) (ci_position it) = Some (item, position')"
      "value_shows (val_version v) item (fst x, Some (snd x))"
      "drop position' (val_data v) = concat (map (item_wire (val_version v) \<circ> snd) xs) @ rest"
      "position' \<le> length (val_data v)"
    using decode_item_wire [OF pos p ok(1,2)] by blast
  let ?it = "it\<lparr>ci_index := ci_index it + 1, ci_value := item, ci_position := position'\<rparr>"
  have "collection_next it = Some (True, ?it)"
    using l i(1) ok(3)
    by (simp add: collection_next_def collection_left_def collection_decode_value_def v_def [symmetric] Let_def)
  moreover have "collection_left version ?it xs"
    using l i(3,4) by (auto simp: collection_left_def items_ok_def v_def Let_def)
  ultimately show "\<exists>it' v. collection_next it = Some (True, it') \<and> Some (ci_value it') = Some v \<and>
      shows_bytes version v x \<and> collection_left version it' xs"
    using i(2) l by (auto simp: shows_bytes_def collection_left_def v_def Let_def)
qed

text \<open>The entries a map iterator has left: keys and values.\<close>

definition map_left ::
    "int \<Rightarrow> data_type option \<Rightarrow> data_type option \<Rightarrow> map_iterator \<Rightarrow> (bytes \<times> bytes) list \<Rightarrow> bool" where
  "map_left version kt vt it xs \<longleftrightarrow>
     (let v = mi_map it in
      val_version v = version \<and>
      mi_count it = mi_index it + 1 + int (length xs) \<and> - 1 \<le> mi_index it \<and> mi_position it \<le> length (val_data v) \<and>
      (\<exists>rest. drop (mi_position it) (val_data v) =
        concat (map (\<lambda>x. item_wire (val_version v) (fst x) @ item_wire (val_version v) (snd x)) xs) @ rest) \<and>
      primary_data_type v = Some kt \<and> secondary_data_type v = Some vt \<and>
      list_all (\<lambda>x. item_fits (val_version v) (fst x) \<and> readable (val_version v) (kt, Some (fst x)) \<and>
        item_fits (val_version v) (snd x) \<and> readable (val_version v) (vt, Some (snd x))) xs)"

definition map_item :: "map_iterator \<Rightarrow> (cass_value \<times> cass_value) option" where
  "map_item it =
     (case map_key it of None \<Rightarrow> None | Some k \<Rightarrow> map_option (Pair k) (map_value it))"

definition shows_entry ::
    "int \<Rightarrow> data_type option \<Rightarrow> data_type option \<Rightarrow> cass_value \<times> cass_value \<Rightarrow> bytes \<times> bytes \<Rightarrow> bool" where
  "shows_entry version kt vt p x \<longleftrightarrow>
     shows_bytes version (fst p) (kt, fst x) \<and> shows_bytes version (snd p) (vt, snd x)"

interpretation map_iteration: iterates map_next map_item "map_left version kt vt" "shows_entry version kt vt"
  for version kt vt
proof
  fix it
  show "map_left version kt vt it [] \<Longrightarrow> \<exists>it'. map_next it = Some (False, it')"
    by (simp add: map_left_def map_next_def Let_def)
next
  fix it x xs
  assume l: "map_left version kt vt it (x # xs)"
  define v where "v = mi_map it"
  let ?w = "item_wire (val_version v)"
  obtain rest where pos: "drop (mi_position it) (val_data v) =
      ?w (fst x) @ ?w (snd x) @ concat (map (\<lambda>x. ?w (fst x) @ ?w (snd x)) xs) @ rest"
    and p: "mi_position it \<le> length (val_data v)" using l by (auto simp: map_left_def v_def Let_def)
  have ver: "val_version v = version" and ty: "primary_data_type v = Some kt" "secondary_data_type v = Some vt"
    and ok: "item_fits (val_version v) (fst x)" "readable (val_version v) (kt, Some (fst x))"
      "item_fits (val_version v) (snd x)" "readable (val_version v) (vt, Some (snd x))"
    using l by (auto simp: map_left_def v_def Let_def)
  obtain key p1 where k: "decode_item v (Some kt) (mi_position it) = Some (key, p1)"
      "value_shows (val_version v) key (kt, Some (fst x))" "p1 \<le> length (val_data v)"
      "drop p1 (val_data v) = ?w (snd x) @ concat (map (\<lambda>x. ?w (fst x) @ ?w (snd x)) xs) @ rest"
    using decode_item_wire [OF pos p ok(1,2)] by blast
  obtain val p2 where e: "decode_item v (Some vt) p1 = Some (val, p2)"
      "value_shows (val_version v) val (vt, Some (snd x))" "p2 \<le> length (val_data v)"
      "drop p2 (val_data v) = concat (map (\<lambda>x. ?w (fst x) @ ?w (snd x)) xs) @ rest"
    using decode_item_wire [OF k(4,3) ok(3,4)] by blast
  let ?it = "it\<lparr>mi_index := mi_index it + 1, mi_key := key, mi_value := val, mi_position := p2\<rparr>"
  have "map_next it = Some (True, ?it)"
    using l k(1) e(1) ty by (simp add: map_next_def map_left_def decode_pair_def v_def [symmetric] Let_def)
  moreover have "map_left version kt vt ?it xs"
    using l e(3,4) by (auto simp: map_left_def v_def Let_def)
  moreover have "map_item ?it = Some (key, val)"
    using l by (simp add: map_item_def map_key_def map_value_def map_left_def Let_def)
  moreover have "shows_entry version kt vt (key, val) x" using k(2) e(2) ver by (auto simp: shows_entry_def shows_bytes_def)
  ultimately show "\<exists>it' v. map_next it = Some (True, it') \<and> map_item it' = Some v \<and>
      shows_entry version kt vt v x \<and> map_left version kt vt it' xs"
    by blast
qed


subsection \<open>Rows\<close>

definition row_wire :: "bytes option list \<Rightarrow> bytes" where
  "row_wire row = concat (map frame_wire row)"

definition column_types :: "column ht_entry list \<Rightarrow> data_type option list" where
  "column_types defs = map (col_data_type \<circ> ent_data) defs"

definition cell_ok :: "int \<Rightarrow> data_type option \<Rightarrow> bytes option \<Rightarrow> bool" where
  "cell_ok version t f \<longleftrightarrow> frame_ok f \<and> (case f of None \<Rightarrow> True | Some b \<Rightarrow> readable version (t, f))"

definition row_ok :: "int \<Rightarrow> data_type option list \<Rightarrow> bytes option list \<Rightarrow> bool" where
  "row_ok version ts row \<longleftrightarrow> list_all2 (cell_ok version) ts row"

definition row_shows :: "int \<Rightarrow> data_type option list \<Rightarrow> cass_value list \<Rightarrow> bytes option list \<Rightarrow> bool" where
  "row_shows version ts vs row \<longleftrightarrow> list_all2 (value_shows version) vs (zip ts row)"

lemma decode_row_values_wire:
  assumes "row_ok version (column_types defs) row"
  shows "\<exists>vs. decode_row_values version defs (row_wire row @ rest) = Some (vs, rest) \<and>
    row_shows version (column_types defs) vs row"
  using assms
proof (induction defs arbitrary: row)
  case Nil
  then show ?case by (simp add: row_ok_def column_types_def row_wire_def row_shows_def)
next
  case (Cons def defs)
  then obtain f row' where row: "row = f # row'" "cell_ok version (col_data_type (ent_data def)) f"
    "row_ok version (column_types defs) row'"
    by (auto simp: row_ok_def column_types_def list_all2_Cons1)
  obtain vs where vs: "decode_row_values version defs (row_wire row' @ rest) = Some (vs, rest)"
    "row_shows version (column_types defs) vs row'" using Cons.IH [OF row(3)] by blast
  have wire: "row_wire row @ rest = frame_wire f @ row_wire row' @ rest" by (simp add: row(1) row_wire_def)
  show ?case
  proof (cases f)
    case None
    have "sint (- 1 :: u32) = - 1" by simp
    then have "decode_row_values version (def # defs) (row_wire row @ rest) = Some (value_null # vs, rest)"
      unfolding wire using None vs(1) by (simp add: frame_wire_def wire_simps)
    moreover have "value_shows version value_null (col_data_type (ent_data def), f)"
      using None by (simp add: value_shows_def value_null_def)
    ultimately show ?thesis using vs(2) row(1) by (simp add: row_shows_def column_types_def)
  next
    case (Some b)
    then have len: "length b < 2147483648" using row(2) by (simp add: cell_ok_def frame_ok_def)
    obtain v where v: "value_new version (col_data_type (ent_data def)) (b @ row_wire row' @ rest) (int (length b)) = Some v"
      using value_new_more row(2) Some by (fastforce simp: readable_def cell_ok_def)
    then have "decode_row_values version (def # defs) (row_wire row @ rest) = Some (v # vs, rest)"
      unfolding wire using len Some vs(1) by (simp add: frame_wire_def long_string_wire_def wire_simps)
    moreover have "value_shows version v (col_data_type (ent_data def), f)"
      using v Some by (auto simp: value_shows_def)
    ultimately show ?thesis using vs(2) row(1) by (simp add: row_shows_def column_types_def)
  qed
qed

text \<open>The rows an iterator has left; before its first step the first row is already decoded.\<close>

definition result_types :: "result_response \<Rightarrow> data_type option list option" where
  "result_types r =
     (case rr_metadata r of None \<Rightarrow> Some [] | Some m \<Rightarrow> map_option column_types (metadata_columns m))"

definition result_left ::
    "int \<Rightarrow> data_type option list \<Rightarrow> result_iterator \<Rightarrow> bytes option list list \<Rightarrow> bool" where
  "result_left version ts it rows \<longleftrightarrow>
     (let r = ri_result it in
      \<exists>rest. rr_protocol_version r = version \<and> result_types r = Some ts \<and> list_all (row_ok version ts) rows \<and> - 1 \<le> ri_index it \<and>
        rr_row_count r = ri_index it + 1 + int (length rows) \<and>
        (if ri_index it = - 1 then
           (case rows of [] \<Rightarrow> True
            | row # rows \<Rightarrow> row_shows version ts (rr_first_row r) row \<and>
                ri_position it = concat (map row_wire rows) @ rest)
         else ri_position it = concat (map row_wire rows) @ rest))"

interpretation result_iteration: iterates result_next result_row "result_left version ts"
  "row_shows version ts" for version ts
proof
  fix it
  show "result_left version ts it [] \<Longrightarrow> \<exists>it'. result_next it = Some (False, it')"
    by (auto simp: result_left_def result_next_def Let_def)
next
  fix it row rows
  assume l: "result_left version ts it (row # rows)"
  define r where "r = ri_result it"
  let ?v = version
  obtain rest where ts: "result_types r = Some ts" "list_all (row_ok ?v ts) (row # rows)" "- 1 \<le> ri_index it"
      "rr_row_count r = ri_index it + 1 + int (length (row # rows))"
    and ver: "rr_protocol_version r = version" and pos: "if ri_index it = - 1 then row_shows ?v ts (rr_first_row r) row \<and>
        ri_position it = concat (map row_wire rows) @ rest
      else ri_position it = concat (map row_wire (row # rows)) @ rest"
    using l unfolding result_left_def r_def Let_def by fastforce
  have ok: "row_ok ?v ts row" using ts(2) by simp
  show "\<exists>it' v. result_next it = Some (True, it') \<and> result_row it' = Some v \<and> row_shows version ts v row \<and> result_left version ts it' rows"
  proof (cases "ri_index it = - 1")
    case True
    let ?it = "it\<lparr>ri_index := 0\<rparr>"
    have "result_next it = Some (True, ?it)"
      using ts(4) True by (simp add: result_next_def Let_def r_def [symmetric])
    moreover have "result_row ?it = Some (rr_first_row r)"
      using ts(4) True by (simp add: result_row_def r_def)
    moreover have "row_shows version ts (rr_first_row r) row" using pos True by simp
    moreover have "result_left version ts ?it rows"
      using ver ts pos True by (auto simp: result_left_def r_def [symmetric] Let_def)
    ultimately show ?thesis by blast
  next
    case False
    obtain defs where defs: "(case rr_metadata r of None \<Rightarrow> Some [] | Some m \<Rightarrow> metadata_columns m) = Some defs"
      "ts = column_types defs"
      using ts(1) by (auto simp: result_types_def column_types_def split: option.splits)
    obtain vs where vs: "decode_row_values ?v defs (row_wire row @ concat (map row_wire rows) @ rest) =
        Some (vs, concat (map row_wire rows) @ rest)" "row_shows ?v ts vs row"
      using decode_row_values_wire [of ?v defs row] ok defs(2) by blast
    let ?it = "it\<lparr>ri_index := ri_index it + 1, ri_row := vs, ri_position := concat (map row_wire rows) @ rest\<rparr>"
    have "decode_row r (ri_position it) = Some (vs, concat (map row_wire rows) @ rest)"
      using defs(1) pos False vs(1) ver by (simp add: decode_row_def)
    then have "result_next it = Some (True, ?it)"
      using ts(3,4) False by (simp add: result_next_def Let_def r_def [symmetric])
    moreover have "result_row ?it = Some vs"
      using ts(3,4) False by (simp add: result_row_def r_def)
    moreover have "row_shows version ts vs row" by (rule vs(2))
    moreover have "result_left version ts ?it rows"
      using ver ts False by (auto simp: result_left_def r_def [symmetric] Let_def)
    ultimately show ?thesis by blast
  qed
qed

lemma result_left_new:
  assumes "result_types r = Some ts" and "list_all (row_ok (rr_protocol_version r) ts) rows"
    and "rr_rows r = concat (map row_wire rows) @ rest" and "rr_row_count r = int (length rows)"
  shows "\<exists>r'. decode_first_row r = Some r' \<and> result_left (rr_protocol_version r) ts (result_iterator_new r') rows \<and>
    rr_metadata r' = rr_metadata r \<and> rr_row_count r' = rr_row_count r"
proof (cases rows)
  case Nil
  then show ?thesis using assms
    by (auto simp: decode_first_row_def result_left_def result_iterator_new_def Let_def)
next
  case (Cons row rows')
  obtain defs where defs: "(case rr_metadata r of None \<Rightarrow> Some [] | Some m \<Rightarrow> metadata_columns m) = Some defs"
    "ts = column_types defs"
    using assms(1) by (auto simp: result_types_def column_types_def split: option.splits)
  obtain vs where vs: "decode_row_values (rr_protocol_version r) defs (row_wire row @ concat (map row_wire rows') @ rest) =
      Some (vs, concat (map row_wire rows') @ rest)" "row_shows (rr_protocol_version r) ts vs row"
    using decode_row_values_wire [of "rr_protocol_version r" defs row] assms(2) Cons defs(2) by auto
  then have d: "decode_row r (rr_rows r) = Some (vs, concat (map row_wire rows') @ rest)"
    using defs(1) assms(3) Cons by (simp add: decode_row_def)
  let ?r = "r\<lparr>rr_first_row := vs, rr_rows := concat (map row_wire rows') @ rest\<rparr>"
  have "decode_first_row r = Some ?r" using assms(4) Cons d by (simp add: decode_first_row_def)
  moreover have "result_left (rr_protocol_version r) ts (result_iterator_new ?r) rows"
    using assms vs(2) Cons by (simp add: result_left_def result_iterator_new_def Let_def result_types_def)
  ultimately show ?thesis by auto
qed

section \<open>Decoding the types\<close>

lemma decode_uint16_length: "decode_uint16 bs = Some (x, r) \<Longrightarrow> length bs = length r + 2"
  by (cases bs rule: decode_uint16.cases) auto

lemma decode_string_length: "decode_string bs = Some (x, r) \<Longrightarrow> length r + 2 \<le> length bs"
  by (auto simp: decode_string_def split: option.splits dest!: decode_uint16_length read_bytes_shrinks)

lemma decode_types_deeper:
  assumes "\<And>bs. length bs \<le> d \<Longrightarrow> decode_type d' bs = decode_type d bs"
    and "\<And>bs t r. decode_type d bs = Some (t, r) \<Longrightarrow> length r \<le> length bs"
    and "length bs \<le> d"
  shows "decode_types d' n bs = decode_types d n bs" and "decode_fields d' n bs = decode_fields d n bs"
proof -
  show "decode_types d' n bs = decode_types d n bs"
    using assms(3)
  proof (induction n arbitrary: bs)
    case (Suc n)
    then show ?case using assms(1) assms(2) [of bs] by (auto split: option.split)
  qed simp
  show "decode_fields d' n bs = decode_fields d n bs"
    using assms(3)
  proof (induction n arbitrary: bs)
    case (Suc n)
    have "decode_type d' b = decode_type d b \<and> length b \<le> d" if "decode_string bs = Some (x, b)" for x b
      using assms(1) [of b] decode_string_length [OF that] Suc.prems by simp
    moreover have "decode_fields d' n c = decode_fields d n c"
      if "decode_string bs = Some (x, b)" "decode_type d b = Some (t, c)" for x b t c
      using Suc.IH [of c] assms(2) [OF that(2)] decode_string_length [OF that(1)] Suc.prems by simp
    ultimately show ?case by (auto split: option.split)
  qed simp
qed

lemma decode_types_shrink:
  assumes "\<And>bs t r. decode_type d bs = Some (t, r) \<Longrightarrow> length r \<le> length bs"
  shows "decode_types d n bs = Some (ts, r) \<Longrightarrow> length r \<le> length bs"
    and "decode_fields d n bs = Some (fs, r) \<Longrightarrow> length r \<le> length bs"
proof -
  show "decode_types d n bs = Some (ts, r) \<Longrightarrow> length r \<le> length bs"
  proof (induction n arbitrary: bs ts)
    case (Suc n)
    then obtain t b ts' where "decode_type d bs = Some (t, b)" "decode_types d n b = Some (ts', r)"
      by (auto split: option.splits)
    then show ?case using assms [of bs t b] Suc.IH [of b ts'] by simp
  qed simp
  show "decode_fields d n bs = Some (fs, r) \<Longrightarrow> length r \<le> length bs"
  proof (induction n arbitrary: bs fs)
    case (Suc n)
    then obtain x a t b fs' where "decode_string bs = Some (x, a)" "decode_type d a = Some (t, b)"
      "decode_fields d n b = Some (fs', r)"
      by (auto split: option.splits)
    then show ?case using assms [of a t b] Suc.IH [of b fs'] decode_string_length [of bs x a] by simp
  qed simp
qed

lemma decode_type_shrinks: "decode_type d bs = Some (t, r) \<Longrightarrow> length r \<le> length bs"
proof (induction d arbitrary: bs t r)
  case (Suc d)
  have sub: "decode_types d n c = Some (ts, e) \<Longrightarrow> length e \<le> length c"
    "decode_fields d n c = Some (fs, e) \<Longrightarrow> length e \<le> length c" for n c ts fs e
    using decode_types_shrink [of d n c _ e] Suc.IH by blast+
  obtain code b where b: "decode_uint16 bs = Some (code, b)" using Suc.prems by (auto split: option.splits)
  have len: "length bs = length b + 2" by (rule decode_uint16_length [OF b])
  have "length r \<le> length b"
    using Suc.prems b
    by (cases "value_type_of_code code")
      (auto simp del: decode_types.simps split: option.splits dest!: sub decode_string_length decode_uint16_length)
  then show ?case using len by simp
qed simp

text \<open>Any depth not below the number of the bytes gives the result of \<open>decode_data_type\<close>.\<close>

lemma decode_type_depth_enough: "length bs \<le> d \<Longrightarrow> decode_type (Suc d) bs = decode_type d bs"
proof (induction d arbitrary: bs)
  case 0
  then show ?case by simp
next
  case (Suc d)
  have deeper: "length c \<le> d \<Longrightarrow> decode_types (Suc d) n c = decode_types d n c"
    "length c \<le> d \<Longrightarrow> decode_fields (Suc d) n c = decode_fields d n c" for n c
    using decode_types_deeper [where d = d and d' = "Suc d" and n = n and bs = c] Suc.IH decode_type_shrinks by blast+
  show ?case
  proof (cases "decode_uint16 bs")
    case (Some x)
    obtain code b where x: "x = (code, b)" by (cases x)
    have len: "length bs = length b + 2" using decode_uint16_length [of bs code b] Some x by simp
    have b: "length b \<le> d" using len Suc.prems by simp
    have s: "length c \<le> d" if "decode_string b = Some (k, c)" for k c
      using decode_string_length [OF that] b by simp
    have u: "length c \<le> d" if "decode_uint16 b = Some (k, c)" for k c
      using decode_uint16_length [OF that] b by simp
    have f: "length g \<le> d" if "decode_string b = Some (k, c)" "decode_string c = Some (n, e)" "decode_uint16 e = Some (m, g)"
      for k c n e m g
      using decode_string_length [OF that(1)] decode_string_length [OF that(2)] decode_uint16_length [OF that(3)] b
      by simp
    have types: "decode_types (Suc d) n b = decode_types d n b" for n by (rule deeper(1) [OF b])
    show ?thesis
      using Some x deeper(2) [OF f] deeper(1) [OF u]
      by (cases "value_type_of_code code")
        (auto simp del: decode_types.simps decode_type.simps(1) simp: types split: option.split)
  qed simp
qed


text \<open>The bytes of a type, the number first.\<close>

definition code_of :: "value_type \<Rightarrow> u16" where
  "code_of v = (case map_of (map (\<lambda>(a, b). (b, a)) value_type_codes) v of None \<Rightarrow> 0 | Some c \<Rightarrow> c)"

definition string_bytes :: "string \<Rightarrow> bytes" where
  "string_bytes s = map of_char s"

fun type_wire :: "data_type \<Rightarrow> bytes"
  and types_wire :: "data_type option list \<Rightarrow> bytes"
  and fields_wire :: "(string \<times> data_type option) list \<Rightarrow> bytes"
where
  "type_wire (Simple_type v) = encode_uint16 (code_of v)"
| "type_wire (Custom_type c) = encode_uint16 (code_of CASS_VALUE_TYPE_CUSTOM) @ string_wire (string_bytes c)"
| "type_wire (Collection_type v ts) = encode_uint16 (code_of v) @ types_wire ts"
| "type_wire (Tuple_type ts) =
     encode_uint16 (code_of CASS_VALUE_TYPE_TUPLE) @ encode_uint16 (of_nat (length ts)) @ types_wire ts"
| "type_wire (User_type k n fs) =
     encode_uint16 (code_of CASS_VALUE_TYPE_UDT) @ string_wire (string_bytes k) @ string_wire (string_bytes n) @
     encode_uint16 (of_nat (length fs)) @ fields_wire fs"
| "types_wire [] = []"
| "types_wire (t # ts) = (case t of None \<Rightarrow> [] | Some t \<Rightarrow> type_wire t) @ types_wire ts"
| "fields_wire [] = []"
| "fields_wire ((f, t) # fs) =
     string_wire (string_bytes f) @ (case t of None \<Rightarrow> [] | Some t \<Rightarrow> type_wire t) @ fields_wire fs"

fun wire_type_ok :: "data_type \<Rightarrow> bool"
  and wire_types_ok :: "data_type option list \<Rightarrow> bool"
  and wire_fields_ok :: "(string \<times> data_type option) list \<Rightarrow> bool"
where
  "wire_type_ok (Simple_type v) \<longleftrightarrow> simple_value_type v \<and> v \<noteq> CASS_VALUE_TYPE_UNKNOWN"
| "wire_type_ok (Custom_type c) \<longleftrightarrow> length c < 65536"
| "wire_type_ok (Collection_type v ts) \<longleftrightarrow>
     (v = CASS_VALUE_TYPE_LIST \<and> length ts = 1 \<or> v = CASS_VALUE_TYPE_SET \<and> length ts = 1 \<or>
      v = CASS_VALUE_TYPE_MAP \<and> length ts = 2) \<and> wire_types_ok ts"
| "wire_type_ok (Tuple_type ts) \<longleftrightarrow> length ts < 65536 \<and> wire_types_ok ts"
| "wire_type_ok (User_type k n fs) \<longleftrightarrow>
     length k < 65536 \<and> length n < 65536 \<and> length fs < 65536 \<and> wire_fields_ok fs"
| "wire_types_ok [] \<longleftrightarrow> True"
| "wire_types_ok (t # ts) \<longleftrightarrow> (case t of None \<Rightarrow> False | Some t \<Rightarrow> wire_type_ok t) \<and> wire_types_ok ts"
| "wire_fields_ok [] \<longleftrightarrow> True"
| "wire_fields_ok ((f, t) # fs) \<longleftrightarrow>
     length f < 65536 \<and> (case t of None \<Rightarrow> False | Some t \<Rightarrow> wire_type_ok t) \<and> wire_fields_ok fs"

lemma bytes_string_inverse [simp]: "bytes_string (string_bytes s) = s"
proof -
  have "char_of (unat (of_char c :: byte)) = c" for c by (simp add: unat_of_char)
  then show ?thesis by (simp add: bytes_string_def string_bytes_def comp_def)
qed

lemma length_string_bytes [simp]: "length (string_bytes s) = length s"
  by (simp add: string_bytes_def)

lemma code_of_inverse [simp]: "v \<noteq> CASS_VALUE_TYPE_UNKNOWN \<Longrightarrow> value_type_of_code (code_of v) = v"
  by (cases v) (simp_all add: code_of_def value_type_of_code_def value_type_codes_def)

lemma code_of_below [simp]: "code_of v < CASS_VALUE_TYPE_LAST_ENTRY"
  by (cases v) (simp_all add: code_of_def value_type_codes_def CASS_VALUE_TYPE_LAST_ENTRY_def)

lemma decode_string_of_wire:
  "length s < 65536 \<Longrightarrow> decode_string (string_wire s @ rest) = Some (s, rest)"
  using strings.dec_enc [of s rest] by (simp add: short_string_def)

lemma simple_code:
  assumes "simple_value_type v" and "v \<noteq> CASS_VALUE_TYPE_UNKNOWN"
  shows "decode_type (Suc d) (encode_uint16 (code_of v) @ rest) = Some (Some (Simple_type v), rest)"
  using assms by (cases v) (simp_all add: wire_simps)

lemma decode_type_wire:
  "wire_type_ok t \<Longrightarrow> length (type_wire t) \<le> d \<Longrightarrow> decode_type d (type_wire t @ rest) = Some (Some t, rest)"
  "wire_types_ok ts \<Longrightarrow> length (types_wire ts) \<le> d \<Longrightarrow>
   decode_types d (length ts) (types_wire ts @ rest) = Some (ts, rest)"
  "wire_fields_ok fs \<Longrightarrow> length (fields_wire fs) \<le> d \<Longrightarrow>
   decode_fields d (length fs) (fields_wire fs @ rest) = Some (fs, rest)"
proof (induction t and ts and fs arbitrary: d rest and d rest and d rest
    rule: type_wire_types_wire_fields_wire.induct)
  case (1 v)
  then obtain d' where "d = Suc d'" by (cases d) auto
  then show ?case using 1 simple_code [of v d' rest] by simp
next
  case (2 c)
  then obtain d' where "d = Suc d'" by (cases d) auto
  then show ?case using 2 by (simp add: wire_simps decode_string_of_wire)
next
  case (3 v ts)
  then obtain d' where d: "d = Suc d'" by (cases d) auto
  have "decode_types d' (length ts) (types_wire ts @ rest) = Some (ts, rest)"
    using 3 d by simp
  then show ?case using 3 d by (auto simp: wire_simps simp del: decode_types.simps)
next
  case (4 ts)
  then obtain d' where d: "d = Suc d'" by (cases d) auto
  have "decode_types d' (length ts) (types_wire ts @ rest) = Some (ts, rest)"
    using 4 d by simp
  then show ?case using 4 d by (simp add: wire_simps unat_of_nat take_bit_nat_eq_self)
next
  case (5 k n fs)
  then obtain d' where d: "d = Suc d'" by (cases d) auto
  have "decode_fields d' (length fs) (fields_wire fs @ rest) = Some (fs, rest)"
    using 5 d by simp
  then show ?case using 5 d
    by (simp add: wire_simps unat_of_nat take_bit_nat_eq_self decode_string_of_wire)
next
  case (9 f t fs)
  then show ?case by (auto simp: decode_string_of_wire split: option.splits)
qed (auto split: option.splits)

definition known_type_ok :: "data_type option \<Rightarrow> bool" where
  "known_type_ok t \<longleftrightarrow> (case t of None \<Rightarrow> False | Some t \<Rightarrow> wire_type_ok t)"

interpretation types: wire_codec known_type_ok "\<lambda>t. type_wire (the t)" decode_data_type
proof
  fix t rest
  assume "known_type_ok t"
  then obtain u where u: "t = Some u" "wire_type_ok u" by (auto simp: known_type_ok_def split: option.splits)
  show "decode_data_type (type_wire (the t) @ rest) = Some (t, rest)"
    using decode_type_wire(1) [OF u(2), of "length (type_wire u @ rest)" rest] u(1)
    by (simp add: decode_data_type_def)
qed


section \<open>A message of rows\<close>

definition column_wire :: "string \<times> data_type \<Rightarrow> bytes" where
  "column_wire c = string_wire (string_bytes (fst c)) @ type_wire (snd c)"

definition column_ok :: "string \<times> data_type \<Rightarrow> bool" where
  "column_ok c \<longleftrightarrow> length (fst c) < 65536 \<and> wire_type_ok (snd c)"

definition rows_message :: "bytes option \<Rightarrow> bytes \<Rightarrow> bytes \<Rightarrow> (string \<times> data_type) list \<Rightarrow> bytes option list list \<Rightarrow> bytes" where
  "rows_message paging keyspace table cols rows =
     encode_int32 CASS_RESULT_KIND_ROWS @
     encode_int32 (CASS_RESULT_FLAG_GLOBAL_TABLESPEC OR (if paging = None then 0 else CASS_RESULT_FLAG_HAS_MORE_PAGES)) @
     encode_int32 (of_nat (length cols)) @
     (case paging of None \<Rightarrow> [] | Some s \<Rightarrow> long_string_wire s) @
     string_wire keyspace @ string_wire table @
     concat (map column_wire cols) @ encode_int32 (of_nat (length rows)) @ concat (map row_wire rows)"

definition column_entry :: "string \<times> data_type \<Rightarrow> column ht_entry" where
  "column_entry c = new_entry (fst c) \<lparr>col_keyspace = [], col_table = [], col_data_type = Some (snd c)\<rparr>"

lemma decode_column_wire:
  "column_ok c \<Longrightarrow> decode_column True (column_wire c @ rest) = Some (column_entry c, rest)"
  using types.dec_enc [of "Some (snd c)" rest]
  by (simp add: decode_column_def column_wire_def column_ok_def decode_string_of_wire column_entry_def known_type_ok_def)

lemma decode_columns_wire:
  assumes "table_rep mem t es" and "length es + length cols \<le> entries_capacity t" and "list_all column_ok cols"
  shows "\<exists>mem' t' es'. decode_columns True (length cols) (mem, t) (concat (map column_wire cols) @ rest) =
      Some ((mem', t'), rest) \<and> table_rep mem' t' es' \<and>
    map ent_name es' = map ent_name es @ map fst cols \<and>
    map ent_data es' = map ent_data es @ map (ent_data \<circ> column_entry) cols"
  using assms
proof (induction cols arbitrary: mem t es)
  case Nil
  then show ?case by auto
next
  case (Cons c cols)
  have e: "ent_next (column_entry c) = None" by (simp add: column_entry_def new_entry_def)
  have room: "length es < entries_capacity t" using Cons.prems(2) by simp
  from add_rep [OF Cons.prems(1) e disjI1 [OF room]] room obtain mem1 t1 es1 where
    one: "add (column_entry c) mem t = Some (mem1, t1)" "table_rep mem1 t1 es1"
      "map ent_name es1 = map ent_name es @ [fst c]" "map ent_data es1 = map ent_data es @ [ent_data (column_entry c)]"
      "entries_capacity t1 = entries_capacity t"
    by (auto simp: column_entry_def new_entry_def)
  have "length es1 = Suc (length es)" using one(3) by (metis length_map length_append_singleton)
  then have "length es1 + length cols \<le> entries_capacity t1" using Cons.prems(2) one(5) by simp
  from Cons.IH [OF one(2) this] Cons.prems(3) obtain mem' t' es' where
    "decode_columns True (length cols) (mem1, t1) (concat (map column_wire cols) @ rest) = Some ((mem', t'), rest)"
    "table_rep mem' t' es'" "map ent_name es' = map ent_name es1 @ map fst cols"
    "map ent_data es' = map ent_data es1 @ map (ent_data \<circ> column_entry) cols" by auto
  then show ?case using one decode_column_wire [of c "concat (map column_wire cols) @ rest"] Cons.prems(3)
    by (auto simp: metadata_add_def)
qed

lemma flag_tests:
  "(1 OR 2 :: u32) AND 2 \<noteq> 0" "(1 OR 2 :: u32) AND 4 = 0" "(1 OR 2 :: u32) AND 1 \<noteq> 0"
  "(1 OR 0 :: u32) AND 2 = 0" "(1 OR 0 :: u32) AND 4 = 0" "(1 OR 0 :: u32) AND 1 \<noteq> 0"
  by simp_all

lemma rows_message_decoded:
  assumes "list_all column_ok cols" and "length cols < 2 ^ 31" and "length rows < 2 ^ 31"
    and "length keyspace < 65536" and "length table < 65536"
    and "case paging of None \<Rightarrow> True | Some s \<Rightarrow> length s < 2 ^ 31"
  shows "\<exists>r m es. result_decode version (rows_message paging keyspace table cols rows @ rest) result_response_new = Some r \<and>
    rr_protocol_version r = version \<and> rr_kind r = CASS_RESULT_KIND_ROWS \<and>
    rr_metadata r = Some m \<and> table_rep (fst m) (snd m) es \<and> map ent_name es = map fst cols \<and>
    map ent_data es = map (ent_data \<circ> column_entry) cols \<and>
    rr_has_more_pages r = (paging \<noteq> None) \<and> rr_paging_state r = paging \<and> rr_keyspace r = keyspace \<and> rr_table r = table \<and>
    rr_rows r = concat (map row_wire rows) @ rest \<and> rr_row_count r = int (length rows)"
proof -
  have cap: "length cols \<le> 2 ^ 60" using assms(2) by simp
  obtain mem0 t0 where t0: "table_with_capacity (length cols) (empty_memory :: column memory) = Some (mem0, t0)"
      "table_rep mem0 t0 []" "entries_capacity t0 = max (length cols) 16"
    using table_with_capacity_rep [OF cap] by blast
  then have "length ([] :: column ht_entry list) + length cols \<le> entries_capacity t0" by simp
  from decode_columns_wire [OF t0(2) this assms(1), of "encode_int32 (of_nat (length rows)) @ concat (map row_wire rows) @ rest"]
  obtain mem' t' es' where cols: "decode_columns True (length cols) (mem0, t0)
      (concat (map column_wire cols) @ encode_int32 (of_nat (length rows)) @ concat (map row_wire rows) @ rest) =
      Some ((mem', t'), encode_int32 (of_nat (length rows)) @ concat (map row_wire rows) @ rest)"
    "table_rep mem' t' es'" "map ent_name es' = map fst cols" "map ent_data es' = map (ent_data \<circ> column_entry) cols"
    by auto
  have n: "sint (of_nat (length cols) :: u32) = int (length cols)" "sint (of_nat (length rows) :: u32) = int (length rows)"
    using assms(2,3) by simp_all
  note defs = CASS_RESULT_KIND_ROWS_def CASS_RESULT_KIND_VOID_def CASS_RESULT_FLAG_GLOBAL_TABLESPEC_def
    CASS_RESULT_FLAG_HAS_MORE_PAGES_def CASS_RESULT_FLAG_NO_METADATA_def result_response_new_def
  show ?thesis
  proof (cases paging)
    case None
    show ?thesis
      using cols t0(1) n assms(4,5) None
      by (auto simp: rows_message_def result_decode_def decode_rows_def decode_metadata_def wire_simps defs Let_def
          decode_string_of_wire)
  next
    case (Some s)
    then have "decode_bytes (long_string_wire s @ more) = Some (Some s, more)" for more
      using frames.dec_enc [of "Some s" more] assms(6) by (simp add: frame_ok_def frame_wire_def)
    then show ?thesis
      using cols t0(1) n assms(4,5) Some
      by (auto simp: rows_message_def result_decode_def decode_rows_def decode_metadata_def wire_simps defs Let_def
          decode_string_of_wire)
  qed
qed

section \<open>Properties\<close>

lemma rows_message_rows:
  assumes "list_all column_ok cols" and "length cols < 2 ^ 31" and "length rows < 2 ^ 31"
    and "length keyspace < 65536" and "length table < 65536"
    and "case paging of None \<Rightarrow> True | Some s \<Rightarrow> length s < 2 ^ 31"
    and "list_all (row_ok version (map (Some \<circ> snd) cols)) rows" and "unquote quoted = Some (cs, name)"
  shows "\<exists>r r' m vss. result_decode version (rows_message paging keyspace table cols rows @ rest) result_response_new = Some r \<and>
    decode_first_row r = Some r' \<and> rr_metadata r' = Some m \<and> result_types r' = Some (map (Some \<circ> snd) cols) \<and>
    metadata_get_indices m quoted = Some (positions cs name (map fst cols)) \<and>
    walk result_next result_row (length rows + 1) (result_iterator_new r') = Some vss \<and>
    list_all2 (row_shows version (map (Some \<circ> snd) cols)) vss rows"
proof -
  from rows_message_decoded [OF assms(1-6), of version rest] obtain r m es where
    r: "result_decode version (rows_message paging keyspace table cols rows @ rest) result_response_new = Some r"
      "rr_protocol_version r = version" "rr_metadata r = Some m" "table_rep (fst m) (snd m) es"
      "map ent_name es = map fst cols" "map ent_data es = map (ent_data \<circ> column_entry) cols"
      "rr_rows r = concat (map row_wire rows) @ rest" "rr_row_count r = int (length rows)" by blast
  have "metadata_columns m = Some es" using r(4) by (simp add: metadata_columns_def table_rep_def indexed_def)
  moreover have "column_types es = map col_data_type (map ent_data es)" by (simp add: column_types_def)
  ultimately have types: "result_types r = Some (map (Some \<circ> snd) cols)"
    by (simp add: result_types_def r(3,6) column_entry_def new_entry_def comp_def)
  have look: "metadata_get_indices m quoted = Some (positions cs name (map fst cols))"
    using lookup_rep [OF r(4) assms(8)] r(5) by (simp add: metadata_get_indices_def)
  obtain r' where r': "decode_first_row r = Some r'"
    "result_left version (map (Some \<circ> snd) cols) (result_iterator_new r') rows" "rr_metadata r' = rr_metadata r"
    using result_left_new [OF types _ r(7,8)] assms(7) r(2) by auto
  have "rr_metadata r' = Some m" "result_types r' = Some (map (Some \<circ> snd) cols)"
    using r'(3) r(3) types by (simp_all add: result_types_def)
  moreover obtain vss where "walk result_next result_row (length rows + 1) (result_iterator_new r') = Some vss"
    "list_all2 (row_shows version (map (Some \<circ> snd) cols)) vss rows"
    using result_iteration.walk_all [OF r'(2), of "length rows + 1"] by auto
  ultimately show ?thesis using r(1) r'(1) look by blast
qed

text \<open>C12: a message of rows, whatever its columns and rows, is decoded to exactly these: every column has its
  type, a lookup by name finds the columns of that name in their order, and the loop of an application
  over the rows sees every row once, in order, each value as null or as what was sent, and then ends.\<close>

theorem rows_message_read_back:
  assumes "list_all column_ok cols" and "length cols < 2 ^ 31" and "length rows < 2 ^ 31"
    and "length keyspace < 65536" and "length table < 65536"
    and "case paging of None \<Rightarrow> True | Some s \<Rightarrow> length s < 2 ^ 31"
    and "list_all (row_ok version (map (Some \<circ> snd) cols)) rows" and "unquote quoted = Some (cs, name)"
  shows "\<exists>r r' m vss. result_decode version (rows_message paging keyspace table cols rows @ rest) result_response_new = Some r \<and>
    decode_first_row r = Some r' \<and> rr_metadata r' = Some m \<and> result_types r' = Some (map (Some \<circ> snd) cols) \<and>
    metadata_get_indices m quoted = Some (positions cs name (map fst cols)) \<and>
    walk result_next result_row (length rows + 1) (result_iterator_new r') = Some vss \<and>
    list_all2 (row_shows version (map (Some \<circ> snd) cols)) vss rows"
  using rows_message_rows [OF assms] .

theorem rows_message_read_back_witness:
  "\<exists>r r' m vss. result_decode 3 (rows_message None [107] [116] [(''a'', Simple_type CASS_VALUE_TYPE_INT)]
      [[Some [0, 0, 0, 1]], [None]] @ []) result_response_new = Some r \<and>
    decode_first_row r = Some r' \<and> rr_metadata r' = Some m \<and>
    result_types r' = Some (map (Some \<circ> snd) [(''a'', Simple_type CASS_VALUE_TYPE_INT)]) \<and>
    metadata_get_indices m ''A'' = Some (positions False ''A'' (map fst [(''a'', Simple_type CASS_VALUE_TYPE_INT)])) \<and>
    walk result_next result_row (length [[Some [0, 0, 0, 1 :: byte]], [None]] + 1) (result_iterator_new r') = Some vss \<and>
    list_all2 (row_shows 3 (map (Some \<circ> snd) [(''a'', Simple_type CASS_VALUE_TYPE_INT)])) vss [[Some [0, 0, 0, 1]], [None]]"
  by (rule rows_message_read_back)
    (simp_all add: column_ok_def row_ok_def cell_ok_def frame_ok_def readable_def value_new_def is_collection_def
      is_tuple_def is_user_type_def unquote_def quote_char_def)

lemma items_typed_all:
  "(\<And>k. k < length xs \<Longrightarrow> item_type v (i + int k) = Some (fst (xs ! k))) \<Longrightarrow> items_typed v i xs"
proof (induction xs arbitrary: i)
  case (Cons x xs)
  have "item_type v (i + 1 + int k) = Some (fst (xs ! k))" if "k < length xs" for k
    using Cons.prems [of "Suc k"] that by (simp add: add.assoc)
  then show ?case using Cons.IH [of "i + 1"] Cons.prems [of 0] by simp
qed simp

definition sub_types_complete :: "data_type \<Rightarrow> data_type option list \<Rightarrow> bool" where
  "sub_types_complete t ts \<longleftrightarrow>
     (\<exists>v. t = Collection_type v ts \<and>
       (v = CASS_VALUE_TYPE_MAP \<and> length ts = 2 \<or> (v = CASS_VALUE_TYPE_LIST \<or> v = CASS_VALUE_TYPE_SET) \<and> length ts = 1))"

definition item_types :: "data_type option list \<Rightarrow> nat \<Rightarrow> data_type option list" where
  "item_types ts n = map (\<lambda>i. ts ! (i mod length ts)) [0..<n]"

definition countable_items :: "int \<Rightarrow> collection \<Rightarrow> bool" where
  "countable_items version c \<longleftrightarrow>
     length (col_items c) < (if version \<ge> 3 then 2 ^ 31 else 2 ^ 16) \<and>
     (type_value (col_type c) = CASS_VALUE_TYPE_MAP \<longrightarrow> length (col_items c) mod 2 = 0)"

lemma value_of_collection:
  assumes "sub_types_complete (col_type c) ts" and "countable_items version c"
  shows "\<exists>v. value_new version (Some (col_type c)) (collection_bytes version c @ rest) (int (length (collection_bytes version c))) =
      Some v \<and> val_version v = version \<and> val_type v = Some (col_type c) \<and>
      val_data v = concat (map (item_wire version) (col_items c)) @ rest \<and>
      ci_count (collection_iterator_new v) = int (length (col_items c))"
proof -
  let ?n = "if type_value (col_type c) = CASS_VALUE_TYPE_MAP then length (col_items c) div 2 else length (col_items c)"
  have count: "get_count c = of_nat ?n" by (simp add: get_count_def)
  have pos: "int (length (collection_bytes version c)) > 0"
    by (simp add: collection_bytes_def encode_int32_def encode_uint16_def)
  have coll: "is_collection (col_type c)" using assms(1) by (auto simp: sub_types_complete_def is_collection_def)
  have even: "type_value (col_type c) = CASS_VALUE_TYPE_MAP \<Longrightarrow> 2 * (length (col_items c) div 2) = length (col_items c)"
    using assms(2) by (auto simp: countable_items_def)
  have "\<exists>w. decode_size version (collection_bytes version c @ rest) =
      Some (w, concat (map (item_wire version) (col_items c)) @ rest) \<and> sint w = int ?n"
  proof (cases "version \<ge> 3")
    case True
    then have "?n < 2147483648" using assms(2) by (auto simp: countable_items_def)
    then have "sint (of_nat ?n :: u32) = int ?n" by (simp only: signed_of_nat signed_take_bit_int_eq_self) (simp add: signed_take_bit_int_eq_self)
    moreover have "item_wire version = long_string_wire" using True by (simp add: fun_eq_iff item_wire_def)
    ultimately show ?thesis using True count
      by (simp add: decode_size_def collection_bytes_def wire_simps)
  next
    case False
    then have n: "?n < 65536" using assms(2) by (auto simp: countable_items_def)
    have "(ucast (of_nat ?n :: u32) :: u16) = of_nat ?n" by (rule narrowed_length)
    moreover have "item_wire version = string_wire" using False by (simp add: fun_eq_iff item_wire_def)
    ultimately show ?thesis using False count widened_length [OF n]
      by (simp add: decode_size_def collection_bytes_def wire_simps)
  qed
  then show ?thesis
    using pos coll even
    by (auto simp: value_new_def collection_iterator_new_def value_value_type_def)
qed

lemma collection_item_type:
  assumes "sub_types_complete (col_type c) ts" and "val_type v = Some (col_type c)"
  shows "item_type v (int i) = Some (ts ! (i mod length ts))"
proof -
  obtain ty where ty: "col_type c = Collection_type ty ts"
    "ty = CASS_VALUE_TYPE_MAP \<and> length ts = 2 \<or> (ty = CASS_VALUE_TYPE_LIST \<or> ty = CASS_VALUE_TYPE_SET) \<and> length ts = 1"
    using assms(1) by (auto simp: sub_types_complete_def)
  have "i mod 2 = 0 \<or> i mod 2 = 1" by presburger
  moreover have "int i mod 2 = int (i mod 2)" by (simp add: zmod_int)
  ultimately show ?thesis using ty assms(2)
    by (auto simp: item_type_def value_value_type_def primary_data_type_def secondary_data_type_def is_collection_def
        is_map_def)
qed


definition example_map :: collection where
  "example_map = \<lparr>col_refs = 1,
     col_type = Collection_type CASS_VALUE_TYPE_MAP [Some (Simple_type CASS_VALUE_TYPE_INT), Some (Simple_type CASS_VALUE_TYPE_BLOB)],
     col_items = [[0, 0, 0, 1], [7]]\<rparr>"


text \<open>items that are collections are always written in the format of protocol version 3, but the iterator
  reads them in the format of the connection: on an older one such an item is read as an empty
  collection, whatever it holds.\<close>

theorem nested_collection_lost:
  assumes "collection_item heap (Bind_collection a) = Some b" and "heap a = Some c" and "is_collection (col_type c)"
    and "unat (get_count c) < 65536" and "version < 3"
    and "value_new version (Some (col_type c)) (b @ rest) (int (length b)) = Some v"
  shows "val_count v = 0 \<and> (type_value (col_type c) \<noteq> CASS_VALUE_TYPE_MAP \<longrightarrow>
    collection_next (collection_iterator_new v) = Some (False, collection_iterator_new v))"
proof -
  have b: "b = collection_bytes 3 c"
    using assms(1,2) by (simp add: collection_item_def collection_encode_bytes)
  define w where "w = unat (get_count c)"
  have w: "get_count c = of_nat w" "w < 65536" using assms(4) by (simp_all add: w_def)
  have "unat (drop_bit 24 (get_count c)) = 0" "unat (drop_bit 16 (get_count c)) = 0"
    using w(2) by (simp_all add: drop_bit_eq_div unat_div_distrib w_def)
  then have "drop_bit 24 (get_count c) = 0" "drop_bit 16 (get_count c) = 0" by (simp_all only: unat_eq_0)
  then obtain x y where xy: "encode_uint32 (get_count c) = [0, 0, x, y]"
    by (simp add: encode_uint32_def)
  define more where "more = concat (map long_string_wire (col_items c)) @ rest"
  have bs: "b @ rest = 0 # 0 # x # y # more" and pos: "0 < int (length b)"
    by (simp_all add: b collection_bytes_def encode_int32_eq xy more_def)
  have "decode_size version (b @ rest) = Some (0, x # y # more)"
    using assms(5) by (simp add: bs decode_size_def)
  then have "val_count v = 0"
    using assms(3,6) pos by (auto simp: value_new_def)
  then show ?thesis
    using assms(6)
    by (auto simp: collection_next_def collection_iterator_new_def value_value_type_def value_new_def
        split: option.splits if_splits)
qed


theorem nested_collection_lost_witness:
  "val_count \<lparr>val_version = 2, val_type = Some (Collection_type CASS_VALUE_TYPE_LIST [Some (Simple_type CASS_VALUE_TYPE_INT)]),
     val_count = 0, val_data = [0, 1, 0, 0, 0, 4, 0, 0, 0, 7], val_size = 10\<rparr> = 0"
proof -
  let ?c = "\<lparr>col_refs = 1, col_type = Collection_type CASS_VALUE_TYPE_LIST [Some (Simple_type CASS_VALUE_TYPE_INT)],
    col_items = [[0, 0, 0, 7]]\<rparr>"
  have "collection_bytes 3 ?c = [0, 0, 0, 1, 0, 0, 0, 4, 0, 0, 0, 7]"
    by (simp add: collection_bytes_def get_count_def encode_int32_def long_string_wire_def)
  then show ?thesis
    using nested_collection_lost [of "[5 \<mapsto> ?c]" 5 "[0, 0, 0, 1, 0, 0, 0, 4, 0, 0, 0, 7]" ?c 2 "[]"
        "\<lparr>val_version = 2, val_type = Some (Collection_type CASS_VALUE_TYPE_LIST [Some (Simple_type CASS_VALUE_TYPE_INT)]),
          val_count = 0, val_data = [0, 1, 0, 0, 0, 4, 0, 0, 0, 7], val_size = 10\<rparr>"]
    by (simp add: collection_item_def collection_encode_bytes is_collection_def get_count_def value_new_def decode_size_def)
qed

lemma scalar_value_new:
  assumes "scalar_valid s (type_value t)"
  shows "value_new version (Some t) data n =
    Some \<lparr>val_version = version, val_type = Some t, val_count = 0, val_data = data, val_size = n\<rparr>"
proof -
  have "\<not> is_collection t \<and> \<not> is_tuple t \<and> \<not> is_user_type t"
    using assms
    by (cases s) (auto simp: is_collection_def is_tuple_def is_user_type_def is_int64_type_def is_string_type_def
        is_bytes_type_def is_uuid_type_def)
  then show ?thesis by (simp add: value_new_def)
qed

text \<open>a scalar value that is bound where the types allow it is read back unchanged by the function of its type from what
  was sent; strings and bytes as a pointer and a length that give the bytes, addresses up to the sixteen bytes an
  address has.\<close>

theorem scalar_read_back:
  assumes "scalar_valid s (type_value t)" and "scalar_ok s" and "encode_value s = Some bs"
    and "value_new version (Some t) (bs @ rest) (int (length bs)) = Some v" and "length bs < 2 ^ 31"
  shows "case s of
      Val_int8 x \<Rightarrow> cass_value_get_int8 (Some v) = Some (Inr x)
    | Val_int16 x \<Rightarrow> cass_value_get_int16 (Some v) = Some (Inr x)
    | Val_int32 x \<Rightarrow> cass_value_get_int32 (Some v) = Some (Inr x)
    | Val_uint32 x \<Rightarrow> cass_value_get_uint32 (Some v) = Some (Inr x)
    | Val_int64 x \<Rightarrow> cass_value_get_int64 (Some v) = Some (Inr x)
    | Val_float x \<Rightarrow> cass_value_get_float (Some v) = Some (Inr x)
    | Val_double x \<Rightarrow> cass_value_get_double (Some v) = Some (Inr x)
    | Val_bool x \<Rightarrow> cass_value_get_bool (Some v) = Some (Inr (if x then 1 else 0))
    | Val_string x \<Rightarrow> cass_value_get_string (Some v) = Inr (x @ rest, length x)
    | Val_bytes x \<Rightarrow> cass_value_get_bytes (Some v) = Inr (x @ rest, length x)
    | Val_uuid x \<Rightarrow> cass_value_get_uuid (Some v) = Some (Inr x)
    | Val_inet x n \<Rightarrow> cass_value_get_inet (Some v) = (if n \<le> 16 then Some (Inr (take n x, of_nat n)) else None)
    | Val_decimal x scale \<Rightarrow> cass_value_get_decimal (Some v) = Some (Inr (x @ rest, of_nat (length x), scale))"
proof -
  have v: "v = \<lparr>val_version = version, val_type = Some t, val_count = 0, val_data = bs @ rest, val_size = int (length bs)\<rparr>"
    using assms(4) scalar_value_new [OF assms(1)] by simp
  have bs: "bs = scalar_bytes s" using assms(2,3) by (simp add: encode_value_bytes)
  note defs = check_value_def value_is_null_def value_value_type_def read_value_def
  show ?thesis
  proof (cases s)
    case (Val_inet x n)
    then have "min (length x) n = n" using assms(2) by simp
    then show ?thesis using Val_inet assms(1)
      by (simp add: v bs defs cass_value_get_inet_def)
  next
    case (Val_decimal x scale)
    then show ?thesis using assms(1)
      by (simp add: v bs defs cass_value_get_decimal_def wire_simps)
  qed (use assms(1) in \<open>simp_all add: v bs defs cass_value_get_int8_def cass_value_get_int16_def cass_value_get_int32_def
      cass_value_get_uint32_def cass_value_get_int64_def cass_value_get_float_def cass_value_get_double_def
      cass_value_get_bool_def cass_value_get_string_def cass_value_get_bytes_def cass_value_get_uuid_def
      wire_simps bool_byte_def encode_float_def decode_float_def encode_double_def decode_double_def\<close>)
qed

theorem scalar_read_back_witness:
  "cass_value_get_int16 (Some \<lparr>val_version = 3, val_type = Some (Simple_type CASS_VALUE_TYPE_SMALL_INT), val_count = 0,
     val_data = [1, 2, 3], val_size = 2\<rparr>) = Some (Inr 258)"
  using scalar_read_back [of "Val_int16 258" "Simple_type CASS_VALUE_TYPE_SMALL_INT" "[1, 2]" 3 "[3]"
      "\<lparr>val_version = 3, val_type = Some (Simple_type CASS_VALUE_TYPE_SMALL_INT), val_count = 0,
        val_data = [1, 2, 3], val_size = 2\<rparr>"]
  by (simp add: fill_def buf_encode_int16_def put_bytes_def encode_int16_def value_new_def is_collection_def is_tuple_def
      is_user_type_def)

text \<open>a user type value may have fewer fields than its type, when the type has grown since it was written. The
  iterator goes on with whatever follows the value in the message: the fields that are missing are shown with the
  bytes behind the end of the value.\<close>

theorem missing_fields_read_on:
  assumes "val_type v = Some (User_type k n flds)" and "val_data v = concat (map frame_wire (have @ behind)) @ rest"
    and "val_size v = int (length (concat (map frame_wire have)))" and "length flds = length have + length behind"
    and "list_all (\<lambda>x. frame_ok (snd x) \<and> readable (val_version v) (snd (fst x), snd x)) (zip flds (have @ behind))"
    and "user_type_iterator_new v = Some it"
  shows "\<exists>vs. walk user_type_next user_type_item (length flds + 1) it = Some vs \<and>
    list_all2 (\<lambda>p x. fst p = fst (fst x) \<and> value_shows (val_version v) (snd p) (snd (fst x), snd x)) vs
      (zip flds (have @ behind)) \<and>
    nat (val_size v) + length (concat (map frame_wire behind)) + length rest = length (val_data v)"
proof -
  have it: "it = \<lparr>ui_version = val_version v, ui_position = val_data v, ui_next = flds, ui_current = None, ui_value = value_null\<rparr>"
    using assms(1,6) by (simp add: user_type_iterator_new_def)
  have "map snd (zip flds (have @ behind)) = have @ behind" "map fst (zip flds (have @ behind)) = flds"
    using assms(4) by simp_all
  then have "user_type_left (val_version v) it (zip flds (have @ behind))"
    unfolding user_type_left_def it using assms(2,5)
    by (auto simp: map_map [symmetric] simp del: map_map)
  moreover have "length (zip flds (have @ behind)) < length flds + 1" by simp
  ultimately obtain vs where "walk user_type_next user_type_item (length flds + 1) it = Some vs"
    "list_all2 (\<lambda>p x. fst p = fst (fst x) \<and> value_shows (val_version v) (snd p) (snd (fst x), snd x)) vs
      (zip flds (have @ behind))"
    using user_type_iteration.walk_all by blast
  moreover have "nat (val_size v) + length (concat (map frame_wire behind)) + length rest = length (val_data v)"
    by (simp add: assms(2,3) del: length_concat)
  ultimately show ?thesis by blast
qed

definition short_value :: cass_value where
  "short_value =
     \<lparr>val_version = 3, val_type = Some (User_type [] [] [(''a'', Some (Simple_type CASS_VALUE_TYPE_BLOB)),
        (''b'', Some (Simple_type CASS_VALUE_TYPE_BLOB))]), val_count = 2,
      val_data = [0, 0, 0, 1, 5, 0, 0, 0, 1, 6, 7], val_size = 5\<rparr>"

theorem missing_fields_read_on_witness:
  "\<exists>vs. walk user_type_next user_type_item (length [(''a'', Some (Simple_type CASS_VALUE_TYPE_BLOB)),
        (''b'', Some (Simple_type CASS_VALUE_TYPE_BLOB))] + 1) (the (user_type_iterator_new short_value)) = Some vs \<and>
    list_all2 (\<lambda>p x. fst p = fst (fst x) \<and> value_shows (val_version short_value) (snd p) (snd (fst x), snd x)) vs
      (zip [(''a'', Some (Simple_type CASS_VALUE_TYPE_BLOB)), (''b'', Some (Simple_type CASS_VALUE_TYPE_BLOB))]
        ([Some [5]] @ [Some [6]])) \<and>
    nat (val_size short_value) + length (concat (map frame_wire [Some [6 :: byte]])) + length [7 :: byte] =
      length (val_data short_value)"
  by (rule missing_fields_read_on)
    (simp_all add: short_value_def frame_wire_def long_string_wire_def encode_int32_def frame_ok_def readable_def
      value_new_def is_collection_def is_tuple_def is_user_type_def user_type_iterator_new_def)

text \<open>The length of a null item is added to the position: the next item is read from one byte before its length.\<close>

definition null_item_value :: cass_value where
  "null_item_value =
     \<lparr>val_version = 3, val_type = Some (Collection_type CASS_VALUE_TYPE_LIST [Some (Simple_type CASS_VALUE_TYPE_BLOB)]),
      val_count = 2, val_data = [255, 255, 255, 255, 0, 0, 0, 1, 9], val_size = 9\<rparr>"

lemma null_item_misaligns:
  "walk collection_next (\<lambda>it. Some (val_size (ci_value it))) 3 (collection_iterator_new null_item_value) = None"
  by code_simp

text \<open>An address longer than sixteen bytes is copied behind the end of the array.\<close>

lemma inet_overflow:
  "val_size v > 16 \<Longrightarrow> value_value_type v = CASS_VALUE_TYPE_INET \<Longrightarrow> cass_value_get_inet (Some v) = None"
  by (simp add: cass_value_get_inet_def check_value_def value_is_null_def)

end
