(* ===== verification/Schema_Metadata.thy ===== *)
theory Schema_Metadata
  imports Result Data_Type_Parser Token_Map "HOL-Library.Monad_Syntax" "HOL-Library.Product_Lexorder"
begin

text \<open>
  \<open>metadata.cpp\<close>, \<open>metadata.hpp\<close>: the schema a session keeps. The rows of the server's schema tables
  become keyspaces, tables with their columns, user types, functions and aggregates; a full load goes
  into a back buffer that replaces the front buffer at the end, later changes go to the front buffer,
  and the keyspaces' replication reaches the token map. Objects the source shares by pointer are values
  here, so that the update of a user type through its pointer does not show in types that were built
  before. The text of the JSON columns is parsed by a third-party library, the parameter \<open>json\<close>.
  \<open>None\<close> is a null pointer, a wrong cast, a failed assertion or a read behind the end of a buffer.
\<close>

section \<open>Rows and their fields\<close>

text \<open>A result and one of its rows, whose values are found by the names of the columns.\<close>

type_synonym meta_row = "result_response \<times> cass_value list"

abbreviation get_by_name :: "meta_row \<Rightarrow> string \<Rightarrow> cass_value option option" where
  "get_by_name row name \<equiv> row_get_by_name (fst row) (snd row) name"

definition get_string_by_name :: "meta_row \<Rightarrow> string \<Rightarrow> string option option" where
  "get_string_by_name row name = map_option (map_option bytes_string) (row_get_string_by_name (fst row) (snd row) name)"

text \<open>
  The loop every update has: decode the first row, then all rows. The iterator stops after the row
  count, so that one step more than it has rows is enough (\<open>result_rows_fuel\<close>).
\<close>

definition result_rows :: "result_response \<Rightarrow> meta_row list option" where
  "result_rows result =
     do { result \<leftarrow> decode_first_row result;
          rows \<leftarrow> walk result_next result_row (nat (rr_row_count result) + 1) (result_iterator_new result);
          Some (map (Pair result) rows) }"

text \<open>The steps of a loop over a list, the first that fails ending it.\<close>

fun each :: "('a \<Rightarrow> 's \<Rightarrow> 's option) \<Rightarrow> 'a list \<Rightarrow> 's \<Rightarrow> 's option" where
  "each f [] s = Some s"
| "each f (x # xs) s = do { s \<leftarrow> f x s; each f xs s }"

text \<open>A field has the value of its column; a null or empty value leaves the default value.\<close>

type_synonym meta_fields = "(string, cass_value) std_map"

definition get_field :: "string \<Rightarrow> meta_fields \<Rightarrow> cass_value option" where
  "get_field name fs = map_find fs name"

definition value_to_string :: "cass_value \<Rightarrow> string option" where
  "value_to_string v = map_option bytes_string (to_string_ref v)"

definition get_string_field :: "string \<Rightarrow> meta_fields \<Rightarrow> string option" where
  "get_string_field name fs = (case get_field name fs of None \<Rightarrow> Some [] | Some v \<Rightarrow> value_to_string v)"

definition add_field :: "meta_row \<Rightarrow> string \<Rightarrow> meta_fields \<Rightarrow> (cass_value option \<times> meta_fields) option" where
  "add_field row name fs =
     do { v \<leftarrow> get_by_name row name;
          Some (case v of None \<Rightarrow> (None, fs)
                | Some v \<Rightarrow> (Some v, map_assign name (if val_size v \<le> 0 then value_null else v) fs)) }"

definition add_fields :: "meta_row \<Rightarrow> string list \<Rightarrow> meta_fields \<Rightarrow> meta_fields option" where
  "add_fields row names fs = each (\<lambda>name fs. map_option snd (add_field row name fs)) names fs"

text \<open>
  What the parser makes of the text of a column: an error, an array, an object or something else. A
  \<open>None\<close> inside is an element that is no string, whose text the source asks for all the same.
\<close>

datatype json = Json_error | Json_array "bytes option list" | Json_object "(bytes \<times> bytes option) list" | Json_other

definition text_type :: "data_type option" where
  "text_type = Some (Simple_type CASS_VALUE_TYPE_TEXT)"

fun text_items :: "bytes option list \<Rightarrow> buffer list option" where
  "text_items [] = Some []"
| "text_items (s # ss) =
     do { s \<leftarrow> s; b \<leftarrow> encode_value (Val_string s); bs \<leftarrow> text_items ss; Some (b # bs) }"

text \<open>The collection of the strings, encoded as the server would send it.\<close>

definition text_collection :: "int \<Rightarrow> data_type \<Rightarrow> int \<Rightarrow> bytes option list \<Rightarrow> cass_value option" where
  "text_collection version t n ss =
     do { items \<leftarrow> text_items ss;
          (let c = \<lparr>col_refs = 1, col_type = t, col_items = items\<rparr>;
               encoded_size = collection_get_items_size version c in
           do { encoded \<leftarrow> fill encoded_size (collection_encode_items version c);
                Some \<lparr>val_version = version, val_type = Some t, val_count = n, val_data = encoded,
                  val_size = int encoded_size\<rparr> }) }"

definition column_text :: "cass_value \<Rightarrow> bytes option" where
  "column_text v =
     (if nat (val_size v) \<le> length (val_data v) then Some (take (nat (val_size v)) (val_data v)) else None)"

definition add_json_list_field ::
    "(bytes \<Rightarrow> json) \<Rightarrow> int \<Rightarrow> meta_row \<Rightarrow> string \<Rightarrow> meta_fields \<Rightarrow> meta_fields option" where
  "add_json_list_field json version row name fs =
     do { v \<leftarrow> get_by_name row name;
          (case v of None \<Rightarrow> Some fs
           | Some v \<Rightarrow>
               if val_size v \<le> 0 then Some (map_assign name value_null fs)
               else do { doc \<leftarrow> column_text v;
                         (case json doc of
                            Json_error \<Rightarrow> Some fs
                          | Json_array ss \<Rightarrow>
                              do { list \<leftarrow> text_collection version (Collection_type CASS_VALUE_TYPE_LIST [text_type])
                                     (int (length ss)) ss;
                                   Some (map_assign name list fs) }
                          | _ \<Rightarrow> Some (map_assign name value_null fs)) }) }"

definition add_json_map_field ::
    "(bytes \<Rightarrow> json) \<Rightarrow> int \<Rightarrow> meta_row \<Rightarrow> string \<Rightarrow> meta_fields \<Rightarrow> (cass_value option \<times> meta_fields) option" where
  "add_json_map_field json version row name fs =
     do { v \<leftarrow> get_by_name row name;
          (case v of None \<Rightarrow> Some (None, fs)
           | Some v \<Rightarrow>
               if val_size v \<le> 0 then Some (None, map_assign name value_null fs)
               else do { doc \<leftarrow> column_text v;
                         (case json doc of
                            Json_error \<Rightarrow> Some (None, fs)
                          | Json_object ms \<Rightarrow>
                              do { m \<leftarrow> text_collection version
                                     (Collection_type CASS_VALUE_TYPE_MAP [text_type, text_type])
                                     (int (length ms)) (concat (map (\<lambda>(k, s). [Some k, s]) ms));
                                   Some (Some m, map_assign name m fs) }
                          | _ \<Rightarrow> Some (None, map_assign name value_null fs)) }) }"

section \<open>The parts of a schema\<close>

datatype column_type =
  CASS_COLUMN_TYPE_REGULAR | CASS_COLUMN_TYPE_PARTITION_KEY | CASS_COLUMN_TYPE_CLUSTERING_KEY
| CASS_COLUMN_TYPE_STATIC | CASS_COLUMN_TYPE_COMPACT_VALUE

record column_meta =
  cm_name :: string
  cm_fields :: meta_fields
  cm_type :: column_type
  cm_position :: int
  cm_data_type :: "data_type option"

record table_meta =
  tb_name :: string
  tb_fields :: meta_fields
  tb_columns :: "column_meta list"
  tb_columns_by_name :: "(string, column_meta) std_map"
  tb_partition_key :: "column_meta option list"
  tb_clustering_key :: "column_meta option list"

text \<open>\<open>called_on_null_input_\<close> is not initialised by the constructor.\<close>

record function_meta =
  fm_name :: string
  fm_simple_name :: string
  fm_fields :: meta_fields
  fm_args :: "(string \<times> data_type option) list"
  fm_args_by_name :: "(string \<times> data_type option) list"
  fm_return_type :: "data_type option"
  fm_body :: bytes
  fm_language :: bytes
  fm_called_on_null_input :: "bool option"

record aggregate_meta =
  am_name :: string
  am_simple_name :: string
  am_fields :: meta_fields
  am_arg_types :: "data_type option list"
  am_return_type :: "data_type option"
  am_state_type :: "data_type option"
  am_state_func :: "function_meta option"
  am_final_func :: "function_meta option"
  am_init_cond :: cass_value

record keyspace =
  km_name :: string
  km_fields :: meta_fields
  km_strategy_class :: string
  km_strategy_options :: "(string, string) std_map"
  km_tables :: "(string, table_meta) std_map"
  km_user_types :: "(string \<times> data_type) list"
  km_functions :: "(string, function_meta) std_map"
  km_aggregates :: "(string, aggregate_meta) std_map"

type_synonym keyspaces = "(string, keyspace) std_map"

record metadata_config =
  mc_protocol_version :: int
  mc_cassandra_version :: version_number

abbreviation version_3 :: version_number where
  "version_3 \<equiv> \<lparr>v_major = 3, v_minor = 0, v_patch = 0\<rparr>"

definition is_version_3 :: "metadata_config \<Rightarrow> bool" where
  "is_version_3 cfg \<longleftrightarrow> version_ge (mc_cassandra_version cfg) version_3"

definition table_column_name :: "metadata_config \<Rightarrow> string" where
  "table_column_name cfg = (if is_version_3 cfg then ''table_name'' else ''columnfamily_name'')"

definition signature_column_name :: "metadata_config \<Rightarrow> string" where
  "signature_column_name cfg = (if is_version_3 cfg then ''argument_types'' else ''signature'')"

definition keyspace_new :: "string \<Rightarrow> keyspace" where
  "keyspace_new name =
     \<lparr>km_name = name, km_fields = [], km_strategy_class = [], km_strategy_options = [], km_tables = [],
      km_user_types = [], km_functions = [], km_aggregates = []\<rparr>"

definition table_new :: "string \<Rightarrow> table_meta" where
  "table_new name =
     \<lparr>tb_name = name, tb_fields = [], tb_columns = [], tb_columns_by_name = [], tb_partition_key = [],
      tb_clustering_key = []\<rparr>"

definition column_new :: "string \<Rightarrow> int \<Rightarrow> column_type \<Rightarrow> data_type option \<Rightarrow> column_meta" where
  "column_new name position t d =
     \<lparr>cm_name = name, cm_fields = [], cm_type = t, cm_position = position, cm_data_type = d\<rparr>"

section \<open>Names of functions\<close>

text \<open>The arguments of \<open>full_function_name\<close>, without white space; an empty one is left out.\<close>

definition remove_space :: "string \<Rightarrow> string" where
  "remove_space s = filter (\<lambda>c. \<not> isspace c) s"

fun signature_string :: "bool \<Rightarrow> string list \<Rightarrow> string" where
  "signature_string at_begin [] = []"
| "signature_string at_begin (a # as) =
     (let argument = remove_space a
      in (if argument \<noteq> [] then (if \<not> at_begin then '','' else []) @ argument else []) @ signature_string False as)"

definition full_function_name :: "string \<Rightarrow> string list \<Rightarrow> string" where
  "full_function_name name signature = name @ ''('' @ signature_string True signature @ '')''"

lemma getline_shorter: "getline d s = (token, Some rest) \<Longrightarrow> length rest < length s"
proof -
  assume "getline d s = (token, Some rest)"
  then obtain c where "dropWhile (\<lambda>c. c \<noteq> d) s = c # rest"
    by (cases "dropWhile (\<lambda>c. c \<noteq> d) s") (auto simp: getline_def Let_def)
  then have "length (c # rest) \<le> length s" by (metis length_dropWhile_le)
  then show "length rest < length s" by simp
qed

text \<open>The arguments an application gives, split at the commas; the loop runs at least once.\<close>

function arguments_string :: "bool \<Rightarrow> string \<Rightarrow> string" where
  "arguments_string is_first stream =
     (case getline (CHR '','') stream of (token, rest) \<Rightarrow>
        let argument = remove_space token;
            here = (if argument \<noteq> [] then (if \<not> is_first then '','' else []) @ argument else [])
        in here @ (case rest of None \<Rightarrow> []
                   | Some stream \<Rightarrow> arguments_string (is_first \<and> argument = []) stream))"
  by pat_completeness auto

termination
  by (relation "measure (\<lambda>(f, s). length s)") (auto dest: getline_shorter [OF sym])

declare arguments_string.simps [simp del]

definition append_arguments :: "string \<Rightarrow> string \<Rightarrow> string" where
  "append_arguments full_name arguments = full_name @ ''('' @ arguments_string True arguments @ '')''"

section \<open>Keyspaces\<close>

definition keyspace_get_table :: "string \<Rightarrow> keyspace \<Rightarrow> table_meta option" where
  "keyspace_get_table name ks = map_find (km_tables ks) name"

definition get_or_create_table :: "string \<Rightarrow> keyspace \<Rightarrow> keyspace" where
  "get_or_create_table name ks = ks\<lparr>km_tables := map_insert_new name (table_new name) (km_tables ks)\<rparr>"

definition add_table :: "table_meta \<Rightarrow> keyspace \<Rightarrow> keyspace" where
  "add_table t ks = ks\<lparr>km_tables := map_assign (tb_name t) t (km_tables ks)\<rparr>"

definition keyspace_drop_table :: "string \<Rightarrow> keyspace \<Rightarrow> keyspace" where
  "keyspace_drop_table name ks = ks\<lparr>km_tables := map_erase name (km_tables ks)\<rparr>"

definition keyspace_get_user_type :: "string \<Rightarrow> keyspace \<Rightarrow> data_type option" where
  "keyspace_get_user_type name ks = map_of (km_user_types ks) name"

text \<open>\<open>get_or_create_user_type(name)->set_fields(fields)\<close>\<close>

definition keyspace_set_user_type :: "string \<Rightarrow> (string \<times> data_type option) list \<Rightarrow> keyspace \<Rightarrow> keyspace" where
  "keyspace_set_user_type name fs ks =
     ks\<lparr>km_user_types := AList.update name (User_type (km_name ks) name fs) (km_user_types ks)\<rparr>"

definition keyspace_drop_user_type :: "string \<Rightarrow> keyspace \<Rightarrow> keyspace" where
  "keyspace_drop_user_type name ks = ks\<lparr>km_user_types := AList.delete name (km_user_types ks)\<rparr>"

definition add_function :: "function_meta \<Rightarrow> keyspace \<Rightarrow> keyspace" where
  "add_function f ks = ks\<lparr>km_functions := map_assign (fm_name f) f (km_functions ks)\<rparr>"

definition get_function :: "string \<Rightarrow> keyspace \<Rightarrow> function_meta option" where
  "get_function name ks = map_find (km_functions ks) name"

definition keyspace_drop_function :: "string \<Rightarrow> keyspace \<Rightarrow> keyspace" where
  "keyspace_drop_function name ks = ks\<lparr>km_functions := map_erase name (km_functions ks)\<rparr>"

definition add_aggregate :: "aggregate_meta \<Rightarrow> keyspace \<Rightarrow> keyspace" where
  "add_aggregate a ks = ks\<lparr>km_aggregates := map_assign (am_name a) a (km_aggregates ks)\<rparr>"

definition get_aggregate :: "string \<Rightarrow> keyspace \<Rightarrow> aggregate_meta option" where
  "get_aggregate name ks = map_find (km_aggregates ks) name"

definition keyspace_drop_aggregate :: "string \<Rightarrow> keyspace \<Rightarrow> keyspace" where
  "keyspace_drop_aggregate name ks = ks\<lparr>km_aggregates := map_erase name (km_aggregates ks)\<rparr>"

text \<open>Whether the value of a column is there and has the type, and the type of its elements.\<close>

definition has_type :: "value_type \<Rightarrow> cass_value option \<Rightarrow> bool" where
  "has_type t v \<longleftrightarrow> (case v of None \<Rightarrow> False | Some v \<Rightarrow> value_value_type v = t)"

definition value_type_of :: "data_type option \<Rightarrow> value_type" where
  "value_type_of t = (case t of None \<Rightarrow> CASS_VALUE_TYPE_UNKNOWN | Some t \<Rightarrow> type_value t)"

definition primary_value_type :: "cass_value \<Rightarrow> value_type option" where
  "primary_value_type v = map_option value_type_of (primary_data_type v)"

definition secondary_value_type :: "cass_value \<Rightarrow> value_type option" where
  "secondary_value_type v = map_option value_type_of (secondary_data_type v)"

definition map_strings :: "cass_value \<Rightarrow> (string \<times> string) list option" where
  "map_strings v =
     walk map_next
       (\<lambda>it. do { k \<leftarrow> map_key it; v \<leftarrow> map_value it; k \<leftarrow> value_to_string k; v \<leftarrow> value_to_string v; Some (k, v) })
       (nat (val_count v) + 1) (map_iterator_new v)"

text \<open>The entries of a map of strings; a value that is none has no entries to go over.\<close>

definition string_map_entries :: "cass_value option \<Rightarrow> (string \<times> string) list option" where
  "string_map_entries v =
     (case v of None \<Rightarrow> Some []
      | Some v \<Rightarrow>
          if value_value_type v = CASS_VALUE_TYPE_MAP then
            do { p \<leftarrow> primary_value_type v; s \<leftarrow> secondary_value_type v;
                 (if is_string_type p \<and> is_string_type s then map_strings v else Some []) }
          else Some [])"

definition set_option :: "string \<times> string \<Rightarrow> keyspace \<Rightarrow> keyspace" where
  "set_option e ks = ks\<lparr>km_strategy_options := map_assign (fst e) (snd e) (km_strategy_options ks)\<rparr>"

definition set_replication :: "string \<times> string \<Rightarrow> keyspace \<Rightarrow> keyspace" where
  "set_replication e ks =
     set_option e (if fst e = ''class'' then ks\<lparr>km_strategy_class := snd e\<rparr> else ks)"

definition keyspace_update ::
    "(bytes \<Rightarrow> json) \<Rightarrow> metadata_config \<Rightarrow> meta_row \<Rightarrow> keyspace \<Rightarrow> keyspace option" where
  "keyspace_update json cfg row ks =
     do { fs \<leftarrow> add_fields row [''keyspace_name'', ''durable_writes''] (km_fields ks);
          (if is_version_3 cfg then
             do { (m, fs) \<leftarrow> add_field row ''replication'' fs;
                  entries \<leftarrow> string_map_entries m;
                  Some (fold set_replication entries (ks\<lparr>km_fields := fs\<rparr>)) }
           else
             do { (v, fs) \<leftarrow> add_field row ''strategy_class'' fs;
                  cls \<leftarrow> (case v of None \<Rightarrow> Some (km_strategy_class ks)
                         | Some v \<Rightarrow> if is_string_type (value_value_type v) then value_to_string v
                                   else Some (km_strategy_class ks));
                  (m, fs) \<leftarrow> add_json_map_field json (mc_protocol_version cfg) row ''strategy_options'' fs;
                  entries \<leftarrow> string_map_entries m;
                  Some (fold set_option entries (ks\<lparr>km_fields := fs, km_strategy_class := cls\<rparr>)) }) }"

section \<open>Tables\<close>

definition table_from_row ::
    "(bytes \<Rightarrow> json) \<Rightarrow> metadata_config \<Rightarrow> string \<Rightarrow> meta_row \<Rightarrow> table_meta option" where
  "table_from_row json cfg name row =
     (let version = mc_protocol_version cfg;
          map_field = (\<lambda>n fs. map_option snd (add_json_map_field json version row n fs));
          list_field = (\<lambda>n fs. add_json_list_field json version row n fs)
      in do { fs \<leftarrow> add_fields row
                [''keyspace_name'', table_column_name cfg, ''bloom_filter_fp_chance'', ''caching'', ''comment'',
                 ''default_time_to_live'', ''gc_grace_seconds'', ''id'', ''speculative_retry'',
                 ''max_index_interval'', ''min_index_interval'', ''memtable_flush_period_in_ms'',
                 ''read_repair_chance''] [];
              fs \<leftarrow> (if is_version_3 cfg then
                      add_fields row
                        [''dclocal_read_repair_chance'', ''crc_check_chance'', ''compaction'', ''compression'',
                         ''extensions'', ''flags''] fs
                    else
                      do { fs \<leftarrow> add_fields row [''cf_id'', ''local_read_repair_chance'', ''compaction_strategy_class''] fs;
                           fs \<leftarrow> map_field ''compaction_strategy_options'' fs;
                           fs \<leftarrow> map_field ''compression_parameters'' fs;
                           fs \<leftarrow> list_field ''column_aliases'' fs;
                           fs \<leftarrow> add_fields row [''comparator'', ''subcomparator'', ''default_validator'', ''key_alias''] fs;
                           fs \<leftarrow> list_field ''key_aliases'' fs;
                           add_fields row
                             [''value_alias'', ''key_validator'', ''type'', ''dropped_columns'', ''index_interval'',
                              ''is_dense'', ''max_compaction_threshold'', ''min_compaction_threshold'',
                              ''populate_io_cache_on_flush'', ''replicate_on_write''] fs });
              Some ((table_new name)\<lparr>tb_fields := fs\<rparr>) })"

definition get_column :: "string \<Rightarrow> table_meta \<Rightarrow> column_meta option" where
  "get_column name t = map_find (tb_columns_by_name t) name"

definition add_column :: "column_meta \<Rightarrow> table_meta \<Rightarrow> table_meta" where
  "add_column c t =
     t\<lparr>tb_columns := tb_columns t @ [c], tb_columns_by_name := map_assign (cm_name c) c (tb_columns_by_name t)\<rparr>"

definition clear_columns :: "table_meta \<Rightarrow> table_meta" where
  "clear_columns t =
     t\<lparr>tb_columns := [], tb_columns_by_name := [], tb_partition_key := [], tb_clustering_key := []\<rparr>"

definition get_column_count :: "column_meta list \<Rightarrow> column_type \<Rightarrow> nat" where
  "get_column_count columns t = length (filter (\<lambda>c. cm_type c = t) columns)"

definition column_compare :: "column_meta \<Rightarrow> column_meta \<Rightarrow> bool" where
  "column_compare a b \<longleftrightarrow>
     (if cm_type a = cm_type b then
        (cm_type a = CASS_COLUMN_TYPE_PARTITION_KEY \<or> cm_type a = CASS_COLUMN_TYPE_CLUSTERING_KEY) \<and>
        cm_position a < cm_position b
      else cm_type a = CASS_COLUMN_TYPE_PARTITION_KEY \<or>
        cm_type a = CASS_COLUMN_TYPE_CLUSTERING_KEY \<and> cm_type b \<noteq> CASS_COLUMN_TYPE_PARTITION_KEY)"

text \<open>
  \<open>std::stable_sort\<close> with a strict weak order: sorted, and equivalent elements in their old order,
  which determines the result.
\<close>

fun stable_insert :: "('a \<Rightarrow> 'a \<Rightarrow> bool) \<Rightarrow> 'a \<Rightarrow> 'a list \<Rightarrow> 'a list" where
  "stable_insert lt x [] = [x]"
| "stable_insert lt x (y # ys) = (if lt y x then y # stable_insert lt x ys else x # y # ys)"

definition stable_sort :: "('a \<Rightarrow> 'a \<Rightarrow> bool) \<Rightarrow> 'a list \<Rightarrow> 'a list" where
  "stable_sort lt xs = foldr (stable_insert lt) xs []"

text \<open>\<open>vector::resize\<close>, the new elements being null.\<close>

definition resize_keys :: "nat \<Rightarrow> 'a option list \<Rightarrow> 'a option list" where
  "resize_keys n xs = take n xs @ replicate (n - length xs) None"

definition place :: "column_meta \<Rightarrow> column_meta option list \<Rightarrow> column_meta option list" where
  "place c key = key[nat (cm_position c) := Some c]"

definition place_key :: "column_meta \<Rightarrow> table_meta \<Rightarrow> table_meta" where
  "place_key c t =
     (if cm_type c = CASS_COLUMN_TYPE_PARTITION_KEY \<and> cm_position c \<ge> 0 \<and>
         nat (cm_position c) < length (tb_partition_key t)
      then t\<lparr>tb_partition_key := place c (tb_partition_key t)\<rparr>
      else if cm_type c = CASS_COLUMN_TYPE_CLUSTERING_KEY \<and> cm_position c \<ge> 0 \<and>
         nat (cm_position c) < length (tb_clustering_key t)
      then t\<lparr>tb_clustering_key := place c (tb_clustering_key t)\<rparr>
      else t)"

text \<open>
  Cassandra 1.2, whose table of columns has the regular ones only: the keys come from the validator
  and the comparator of the table. A stream that starts with a text is written over from its
  beginning.
\<close>

definition overwrite :: "string \<Rightarrow> string \<Rightarrow> string" where
  "overwrite base s = s @ drop (length s) base"

definition default_alias :: "string \<Rightarrow> nat \<Rightarrow> string" where
  "default_alias base i = (if i > 0 then overwrite base (show_nat (i + 1)) else base)"

definition aliased_columns ::
    "string \<Rightarrow> column_type \<Rightarrow> string list \<Rightarrow> data_type list \<Rightarrow> nat \<Rightarrow> column_meta list" where
  "aliased_columns base t aliases types begin =
     map (\<lambda>i. column_new (if i < length aliases then aliases ! i else default_alias base i)
        (int (begin + i)) t (Some (types ! i))) [0..<length types]"

definition collection_strings :: "cass_value \<Rightarrow> string list option" where
  "collection_strings v =
     (let it = collection_iterator_new v
      in walk collection_next (\<lambda>it. value_to_string (ci_value it)) (nat (ci_count it) + 1) it)"

definition field_strings :: "string \<Rightarrow> meta_fields \<Rightarrow> string list option" where
  "field_strings name fs = (case get_field name fs of None \<Rightarrow> Some [] | Some v \<Rightarrow> collection_strings v)"

text \<open>
  How many types of the comparator are clustering columns. A composite of collections alone has the
  size 0, from which the source takes 1, too much to reserve.
\<close>

definition clustering_size :: "parse_result \<Rightarrow> string list \<Rightarrow> column_meta list \<Rightarrow> nat option" where
  "clustering_size comparator aliases columns =
     (let n = length (res_types comparator) in
      if res_composite comparator then
        (if res_collections comparator \<noteq> [] then (if n = 0 then None else Some (n - 1))
         else if n > 0 \<and> length aliases = n - 1 \<and>
                 type_value (last (res_types comparator)) = CASS_VALUE_TYPE_TEXT
         then Some (n - 1) else Some n)
      else Some (if aliases \<noteq> [] \<or> columns = [] then n else 0))"

definition build_keys_1_2 :: "table_meta \<Rightarrow> table_meta option" where
  "build_keys_1_2 t =
     do { key_aliases \<leftarrow> field_strings ''key_aliases'' (tb_fields t);
          validator \<leftarrow> get_string_field ''key_validator'' (tb_fields t);
          key_validator \<leftarrow> parse_with_composite validator;
          (let partition = aliased_columns ''key'' CASS_COLUMN_TYPE_PARTITION_KEY key_aliases
                 (res_types key_validator) (length (tb_partition_key t)) in
           do { column_aliases \<leftarrow> field_strings ''column_aliases'' (tb_fields t);
                comparator_name \<leftarrow> get_string_field ''comparator'' (tb_fields t);
                comparator \<leftarrow> parse_with_composite comparator_name;
                n \<leftarrow> clustering_size comparator column_aliases (tb_columns t);
                (let clustering = aliased_columns ''column'' CASS_COLUMN_TYPE_CLUSTERING_KEY column_aliases
                       (take n (res_types comparator)) (length (tb_clustering_key t));
                     partition_key = tb_partition_key t @ map Some partition;
                     clustering_key = tb_clustering_key t @ map Some clustering in
                 do { ps \<leftarrow> all_some partition_key;
                      cs \<leftarrow> all_some clustering_key;
                      Some (t\<lparr>tb_partition_key := partition_key, tb_clustering_key := clustering_key,
                        tb_columns := ps @ cs @ tb_columns t\<rparr>) }) }) }"

definition build_keys_and_sort :: "metadata_config \<Rightarrow> table_meta \<Rightarrow> table_meta option" where
  "build_keys_and_sort cfg t =
     (if v_major (mc_cassandra_version cfg) \<ge> 2 then
        (let t = t\<lparr>tb_partition_key :=
                     resize_keys (get_column_count (tb_columns t) CASS_COLUMN_TYPE_PARTITION_KEY) (tb_partition_key t),
                   tb_clustering_key :=
                     resize_keys (get_column_count (tb_columns t) CASS_COLUMN_TYPE_CLUSTERING_KEY) (tb_clustering_key t)\<rparr>;
             t = fold place_key (tb_columns t) t
         in Some (t\<lparr>tb_columns := stable_sort column_compare (tb_columns t)\<rparr>))
      else build_keys_1_2 t)"

text \<open>The aliases of the partition key; here the stream goes on behind the text.\<close>

definition key_aliases :: "table_meta \<Rightarrow> string list option" where
  "key_aliases t =
     do { aliases \<leftarrow> field_strings ''key_aliases'' (tb_fields t);
          (if aliases \<noteq> [] then Some aliases
           else do { validator \<leftarrow> get_string_field ''key_validator'' (tb_fields t);
                     key_validator \<leftarrow> parse_with_composite validator;
                     Some (map (\<lambda>i. ''key'' @ (if i > 0 then show_nat (i + 1) else []))
                       [0..<length (res_types key_validator)]) }) }"

section \<open>Columns, functions and aggregates\<close>

text \<open>
  The type a name stands for: the CQL parser creates the user types it meets in the keyspace. The
  native types are those of the server's version, which the load of the schema sets up.
\<close>

definition parse_type :: "metadata_config \<Rightarrow> string \<Rightarrow> keyspace \<Rightarrow> data_type option \<times> keyspace" where
  "parse_type cfg s ks =
     (if is_version_3 cfg then
        (case cql_parse s \<lparr>ks_name = km_name ks, ks_user_types = km_user_types ks\<rparr> of
           (t, space) \<Rightarrow> (t, ks\<lparr>km_user_types := ks_user_types space\<rparr>))
      else (parse_one s, ks))"

text \<open>The type named by a column of text; another column leaves \<open>old\<close>.\<close>

definition column_value_type ::
    "metadata_config \<Rightarrow> cass_value option \<Rightarrow> data_type option \<Rightarrow> keyspace \<Rightarrow> (data_type option \<times> keyspace) option" where
  "column_value_type cfg v old ks =
     (if has_type CASS_VALUE_TYPE_VARCHAR v then do { s \<leftarrow> value_to_string (the v); Some (parse_type cfg s ks) }
      else Some (old, ks))"

definition column_kind :: "string \<Rightarrow> string \<Rightarrow> bool \<Rightarrow> column_type" where
  "column_kind kind clustering compact =
     (if kind = ''partition_key'' then CASS_COLUMN_TYPE_PARTITION_KEY
      else if kind = clustering then CASS_COLUMN_TYPE_CLUSTERING_KEY
      else if kind = ''static'' then CASS_COLUMN_TYPE_STATIC
      else if compact \<and> kind = ''compact_value'' then CASS_COLUMN_TYPE_COMPACT_VALUE
      else CASS_COLUMN_TYPE_REGULAR)"

definition kind_of_value :: "string \<Rightarrow> bool \<Rightarrow> cass_value option \<Rightarrow> column_type option" where
  "kind_of_value clustering compact v =
     (if has_type CASS_VALUE_TYPE_VARCHAR v
      then map_option (\<lambda>s. column_kind s clustering compact) (value_to_string (the v))
      else Some CASS_COLUMN_TYPE_REGULAR)"

definition position_of_value :: "cass_value option \<Rightarrow> int option" where
  "position_of_value v =
     (if has_type CASS_VALUE_TYPE_INT v then map_option sint (as_int32 (the v)) else Some 0)"

definition column_from_row ::
    "(bytes \<Rightarrow> json) \<Rightarrow> metadata_config \<Rightarrow> string \<Rightarrow> meta_row \<Rightarrow> keyspace \<Rightarrow> (column_meta \<times> keyspace) option" where
  "column_from_row json cfg name row ks =
     do { fs \<leftarrow> add_fields row [''keyspace_name'', table_column_name cfg, ''column_name''] [];
          (if is_version_3 cfg then
             do { fs \<leftarrow> add_fields row [''clustering_order'', ''column_name_bytes''] fs;
                  (v, fs) \<leftarrow> add_field row ''kind'' fs;
                  kind \<leftarrow> kind_of_value ''clustering'' False v;
                  (v, fs) \<leftarrow> add_field row ''position'' fs;
                  position \<leftarrow> position_of_value v;
                  (v, fs) \<leftarrow> add_field row ''type'' fs;
                  (t, ks) \<leftarrow> column_value_type cfg v None ks;
                  Some ((column_new name (max position 0) kind t)\<lparr>cm_fields := fs\<rparr>, ks) }
           else
             do { (v, fs) \<leftarrow> add_field row ''type'' fs;
                  kind \<leftarrow> kind_of_value ''clustering_key'' True v;
                  (v, fs) \<leftarrow> add_field row ''component_index'' fs;
                  position \<leftarrow> position_of_value v;
                  (v, fs) \<leftarrow> add_field row ''validator'' fs;
                  (t, ks) \<leftarrow> column_value_type cfg v None ks;
                  fs \<leftarrow> add_fields row [''index_name''] fs;
                  (m, fs) \<leftarrow> add_json_map_field json (mc_protocol_version cfg) row ''index_options'' fs;
                  fs \<leftarrow> add_fields row [''index_type''] fs;
                  Some ((column_new name position kind t)\<lparr>cm_fields := fs\<rparr>, ks) }) }"

text \<open>A list of text, as the names and types of arguments are.\<close>

definition is_text_list :: "cass_value option \<Rightarrow> bool option" where
  "is_text_list v =
     (if has_type CASS_VALUE_TYPE_LIST v
      then map_option (\<lambda>t. t = CASS_VALUE_TYPE_VARCHAR) (primary_value_type (the v)) else Some False)"

text \<open>Two iterators in step: the loop ends with the first that does.\<close>

definition both_next ::
    "collection_iterator \<times> collection_iterator \<Rightarrow> (bool \<times> collection_iterator \<times> collection_iterator) option" where
  "both_next its =
     do { (some1, it1) \<leftarrow> collection_next (fst its);
          (if \<not> some1 then Some (False, it1, snd its)
           else do { (some2, it2) \<leftarrow> collection_next (snd its); Some (some2, it1, it2) }) }"

definition both_strings :: "collection_iterator \<times> collection_iterator \<Rightarrow> (string \<times> string) option" where
  "both_strings its =
     do { a \<leftarrow> value_to_string (ci_value (fst its)); b \<leftarrow> value_to_string (ci_value (snd its)); Some (a, b) }"

definition string_pairs :: "cass_value \<Rightarrow> cass_value \<Rightarrow> (string \<times> string) list option" where
  "string_pairs v1 v2 =
     (let it = collection_iterator_new v1
      in walk both_next both_strings (nat (ci_count it) + 1) (it, collection_iterator_new v2))"

fun parse_args ::
    "metadata_config \<Rightarrow> (string \<times> string) list \<Rightarrow> keyspace \<Rightarrow> (string \<times> data_type option) list \<times> keyspace" where
  "parse_args cfg [] ks = ([], ks)"
| "parse_args cfg ((name, s) # args) ks =
     (case parse_type cfg s ks of (t, ks) \<Rightarrow>
        (case parse_args cfg args ks of (ts, ks) \<Rightarrow> ((name, t) # ts, ks)))"

definition signature_of :: "cass_value \<Rightarrow> string list option" where
  "signature_of v = map_option (map bytes_string) (as_stringlist v)"

definition text_or :: "bytes \<Rightarrow> cass_value option \<Rightarrow> bytes option" where
  "text_or old v = (if has_type CASS_VALUE_TYPE_VARCHAR v then to_string_ref (the v) else Some old)"

definition function_from_row ::
    "metadata_config \<Rightarrow> string \<Rightarrow> cass_value \<Rightarrow> meta_row \<Rightarrow> keyspace \<Rightarrow> (function_meta \<times> keyspace) option" where
  "function_from_row cfg name signature row ks =
     do { types \<leftarrow> signature_of signature;
          fs \<leftarrow> add_fields row [''keyspace_name'', ''function_name''] [];
          (v1, fs) \<leftarrow> add_field row ''argument_names'' fs;
          (v2, fs) \<leftarrow> add_field row ''argument_types'' fs;
          ok1 \<leftarrow> is_text_list v1;
          ok2 \<leftarrow> (if ok1 then is_text_list v2 else Some False);
          pairs \<leftarrow> (if ok2 then string_pairs (the v1) (the v2) else Some []);
          (case parse_args cfg pairs ks of (args, ks) \<Rightarrow>
             do { (v, fs) \<leftarrow> add_field row ''return_type'' fs;
                  (return_type, ks) \<leftarrow> column_value_type cfg v None ks;
                  (v, fs) \<leftarrow> add_field row ''body'' fs;
                  body \<leftarrow> text_or [] v;
                  (v, fs) \<leftarrow> add_field row ''language'' fs;
                  language \<leftarrow> text_or [] v;
                  (v, fs) \<leftarrow> add_field row ''called_on_null_input'' fs;
                  on_null \<leftarrow> (if has_type CASS_VALUE_TYPE_BOOLEAN v then map_option Some (as_bool (the v)) else Some None);
                  Some (\<lparr>fm_name = full_function_name name types, fm_simple_name = name, fm_fields = fs,
                     fm_args = args, fm_args_by_name = fold (\<lambda>(n, t). AList.update n t) args [],
                     fm_return_type = return_type, fm_body = body, fm_language = language,
                     fm_called_on_null_input = on_null\<rparr>, ks) }) }"

definition get_arg_type :: "string \<Rightarrow> function_meta \<Rightarrow> data_type option" where
  "get_arg_type name f = (case map_of (fm_args_by_name f) name of None \<Rightarrow> None | Some t \<Rightarrow> t)"

text \<open>The function with the name in a column, for the argument types \<open>signature\<close>.\<close>

definition named_function :: "keyspace \<Rightarrow> cass_value \<Rightarrow> string list \<Rightarrow> function_meta option option" where
  "named_function ks v signature =
     map_option (\<lambda>name. get_function (full_function_name name signature) ks) (value_to_string v)"

definition type_name_of :: "data_type option \<Rightarrow> string option" where
  "type_name_of t = (case t of None \<Rightarrow> None | Some t \<Rightarrow> type_string t)"

definition aggregate_from_row ::
    "metadata_config \<Rightarrow> string \<Rightarrow> cass_value \<Rightarrow> meta_row \<Rightarrow> keyspace \<Rightarrow> (aggregate_meta \<times> keyspace) option" where
  "aggregate_from_row cfg name signature row ks =
     do { types \<leftarrow> signature_of signature;
          fs \<leftarrow> add_fields row [''keyspace_name'', ''aggregate_name''] [];
          (v, fs) \<leftarrow> add_field row ''argument_types'' fs;
          ok \<leftarrow> is_text_list v;
          names \<leftarrow> (if ok then collection_strings (the v) else Some []);
          (case parse_args cfg (map (Pair []) names) ks of (args, ks) \<Rightarrow>
             do { (v, fs) \<leftarrow> add_field row ''return_type'' fs;
                  (return_type, ks) \<leftarrow> column_value_type cfg v None ks;
                  (v, fs) \<leftarrow> add_field row ''state_type'' fs;
                  (state_type, ks) \<leftarrow> column_value_type cfg v None ks;
                  (v, fs) \<leftarrow> add_field row ''final_func'' fs;
                  final_func \<leftarrow> (if has_type CASS_VALUE_TYPE_VARCHAR v then
                      do { s \<leftarrow> type_name_of state_type; named_function ks (the v) [s] } else Some None);
                  (v, fs) \<leftarrow> add_field row ''state_func'' fs;
                  state_func \<leftarrow> (if has_type CASS_VALUE_TYPE_VARCHAR v then
                      do { s \<leftarrow> type_name_of state_type; ss \<leftarrow> collection_strings signature;
                           named_function ks (the v) (s # ss) } else Some None);
                  (v, fs) \<leftarrow> add_field row ''initcond'' fs;
                  init_cond \<leftarrow> (if has_type CASS_VALUE_TYPE_BLOB v then
                      value_new (mc_protocol_version cfg) state_type (val_data (the v)) (val_size (the v))
                    else if is_version_3 cfg \<and> has_type CASS_VALUE_TYPE_VARCHAR v then
                      value_new (mc_protocol_version cfg) (by_cql_name ''varchar'') (val_data (the v)) (val_size (the v))
                    else Some value_null);
                  Some (\<lparr>am_name = full_function_name name types, am_simple_name = name, am_fields = fs,
                     am_arg_types = map snd args, am_return_type = return_type, am_state_type = state_type,
                     am_state_func = state_func, am_final_func = final_func, am_init_cond = init_cond\<rparr>, ks) }) }"

section \<open>The keyspaces of a buffer\<close>

definition get_or_create_keyspace :: "string \<Rightarrow> keyspaces \<Rightarrow> keyspaces" where
  "get_or_create_keyspace name kss = map_insert_new name (keyspace_new name) kss"

definition modify_keyspace :: "string option \<Rightarrow> (keyspace \<Rightarrow> keyspace option) \<Rightarrow> keyspaces \<Rightarrow> keyspaces option" where
  "modify_keyspace k f kss =
     do { name \<leftarrow> k; ks \<leftarrow> map_find kss name; ks \<leftarrow> f ks; Some (map_assign name ks kss) }"

definition update_keyspaces_row ::
    "(bytes \<Rightarrow> json) \<Rightarrow> metadata_config \<Rightarrow> meta_row \<Rightarrow> keyspaces \<times> keyspaces \<Rightarrow> (keyspaces \<times> keyspaces) option" where
  "update_keyspaces_row json cfg row s =
     (case s of (kss, updates) \<Rightarrow>
       do { name \<leftarrow> get_string_by_name row ''keyspace_name'';
            (case name of None \<Rightarrow> Some (kss, updates)
             | Some name \<Rightarrow>
                 do { kss \<leftarrow> modify_keyspace (Some name) (keyspace_update json cfg row) (get_or_create_keyspace name kss);
                      ks \<leftarrow> map_find kss name;
                      Some (kss, map_insert_new name ks updates) }) })"

definition update_keyspaces ::
    "(bytes \<Rightarrow> json) \<Rightarrow> metadata_config \<Rightarrow> result_response \<Rightarrow> keyspaces \<Rightarrow> (keyspaces \<times> keyspaces) option" where
  "update_keyspaces json cfg result kss =
     do { rows \<leftarrow> result_rows result; each (update_keyspaces_row json cfg) rows (kss, []) }"

text \<open>
  The loops keep the keyspace of the row before, a null pointer (\<open>None\<close>) with an empty name at the
  beginning, and go to another keyspace when the name changes.
\<close>

definition pointer_name :: "string option \<Rightarrow> string" where
  "pointer_name k = (case k of None \<Rightarrow> [] | Some name \<Rightarrow> name)"

definition select_keyspace :: "string \<Rightarrow> string option \<times> keyspaces \<Rightarrow> string option \<times> keyspaces" where
  "select_keyspace name s =
     (if pointer_name (fst s) \<noteq> name then (Some name, get_or_create_keyspace name (snd s)) else s)"

text \<open>The names in a row, or none when one is missing; the conditions are evaluated from the left.\<close>

fun row_names :: "meta_row \<Rightarrow> string list \<Rightarrow> string list option option" where
  "row_names row [] = Some (Some [])"
| "row_names row (c # cs) =
     do { s \<leftarrow> get_string_by_name row c;
          (case s of None \<Rightarrow> Some None | Some s \<Rightarrow> map_option (map_option (Cons s)) (row_names row cs)) }"

definition update_tables_row ::
    "(bytes \<Rightarrow> json) \<Rightarrow> metadata_config \<Rightarrow> meta_row \<Rightarrow> string option \<times> keyspaces \<Rightarrow> (string option \<times> keyspaces) option" where
  "update_tables_row json cfg row s =
     do { names \<leftarrow> row_names row [''keyspace_name'', table_column_name cfg];
          (case names of
             Some [keyspace_name, table_name] \<Rightarrow>
               (case select_keyspace keyspace_name s of (k, kss) \<Rightarrow>
                  do { t \<leftarrow> table_from_row json cfg table_name row;
                       kss \<leftarrow> modify_keyspace k (\<lambda>ks. Some (add_table t ks)) kss;
                       Some (k, kss) })
           | _ \<Rightarrow> Some s) }"

text \<open>
  Where the columns go: the keyspace of the row before and the table, which is found by its
  keyspace and name. \<open>build\<close> is the constructor of the column.
\<close>

record column_cursor =
  cc_keyspaces :: keyspaces
  cc_keyspace :: "string option"
  cc_table :: "(string \<times> string) option"

definition modify_table :: "string \<times> string \<Rightarrow> (table_meta \<Rightarrow> table_meta option) \<Rightarrow> keyspaces \<Rightarrow> keyspaces option" where
  "modify_table at f kss =
     modify_keyspace (Some (fst at))
       (\<lambda>ks. do { t \<leftarrow> map_find (km_tables ks) (snd at); t \<leftarrow> f t;
                  Some (ks\<lparr>km_tables := map_assign (snd at) t (km_tables ks)\<rparr>) }) kss"

definition finish_table :: "metadata_config \<Rightarrow> column_cursor \<Rightarrow> column_cursor option" where
  "finish_table cfg s =
     (case cc_table s of None \<Rightarrow> Some s
      | Some at \<Rightarrow> do { kss \<leftarrow> modify_table at (build_keys_and_sort cfg) (cc_keyspaces s);
                       Some (s\<lparr>cc_keyspaces := kss\<rparr>) })"

definition select_table :: "metadata_config \<Rightarrow> string \<Rightarrow> column_cursor \<Rightarrow> column_cursor option" where
  "select_table cfg table_name s =
     (if pointer_name (map_option snd (cc_table s)) \<noteq> table_name then
        do { s \<leftarrow> finish_table cfg s;
             name \<leftarrow> cc_keyspace s;
             kss \<leftarrow> modify_keyspace (cc_keyspace s) (\<lambda>ks. Some (get_or_create_table table_name ks)) (cc_keyspaces s);
             kss \<leftarrow> modify_table (name, table_name) (\<lambda>t. Some (clear_columns t)) kss;
             Some (s\<lparr>cc_keyspaces := kss, cc_table := Some (name, table_name)\<rparr>) }
      else Some s)"

definition column_step ::
    "metadata_config \<Rightarrow> string \<Rightarrow> string \<Rightarrow> (keyspace \<Rightarrow> (column_meta \<times> keyspace) option) \<Rightarrow>
     column_cursor \<Rightarrow> column_cursor option" where
  "column_step cfg keyspace_name table_name build s =
     (case select_keyspace keyspace_name (cc_keyspace s, cc_keyspaces s) of (k, kss) \<Rightarrow>
        do { s \<leftarrow> select_table cfg table_name (s\<lparr>cc_keyspace := k, cc_keyspaces := kss\<rparr>);
             name \<leftarrow> cc_keyspace s;
             ks \<leftarrow> map_find (cc_keyspaces s) name;
             (c, ks) \<leftarrow> build ks;
             at \<leftarrow> cc_table s;
             kss \<leftarrow> modify_table at (\<lambda>t. Some (add_column c t)) (map_assign name ks (cc_keyspaces s));
             Some (s\<lparr>cc_keyspaces := kss\<rparr>) })"

definition update_columns_row ::
    "(bytes \<Rightarrow> json) \<Rightarrow> metadata_config \<Rightarrow> meta_row \<Rightarrow> column_cursor \<Rightarrow> column_cursor option" where
  "update_columns_row json cfg row s =
     do { names \<leftarrow> row_names row [''keyspace_name'', table_column_name cfg, ''column_name''];
          (case names of
             Some [keyspace_name, table_name, column_name] \<Rightarrow>
               column_step cfg keyspace_name table_name (column_from_row json cfg column_name row) s
           | _ \<Rightarrow> Some s) }"

definition update_columns ::
    "(bytes \<Rightarrow> json) \<Rightarrow> metadata_config \<Rightarrow> result_response \<Rightarrow> keyspaces \<Rightarrow> keyspaces option" where
  "update_columns json cfg result kss =
     do { rows \<leftarrow> result_rows result;
          s \<leftarrow> each (update_columns_row json cfg) rows \<lparr>cc_keyspaces = kss, cc_keyspace = None, cc_table = None\<rparr>;
          s \<leftarrow> finish_table cfg s;
          Some (cc_keyspaces s) }"

definition update_tables ::
    "(bytes \<Rightarrow> json) \<Rightarrow> metadata_config \<Rightarrow> result_response \<Rightarrow> result_response \<Rightarrow> keyspaces \<Rightarrow> keyspaces option" where
  "update_tables json cfg tables_result columns_result kss =
     do { rows \<leftarrow> result_rows tables_result;
          (k, kss) \<leftarrow> each (update_tables_row json cfg) rows (None, kss);
          update_columns json cfg columns_result kss }"

text \<open>
  The fields of a user type: the loop ends at the first name or type that is null or no type, and
  keeps the fields before it.
\<close>

lemma collection_next_progress:
  "collection_next it = Some (True, it') \<Longrightarrow> ci_index it' = ci_index it + 1 \<and> ci_count it' = ci_count it \<and> ci_index it + 1 < ci_count it"
  by (auto simp: collection_next_def split: if_splits dest!: collection_decode_value_index)

function user_type_fields ::
    "metadata_config \<Rightarrow> collection_iterator \<Rightarrow> collection_iterator \<Rightarrow> (string \<times> data_type option) list \<Rightarrow> keyspace \<Rightarrow>
     ((string \<times> data_type option) list \<times> keyspace) option" where
  "user_type_fields cfg names types fs ks =
     (case collection_next names of
        None \<Rightarrow> None
      | Some (some_name, names) \<Rightarrow>
          if \<not> some_name then Some (fs, ks)
          else (case collection_next types of
                  None \<Rightarrow> None
                | Some (some_type, types) \<Rightarrow>
                    if \<not> some_type \<or> value_is_null (ci_value names) \<or> value_is_null (ci_value types) then Some (fs, ks)
                    else (case (value_to_string (ci_value names), value_to_string (ci_value types)) of
                            (Some name, Some s) \<Rightarrow>
                              (case parse_type cfg s ks of
                                 (None, ks) \<Rightarrow> Some (fs, ks)
                               | (Some t, ks) \<Rightarrow> user_type_fields cfg names types (fs @ [(name, Some t)]) ks)
                          | _ \<Rightarrow> None)))"
  by pat_completeness auto
termination
  by (relation "measure (\<lambda>(cfg, names, types, fs, ks). nat (ci_count names - ci_index names))")
    (auto dest!: collection_next_progress)

declare user_type_fields.simps [simp del]

definition update_user_types_row ::
    "metadata_config \<Rightarrow> meta_row \<Rightarrow> string option \<times> keyspaces \<Rightarrow> (string option \<times> keyspaces) option" where
  "update_user_types_row cfg row s =
     do { names \<leftarrow> row_names row [''keyspace_name'', ''type_name''];
          (case names of
             Some [keyspace_name, type_name] \<Rightarrow>
               (case select_keyspace keyspace_name s of (k, kss) \<Rightarrow>
                  do { names_value \<leftarrow> get_by_name row ''field_names'';
                       (if (case names_value of None \<Rightarrow> True | Some v \<Rightarrow> value_is_null v) then Some (k, kss)
                        else do { types_value \<leftarrow> get_by_name row ''field_types'';
                             (if (case types_value of None \<Rightarrow> True | Some v \<Rightarrow> value_is_null v) then Some (k, kss)
                              else do { kss \<leftarrow> modify_keyspace k (\<lambda>ks.
                                     do { (fs, ks) \<leftarrow> user_type_fields cfg (collection_iterator_new (the names_value))
                                            (collection_iterator_new (the types_value)) [] ks;
                                          Some (keyspace_set_user_type type_name fs ks) }) kss;
                                   Some (k, kss) }) }) })
           | _ \<Rightarrow> Some s) }"

definition update_user_types :: "metadata_config \<Rightarrow> result_response \<Rightarrow> keyspaces \<Rightarrow> keyspaces option" where
  "update_user_types cfg result kss =
     do { rows \<leftarrow> result_rows result; map_option snd (each (update_user_types_row cfg) rows (None, kss)) }"

text \<open>
  The rows of functions and aggregates: the signature is read first, but a row without it is only
  skipped after the names.
\<close>

definition update_signature_row ::
    "metadata_config \<Rightarrow> string \<Rightarrow> (string \<Rightarrow> cass_value \<Rightarrow> meta_row \<Rightarrow> keyspace \<Rightarrow> keyspace option) \<Rightarrow>
     meta_row \<Rightarrow> string option \<times> keyspaces \<Rightarrow> (string option \<times> keyspaces) option" where
  "update_signature_row cfg name_column add_it row s =
     do { signature \<leftarrow> get_by_name row (signature_column_name cfg);
          names \<leftarrow> row_names row [''keyspace_name'', name_column];
          (case (names, signature) of
             (Some [keyspace_name, name], Some signature) \<Rightarrow>
               (case select_keyspace keyspace_name s of (k, kss) \<Rightarrow>
                  do { kss \<leftarrow> modify_keyspace k (add_it name signature row) kss; Some (k, kss) })
           | _ \<Rightarrow> Some s) }"

definition update_functions :: "metadata_config \<Rightarrow> result_response \<Rightarrow> keyspaces \<Rightarrow> keyspaces option" where
  "update_functions cfg result kss =
     do { rows \<leftarrow> result_rows result;
          map_option snd (each (update_signature_row cfg ''function_name'' (\<lambda>name signature row ks.
              do { (f, ks) \<leftarrow> function_from_row cfg name signature row ks; Some (add_function f ks) }))
            rows (None, kss)) }"

definition update_aggregates :: "metadata_config \<Rightarrow> result_response \<Rightarrow> keyspaces \<Rightarrow> keyspaces option" where
  "update_aggregates cfg result kss =
     do { rows \<leftarrow> result_rows result;
          map_option snd (each (update_signature_row cfg ''aggregate_name'' (\<lambda>name signature row ks.
              do { (a, ks) \<leftarrow> aggregate_from_row cfg name signature row ks; Some (add_aggregate a ks) }))
            rows (None, kss)) }"

definition drop_in_keyspace :: "string \<Rightarrow> (keyspace \<Rightarrow> keyspace) \<Rightarrow> keyspaces \<Rightarrow> keyspaces" where
  "drop_in_keyspace name f kss =
     (case map_find kss name of None \<Rightarrow> kss | Some ks \<Rightarrow> map_assign name (f ks) kss)"

section \<open>The metadata of a session\<close>

record metadata =
  md_front :: keyspaces
  md_back :: keyspaces
  md_updating_front :: bool
  md_version :: u32
  md_token_map :: token_map
  md_config :: metadata_config

record schema_snapshot =
  sn_version :: u32
  sn_protocol_version :: int
  sn_keyspaces :: keyspaces

definition metadata_new :: metadata where
  "metadata_new =
     \<lparr>md_front = [], md_back = [], md_updating_front = True, md_version = 0, md_token_map = tm_init,
      md_config = \<lparr>mc_protocol_version = 0, mc_cassandra_version = \<lparr>v_major = 0, v_minor = 0, v_patch = 0\<rparr>\<rparr>\<rparr>"

definition schema_snapshot :: "metadata \<Rightarrow> schema_snapshot" where
  "schema_snapshot m =
     \<lparr>sn_version = md_version m, sn_protocol_version = mc_protocol_version (md_config m), sn_keyspaces = md_front m\<rparr>"

text \<open>The buffer that is updated, in a new version of the snapshot.\<close>

definition updating :: "metadata \<Rightarrow> keyspaces" where
  "updating m = (if md_updating_front m then md_front m else md_back m)"

definition set_updating :: "keyspaces \<Rightarrow> metadata \<Rightarrow> metadata" where
  "set_updating kss m =
     (let m = m\<lparr>md_version := md_version m + 1\<rparr>
      in if md_updating_front m then m\<lparr>md_front := kss\<rparr> else m\<lparr>md_back := kss\<rparr>)"

definition metadata_update :: "(metadata_config \<Rightarrow> keyspaces \<Rightarrow> keyspaces option) \<Rightarrow> metadata \<Rightarrow> metadata option" where
  "metadata_update f m = map_option (\<lambda>kss. set_updating kss m) (f (md_config m) (updating m))"

definition replication_meta :: "keyspace \<Rightarrow> keyspace_meta" where
  "replication_meta ks =
     \<lparr>strategy_class = km_strategy_class ks, strategy_options = km_strategy_options ks\<rparr>"

definition metadata_update_keyspaces ::
    "(bytes \<Rightarrow> json) \<Rightarrow> host_store \<Rightarrow> result_response \<Rightarrow> metadata \<Rightarrow> metadata option" where
  "metadata_update_keyspaces json hs result m =
     do { (kss, updates) \<leftarrow> update_keyspaces json (md_config m) result (updating m);
          Some ((set_updating kss m)\<lparr>md_token_map :=
            fold (\<lambda>(name, ks). update_keyspace hs name (replication_meta ks)) updates (md_token_map m)\<rparr>) }"

definition metadata_update_tables ::
    "(bytes \<Rightarrow> json) \<Rightarrow> result_response \<Rightarrow> result_response \<Rightarrow> metadata \<Rightarrow> metadata option" where
  "metadata_update_tables json tables_result columns_result =
     metadata_update (\<lambda>cfg. update_tables json cfg tables_result columns_result)"

definition metadata_update_user_types :: "result_response \<Rightarrow> metadata \<Rightarrow> metadata option" where
  "metadata_update_user_types result = metadata_update (\<lambda>cfg. update_user_types cfg result)"

definition metadata_update_functions :: "result_response \<Rightarrow> metadata \<Rightarrow> metadata option" where
  "metadata_update_functions result = metadata_update (\<lambda>cfg. update_functions cfg result)"

definition metadata_update_aggregates :: "result_response \<Rightarrow> metadata \<Rightarrow> metadata option" where
  "metadata_update_aggregates result = metadata_update (\<lambda>cfg. update_aggregates cfg result)"

definition metadata_drop_keyspace :: "string \<Rightarrow> metadata \<Rightarrow> metadata" where
  "metadata_drop_keyspace name m = set_updating (map_erase name (updating m)) m"

definition metadata_drop_table :: "string \<Rightarrow> string \<Rightarrow> metadata \<Rightarrow> metadata" where
  "metadata_drop_table ks name m = set_updating (drop_in_keyspace ks (keyspace_drop_table name) (updating m)) m"

definition metadata_drop_user_type :: "string \<Rightarrow> string \<Rightarrow> metadata \<Rightarrow> metadata" where
  "metadata_drop_user_type ks name m = set_updating (drop_in_keyspace ks (keyspace_drop_user_type name) (updating m)) m"

definition metadata_drop_function :: "string \<Rightarrow> string \<Rightarrow> metadata \<Rightarrow> metadata" where
  "metadata_drop_function ks name m = set_updating (drop_in_keyspace ks (keyspace_drop_function name) (updating m)) m"

definition metadata_drop_aggregate :: "string \<Rightarrow> string \<Rightarrow> metadata \<Rightarrow> metadata" where
  "metadata_drop_aggregate ks name m = set_updating (drop_in_keyspace ks (keyspace_drop_aggregate name) (updating m)) m"

definition clear_and_update_back :: "metadata \<Rightarrow> metadata" where
  "clear_and_update_back m =
     m\<lparr>md_token_map := tm_clear (md_token_map m), md_back := [], md_updating_front := False\<rparr>"

text \<open>
  \<open>InternalData::swap\<close> assigns the other buffer's keyspaces to both, so that the back buffer has
  them as well until it is cleared.
\<close>

definition swap_data :: "keyspaces \<times> keyspaces \<Rightarrow> keyspaces \<times> keyspaces" where
  "swap_data d = (case d of (self, other) \<Rightarrow> (other, other))"

definition swap_to_back_and_update_front :: "metadata \<Rightarrow> metadata" where
  "swap_to_back_and_update_front m =
     (case swap_data (md_front m, md_back m) of (front, back) \<Rightarrow>
        m\<lparr>md_version := md_version m + 1, md_front := front, md_back := [], md_updating_front := True\<rparr>)"

definition metadata_clear :: "metadata \<Rightarrow> metadata" where
  "metadata_clear m =
     m\<lparr>md_version := 0, md_front := [], md_back := [], md_token_map := tm_clear (md_token_map m)\<rparr>"

definition set_protocol_version :: "int \<Rightarrow> metadata \<Rightarrow> metadata" where
  "set_protocol_version version m = m\<lparr>md_config := (md_config m)\<lparr>mc_protocol_version := version\<rparr>\<rparr>"

definition set_cassandra_version :: "version_number \<Rightarrow> metadata \<Rightarrow> metadata" where
  "set_cassandra_version version m = m\<lparr>md_config := (md_config m)\<lparr>mc_cassandra_version := version\<rparr>\<rparr>"

definition metadata_set_partitioner :: "string \<Rightarrow> metadata \<Rightarrow> metadata" where
  "metadata_set_partitioner cls m = m\<lparr>md_token_map := set_partitioner cls (md_token_map m)\<rparr>"

definition metadata_update_host :: "host_store \<Rightarrow> host_ref \<Rightarrow> string list \<Rightarrow> metadata \<Rightarrow> metadata" where
  "metadata_update_host hs h tokens m = m\<lparr>md_token_map := update_host hs h tokens (md_token_map m)\<rparr>"

definition metadata_build :: "host_store \<Rightarrow> metadata \<Rightarrow> metadata" where
  "metadata_build hs m = m\<lparr>md_token_map := tm_build hs (md_token_map m)\<rparr>"

definition metadata_remove_host :: "host_store \<Rightarrow> host_ref \<Rightarrow> metadata \<Rightarrow> metadata" where
  "metadata_remove_host hs h m = m\<lparr>md_token_map := tm_remove_host hs h (md_token_map m)\<rparr>"

section \<open>The C interface\<close>

text \<open>What the application looks up in a snapshot; \<open>None\<close> is the null pointer here.\<close>

definition cass_schema_meta_keyspace_by_name_n :: "schema_snapshot \<Rightarrow> string \<Rightarrow> keyspace option" where
  "cass_schema_meta_keyspace_by_name_n sn name = map_find (sn_keyspaces sn) name"

definition snapshot_get_user_type :: "schema_snapshot \<Rightarrow> string \<Rightarrow> string \<Rightarrow> data_type option" where
  "snapshot_get_user_type sn keyspace_name type_name =
     do { ks \<leftarrow> map_find (sn_keyspaces sn) keyspace_name; keyspace_get_user_type type_name ks }"

definition cass_keyspace_meta_function_by_name_n :: "keyspace \<Rightarrow> string \<Rightarrow> string \<Rightarrow> function_meta option" where
  "cass_keyspace_meta_function_by_name_n ks name arguments = get_function (append_arguments name arguments) ks"

definition cass_keyspace_meta_aggregate_by_name_n :: "keyspace \<Rightarrow> string \<Rightarrow> string \<Rightarrow> aggregate_meta option" where
  "cass_keyspace_meta_aggregate_by_name_n ks name arguments = get_aggregate (append_arguments name arguments) ks"

definition cass_table_meta_column :: "table_meta \<Rightarrow> nat \<Rightarrow> column_meta option" where
  "cass_table_meta_column t index = (if index \<ge> length (tb_columns t) then None else Some (tb_columns t ! index))"

definition cass_table_meta_partition_key :: "table_meta \<Rightarrow> nat \<Rightarrow> column_meta option" where
  "cass_table_meta_partition_key t index =
     (if index \<ge> length (tb_partition_key t) then None else tb_partition_key t ! index)"

definition cass_table_meta_clustering_key :: "table_meta \<Rightarrow> nat \<Rightarrow> column_meta option" where
  "cass_table_meta_clustering_key t index =
     (if index \<ge> length (tb_clustering_key t) then None else tb_clustering_key t ! index)"

definition cass_function_meta_argument :: "function_meta \<Rightarrow> nat \<Rightarrow> lib_error + string \<times> data_type option" where
  "cass_function_meta_argument f index =
     (if index \<ge> length (fm_args f) then Inl CASS_ERROR_LIB_INDEX_OUT_OF_BOUNDS else Inr (fm_args f ! index))"

definition cass_function_meta_argument_type_by_name_n :: "function_meta \<Rightarrow> string \<Rightarrow> data_type option" where
  "cass_function_meta_argument_type_by_name_n f name = get_arg_type name f"

definition cass_aggregate_meta_argument_type :: "aggregate_meta \<Rightarrow> nat \<Rightarrow> data_type option" where
  "cass_aggregate_meta_argument_type a index =
     (if index \<ge> length (am_arg_types a) then None else am_arg_types a ! index)"

section \<open>Loops\<close>

lemma each_append: "each f (xs @ ys) s = Option.bind (each f xs s) (each f ys)"
  by (induction xs arbitrary: s) (auto simp: Option.bind_assoc split: Option.bind_splits)

text \<open>The loop over the rows of a result ends by its own condition.\<close>

lemma result_next_progress:
  "result_next it = Some (True, it') \<Longrightarrow>
   ri_index it' = ri_index it + 1 \<and> ri_result it' = ri_result it \<and> ri_index it + 1 < rr_row_count (ri_result it)"
  by (auto simp: result_next_def Let_def split: if_splits)

lemma result_walk_fuel:
  "nat (rr_row_count (ri_result it) - 1 - ri_index it) < n \<Longrightarrow> nat (rr_row_count (ri_result it) - 1 - ri_index it) < n' \<Longrightarrow>
   walk result_next result_row n it = walk result_next result_row n' it"
proof (induction n arbitrary: n' it)
  case (Suc n)
  then obtain k where n': "n' = Suc k" by (cases n') auto
  show ?case
  proof (cases "result_next it")
    case (Some r)
    then obtain b it' where r: "result_next it = Some (b, it')" by (cases r) auto
    show ?thesis
    proof (cases b)
      case True
      have p: "ri_index it' = ri_index it + 1" "ri_result it' = ri_result it" "ri_index it + 1 < rr_row_count (ri_result it)"
        using result_next_progress r True by auto
      then have less: "nat (rr_row_count (ri_result it') - 1 - ri_index it') < nat (rr_row_count (ri_result it) - 1 - ri_index it)"
        by simp
      have "walk result_next result_row n it' = walk result_next result_row k it'"
        using less Suc.prems n' by (intro Suc.IH) linarith+
      then show ?thesis using r True n' by (simp split: option.splits)
    qed (simp add: r n')
  qed (simp add: n')
qed simp

lemma result_rows_fuel:
  assumes "decode_first_row r = Some r'" and "nat (rr_row_count r') < fuel"
  shows "result_rows r = map_option (map (Pair r')) (walk result_next result_row fuel (result_iterator_new r'))"
proof -
  have "walk result_next result_row (nat (rr_row_count r') + 1) (result_iterator_new r') =
      walk result_next result_row fuel (result_iterator_new r')"
    using assms(2) by (intro result_walk_fuel) (simp_all add: result_iterator_new_def)
  then show ?thesis using assms(1) by (simp add: result_rows_def map_option_case split: option.splits)
qed

section \<open>The order of the columns\<close>

text \<open>The order of the source is that of a rank: partition key, clustering key, others.\<close>

definition column_rank :: "column_meta \<Rightarrow> nat \<times> int" where
  "column_rank c =
     (case cm_type c of CASS_COLUMN_TYPE_PARTITION_KEY \<Rightarrow> (0, cm_position c)
      | CASS_COLUMN_TYPE_CLUSTERING_KEY \<Rightarrow> (1, cm_position c) | _ \<Rightarrow> (2, 0))"

lemma column_compare_rank: "column_compare a b \<longleftrightarrow> column_rank a < column_rank b"
  by (cases "cm_type a"; cases "cm_type b") (auto simp: column_compare_def column_rank_def)

lemma stable_sort_rank: "stable_sort column_compare xs = sort_key column_rank xs"
proof -
  have "stable_insert column_compare x ys = insort_key column_rank x ys" for x ys
    by (induction ys) (auto simp: column_compare_rank)
  then have "stable_insert column_compare = insort_key column_rank" by blast
  then show ?thesis by (simp add: stable_sort_def sort_key_def)
qed

definition columns_of :: "column_type \<Rightarrow> column_meta list \<Rightarrow> column_meta list" where
  "columns_of t cs = filter (\<lambda>c. cm_type c = t) cs"

definition other_columns :: "column_meta list \<Rightarrow> column_meta list" where
  "other_columns cs =
     filter (\<lambda>c. cm_type c \<noteq> CASS_COLUMN_TYPE_PARTITION_KEY \<and> cm_type c \<noteq> CASS_COLUMN_TYPE_CLUSTERING_KEY) cs"

text \<open>The columns of a key, numbered from 0 on as the server numbers them, in any order.\<close>

definition numbered :: "column_meta list \<Rightarrow> bool" where
  "numbered cs \<longleftrightarrow> mset (map cm_position cs) = mset (map int [0..<length cs])"

lemma filter_rank_sorted:
  assumes "\<And>c. cm_type c = t \<Longrightarrow> column_rank c = (n, cm_position c)"
  shows "filter (\<lambda>c. k = column_rank c) (sort_key cm_position (columns_of t cs)) =
    filter (\<lambda>c. k = column_rank c \<and> cm_type c = t) cs"
proof -
  let ?F = "filter (\<lambda>c. k = column_rank c \<and> cm_type c = t) cs"
  have "filter (\<lambda>c. k = column_rank c) (sort_key cm_position (columns_of t cs)) = sort_key cm_position ?F"
    by (simp add: filter_sort columns_of_def conj_commute)
  also have "\<dots> = filter (\<lambda>c. cm_position c = snd k) (sort_key cm_position ?F)"
    using assms by (intro filter_True [symmetric]) auto
  also have "\<dots> = filter (\<lambda>c. cm_position c = snd k) ?F" by (rule sort_key_stable)
  also have "\<dots> = ?F" using assms by (intro filter_True) auto
  finally show ?thesis .
qed

lemma sorted_columns:
  "sort_key column_rank cs =
     sort_key cm_position (columns_of CASS_COLUMN_TYPE_PARTITION_KEY cs) @
     sort_key cm_position (columns_of CASS_COLUMN_TYPE_CLUSTERING_KEY cs) @ other_columns cs"
  (is "_ = ?P @ ?C @ ?O")
proof (rule properties_for_sort_key)
  show "mset (?P @ ?C @ ?O) = mset cs"
    by (induction cs) (auto simp: columns_of_def other_columns_def)
  have ranks: "cm_type c = CASS_COLUMN_TYPE_PARTITION_KEY \<Longrightarrow> column_rank c = (0, cm_position c)"
    "cm_type c = CASS_COLUMN_TYPE_CLUSTERING_KEY \<Longrightarrow> column_rank c = (1, cm_position c)" for c
    by (simp_all add: column_rank_def)
  have parts: "filter (\<lambda>c. r = column_rank c \<and> cm_type c = CASS_COLUMN_TYPE_PARTITION_KEY) cs =
      (if fst r = 0 then filter (\<lambda>c. r = column_rank c) cs else [])"
    "filter (\<lambda>c. r = column_rank c \<and> cm_type c = CASS_COLUMN_TYPE_CLUSTERING_KEY) cs =
      (if fst r = 1 then filter (\<lambda>c. r = column_rank c) cs else [])"
    "filter (\<lambda>c. r = column_rank c) ?O =
      (if fst r \<noteq> 0 \<and> fst r \<noteq> 1 then filter (\<lambda>c. r = column_rank c) cs else [])" for r
    by (cases r; auto simp: column_rank_def other_columns_def filter_empty_conv split: column_type.splits
        intro!: filter_cong)+
  show "filter (\<lambda>c. column_rank k = column_rank c) (?P @ ?C @ ?O) = filter (\<lambda>c. column_rank k = column_rank c) cs"
    for k
    by (simp add: filter_rank_sorted [OF ranks(1)] filter_rank_sorted [OF ranks(2)] parts)
  have "sorted_wrt (\<lambda>a b. column_rank a \<le> column_rank b) ?P"
    "sorted_wrt (\<lambda>a b. column_rank a \<le> column_rank b) ?C"
    using sorted_sort_key [of cm_position "columns_of CASS_COLUMN_TYPE_PARTITION_KEY cs"]
      sorted_sort_key [of cm_position "columns_of CASS_COLUMN_TYPE_CLUSTERING_KEY cs"]
    unfolding sorted_map by (auto simp: columns_of_def ranks elim!: sorted_wrt_mono_rel [rotated])
  moreover have "sorted_wrt (\<lambda>a b. column_rank a \<le> column_rank b) ?O"
    by (induction cs) (auto simp: other_columns_def column_rank_def split: column_type.splits)
  ultimately show "sorted (map column_rank (?P @ ?C @ ?O))"
    unfolding sorted_map by (auto simp: sorted_wrt_append columns_of_def other_columns_def ranks column_rank_def
        split: column_type.splits)
qed

lemma place_fold_nth:
  assumes "distinct (map cm_position cs)" and "c \<in> set cs" and "\<forall>c \<in> set cs. 0 \<le> cm_position c"
    and "nat (cm_position c) < length key"
  shows "fold place cs key ! nat (cm_position c) = Some c"
  using assms
proof (induction cs arbitrary: key)
  case (Cons d cs)
  show ?case
  proof (cases "c \<in> set cs")
    case False
    then have "d = c" using Cons.prems(2) by simp
    have "\<forall>e \<in> set cs. nat (cm_position e) \<noteq> nat (cm_position c)"
      using Cons.prems(1,3) \<open>d = c\<close> by (auto simp: nat_eq_iff) (metis imageI)
    then have "fold place cs key' ! nat (cm_position c) = key' ! nat (cm_position c)" for key'
      by (induction cs arbitrary: key') (auto simp: place_def)
    then have "fold place cs (place c key) ! nat (cm_position c) = place c key ! nat (cm_position c)" .
    moreover have "place c key ! nat (cm_position c) = Some c" using Cons.prems(4) by (simp add: place_def)
    ultimately show ?thesis using \<open>d = c\<close> by simp
  next
    case True
    then show ?thesis using Cons.IH [of "place d key"] Cons.prems by (simp add: place_def [of d])
  qed
qed simp

lemma length_place_fold [simp]: "length (fold place cs key) = length key"
  by (induction cs arbitrary: key) (auto simp: place_def)

lemma numbered_sorted:
  assumes "numbered cs"
  shows "map cm_position (sort_key cm_position cs) = map int [0..<length cs]"
proof -
  have "sorted (map int [0..<length cs])" by (simp add: sorted_map)
  then have "sort (map cm_position (sort_key cm_position cs)) = map int [0..<length cs]"
    using assms by (intro properties_for_sort) (simp_all add: numbered_def)
  then show ?thesis by (simp add: sort_key_id_if_sorted)
qed

lemma numbered_positions:
  assumes "numbered cs"
  shows "distinct (map cm_position cs)" and "c \<in> set cs \<Longrightarrow> 0 \<le> cm_position c \<and> nat (cm_position c) < length cs"
proof -
  have "distinct (map int [0..<length cs])" by (simp add: distinct_map)
  then show "distinct (map cm_position cs)"
    using assms mset_eq_imp_distinct_iff unfolding numbered_def by blast
  have "set (map cm_position cs) = set (map int [0..<length cs])"
    using assms unfolding numbered_def by (rule mset_eq_setD)
  moreover assume "c \<in> set cs"
  ultimately have "cm_position c \<in> int ` {0..<length cs}" by auto
  then show "0 \<le> cm_position c \<and> nat (cm_position c) < length cs" by auto
qed

lemma place_all:
  assumes "numbered cs"
  shows "fold place cs (replicate (length cs) None) = map Some (sort_key cm_position cs)"
proof (rule nth_equalityI)
  fix i assume "i < length (fold place cs (replicate (length cs) None))"
  then have i: "i < length cs" by simp
  let ?c = "sort_key cm_position cs ! i"
  have c: "?c \<in> set cs" using nth_mem [of i "sort_key cm_position cs"] i by simp
  have "map cm_position (sort_key cm_position cs) ! i = int i" using numbered_sorted [OF assms] i by simp
  then have "cm_position ?c = int i" using i by simp
  then show "fold place cs (replicate (length cs) None) ! i = map Some (sort_key cm_position cs) ! i"
    using place_fold_nth [OF numbered_positions(1) [OF assms] c, of "replicate (length cs) None"]
      numbered_positions(2) [OF assms] i by simp
qed simp

lemma place_key_fold:
  defines "fits key cs \<equiv> filter (\<lambda>c. cm_position c \<ge> 0 \<and> nat (cm_position c) < length key) cs"
  shows "tb_partition_key (fold place_key cs t) =
      fold place (fits (tb_partition_key t) (columns_of CASS_COLUMN_TYPE_PARTITION_KEY cs)) (tb_partition_key t)"
    and "tb_clustering_key (fold place_key cs t) =
      fold place (fits (tb_clustering_key t) (columns_of CASS_COLUMN_TYPE_CLUSTERING_KEY cs)) (tb_clustering_key t)"
    and "tb_columns (fold place_key cs t) = tb_columns t"
proof (induction cs arbitrary: t)
  case (Cons c cs)
  { case 1 show ?case using Cons(1) [of "place_key c t"]
      by (auto simp: fits_def place_key_def columns_of_def place_def) }
  { case 2 show ?case using Cons(2) [of "place_key c t"]
      by (auto simp: fits_def place_key_def columns_of_def place_def) }
  { case 3 show ?case using Cons(3) [of "place_key c t"] by (auto simp: place_key_def) }
qed (simp_all add: fits_def columns_of_def)

text \<open>C8: after a table is built, its columns are those the rows gave it: first the partition key,
  then the clustering key, each in the order of the positions the server gave its columns, whatever the
  order of the rows, then the others in the order of the rows; and the two keys are exactly the first
  columns, with no place left null.\<close>

theorem columns_in_key_order:
  assumes "v_major (mc_cassandra_version cfg) \<ge> 2" and "tb_partition_key t = []" and "tb_clustering_key t = []"
    and "numbered (columns_of CASS_COLUMN_TYPE_PARTITION_KEY (tb_columns t))"
    and "numbered (columns_of CASS_COLUMN_TYPE_CLUSTERING_KEY (tb_columns t))"
  shows "\<exists>t' ps cs. build_keys_and_sort cfg t = Some t' \<and> tb_columns t' = ps @ cs @ other_columns (tb_columns t) \<and>
    mset ps = mset (columns_of CASS_COLUMN_TYPE_PARTITION_KEY (tb_columns t)) \<and>
    mset cs = mset (columns_of CASS_COLUMN_TYPE_CLUSTERING_KEY (tb_columns t)) \<and>
    map cm_position ps = map int [0..<length ps] \<and> map cm_position cs = map int [0..<length cs] \<and>
    tb_partition_key t' = map Some ps \<and> tb_clustering_key t' = map Some cs"
proof -
  let ?P = "columns_of CASS_COLUMN_TYPE_PARTITION_KEY (tb_columns t)"
  let ?C = "columns_of CASS_COLUMN_TYPE_CLUSTERING_KEY (tb_columns t)"
  have n: "get_column_count (tb_columns t) k = length (columns_of k (tb_columns t))" for k
    by (simp add: get_column_count_def columns_of_def)
  have fits: "filter (\<lambda>c. cm_position c \<ge> 0 \<and> nat (cm_position c) < length cs) cs = cs" if "numbered cs" for cs
    using numbered_positions(2) [OF that] by (auto intro: filter_True)
  obtain t' where t': "build_keys_and_sort cfg t = Some t'"
    "tb_columns t' = sort_key cm_position ?P @ sort_key cm_position ?C @ other_columns (tb_columns t)"
    "tb_partition_key t' = map Some (sort_key cm_position ?P)"
    "tb_clustering_key t' = map Some (sort_key cm_position ?C)"
    using assms(1-3) n fits [OF assms(4)] fits [OF assms(5)] place_all [OF assms(4)] place_all [OF assms(5)]
    by (simp add: build_keys_and_sort_def Let_def place_key_fold stable_sort_rank sorted_columns resize_keys_def)
  then show ?thesis using numbered_sorted [OF assms(4)] numbered_sorted [OF assms(5)]
    by (intro exI [of _ t'] exI [of _ "sort_key cm_position ?P"] exI [of _ "sort_key cm_position ?C"]) simp
qed

theorem columns_in_key_order_witness:
  "\<exists>t' ps cs. build_keys_and_sort \<lparr>mc_protocol_version = 3, mc_cassandra_version = \<lparr>v_major = 2, v_minor = 1, v_patch = 0\<rparr>\<rparr>
      ((table_new ''t'')\<lparr>tb_columns := [column_new ''v'' 0 CASS_COLUMN_TYPE_REGULAR None,
         column_new ''b'' 1 CASS_COLUMN_TYPE_PARTITION_KEY None, column_new ''a'' 0 CASS_COLUMN_TYPE_PARTITION_KEY None]\<rparr>) = Some t' \<and>
    tb_columns t' = ps @ cs @ other_columns [column_new ''v'' 0 CASS_COLUMN_TYPE_REGULAR None,
         column_new ''b'' 1 CASS_COLUMN_TYPE_PARTITION_KEY None, column_new ''a'' 0 CASS_COLUMN_TYPE_PARTITION_KEY None] \<and>
    mset ps = mset [column_new ''b'' 1 CASS_COLUMN_TYPE_PARTITION_KEY None, column_new ''a'' 0 CASS_COLUMN_TYPE_PARTITION_KEY None] \<and>
    mset cs = mset [] \<and> map cm_position ps = map int [0..<length ps] \<and> map cm_position cs = map int [0..<length cs] \<and>
    tb_partition_key t' = map Some ps \<and> tb_clustering_key t' = map Some cs"
  using columns_in_key_order [of "\<lparr>mc_protocol_version = 3, mc_cassandra_version = \<lparr>v_major = 2, v_minor = 1, v_patch = 0\<rparr>\<rparr>"
      "(table_new ''t'')\<lparr>tb_columns := [column_new ''v'' 0 CASS_COLUMN_TYPE_REGULAR None,
         column_new ''b'' 1 CASS_COLUMN_TYPE_PARTITION_KEY None, column_new ''a'' 0 CASS_COLUMN_TYPE_PARTITION_KEY None]\<rparr>"]
  by (simp add: table_new_def columns_of_def column_new_def numbered_def)

section \<open>The columns of every table\<close>

text \<open>The buffer as a map from keyspace and name to the table.\<close>

definition table_at :: "keyspaces \<Rightarrow> string \<times> string \<Rightarrow> table_meta option" where
  "table_at kss at = do { ks \<leftarrow> map_find kss (fst at); map_find (km_tables ks) (snd at) }"

definition tables_ok :: "keyspaces \<Rightarrow> bool" where
  "tables_ok kss \<longleftrightarrow> map_inv kss \<and> (\<forall>name ks. map_find kss name = Some ks \<longrightarrow> map_inv (km_tables ks))"

lemma table_at_assign:
  assumes "tables_ok kss" and "map_inv (km_tables ks)"
  shows "tables_ok (map_assign name ks kss)"
    and "table_at (map_assign name ks kss) at = (if fst at = name then map_find (km_tables ks) (snd at) else table_at kss at)"
  using assms by (auto simp: tables_ok_def table_at_def map_inv_assign map_find_assign)

lemma modify_table_at:
  assumes "tables_ok kss" and "table_at kss at = Some t" and "f t = Some t'"
  obtains kss' where "modify_table at f kss = Some kss'" and "tables_ok kss'" and "table_at kss' = (table_at kss)(at \<mapsto> t')"
    and "\<And>name. map_find kss name = None \<longleftrightarrow> map_find kss' name = None"
proof -
  obtain ks where ks: "map_find kss (fst at) = Some ks" "map_find (km_tables ks) (snd at) = Some t"
    using assms(2) by (auto simp: table_at_def split: Option.bind_splits)
  let ?ks = "ks\<lparr>km_tables := map_assign (snd at) t' (km_tables ks)\<rparr>"
  have inv: "map_inv (km_tables ks)" using assms(1) ks(1) by (auto simp: tables_ok_def)
  show thesis
  proof (rule that)
    show "modify_table at f kss = Some (map_assign (fst at) ?ks kss)"
      using ks assms(3) by (simp add: modify_table_def modify_keyspace_def)
    show "tables_ok (map_assign (fst at) ?ks kss)"
      using inv by (intro table_at_assign(1) [OF assms(1)]) (simp add: map_inv_assign)
    show "table_at (map_assign (fst at) ?ks kss) = (table_at kss)(at \<mapsto> t')"
    proof
      fix b
      show "table_at (map_assign (fst at) ?ks kss) b = ((table_at kss)(at \<mapsto> t')) b"
        using inv ks(1) table_at_assign(2) [OF assms(1), of ?ks "fst at" b]
        by (auto simp: map_inv_assign map_find_assign table_at_def prod_eq_iff)
    qed
    show "map_find kss name = None \<longleftrightarrow> map_find (map_assign (fst at) ?ks kss) name = None" for name
      using assms(1) ks(1) by (auto simp: tables_ok_def map_find_assign)
  qed
qed

lemma get_or_create_keyspace_at:
  assumes "tables_ok kss"
  shows "tables_ok (get_or_create_keyspace name kss)" and "table_at (get_or_create_keyspace name kss) = table_at kss"
    and "map_find (get_or_create_keyspace name kss) name \<noteq> None"
    and "map_find kss k \<noteq> None \<Longrightarrow> map_find (get_or_create_keyspace name kss) k \<noteq> None"
proof -
  have new: "map_inv (km_tables (keyspace_new name))" by (simp add: keyspace_new_def map_nil)
  have at: "table_at (map_assign name (keyspace_new name) kss) at = table_at kss at" if "map_find kss name = None" for at
    using that table_at_assign(2) [OF assms new, of name at] by (auto simp: table_at_def keyspace_new_def map_nil)
  show "tables_ok (get_or_create_keyspace name kss)"
    using assms table_at_assign(1) [OF assms new] by (simp add: get_or_create_keyspace_def map_insert_new_def)
  show "table_at (get_or_create_keyspace name kss) = table_at kss"
    using at by (auto simp: get_or_create_keyspace_def map_insert_new_def)
  show "map_find (get_or_create_keyspace name kss) name \<noteq> None"
    using assms by (simp add: get_or_create_keyspace_def map_insert_new_def tables_ok_def map_find_assign)
  show "map_find kss k \<noteq> None \<Longrightarrow> map_find (get_or_create_keyspace name kss) k \<noteq> None"
    using assms by (auto simp: get_or_create_keyspace_def map_insert_new_def tables_ok_def map_find_assign)
qed

definition cursor_ok :: "column_cursor \<Rightarrow> bool" where
  "cursor_ok s \<longleftrightarrow> tables_ok (cc_keyspaces s) \<and>
     (\<forall>at. cc_table s = Some at \<longrightarrow> table_at (cc_keyspaces s) at \<noteq> None) \<and>
     (\<forall>k. cc_keyspace s = Some k \<longrightarrow> map_find (cc_keyspaces s) k \<noteq> None)"

text \<open>The tables once the current one is built.\<close>

definition built :: "metadata_config \<Rightarrow> table_meta \<Rightarrow> table_meta" where
  "built cfg t = the (build_keys_and_sort cfg t)"

definition finished :: "metadata_config \<Rightarrow> column_cursor \<Rightarrow> string \<times> string \<Rightarrow> table_meta option" where
  "finished cfg s =
     (case cc_table s of None \<Rightarrow> table_at (cc_keyspaces s)
      | Some at \<Rightarrow> (table_at (cc_keyspaces s))(at := map_option (built cfg) (table_at (cc_keyspaces s) at)))"

lemma build_keys_2: "v_major (mc_cassandra_version cfg) \<ge> 2 \<Longrightarrow> build_keys_and_sort cfg t = Some (built cfg t)"
  by (simp add: build_keys_and_sort_def built_def Let_def)

lemma finish_table_at:
  assumes "cursor_ok s" and "v_major (mc_cassandra_version cfg) \<ge> 2"
  obtains s' where "finish_table cfg s = Some s'" and "table_at (cc_keyspaces s') = finished cfg s" and "cursor_ok s'"
    and "cc_keyspace s' = cc_keyspace s" and "cc_table s' = cc_table s"
proof (cases "cc_table s")
  case None
  then show ?thesis using assms(1) that [of s] by (simp add: finish_table_def finished_def)
next
  case (Some at)
  then obtain t where t: "table_at (cc_keyspaces s) at = Some t" using assms(1) by (auto simp: cursor_ok_def)
  obtain kss where kss: "modify_table at (build_keys_and_sort cfg) (cc_keyspaces s) = Some kss" "tables_ok kss"
    "table_at kss = (table_at (cc_keyspaces s))(at \<mapsto> built cfg t)"
    "\<And>name. map_find (cc_keyspaces s) name = None \<longleftrightarrow> map_find kss name = None"
    using modify_table_at [of "cc_keyspaces s" at t "build_keys_and_sort cfg"] t build_keys_2 [OF assms(2)] assms(1)
    unfolding cursor_ok_def by metis
  show ?thesis
  proof (rule that [of "s\<lparr>cc_keyspaces := kss\<rparr>"])
    show "finish_table cfg s = Some (s\<lparr>cc_keyspaces := kss\<rparr>)" using Some kss(1) by (simp add: finish_table_def)
    show "table_at (cc_keyspaces (s\<lparr>cc_keyspaces := kss\<rparr>)) = finished cfg s" using Some t kss(3) by (simp add: finished_def)
    show "cursor_ok (s\<lparr>cc_keyspaces := kss\<rparr>)" using assms(1) Some kss by (auto simp: cursor_ok_def)
  qed simp_all
qed

lemma new_table_at:
  assumes "tables_ok kss" and "map_find kss k \<noteq> None"
  obtains kss' where "modify_keyspace (Some k) (\<lambda>ks. Some (get_or_create_table name ks)) kss = Some kss'" and "tables_ok kss'"
    and "table_at kss' = (table_at kss)((k, name) \<mapsto> (case table_at kss (k, name) of None \<Rightarrow> table_new name | Some t \<Rightarrow> t))"
    and "\<And>n. map_find kss n = None \<longleftrightarrow> map_find kss' n = None"
proof -
  obtain ks where ks: "map_find kss k = Some ks" using assms(2) by auto
  then have inv: "map_inv (km_tables ks)" using assms(1) by (auto simp: tables_ok_def)
  let ?ks = "get_or_create_table name ks"
  have inv': "map_inv (km_tables ?ks)" using inv by (simp add: get_or_create_table_def map_insert_new_def map_inv_assign)
  show thesis
  proof (rule that)
    show "modify_keyspace (Some k) (\<lambda>ks. Some (get_or_create_table name ks)) kss = Some (map_assign k ?ks kss)"
      using ks by (simp add: modify_keyspace_def)
    show "tables_ok (map_assign k ?ks kss)" by (rule table_at_assign(1) [OF assms(1) inv'])
    show "table_at (map_assign k ?ks kss) =
        (table_at kss)((k, name) \<mapsto> (case table_at kss (k, name) of None \<Rightarrow> table_new name | Some t \<Rightarrow> t))"
      using inv ks assms(1) by (auto simp: fun_eq_iff table_at_def get_or_create_table_def tables_ok_def
          map_insert_new_def map_find_assign prod_eq_iff)
    show "map_find kss n = None \<longleftrightarrow> map_find (map_assign k ?ks kss) n = None" for n
      using assms(1) ks by (auto simp: tables_ok_def map_find_assign)
  qed
qed

lemma select_table_at:
  assumes "cursor_ok s" and "v_major (mc_cassandra_version cfg) \<ge> 2" and "cc_keyspace s = Some k"
    and "pointer_name (map_option snd (cc_table s)) \<noteq> t"
  obtains s' where "select_table cfg t s = Some s'" and "cursor_ok s'" and "cc_keyspace s' = Some k"
    and "cc_table s' = Some (k, t)"
    and "table_at (cc_keyspaces s') = (finished cfg s)((k, t) \<mapsto>
      clear_columns (case finished cfg s (k, t) of None \<Rightarrow> table_new t | Some tb \<Rightarrow> tb))"
proof -
  obtain s1 where s1: "finish_table cfg s = Some s1" "table_at (cc_keyspaces s1) = finished cfg s" "cursor_ok s1"
    "cc_keyspace s1 = Some k" using finish_table_at [OF assms(1,2)] assms(3) by metis
  let ?tb = "case finished cfg s (k, t) of None \<Rightarrow> table_new t | Some tb \<Rightarrow> tb"
  have "tables_ok (cc_keyspaces s1)" "map_find (cc_keyspaces s1) k \<noteq> None" using s1(3,4) by (auto simp: cursor_ok_def)
  then obtain kss where kss: "modify_keyspace (Some k) (\<lambda>ks. Some (get_or_create_table t ks)) (cc_keyspaces s1) = Some kss"
    "tables_ok kss" "table_at kss = (finished cfg s)((k, t) \<mapsto> ?tb)"
    "\<And>n. map_find (cc_keyspaces s1) n = None \<longleftrightarrow> map_find kss n = None"
    using new_table_at [of "cc_keyspaces s1" k t] unfolding s1(2) by blast
  then obtain kss' where kss': "modify_table (k, t) (\<lambda>t. Some (clear_columns t)) kss = Some kss'" "tables_ok kss'"
    "table_at kss' = (table_at kss)((k, t) \<mapsto> clear_columns ?tb)" "\<And>n. map_find kss n = None \<longleftrightarrow> map_find kss' n = None"
    using modify_table_at [of kss "(k, t)" ?tb "\<lambda>t. Some (clear_columns t)" "clear_columns ?tb"] by auto
  show thesis
  proof (rule that)
    show "select_table cfg t s = Some (s1\<lparr>cc_keyspaces := kss', cc_table := Some (k, t)\<rparr>)"
      using assms(4) s1(1,4) kss(1) kss'(1) by (simp add: select_table_def)
    show "table_at (cc_keyspaces (s1\<lparr>cc_keyspaces := kss', cc_table := Some (k, t)\<rparr>)) =
        (finished cfg s)((k, t) \<mapsto> clear_columns ?tb)" using kss(3) kss'(3) by simp
    show "cursor_ok (s1\<lparr>cc_keyspaces := kss', cc_table := Some (k, t)\<rparr>)"
      using s1(3,4) kss'(2,3,4) kss(4) by (auto simp: cursor_ok_def)
  qed (simp_all add: s1(4))
qed

text \<open>A constructor of columns that leaves the tables of the keyspace alone, as that of the rows does.\<close>

definition builds :: "(keyspace \<Rightarrow> (column_meta \<times> keyspace) option) \<Rightarrow> column_meta \<Rightarrow> bool" where
  "builds build c \<longleftrightarrow> (\<forall>ks. \<exists>ks'. build ks = Some (c, ks') \<and> km_tables ks' = km_tables ks)"

lemma add_built_column:
  assumes "cursor_ok s" and "cc_keyspace s = Some k" and "cc_table s = Some at" and "builds build c"
    and "table_at (cc_keyspaces s) at = Some tb"
  obtains ks ks' kss where "map_find (cc_keyspaces s) k = Some ks" and "build ks = Some (c, ks')"
    and "modify_table at (\<lambda>t. Some (add_column c t)) (map_assign k ks' (cc_keyspaces s)) = Some kss"
    and "cursor_ok (s\<lparr>cc_keyspaces := kss\<rparr>)" and "table_at kss = (table_at (cc_keyspaces s))(at \<mapsto> add_column c tb)"
proof -
  have ok: "tables_ok (cc_keyspaces s)" using assms(1) by (simp add: cursor_ok_def)
  obtain ks where ks: "map_find (cc_keyspaces s) k = Some ks" using assms(1,2) by (auto simp: cursor_ok_def)
  obtain ks' where ks': "build ks = Some (c, ks')" "km_tables ks' = km_tables ks" using assms(4) unfolding builds_def by blast
  have inv: "map_inv (km_tables ks')" using ok ks ks'(2) by (auto simp: tables_ok_def)
  let ?kss = "map_assign k ks' (cc_keyspaces s)"
  have same: "table_at ?kss = table_at (cc_keyspaces s)"
    using ks ks'(2) ok by (auto simp: table_at_def tables_ok_def map_find_assign fun_eq_iff)
  obtain kss where kss: "modify_table at (\<lambda>t. Some (add_column c t)) ?kss = Some kss" "tables_ok kss"
    "table_at kss = (table_at ?kss)(at \<mapsto> add_column c tb)" "\<And>n. map_find ?kss n = None \<longleftrightarrow> map_find kss n = None"
    using modify_table_at [OF table_at_assign(1) [OF ok inv], of k at tb "\<lambda>t. Some (add_column c t)"] assms(5) same by metis
  have "map_find ?kss n \<noteq> None" if "map_find (cc_keyspaces s) n \<noteq> None" for n
    using that ok by (auto simp: tables_ok_def map_find_assign)
  then have "cursor_ok (s\<lparr>cc_keyspaces := kss\<rparr>)" using assms(1,2,3) kss(2-4) same by (auto simp: cursor_ok_def)
  then show thesis using that [OF ks ks'(1) kss(1)] kss(3) same by simp
qed

lemma selected_keyspace:
  assumes "cursor_ok s" and "name \<noteq> []" and "select_keyspace name (cc_keyspace s, cc_keyspaces s) = (k, kss)"
  shows "k = Some name" and "cursor_ok (s\<lparr>cc_keyspace := k, cc_keyspaces := kss\<rparr>)" and "table_at kss = table_at (cc_keyspaces s)"
    and "finished cfg (s\<lparr>cc_keyspace := k, cc_keyspaces := kss\<rparr>) = finished cfg s"
proof -
  have ok: "tables_ok (cc_keyspaces s)" using assms(1) by (simp add: cursor_ok_def)
  show k: "k = Some name"
    using assms(2,3) by (auto simp: select_keyspace_def pointer_name_def split: if_splits option.splits)
  show at: "table_at kss = table_at (cc_keyspaces s)"
    using assms(3) get_or_create_keyspace_at(2) [OF ok] by (auto simp: select_keyspace_def split: if_splits)
  show "cursor_ok (s\<lparr>cc_keyspace := k, cc_keyspaces := kss\<rparr>)"
    using assms(1,3) get_or_create_keyspace_at [OF ok] by (auto simp: select_keyspace_def cursor_ok_def split: if_splits)
  show "finished cfg (s\<lparr>cc_keyspace := k, cc_keyspaces := kss\<rparr>) = finished cfg s"
    using at by (cases "cc_table s") (simp_all add: finished_def)
qed

lemma column_step_new:
  assumes "cursor_ok s" and "v_major (mc_cassandra_version cfg) \<ge> 2" and "builds build c" and "k \<noteq> []"
    and "pointer_name (map_option snd (cc_table s)) \<noteq> t"
  obtains s' tb where "column_step cfg k t build s = Some s'" and "cursor_ok s'" and "cc_keyspace s' = Some k"
    and "cc_table s' = Some (k, t)" and "tb_columns tb = [c]"
    and "table_at (cc_keyspaces s') = (finished cfg s)((k, t) \<mapsto> tb)"
proof -
  obtain k1 kss where sel: "select_keyspace k (cc_keyspace s, cc_keyspaces s) = (k1, kss)" by force
  define s1 where "s1 = s\<lparr>cc_keyspace := k1, cc_keyspaces := kss\<rparr>"
  have s1: "cc_keyspace s1 = Some k" "cursor_ok s1" "finished cfg s1 = finished cfg s" "cc_table s1 = cc_table s"
    using selected_keyspace [OF assms(1,4) sel] by (auto simp: s1_def)
  obtain s2 tb where s2: "select_table cfg t s1 = Some s2" "cursor_ok s2" "cc_keyspace s2 = Some k" "cc_table s2 = Some (k, t)"
    "table_at (cc_keyspaces s2) = (finished cfg s)((k, t) \<mapsto> clear_columns tb)"
    using select_table_at [OF s1(2) assms(2) s1(1), of t] assms(5) unfolding s1(3,4) by blast
  have at: "table_at (cc_keyspaces s2) (k, t) = Some (clear_columns tb)" using s2(5) by simp
  obtain ks ks' kss' where added: "map_find (cc_keyspaces s2) k = Some ks" "build ks = Some (c, ks')"
    "modify_table (k, t) (\<lambda>t. Some (add_column c t)) (map_assign k ks' (cc_keyspaces s2)) = Some kss'"
    "cursor_ok (s2\<lparr>cc_keyspaces := kss'\<rparr>)"
    "table_at kss' = (table_at (cc_keyspaces s2))((k, t) \<mapsto> add_column c (clear_columns tb))"
    using add_built_column [OF s2(2,3,4) assms(3) at] .
  show thesis
  proof (rule that)
    show "column_step cfg k t build s = Some (s2\<lparr>cc_keyspaces := kss'\<rparr>)"
      using sel s2(1,3,4) added(1-3) by (simp add: column_step_def s1_def)
    show "tb_columns (add_column c (clear_columns tb)) = [c]" by (simp add: add_column_def clear_columns_def)
  qed (use s2 added in simp_all)
qed

lemma column_step_same:
  assumes "cursor_ok s" and "v_major (mc_cassandra_version cfg) \<ge> 2" and "builds build c" and "k \<noteq> []"
    and "cc_table s = Some (k', t)"
  obtains s' tb where "column_step cfg k t build s = Some s'" and "cursor_ok s'" and "cc_keyspace s' = Some k"
    and "cc_table s' = Some (k', t)" and "table_at (cc_keyspaces s) (k', t) = Some tb"
    and "table_at (cc_keyspaces s') = (table_at (cc_keyspaces s))((k', t) \<mapsto> add_column c tb)"
proof -
  obtain k1 kss where sel: "select_keyspace k (cc_keyspace s, cc_keyspaces s) = (k1, kss)" by force
  define s1 where "s1 = s\<lparr>cc_keyspace := k1, cc_keyspaces := kss\<rparr>"
  have s1: "cc_keyspace s1 = Some k" "cursor_ok s1" "cc_table s1 = Some (k', t)"
    "table_at (cc_keyspaces s1) = table_at (cc_keyspaces s)"
    using selected_keyspace [OF assms(1,4) sel] assms(5) by (auto simp: s1_def)
  obtain tb where tb: "table_at (cc_keyspaces s1) (k', t) = Some tb" using s1(2,3) by (auto simp: cursor_ok_def)
  have stays: "select_table cfg t s1 = Some s1" using s1(3) by (simp add: select_table_def pointer_name_def)
  obtain ks ks' kss' where added: "map_find (cc_keyspaces s1) k = Some ks" "build ks = Some (c, ks')"
    "modify_table (k', t) (\<lambda>t. Some (add_column c t)) (map_assign k ks' (cc_keyspaces s1)) = Some kss'"
    "cursor_ok (s1\<lparr>cc_keyspaces := kss'\<rparr>)"
    "table_at kss' = (table_at (cc_keyspaces s1))((k', t) \<mapsto> add_column c tb)"
    using add_built_column [OF s1(2,1,3) assms(3) tb] .
  show thesis
  proof (rule that)
    show "column_step cfg k t build s = Some (s1\<lparr>cc_keyspaces := kss'\<rparr>)"
      using sel s1(1,3) stays added(1-3) by (simp add: column_step_def s1_def)
    show "table_at (cc_keyspaces s) (k', t) = Some tb" using tb s1(4) by simp
  qed (use s1 added in simp_all)
qed

text \<open>The rows of one table after the other, each with the constructor of its column.\<close>

type_synonym column_row = "string \<times> string \<times> (keyspace \<Rightarrow> (column_meta \<times> keyspace) option)"

definition run_column_rows :: "metadata_config \<Rightarrow> column_row list \<Rightarrow> column_cursor \<Rightarrow> column_cursor option" where
  "run_column_rows cfg rows = each (\<lambda>(k, t, build). column_step cfg k t build) rows"

lemma more_rows_of_table:
  assumes "list_all2 (\<lambda>r c. fst r = k \<and> fst (snd r) = t \<and> builds (snd (snd r)) c) rows cs"
    and "cursor_ok s" and "v_major (mc_cassandra_version cfg) \<ge> 2" and "k \<noteq> []" and "cc_keyspace s = Some k"
    and "cc_table s = Some (k, t)" and "table_at (cc_keyspaces s) (k, t) = Some tb"
  obtains s' tb' where "run_column_rows cfg rows s = Some s'" and "cursor_ok s'" and "cc_table s' = Some (k, t)"
    and "tb_columns tb' = tb_columns tb @ cs" and "table_at (cc_keyspaces s') = (table_at (cc_keyspaces s))((k, t) \<mapsto> tb')"
  using assms
proof (induction rows cs arbitrary: s tb thesis rule: list_all2_induct)
  case Nil
  then show ?case by (intro Nil(1) [of s tb]) (auto simp: run_column_rows_def)
next
  case (Cons r rows c cs)
  obtain build where r: "r = (k, t, build)" "builds build c" using Cons.hyps(1) by (cases r) auto
  obtain s1 where s1: "column_step cfg k t build s = Some s1" "cursor_ok s1" "cc_keyspace s1 = Some k"
    "cc_table s1 = Some (k, t)" "table_at (cc_keyspaces s1) = (table_at (cc_keyspaces s))((k, t) \<mapsto> add_column c tb)"
    using column_step_same [OF Cons.prems(2,3) r(2) Cons.prems(4,6)] Cons.prems(7) by (metis option.inject)
  have at: "table_at (cc_keyspaces s1) (k, t) = Some (add_column c tb)" using s1(5) by simp
  show ?case
  proof (rule Cons.IH [OF _ s1(2) Cons.prems(3,4) s1(3,4) at])
    fix s' tb'
    assume s': "run_column_rows cfg rows s1 = Some s'" "cursor_ok s'" "cc_table s' = Some (k, t)"
      "tb_columns tb' = tb_columns (add_column c tb) @ cs"
      "table_at (cc_keyspaces s') = (table_at (cc_keyspaces s1))((k, t) \<mapsto> tb')"
    show thesis
    proof (rule Cons.prems(1))
      show "run_column_rows cfg (r # rows) s = Some s'" using r(1) s1(1) s'(1) by (simp add: run_column_rows_def)
      show "tb_columns tb' = tb_columns tb @ c # cs" using s'(4) by (simp add: add_column_def)
      show "table_at (cc_keyspaces s') = (table_at (cc_keyspaces s))((k, t) \<mapsto> tb')" using s'(5) s1(5) by simp
    qed (rule s'(2), rule s'(3))
  qed
qed

definition rows_of_table :: "string \<times> string \<Rightarrow> column_row list \<Rightarrow> column_meta list \<Rightarrow> bool" where
  "rows_of_table at rows cs \<longleftrightarrow> rows \<noteq> [] \<and>
     list_all2 (\<lambda>r c. fst r = fst at \<and> fst (snd r) = snd at \<and> builds (snd (snd r)) c) rows cs"

type_synonym table_group = "(string \<times> string) \<times> column_row list \<times> column_meta list"

definition group_ok :: "table_group \<Rightarrow> bool" where
  "group_ok g \<longleftrightarrow> fst (fst g) \<noteq> [] \<and> snd (fst g) \<noteq> [] \<and> rows_of_table (fst g) (fst (snd g)) (snd (snd g))"

lemma finished_current: "cc_table s = Some at \<Longrightarrow> finished cfg s at = map_option (built cfg) (table_at (cc_keyspaces s) at)"
  by (simp add: finished_def)

lemma one_group:
  assumes "cursor_ok s" and "v_major (mc_cassandra_version cfg) \<ge> 2" and "group_ok (at, rows, cs)"
    and "pointer_name (map_option snd (cc_table s)) \<noteq> snd at"
  obtains s' tb where "run_column_rows cfg rows s = Some s'" and "cursor_ok s'" and "cc_table s' = Some at"
    and "tb_columns tb = cs" and "finished cfg s' = (finished cfg s)(at \<mapsto> built cfg tb)"
proof -
  obtain k t where at: "at = (k, t)" by force
  obtain r rows' c cs' where rows: "rows = r # rows'" "cs = c # cs'" "fst r = k" "fst (snd r) = t" "builds (snd (snd r)) c"
    "list_all2 (\<lambda>r c. fst r = k \<and> fst (snd r) = t \<and> builds (snd (snd r)) c) rows' cs'" "k \<noteq> []"
    using assms(3) at by (cases rows; cases cs) (auto simp: group_ok_def rows_of_table_def)
  obtain s1 tb1 where s1: "column_step cfg k t (snd (snd r)) s = Some s1" "cursor_ok s1" "cc_keyspace s1 = Some k"
    "cc_table s1 = Some (k, t)" "tb_columns tb1 = [c]" "table_at (cc_keyspaces s1) = (finished cfg s)((k, t) \<mapsto> tb1)"
    using column_step_new [OF assms(1,2) rows(5,7), of t] assms(4) at by auto
  have at1: "table_at (cc_keyspaces s1) (k, t) = Some tb1" using s1(6) by simp
  obtain s' tb where s': "run_column_rows cfg rows' s1 = Some s'" "cursor_ok s'" "cc_table s' = Some (k, t)"
    "tb_columns tb = tb_columns tb1 @ cs'" "table_at (cc_keyspaces s') = (table_at (cc_keyspaces s1))((k, t) \<mapsto> tb)"
    using more_rows_of_table [OF rows(6) s1(2) assms(2) rows(7) s1(3,4) at1] .
  show thesis
  proof (rule that)
    show "run_column_rows cfg rows s = Some s'"
      using rows(1,3,4) s1(1) s'(1) by (cases r) (simp add: run_column_rows_def)
    show "tb_columns tb = cs" using s'(4) s1(5) rows(2) by simp
    show "finished cfg s' = (finished cfg s)(at \<mapsto> built cfg tb)"
      using s'(3,5) s1(6) at by (simp add: finished_def [of cfg s'])
  qed (use s' at in simp_all)
qed

lemma run_column_rows_append:
  "run_column_rows cfg (xs @ ys) s = Option.bind (run_column_rows cfg xs s) (run_column_rows cfg ys)"
  by (simp add: run_column_rows_def each_append)

lemma all_groups:
  assumes "cursor_ok s" and "v_major (mc_cassandra_version cfg) \<ge> 2" and "list_all group_ok groups"
    and "distinct (map fst groups)" and "successively (\<lambda>a b. snd (fst a) \<noteq> snd (fst b)) groups"
    and "groups \<noteq> [] \<longrightarrow> pointer_name (map_option snd (cc_table s)) \<noteq> snd (fst (hd groups))"
  shows "\<exists>s'. run_column_rows cfg (concat (map (fst \<circ> snd) groups)) s = Some s' \<and> cursor_ok s' \<and>
    (\<forall>at. at \<notin> fst ` set groups \<longrightarrow> finished cfg s' at = finished cfg s at) \<and>
    (\<forall>g \<in> set groups. \<exists>tb. finished cfg s' (fst g) = Some (built cfg tb) \<and> tb_columns tb = snd (snd g))"
  using assms
proof (induction groups arbitrary: s)
  case Nil
  then show ?case by (simp add: run_column_rows_def)
next
  case (Cons g groups)
  obtain at rows cs where g: "g = (at, rows, cs)" by (cases g) auto
  have ok: "group_ok (at, rows, cs)" and start: "pointer_name (map_option snd (cc_table s)) \<noteq> snd at"
    using Cons.prems(3,6) g by auto
  obtain s1 tb where s1: "run_column_rows cfg rows s = Some s1" "cursor_ok s1" "cc_table s1 = Some at"
    "tb_columns tb = cs" "finished cfg s1 = (finished cfg s)(at \<mapsto> built cfg tb)"
    using one_group [OF Cons.prems(1,2) ok start] .
  have "groups \<noteq> [] \<longrightarrow> pointer_name (map_option snd (cc_table s1)) \<noteq> snd (fst (hd groups))"
    using Cons.prems(5) s1(3) g by (cases groups) (simp_all add: pointer_name_def)
  moreover have "successively (\<lambda>a b. snd (fst a) \<noteq> snd (fst b)) groups"
    using Cons.prems(5) by (cases groups) simp_all
  moreover have "list_all group_ok groups" "distinct (map fst groups)" using Cons.prems(3,4) by auto
  ultimately obtain s' where s': "run_column_rows cfg (concat (map (fst \<circ> snd) groups)) s1 = Some s'" "cursor_ok s'"
    "\<forall>at. at \<notin> fst ` set groups \<longrightarrow> finished cfg s' at = finished cfg s1 at"
    "\<forall>g \<in> set groups. \<exists>tb. finished cfg s' (fst g) = Some (built cfg tb) \<and> tb_columns tb = snd (snd g)"
    using Cons.IH [OF s1(2) Cons.prems(2)] by blast
  have "at \<notin> fst ` set groups" using Cons.prems(4) g by auto
  then have "finished cfg s' at = Some (built cfg tb)" using s'(3) s1(5) by (metis fun_upd_same)
  moreover have "finished cfg s' b = finished cfg s b" if "b \<notin> fst ` set (g # groups)" for b
  proof -
    have "b \<notin> fst ` set groups" "b \<noteq> at" using that g by auto
    then show ?thesis using s'(3) s1(5) by (metis fun_upd_other)
  qed
  moreover have "run_column_rows cfg (concat (map (fst \<circ> snd) (g # groups))) s = Some s'"
    using s1(1) s'(1) g by (simp add: run_column_rows_append)
  ultimately show ?case using s1(4) s'(2,4) g by (intro exI [of _ s'] conjI) (auto simp: comp_def)
qed


lemma builds_column: "builds (\<lambda>ks. Some (c, ks)) c"
  by (simp add: builds_def)

abbreviation "version_2_1 \<equiv> \<lparr>mc_protocol_version = 3, mc_cassandra_version = \<lparr>v_major = 2, v_minor = 1, v_patch = 0\<rparr>\<rparr>"
abbreviation "key_column \<equiv> column_new ''id'' 0 CASS_COLUMN_TYPE_PARTITION_KEY None"

definition demo_groups :: "table_group list" where
  "demo_groups =
     [((''a'', ''t''), [(''a'', ''t'', \<lambda>ks. Some (key_column, ks))], [key_column]),
      ((''a'', ''u''), [(''a'', ''u'', \<lambda>ks. Some (key_column, ks))], [key_column]),
      ((''b'', ''t''), [(''b'', ''t'', \<lambda>ks. Some (key_column, ks))], [key_column])]"


text \<open>C39: when the first rows of a keyspace are those of a table that is named like the last table of the
  keyspace before, the loop does not see that the table changed: the column is added to the table of the
  other keyspace, and every table of its own keyspace stays as it was.\<close>

theorem equal_table_name_takes_columns:
  assumes "cursor_ok s" and "v_major (mc_cassandra_version cfg) \<ge> 2" and "builds build c" and "k \<noteq> []"
    and "cc_table s = Some (k', t)" and "k' \<noteq> k"
  shows "\<exists>s' tb. column_step cfg k t build s = Some s' \<and> table_at (cc_keyspaces s) (k', t) = Some tb \<and>
    table_at (cc_keyspaces s') (k', t) = Some (add_column c tb) \<and>
    (\<forall>name. table_at (cc_keyspaces s') (k, name) = table_at (cc_keyspaces s) (k, name))"
proof -
  obtain s' tb where "column_step cfg k t build s = Some s'" "table_at (cc_keyspaces s) (k', t) = Some tb"
    "table_at (cc_keyspaces s') = (table_at (cc_keyspaces s))((k', t) \<mapsto> add_column c tb)"
    using column_step_same [OF assms(1-5)] .
  then show ?thesis using assms(6) by auto
qed

definition one_table :: column_cursor where
  "one_table = \<lparr>cc_keyspaces = [(''a'', (keyspace_new ''a'')\<lparr>km_tables := [(''t'', add_column key_column (table_new ''t''))]\<rparr>)],
     cc_keyspace = Some ''a'', cc_table = Some (''a'', ''t'')\<rparr>"

lemma one_table_ok: "cursor_ok one_table"
  by (auto simp: one_table_def cursor_ok_def tables_ok_def map_inv_def map_find_def table_at_def split: if_splits)

theorem equal_table_name_takes_columns_witness:
  "\<exists>s' tb. column_step version_2_1 ''b'' ''t'' (\<lambda>ks. Some (column_new ''v'' 0 CASS_COLUMN_TYPE_REGULAR None, ks)) one_table = Some s' \<and>
    table_at (cc_keyspaces one_table) (''a'', ''t'') = Some tb \<and>
    table_at (cc_keyspaces s') (''a'', ''t'') = Some (add_column (column_new ''v'' 0 CASS_COLUMN_TYPE_REGULAR None) tb) \<and>
    (\<forall>name. table_at (cc_keyspaces s') (''b'', name) = table_at (cc_keyspaces one_table) (''b'', name))"
  by (rule equal_table_name_takes_columns [OF one_table_ok]) (simp_all add: builds_column one_table_def)

section \<open>Finding a function by its arguments\<close>

text \<open>Between the commas, and before and after them, is something besides white space.\<close>

fun no_empty_piece :: "bool \<Rightarrow> string \<Rightarrow> bool" where
  "no_empty_piece seen [] = seen"
| "no_empty_piece seen (c # cs) =
     (if isspace c then no_empty_piece seen cs
      else if c = CHR '','' then seen \<and> no_empty_piece False cs
      else no_empty_piece True cs)"

fun comma_separated :: "string list \<Rightarrow> string" where
  "comma_separated [] = []"
| "comma_separated [a] = a"
| "comma_separated (a # as) = a @ '','' @ comma_separated as"

lemma comma_no_space: "\<not> isspace (CHR '','')"
  by (simp add: isspace_def)

lemma remove_space_append: "remove_space (a @ b) = remove_space a @ remove_space b"
  by (simp add: remove_space_def)

lemma no_empty_piece_token:
  "CHR '','' \<notin> set a \<Longrightarrow> no_empty_piece seen a \<longleftrightarrow> seen \<or> remove_space a \<noteq> []"
  by (induction a arbitrary: seen) (auto simp: remove_space_def)

lemma no_empty_piece_comma:
  "CHR '','' \<notin> set a \<Longrightarrow>
   no_empty_piece seen (a @ CHR '','' # b) \<longleftrightarrow> (seen \<or> remove_space a \<noteq> []) \<and> no_empty_piece False b"
  by (induction a arbitrary: seen) (auto simp: remove_space_def comma_no_space)

lemma getline_split:
  assumes "getline d s = (token, rest)"
  shows "d \<notin> set token" and "s = token @ (case rest of None \<Rightarrow> [] | Some r \<Rightarrow> d # r)"
proof -
  have t: "token = takeWhile (\<lambda>c. c \<noteq> d) s" using assms by (simp add: getline_def Let_def)
  then show "d \<notin> set token" by (auto dest: set_takeWhileD)
  show "s = token @ (case rest of None \<Rightarrow> [] | Some r \<Rightarrow> d # r)"
  proof (cases "dropWhile (\<lambda>c. c \<noteq> d) s")
    case Nil
    have "rest = None" using assms unfolding getline_def Let_def Nil by simp
    moreover have "s = token" using t Nil takeWhile_dropWhile_id [of "\<lambda>c. c \<noteq> d" s] by (metis append_Nil2)
    ultimately show ?thesis by simp
  next
    case (Cons e r)
    then have "e = d" using hd_dropWhile [of "\<lambda>c. c \<noteq> d" s] by simp
    moreover have "rest = Some r" using assms unfolding getline_def Let_def Cons by simp
    moreover have "s = token @ e # r" using t Cons takeWhile_dropWhile_id [of "\<lambda>c. c \<noteq> d" s] by metis
    ultimately show ?thesis by simp
  qed
qed

lemma arguments_string_pieces:
  "no_empty_piece False s \<Longrightarrow> arguments_string is_first s = (if is_first then [] else '','') @ remove_space s"
proof (induction is_first s rule: arguments_string.induct)
  case (1 is_first s)
  obtain token rest where line: "getline (CHR '','') s = (token, rest)" by force
  have s: "CHR '','' \<notin> set token" "s = token @ (case rest of None \<Rightarrow> [] | Some r \<Rightarrow> CHR '','' # r)"
    using getline_split [OF line] by simp_all
  show ?case
  proof (cases rest)
    case None
    have "remove_space token \<noteq> []" using "1.prems" s None no_empty_piece_token [OF s(1), of False] by simp
    then show ?thesis using line s(2) None by (subst arguments_string.simps) (simp add: Let_def)
  next
    case (Some r)
    have "remove_space token \<noteq> [] \<and> no_empty_piece False r"
      using "1.prems" s Some no_empty_piece_comma [OF s(1), of False r] by simp
    moreover have "remove_space s = remove_space token @ CHR '','' # remove_space r"
      using s(2) Some by (simp add: remove_space_append) (simp add: remove_space_def comma_no_space)
    ultimately show ?thesis using line Some "1.IH" [OF line [symmetric] refl refl Some]
      by (subst arguments_string.simps) (simp add: Let_def)
  qed
qed

lemma signature_string_pieces:
  "list_all (\<lambda>a. remove_space a \<noteq> []) as \<Longrightarrow>
   signature_string at_begin as = (if at_begin \<or> as = [] then [] else '','') @ remove_space (comma_separated as)"
proof (induction as arbitrary: at_begin rule: comma_separated.induct)
  case (3 a b bs)
  have comma: "remove_space (CHR '','' # s) = CHR '','' # remove_space s" for s by (simp add: remove_space_def comma_no_space)
  show ?case using "3.prems" "3.IH" [of False] by (simp add: remove_space_append comma Let_def)
qed (simp_all add: remove_space_def)

lemma pieces_of_arguments:
  "list_all (no_empty_piece False) as \<Longrightarrow> as \<noteq> [] \<Longrightarrow> no_empty_piece False (comma_separated as)"
proof (induction as rule: comma_separated.induct)
  case (3 a b bs)
  have "no_empty_piece seen a \<Longrightarrow> no_empty_piece False s \<Longrightarrow> no_empty_piece seen (a @ CHR '','' # s)" for seen s
    by (induction a arbitrary: seen) (auto simp: comma_no_space)
  then show ?case using 3 by simp
qed simp_all

lemma no_empty_piece_nonblank: "no_empty_piece False a \<Longrightarrow> remove_space a \<noteq> []"
  by (induction a) (auto simp: remove_space_def split: if_splits)



section \<open>Replication options\<close>

lemma set_option_entries:
  "km_strategy_options (fold set_option entries ks) =
     fold (\<lambda>e m. map_assign (fst e) (snd e) m) entries (km_strategy_options ks)"
  "km_strategy_class (fold set_option entries ks) = km_strategy_class ks"
  by (induction entries arbitrary: ks) (simp_all add: set_option_def)

lemma set_replication_entries:
  "km_strategy_options (fold set_replication entries ks) =
     fold (\<lambda>e m. map_assign (fst e) (snd e) m) entries (km_strategy_options ks)"
  "km_strategy_class (fold set_replication entries ks) =
     (case map_of (rev entries) ''class'' of None \<Rightarrow> km_strategy_class ks | Some c \<Rightarrow> c)"
  by (induction entries arbitrary: ks) (auto simp: set_replication_def set_option_def map_of_append split: option.splits)

lemma assign_entries:
  "map_inv m \<Longrightarrow> map_find (fold (\<lambda>e m. map_assign (fst e) (snd e) m) entries m) key =
     (case map_of (rev entries) key of None \<Rightarrow> map_find m key | Some v \<Rightarrow> Some v)"
  by (induction entries arbitrary: m)
    (auto simp: map_inv_assign map_find_assign split: option.splits)

lemma two_data_centers:
  "fold (\<lambda>e m. map_assign (fst e) (snd e) m) [(''class'', ''NetworkTopologyStrategy''), (''dc1'', ''3'')]
     (fold (\<lambda>e m. map_assign (fst e) (snd e) m)
       [(''class'', ''NetworkTopologyStrategy''), (''dc1'', ''3''), (''dc2'', ''2'')] []) =
   [(''class'', ''NetworkTopologyStrategy''), (''dc1'', ''3''), (''dc2'', ''2'')]"
  by code_simp

lemma two_data_centers_strategy:
  "from_keyspace_meta \<lparr>strategy_class = ''NetworkTopologyStrategy'', strategy_options =
     [(''class'', ''NetworkTopologyStrategy''), (''dc1'', ''3''), (''dc2'', ''2'')]\<rparr> =
   NetworkTopology ''NetworkTopologyStrategy'' [(''dc1'', 3), (''dc2'', 2)]"
proof -
  have "ends_with ''NetworkTopologyStrategy'' ''NetworkTopologyStrategy''" by code_simp
  moreover have "strtoul10 ''3'' = 3" "strtoul10 ''2'' = 2"
    by (simp_all add: strtoul10_def isspace_def isdigit_def digit_value_def Let_def)
  moreover have "map_assign ''dc2'' (2 :: nat) [(''dc1'', 3)] = [(''dc1'', 3), (''dc2'', 2)]" by code_simp
  ultimately show ?thesis by (simp add: from_keyspace_meta_def build_dc_replicas_def)
qed

text \<open>C40: an update of a keyspace takes over the class and the options the server reports now, but an option
  it no longer reports stays: a data center that was taken out of the replication keeps its replicas.\<close>

theorem old_replication_options_stay:
  assumes "map_inv (km_strategy_options ks)"
  shows "map_find (km_strategy_options (fold set_replication entries ks)) key =
      (case map_of (rev entries) key of None \<Rightarrow> map_find (km_strategy_options ks) key | Some v \<Rightarrow> Some v) \<and>
    from_keyspace_meta (replication_meta
      (fold set_replication [(''class'', ''NetworkTopologyStrategy''), (''dc1'', ''3'')]
        (fold set_replication [(''class'', ''NetworkTopologyStrategy''), (''dc1'', ''3''), (''dc2'', ''2'')]
          (keyspace_new name)))) = NetworkTopology ''NetworkTopologyStrategy'' [(''dc1'', 3), (''dc2'', 2)]"
proof
  show "map_find (km_strategy_options (fold set_replication entries ks)) key =
      (case map_of (rev entries) key of None \<Rightarrow> map_find (km_strategy_options ks) key | Some v \<Rightarrow> Some v)"
    by (simp add: set_replication_entries assign_entries [OF assms])
  show "from_keyspace_meta (replication_meta
      (fold set_replication [(''class'', ''NetworkTopologyStrategy''), (''dc1'', ''3'')]
        (fold set_replication [(''class'', ''NetworkTopologyStrategy''), (''dc1'', ''3''), (''dc2'', ''2'')]
          (keyspace_new name)))) = NetworkTopology ''NetworkTopologyStrategy'' [(''dc1'', 3), (''dc2'', 2)]"
    unfolding replication_meta_def set_replication_entries
    by (simp only: keyspace_new_def keyspace.select_convs two_data_centers) (simp add: two_data_centers_strategy)
qed

theorem old_replication_options_stay_witness:
  "map_find (km_strategy_options (fold set_replication [(''class'', ''S'')] (keyspace_new ''k''))) ''dc1'' =
      (case map_of (rev [(''class'', ''S'')]) ''dc1'' of
         None \<Rightarrow> map_find (km_strategy_options (keyspace_new ''k'')) ''dc1'' | Some v \<Rightarrow> Some v) \<and>
    from_keyspace_meta (replication_meta
      (fold set_replication [(''class'', ''NetworkTopologyStrategy''), (''dc1'', ''3'')]
        (fold set_replication [(''class'', ''NetworkTopologyStrategy''), (''dc1'', ''3''), (''dc2'', ''2'')]
          (keyspace_new ''k'')))) = NetworkTopology ''NetworkTopologyStrategy'' [(''dc1'', 3), (''dc2'', 2)]"
  by (rule old_replication_options_stay) (simp add: keyspace_new_def map_nil)

section \<open>Loading the schema\<close>

text \<open>The updates a load of the schema consists of.\<close>

datatype schema_update =
  Update_keyspaces result_response | Update_tables result_response result_response
| Update_user_types result_response | Update_functions result_response | Update_aggregates result_response

fun run_update :: "(bytes \<Rightarrow> json) \<Rightarrow> host_store \<Rightarrow> schema_update \<Rightarrow> metadata \<Rightarrow> metadata option" where
  "run_update json hs (Update_keyspaces r) m = metadata_update_keyspaces json hs r m"
| "run_update json hs (Update_tables r1 r2) m = metadata_update_tables json r1 r2 m"
| "run_update json hs (Update_user_types r) m = metadata_update_user_types r m"
| "run_update json hs (Update_functions r) m = metadata_update_functions r m"
| "run_update json hs (Update_aggregates r) m = metadata_update_aggregates r m"

text \<open>What an update makes of a buffer.\<close>

fun buffer_update :: "(bytes \<Rightarrow> json) \<Rightarrow> metadata_config \<Rightarrow> schema_update \<Rightarrow> keyspaces \<Rightarrow> keyspaces option" where
  "buffer_update json cfg (Update_keyspaces r) kss = map_option fst (update_keyspaces json cfg r kss)"
| "buffer_update json cfg (Update_tables r1 r2) kss = update_tables json cfg r1 r2 kss"
| "buffer_update json cfg (Update_user_types r) kss = update_user_types cfg r kss"
| "buffer_update json cfg (Update_functions r) kss = update_functions cfg r kss"
| "buffer_update json cfg (Update_aggregates r) kss = update_aggregates cfg r kss"

lemma set_updating_simps [simp]:
  "updating (set_updating kss m) = kss" "md_config (set_updating kss m) = md_config m"
  "md_updating_front (set_updating kss m) = md_updating_front m" "md_version (set_updating kss m) = md_version m + 1"
  "\<not> md_updating_front m \<Longrightarrow> md_front (set_updating kss m) = md_front m"
  by (simp_all add: set_updating_def updating_def Let_def)

lemma metadata_update_buffer:
  assumes "metadata_update f m = Some m'"
  obtains kss where "f (md_config m) (updating m) = Some kss" and "m' = set_updating kss m"
  using assms by (auto simp: metadata_update_def)

lemma run_update_buffer:
  assumes "run_update json hs u m = Some m'"
  obtains kss tm where "buffer_update json (md_config m) u (updating m) = Some kss"
    and "m' = (set_updating kss m)\<lparr>md_token_map := tm\<rparr>"
proof -
  note found = that
  have result: thesis if "buffer_update json (md_config m) u (updating m) = Some kss" "m' = set_updating kss m" for kss
    using that by (intro found [of kss "md_token_map m'"]) simp_all
  have plain: thesis if f: "metadata_update f m = Some m'" "buffer_update json (md_config m) u (updating m) = f (md_config m) (updating m)"
    for f
  proof -
    obtain kss where "f (md_config m) (updating m) = Some kss" "m' = set_updating kss m"
      using metadata_update_buffer [OF f(1)] .
    then show thesis using f(2) by (intro result) simp_all
  qed
  show thesis
  proof (cases u)
    case (Update_keyspaces r)
    then obtain kss updates where k: "update_keyspaces json (md_config m) r (updating m) = Some (kss, updates)"
      and m': "m' = (set_updating kss m)\<lparr>md_token_map :=
          fold (\<lambda>(name, ks). update_keyspace hs name (replication_meta ks)) updates (md_token_map m)\<rparr>"
      using assms by (auto simp: metadata_update_keyspaces_def split: Option.bind_splits)
    then show thesis using Update_keyspaces
        that [of kss "fold (\<lambda>(name, ks). update_keyspace hs name (replication_meta ks)) updates (md_token_map m)"] by simp
  next
    case (Update_tables r1 r2)
    then show thesis using assms plain [of "\<lambda>cfg. update_tables json cfg r1 r2"] by (simp add: metadata_update_tables_def)
  next
    case (Update_user_types r)
    then show thesis using assms plain [of "\<lambda>cfg. update_user_types cfg r"] by (simp add: metadata_update_user_types_def)
  next
    case (Update_functions r)
    then show thesis using assms plain [of "\<lambda>cfg. update_functions cfg r"] by (simp add: metadata_update_functions_def)
  next
    case (Update_aggregates r)
    then show thesis using assms plain [of "\<lambda>cfg. update_aggregates cfg r"] by (simp add: metadata_update_aggregates_def)
  qed
qed

lemma run_updates_buffer:
  "each (run_update json hs) us m = Some m' \<Longrightarrow>
   each (buffer_update json (md_config m)) us (updating m) = Some (updating m') \<and> md_config m' = md_config m \<and>
   md_updating_front m' = md_updating_front m \<and> md_version m' = md_version m + of_nat (length us) \<and>
   (\<not> md_updating_front m \<longrightarrow> md_front m' = md_front m)"
proof (induction us arbitrary: m)
  case (Cons u us)
  then obtain m1 where m1: "run_update json hs u m = Some m1" "each (run_update json hs) us m1 = Some m'"
    by (auto split: Option.bind_splits)
  obtain kss tm where b: "buffer_update json (md_config m) u (updating m) = Some kss"
    "m1 = (set_updating kss m)\<lparr>md_token_map := tm\<rparr>" using run_update_buffer [OF m1(1)] .
  have "updating m1 = kss" using b(2) by (simp add: updating_def set_updating_def Let_def)
  then show ?case using Cons.IH [OF m1(2)] b by simp
qed simp

text \<open>C6: a load of the schema, whatever updates it has, does not show in the snapshots taken meanwhile; after
  the buffers are exchanged a snapshot has exactly what the updates make of an empty schema - nothing of
  the schema before is left - under a new version, and later changes go to the buffer that is shown.\<close>

theorem load_replaces_schema:
  assumes "each (run_update json hs) us (clear_and_update_back m) = Some m'"
  shows "sn_keyspaces (schema_snapshot m') = sn_keyspaces (schema_snapshot m) \<and>
    Some (sn_keyspaces (schema_snapshot (swap_to_back_and_update_front m'))) = each (buffer_update json (md_config m)) us [] \<and>
    sn_version (schema_snapshot (swap_to_back_and_update_front m')) =
      sn_version (schema_snapshot m) + of_nat (length us) + 1 \<and>
    md_back (swap_to_back_and_update_front m') = [] \<and>
    updating (swap_to_back_and_update_front m') = sn_keyspaces (schema_snapshot (swap_to_back_and_update_front m'))"
  using run_updates_buffer [OF assms]
  by (simp add: clear_and_update_back_def schema_snapshot_def swap_to_back_and_update_front_def swap_data_def updating_def)

definition empty_result :: result_response where
  "empty_result = result_response_new\<lparr>rr_kind := CASS_RESULT_KIND_ROWS\<rparr>"

lemma empty_result_rows: "rr_row_count empty_result = 0 \<and> result_rows empty_result = Some []"
  by (simp add: empty_result_def result_response_new_def result_rows_def decode_first_row_def result_iterator_new_def
      result_next_def)

theorem load_replaces_schema_witness:
  "sn_keyspaces (schema_snapshot (set_updating [] (clear_and_update_back metadata_new))) =
      sn_keyspaces (schema_snapshot metadata_new) \<and>
    Some (sn_keyspaces (schema_snapshot (swap_to_back_and_update_front (set_updating [] (clear_and_update_back metadata_new))))) =
      each (buffer_update (\<lambda>_. Json_error) (md_config metadata_new)) [Update_user_types empty_result] [] \<and>
    sn_version (schema_snapshot (swap_to_back_and_update_front (set_updating [] (clear_and_update_back metadata_new)))) =
      sn_version (schema_snapshot metadata_new) + of_nat (length [Update_user_types empty_result]) + 1 \<and>
    md_back (swap_to_back_and_update_front (set_updating [] (clear_and_update_back metadata_new))) = [] \<and>
    updating (swap_to_back_and_update_front (set_updating [] (clear_and_update_back metadata_new))) =
      sn_keyspaces (schema_snapshot (swap_to_back_and_update_front (set_updating [] (clear_and_update_back metadata_new))))"
  by (rule load_replaces_schema [of _ "\<lambda>_. new_host Unset False"])
    (simp add: metadata_update_user_types_def metadata_update_def update_user_types_def empty_result_rows
      clear_and_update_back_def updating_def)

end
