(* ===== verification/Event_Response.thy ===== *)
theory Event_Response
  imports Error_Response
begin

text \<open>
  \<open>event_response.cpp\<close>: the events a server pushes to the control connection. The fields a kind of
  event does not have are left out of its constructor. The decoder gives \<open>None\<close> when it reads behind
  the body or the address has no length of an address, and \<open>Some None\<close> when it returns false.
\<close>

section \<open>Events\<close>

datatype topology_change = NEW_NODE | REMOVED_NODE | MOVED_NODE
datatype status_change = NODE_UP | NODE_DOWN
datatype schema_change = CREATED | UPDATED | DROPPED
datatype schema_target = KEYSPACE | TABLE | TYPE_TARGET | FUNCTION | AGGREGATE

text \<open>An event about a node \<open>'n\<close>, or a change of the schema: keyspace, target and argument types.\<close>

datatype 'n event =
  Topology_change topology_change 'n
| Status_change status_change 'n
| Schema_change schema_change schema_target bytes bytes "bytes list"

definition named :: "(string \<times> 'a) list \<Rightarrow> bytes \<Rightarrow> 'a option" where
  "named names s = map_of (map (\<lambda>(n, x). (ascii_bytes n, x)) names) s"

definition topology_names :: "(string \<times> topology_change) list" where
  "topology_names = [(''NEW_NODE'', NEW_NODE), (''REMOVED_NODE'', REMOVED_NODE), (''MOVED_NODE'', MOVED_NODE)]"

definition status_names :: "(string \<times> status_change) list" where
  "status_names = [(''UP'', NODE_UP), (''DOWN'', NODE_DOWN)]"

definition schema_names :: "(string \<times> schema_change) list" where
  "schema_names = [(''CREATED'', CREATED), (''UPDATED'', UPDATED), (''DROPPED'', DROPPED)]"

definition target_names :: "(string \<times> schema_target) list" where
  "target_names =
     [(''KEYSPACE'', KEYSPACE), (''TABLE'', TABLE), (''TYPE'', TYPE_TARGET), (''FUNCTION'', FUNCTION),
      (''AGGREGATE'', AGGREGATE)]"

definition decode_node_event ::
    "uv_inet \<Rightarrow> (string \<times> 'c) list \<Rightarrow> ('c \<Rightarrow> address \<Rightarrow> address event) \<Rightarrow> bytes \<Rightarrow> address event option option" where
  "decode_node_event uv names event pos =
     (case decode_string pos of None \<Rightarrow> None
      | Some (change, pos) \<Rightarrow>
          (case named names change of None \<Rightarrow> Some None
           | Some c \<Rightarrow>
               (case decode_inet uv pos of None \<Rightarrow> None
                | Some (node, pos) \<Rightarrow> Some (Some (event c node)))))"

text \<open>Version 1 and 2: keyspace and table, which is empty for a change of the keyspace.\<close>

definition decode_schema_target_2 :: "schema_change \<Rightarrow> bytes \<Rightarrow> address event option option" where
  "decode_schema_target_2 change pos =
     (case decode_string pos of None \<Rightarrow> None
      | Some (keyspace, pos) \<Rightarrow>
          (case decode_string pos of None \<Rightarrow> None
           | Some (target, pos) \<Rightarrow>
               Some (Some (Schema_change change (if target = [] then KEYSPACE else TABLE) keyspace target []))))"

definition decode_schema_target_3 :: "schema_change \<Rightarrow> bytes \<Rightarrow> address event option option" where
  "decode_schema_target_3 change pos =
     (case decode_string pos of None \<Rightarrow> None
      | Some (target, pos) \<Rightarrow>
          (case named target_names target of None \<Rightarrow> Some None
           | Some t \<Rightarrow>
               (case decode_string pos of None \<Rightarrow> None
                | Some (keyspace, pos) \<Rightarrow>
                    if t = TABLE \<or> t = TYPE_TARGET then
                      (case decode_string pos of None \<Rightarrow> None
                       | Some (name, pos) \<Rightarrow> Some (Some (Schema_change change t keyspace name [])))
                    else if t = FUNCTION \<or> t = AGGREGATE then
                      (case decode_string pos of None \<Rightarrow> None
                       | Some (name, pos) \<Rightarrow>
                           (case decode_stringlist pos of None \<Rightarrow> None
                            | Some (args, pos) \<Rightarrow> Some (Some (Schema_change change t keyspace name args))))
                    else Some (Some (Schema_change change t keyspace [] [])))))"

definition event_decode :: "uv_inet \<Rightarrow> int \<Rightarrow> bytes \<Rightarrow> address event option option" where
  "event_decode uv version buffer =
     (case decode_string buffer of None \<Rightarrow> None
      | Some (event_type, pos) \<Rightarrow>
          if event_type = ascii_bytes ''TOPOLOGY_CHANGE'' then
            decode_node_event uv topology_names Topology_change pos
          else if event_type = ascii_bytes ''STATUS_CHANGE'' then
            decode_node_event uv status_names Status_change pos
          else if event_type = ascii_bytes ''SCHEMA_CHANGE'' then
            (case decode_string pos of None \<Rightarrow> None
             | Some (change, pos) \<Rightarrow>
                 (case named schema_names change of None \<Rightarrow> Some None
                  | Some c \<Rightarrow> if version \<le> 2 then decode_schema_target_2 c pos else decode_schema_target_3 c pos))
          else Some None)"

section \<open>What a server sends\<close>

fun name_of :: "(string \<times> 'c) list \<Rightarrow> 'c \<Rightarrow> bytes" where
  "name_of [] c = []"
| "name_of ((n, x) # names) c = (if x = c then ascii_bytes n else name_of names c)"

text \<open>A node is the bytes of its address and the port.\<close>

definition node_wire :: "bytes \<times> u32 \<Rightarrow> bytes" where
  "node_wire n = encode_byte (of_nat (length (fst n))) @ fst n @ encode_int32 (snd n)"

fun event_wire :: "int \<Rightarrow> (bytes \<times> u32) event \<Rightarrow> bytes" where
  "event_wire version (Topology_change c n) =
     string_wire (ascii_bytes ''TOPOLOGY_CHANGE'') @ string_wire (name_of topology_names c) @ node_wire n"
| "event_wire version (Status_change c n) =
     string_wire (ascii_bytes ''STATUS_CHANGE'') @ string_wire (name_of status_names c) @ node_wire n"
| "event_wire version (Schema_change c t keyspace name args) =
     string_wire (ascii_bytes ''SCHEMA_CHANGE'') @ string_wire (name_of schema_names c) @
     (if version \<le> 2 then string_wire keyspace @ string_wire name
      else string_wire (name_of target_names t) @ string_wire keyspace @
        (if t = KEYSPACE then [] else string_wire name @
          (if t = FUNCTION \<or> t = AGGREGATE then string_list_wire args else [])))"

text \<open>The events a version has: before version 3 there are keyspaces and tables only.\<close>

fun event_ok :: "int \<Rightarrow> (bytes \<times> u32) event \<Rightarrow> bool" where
  "event_ok version (Topology_change c n) \<longleftrightarrow> length (fst n) = 4 \<or> length (fst n) = 16"
| "event_ok version (Status_change c n) \<longleftrightarrow> length (fst n) = 4 \<or> length (fst n) = 16"
| "event_ok version (Schema_change c t keyspace name args) \<longleftrightarrow>
     short_string keyspace \<and> short_string name \<and> string_list_ok args \<and>
     (t = KEYSPACE \<longleftrightarrow> name = []) \<and> (version \<le> 2 \<longrightarrow> t = KEYSPACE \<or> t = TABLE) \<and>
     (t = FUNCTION \<or> t = AGGREGATE \<or> args = [])"

definition node_address :: "uv_inet \<Rightarrow> bytes \<times> u32 \<Rightarrow> address" where
  "node_address uv n = the (from_inet uv (fst n) (snd n))"

lemma decode_node_wire:
  "length (fst n) = 4 \<or> length (fst n) = 16 \<Longrightarrow>
   decode_inet uv (node_wire n @ rest) = Some (node_address uv n, rest)"
  by (auto simp: node_wire_def decode_inet_def encode_byte_def wire_simps from_inet_def node_address_def unat_of_nat)

lemma short_ascii: "length s < 65536 \<Longrightarrow> short_string (ascii_bytes s)"
  by (simp add: short_string_def ascii_bytes_def)

lemmas names_defs =
  named_def topology_names_def status_names_def schema_names_def target_names_def ascii_bytes_def short_string_def

lemma named_topology:
  "named topology_names (name_of topology_names c) = Some c" "short_string (name_of topology_names c)"
  by (cases c; simp add: names_defs)+

lemma named_status:
  "named status_names (name_of status_names c) = Some c" "short_string (name_of status_names c)"
  by (cases c; simp add: names_defs)+

lemma named_schema:
  "named schema_names (name_of schema_names c) = Some c" "short_string (name_of schema_names c)"
  by (cases c; simp add: names_defs)+

lemma named_target:
  "named target_names (name_of target_names t) = Some t" "short_string (name_of target_names t)"
  by (cases t; simp add: names_defs)+

lemmas named_names = named_topology named_status named_schema named_target



end
