(* ===== verification/Statement.thy ===== *)
theory Statement
  imports Result Handler Std_Map
begin

text \<open>
  The requests and their bodies (\<open>request.cpp\<close>, \<open>statement.cpp\<close>, \<open>query_request.cpp\<close>,
  \<open>execute_request.cpp\<close>, \<open>batch_request.cpp\<close>, \<open>prepared.cpp\<close> and the small requests): binding values to
  statements, the routing key, and the virtual \<open>encode\<close> that \<open>handler_encode\<close> of theory \<open>Handler\<close>
  puts in a frame. An encoder returns its result (a length or a negative code), the buffers it
  appended, and the error it reported to the handler; \<open>None\<close> is a failed assertion or an access
  out of bounds. A statement is a record of the parts that the classes share; what the store of
  collections and the cache of encodings are is said in theory \<open>Values\<close>.
\<close>

section \<open>Statements\<close>

definition CASS_QUERY_FLAG_VALUES :: byte where "CASS_QUERY_FLAG_VALUES = 0x01"
definition CASS_QUERY_FLAG_SKIP_METADATA :: byte where "CASS_QUERY_FLAG_SKIP_METADATA = 0x02"
definition CASS_QUERY_FLAG_PAGE_SIZE :: byte where "CASS_QUERY_FLAG_PAGE_SIZE = 0x04"
definition CASS_QUERY_FLAG_PAGING_STATE :: byte where "CASS_QUERY_FLAG_PAGING_STATE = 0x08"
definition CASS_QUERY_FLAG_SERIAL_CONSISTENCY :: byte where "CASS_QUERY_FLAG_SERIAL_CONSISTENCY = 0x10"
definition CASS_QUERY_FLAG_DEFAULT_TIMESTAMP :: byte where "CASS_QUERY_FLAG_DEFAULT_TIMESTAMP = 0x20"
definition CASS_QUERY_FLAG_NAMES_FOR_VALUES :: byte where "CASS_QUERY_FLAG_NAMES_FOR_VALUES = 0x40"

definition CASS_BATCH_KIND_QUERY :: byte where "CASS_BATCH_KIND_QUERY = 0"
definition CASS_BATCH_KIND_PREPARED :: byte where "CASS_BATCH_KIND_PREPARED = 1"

definition CASS_INT64_MIN :: int where "CASS_INT64_MIN = - (2 ^ 63)"

record request =
  rq_opcode :: byte
  rq_consistency :: consistency
  rq_serial_consistency :: consistency
  rq_timestamp :: int
  rq_keyspace :: bytes

definition request_new :: "byte \<Rightarrow> bytes \<Rightarrow> request" where
  "request_new opcode keyspace =
     \<lparr>rq_opcode = opcode, rq_consistency = 0xA, rq_serial_consistency = CL_ANY, rq_timestamp = CASS_INT64_MIN,
      rq_keyspace = keyspace\<rparr>"

record statement =
  st_request :: request
  st_kind :: byte
  st_flags :: byte
  st_page_size :: u32
  st_paging_state :: bytes
  st_key_indices :: "nat list"
  st_elements :: "element list"

definition statement_base_new :: "byte \<Rightarrow> byte \<Rightarrow> nat \<Rightarrow> nat list \<Rightarrow> bytes \<Rightarrow> statement" where
  "statement_base_new opcode kind values_count key_indices keyspace =
     \<lparr>st_request = request_new opcode keyspace, st_kind = kind, st_flags = 0, st_page_size = - 1,
      st_paging_state = [], st_key_indices = key_indices, st_elements = replicate values_count Elem_unset\<rparr>"

definition set_flag :: "byte \<Rightarrow> bool \<Rightarrow> 's statement_scheme \<Rightarrow> 's statement_scheme" where
  "set_flag flag on st = st\<lparr>st_flags := (if on then st_flags st OR flag else st_flags st AND NOT flag)\<rparr>"

definition set_skip_metadata :: "bool \<Rightarrow> 's statement_scheme \<Rightarrow> 's statement_scheme" where
  "set_skip_metadata on st = set_flag CASS_QUERY_FLAG_SKIP_METADATA on st"

definition set_has_names_for_values :: "bool \<Rightarrow> 's statement_scheme \<Rightarrow> 's statement_scheme" where
  "set_has_names_for_values on st = set_flag CASS_QUERY_FLAG_NAMES_FOR_VALUES on st"

definition has_names_for_values :: "'s statement_scheme \<Rightarrow> bool" where
  "has_names_for_values st \<longleftrightarrow> st_flags st AND CASS_QUERY_FLAG_NAMES_FOR_VALUES \<noteq> 0"

text \<open>A simple statement with the names of its values, and one of a prepared query.\<close>

type_synonym value_names = "buffer memory \<times> hash_table"

record query_request = statement +
  qr_query :: bytes
  qr_names :: value_names

record prepared =
  pr_id :: bytes
  pr_statement :: bytes
  pr_metadata :: "result_metadata option"
  pr_has_result_metadata :: bool
  pr_keyspace :: bytes
  pr_key_indices :: "nat list"

record execute_request = statement +
  er_prepared :: prepared

datatype any_statement = Query_statement query_request | Execute_statement execute_request

definition query_request_new :: "bytes \<Rightarrow> nat \<Rightarrow> query_request option" where
  "query_request_new query value_count =
     map_option (\<lambda>names. statement.extend (statement_base_new 0x07 CASS_BATCH_KIND_QUERY value_count [] [])
        \<lparr>qr_query = query, qr_names = names\<rparr>)
       (table_with_capacity value_count empty_memory)"

definition execute_request_new :: "prepared \<Rightarrow> execute_request option" where
  "execute_request_new p =
     (case (case pr_metadata p of None \<Rightarrow> Some 0 | Some m \<Rightarrow> metadata_column_count m) of None \<Rightarrow> None
      | Some n \<Rightarrow>
          Some (let st = statement.extend (statement_base_new 0x0A CASS_BATCH_KIND_PREPARED n (pr_key_indices p) (pr_keyspace p))
                  \<lparr>er_prepared = p\<rparr>
                in if pr_has_result_metadata p then set_skip_metadata True st else st))"

section \<open>Binding values\<close>

text \<open>The entry of a name: the name with its length in front.\<close>

definition value_name :: "string \<Rightarrow> buffer ht_entry option" where
  "value_name name =
     map_option (new_entry name)
       (fill (2 + length name) (buf_encode_string (string_bytes name) (of_nat (length name))))"

definition query_names :: "query_request \<Rightarrow> buffer ht_entry list option" where
  "query_names q = entries_of (fst (qr_names q)) (snd (qr_names q))"

text \<open>\<open>QueryRequest::get_indices\<close> adds a name it does not know; the test is for more names than elements.\<close>

definition query_get_indices :: "string \<Rightarrow> query_request \<Rightarrow> (nat list \<times> query_request) option" where
  "query_get_indices name q =
     (let q = set_has_names_for_values True q in
      case get_indices (fst (qr_names q)) (snd (qr_names q)) name of None \<Rightarrow> None
      | Some indices \<Rightarrow>
          if length indices = 0 then
            (case query_names q of None \<Rightarrow> None
             | Some defs \<Rightarrow>
                 if length defs > length (st_elements q) then Some ([], q)
                 else
                   (case value_name name of None \<Rightarrow> None
                    | Some def \<Rightarrow>
                        (case add def (fst (qr_names q)) (snd (qr_names q)) of None \<Rightarrow> None
                         | Some names \<Rightarrow> Some ([length defs], q\<lparr>qr_names := names\<rparr>))))
          else Some (indices, q))"

definition query_get_type :: "nat \<Rightarrow> data_type option option" where
  "query_get_type index = Some None"

definition query_set :: "nat \<Rightarrow> bound_value \<Rightarrow> collections \<Rightarrow> query_request \<Rightarrow> (lib_error + collections \<times> query_request) option" where
  "query_set index value heap q =
     map_option (map_sum id (\<lambda>(heap, es). (heap, q\<lparr>st_elements := es\<rparr>)))
       (data_set query_get_type index value heap (st_elements q))"

definition query_set_by_name ::
    "string \<Rightarrow> bound_value \<Rightarrow> collections \<Rightarrow> query_request \<Rightarrow> (lib_error option \<times> collections \<times> query_request) option" where
  "query_set_by_name name value heap q =
     (case query_get_indices name q of None \<Rightarrow> None
      | Some (indices, q) \<Rightarrow>
          if length indices = 0 then Some (Some CASS_ERROR_LIB_NAME_DOES_NOT_EXIST, heap, q)
          else map_option (\<lambda>(rc, heap, es). (rc, heap, q\<lparr>st_elements := es\<rparr>))
                 (data_set_all query_get_type indices value heap (st_elements q)))"

definition execute_get_type :: "execute_request \<Rightarrow> nat \<Rightarrow> data_type option option" where
  "execute_get_type e index =
     (case pr_metadata (er_prepared e) of None \<Rightarrow> None
      | Some m \<Rightarrow> map_option (\<lambda>def. col_data_type (ent_data def)) (column_definition m index))"

definition execute_look :: "execute_request \<Rightarrow> string \<Rightarrow> nat list option" where
  "execute_look e name =
     (case pr_metadata (er_prepared e) of None \<Rightarrow> None | Some m \<Rightarrow> metadata_get_indices m name)"

definition execute_set :: "nat \<Rightarrow> bound_value \<Rightarrow> collections \<Rightarrow> execute_request \<Rightarrow> (lib_error + collections \<times> execute_request) option" where
  "execute_set index value heap e =
     map_option (map_sum id (\<lambda>(heap, es). (heap, e\<lparr>st_elements := es\<rparr>)))
       (data_set (execute_get_type e) index value heap (st_elements e))"

definition execute_set_by_name ::
    "string \<Rightarrow> bound_value \<Rightarrow> collections \<Rightarrow> execute_request \<Rightarrow> (lib_error option \<times> collections \<times> execute_request) option" where
  "execute_set_by_name name value heap e =
     map_option (\<lambda>(rc, heap, es). (rc, heap, e\<lparr>st_elements := es\<rparr>))
       (data_set_by_name (execute_get_type e) (execute_look e) name value heap (st_elements e))"

subsection \<open>The C interface\<close>

definition cass_statement_new :: "bytes \<Rightarrow> nat \<Rightarrow> query_request option" where
  "cass_statement_new query parameter_count =
     (case c_string query of None \<Rightarrow> None | Some s \<Rightarrow> query_request_new s parameter_count)"

definition cass_statement_add_key_index :: "nat \<Rightarrow> 's statement_scheme \<Rightarrow> lib_error + 's statement_scheme" where
  "cass_statement_add_key_index index st =
     (if st_kind st \<noteq> CASS_BATCH_KIND_QUERY then Inl CASS_ERROR_LIB_BAD_PARAMS
      else if index \<ge> length (st_elements st) then Inl CASS_ERROR_LIB_BAD_PARAMS
      else Inr (st\<lparr>st_key_indices := st_key_indices st @ [index]\<rparr>))"

definition cass_statement_set_keyspace_n :: "bytes \<Rightarrow> 's statement_scheme \<Rightarrow> lib_error + 's statement_scheme" where
  "cass_statement_set_keyspace_n keyspace st =
     (if st_kind st \<noteq> CASS_BATCH_KIND_QUERY then Inl CASS_ERROR_LIB_BAD_PARAMS
      else Inr (st\<lparr>st_request := (st_request st)\<lparr>rq_keyspace := keyspace\<rparr>\<rparr>))"

definition cass_statement_set_consistency :: "consistency \<Rightarrow> 's statement_scheme \<Rightarrow> 's statement_scheme" where
  "cass_statement_set_consistency cl st = st\<lparr>st_request := (st_request st)\<lparr>rq_consistency := cl\<rparr>\<rparr>"

definition cass_statement_set_serial_consistency :: "consistency \<Rightarrow> 's statement_scheme \<Rightarrow> 's statement_scheme" where
  "cass_statement_set_serial_consistency cl st = st\<lparr>st_request := (st_request st)\<lparr>rq_serial_consistency := cl\<rparr>\<rparr>"

definition cass_statement_set_timestamp :: "int \<Rightarrow> 's statement_scheme \<Rightarrow> 's statement_scheme" where
  "cass_statement_set_timestamp t st = st\<lparr>st_request := (st_request st)\<lparr>rq_timestamp := t\<rparr>\<rparr>"

definition cass_statement_set_paging_size :: "u32 \<Rightarrow> 's statement_scheme \<Rightarrow> 's statement_scheme" where
  "cass_statement_set_paging_size n st = st\<lparr>st_page_size := n\<rparr>"

definition cass_statement_set_paging_state :: "result_response \<Rightarrow> 's statement_scheme \<Rightarrow> 's statement_scheme" where
  "cass_statement_set_paging_state r st =
     st\<lparr>st_paging_state := (case rr_paging_state r of None \<Rightarrow> [] | Some s \<Rightarrow> s)\<rparr>"

definition cass_statement_set_paging_state_token :: "bytes \<Rightarrow> 's statement_scheme \<Rightarrow> 's statement_scheme" where
  "cass_statement_set_paging_state_token s st = st\<lparr>st_paging_state := s\<rparr>"

text \<open>The last of the string functions takes the length of the value but binds the C string.\<close>

definition bind_string_by_name_n_value :: "bytes \<Rightarrow> nat \<Rightarrow> bound_value option" where
  "bind_string_by_name_n_value value value_length = map_option (Bind_scalar \<circ> Val_string) (c_string value)"

section \<open>Encoding the values\<close>

type_synonym encode_result = "(int \<times> buffer list \<times> lib_error option) option"

fun copy_buffers :: "collections \<Rightarrow> encoding_cache \<Rightarrow> int \<Rightarrow> element list \<Rightarrow> encode_result" where
  "copy_buffers heap cache version [] = Some (0, [], None)"
| "copy_buffers heap cache version (e # es) =
     (if is_unset e \<and> version < 4 then
        Some (ENCODE_ERROR_PARAMETER_UNSET, [], Some CASS_ERROR_LIB_PARAMETER_UNSET)
      else
        (case (if \<not> is_unset e then map_option fst (get_buffer_cached heap version False e cache)
               else encode_unset_with_length) of None \<Rightarrow> None
         | Some b \<Rightarrow>
             map_option (\<lambda>(n, bufs, err). (if n < 0 then n else int (length b) + n, b # bufs, err))
               (copy_buffers heap cache version es)))"

text \<open>An element for each name: one that the statement does not have is out of bounds.\<close>

fun copy_buffers_with_names ::
    "collections \<Rightarrow> encoding_cache \<Rightarrow> int \<Rightarrow> buffer ht_entry list \<Rightarrow> element list \<Rightarrow> (int \<times> buffer list) option" where
  "copy_buffers_with_names heap cache version [] es = Some (0, [])"
| "copy_buffers_with_names heap cache version (def # defs) [] = None"
| "copy_buffers_with_names heap cache version (def # defs) (e # es) =
     (case get_buffer_cached heap version False e cache of None \<Rightarrow> None
      | Some (b, _) \<Rightarrow>
          map_option (\<lambda>(n, bufs). (int (length (ent_data def)) + int (length b) + n, ent_data def # b # bufs))
            (copy_buffers_with_names heap cache version defs es))"

section \<open>The routing key\<close>

fun routing_key_parts ::
    "collections \<Rightarrow> element list \<Rightarrow> encoding_cache \<Rightarrow> nat list \<Rightarrow> (bytes \<times> encoding_cache) option" where
  "routing_key_parts heap es cache [] = Some ([], cache)"
| "routing_key_parts heap es cache (i # is) =
     (if i < length es then
        (case get_buffer_cached heap CASS_HIGHEST_SUPPORTED_PROTOCOL_VERSION True (es ! i) cache of None \<Rightarrow> None
         | Some (b, cache) \<Rightarrow>
             if length b < 4 then None
             else map_option (\<lambda>(rest, cache).
                   (encode_uint16 (of_nat (length b - 4)) @ drop 4 b @ [0] @ rest, cache))
                 (routing_key_parts heap es cache is))
      else None)"

text \<open>The first loop over several indices: whether all have a value. The sizes only reserve space.\<close>

fun key_elements_set :: "collections \<Rightarrow> element list \<Rightarrow> nat list \<Rightarrow> bool option" where
  "key_elements_set heap es [] = Some True"
| "key_elements_set heap es (i # is) =
     (if i < length es then
        (if is_unset (es ! i) \<or> is_null_element (es ! i) then Some False
         else if get_size heap CASS_HIGHEST_SUPPORTED_PROTOCOL_VERSION (es ! i) = None then None
         else key_elements_set heap es is)
      else None)"

definition statement_get_routing_key ::
    "collections \<Rightarrow> encoding_cache \<Rightarrow> 's statement_scheme \<Rightarrow> (bytes option \<times> encoding_cache) option" where
  "statement_get_routing_key heap cache st =
     (let es = st_elements st in
      case st_key_indices st of
        [] \<Rightarrow> Some (None, cache)
      | [i] \<Rightarrow>
          if i < length es then
            (if is_unset (es ! i) \<or> is_null_element (es ! i) then Some (None, cache)
             else
               (case get_buffer_cached heap CASS_HIGHEST_SUPPORTED_PROTOCOL_VERSION True (es ! i) cache of None \<Rightarrow> None
                | Some (b, cache) \<Rightarrow> if length b < 4 then None else Some (Some (drop 4 b), cache)))
          else None
      | indices \<Rightarrow>
          (case key_elements_set heap es indices of None \<Rightarrow> None
           | Some False \<Rightarrow> Some (None, cache)
           | Some True \<Rightarrow>
               map_option (\<lambda>(key, cache). (Some key, cache)) (routing_key_parts heap es cache indices)))"


section \<open>Encoding queries\<close>

text \<open>What the two kinds of statements add behind the page size.\<close>

definition has_timestamp :: "int \<Rightarrow> 'h handler_scheme \<Rightarrow> bool" where
  "has_timestamp version h \<longleftrightarrow> version \<ge> 3 \<and> h_timestamp h \<noteq> CASS_INT64_MIN"

definition paging_rest_size :: "int \<Rightarrow> 'h handler_scheme \<Rightarrow> 's statement_scheme \<Rightarrow> nat" where
  "paging_rest_size version h st =
     (if st_paging_state st \<noteq> [] then 4 + length (st_paging_state st) else 0) +
     (if rq_serial_consistency (st_request st) \<noteq> 0 then 2 else 0) +
     (if has_timestamp version h then 8 else 0)"

definition paging_rest :: "int \<Rightarrow> 'h handler_scheme \<Rightarrow> 's statement_scheme \<Rightarrow> buffer_op" where
  "paging_rest version h st =
     buf_then (if st_paging_state st \<noteq> []
               then buf_encode_bytes (st_paging_state st) (of_nat (length (st_paging_state st))) else buf_skip)
       (buf_then (if rq_serial_consistency (st_request st) \<noteq> 0
                  then buf_encode_uint16 (rq_serial_consistency (st_request st)) else buf_skip)
         (if has_timestamp version h then buf_encode_int64 (word_of_int (h_timestamp h)) else buf_skip))"

definition request_flags :: "bool \<Rightarrow> int \<Rightarrow> 'h handler_scheme \<Rightarrow> 's statement_scheme \<Rightarrow> byte" where
  "request_flags with_page_size version h st =
     st_flags st OR (if length (st_elements st) > 0 then CASS_QUERY_FLAG_VALUES else 0) OR
     (if with_page_size then CASS_QUERY_FLAG_PAGE_SIZE else 0) OR
     (if st_paging_state st \<noteq> [] then CASS_QUERY_FLAG_PAGING_STATE else 0) OR
     (if rq_serial_consistency (st_request st) \<noteq> 0 then CASS_QUERY_FLAG_SERIAL_CONSISTENCY else 0) OR
     (if has_timestamp version h then CASS_QUERY_FLAG_DEFAULT_TIMESTAMP else 0)"

definition append_paging :: "nat \<Rightarrow> buffer_op \<Rightarrow> int \<Rightarrow> buffer list \<Rightarrow> encode_result" where
  "append_paging paging_buf_size f len bufs =
     (if paging_buf_size > 0 then
        map_option (\<lambda>b. (len + int paging_buf_size, bufs @ [b], None)) (fill paging_buf_size f)
      else Some (len, bufs, None))"

definition statement_consistency :: "'h handler_scheme \<Rightarrow> 's statement_scheme \<Rightarrow> consistency" where
  "statement_consistency h st = handler_consistency (rq_consistency (st_request st)) h"

definition query_internal_encode_v1 :: "'h handler_scheme \<Rightarrow> query_request \<Rightarrow> encode_result" where
  "query_internal_encode_v1 h q =
     map_option (\<lambda>b. (int (4 + length (qr_query q) + 2), [b], None))
       (fill (4 + length (qr_query q) + 2)
         (buf_then (buf_encode_long_string (qr_query q) (of_nat (length (qr_query q))))
           (buf_encode_uint16 (statement_consistency h q))))"

text \<open>
  The size of the paging fields counts a page size above zero, the fields are written with one not
  below zero.
\<close>

definition query_internal_encode ::
    "collections \<Rightarrow> encoding_cache \<Rightarrow> int \<Rightarrow> 'h handler_scheme \<Rightarrow> query_request \<Rightarrow> encode_result" where
  "query_internal_encode heap cache version h q =
     (let es = st_elements q;
          query_buf_size = 4 + length (qr_query q) + 2 + 1 + (if length es > 0 then 2 else 0);
          paging_buf_size = (if sint (st_page_size q) > 0 then 4 else 0) + paging_rest_size version h q;
          head = buf_then (buf_encode_long_string (qr_query q) (of_nat (length (qr_query q))))
            (buf_then (buf_encode_uint16 (statement_consistency h q))
              (buf_encode_byte (request_flags (sint (st_page_size q) > 0) version h q)));
          paging = append_paging paging_buf_size
            (buf_then (if sint (st_page_size q) \<ge> 0 then buf_encode_int32 (st_page_size q) else buf_skip)
              (paging_rest version h q))
      in if has_names_for_values q then
           (if version < 3 then
              map_option (\<lambda>b. (ENCODE_ERROR_UNSUPPORTED_PROTOCOL, [b], None)) (fill query_buf_size head)
            else
              (case query_names q of None \<Rightarrow> None
               | Some defs \<Rightarrow>
                   (case fill query_buf_size (buf_then head (buf_encode_uint16 (of_nat (length defs)))) of None \<Rightarrow> None
                    | Some b \<Rightarrow>
                        (case copy_buffers_with_names heap cache version defs es of None \<Rightarrow> None
                         | Some (n, bufs) \<Rightarrow> paging (int query_buf_size + n) (b # bufs)))))
         else if length es > 0 then
           (case fill query_buf_size (buf_then head (buf_encode_uint16 (of_nat (length es)))) of None \<Rightarrow> None
            | Some b \<Rightarrow>
                (case copy_buffers heap cache version es of None \<Rightarrow> None
                 | Some (n, bufs, err) \<Rightarrow>
                     if n < 0 then Some (n, b # bufs, err) else paging (int query_buf_size + n) (b # bufs)))
         else
           (case fill query_buf_size head of None \<Rightarrow> None
            | Some b \<Rightarrow> paging (int query_buf_size) [b]))"

definition query_encode ::
    "collections \<Rightarrow> encoding_cache \<Rightarrow> int \<Rightarrow> 'h handler_scheme \<Rightarrow> query_request \<Rightarrow> encode_result" where
  "query_encode heap cache version h q =
     (if version = 1 then query_internal_encode_v1 h q else query_internal_encode heap cache version h q)"

definition query_encode_batch :: "collections \<Rightarrow> encoding_cache \<Rightarrow> int \<Rightarrow> query_request \<Rightarrow> encode_result" where
  "query_encode_batch heap cache version q =
     (let es = st_elements q;
          buf_size = 1 + 4 + length (qr_query q) + 2;
          head = buf_then (buf_encode_byte (st_kind q))
            (buf_encode_long_string (qr_query q) (of_nat (length (qr_query q))))
      in if has_names_for_values q then
           (if version < 3 then
              map_option (\<lambda>b. (ENCODE_ERROR_UNSUPPORTED_PROTOCOL, [b], None)) (fill buf_size head)
            else
              (case query_names q of None \<Rightarrow> None
               | Some defs \<Rightarrow>
                   (case fill buf_size (buf_then head (buf_encode_uint16 (of_nat (length defs)))) of None \<Rightarrow> None
                    | Some b \<Rightarrow>
                        map_option (\<lambda>(n, bufs). (int buf_size + n, b # bufs, None))
                          (copy_buffers_with_names heap cache version defs es))))
         else
           (case fill buf_size (buf_then head (buf_encode_uint16 (of_nat (length es)))) of None \<Rightarrow> None
            | Some b \<Rightarrow>
                (if length es > 0 then
                   map_option (\<lambda>(n, bufs, err). if n < 0 then (n, b # bufs, err) else (int buf_size + n, b # bufs, None))
                     (copy_buffers heap cache version es)
                 else Some (int buf_size, [b], None))))"

section \<open>Encoding executions\<close>

definition execute_internal_encode_v1 ::
    "collections \<Rightarrow> encoding_cache \<Rightarrow> 'h handler_scheme \<Rightarrow> execute_request \<Rightarrow> encode_result" where
  "execute_internal_encode_v1 heap cache h e =
     (let prepared_id = pr_id (er_prepared e);
          prepared_buf_size = 2 + length prepared_id + 2
      in case fill prepared_buf_size
                (buf_then (buf_encode_string prepared_id (of_nat (length prepared_id)))
                  (buf_encode_uint16 (of_nat (length (st_elements e))))) of None \<Rightarrow> None
         | Some b \<Rightarrow>
             (case copy_buffers heap cache 1 (st_elements e) of None \<Rightarrow> None
              | Some (n, bufs, err) \<Rightarrow>
                  if n < 0 then Some (n, b # bufs, err)
                  else
                    map_option (\<lambda>c. (int prepared_buf_size + n + 2, b # bufs @ [c], None))
                      (fill 2 (buf_encode_uint16 (statement_consistency h e)))))"

definition execute_internal_encode ::
    "collections \<Rightarrow> encoding_cache \<Rightarrow> int \<Rightarrow> 'h handler_scheme \<Rightarrow> execute_request \<Rightarrow> encode_result" where
  "execute_internal_encode heap cache version h e =
     (let es = st_elements e; prepared_id = pr_id (er_prepared e);
          prepared_buf_size = 2 + length prepared_id + 2 + 1 + (if length es > 0 then 2 else 0);
          paging_buf_size = (if sint (st_page_size e) \<ge> 0 then 4 else 0) + paging_rest_size version h e;
          head = buf_then (buf_encode_string prepared_id (of_nat (length prepared_id)))
            (buf_then (buf_encode_uint16 (statement_consistency h e))
              (buf_encode_byte (request_flags (sint (st_page_size e) \<ge> 0) version h e)));
          paging = append_paging paging_buf_size
            (buf_then (if sint (st_page_size e) \<ge> 0 then buf_encode_int32 (st_page_size e) else buf_skip)
              (paging_rest version h e))
      in if length es > 0 then
           (case fill prepared_buf_size (buf_then head (buf_encode_uint16 (of_nat (length es)))) of None \<Rightarrow> None
            | Some b \<Rightarrow>
                (case copy_buffers heap cache version es of None \<Rightarrow> None
                 | Some (n, bufs, err) \<Rightarrow>
                     if n < 0 then Some (n, b # bufs, err) else paging (int prepared_buf_size + n) (b # bufs)))
         else
           (case fill prepared_buf_size head of None \<Rightarrow> None
            | Some b \<Rightarrow> paging (int prepared_buf_size) [b]))"

definition execute_encode ::
    "collections \<Rightarrow> encoding_cache \<Rightarrow> int \<Rightarrow> 'h handler_scheme \<Rightarrow> execute_request \<Rightarrow> encode_result" where
  "execute_encode heap cache version h e =
     (if version = 1 then execute_internal_encode_v1 heap cache h e
      else execute_internal_encode heap cache version h e)"

definition execute_encode_batch :: "collections \<Rightarrow> encoding_cache \<Rightarrow> int \<Rightarrow> execute_request \<Rightarrow> encode_result" where
  "execute_encode_batch heap cache version e =
     (let es = st_elements e; id = pr_id (er_prepared e);
          buf_size = 1 + 2 + length id + 2
      in case fill buf_size
                (buf_then (buf_encode_byte (st_kind e))
                  (buf_then (buf_encode_string id (of_nat (length id))) (buf_encode_uint16 (of_nat (length es))))) of
           None \<Rightarrow> None
         | Some b \<Rightarrow>
             (if length es > 0 then
                map_option (\<lambda>(n, bufs, err). if n < 0 then (n, b # bufs, err) else (int buf_size + n, b # bufs, None))
                  (copy_buffers heap cache version es)
              else Some (int buf_size, [b], None)))"

section \<open>Batches\<close>

record batch_request =
  bt_request :: request
  bt_type :: byte
  bt_statements :: "any_statement list"
  bt_prepared :: "(bytes, execute_request) std_map"

definition batch_request_new :: "byte \<Rightarrow> batch_request" where
  "batch_request_new type =
     \<lparr>bt_request = request_new 0x0D [], bt_type = type, bt_statements = [], bt_prepared = []\<rparr>"

definition any_has_names :: "any_statement \<Rightarrow> bool" where
  "any_has_names s = (case s of Query_statement q \<Rightarrow> has_names_for_values q | Execute_statement e \<Rightarrow> has_names_for_values e)"

definition any_encode_batch :: "collections \<Rightarrow> encoding_cache \<Rightarrow> int \<Rightarrow> any_statement \<Rightarrow> encode_result" where
  "any_encode_batch heap cache version s =
     (case s of Query_statement q \<Rightarrow> query_encode_batch heap cache version q
      | Execute_statement e \<Rightarrow> execute_encode_batch heap cache version e)"

fun batch_encode_statements ::
    "collections \<Rightarrow> encoding_cache \<Rightarrow> int \<Rightarrow> any_statement list \<Rightarrow> encode_result" where
  "batch_encode_statements heap cache version [] = Some (0, [], None)"
| "batch_encode_statements heap cache version (s # ss) =
     (if any_has_names s then Some (ENCODE_ERROR_BATCH_WITH_NAMED_VALUES, [], Some CASS_ERROR_LIB_BAD_PARAMS)
      else
        (case any_encode_batch heap cache version s of None \<Rightarrow> None
         | Some (n, bufs, err) \<Rightarrow>
             if n < 0 then Some (n, bufs, err)
             else
               map_option (\<lambda>(m, rest, err). (if m < 0 then m else n + m, bufs @ rest, err))
                 (batch_encode_statements heap cache version ss)))"

text \<open>The consistency written is that of the request, not that of the handler.\<close>

definition batch_encode ::
    "collections \<Rightarrow> encoding_cache \<Rightarrow> int \<Rightarrow> 'h handler_scheme \<Rightarrow> batch_request \<Rightarrow> encode_result" where
  "batch_encode heap cache version h b =
     (if version = 1 then Some (ENCODE_ERROR_UNSUPPORTED_PROTOCOL, [], None)
      else
        (case fill 3 (buf_then (buf_encode_byte (bt_type b)) (buf_encode_uint16 (of_nat (length (bt_statements b))))) of
           None \<Rightarrow> None
         | Some first \<Rightarrow>
             (case batch_encode_statements heap cache version (bt_statements b) of None \<Rightarrow> None
              | Some (n, bufs, err) \<Rightarrow>
                  if n < 0 then Some (n, first # bufs, err)
                  else
                    (let serial = rq_serial_consistency (bt_request b);
                         with_serial = version \<ge> 3 \<and> serial \<noteq> 0;
                         buf_size = 2 + (if version \<ge> 3 then 1 else 0) + (if with_serial then 2 else 0) +
                           (if has_timestamp version h then 8 else 0);
                         flags = (if with_serial then CASS_QUERY_FLAG_SERIAL_CONSISTENCY else 0) OR
                           (if has_timestamp version h then CASS_QUERY_FLAG_DEFAULT_TIMESTAMP else 0)
                     in map_option (\<lambda>last. (3 + n + int buf_size, first # bufs @ [last], None))
                          (fill buf_size
                            (buf_then (buf_encode_uint16 (rq_consistency (bt_request b)))
                              (buf_then (if version \<ge> 3 then buf_encode_byte flags else buf_skip)
                                (buf_then (if with_serial then buf_encode_uint16 serial else buf_skip)
                                  (if has_timestamp version h
                                   then buf_encode_int64 (word_of_int (h_timestamp h)) else buf_skip)))))))))"

definition add_statement :: "any_statement \<Rightarrow> batch_request \<Rightarrow> batch_request" where
  "add_statement s b =
     (let b = (case s of Query_statement q \<Rightarrow> b
               | Execute_statement e \<Rightarrow> b\<lparr>bt_prepared := map_assign (pr_id (er_prepared e)) e (bt_prepared b)\<rparr>)
      in b\<lparr>bt_statements := bt_statements b @ [s]\<rparr>)"

definition prepared_statement :: "bytes \<Rightarrow> batch_request \<Rightarrow> bytes option" where
  "prepared_statement prepared_id b = map_option (\<lambda>e. pr_statement (er_prepared e)) (map_find (bt_prepared b) prepared_id)"

definition any_get_routing_key ::
    "collections \<Rightarrow> encoding_cache \<Rightarrow> any_statement \<Rightarrow> (bytes option \<times> encoding_cache) option" where
  "any_get_routing_key heap cache s =
     (case s of Query_statement q \<Rightarrow> statement_get_routing_key heap cache q
      | Execute_statement e \<Rightarrow> statement_get_routing_key heap cache e)"

fun batch_get_routing_key ::
    "collections \<Rightarrow> encoding_cache \<Rightarrow> any_statement list \<Rightarrow> (bytes option \<times> encoding_cache) option" where
  "batch_get_routing_key heap cache [] = Some (None, cache)"
| "batch_get_routing_key heap cache (s # ss) =
     (case any_get_routing_key heap cache s of None \<Rightarrow> None
      | Some (Some key, cache) \<Rightarrow> Some (Some key, cache)
      | Some (None, cache) \<Rightarrow> batch_get_routing_key heap cache ss)"

section \<open>The other requests\<close>

definition prepare_encode :: "bytes \<Rightarrow> encode_result" where
  "prepare_encode query =
     map_option (\<lambda>b. (int (4 + length query), [b], None))
       (fill (4 + length query) (buf_encode_long_string query (of_nat (length query))))"

text \<open>The map of the options is in the order of the keys.\<close>

definition startup_options :: "bytes \<Rightarrow> bytes \<Rightarrow> (bytes, bytes) std_map" where
  "startup_options compression version =
     (let options = (if compression \<noteq> [] then map_assign (string_bytes ''COMPRESSION'') compression [] else [])
      in if version \<noteq> [] then map_assign (string_bytes ''CQL_VERSION'') version options else options)"

definition startup_encode :: "bytes \<Rightarrow> bytes \<Rightarrow> encode_result" where
  "startup_encode compression version =
     (let len = 2 + (if compression \<noteq> [] then 2 + length ''COMPRESSION'' + 2 + length compression else 0) +
            (if version \<noteq> [] then 2 + length ''CQL_VERSION'' + 2 + length version else 0)
      in map_option (\<lambda>b. (int len, [b], None))
           (fill len (buf_encode_string_map (startup_options compression version))))"

definition register_events :: "nat \<Rightarrow> bytes list" where
  "register_events event_types =
     (if bit event_types 0 then [string_bytes ''TOPOLOGY_CHANGE''] else []) @
     (if bit event_types 1 then [string_bytes ''STATUS_CHANGE''] else []) @
     (if bit event_types 2 then [string_bytes ''SCHEMA_CHANGE''] else [])"

definition register_encode :: "nat \<Rightarrow> encode_result" where
  "register_encode event_types =
     (let events = register_events event_types;
          len = 2 + sum_list (map (\<lambda>e. 2 + length e) events)
      in map_option (\<lambda>b. (int len, [b], None)) (fill len (buf_encode_string_list events)))"

definition options_encode :: encode_result where
  "options_encode = Some (0, [], None)"

definition credentials_encode :: "int \<Rightarrow> (bytes, bytes) std_map \<Rightarrow> encode_result" where
  "credentials_encode version credentials =
     (if version \<noteq> 1 then Some (- 1, [], None)
      else
        (let len = 2 + sum_list (map (\<lambda>(k, v). 2 + length k + (2 + length v)) credentials)
         in map_option (\<lambda>b. (int len, [b], None)) (fill len (buf_encode_string_map credentials))))"

definition auth_response_encode :: "int \<Rightarrow> bytes \<Rightarrow> encode_result" where
  "auth_response_encode version token =
     (if version < 2 then Some (- 1, [], None)
      else map_option (\<lambda>b. (int (4 + length token), [b], None))
             (fill (4 + length token) (buf_encode_long_string token (of_nat (length token)))))"

subsection \<open>Custom payload\<close>

type_synonym custom_payload = "(bytes, buffer) std_map"

definition payload_set :: "bytes \<Rightarrow> bytes \<Rightarrow> custom_payload \<Rightarrow> custom_payload option" where
  "payload_set name value items =
     map_option (\<lambda>b. map_assign name b items)
       (fill (2 + length name + 4 + length value)
         (buf_then (buf_encode_string name (of_nat (length name)))
           (buf_encode_bytes value (of_nat (length value)))))"

definition payload_encode :: "custom_payload \<Rightarrow> (int \<times> buffer list) option" where
  "payload_encode items =
     map_option (\<lambda>b. (2 + int (sum_list (map (length \<circ> snd) items)), b # map snd items))
       (fill 2 (buf_encode_uint16 (of_nat (length items))))"

section \<open>Prepared statements\<close>

text \<open>
  The indices of the partition key: those the server sent, or before protocol version 4 the positions
  of the columns of the key, all or none. The schema is the parameter \<open>partition_key\<close>: the names of the
  partition key of a table, where the table is known.
\<close>

fun prepared_key_indices :: "(string \<Rightarrow> nat list option) \<Rightarrow> nat list \<Rightarrow> string list \<Rightarrow> nat list option" where
  "prepared_key_indices look key_indices [] = Some key_indices"
| "prepared_key_indices look key_indices (c # cs) =
     (case look c of None \<Rightarrow> None
      | Some [] \<Rightarrow> Some []
      | Some (i # _) \<Rightarrow> prepared_key_indices look (key_indices @ [i]) cs)"

definition prepared_new ::
    "int \<Rightarrow> (bytes \<Rightarrow> bytes \<Rightarrow> string list option) \<Rightarrow> result_response \<Rightarrow> bytes \<Rightarrow> prepared option" where
  "prepared_new schema_version partition_key r statement =
     map_option (\<lambda>indices.
         \<lparr>pr_id = rr_prepared r, pr_statement = statement, pr_metadata = rr_metadata r,
          pr_has_result_metadata = (rr_result_metadata r \<noteq> None), pr_keyspace = rr_keyspace r,
          pr_key_indices = indices\<rparr>)
       (if schema_version \<ge> 4 then Some (rr_pk_indices r)
        else (case partition_key (rr_keyspace r) (rr_table r) of None \<Rightarrow> Some []
              | Some columns \<Rightarrow>
                  prepared_key_indices
                    (\<lambda>c. case rr_metadata r of None \<Rightarrow> None | Some m \<Rightarrow> metadata_get_indices m c) [] columns))"

definition cass_prepared_parameter_name :: "prepared \<Rightarrow> nat \<Rightarrow> (lib_error + string) option" where
  "cass_prepared_parameter_name p index =
     (case pr_metadata p of None \<Rightarrow> None
      | Some m \<Rightarrow>
          (case metadata_column_count m of None \<Rightarrow> None
           | Some n \<Rightarrow>
               if index \<ge> n then Some (Inl CASS_ERROR_LIB_INDEX_OUT_OF_BOUNDS)
               else map_option (\<lambda>def. Inr (ent_name def)) (column_definition m index)))"

definition cass_prepared_parameter_data_type_by_name_n :: "prepared \<Rightarrow> string \<Rightarrow> data_type option option" where
  "cass_prepared_parameter_data_type_by_name_n p name =
     (case pr_metadata p of None \<Rightarrow> None
      | Some m \<Rightarrow>
          (case metadata_get_indices m name of None \<Rightarrow> None
           | Some [] \<Rightarrow> Some None
           | Some (i # is) \<Rightarrow> map_option (\<lambda>def. col_data_type (ent_data def)) (column_definition m i)))"


section \<open>What the encoders report\<close>

text \<open>
  Every encoder that succeeds reports the number of the bytes it appended; \<open>keeps_length\<close> says so of an
  encoder of a buffer.
\<close>

definition keeps_length :: "buffer_op \<Rightarrow> bool" where
  "keeps_length f \<longleftrightarrow> (\<forall>i b j b'. i \<le> length b \<longrightarrow> f i b = Some (j, b') \<longrightarrow> length b' = length b \<and> j \<le> length b)"

lemma keeps_fill:
  assumes "keeps_length f" and "fill n f = Some b"
  shows "length b = n"
proof -
  obtain j where "f 0 (replicate n 0) = Some (j, b)" using assms(2) by (auto simp: fill_def)
  moreover have "(0::nat) \<le> length (replicate n (0::8 word))" by simp
  ultimately have "length b = length (replicate n (0::8 word))" using assms(1) unfolding keeps_length_def by blast
  then show ?thesis by simp
qed

lemma keeps_writes:
  assumes "writes f xs"
  shows "keeps_length f"
proof -
  have "length b' = length b \<and> j \<le> length b" if "i \<le> length b" and f: "f i b = Some (j, b')" for i b j b'
  proof -
    have "f i b = (if i + length xs \<le> length b then Some (i + length xs, put_bytes i xs b) else None)"
      using assms that(1) unfolding writes_def by blast
    then show ?thesis using f by (cases "i + length xs \<le> length b") (auto simp: put_bytes_def)
  qed
  then show ?thesis unfolding keeps_length_def by blast
qed

lemma keeps_then: "keeps_length f \<Longrightarrow> keeps_length g \<Longrightarrow> keeps_length (buf_then f g)"
proof -
  assume f: "keeps_length f" and g: "keeps_length g"
  have "length b' = length b \<and> j \<le> length b" if i: "i \<le> length b" and s: "buf_then f g i b = Some (j, b')" for i b j b'
  proof -
    obtain k c where k: "f i b = Some (k, c)" "g k c = Some (j, b')"
      using s by (cases "f i b") (auto simp: buf_then_def)
    have c: "length c = length b" "k \<le> length b" using f k(1) i unfolding keeps_length_def by blast+
    have "length b' = length c \<and> j \<le> length c" using g k(2) c(2)[folded c(1)] unfolding keeps_length_def by blast
    then show ?thesis using c by simp
  qed
  then show ?thesis unfolding keeps_length_def by blast
qed

lemma keeps_fail: "keeps_length buf_fail"
  by (simp add: keeps_length_def buf_fail_def)

lemmas keeps_basic = keeps_writes [OF writes_skip] keeps_writes [OF writes_copy] keeps_fail
  keeps_writes [OF writes_ints(1)] keeps_writes [OF writes_ints(2)] keeps_writes [OF writes_ints(3)]
  keeps_writes [OF writes_ints(4)] keeps_writes [OF writes_ints(5)] keeps_writes [OF writes_ints(6)]
  keeps_writes [OF writes_ints(7)] keeps_writes [OF writes_ints(8)] keeps_writes [OF writes_ints(9)]

lemma keeps_strings:
  "keeps_length (buf_encode_long_string s l)" "keeps_length (buf_encode_bytes s l)" "keeps_length (buf_encode_string s h)"
  by (auto simp: buf_encode_long_string_def buf_encode_bytes_def buf_encode_string_def intro!: keeps_then keeps_basic)

lemma keeps_paging: "keeps_length (paging_rest version h st)"
  by (auto simp: paging_rest_def intro!: keeps_then keeps_basic keeps_strings)

definition reports_bytes :: "encode_result \<Rightarrow> bool" where
  "reports_bytes r \<longleftrightarrow> (case r of None \<Rightarrow> True | Some (n, bufs, err) \<Rightarrow>
     (0 \<le> n \<longrightarrow> n = int (length (concat bufs)) \<and> err = None) \<and> (n < 0 \<longrightarrow> n \<in> {- 1, - 2, - 3}))"

lemma copy_buffers_reports: "reports_bytes (copy_buffers heap cache version es)"
  by (induction es)
    (auto simp: reports_bytes_def ENCODE_ERROR_PARAMETER_UNSET_def split: option.splits prod.splits)

lemma copy_named_reports:
  "copy_buffers_with_names heap cache version defs es = Some (n, bufs) \<Longrightarrow> n = int (length (concat bufs))"
  by (induction heap cache version defs es arbitrary: n bufs rule: copy_buffers_with_names.induct)
    (auto split: option.splits)

lemma append_paging_reports:
  assumes "keeps_length f" and "n = int (length (concat bufs))"
  shows "reports_bytes (append_paging m f n bufs)"
  using keeps_fill [OF assms(1), of m] assms(2)
  by (auto simp: append_paging_def reports_bytes_def split: option.splits)

text \<open>The shapes the encoders are composed of.\<close>

lemma reports_fill:
  "keeps_length g \<Longrightarrow> (\<And>b. length b = n \<Longrightarrow> reports_bytes (F b)) \<Longrightarrow>
   reports_bytes (case fill n g of None \<Rightarrow> None | Some b \<Rightarrow> F b)"
  using keeps_fill [of g n] by (cases "fill n g") (auto simp: reports_bytes_def [of None])

lemma reports_last:
  "keeps_length g \<Longrightarrow> m = int n + int (length (concat bufs)) \<Longrightarrow>
   reports_bytes (map_option (\<lambda>b. (m, bufs @ [b], None)) (fill n g))"
  using keeps_fill [of g n] by (cases "fill n g") (auto simp: reports_bytes_def)

lemma reports_copy:
  assumes "\<And>n bufs. n = int (length (concat bufs)) \<Longrightarrow> reports_bytes (F n bufs)"
  shows "reports_bytes (case copy_buffers heap cache version es of None \<Rightarrow> None
    | Some (n, bufs, err) \<Rightarrow> if n < 0 then Some (n, b # bufs, err) else F n bufs)"
  using copy_buffers_reports [of heap cache version es] assms
  by (auto simp: reports_bytes_def [of None] reports_bytes_def [of "Some (_, _)"] split: option.splits prod.splits)

lemma reports_copy_map:
  assumes "length b = k"
  shows "reports_bytes (map_option (\<lambda>(n, bufs, err). if n < 0 then (n, b # bufs, err) else (int k + n, b # bufs, None))
    (copy_buffers heap cache version es))"
  using copy_buffers_reports [of heap cache version es] assms
  by (auto simp: reports_bytes_def split: option.splits prod.splits)

lemma reports_named:
  assumes "\<And>n bufs. n = int (length (concat bufs)) \<Longrightarrow> reports_bytes (F n bufs)"
  shows "reports_bytes (case copy_buffers_with_names heap cache version defs es of None \<Rightarrow> None | Some (n, bufs) \<Rightarrow> F n bufs)"
  using copy_named_reports [of heap cache version defs es] assms
  by (auto simp: reports_bytes_def [of None] split: option.splits prod.splits)

lemma reports_unsupported:
  "reports_bytes (map_option (\<lambda>b. (ENCODE_ERROR_UNSUPPORTED_PROTOCOL, [b], None)) (fill n g))"
  by (auto simp: reports_bytes_def ENCODE_ERROR_UNSUPPORTED_PROTOCOL_def split: option.splits)

lemma reports_none: "reports_bytes None"
  by (simp add: reports_bytes_def)

lemmas keeps_intros = keeps_then keeps_basic keeps_strings keeps_paging

lemma keeps_if: "keeps_length f \<Longrightarrow> keeps_length g \<Longrightarrow> keeps_length (if c then f else g)"
  by simp

lemmas reports_intros = reports_fill reports_copy reports_named reports_unsupported reports_copy_map
  append_paging_reports keeps_intros keeps_if

lemma query_internal_reports: "reports_bytes (query_internal_encode heap cache version h q)"
  unfolding query_internal_encode_def Let_def
  by (cases "has_names_for_values q"; cases "length (st_elements q) > 0"; cases "version < 3"; cases "query_names q")
    (simp_all only: if_True if_False option.case refl simp_thms,
     (intro reports_intros reports_none; simp)+)


lemma query_v1_reports: "reports_bytes (query_internal_encode_v1 h q)"
  unfolding query_internal_encode_v1_def
  using keeps_fill [of "buf_then (buf_encode_long_string (qr_query q) (of_nat (length (qr_query q))))
           (buf_encode_uint16 (statement_consistency h q))"]
  by (auto simp: reports_bytes_def keeps_then keeps_basic keeps_strings split: option.splits)

lemma query_encode_reports: "reports_bytes (query_encode heap cache version h q)"
  by (simp add: query_encode_def query_v1_reports query_internal_reports)

lemma reports_named_map:
  assumes "length b = k"
  shows "reports_bytes (map_option (\<lambda>(n, bufs). (int k + n, b # bufs, None))
    (copy_buffers_with_names heap cache version defs es))"
  using copy_named_reports [of heap cache version defs es] assms
  by (auto simp: reports_bytes_def split: option.splits prod.splits)

lemma reports_one: "length b = k \<Longrightarrow> reports_bytes (Some (int k, [b], None))"
  by (simp add: reports_bytes_def)

lemma query_batch_reports: "reports_bytes (query_encode_batch heap cache version q)"
  unfolding query_encode_batch_def Let_def
  by (cases "has_names_for_values q"; cases "length (st_elements q) > 0"; cases "version < 3"; cases "query_names q")
    (simp_all only: if_True if_False option.case refl simp_thms,
     (intro reports_intros reports_none reports_named_map reports_one; simp)+)

lemma reports_tail:
  "keeps_length g \<Longrightarrow> m = int n + int (length b + length (concat bufs)) \<Longrightarrow>
   reports_bytes (map_option (\<lambda>c. (m, b # bufs @ [c], None)) (fill n g))"
  using reports_last [of g m n "b # bufs"] by simp

lemma execute_v1_reports: "reports_bytes (execute_internal_encode_v1 heap cache h e)"
  unfolding execute_internal_encode_v1_def Let_def
  by (intro reports_intros reports_tail; simp)+

lemma execute_internal_reports: "reports_bytes (execute_internal_encode heap cache version h e)"
  unfolding execute_internal_encode_def Let_def
  by (cases "length (st_elements e) > 0")
    (simp_all only: if_True if_False option.case refl simp_thms, (intro reports_intros reports_none; simp)+)

lemma execute_encode_reports: "reports_bytes (execute_encode heap cache version h e)"
  by (simp add: execute_encode_def execute_v1_reports execute_internal_reports)

lemma execute_batch_reports: "reports_bytes (execute_encode_batch heap cache version e)"
  unfolding execute_encode_batch_def Let_def
  by (cases "length (st_elements e) > 0")
    (simp_all only: if_True if_False option.case refl simp_thms,
     (intro reports_intros reports_none reports_one; simp)+)

lemma any_batch_reports: "reports_bytes (any_encode_batch heap cache version s)"
  by (cases s) (simp_all add: any_encode_batch_def query_batch_reports execute_batch_reports)

lemma reports_statement:
  assumes "reports_bytes r" and "reports_bytes rest"
  shows "reports_bytes (case r of None \<Rightarrow> None
         | Some (n, bufs, err) \<Rightarrow>
             if n < 0 then Some (n, bufs, err)
             else map_option (\<lambda>(m, rest, err). (if m < 0 then m else n + m, bufs @ rest, err)) rest)"
  using assms by (auto simp: reports_bytes_def split: option.splits prod.splits if_splits)

lemma batch_statements_report: "reports_bytes (batch_encode_statements heap cache version ss)"
proof (induction ss)
  case (Cons s ss)
  then show ?case
    using reports_statement [OF any_batch_reports Cons.IH]
    by (simp add: reports_bytes_def [of "Some _"] ENCODE_ERROR_BATCH_WITH_NAMED_VALUES_def)
qed (simp add: reports_bytes_def)

lemma reports_framed:
  assumes "reports_bytes r" and "keeps_length f" and "int (length first) = k"
  shows "reports_bytes (case r of None \<Rightarrow> None
    | Some (n, bufs, err) \<Rightarrow>
        if n < 0 then Some (n, first # bufs, err)
        else map_option (\<lambda>last. (k + n + int m, first # bufs @ [last], None)) (fill m f))"
proof (cases r)
  case (Some p)
  obtain n bufs err where p: "p = (n, bufs, err)" by (cases p)
  show ?thesis
  proof (cases "n < 0")
    case True
    then show ?thesis using assms(1) Some p by (auto simp: reports_bytes_def)
  next
    case False
    have "n = int (length (concat bufs))" using assms(1) Some p False by (simp add: reports_bytes_def)
    then have "reports_bytes (map_option (\<lambda>last. (k + n + int m, (first # bufs) @ [last], None)) (fill m f))"
      using assms(3) by (intro reports_last [OF assms(2)]) simp
    then show ?thesis using Some p False by simp
  qed
qed (simp add: reports_none)

lemma batch_encode_reports: "reports_bytes (batch_encode heap cache version h b)"
proof (cases "version = 1")
  case False
  have "reports_bytes (batch_encode heap cache version h b)"
    unfolding batch_encode_def Let_def if_not_P [OF False]
    by (intro reports_fill reports_framed batch_statements_report keeps_intros keeps_if) simp
  then show ?thesis .
qed (simp add: batch_encode_def reports_bytes_def ENCODE_ERROR_UNSUPPORTED_PROTOCOL_def)


lemma payload_reports: "payload_encode items = Some r \<Longrightarrow> reports_length r \<and> 0 \<le> fst r"
  using keeps_fill [of "buf_encode_uint16 (of_nat (length items))" 2] keeps_basic
  by (auto simp: payload_encode_def reports_length_def length_concat comp_def)


definition paged_query :: "u32 \<Rightarrow> query_request" where
  "paged_query page_size = statement.extend
     (cass_statement_set_serial_consistency 8 (cass_statement_set_paging_size page_size
        (statement_base_new 0x07 CASS_BATCH_KIND_QUERY 0 [] [])))
     \<lparr>qr_query = [0x73], qr_names = (empty_memory, \<lparr>index_mask = 0, slots = [], entries_block = 0, entries_capacity = 0\<rparr>)\<rparr>"

lemma empty_batch: "batch_encode Map.empty Map.empty 2 handler_init (batch_request_new 0) = Some (5, [[0, 0, 0], [0, 10]], None)"
proof -
  have a: "writes (buf_then (buf_encode_byte 0) (buf_encode_uint16 0)) (encode_byte 0 @ encode_uint16 0)"
    and b: "writes (buf_then (buf_encode_uint16 0xA) (buf_then buf_skip (buf_then buf_skip buf_skip)))
      (encode_uint16 0xA @ [] @ [] @ [])"
    by (intro writes_seq writes_ints writes_skip)+
  show ?thesis
    using fill_writes [OF a, of 3] fill_writes [OF b, of "Suc (Suc 0)"]
    by (simp add: batch_encode_def batch_request_new_def request_new_def has_timestamp_def
        encode_byte_def encode_uint16_def)
qed


section \<open>Names of values\<close>

text \<open>The names of a query, in the order they were bound.\<close>

definition names_are :: "query_request \<Rightarrow> string list \<Rightarrow> bool" where
  "names_are q names \<longleftrightarrow>
     (\<exists>es. table_rep (fst (qr_names q)) (snd (qr_names q)) es \<and> map ent_name es = names)"

lemma names_are_query:
  assumes "names_are q names"
  obtains defs where "query_names q = Some defs" "length defs = length names"
  using assms by (auto simp: names_are_def query_names_def table_rep_def indexed_def)

lemma value_name_total:
  assumes "length name < 65536"
  obtains def where "value_name name = Some def" "ent_next def = None" "ent_name def = name"
proof -
  have "short_string (string_bytes name)" using assms by (simp add: short_string_def)
  from writes_string [OF this]
  have "fill (2 + length name) (buf_encode_string (string_bytes name) (of_nat (length name))) =
      Some (string_wire (string_bytes name))"
    by (intro fill_writes) (simp_all add: string_wire_def)
  then show ?thesis using that by (simp add: value_name_def new_entry_def)
qed

lemma named_flag: "has_names_for_values (set_has_names_for_values True q)"
  by (simp add: has_names_for_values_def set_has_names_for_values_def set_flag_def word_ao_absorbs
      CASS_QUERY_FLAG_NAMES_FOR_VALUES_def)

lemma set_flag_names [simp]:
  "qr_names (set_has_names_for_values on q) = qr_names q"
  "st_elements (set_has_names_for_values on q) = st_elements q"
  by (simp_all add: set_has_names_for_values_def set_flag_def)

lemma names_are_flag [simp]: "names_are (set_has_names_for_values on q) names = names_are q names"
  by (simp add: names_are_def)

lemma known_name:
  assumes "names_are q names" and "unquote quoted = Some (cs, name)" and "positions cs name names \<noteq> []"
  shows "query_get_indices quoted q = Some (positions cs name names, set_has_names_for_values True q)"
proof -
  obtain es where "table_rep (fst (qr_names q)) (snd (qr_names q)) es" "map ent_name es = names"
    using assms(1) by (auto simp: names_are_def)
  then have "get_indices (fst (qr_names q)) (snd (qr_names q)) quoted = Some (positions cs name names)"
    using lookup_rep [OF _ assms(2)] by blast
  then show ?thesis using assms(3) by (simp add: query_get_indices_def Let_def)
qed

lemma new_name:
  assumes "names_are q names" and "unquote quoted = Some (cs, name)" and "positions cs name names = []"
    and "length names < entries_capacity (snd (qr_names q))" and "length quoted < 65536"
    and "length names \<le> length (st_elements q)"
  obtains q' where "query_get_indices quoted q = Some ([length names], q')" "names_are q' (names @ [quoted])"
    "st_elements q' = st_elements q" "has_names_for_values q'"
    "entries_capacity (snd (qr_names q')) = entries_capacity (snd (qr_names q))"
proof -
  obtain es where es: "table_rep (fst (qr_names q)) (snd (qr_names q)) es" "map ent_name es = names"
    using assms(1) by (auto simp: names_are_def)
  then have look: "get_indices (fst (qr_names q)) (snd (qr_names q)) quoted = Some []"
    using lookup_rep [OF _ assms(2)] assms(3) by metis
  obtain def where def: "value_name quoted = Some def" "ent_next def = None" "ent_name def = quoted"
    using value_name_total [OF assms(5)] .
  have len: "length es = length names" using es(2) by auto
  then have "length es < entries_capacity (snd (qr_names q)) \<or>
      different_names es \<and> entries_capacity (snd (qr_names q)) \<le> 2 ^ 61" using assms(4) by simp
  from add_rep [OF es(1) def(2) this] len assms(4) obtain mem t es' where
    a: "add def (fst (qr_names q)) (snd (qr_names q)) = Some (mem, t)" "table_rep mem t es'"
      "map ent_name es' = map ent_name es @ [ent_name def]" "entries_capacity t = entries_capacity (snd (qr_names q))"
    by metis
  obtain defs where defs: "query_names q = Some defs" "length defs = length names"
    using names_are_query [OF assms(1)] .
  let ?q = "(set_has_names_for_values True q)\<lparr>qr_names := (mem, t)\<rparr>"
  have "query_get_indices quoted q = Some ([length names], ?q)"
    using look defs def(1) a(1) assms(6) by (simp add: query_get_indices_def Let_def query_names_def)
  moreover have "names_are ?q (names @ [quoted])" using a(2,3) es(2) def(3) by (auto simp: names_are_def)
  moreover have "has_names_for_values ?q" using named_flag [of q] by (simp add: has_names_for_values_def)
  ultimately show ?thesis using that a(4) by simp
qed

lemma names_past_elements: "length es < length defs \<Longrightarrow> copy_buffers_with_names heap cache version defs es = None"
  by (induction heap cache version defs es rule: copy_buffers_with_names.induct) (auto split: option.splits)

lemma none_anyway: "(case x of None \<Rightarrow> None | Some b \<Rightarrow> None) = None"
  by (cases x) simp_all

lemma too_many_names_fail:
  assumes "has_names_for_values q" and "names_are q names" and "length (st_elements q) < length names" and "3 \<le> version"
  shows "query_encode heap cache version h q = None"
proof -
  obtain defs where "query_names q = Some defs" "length defs = length names"
    using names_are_query [OF assms(2)] .
  then show ?thesis using assms names_past_elements [of "st_elements q" defs heap cache version]
    by (simp add: query_encode_def query_internal_encode_def Let_def none_anyway cong: option.case_cong)
qed

text \<open>C38: binding one distinct name more than a query has parameters is refused as out of bounds, but the
  name has been added to the statement: with the values it had the statement can no longer be
  encoded, it reads behind the end of its elements.\<close>

theorem extra_name_blocks_statement:
  assumes "names_are q names" and "unquote quoted = Some (cs, name)" and "positions cs name names = []"
    and "length names < entries_capacity (snd (qr_names q))" and "length quoted < 65536"
    and "length names = length (st_elements q)" and "3 \<le> version"
  shows "\<exists>q'. query_set_by_name quoted value heap q = Some (Some CASS_ERROR_LIB_INDEX_OUT_OF_BOUNDS, heap, q') \<and>
    st_elements q' = st_elements q \<and> query_encode heap' cache version h q' = None"
proof -
  obtain q' where q': "query_get_indices quoted q = Some ([length names], q')" "names_are q' (names @ [quoted])"
      "st_elements q' = st_elements q" "has_names_for_values q'"
    using new_name [OF assms(1-5)] assms(6) by (metis order_refl)
  have "query_set_by_name quoted value heap q = Some (Some CASS_ERROR_LIB_INDEX_OUT_OF_BOUNDS, heap, q')"
    using q'(1,3) assms(6) by (simp add: query_set_by_name_def data_set_def data_check_def)
  moreover have "query_encode heap' cache version h q' = None"
    using too_many_names_fail [OF q'(4,2)] q'(3) assms(6,7) by simp
  ultimately show ?thesis using q'(3) by blast
qed

theorem extra_name_blocks_statement_witness:
  "\<exists>q q'. query_request_new [0x73] 0 = Some q \<and>
     query_set_by_name ''a'' Bind_null Map.empty q = Some (Some CASS_ERROR_LIB_INDEX_OUT_OF_BOUNDS, Map.empty, q') \<and>
     query_encode Map.empty Map.empty 4 handler_init q' = None"
proof -
  obtain mem t where t: "table_with_capacity 0 (empty_memory :: buffer memory) = Some (mem, t)" "table_rep mem t []" "entries_capacity t = 16"
    using table_with_capacity_rep [of 0 empty_memory] by auto
  then obtain q where q: "query_request_new [0x73] 0 = Some q" "qr_names q = (mem, t)" "st_elements q = []"
    by (auto simp: query_request_new_def statement_base_new_def statement.defs)
  then have "names_are q []" using t(2) by (simp add: names_are_def)
  from extra_name_blocks_statement [OF this, of "''a''" False "''a''" 4 Bind_null Map.empty Map.empty Map.empty]
  show ?thesis using q t(3) by (auto simp: unquote_def quote_char_def positions_def)
qed


text \<open>a name that is bound again sets the value it had, but only without quotes: a name in double
  quotes is stored with its quotes and looked up without them, so each binding of it takes the next
  place of the statement.\<close>

theorem name_bound_twice:
  assumes "names_are q names" and "unquote quoted = Some (cs, name)" and "positions cs name names = []"
    and "Suc (length names) < entries_capacity (snd (qr_names q))" and "length quoted < 65536"
    and "Suc (length names) \<le> length (st_elements q)"
  shows "\<exists>q1 q2. query_get_indices quoted q = Some ([length names], q1) \<and>
    query_get_indices quoted q1 = Some ([if cs then Suc (length names) else length names], q2)"
proof -
  obtain q1 where q1: "query_get_indices quoted q = Some ([length names], q1)" "names_are q1 (names @ [quoted])"
      "st_elements q1 = st_elements q" "entries_capacity (snd (qr_names q1)) = entries_capacity (snd (qr_names q))"
    using new_name [OF assms(1-3) _ assms(5)] assms(4,6) by (metis Suc_leD Suc_lessD)
  have pos: "positions cs name (names @ [quoted]) = (if cs then [] else [length names])"
  proof (cases cs)
    case True
    have "length name < length quoted" using assms(2) True
      by (auto simp: unquote_def string_substr_def split: if_splits)
    then show ?thesis using True assms(3) by (auto simp: positions_def filter_empty_conv nth_append)
  next
    case False
    then have "name = quoted" using assms(2) by (auto simp: unquote_def split: if_splits option.splits)
    then show ?thesis using False assms(3)
      by (auto simp: positions_def filter_empty_conv nth_append iequals_iff)
  qed
  show ?thesis
  proof (cases cs)
    case True
    then have "positions cs name (names @ [quoted]) = []" using pos by simp
    from new_name [OF q1(2) assms(2) this _ assms(5)] obtain q2 where
      "query_get_indices quoted q1 = Some ([length (names @ [quoted])], q2)"
      using q1(3,4) assms(4,6) by auto
    then show ?thesis using q1(1) True by auto
  next
    case False
    then have "positions cs name (names @ [quoted]) \<noteq> []" using pos by simp
    from known_name [OF q1(2) assms(2) this] show ?thesis using q1(1) False pos by auto
  qed
qed

theorem name_bound_twice_witness:
  "\<exists>q q1 q2. query_request_new [0x73] 2 = Some q \<and>
     query_get_indices (quote_char # ''a'' @ [quote_char]) q = Some ([0], q1) \<and>
     query_get_indices (quote_char # ''a'' @ [quote_char]) q1 = Some ([1], q2)"
proof -
  obtain mem t where t: "table_with_capacity 2 (empty_memory :: buffer memory) = Some (mem, t)" "table_rep mem t []"
      "entries_capacity t = 16"
    using table_with_capacity_rep [of 2 empty_memory] by auto
  then obtain q where q: "query_request_new [0x73] 2 = Some q" "qr_names q = (mem, t)"
      "st_elements q = [Elem_unset, Elem_unset]"
    by (auto simp: query_request_new_def statement_base_new_def statement.defs numeral_2_eq_2)
  then have "names_are q []" using t(2) by (simp add: names_are_def)
  from name_bound_twice [OF this, of "quote_char # ''a'' @ [quote_char]" True "''a''"]
  show ?thesis using q t(3) by (auto simp: unquote_def string_substr_def positions_def)
qed

section \<open>The page size\<close>

lemma fill_overflow: "writes f xs \<Longrightarrow> n < length xs \<Longrightarrow> fill n f = None"
  by (simp add: fill_def writes_def)

lemma writes_paging:
  assumes "length (st_paging_state st) < 2147483648"
  shows "\<exists>xs. writes (paging_rest version h st) xs \<and> length xs = paging_rest_size version h st"
proof -
  define a b c where
    "a = (if st_paging_state st \<noteq> [] then long_string_wire (st_paging_state st) else [])"
    "b = (if rq_serial_consistency (st_request st) \<noteq> 0 then encode_uint16 (rq_serial_consistency (st_request st)) else [])"
    "c = (if has_timestamp version h then encode_int64 (word_of_int (h_timestamp h)) else [])"
  have "writes (paging_rest version h st) (a @ b @ c)"
    unfolding paging_rest_def a_b_c_def
    by (intro writes_seq) (simp_all add: writes_bytes assms writes_skip writes_ints)
  moreover have "length (a @ b @ c) = paging_rest_size version h st"
    by (simp add: a_b_c_def paging_rest_size_def long_string_wire_def)
  ultimately show ?thesis by blast
qed

lemma paging_buffer:
  assumes "sint (st_page_size q) \<ge> 0" and "length (st_paging_state q) < 2147483648"
  shows "fill ((if sint (st_page_size q) > 0 then 4 else 0) + paging_rest_size version h q)
      (buf_then (buf_encode_int32 (st_page_size q)) (paging_rest version h q)) = None \<longleftrightarrow> sint (st_page_size q) = 0"
proof -
  obtain xs where xs: "writes (paging_rest version h q) xs" "length xs = paging_rest_size version h q"
    using writes_paging [OF assms(2)] by blast
  have w: "writes (buf_then (buf_encode_int32 (st_page_size q)) (paging_rest version h q)) (encode_int32 (st_page_size q) @ xs)"
    by (rule writes_seq [OF writes_ints(5) xs(1)])
  have len: "length (encode_int32 (st_page_size q) @ xs) = 4 + paging_rest_size version h q" using xs(2) by simp
  show ?thesis
  proof (cases "sint (st_page_size q) = 0")
    case True
    then show ?thesis using fill_overflow [OF w] len by simp
  next
    case False
    then show ?thesis using fill_writes [OF w, of "4 + paging_rest_size version h q"] len assms(1) by simp
  qed
qed

text \<open>a page size of zero makes a query that has a paging state, a serial consistency or a timestamp
  overrun the buffer of its paging fields, because the page size is written but not counted: such a
  query is never encoded. A page size above zero is.\<close>

theorem zero_page_size_overruns:
  assumes "sint (st_page_size q) \<ge> 0" and "length (st_paging_state q) < 2147483648"
    and "0 < paging_rest_size version h q" and "length (qr_query q) < 2147483648"
    and "\<not> has_names_for_values q" and "st_elements q = []" and "2 \<le> version"
  shows "query_encode heap cache version h q = None \<longleftrightarrow> sint (st_page_size q) = 0"
proof -
  let ?f = "buf_then (buf_encode_long_string (qr_query q) (of_nat (length (qr_query q))))
    (buf_then (buf_encode_uint16 (statement_consistency h q))
      (buf_encode_byte (request_flags (sint (st_page_size q) > 0) version h q)))"
  have w: "writes ?f (long_string_wire (qr_query q) @ encode_uint16 (statement_consistency h q) @
      encode_byte (request_flags (sint (st_page_size q) > 0) version h q))"
    by (intro writes_seq writes_long_string writes_ints assms(4))
  obtain b where "fill (4 + length (qr_query q) + 2 + 1) ?f = Some b"
    using fill_writes [OF w, of "4 + length (qr_query q) + 2 + 1"] by (auto simp: long_string_wire_def)
  then have "query_encode heap cache version h q =
      append_paging ((if sint (st_page_size q) > 0 then 4 else 0) + paging_rest_size version h q)
        (buf_then (buf_encode_int32 (st_page_size q)) (paging_rest version h q))
        (int (4 + length (qr_query q) + 2 + 1)) [b]"
    using assms(1,5-7) unfolding query_encode_def query_internal_encode_def Let_def by simp
  then show ?thesis using paging_buffer [OF assms(1,2), of version h] assms(3) by (simp add: append_paging_def)
qed

theorem zero_page_size_overruns_witness:
  "query_encode Map.empty Map.empty 2 handler_init (paged_query 0) = None \<and>
   query_encode Map.empty Map.empty 2 handler_init (paged_query 100) \<noteq> None"
  using zero_page_size_overruns [of "paged_query 0" 2 handler_init Map.empty Map.empty]
    zero_page_size_overruns [of "paged_query 100" 2 handler_init Map.empty Map.empty]
  by (simp add: paged_query_def statement.defs statement_base_new_def cass_statement_set_serial_consistency_def
      cass_statement_set_paging_size_def request_new_def has_names_for_values_def paging_rest_size_def)


section \<open>Batches find what they prepared\<close>

definition batch_of :: "byte \<Rightarrow> any_statement list \<Rightarrow> batch_request" where
  "batch_of type ss = foldl (\<lambda>b s. add_statement s b) (batch_request_new type) ss"

fun executions :: "bytes \<Rightarrow> any_statement list \<Rightarrow> execute_request list" where
  "executions prepared_id [] = []"
| "executions prepared_id (Query_statement q # ss) = executions prepared_id ss"
| "executions prepared_id (Execute_statement e # ss) =
     (if pr_id (er_prepared e) = prepared_id then [e] else []) @ executions prepared_id ss"

lemma executions_append: "executions i (ss @ ts) = executions i ss @ executions i ts"
  by (induction i ss rule: executions.induct) simp_all

lemma batch_of_snoc: "batch_of type (ss @ [s]) = add_statement s (batch_of type ss)"
  by (simp add: batch_of_def)

lemma batch_of_inv: "map_inv (bt_prepared (batch_of type ss)) \<and> bt_statements (batch_of type ss) = ss"
proof (induction ss rule: rev_induct)
  case (snoc s ss)
  then show ?case by (cases s) (simp_all add: batch_of_snoc add_statement_def map_inv_assign)
qed (simp add: batch_of_def batch_request_new_def map_nil)

text \<open>a batch keeps its statements in the order they were added, and when the server does not know a
  prepared statement of it, the batch has the query to prepare again: that of the last statement that
  executes it, and none exactly for an id that no statement of the batch executes.\<close>

theorem batch_prepared_found:
  "bt_statements (batch_of type ss) = ss \<and>
   prepared_statement prepared_id (batch_of type ss) =
     (case rev (executions prepared_id ss) of [] \<Rightarrow> None | e # _ \<Rightarrow> Some (pr_statement (er_prepared e)))"
proof (induction ss rule: rev_induct)
  case (snoc s ss)
  then show ?case using batch_of_inv [of type ss]
    by (cases s) (simp_all add: batch_of_snoc add_statement_def prepared_statement_def executions_append map_find_assign)
qed (simp add: batch_of_def batch_request_new_def prepared_statement_def map_nil)

section \<open>The routing key of the statement\<close>

text \<open>
  The values of the elements as the replicas see them. A set element holds a value with its length in
  front, and the cache of the request has the encodings at the highest version.
\<close>

definition stands_for :: "collections \<Rightarrow> element \<Rightarrow> bytes option \<Rightarrow> bool" where
  "stands_for heap e f \<longleftrightarrow>
     (case e of Elem_unset \<Rightarrow> f = None | Elem_null b \<Rightarrow> f = None
      | Elem_buffer b \<Rightarrow> (if b = [] then f = None else f \<noteq> None \<and> b = frame_wire f)
      | Elem_collection a \<Rightarrow>
          (case heap a of None \<Rightarrow> False
           | Some c \<Rightarrow> f = Some (collection_bytes CASS_HIGHEST_SUPPORTED_PROTOCOL_VERSION c)))"

definition cache_holds :: "collections \<Rightarrow> encoding_cache \<Rightarrow> bool" where
  "cache_holds heap cache \<longleftrightarrow> (\<forall>a c b. heap a = Some c \<longrightarrow> cache a = Some b \<longrightarrow>
     b = frame_wire (Some (collection_bytes CASS_HIGHEST_SUPPORTED_PROTOCOL_VERSION c)))"

definition composite_part :: "bytes \<Rightarrow> bytes" where
  "composite_part v = encode_uint16 (of_nat (length v)) @ v @ [0]"

lemma stands_for_set: "stands_for heap e f \<Longrightarrow> f = None \<longleftrightarrow> is_unset e \<or> is_null_element e"
  by (auto simp: stands_for_def is_unset_def is_null_element_def split: element.splits option.splits if_splits)

lemma frame_wire_parts: "length (frame_wire (Some v)) = 4 + length v" "drop 4 (frame_wire (Some v)) = v"
  by (simp_all add: frame_wire_def long_string_wire_def)

lemma cached_value:
  assumes "stands_for heap e (Some v)" and "cache_holds heap cache"
  obtains cache' where "get_buffer_cached heap CASS_HIGHEST_SUPPORTED_PROTOCOL_VERSION True e cache =
      Some (frame_wire (Some v), cache')" "cache_holds heap cache'"
proof (cases e)
  case (Elem_collection a)
  then obtain c where c: "heap a = Some c" "v = collection_bytes CASS_HIGHEST_SUPPORTED_PROTOCOL_VERSION c"
    using assms(1) by (auto simp: stands_for_def split: option.splits)
  show ?thesis
  proof (cases "cache a")
    case None
    have "cache_holds heap (cache(a \<mapsto> frame_wire (Some v)))"
      using assms(2) c unfolding cache_holds_def by simp
    then show ?thesis using that None c Elem_collection
      by (simp add: get_buffer_cached_def collection_encode_with_length_bytes)
  next
    case (Some b)
    then have "b = frame_wire (Some v)" using assms(2) c unfolding cache_holds_def by blast
    then show ?thesis using that Some c Elem_collection assms(2) by (simp add: get_buffer_cached_def)
  qed
qed (use assms that in \<open>auto simp: stands_for_def get_buffer_cached_def split: if_splits\<close>)

lemma stands_for_size: "stands_for heap e (Some v) \<Longrightarrow> get_size heap version e \<noteq> None"
  by (auto simp: stands_for_def get_size_def split: element.splits option.splits if_splits)

lemma key_elements_values:
  assumes "list_all2 (stands_for heap) es fs" and "list_all (\<lambda>i. i < length fs) is"
  shows "key_elements_set heap es is = Some (list_all (\<lambda>i. fs ! i \<noteq> None) is)"
  using assms(2)
proof (induction "is")
  case (Cons i "is")
  then have i: "i < length es" "stands_for heap (es ! i) (fs ! i)"
    using assms(1) by (auto simp: list_all2_conv_all_nth)
  show ?case
  proof (cases "fs ! i")
    case None
    then show ?thesis using i stands_for_set [OF i(2)] by simp
  next
    case (Some v)
    then have "get_size heap CASS_HIGHEST_SUPPORTED_PROTOCOL_VERSION (es ! i) \<noteq> None"
      using i(2) stands_for_size by metis
    then show ?thesis using i stands_for_set [OF i(2)] Some Cons by simp
  qed
qed simp

lemma routing_parts_values:
  assumes "list_all2 (stands_for heap) es fs" and "list_all (\<lambda>i. i < length fs \<and> fs ! i \<noteq> None) is"
    and "cache_holds heap cache"
  shows "\<exists>cache'. routing_key_parts heap es cache is =
      Some (concat (map (\<lambda>i. composite_part (the (fs ! i))) is), cache') \<and> cache_holds heap cache'"
  using assms(2,3)
proof (induction "is" arbitrary: cache)
  case (Cons i "is")
  then obtain v where v: "fs ! i = Some v" by auto
  have i: "i < length es" "stands_for heap (es ! i) (Some v)"
    using assms(1) Cons.prems(1) v by (auto simp: list_all2_conv_all_nth)
  obtain c1 where c1: "get_buffer_cached heap CASS_HIGHEST_SUPPORTED_PROTOCOL_VERSION True (es ! i) cache =
      Some (frame_wire (Some v), c1)" "cache_holds heap c1"
    using cached_value [OF i(2) Cons.prems(2)] .
  have "list_all (\<lambda>i. i < length fs \<and> fs ! i \<noteq> None) is" using Cons.prems(1) by simp
  from Cons.IH [OF this c1(2)] obtain c2 where
    "routing_key_parts heap es c1 is = Some (concat (map (\<lambda>i. composite_part (the (fs ! i))) is), c2)"
    "cache_holds heap c2" by blast
  then show ?case using i(1) c1(1) v by (simp add: frame_wire_parts composite_part_def)
qed simp

lemma routing_key_single:
  assumes "stands_for heap (st_elements st ! i) f" and "i < length (st_elements st)" and "st_key_indices st = [i]"
    and "cache_holds heap cache"
  shows "\<exists>cache'. cache_holds heap cache' \<and> statement_get_routing_key heap cache st = Some (f, cache')"
proof (cases f)
  case None
  then show ?thesis using assms stands_for_set [OF assms(1)]
    by (auto simp: statement_get_routing_key_def Let_def)
next
  case (Some v)
  obtain c where c: "get_buffer_cached heap CASS_HIGHEST_SUPPORTED_PROTOCOL_VERSION True (st_elements st ! i) cache =
      Some (frame_wire (Some v), c)" "cache_holds heap c"
    using cached_value [OF assms(1) [unfolded Some] assms(4)] .
  have "statement_get_routing_key heap cache st = Some (Some v, c)"
    using assms(2,3) stands_for_set [OF assms(1)] Some c(1)
    by (simp add: statement_get_routing_key_def Let_def frame_wire_parts)
  then show ?thesis using Some c(2) by blast
qed

lemma routing_key_several:
  assumes "list_all2 (stands_for heap) (st_elements st) fs" and "cache_holds heap cache"
    and "list_all (\<lambda>i. i < length fs) (st_key_indices st)" and "st_key_indices st = i # j # is"
  shows "\<exists>cache'. cache_holds heap cache' \<and> statement_get_routing_key heap cache st =
    Some (if list_all (\<lambda>i. fs ! i \<noteq> None) (st_key_indices st)
          then Some (concat (map (\<lambda>i. composite_part (the (fs ! i))) (st_key_indices st))) else None, cache')"
proof -
  let ?is = "st_key_indices st"
  have set: "key_elements_set heap (st_elements st) ?is = Some (list_all (\<lambda>i. fs ! i \<noteq> None) ?is)"
    by (rule key_elements_values [OF assms(1,3)])
  have key: "statement_get_routing_key heap cache st =
      (if list_all (\<lambda>i. fs ! i \<noteq> None) ?is
       then map_option (\<lambda>(key, cache). (Some key, cache)) (routing_key_parts heap (st_elements st) cache ?is)
       else Some (None, cache))"
    using set unfolding statement_get_routing_key_def Let_def assms(4)
    by (cases "list_all (\<lambda>i. fs ! i \<noteq> None) (i # j # is)")
      (simp_all only: list.case option.case bool.case if_True if_False)
  show ?thesis
  proof (cases "list_all (\<lambda>i. fs ! i \<noteq> None) ?is")
    case True
    then have "list_all (\<lambda>i. i < length fs \<and> fs ! i \<noteq> None) ?is" using assms(3) by (simp add: list_all_iff)
    from routing_parts_values [OF assms(1) this assms(2)] obtain c where
      c: "routing_key_parts heap (st_elements st) cache ?is =
        Some (concat (map (\<lambda>i. composite_part (the (fs ! i))) ?is), c)" "cache_holds heap c" by blast
    then show ?thesis unfolding key c(1) using True by simp
  qed (use key assms(2) in auto)
qed

text \<open>C17: the routing key of a statement is the key the replicas compute: the bytes of the value when one
  column is the partition key, the composite of all values with their lengths when several are, and
  none when there is no partition key or a part of it has no value; whatever encodings the request
  has cached, it keeps the right ones.\<close>

theorem routing_key_of_values:
  assumes "list_all2 (stands_for heap) (st_elements st) fs" and "cache_holds heap cache"
    and "list_all (\<lambda>i. i < length fs) (st_key_indices st)"
  shows "\<exists>cache'. cache_holds heap cache' \<and> statement_get_routing_key heap cache st =
    Some (if st_key_indices st = [] \<or> list_ex (\<lambda>i. fs ! i = None) (st_key_indices st) then None
          else if length (st_key_indices st) = 1 then fs ! hd (st_key_indices st)
          else Some (concat (map (\<lambda>i. composite_part (the (fs ! i))) (st_key_indices st))), cache')"
proof -
  let ?is = "st_key_indices st"
  consider "?is = []" | i where "?is = [i]" | i j "is" where "?is = i # j # is"
    by (cases ?is rule: list.exhaust) (auto, metis list.exhaust)
  then show ?thesis
  proof cases
    case 1
    then show ?thesis using assms(2) by (auto simp: statement_get_routing_key_def Let_def)
  next
    case (2 i)
    then have "stands_for heap (st_elements st ! i) (fs ! i)" "i < length (st_elements st)"
      using assms(1,3) by (auto simp: list_all2_conv_all_nth)
    from routing_key_single [OF this 2 assms(2)] show ?thesis using 2 by auto
  next
    case (3 i j "is")
    have "list_ex (\<lambda>i. fs ! i = None) ?is \<longleftrightarrow> \<not> list_all (\<lambda>i. fs ! i \<noteq> None) ?is"
      by (simp add: list_ex_iff list_all_iff)
    moreover have "?is \<noteq> []" "length ?is \<noteq> 1" using 3 by simp_all
    ultimately show ?thesis using routing_key_several [OF assms 3]
      by (cases "list_all (\<lambda>i. fs ! i \<noteq> None) ?is") simp_all
  qed
qed

definition keyed_statement :: statement where
  "keyed_statement = (statement_base_new 0x0A CASS_BATCH_KIND_PREPARED 2 [1, 0] [])
     \<lparr>st_elements := [Elem_buffer [0, 0, 0, 1, 7], Elem_buffer [0, 0, 0, 2, 8, 9]]\<rparr>"

theorem routing_key_of_values_witness:
  "\<exists>cache'. cache_holds Map.empty cache' \<and>
     statement_get_routing_key Map.empty Map.empty keyed_statement = Some (Some [0, 2, 8, 9, 0, 0, 1, 7, 0], cache')"
  using routing_key_of_values [of Map.empty keyed_statement "[Some [7], Some [8, 9]]" Map.empty]
  by (simp add: keyed_statement_def statement_base_new_def stands_for_def cache_holds_def frame_wire_def
      long_string_wire_def composite_part_def encode_int32_def encode_uint16_def)

end
