(* ===== verification/Image_Service.thy ===== *)
theory Image_Service
  imports Statement Replication "HOL-Library.Monad_Syntax"
begin

text \<open>
  The image service (\<open>src/img2web.cpp\<close>, \<open>src/cassandra_db.cpp\<close>): four handlers of the fastcgi
  daemon on top of a client of the driver. The daemon gives a handler the arguments of the request
  and takes the status, the content type and the body. The server is the parameter \<open>exec\<close>: it takes
  the statement that \<open>cass_session_execute\<close> is given and returns the new state of the database with
  the error of the future or its result, as the driver decoded it (theory \<open>Result\<close>). \<open>None\<close> is a
  read of memory that is not there.
\<close>

section \<open>The client of the database\<close>

type_synonym ('db, 'e) server = "'db \<Rightarrow> query_request \<Rightarrow> 'db \<times> ('e + result_response)"

record image_description =
  posted_by :: string
  image :: string

definition ip_addr :: string where
  "ip_addr = ''127.0.0.1''"

text \<open>\<open>connect_to\<close> is the error of the future of \<open>cass_session_connect\<close> for the contact points.\<close>

definition client_connect :: "(string \<Rightarrow> 'e option) \<Rightarrow> string \<Rightarrow> 'e option" where
  "client_connect connect_to nodes = connect_to ip_addr"

definition execQuery :: "('db, 'e) server \<Rightarrow> string \<Rightarrow> 'db \<Rightarrow> ('db \<times> ('e + result_response)) option" where
  "execQuery exec query db = map_option (exec db) (query_request_new (string_bytes query) 0)"

definition apostrophe :: char where
  "apostrophe = CHR 0x27"

definition quoted :: "string \<Rightarrow> string" where
  "quoted s = apostrophe # s @ [apostrophe]"

text \<open>The loops build the strings by appending; \<open>quoted\<close> stands for \<open>"'" + s + "'"\<close>.\<close>

fun join_from :: "string list \<Rightarrow> string \<Rightarrow> string" where
  "join_from [] result = result"
| "join_from [v] result = result @ quoted v"
| "join_from (v # w # vs) result = join_from (w # vs) (result @ quoted v @ '','')"

definition JoinUsers :: "string list \<Rightarrow> string" where
  "JoinUsers v = join_from v ''('' @ '')''"

text \<open>
  \<open>std::string(str, len)\<close> of a column: the pointer and the length stay uninitialised when
  \<open>cass_value_get_string\<close> fails.
\<close>

definition value_string :: "cass_value option \<Rightarrow> string option" where
  "value_string v =
     (case cass_value_get_string v of
        Inl rc \<Rightarrow> None
      | Inr (data, len) \<Rightarrow> if len \<le> length data then Some (bytes_string (take len data)) else None)"

definition column_string :: "result_response \<Rightarrow> string \<Rightarrow> iterator \<Rightarrow> string option" where
  "column_string r name it =
     (case cass_iterator_get_row it of
        Some (Some row) \<Rightarrow> Option.bind (row_get_by_name r row name) value_string
      | _ \<Rightarrow> None)"

text \<open>The loop over the rows: \<open>item\<close> makes what is pushed to the vector.\<close>

partial_function (option) rows_loop :: "(iterator \<Rightarrow> 'a option) \<Rightarrow> iterator \<Rightarrow> 'a list \<Rightarrow> 'a list option" where
  "rows_loop item rows v =
     Option.bind (cass_iterator_next rows) (\<lambda>(more, rows).
       if \<not> more then Some v
       else Option.bind (item rows) (\<lambda>x. rows_loop item rows (v @ [x])))"

declare rows_loop.simps [code]

definition subscriptions_query :: "string \<Rightarrow> bool \<Rightarrow> string" where
  "subscriptions_query login to =
     (let first = (if to then ''login_from'' else ''login_to'');
          scd = (if to then ''login_to'' else ''login_from'')
      in ''SELECT '' @ first @ '' FROM img2web.subscriptions'' @ ''  WHERE '' @ scd @ '' = '' @ quoted login @ '';'')"

definition getSubscriptionsCommon ::
    "('db, 'e) server \<Rightarrow> string \<Rightarrow> bool \<Rightarrow> string list \<Rightarrow> 'db \<Rightarrow> ('db \<times> 'e option \<times> string list) option" where
  "getSubscriptionsCommon exec login to v db =
     Option.bind (execQuery exec (subscriptions_query login to) db) (\<lambda>(db, answer).
       case answer of
         Inl rc \<Rightarrow> Some (db, Some rc, v)
       | Inr result \<Rightarrow>
           map_option (\<lambda>v. (db, None, v))
             (rows_loop (column_string result (if to then ''login_from'' else ''login_to''))
               (cass_iterator_from_result result) v))"

definition getUsers :: "('db, 'e) server \<Rightarrow> string list \<Rightarrow> 'db \<Rightarrow> ('db \<times> 'e option \<times> string list) option" where
  "getUsers exec v db =
     Option.bind (execQuery exec ''SELECT login FROM img2web.users;'' db) (\<lambda>(db, answer).
       case answer of
         Inl rc \<Rightarrow> Some (db, Some rc, v)
       | Inr result \<Rightarrow>
           map_option (\<lambda>v. (db, None, v))
             (rows_loop (column_string result ''login'') (cass_iterator_from_result result) v))"

definition feed_query :: "string list \<Rightarrow> nat \<Rightarrow> string" where
  "feed_query subscriptions limit =
     ''SELECT * from img2web.images WHERE login IN '' @ JoinUsers subscriptions @
     '' ORDER BY ts DESC LIMIT '' @ show_nat limit @ '';''"

definition description :: "result_response \<Rightarrow> iterator \<Rightarrow> image_description option" where
  "description r it =
     Option.bind (column_string r ''login'' it) (\<lambda>name.
       map_option (\<lambda>img. \<lparr>posted_by = name, image = img\<rparr>) (column_string r ''img'' it))"

definition getFeed ::
    "('db, 'e) server \<Rightarrow> string \<Rightarrow> nat \<Rightarrow> image_description list \<Rightarrow> 'db \<Rightarrow>
     ('db \<times> 'e option \<times> image_description list) option" where
  "getFeed exec login limit desc db =
     Option.bind (getSubscriptionsCommon exec login False [] db) (\<lambda>(db, rc, subscriptions).
       if rc \<noteq> None then Some (db, rc, desc)
       else
         Option.bind (execQuery exec (feed_query subscriptions limit) db) (\<lambda>(db, answer).
           case answer of
             Inl rc \<Rightarrow> Some (db, Some rc, desc)
           | Inr result \<Rightarrow>
               map_option (\<lambda>desc. (db, None, desc))
                 (rows_loop (description result) (cass_iterator_from_result result) desc)))"

definition image_query :: "string \<Rightarrow> string \<Rightarrow> string" where
  "image_query login base64 =
     ''INSERT INTO img2web.images (login, ts, img) VALUES ('' @ quoted login @ '', now(),'' @ quoted base64 @ '');''"

definition query_error :: "('e + result_response) \<Rightarrow> 'e option" where
  "query_error answer = (case answer of Inl rc \<Rightarrow> Some rc | Inr result \<Rightarrow> None)"

definition postImage :: "('db, 'e) server \<Rightarrow> string \<Rightarrow> string \<Rightarrow> 'db \<Rightarrow> ('db \<times> 'e option) option" where
  "postImage exec login base64 db = map_option (apsnd query_error) (execQuery exec (image_query login base64) db)"

definition user_query :: "string \<Rightarrow> string" where
  "user_query login = ''insert into img2web.users (login) VALUES ('' @ quoted login @ '');''"

definition subscribe_query :: "string \<Rightarrow> string \<Rightarrow> string" where
  "subscribe_query login to =
     ''insert into img2web.subscriptions (login_from, '' @ ''login_to) VALUES ('' @ quoted login @ '','' @ quoted to @ '');''"

text \<open>The errors of the two queries are not looked at.\<close>

definition RegisterSelf :: "('db, 'e) server \<Rightarrow> string \<Rightarrow> 'db \<Rightarrow> 'db option" where
  "RegisterSelf exec login db =
     Option.bind (execQuery exec (user_query login) db) (\<lambda>(db, answer).
       map_option fst (execQuery exec (subscribe_query login login) db))"

section \<open>The handlers\<close>

type_synonym request_args = "string \<Rightarrow> string option"

text \<open>What a handler did to the request: the status where it set one, the content type, what it wrote.\<close>

record http_response =
  http_status :: "nat option"
  http_content_type :: "string option"
  http_body :: string

definition untouched :: http_response where
  "untouched = \<lparr>http_status = None, http_content_type = None, http_body = []\<rparr>"

definition not_found :: http_response where
  "not_found = untouched\<lparr>http_status := Some 404\<rparr>"

definition answered :: "string \<Rightarrow> string \<Rightarrow> http_response" where
  "answered content_type body = untouched\<lparr>http_content_type := Some content_type, http_body := body\<rparr>"

definition ShowUsers :: "('db, 'e) server \<Rightarrow> request_args \<Rightarrow> 'db \<Rightarrow> ('db \<times> http_response) option" where
  "ShowUsers exec args db =
     map_option (\<lambda>(db, rc, v). (db, if rc \<noteq> None then not_found else answered ''text/plain'' (JoinUsers v)))
       (getUsers exec [] db)"

definition PostImage :: "('db, 'e) server \<Rightarrow> request_args \<Rightarrow> 'db \<Rightarrow> ('db \<times> http_response) option" where
  "PostImage exec args db =
     (case (args ''login'', args ''image'') of
        (Some login, Some img) \<Rightarrow>
          Option.bind (RegisterSelf exec login db) (\<lambda>db.
            map_option (\<lambda>(db, rc). (db, if rc \<noteq> None then not_found else answered ''text/plain'' ''POST!''))
              (postImage exec login img db))
      | _ \<Rightarrow> Some (db, not_found))"

text \<open>
  \<open>stream >> top\<close>: a string of spaces leaves the variable as it is; else the number is read as by
  \<open>strtoul\<close>, and is 0 when there is none. Errors set a flag of the stream, nothing is thrown.
\<close>

definition extract_size :: "string \<Rightarrow> nat \<Rightarrow> nat" where
  "extract_size s current = (if dropWhile isspace s = [] then current else strtoul10 s)"

definition feed_item :: "image_description \<Rightarrow> string" where
  "feed_item item = ''{\"owner\":\"'' @ posted_by item @ ''\", \"image\": \"'' @ image item @ ''\"}''"

fun feed_items_from :: "image_description list \<Rightarrow> string \<Rightarrow> string" where
  "feed_items_from [] res = res"
| "feed_items_from [item] res = res @ feed_item item"
| "feed_items_from (item # next # items) res = feed_items_from (next # items) (res @ feed_item item @ '','')"

definition feed_document :: "image_description list \<Rightarrow> string" where
  "feed_document desc = feed_items_from desc ''{ \"items\" : ['' @ '' ] }''"

definition GetFeed :: "('db, 'e) server \<Rightarrow> request_args \<Rightarrow> 'db \<Rightarrow> ('db \<times> http_response) option" where
  "GetFeed exec args db =
     (case args ''login'' of
        None \<Rightarrow> Some (db, not_found)
      | Some login \<Rightarrow>
          (let limit = (case args ''top'' of None \<Rightarrow> 10 | Some s \<Rightarrow> extract_size s 10) in
           Option.bind (RegisterSelf exec login db) (\<lambda>db.
             map_option (\<lambda>(db, rc, desc).
                 (db, if rc \<noteq> None then not_found else answered ''application/json'' (feed_document desc)))
               (getFeed exec login limit [] db))))"

text \<open>A request without its arguments is returned as it came.\<close>

definition SubscribeTo :: "('db, 'e) server \<Rightarrow> request_args \<Rightarrow> 'db \<Rightarrow> ('db \<times> http_response) option" where
  "SubscribeTo exec args db =
     (case (args ''login'', args ''to'') of
        (Some login, Some to) \<Rightarrow>
          Option.bind (RegisterSelf exec login db) (\<lambda>db.
            map_option (\<lambda>(db, answer).
                (db, if query_error answer \<noteq> None then not_found else answered ''text/plain'' ''SUBSCRIBED!''))
              (execQuery exec (subscribe_query login to) db))
      | _ \<Rightarrow> Some (db, untouched))"


section \<open>What the loops build\<close>

fun separated :: "string \<Rightarrow> string list \<Rightarrow> string" where
  "separated sep [] = []"
| "separated sep [x] = x"
| "separated sep (x # y # xs) = x @ sep @ separated sep (y # xs)"

lemma join_separated: "join_from v res = res @ separated '','' (map quoted v)"
  by (induction v res rule: join_from.induct) simp_all

lemma feed_separated: "feed_items_from items res = res @ separated '','' (map feed_item items)"
  by (induction items res rule: feed_items_from.induct) simp_all

lemma JoinUsers_separated: "JoinUsers v = ''('' @ separated '','' (map quoted v) @ '')''"
  by (simp add: JoinUsers_def join_separated)

lemma feed_document_separated:
  "feed_document desc = ''{ \"items\" : ['' @ separated '','' (map feed_item desc) @ '' ] }''"
  by (simp add: feed_document_def feed_separated)

text \<open>The statement a query is executed with.\<close>

definition statement_of :: "string \<Rightarrow> query_request" where
  "statement_of query = the (query_request_new (string_bytes query) 0)"

lemma query_request_total: "\<exists>q. query_request_new query 0 = Some q \<and> qr_query q = query \<and> st_elements q = []"
proof -
  obtain mem t where "table_with_capacity 0 (empty_memory :: buffer memory) = Some (mem, t)"
    using table_with_capacity_rep [of 0 empty_memory] by auto
  then show ?thesis by (simp add: query_request_new_def statement.defs statement_base_new_def)
qed

lemma statement_of_query: "qr_query (statement_of query) = string_bytes query"
  using query_request_total [of "string_bytes query"] by (auto simp: statement_of_def)

lemma execQuery_total [simp]: "execQuery exec query db = Some (exec db (statement_of query))"
  using query_request_total [of "string_bytes query"] by (auto simp: execQuery_def statement_of_def)

section \<open>Reading the rows of an answer\<close>

lemma rows_loop_walk:
  assumes "walk result_next result_row fuel it = Some rows"
    and "\<And>it row. result_row it = Some row \<Longrightarrow> item (It_result it) = f row"
    and "list_all2 (\<lambda>row x. f row = Some x) rows xs"
  shows "rows_loop item (It_result it) v = Some (v @ xs)"
  using assms(1,3)
proof (induction fuel arbitrary: it rows xs v)
  case (Suc fuel)
  obtain more it' where step: "result_next it = Some (more, it')" using Suc.prems(1) by (auto split: option.splits)
  show ?case
  proof (cases more)
    case False
    then show ?thesis using step Suc.prems by (subst rows_loop.simps) simp
  next
    case True
    then obtain row rows' where row: "result_row it' = Some row" "rows = row # rows'"
        "walk result_next result_row fuel it' = Some rows'"
      using step Suc.prems(1) by (auto split: option.splits)
    then obtain x xs' where xs: "xs = x # xs'" "f row = Some x" "list_all2 (\<lambda>row x. f row = Some x) rows' xs'"
      using Suc.prems(2) by (auto simp: list_all2_Cons1)
    have "rows_loop item (It_result it') (v @ [x]) = Some ((v @ [x]) @ xs')"
      by (rule Suc.IH [OF row(3) xs(3)])
    then show ?thesis using step True assms(2) [OF row(1)] xs(1,2) by (subst rows_loop.simps) simp
  qed
qed simp

definition cql_text :: data_type where
  "cql_text = Simple_type CASS_VALUE_TYPE_VARCHAR"

text \<open>A result as the driver decodes it from the rows message of the server.\<close>

definition answers :: "(string \<times> data_type) list \<Rightarrow> bytes option list list \<Rightarrow> result_response \<Rightarrow> bool" where
  "answers cols rows r \<longleftrightarrow> (\<exists>version keyspace table rest.
     list_all column_ok cols \<and> length cols < 2 ^ 31 \<and> length rows < 2 ^ 31 \<and>
     length keyspace < 65536 \<and> length table < 65536 \<and> list_all (row_ok version (map (Some \<circ> snd) cols)) rows \<and>
     Option.bind (result_decode version (rows_message None keyspace table cols rows @ rest) result_response_new)
       decode_first_row = Some r)"

definition shows_cells :: "(string \<times> data_type) list \<Rightarrow> cass_value list \<Rightarrow> bytes option list \<Rightarrow> bool" where
  "shows_cells cols vs row \<longleftrightarrow> length vs = length cols \<and> length row = length cols \<and>
     (\<exists>version. \<forall>i < length cols. value_shows version (vs ! i) (Some (snd (cols ! i)), row ! i))"

lemma row_shows_cells:
  assumes "row_shows version (map (Some \<circ> snd) cols) vs row" and "row_ok version (map (Some \<circ> snd) cols) row"
  shows "shows_cells cols vs row"
proof -
  have len: "length row = length cols" using assms(2) by (auto simp: row_ok_def dest: list_all2_lengthD)
  have "length vs = length cols" "\<forall>i < length cols. value_shows version (vs ! i) (Some (snd (cols ! i)), row ! i)"
    using assms(1) len by (auto simp: row_shows_def list_all2_conv_all_nth)
  then show ?thesis using len unfolding shows_cells_def by blast
qed

lemma answers_rows:
  assumes "answers cols rows r"
  obtains fuel vss where "walk result_next result_row fuel (result_iterator_new r) = Some vss"
    "list_all2 (shows_cells cols) vss rows"
    "\<And>quoted name. unquote quoted = Some (False, name) \<Longrightarrow>
       \<exists>m. rr_metadata r = Some m \<and> metadata_get_indices m quoted = Some (positions False name (map fst cols))"
proof -
  obtain version keyspace table rest where a: "list_all column_ok cols" "length cols < 2 ^ 31" "length rows < 2 ^ 31"
      "length keyspace < 65536" "length table < 65536" "list_all (row_ok version (map (Some \<circ> snd) cols)) rows"
      "Option.bind (result_decode version (rows_message None keyspace table cols rows @ rest) result_response_new)
         decode_first_row = Some r"
    using assms unfolding answers_def by blast
  have none: "case (None :: bytes option) of None \<Rightarrow> True | Some s \<Rightarrow> length s < 2 ^ 31" by simp
  note message = rows_message_rows [OF a(1-5) none a(6)]
  have ex: "\<exists>r0 m vss. result_decode version (rows_message None keyspace table cols rows @ rest) result_response_new = Some r0 \<and>
      decode_first_row r0 = Some r \<and> rr_metadata r = Some m \<and>
      metadata_get_indices m quoted = Some (positions cs name (map fst cols)) \<and>
      walk result_next result_row (length rows + 1) (result_iterator_new r) = Some vss \<and>
      list_all2 (row_shows version (map (Some \<circ> snd) cols)) vss rows" if "unquote quoted = Some (cs, name)" for quoted cs name
    using message [OF that, of rest] a(7) by auto
  have "unquote [] = Some (False, [])" by (simp add: unquote_def)
  from ex [OF this] obtain vss where vss: "walk result_next result_row (length rows + 1) (result_iterator_new r) = Some vss"
    "list_all2 (row_shows version (map (Some \<circ> snd) cols)) vss rows" by blast
  have "list_all2 (shows_cells cols) vss rows"
    using vss(2) a(6) row_shows_cells unfolding list_all2_conv_all_nth list_all_length by metis
  then show ?thesis using that vss(1) ex by metis
qed

lemma value_string_shows:
  assumes "value_shows version v (Some cql_text, Some (string_bytes s))"
  shows "value_string (Some v) = Some s"
proof -
  obtain rest where "value_new version (Some cql_text) (string_bytes s @ rest) (int (length (string_bytes s))) = Some v"
    using assms by (auto simp: value_shows_def)
  then show ?thesis
    by (auto simp: cql_text_def value_new_def is_collection_def is_tuple_def is_user_type_def value_string_def
        cass_value_get_string_def check_value_def value_is_null_def)
qed

lemma column_string_shows:
  assumes "answers cols rows r" and "shows_cells cols vs row" and "result_row it = Some vs"
    and "unquote name = Some (False, name)" and "positions False name (map fst cols) = i # is"
    and "snd (cols ! i) = cql_text" and "row ! i = Some (string_bytes s)"
  shows "column_string r name (It_result it) = Some s"
proof -
  obtain m where m: "rr_metadata r = Some m" "metadata_get_indices m name = Some (i # is)"
    using answers_rows [OF assms(1)] assms(4,5) by metis
  have "i \<in> set (positions False name (map fst cols))" using assms(5) by simp
  then have i: "i < length cols" by (auto simp: positions_def)
  then obtain version where "value_shows version (vs ! i) (Some (snd (cols ! i)), row ! i)"
    using assms(2) unfolding shows_cells_def by blast
  then have "value_string (Some (vs ! i)) = Some s"
    using assms(6,7) value_string_shows by simp
  then show ?thesis using m i assms(2,3)
    by (simp add: column_string_def cass_iterator_get_row_def row_get_by_name_def shows_cells_def)
qed


section \<open>The answers of the database\<close>

definition stored :: "string \<Rightarrow> bytes option" where
  "stored s = Some (string_bytes s)"

definition image_columns :: "(string \<times> data_type) list" where
  "image_columns =
     [(''login'', cql_text), (''ts'', Simple_type CASS_VALUE_TYPE_TIMEUUID), (''img'', cql_text)]"

definition image_row :: "image_description \<times> bytes \<Rightarrow> bytes option list" where
  "image_row x = [stored (posted_by (fst x)), Some (snd x), stored (image (fst x))]"

lemma names_positions:
  "positions False ''login'' [''login'', ''ts'', ''img''] = [0]" "positions False ''img'' [''login'', ''ts'', ''img''] = [2]"
  "positions False c [c] = [0]"
  by (simp_all add: positions_def iequals_iff toupper_def upt_rec)

lemma one_column_loop:
  assumes "answers [(c, cql_text)] (map (\<lambda>s. [stored s]) ss) r" and "unquote c = Some (False, c)"
  shows "rows_loop (column_string r c) (cass_iterator_from_result r) v = Some (v @ ss)"
proof -
  obtain fuel vss where walk: "walk result_next result_row fuel (result_iterator_new r) = Some vss"
    "list_all2 (shows_cells [(c, cql_text)]) vss (map (\<lambda>s. [stored s]) ss)"
    using answers_rows [OF assms(1)] .
  define f where "f row = Option.bind (row_get_by_name r row c) value_string" for row
  have item: "column_string r c (It_result it) = f row" if "result_row it = Some row" for it row
    using that by (simp add: column_string_def cass_iterator_get_row_def f_def)
  have "f row = Some s" if "shows_cells [(c, cql_text)] row [stored s]" for row s
  proof -
    let ?it = "\<lparr>ri_result = r\<lparr>rr_first_row := row, rr_row_count := 1\<rparr>, ri_index = 0, ri_position = [], ri_row = []\<rparr>"
    have row: "result_row ?it = Some row" by (simp add: result_row_def)
    have "column_string r c (It_result ?it) = Some s"
      by (rule column_string_shows [OF assms(1) that row assms(2), of 0 "[]"]) (simp_all add: names_positions stored_def)
    then show ?thesis using item [OF row] by simp
  qed
  then have "list_all2 (\<lambda>row s. f row = Some s) vss ss"
    using walk(2) by (auto simp: list_all2_conv_all_nth)
  from rows_loop_walk [OF walk(1) _ this] item show ?thesis by (simp add: cass_iterator_from_result_def)
qed

lemma image_loop:
  assumes "answers image_columns (map image_row xs) r"
  shows "rows_loop (description r) (cass_iterator_from_result r) v = Some (v @ map fst xs)"
proof -
  obtain fuel vss where walk: "walk result_next result_row fuel (result_iterator_new r) = Some vss"
    "list_all2 (shows_cells image_columns) vss (map image_row xs)"
    using answers_rows [OF assms] .
  define g where "g name row = Option.bind (row_get_by_name r row name) value_string" for name row
  define f where "f row = Option.bind (g ''login'' row) (\<lambda>name.
    map_option (\<lambda>img. \<lparr>posted_by = name, image = img\<rparr>) (g ''img'' row))" for row
  have column: "column_string r name (It_result it) = g name row" if "result_row it = Some row" for it row name
    using that by (simp add: column_string_def cass_iterator_get_row_def g_def)
  then have item: "description r (It_result it) = f row" if "result_row it = Some row" for it row
    using that by (simp add: description_def f_def)
  have cells: "f row = Some (fst x)" if "shows_cells image_columns row (image_row x)" for row x
  proof -
    let ?it = "\<lparr>ri_result = r\<lparr>rr_first_row := row, rr_row_count := 1\<rparr>, ri_index = 0, ri_position = [], ri_row = []\<rparr>"
    have row: "result_row ?it = Some row" by (simp add: result_row_def)
    have "column_string r ''login'' (It_result ?it) = Some (posted_by (fst x))"
      "column_string r ''img'' (It_result ?it) = Some (image (fst x))"
      using column_string_shows [OF assms that row, of "''login''" 0 "[]"]
        column_string_shows [OF assms that row, of "''img''" 2 "[]"]
      by (simp_all add: image_columns_def image_row_def names_positions stored_def unquote_def quote_char_def)
    then show ?thesis using column [OF row] by (simp add: f_def)
  qed
  have "list_all2 (\<lambda>row x. f row = Some (fst x)) vss xs"
    by (rule list_all2_mono [OF walk(2) [unfolded list_all2_map2] cells])
  then have "list_all2 (\<lambda>row x. f row = Some x) vss (map fst xs)" by (simp add: list_all2_map2)
  from rows_loop_walk [OF walk(1) _ this] item show ?thesis by (simp add: cass_iterator_from_result_def)
qed

section \<open>Properties\<close>

text \<open>C1: the feed of a user: the handler registers the user whatever comes of it, asks for the subscriptions
  of the user, then for the images of exactly these users, and answers with a document of all images
  of the server's answer, in its order.\<close>

theorem feed_shows_subscriptions:
  assumes "args ''login'' = Some login"
    and "exec db (statement_of (user_query login)) = (db1, registered)"
    and "exec db1 (statement_of (subscribe_query login login)) = (db2, subscribed)"
    and "exec db2 (statement_of (subscriptions_query login False)) = (db3, Inr r)"
    and "answers [(''login_to'', cql_text)] (map (\<lambda>s. [stored s]) subscriptions) r"
    and "exec db3 (statement_of (feed_query subscriptions
        (case args ''top'' of None \<Rightarrow> 10 | Some s \<Rightarrow> extract_size s 10))) = (db4, Inr r')"
    and "answers image_columns (map image_row images) r'"
  shows "GetFeed exec args db =
    Some (db4, answered ''application/json'' (feed_document (map fst images)))"
proof -
  have "rows_loop (column_string r ''login_to'') (cass_iterator_from_result r) [] = Some subscriptions"
    using one_column_loop [OF assms(5)] by (simp add: unquote_def quote_char_def)
  then have "getSubscriptionsCommon exec login False [] db2 = Some (db3, None, subscriptions)"
    using assms(4) by (simp add: getSubscriptionsCommon_def)
  then have "getFeed exec login (case args ''top'' of None \<Rightarrow> 10 | Some s \<Rightarrow> extract_size s 10) [] db2 =
      Some (db4, None, map fst images)"
    using assms(6) image_loop [OF assms(7), of "[]"] by (simp add: getFeed_def)
  then show ?thesis using assms(1-3) by (simp add: GetFeed_def RegisterSelf_def Let_def)
qed


text \<open>A table of one text column or of images, as the server sends it.\<close>

lemma text_row_ok: "length s < 2 ^ 31 \<Longrightarrow> cell_ok version (Some cql_text) (stored s)"
  by (simp add: cell_ok_def frame_ok_def readable_def stored_def cql_text_def value_new_def is_collection_def
      is_tuple_def is_user_type_def)

definition answer_of :: "(string \<times> data_type) list \<Rightarrow> bytes option list list \<Rightarrow> result_response" where
  "answer_of cols rows = the (Option.bind
     (result_decode 3 (rows_message None [] [] cols rows) result_response_new) decode_first_row)"

lemma answer_of_answers:
  assumes "list_all column_ok cols" and "length cols < 2 ^ 31" and "length rows < 2 ^ 31"
    and "list_all (row_ok 3 (map (Some \<circ> snd) cols)) rows"
  shows "answers cols rows (answer_of cols rows)"
proof -
  have none: "case (None :: bytes option) of None \<Rightarrow> True | Some s \<Rightarrow> length s < 2 ^ 31" by simp
  have empty: "length ([] :: bytes) < 65536" by simp
  have "unquote [] = Some (False, [])" by (simp add: unquote_def)
  from rows_message_rows [OF assms(1-3) empty empty none assms(4) this, of "[]"]
  have "Option.bind (result_decode 3 (rows_message None [] [] cols rows @ []) result_response_new) decode_first_row =
      Some (answer_of cols rows)" by (auto simp: answer_of_def)
  then show ?thesis using assms empty unfolding answers_def by blast
qed

text \<open>A server that knows one user, who follows another with one image.\<close>

definition example_image :: image_description where
  "example_image = \<lparr>posted_by = ''eve'', image = ''aGk=''\<rparr>"

definition example_server :: "(nat, unit) server" where
  "example_server n q = (Suc n,
     if n = 2 then Inr (answer_of [(''login_to'', cql_text)] [[stored ''eve'']])
     else if n = 3 then Inr (answer_of image_columns [image_row (example_image, [])])
     else Inl ())"

theorem feed_shows_subscriptions_witness:
  "GetFeed example_server [''login'' \<mapsto> ''bob''] 0 =
    Some (4, answered ''application/json'' ''{ \"items\" : [{\"owner\":\"eve\", \"image\": \"aGk=\"} ] }'')"
proof -
  have cols: "list_all column_ok [(''login_to'', cql_text)]" "list_all column_ok image_columns"
    by (simp_all add: column_ok_def cql_text_def image_columns_def)
  have "row_ok 3 [Some cql_text] [stored ''eve'']" "row_ok 3 (map (Some \<circ> snd) image_columns) (image_row (example_image, []))"
    using text_row_ok [of "''eve''" 3] text_row_ok [of "''aGk=''" 3]
    by (simp_all add: row_ok_def image_columns_def image_row_def example_image_def cell_ok_def frame_ok_def readable_def
        value_new_def is_collection_def is_tuple_def is_user_type_def)
  then have "answers [(''login_to'', cql_text)] (map (\<lambda>s. [stored s]) [''eve'']) (answer_of [(''login_to'', cql_text)] [[stored ''eve'']])"
    "answers image_columns (map image_row [(example_image, [])]) (answer_of image_columns [image_row (example_image, [])])"
    using answer_of_answers [OF cols(1), of "[[stored ''eve'']]"]
      answer_of_answers [OF cols(2), of "[image_row (example_image, [])]"]
    by (simp_all add: image_columns_def)
  then show ?thesis
    using feed_shows_subscriptions [of "[''login'' \<mapsto> ''bob'']" "''bob''" example_server 0 1 "Inl ()" 2 "Inl ()" 3
        "answer_of [(''login_to'', cql_text)] [[stored ''eve'']]" "[''eve'']" 4
        "answer_of image_columns [image_row (example_image, [])]" "[(example_image, [])]"]
    by (simp add: example_server_def feed_document_def feed_item_def example_image_def)
qed

text \<open>A server that keeps the texts of the queries it is given.\<close>

definition logging :: "('db, 'e) server \<Rightarrow> ('db \<times> string list, 'e) server" where
  "logging exec s q = (case exec (fst s) q of (db, answer) \<Rightarrow> ((db, snd s @ [bytes_string (qr_query q)]), answer))"

definition last_error :: "('db, 'e) server \<Rightarrow> string list \<Rightarrow> 'db \<Rightarrow> bool" where
  "last_error exec queries db =
     (query_error (snd (exec (foldl (\<lambda>db q. fst (exec db (statement_of q))) db (butlast queries))
        (statement_of (last queries)))) \<noteq> None)"

lemma logging_step:
  "logging exec (db, log) (statement_of q) =
     ((fst (exec db (statement_of q)), log @ [q]), snd (exec db (statement_of q)))"
  by (simp add: logging_def statement_of_query split: prod.split)

text \<open>a request that writes, to post an image or to subscribe, gives the server exactly three queries, in
  this order: the user, the subscription of the user to itself, and what was asked for. Only the
  answer to the last decides the status. A request without its arguments gives it none: a post is
  then refused, a subscription is returned without a status.\<close>

theorem writing_requests:
  "PostImage (logging exec) args (db, log) =
     (case (args ''login'', args ''image'') of
        (Some login, Some img) \<Rightarrow>
          (let queries = [user_query login, subscribe_query login login, image_query login img] in
           Some ((foldl (\<lambda>db q. fst (exec db (statement_of q))) db queries, log @ queries),
             if last_error exec queries db then not_found else answered ''text/plain'' ''POST!''))
      | _ \<Rightarrow> Some ((db, log), not_found)) \<and>
   SubscribeTo (logging exec) args (db, log) =
     (case (args ''login'', args ''to'') of
        (Some login, Some to) \<Rightarrow>
          (let queries = [user_query login, subscribe_query login login, subscribe_query login to] in
           Some ((foldl (\<lambda>db q. fst (exec db (statement_of q))) db queries, log @ queries),
             if last_error exec queries db then not_found else answered ''text/plain'' ''SUBSCRIBED!''))
      | _ \<Rightarrow> Some ((db, log), untouched))"
  by (auto simp: PostImage_def SubscribeTo_def RegisterSelf_def postImage_def logging_step last_error_def Let_def
      split: option.split)


section \<open>How the server reads the queries\<close>

text \<open>
  The pieces of a CQL text: what is outside of string literals, and the literals, in which two
  apostrophes stand for one (the lexical structure in the documentation of CQL); \<open>Cql_open\<close> is a
  literal without an end.
\<close>

datatype cql_piece = Cql_text string | Cql_literal string | Cql_open string

function cql_outside :: "string \<Rightarrow> string \<Rightarrow> cql_piece list"
  and cql_inside :: "string \<Rightarrow> string \<Rightarrow> cql_piece list"
where
  "cql_outside acc [] = [Cql_text (rev acc)]"
| "cql_outside acc (c # s) =
     (if c = apostrophe then Cql_text (rev acc) # cql_inside [] s else cql_outside (c # acc) s)"
| "cql_inside acc [] = [Cql_open (rev acc)]"
| "cql_inside acc [c] = (if c = apostrophe then [Cql_literal (rev acc), Cql_text []] else [Cql_open (rev (c # acc))])"
| "cql_inside acc (c # d # s) =
     (if c = apostrophe then
        (if d = apostrophe then cql_inside (d # acc) s else Cql_literal (rev acc) # cql_outside [] (d # s))
      else cql_inside (c # acc) (d # s))"
  by pat_completeness auto
termination by (relation "measure (\<lambda>x. case x of Inl (acc, s) \<Rightarrow> length s | Inr (acc, s) \<Rightarrow> length s)") auto

definition cql_pieces :: "string \<Rightarrow> cql_piece list" where
  "cql_pieces query = cql_outside [] query"

definition apostrophes :: "string \<Rightarrow> nat" where
  "apostrophes s = length (filter (\<lambda>c. c = apostrophe) s)"

lemma apostrophes_simps [simp]:
  "apostrophes [] = 0" "apostrophes (c # s) = (if c = apostrophe then 1 else 0) + apostrophes s"
  "apostrophes (s @ t) = apostrophes s + apostrophes t" "apostrophes (rev s) = apostrophes s"
  by (simp_all add: apostrophes_def rev_filter [symmetric])

lemma apostrophes_0: "apostrophes s = 0 \<longleftrightarrow> apostrophe \<notin> set s"
  by (auto simp: apostrophes_def filter_empty_conv)

fun piece_apostrophes :: "cql_piece \<Rightarrow> nat" where
  "piece_apostrophes (Cql_text s) = apostrophes s"
| "piece_apostrophes (Cql_literal s) = 2 + 2 * apostrophes s"
| "piece_apostrophes (Cql_open s) = 1 + 2 * apostrophes s"

lemma pieces_apostrophes:
  "sum_list (map piece_apostrophes (cql_outside acc s)) = apostrophes acc + apostrophes s"
  "sum_list (map piece_apostrophes (cql_inside acc s)) = 1 + 2 * apostrophes acc + apostrophes s"
  by (induction acc s and acc s rule: cql_outside_cql_inside.induct) auto

lemma outside_text:
  "apostrophe \<notin> set s \<Longrightarrow> cql_outside acc s = [Cql_text (rev acc @ s)]"
  "apostrophe \<notin> set s \<Longrightarrow> cql_outside acc (s @ apostrophe # rest) = Cql_text (rev acc @ s) # cql_inside [] rest"
  by (induction s arbitrary: acc) auto

lemma inside_literal:
  assumes "apostrophe \<notin> set s" and "rest \<noteq> []" and "hd rest \<noteq> apostrophe"
  shows "cql_inside acc (s @ apostrophe # rest) = Cql_literal (rev acc @ s) # cql_outside [] rest"
  using assms(1)
proof (induction s arbitrary: acc)
  case Nil
  then show ?case using assms(2,3) by (cases rest) auto
next
  case (Cons c s)
  then show ?case by (cases s) (use assms(2,3) in \<open>auto split: list.splits\<close>)
qed

text \<open>A text with values between apostrophes, each with the text behind it.\<close>

fun with_values :: "string \<Rightarrow> (string \<times> string) list \<Rightarrow> string" where
  "with_values t [] = t"
| "with_values t ((v, u) # vs) = t @ quoted v @ with_values u vs"

fun meant_pieces :: "string \<Rightarrow> (string \<times> string) list \<Rightarrow> cql_piece list" where
  "meant_pieces t [] = [Cql_text t]"
| "meant_pieces t ((v, u) # vs) = Cql_text t # Cql_literal v # meant_pieces u vs"

lemma with_values_start: "t \<noteq> [] \<Longrightarrow> with_values t vs \<noteq> [] \<and> hd (with_values t vs) = hd t"
  by (cases vs) auto

lemma pieces_as_meant:
  assumes "apostrophe \<notin> set t" and "list_all (\<lambda>(v, u). u \<noteq> [] \<and> apostrophe \<notin> set u) vs"
  shows "cql_pieces (with_values t vs) = meant_pieces t vs \<longleftrightarrow> list_all (\<lambda>(v, u). apostrophe \<notin> set v) vs"
proof
  assume "list_all (\<lambda>(v, u). apostrophe \<notin> set v) vs"
  then show "cql_pieces (with_values t vs) = meant_pieces t vs" using assms
  proof (induction t vs rule: with_values.induct)
    case (2 t v u vs)
    then have "u \<noteq> []" "apostrophe \<notin> set u" by simp_all
    then have u: "hd u \<noteq> apostrophe" by (metis hd_in_set)
    have "cql_inside [] (v @ apostrophe # with_values u vs) = Cql_literal v # cql_outside [] (with_values u vs)"
      using inside_literal [of v "with_values u vs" "[]"] with_values_start [of u vs] 2 u by simp
    then show ?case using 2 outside_text(2) [of t "[]"] by (simp add: cql_pieces_def quoted_def)
  qed (simp add: cql_pieces_def outside_text)
next
  assume eq: "cql_pieces (with_values t vs) = meant_pieces t vs"
  have "sum_list (map piece_apostrophes (meant_pieces t vs)) =
      apostrophes t + sum_list (map (\<lambda>(v, u). 2 + 2 * apostrophes v + apostrophes u) vs)"
    by (induction t vs rule: meant_pieces.induct) auto
  moreover have "apostrophes (with_values t vs) = apostrophes t + sum_list (map (\<lambda>(v, u). 2 + apostrophes v + apostrophes u) vs)"
    by (induction t vs rule: with_values.induct) (auto simp: quoted_def)
  moreover have "sum_list (map piece_apostrophes (cql_pieces (with_values t vs))) = apostrophes (with_values t vs)"
    using pieces_apostrophes(1) [of "[]"] by (simp add: cql_pieces_def)
  ultimately have "sum_list (map (\<lambda>(v, u). 2 + 2 * apostrophes v + apostrophes u) vs) =
      sum_list (map (\<lambda>(v, u). 2 + apostrophes v + apostrophes u) vs)" using eq by simp
  moreover have "sum_list (map (\<lambda>(v, u). 2 + 2 * apostrophes v + apostrophes u) vs) =
      sum_list (map (\<lambda>(v, u). 2 + apostrophes v + apostrophes u) vs) + sum_list (map (\<lambda>(v, u). apostrophes v) vs)"
    by (induction vs) auto
  ultimately have "sum_list (map (\<lambda>(v, u). apostrophes v) vs) = 0" by linarith
  then show "list_all (\<lambda>(v, u). apostrophe \<notin> set v) vs"
    by (auto simp: list_all_iff apostrophes_0)
qed


definition users_as_values :: "string \<Rightarrow> string list \<Rightarrow> string \<Rightarrow> (string \<times> string) list" where
  "users_as_values sep users end_text = map (\<lambda>u. (u, sep)) (butlast users) @ [(last users, end_text)]"

lemma with_users:
  "users \<noteq> [] \<Longrightarrow> with_values t (users_as_values '','' users e) = t @ separated '','' (map quoted users) @ e"
proof (induction users arbitrary: t rule: list_nonempty_induct)
  case (cons u us)
  then show ?case by (cases us) (simp_all add: users_as_values_def)
qed (simp add: users_as_values_def)

lemma of_digit: "n < 10 \<Longrightarrow> (of_char (char_of (48 + n) :: char) :: nat) = 48 + n"
  by simp

lemma digit_not_apostrophe: "n < 10 \<Longrightarrow> char_of (48 + n :: nat) \<noteq> apostrophe"
proof
  assume "n < 10" and eq: "char_of (48 + n) = apostrophe"
  have "(of_char (char_of (48 + n) :: char) :: nat) = of_char apostrophe" by (simp only: eq)
  then show False unfolding of_digit [OF \<open>n < 10\<close>] by (simp add: apostrophe_def)
qed

lemma show_nat_no_apostrophe: "apostrophe \<notin> set (show_nat n)"
proof (induction n rule: show_nat.induct)
  case (1 n)
  have "char_of (48 + n mod 10) \<noteq> apostrophe" by (rule digit_not_apostrophe) simp
  then show ?case using 1 by (subst show_nat.simps) auto
qed

lemma feed_pieces:
  assumes users: "users \<noteq> []"
  shows "cql_pieces (feed_query users n) =
      meant_pieces ''SELECT * from img2web.images WHERE login IN (''
        (users_as_values '','' users ('') ORDER BY ts DESC LIMIT '' @ show_nat n @ '';''))
    \<longleftrightarrow> list_all (\<lambda>u. apostrophe \<notin> set u) users"
proof -
  let ?e = "'') ORDER BY ts DESC LIMIT '' @ show_nat n @ '';''"
  let ?t = "''SELECT * from img2web.images WHERE login IN (''"
  have "apostrophe \<notin> set ?t" "apostrophe \<notin> set ?e" "apostrophe \<notin> set '',''"
    using show_nat_no_apostrophe [of n] by (simp_all add: apostrophe_def)
  then have "cql_pieces (with_values ?t (users_as_values '','' users ?e)) = meant_pieces ?t (users_as_values '','' users ?e)
      \<longleftrightarrow> list_all (\<lambda>(v, u). apostrophe \<notin> set v) (users_as_values '','' users ?e)"
    by (intro pieces_as_meant) (simp_all add: users_as_values_def list_all_iff)
  moreover have "list_all (\<lambda>(v, u). apostrophe \<notin> set v) (users_as_values '','' users ?e) \<longleftrightarrow>
      list_all (\<lambda>u. apostrophe \<notin> set u) (butlast users @ [last users])"
    by (simp add: users_as_values_def list_all_iff)
  moreover have "with_values ?t (users_as_values '','' users ?e) = feed_query users n"
    using with_users [OF users, of ?t ?e] by (simp add: feed_query_def JoinUsers_separated)
  ultimately show ?thesis using users by simp
qed



section \<open>How the feed is read\<close>

text \<open>
  A reader of the documents that the handler writes, after the grammar of JSON: characters of a
  string up to its quotation mark; a backslash would start an escape and controls are not allowed.
\<close>

definition json_char :: "char \<Rightarrow> bool" where
  "json_char c \<longleftrightarrow> c \<noteq> quote_char \<and> c \<noteq> CHR 0x5C \<and> 32 \<le> (of_char c :: nat)"

definition json_string :: "string \<Rightarrow> (string \<times> string) option" where
  "json_string s =
     (case dropWhile json_char s of
        [] \<Rightarrow> None
      | c # rest \<Rightarrow> if c = quote_char then Some (takeWhile json_char s, rest) else None)"

definition strip :: "string \<Rightarrow> string \<Rightarrow> string option" where
  "strip t s = (if take (length t) s = t then Some (drop (length t) s) else None)"

definition read_item :: "string \<Rightarrow> (image_description \<times> string) option" where
  "read_item s = do {
     s \<leftarrow> strip ''{\"owner\":\"'' s;
     (owner, s) \<leftarrow> json_string s;
     s \<leftarrow> strip '', \"image\": \"'' s;
     (img, s) \<leftarrow> json_string s;
     s \<leftarrow> strip ''}'' s;
     Some (\<lparr>posted_by = owner, image = img\<rparr>, s)
   }"

fun read_items :: "nat \<Rightarrow> string \<Rightarrow> image_description list option" where
  "read_items 0 s = None"
| "read_items (Suc n) s = do {
     (item, s) \<leftarrow> read_item s;
     if s = '' ] }'' then Some [item]
     else do { s \<leftarrow> strip '','' s; items \<leftarrow> read_items n s; Some (item # items) }
   }"

definition read_feed :: "string \<Rightarrow> image_description list option" where
  "read_feed s = do {
     s \<leftarrow> strip ''{ \"items\" : ['' s;
     if s = '' ] }'' then Some [] else read_items (length s) s
   }"

lemma strip_append [simp]: "strip t (t @ s) = Some s"
  by (simp add: strip_def)

lemma json_string_read:
  assumes "list_all json_char x"
  shows "json_string (x @ quote_char # s) = Some (x, s)"
proof -
  have "\<not> json_char quote_char" by (simp add: json_char_def)
  then have "dropWhile json_char (x @ quote_char # s) = quote_char # s" "takeWhile json_char (x @ quote_char # s) = x"
    using assms by (induction x) auto
  then show ?thesis by (simp add: json_string_def)
qed

definition clean_item :: "image_description \<Rightarrow> bool" where
  "clean_item item \<longleftrightarrow> list_all json_char (posted_by item) \<and> list_all json_char (image item)"

lemma feed_item_parts:
  "feed_item item @ s = ''{\"owner\":\"'' @ posted_by item @ quote_char # ('', \"image\": \"'' @ image item @ quote_char # (''}'' @ s))"
  by (simp add: feed_item_def quote_char_def)

lemma read_item_written: "clean_item item \<Longrightarrow> read_item (feed_item item @ s) = Some (item, s)"
  unfolding feed_item_parts read_item_def clean_item_def strip_append
  by (simp only: Option.bind.simps json_string_read strip_append prod.case) simp

lemma read_items_written:
  assumes "items \<noteq> []" and "list_all clean_item items" and "length items \<le> n"
  shows "read_items n (separated '','' (map feed_item items) @ '' ] }'') = Some items"
  using assms
proof (induction items arbitrary: n rule: list_nonempty_induct)
  case (single item)
  then obtain m where "n = Suc m" by (cases n) auto
  then show ?case using single read_item_written [of item "'' ] }''"] by simp
next
  case (cons item items)
  then obtain m where m: "n = Suc m" "length items \<le> m" by (cases n) auto
  let ?rest = "separated '','' (map feed_item items) @ '' ] }''"
  have "separated '','' (map feed_item (item # items)) @ '' ] }'' = feed_item item @ '','' @ ?rest"
    using cons(1) by (cases items) simp_all
  moreover have "read_item (feed_item item @ '','' @ ?rest) = Some (item, '','' @ ?rest)"
    using cons by (intro read_item_written) simp
  moreover have "strip '','' ('','' @ ?rest) = Some ?rest" by (rule strip_append)
  moreover have "read_items m ?rest = Some items" using cons m(2) by simp
  ultimately show ?case by (simp add: m(1))
qed

lemma feed_read:
  assumes "list_all clean_item items"
  shows "read_feed (feed_document items) = Some items"
proof (cases "items = []")
  case True
  then show ?thesis by (simp add: feed_document_def read_feed_def strip_def)
next
  case False
  let ?s = "separated '','' (map feed_item items) @ '' ] }''"
  have long: "length items \<le> length (separated '','' (map feed_item items))" for items
    by (induction items rule: induct_list012) (simp_all add: feed_item_def)
  have "read_items (length ?s) ?s = Some items"
    by (rule read_items_written [OF False assms]) (use long [of items] in simp)
  moreover have "?s \<noteq> '' ] }''" using long [of items] False by auto
  moreover have "strip ''{ \"items\" : ['' (feed_document items) = Some ?s"
    unfolding feed_document_separated by (rule strip_append)
  ultimately show ?thesis by (simp add: read_feed_def)
qed

text \<open>C3: the document of a feed is read back, by the grammar of JSON, as exactly its items in their order,
  when no owner and no image holds a quotation mark, a backslash or a control character.\<close>

theorem feed_read_back:
  assumes "list_all clean_item items"
  shows "read_feed (feed_document items) = Some items"
  using feed_read [OF assms] .

theorem feed_read_back_witness:
  "read_feed (feed_document [example_image, \<lparr>posted_by = [], image = ''x''\<rparr>]) =
     Some [example_image, \<lparr>posted_by = [], image = ''x''\<rparr>]"
  by (rule feed_read_back) (simp add: clean_item_def example_image_def json_char_def quote_char_def)

lemma broken_feed: "read_feed (feed_document [\<lparr>posted_by = [quote_char], image = []\<rparr>]) = None"
  by (simp add: feed_document_def feed_item_def read_feed_def strip_def json_string_def json_char_def quote_char_def
      read_item_def)

section \<open>The number of images\<close>

lemma decimal_snoc:
  "list_all isdigit s \<Longrightarrow> isdigit c \<Longrightarrow> decimal v (s @ [c]) = 10 * decimal v s + digit_value c"
  by (induction s arbitrary: v) simp_all

lemma digit_char: "n < 10 \<Longrightarrow> isdigit (char_of (48 + n :: nat)) \<and> digit_value (char_of (48 + n)) = n"
  unfolding isdigit_def digit_value_def using of_digit [of n] by (simp add: Let_def)

lemma show_nat_read: "list_all isdigit (show_nat n) \<and> decimal 0 (show_nat n) = n"
proof (induction n rule: show_nat.induct)
  case (1 n)
  have d: "isdigit (char_of (48 + n mod 10))" "digit_value (char_of (48 + n mod 10)) = n mod 10"
    using digit_char [of "n mod 10"] by simp_all
  show ?case
  proof (cases "n < 10")
    case True
    then show ?thesis using d by (subst (1 2) show_nat.simps) simp
  next
    case False
    then show ?thesis using 1 d decimal_snoc [of "show_nat (n div 10)"] by (subst (1 2) show_nat.simps) simp
  qed
qed

lemma digit_no_space: "isdigit c \<Longrightarrow> \<not> isspace c \<and> c \<noteq> CHR ''-'' \<and> c \<noteq> CHR ''+''"
  by (auto simp: isdigit_def isspace_def Let_def)

lemma show_nat_first:
  obtains c s where "show_nat n = c # s" "isdigit c"
proof (cases "show_nat n")
  case Nil
  then show ?thesis by (subst (asm) show_nat.simps) simp
next
  case (Cons c s)
  then show ?thesis using that show_nat_read [of n] by simp
qed

text \<open>the argument \<open>top\<close> limits the feed to its number, as the client sends it. An argument that is no
  number is not replaced by 10, as the handler means to, but asks for 0 images, and one below zero is
  taken for a number close to \<open>2 ^ 64\<close>.\<close>

theorem top_argument:
  assumes "\<not> isspace c" and "\<not> isdigit c" and "c \<noteq> CHR ''+''" and "c \<noteq> CHR ''-''" and "0 < m" and "m < 2 ^ 64"
  shows "extract_size (show_nat n) 10 = min n (2 ^ 64 - 1) \<and> extract_size (c # s) 10 = 0 \<and>
    extract_size (CHR ''-'' # show_nat m) 10 = 2 ^ 64 - m"
proof (intro conjI)
  obtain d t where s: "show_nat n = d # t" "isdigit d" using show_nat_first .
  then show "extract_size (show_nat n) 10 = min n (2 ^ 64 - 1)"
    using show_nat_read [of n] digit_no_space [OF s(2)]
    by (auto simp: extract_size_def strtoul10_def Let_def)
  show "extract_size (c # s) 10 = 0" using assms by (simp add: extract_size_def strtoul10_def Let_def)
  have "decimal 0 (show_nat m) = m" using show_nat_read by blast
  moreover have "\<not> isspace (CHR ''-'')" by (simp add: isspace_def)
  ultimately show "extract_size (CHR ''-'' # show_nat m) 10 = 2 ^ 64 - m"
    using assms(5,6) by (simp add: extract_size_def strtoul10_def Let_def)
qed

theorem top_argument_witness:
  "extract_size (show_nat 25) 10 = 25 \<and> extract_size ''all'' 10 = 0 \<and>
   extract_size (CHR ''-'' # show_nat 1) 10 = 18446744073709551615"
  using top_argument [of "CHR ''a''" 1 25 "''ll''"] by (simp add: isspace_def isdigit_def)

text \<open>The list of the users is the column of the answer, between brackets and apostrophes.\<close>

lemma users_listed:
  assumes "exec db (statement_of ''SELECT login FROM img2web.users;'') = (db', Inr r)"
    and "answers [(''login'', cql_text)] (map (\<lambda>s. [stored s]) users) r"
  shows "ShowUsers exec args db =
    Some (db', answered ''text/plain'' (''('' @ separated '','' (map quoted users) @ '')''))"
  using assms(1) one_column_loop [OF assms(2)]
  by (simp add: ShowUsers_def getUsers_def JoinUsers_separated unquote_def quote_char_def)

text \<open>When the query for the subscriptions fails, the feed is refused and no images are asked for.\<close>

lemma feed_refused:
  assumes "args ''login'' = Some login"
    and "exec db (statement_of (user_query login)) = (db1, registered)"
    and "exec db1 (statement_of (subscribe_query login login)) = (db2, subscribed)"
    and "exec db2 (statement_of (subscriptions_query login False)) = (db3, Inl rc)"
  shows "GetFeed exec args db = Some (db3, not_found)"
  using assms by (simp add: GetFeed_def RegisterSelf_def getFeed_def getSubscriptionsCommon_def Let_def)

end
