(* ===== verification/Spec2Isabelle.thy ===== *)
theory Spec2Isabelle
  imports Buffer Token_Map Stream_Manager Retry_Policy Timestamp_Generator Request_Handler Connection Attempt Session IO_Worker
    Data_Type_Parser Schema_Metadata Event_Response Image_Service
begin

text \<open>
  A verification library of the img2web service and of the Cassandra driver it contains
  (\<open>src/cpp-driver-master/src\<close>, all file names below are relative to that directory).

  The program. The service (\<open>img2web.cpp\<close>, \<open>cassandra_db.cpp\<close> in \<open>src\<close>) answers the requests of a fastcgi
  daemon from queries to a Cassandra database, which it makes with the driver. A session (\<open>session.cpp\<close>) resolves its contact points, learns the hosts of the
  cluster over a control connection and starts I/O workers. A request is given a query plan by
  the load balancing policies, is queued at a worker (\<open>io_worker.cpp\<close>) whose pools
  (\<open>pool.cpp\<close>) have connections to the hosts (\<open>connection.cpp\<close>), is encoded, framed and
  written under a stream id (\<open>stream_manager.hpp\<close>), and is finished by its response, an error or
  a timeout, perhaps after retries (\<open>request_handler.cpp\<close>, \<open>retry_policy.cpp\<close>). The token
  aware policy asks the token map (\<open>token_map.cpp\<close>) for the replicas of the key of a request.

  The theories, from the bottom up.

  \<^item> \<open>Prelude\<close>: machine types, the reader type of the decoders, the contract of a wire codec
    (locale \<open>wire_codec\<close> with its clients in \<open>Serialization\<close> and \<open>Buffer\<close>), word and list lemmas.
  \<^item> \<open>Address\<close>, \<open>Serialization\<close>, \<open>Buffer\<close>, \<open>String_Util\<close>, \<open>Std_Map\<close>: addresses with their order,
    the big endian encoders and decoders of \<open>serialization.hpp\<close>, the bounds-checked buffer of
    \<open>buffer.hpp\<close>, string helpers, and the ordered map the metadata uses (locale \<open>ordered_map\<close>).
  \<^item> \<open>Host\<close>, \<open>Murmur3\<close>, \<open>Md5\<close>, \<open>Replication\<close>, \<open>Token_Map\<close>: hosts and host lists, the hashes of the
    partitioners, the replication strategies and the ring. Lemmas: the hashes agree with their
    references, the walks of the strategies take what they should from the ring, the map of
    replicas stays the strategy's result on the current ring.
  \<^item> \<open>Load_Balancing\<close>: the policies as a nested datatype, their events and query plans; locales
    \<open>host_plan\<close> and \<open>ordered_plan\<close> hold what a wrapping policy relies on in its child.
  \<^item> \<open>Retry_Policy\<close>, \<open>Timestamp_Generator\<close>, \<open>Stream_Manager\<close>: decisions on errors; a compare and
    exchange loop as interleaved steps of threads; stream ids as bits of words.
  \<^item> \<open>Response_Message\<close>, \<open>Error_Response\<close>: framing of a byte stream however it is cut, and the
    bodies of errors.
  \<^item> \<open>Handler\<close>, \<open>Request_Handler\<close>, \<open>Attempt\<close>: the states of a request, its retries and its end, and
    one attempt on a connection under all orders of the callbacks.
  \<^item> \<open>Connection\<close>, \<open>Pool\<close>, \<open>IO_Worker\<close>, \<open>Session\<close>: the state machines. Each is a record, a function
    for each handler with an assertion as \<open>None\<close>, a step relation, and an invariant that every
    step keeps. They are composed: a pool holds connections of theory \<open>Connection\<close> and hears
    what they tell, a worker holds pools of theory \<open>Pool\<close> and answers their calls. What is heard
    goes through one contract, the locale \<open>availability_source\<close>: the changes a connection tells
    its pool, and a pool its worker, alternate, so counts and sets built from them are right.

  \<^item> \<open>Hash_Table\<close>: the table that finds columns, fields and parameters by name, over an explicit
    memory of vectors and pointers, refined to the list of the names in the order they were
    added (locale \<open>name_lookup\<close>); with a pointer copied or left behind the table is shown wrong.
  \<^item> \<open>Data_Type\<close>, \<open>Data_Type_Parser\<close>: the types of CQL values with their comparison and C interface,
    and the parsers of Java class names and of CQL types. Lemmas: what is parsed is well-formed,
    comparison of well-formed types cannot fail, and parsing the class name of a type gives it back.
  \<^item> \<open>Values\<close>: the values an application binds, collections as shared objects with reference counts,
    tuples, user type values and the elements of a statement. Lemmas: what the encoders write (the
    frames of locale \<open>framed_values\<close>), exact counts, binding by name.
  \<^item> \<open>Result\<close>: the bodies of results, types on the wire, rows, the accessors of values and the
    iterators, whose loops share the locale \<open>iterates\<close>. Lemmas: what was encoded is read back; where
    a value is read behind its end or with the wrong lengths.
  \<^item> \<open>Statement\<close>: statements, executions, batches, the requests of the handshake and prepared
    statements. Lemmas: the length an encoder reports is that of its buffers, so that the frame of
    theory \<open>Handler\<close> is well-formed; routing keys; where a statement cannot be encoded any more.
  \<^item> \<open>Schema_Metadata\<close>, \<open>Event_Response\<close>: the schema a session keeps, built from the rows of the
    server's tables in a back buffer or changed in place, with its snapshots and lookups, and the
    events a server pushes. Lemmas: a load replaces the schema unseen, columns reach their tables
    with the keys in order, functions are found by their arguments, events are read back.
  \<^item> \<open>Image_Service\<close>: the service itself, its client of the driver and its four handlers; the database
    is a parameter that is given statements of theory \<open>Statement\<close> and returns results of theory
    \<open>Result\<close>. Lemmas: the feed is what the server answers for the user's subscriptions, which queries
    are made in which order, when the server reads them as they are meant, and what the documents are.

  Errors and effects. A failed assertion, a null pointer or a read behind the end is \<open>None\<close>; a
  reported error is a value. Calls to other objects are recorded in order (events, effects,
  calls) and answered by the theory above. Timers, sockets, the event queue and threads are not
  state: their callbacks are steps that may happen whenever the model's state allows them, so a
  property of all reachable states covers every order.

  Recursion. Loops over lists are structural. The loop of \<open>io_worker_retry\<close> ends by the length of
  the query plan, that of \<open>next_pow_2\<close> by the distance to the bound, and the nested loops of query
  plans run with a number of calls left (\<open>calls_left\<close>) that is proved enough, since each call
  shortens the rest of the plan. The loops of the type parsers end by the characters left, the
  parsers themselves because a parameter is shorter than what it was read from; a chain of the
  hash table may be a cycle after a wrong copy and is a partial function. \<open>close_first\<close> (\<open>IOWorker::maybe_close\<close> without core connections)
  may run forever and is a partial function. Liveness is shown by a measure on the owed steps:
  phases and workers for a session, open connections for a worker.

  Machine integers. Stream words, hashes, tokens, timestamps and sizes on the wire are words of
  their width, so wrap-around is part of the models; counters that cannot wrap in practice are
  \<open>nat\<close> or \<open>int\<close>, and a signed counter with an assertion is \<open>int\<close> with the assertion written out.

  Not modelled: libuv, OpenSSL and the vendored libraries (calls into them are arguments or
  steps); log lines and metrics (no effect on the rest); memory management except where a
  reference count is part of a property; the floating point weight of the latency average (an
  argument). The components that are not modelled are listed with the reason in the manifest of
  the library.
\<close>

end
